(* ===== verification/Prelude.thy ===== *)
theory Prelude
  imports
    Main
    "HOL-Library.Multiset"
    "HOL-Library.Monad_Syntax"
    "HOL-Library.Signed_Division"
begin

text \<open>
  Shared foundation of the development: how a failing C++ statement is represented, checked
  32-bit arithmetic, loops with early failure, and the generic lemmas on lists and multisets
  that the components use.

  A computation of the modelled program has type \<open>'a option\<close>. \<open>None\<close> stands for every way in
  which the source does not return: a failing \<open>assert\<close> or \<open>GGML_ASSERT\<close>, an exception that no
  caller in the model catches, undefined behaviour (an index out of range, signed overflow, a
  division by zero), or a loop that does not stop. So \<open>f x = Some y\<close> is a total-correctness
  statement: the call returns, no assertion of the source fires on the way, and the result is
  \<open>y\<close>. Errors that the source reports to its caller (a \<open>false\<close> result, an empty slot, a status
  code) are ordinary values of the result.
\<close>

section \<open>Collections of facts\<close>

named_theorems cells_simps \<open>how each operation changes the abstract view of the cells\<close>
named_theorems inv_intros \<open>operations preserve the invariant of their component\<close>

section \<open>Assertions\<close>

definition require :: "bool \<Rightarrow> unit option" where
  "require b = (if b then Some () else None)"

lemma require_simps [simp]:
  "require True = Some ()"
  "require False = None"
  by (simp_all add: require_def)

lemma bind_require [simp]: "b \<Longrightarrow> Option.bind (require b) f = f ()"
  by (simp add: require_def)

lemma bind_require_eq_Some:
  "(Option.bind (require b) f = Some y) \<longleftrightarrow> b \<and> f () = Some y"
  by (simp add: require_def)

lemma require_eq_Some [simp]: "require b = Some u \<longleftrightarrow> b"
  by (simp add: require_def)

lemmas bind_Some_iff = Option.bind_eq_Some_conv bind_require_eq_Some

section \<open>Checked 32-bit signed arithmetic\<close>

definition INT32_MAX :: int where
  "INT32_MAX = 2147483647"

definition INT32_MIN :: int where
  "INT32_MIN = - 2147483648"

definition in_i32 :: "int \<Rightarrow> bool" where
  "in_i32 x \<longleftrightarrow> INT32_MIN \<le> x \<and> x \<le> INT32_MAX"

text \<open>Signed overflow is undefined behaviour: the result of an \<open>int32_t\<close> expression exists only
  in range.\<close>

definition i32 :: "int \<Rightarrow> int option" where
  "i32 x = (if in_i32 x then Some x else None)"

lemma i32_Some [simp]: "in_i32 x \<Longrightarrow> i32 x = Some x"
  by (simp add: i32_def)

lemma i32_eq_Some: "i32 x = Some y \<longleftrightarrow> in_i32 x \<and> y = x"
  by (auto simp: i32_def)

text \<open>The \<open>/\<close> of C++ on signed integers truncates towards zero; dividing by zero is undefined.\<close>

definition cdiv :: "int \<Rightarrow> int \<Rightarrow> int option" where
  "cdiv a b = (if b = 0 then None else i32 (a sdiv b))"

lemma sdiv_nonneg_bounds:
  fixes a b :: int
  assumes "0 \<le> a" "0 < b"
  shows "0 \<le> a sdiv b" "a sdiv b \<le> a"
proof -
  have "a sdiv b = a div b"
    using assms by (simp add: signed_divide_int_def sgn_if)
  then show "0 \<le> a sdiv b" "a sdiv b \<le> a"
    using assms int_div_less_self [of a b]
    by (simp_all add: pos_imp_zdiv_nonneg_iff) (cases "b = 1"; cases "a = 0"; simp)
qed

lemma cdiv_nonneg:
  assumes "0 \<le> a" "a \<le> INT32_MAX" "0 < b"
  shows "cdiv a b = Some (a sdiv b)"
  using assms sdiv_nonneg_bounds [of a b]
  by (auto simp: cdiv_def i32_def in_i32_def INT32_MIN_def)

section \<open>Loops that may fail\<close>

text \<open>\<open>mfold f xs s\<close> runs the body \<open>f\<close> for every element of \<open>xs\<close> in order, threading the state.\<close>

fun mfold :: "('a \<Rightarrow> 's \<Rightarrow> 's option) \<Rightarrow> 'a list \<Rightarrow> 's \<Rightarrow> 's option" where
  "mfold f [] s = Some s"
| "mfold f (x # xs) s = do { s' \<leftarrow> f x s; mfold f xs s' }"

lemma mfold_append: "mfold f (xs @ ys) s = do { s' \<leftarrow> mfold f xs s; mfold f ys s' }"
  by (induction xs arbitrary: s) (simp_all split: bind_splits)

text \<open>The loop rule: an invariant indexed by the part of the list already processed.\<close>

lemma mfold_invariant:
  assumes init: "I [] s"
    and step: "\<And>done x rest s. xs = done @ x # rest \<Longrightarrow> I done s \<Longrightarrow>
                 \<exists>s'. f x s = Some s' \<and> I (done @ [x]) s'"
  shows "\<exists>s'. mfold f xs s = Some s' \<and> I xs s'"
proof -
  have "\<exists>s'. mfold f rest s = Some s' \<and> I xs s'"
    if "xs = done @ rest" "I done s" for "done" rest s
    using that
  proof (induction rest arbitrary: "done" s)
    case Nil
    then show ?case by simp
  next
    case (Cons x rest)
    from step [OF Cons.prems] obtain s' where s': "f x s = Some s'" "I (done @ [x]) s'"
      by blast
    have "xs = (done @ [x]) @ rest"
      using Cons.prems by simp
    from Cons.IH [OF this s'(2)] show ?case
      using s'(1) by auto
  qed
  from this [of "[]" xs s] init show ?thesis
    by simp
qed

lemma mfold_preserves:
  assumes "P s" "\<And>x s. x \<in> set xs \<Longrightarrow> P s \<Longrightarrow> \<exists>s'. f x s = Some s' \<and> P s'"
  shows "\<exists>s'. mfold f xs s = Some s' \<and> P s'"
proof -
  have "\<exists>s'. mfold f xs s = Some s' \<and> (\<lambda>_. P) xs s'"
    by (rule mfold_invariant) (use assms in auto)
  then show ?thesis by simp
qed

lemma mfold_partial:
  assumes "mfold f xs s = Some s'" "P s"
    and "\<And>x s s'. x \<in> set xs \<Longrightarrow> P s \<Longrightarrow> f x s = Some s' \<Longrightarrow> P s'"
  shows "P s'"
  using assms
proof (induction xs arbitrary: s)
  case (Cons x xs)
  then obtain t where "f x s = Some t" "mfold f xs t = Some s'"
    by (auto simp: bind_Some_iff)
  then show ?case
    using Cons by (metis list.set_intros)
qed simp

section \<open>Lists and sums over indices\<close>

lemma list_update_map_nth:
  "(\<And>i. i < length xs \<Longrightarrow> ys ! i = f (xs ! i)) \<Longrightarrow> length ys = length xs \<Longrightarrow> ys = map f xs"
  by (simp add: list_eq_iff_nth_eq)

text \<open>Changing one summand of a sum over the indices of a list.\<close>

lemma sum_lessThan_update:
  fixes f g :: "nat \<Rightarrow> 'a::comm_monoid_add"
  assumes "i < n" "\<And>j. j < n \<Longrightarrow> j \<noteq> i \<Longrightarrow> g j = f j"
  shows "(\<Sum>j<n. g j) + f i = (\<Sum>j<n. f j) + g i"
proof -
  have f: "(\<Sum>j<n. f j) = f i + (\<Sum>j\<in>{..<n} - {i}. f j)"
    using assms(1) by (simp add: sum.remove)
  have g: "(\<Sum>j<n. g j) = g i + (\<Sum>j\<in>{..<n} - {i}. f j)"
    using assms by (simp add: sum.remove)
  show ?thesis
    unfolding f g by (simp add: ac_simps)
qed

lemma sum_mset_subset:
  fixes f :: "nat \<Rightarrow> 'a multiset"
  assumes "i < n"
  shows "f i \<subseteq># (\<Sum>j<n. f j)"
  using assms by (simp add: sum.remove [of _ i])

lemma in_sum_mset_iff:
  fixes f :: "nat \<Rightarrow> 'a multiset"
  shows "x \<in># (\<Sum>j<n. f j) \<longleftrightarrow> (\<exists>j<n. x \<in># f j)"
  by (induction n) (auto simp: less_Suc_eq)

text \<open>A condition on a value that may be absent (a null pointer).\<close>

primrec opt_all :: "('a \<Rightarrow> bool) \<Rightarrow> 'a option \<Rightarrow> bool" where
  "opt_all P None = True"
| "opt_all P (Some x) = P x"

text \<open>Loops over \<open>0 .. n - 1\<close>: the part already processed is \<open>0 .. x - 1\<close>.\<close>

lemma upt_splitD:
  assumes "[0..<n] = done @ x # rest"
  shows "done = [0..<x]" "x < n"
proof -
  have len: "length done < n"
    using arg_cong [OF assms, of length] by simp
  have "x = [0..<n] ! length done"
    unfolding assms by simp
  then have x: "x = length done"
    using len by simp
  then show "x < n"
    using len by simp
  have "done = take (length done) [0..<n]"
    unfolding assms by simp
  then show "done = [0..<x]"
    using len x by (simp add: take_upt)
qed

end
