(* ===== verification/Memory.thy ===== *)
theory Memory
  imports Prelude
begin

text \<open>
  The memory interface of \<open>src/src/llama-memory.h\<close> and \<open>llama-memory.cpp\<close>: the status of a memory
  context and the operations every memory type offers. The sequence operations are data (\<open>mem_op\<close>), so
  that a client is a list of them.
\<close>

section \<open>Status\<close>

datatype llama_memory_status =
    STATUS_SUCCESS
  | STATUS_NO_UPDATE
  | STATUS_FAILED_PREPARE
  | STATUS_FAILED_COMPUTE

definition status_has_update :: "llama_memory_status \<Rightarrow> bool option" where
  "status_has_update s = (case s of
       STATUS_SUCCESS \<Rightarrow> Some True
     | STATUS_NO_UPDATE \<Rightarrow> Some False
     | STATUS_FAILED_PREPARE \<Rightarrow> None
     | STATUS_FAILED_COMPUTE \<Rightarrow> None)"

definition llama_memory_status_combine :: "llama_memory_status \<Rightarrow> llama_memory_status \<Rightarrow> llama_memory_status" where
  "llama_memory_status_combine s0 s1 = (case status_has_update s0 of
       None \<Rightarrow> s0
     | Some u0 \<Rightarrow> (case status_has_update s1 of
           None \<Rightarrow> s1
         | Some u1 \<Rightarrow> if u0 \<or> u1 then STATUS_SUCCESS else STATUS_NO_UPDATE))"

definition llama_memory_status_is_fail :: "llama_memory_status \<Rightarrow> bool" where
  "llama_memory_status_is_fail s = (case s of
       STATUS_SUCCESS \<Rightarrow> False
     | STATUS_NO_UPDATE \<Rightarrow> False
     | STATUS_FAILED_PREPARE \<Rightarrow> True
     | STATUS_FAILED_COMPUTE \<Rightarrow> True)"

text \<open>Combining statuses is associative with \<open>NO_UPDATE\<close> as unit, so that hybrid memories can
  combine any number of parts in any grouping; the result is a failure exactly when some part failed (and
  then it is the first failure), and it reports an update exactly when no part failed and some part has
  one.\<close>

theorem status_combine_laws:
  "llama_memory_status_combine (llama_memory_status_combine a b) c =
     llama_memory_status_combine a (llama_memory_status_combine b c) \<and>
   llama_memory_status_combine STATUS_NO_UPDATE a = a \<and> llama_memory_status_combine a STATUS_NO_UPDATE = a \<and>
   (llama_memory_status_is_fail (llama_memory_status_combine a b) \<longleftrightarrow>
      llama_memory_status_is_fail a \<or> llama_memory_status_is_fail b) \<and>
   (llama_memory_status_combine a b = STATUS_SUCCESS \<longleftrightarrow>
      \<not> llama_memory_status_is_fail a \<and> \<not> llama_memory_status_is_fail b \<and> (a = STATUS_SUCCESS \<or> b = STATUS_SUCCESS))"
  by (cases a; cases b; cases c)
    (simp_all add: llama_memory_status_combine_def llama_memory_status_is_fail_def status_has_update_def)

section \<open>Sequence operations\<close>

text \<open>The arguments are the \<open>llama_seq_id\<close> and \<open>llama_pos\<close> of the C interface: signed, -1 for every
  sequence or for an open end.\<close>

datatype mem_op =
    Op_Clear bool
  | Op_Seq_Rm int int int
  | Op_Seq_Cp int int int int
  | Op_Seq_Keep int
  | Op_Seq_Add int int int int
  | Op_Seq_Div int int int int

text \<open>A client is a list of operations, each allowed in the state it meets.\<close>

fun allowed_run :: "('o \<Rightarrow> 'm \<Rightarrow> bool) \<Rightarrow> ('o \<Rightarrow> 'm \<Rightarrow> 'm option) \<Rightarrow> 'o list \<Rightarrow> 'm \<Rightarrow> bool" where
  "allowed_run allowed exec [] m \<longleftrightarrow> True"
| "allowed_run allowed exec (op # ops) m \<longleftrightarrow> allowed op m \<and>
     (case exec op m of None \<Rightarrow> True | Some m' \<Rightarrow> allowed_run allowed exec ops m')"

text \<open>The contract: an operation that is allowed in a state returns and keeps the invariant of the
  memory.\<close>

locale llama_memory =
  fixes inv :: "'m \<Rightarrow> bool"
    and allowed :: "mem_op \<Rightarrow> 'm \<Rightarrow> bool"
    and exec :: "mem_op \<Rightarrow> 'm \<Rightarrow> 'm option"
  assumes exec_ok: "inv m \<Longrightarrow> allowed op m \<Longrightarrow> \<exists>m'. exec op m = Some m' \<and> inv m'"
begin

lemma run_ok: "inv m \<Longrightarrow> allowed_run allowed exec ops m \<Longrightarrow> \<exists>m'. mfold exec ops m = Some m' \<and> inv m'"
proof (induction ops arbitrary: m)
  case (Cons op ops)
  obtain m1 where "exec op m = Some m1" "inv m1"
    using exec_ok [OF Cons.prems(1), of op] Cons.prems(2) by auto
  then show ?case
    using Cons.IH [of m1] Cons.prems(2) by auto
qed simp

end

end
