(* ===== verification/Ordered_Map.thy ===== *)
theory Ordered_Map
  imports Prelude
begin

text \<open>
  The part of \<open>std::map\<close> that the cell bookkeeping of \<open>src/src/llama-kv-cells.h\<close> uses
  (\<open>find\<close>, \<open>operator[]\<close>, \<open>erase\<close>, \<open>begin\<close>, \<open>rbegin\<close>), as an association list kept in ascending
  order of its keys, and the interface \<open>ordered_map\<close> with the laws the clients rely on. Inside
  the interface it is shown once that a map from keys to positive counts represents a multiset:
  counting a key up or down is adding or removing one occurrence, and the first and last keys are
  the least and greatest element.
\<close>

section \<open>Sorted association lists\<close>

type_synonym ('k, 'v) omap = "('k \<times> 'v) list"

fun om_find :: "('k::linorder, 'v) omap \<Rightarrow> 'k \<Rightarrow> 'v option" where
  "om_find [] k = None"
| "om_find ((a, b) # m) k = (if k = a then Some b else if k < a then None else om_find m k)"

fun om_put :: "'k::linorder \<Rightarrow> 'v \<Rightarrow> ('k, 'v) omap \<Rightarrow> ('k, 'v) omap" where
  "om_put k v [] = [(k, v)]"
| "om_put k v ((a, b) # m) =
     (if k = a then (k, v) # m else if k < a then (k, v) # (a, b) # m else (a, b) # om_put k v m)"

fun om_erase :: "'k::linorder \<Rightarrow> ('k, 'v) omap \<Rightarrow> ('k, 'v) omap" where
  "om_erase k [] = []"
| "om_erase k ((a, b) # m) = (if k = a then m else if k < a then (a, b) # m else (a, b) # om_erase k m)"

definition om_first :: "('k::linorder, 'v) omap \<Rightarrow> 'k option" where
  "om_first m = (case m of [] \<Rightarrow> None | (k, _) # _ \<Rightarrow> Some k)"

definition om_last :: "('k::linorder, 'v) omap \<Rightarrow> 'k option" where
  "om_last m = (if m = [] then None else Some (fst (last m)))"

definition om_inv :: "('k::linorder, 'v) omap \<Rightarrow> bool" where
  "om_inv m \<longleftrightarrow> sorted_wrt (<) (map fst m)"

lemma om_find_iff_map_of: "om_inv m \<Longrightarrow> om_find m k = map_of m k"
proof (induction m k rule: om_find.induct)
  case (2 a b m k)
  then have inv: "om_inv m" and less: "\<forall>x \<in> fst ` set m. a < x"
    by (auto simp: om_inv_def)
  then have "map_of m k = None" if "k < a"
    using that by (auto simp: map_of_eq_None_iff)
  with 2 inv show ?case by auto
qed simp

lemma keys_om_put: "fst ` set (om_put k v m) = insert k (fst ` set m)"
  by (induction k v m rule: om_put.induct) auto

lemma set_om_erase: "set (om_erase k m) \<subseteq> set m"
  by (induction k m rule: om_erase.induct) auto

lemma om_inv_put: "om_inv m \<Longrightarrow> om_inv (om_put k v m)"
proof (induction k v m rule: om_put.induct)
  case (2 k v a b m)
  then have "\<forall>x \<in> fst ` set m. a < x"
    by (auto simp: om_inv_def)
  with 2 show ?case
    using keys_om_put [of k v m] by (auto simp: om_inv_def)
qed (simp add: om_inv_def)

lemma om_inv_erase: "om_inv m \<Longrightarrow> om_inv (om_erase k m)"
proof (induction k m rule: om_erase.induct)
  case (2 k a b m)
  then have "\<forall>x \<in> fst ` set m. a < x"
    by (auto simp: om_inv_def)
  with 2 show ?case
    using set_om_erase [of k m] by (auto simp: om_inv_def)
qed (simp add: om_inv_def)

lemma map_of_om_put: "om_inv m \<Longrightarrow> map_of (om_put k v m) = (map_of m)(k \<mapsto> v)"
  by (induction k v m rule: om_put.induct) (auto simp: om_inv_def fun_eq_iff)

lemma map_of_om_erase: "om_inv m \<Longrightarrow> map_of (om_erase k m) = (map_of m)(k := None)"
proof (induction k m rule: om_erase.induct)
  case (2 k a b m)
  then have less: "\<forall>x \<in> fst ` set m. a < x" and inv: "om_inv m"
    by (auto simp: om_inv_def)
  have "map_of m x = None" if "x \<le> a" for x
    using less that by (auto simp: map_of_eq_None_iff)
  with 2 inv show ?case
    by (auto simp: fun_eq_iff)
qed simp

lemma om_first_least:
  assumes "om_inv m" "k \<in> fst ` set m"
  shows "\<exists>a. om_first m = Some a \<and> a \<in> fst ` set m \<and> a \<le> k"
  using assms by (cases m) (auto simp: om_first_def om_inv_def)

lemma om_last_greatest:
  assumes "om_inv m" "k \<in> fst ` set m"
  shows "\<exists>a. om_last m = Some a \<and> a \<in> fst ` set m \<and> k \<le> a"
  using assms
proof (cases m rule: rev_cases)
  case (snoc ys y)
  with assms show ?thesis
    by (auto simp: om_last_def om_inv_def sorted_wrt_append)
qed simp

lemma om_last_mem: "om_last m = Some a \<Longrightarrow> a \<in> fst ` set m"
  by (auto simp: om_last_def split: if_splits)

section \<open>The interface\<close>

locale ordered_map =
  fixes empty :: "'m"
    and put :: "'k::linorder \<Rightarrow> nat \<Rightarrow> 'm \<Rightarrow> 'm"
    and erase :: "'k \<Rightarrow> 'm \<Rightarrow> 'm"
    and find :: "'m \<Rightarrow> 'k \<Rightarrow> nat option"
    and first :: "'m \<Rightarrow> 'k option"
    and final :: "'m \<Rightarrow> 'k option"
    and invar :: "'m \<Rightarrow> bool"
  assumes find_empty: "find empty = Map.empty"
    and find_put: "invar m \<Longrightarrow> find (put k v m) = (find m)(k \<mapsto> v)"
    and find_erase: "invar m \<Longrightarrow> find (erase k m) = (find m)(k := None)"
    and first_None: "invar m \<Longrightarrow> first m = None \<longleftrightarrow> find m = Map.empty"
    and final_None: "invar m \<Longrightarrow> final m = None \<longleftrightarrow> find m = Map.empty"
    and first_Some: "invar m \<Longrightarrow> first m = Some a \<Longrightarrow> a \<in> dom (find m) \<and> (\<forall>k \<in> dom (find m). a \<le> k)"
    and final_Some: "invar m \<Longrightarrow> final m = Some a \<Longrightarrow> a \<in> dom (find m) \<and> (\<forall>k \<in> dom (find m). k \<le> a)"
    and invar_empty: "invar empty"
    and invar_put: "invar m \<Longrightarrow> invar (put k v m)"
    and invar_erase: "invar m \<Longrightarrow> invar (erase k m)"
begin

text \<open>\<open>counts m M\<close>: the map holds, for every key, how often it occurs in \<open>M\<close>, and no entry with
  count zero.\<close>

definition counts :: "'m \<Rightarrow> 'k multiset \<Rightarrow> bool" where
  "counts m M \<longleftrightarrow> invar m \<and> find m = (\<lambda>k. if k \<in># M then Some (count M k) else None)"

lemma counts_empty: "counts empty {#}"
  by (simp add: counts_def find_empty invar_empty)

lemma counts_inc:
  assumes "counts m M"
  shows "counts (put k (case find m k of None \<Rightarrow> Suc 0 | Some n \<Rightarrow> Suc n) m) (add_mset k M)"
  using assms by (auto simp: counts_def find_put invar_put fun_eq_iff not_in_iff)

lemma counts_find: "counts m M \<Longrightarrow> k \<in># M \<Longrightarrow> find m k = Some (count M k)"
  by (simp add: counts_def)

lemma counts_dec:
  assumes "counts m M" "k \<in># M"
  shows "counts (if count M k - 1 = 0 then erase k m else put k (count M k - 1) m) (M - {#k#})"
  using assms
  by (auto simp: counts_def find_put find_erase invar_put invar_erase fun_eq_iff not_in_iff
      in_diff_count)

lemma counts_first:
  assumes "counts m M"
  shows "first m = (if M = {#} then None else Some (Min_mset M))"
proof (cases "M = {#}")
  case True
  then show ?thesis
    using assms first_None [of m] by (simp add: counts_def)
next
  case False
  then obtain k where k: "k \<in># M" by auto
  have dom: "dom (find m) = set_mset M" and inv: "invar m"
    using assms by (auto simp: counts_def dom_def)
  then obtain a where a: "first m = Some a"
    using first_None [OF inv] k assms by (fastforce simp: counts_def fun_eq_iff)
  then have "Min_mset M = a"
    using first_Some [OF inv a] dom by (intro Min_eqI) auto
  then show ?thesis using a False by simp
qed

lemma counts_final:
  assumes "counts m M"
  shows "final m = (if M = {#} then None else Some (Max_mset M))"
proof (cases "M = {#}")
  case True
  then show ?thesis
    using assms final_None [of m] by (simp add: counts_def)
next
  case False
  then obtain k where k: "k \<in># M" by auto
  have dom: "dom (find m) = set_mset M" and inv: "invar m"
    using assms by (auto simp: counts_def dom_def)
  then obtain a where a: "final m = Some a"
    using final_None [OF inv] k assms by (fastforce simp: counts_def fun_eq_iff)
  then have "Max_mset M = a"
    using final_Some [OF inv a] dom by (intro Max_eqI) auto
  then show ?thesis using a False by simp
qed

end

section \<open>The sorted list implements it\<close>

lemma om_first_None: "om_first m = None \<longleftrightarrow> m = []"
  by (auto simp: om_first_def split: list.splits)

lemma om_last_None: "om_last m = None \<longleftrightarrow> m = []"
  by (simp add: om_last_def)

lemma find_empty_iff: "om_inv m \<Longrightarrow> om_find m = Map.empty \<longleftrightarrow> m = []"
  by (cases m) (auto simp: om_find_iff_map_of fun_eq_iff map_of_eq_None_iff split: if_splits)

lemma om_find_eq: "om_inv m \<Longrightarrow> om_find m = map_of m"
  by (simp add: fun_eq_iff om_find_iff_map_of)

interpretation om: ordered_map "[]" om_put om_erase om_find om_first om_last om_inv
proof unfold_locales
  fix m :: "('a \<times> nat) list" and k a :: 'a and v :: nat
  assume inv: "om_inv m"
  show "om_find (om_put k v m) = (om_find m)(k \<mapsto> v)"
    using inv by (simp add: om_find_eq om_inv_put map_of_om_put)
  show "om_find (om_erase k m) = (om_find m)(k := None)"
    using inv by (simp add: om_find_eq om_inv_erase map_of_om_erase)
  show "(om_first m = None) \<longleftrightarrow> (om_find m = Map.empty)"
    using inv by (simp add: om_first_None find_empty_iff)
  show "(om_last m = None) \<longleftrightarrow> (om_find m = Map.empty)"
    using inv by (simp add: om_last_None find_empty_iff)
  show "a \<in> dom (om_find m) \<and> (\<forall>k \<in> dom (om_find m). a \<le> k)" if "om_first m = Some a"
    using inv that om_first_least [OF inv]
    by (cases m) (auto simp: om_find_eq om_first_def dom_map_of_conv_image_fst)
  show "a \<in> dom (om_find m) \<and> (\<forall>k \<in> dom (om_find m). k \<le> a)" if "om_last m = Some a"
    using om_last_mem [OF that] om_last_greatest [OF inv] that inv
    by (auto simp: om_find_eq dom_map_of_conv_image_fst)
  show "om_inv (om_put k v m)" "om_inv (om_erase k m)"
    using inv by (simp_all add: om_inv_put om_inv_erase)
qed (auto simp: om_inv_def fun_eq_iff)

lemmas counts_lemmas = om.counts_inc om.counts_dec om.counts_find om.counts_first om.counts_final

end
