(* ===== verification/KV_Cells.thy ===== *)
theory KV_Cells
  imports Ordered_Map
begin

text \<open>
  \<open>llama_kv_cells\<close> of \<open>src/src/llama-kv-cells.h\<close>: the metadata of the cells of one KV cache
  stream. The record has the fields of the class (the parallel vectors \<open>pos\<close>, \<open>ext\<close>, \<open>shift\<close>,
  \<open>seq\<close>, the set \<open>used\<close> and the per-sequence position counters \<open>seq_pos\<close>), and there is one
  definition per member function. Sequence ids are natural numbers here: the callers check
  \<open>seq_id >= 0\<close> before they reach a cell. A \<open>std::bitset\<close> throws for an index past its size, so
  every access with a sequence id requires it to be below \<open>LLAMA_MAX_SEQ\<close>.

  The abstract view of a cell forgets the indices (\<open>used\<close>, \<open>seq_pos\<close>) and keeps position,
  sequences and pending shift. The invariant says that the indices agree with the cells; every
  operation keeps it and changes the view of one cell only.
\<close>

section \<open>Data\<close>

definition LLAMA_MAX_SEQ :: nat where
  "LLAMA_MAX_SEQ = 256"

record llama_kv_cell_ext =
  ext_x :: int
  ext_y :: int

definition ext_reset :: llama_kv_cell_ext where
  "ext_reset = \<lparr>ext_x = 0, ext_y = 0\<rparr>"

definition is_2d_gt :: "llama_kv_cell_ext \<Rightarrow> int \<Rightarrow> int \<Rightarrow> bool" where
  "is_2d_gt e ox oy \<longleftrightarrow> ext_y e > oy \<or> (ext_y e = oy \<and> ext_x e > ox)"

record llama_kv_cells =
  kc_has_shift :: bool
  kc_used :: "nat set"
  kc_pos :: "int list"
  kc_ext :: "llama_kv_cell_ext list"
  kc_shift :: "int list"
  kc_seq :: "nat set list"
  kc_seq_pos :: "nat \<Rightarrow> (int, nat) omap"

text \<open>The default-constructed object, before \<open>resize\<close>.\<close>

definition cells_new :: llama_kv_cells where
  "cells_new = \<lparr>kc_has_shift = False, kc_used = {}, kc_pos = [], kc_ext = [], kc_shift = [],
     kc_seq = [], kc_seq_pos = (\<lambda>_. [])\<rparr>"

section \<open>Whole-object operations and queries\<close>

definition cells_size :: "llama_kv_cells \<Rightarrow> nat" where
  "cells_size c = length (kc_pos c)"

definition cells_reset :: "llama_kv_cells \<Rightarrow> llama_kv_cells" where
  "cells_reset c = c\<lparr>
     kc_pos := replicate (cells_size c) (- 1),
     kc_ext := replicate (cells_size c) ext_reset,
     kc_shift := replicate (cells_size c) 0,
     kc_seq := replicate (cells_size c) {},
     kc_has_shift := False,
     kc_used := {},
     kc_seq_pos := (\<lambda>_. [])\<rparr>"

definition cells_reset_shift :: "llama_kv_cells \<Rightarrow> llama_kv_cells" where
  "cells_reset_shift c = c\<lparr>kc_has_shift := False, kc_shift := replicate (length (kc_shift c)) 0\<rparr>"

definition vec_resize :: "nat \<Rightarrow> 'a \<Rightarrow> 'a list \<Rightarrow> 'a list" where
  "vec_resize n x xs = take n xs @ replicate (n - length xs) x"

definition cells_resize :: "nat \<Rightarrow> llama_kv_cells \<Rightarrow> llama_kv_cells" where
  "cells_resize n c = cells_reset (c\<lparr>
     kc_pos := vec_resize n 0 (kc_pos c),
     kc_ext := vec_resize n ext_reset (kc_ext c),
     kc_shift := vec_resize n 0 (kc_shift c),
     kc_seq := vec_resize n {} (kc_seq c)\<rparr>)"

definition cells_is_empty :: "nat \<Rightarrow> llama_kv_cells \<Rightarrow> bool option" where
  "cells_is_empty i c = do {
     require (i < cells_size c);
     require (kc_pos c ! i = - 1 \<or> kc_pos c ! i \<ge> 0);
     Some (kc_pos c ! i = - 1) }"

definition cells_get_used :: "llama_kv_cells \<Rightarrow> nat" where
  "cells_get_used c = card (kc_used c)"

definition cells_used_min :: "llama_kv_cells \<Rightarrow> nat" where
  "cells_used_min c = (if kc_used c = {} then 0 else Min (kc_used c))"

definition cells_used_max_p1 :: "llama_kv_cells \<Rightarrow> nat" where
  "cells_used_max_p1 c = (if kc_used c = {} then 0 else Max (kc_used c) + 1)"

definition cells_get_has_shift :: "llama_kv_cells \<Rightarrow> bool" where
  "cells_get_has_shift c = kc_has_shift c"

section \<open>The position counters\<close>

definition cells_seq_pos_dec :: "nat \<Rightarrow> int \<Rightarrow> llama_kv_cells \<Rightarrow> llama_kv_cells option" where
  "cells_seq_pos_dec s p c =
     (case om_find (kc_seq_pos c s) p of
        None \<Rightarrow> None
      | Some k \<Rightarrow> Some (c\<lparr>kc_seq_pos := (kc_seq_pos c)(s :=
          if k - 1 = 0 then om_erase p (kc_seq_pos c s) else om_put p (k - 1) (kc_seq_pos c s))\<rparr>))"

definition cells_seq_pos_inc :: "nat \<Rightarrow> int \<Rightarrow> llama_kv_cells \<Rightarrow> llama_kv_cells" where
  "cells_seq_pos_inc s p c = c\<lparr>kc_seq_pos := (kc_seq_pos c)(s :=
     om_put p (case om_find (kc_seq_pos c s) p of None \<Rightarrow> Suc 0 | Some k \<Rightarrow> Suc k) (kc_seq_pos c s))\<rparr>"

definition cells_seq_pos_rm :: "nat \<Rightarrow> llama_kv_cells \<Rightarrow> llama_kv_cells option" where
  "cells_seq_pos_rm i c = mfold (\<lambda>s c.
     if s \<in> kc_seq c ! i then cells_seq_pos_dec s (kc_pos c ! i) c else Some c)
     [0..<LLAMA_MAX_SEQ] c"

definition cells_seq_pos_add :: "nat \<Rightarrow> llama_kv_cells \<Rightarrow> llama_kv_cells option" where
  "cells_seq_pos_add i c = mfold (\<lambda>s c.
     if s \<in> kc_seq c ! i then Some (cells_seq_pos_inc s (kc_pos c ! i) c) else Some c)
     [0..<LLAMA_MAX_SEQ] c"

definition cells_seq_pos_min :: "nat \<Rightarrow> llama_kv_cells \<Rightarrow> int option" where
  "cells_seq_pos_min s c = do {
     require (s < LLAMA_MAX_SEQ);
     Some (case om_first (kc_seq_pos c s) of None \<Rightarrow> - 1 | Some p \<Rightarrow> p) }"

definition cells_seq_pos_max :: "nat \<Rightarrow> llama_kv_cells \<Rightarrow> int option" where
  "cells_seq_pos_max s c = do {
     require (s < LLAMA_MAX_SEQ);
     Some (case om_last (kc_seq_pos c s) of None \<Rightarrow> - 1 | Some p \<Rightarrow> p) }"

section \<open>Save and restore\<close>

definition cells_cp_idxs :: "nat list \<Rightarrow> llama_kv_cells \<Rightarrow> llama_kv_cells option" where
  "cells_cp_idxs idxs c = do {
     require (list_all (\<lambda>idx. idx < cells_size c \<and> kc_shift c ! idx = 0) idxs);
     Some ((cells_resize (length idxs) cells_new)\<lparr>
       kc_pos := map (\<lambda>idx. kc_pos c ! idx) idxs,
       kc_ext := map (\<lambda>idx. kc_ext c ! idx) idxs,
       kc_seq := map (\<lambda>idx. kc_seq c ! idx) idxs\<rparr>) }"

definition cells_cp :: "nat \<Rightarrow> nat \<Rightarrow> llama_kv_cells \<Rightarrow> llama_kv_cells option" where
  "cells_cp i n c = do { require (i + n \<le> cells_size c); cells_cp_idxs [i..<i + n] c }"

definition cells_set_at :: "nat \<Rightarrow> llama_kv_cells \<Rightarrow> nat \<Rightarrow> llama_kv_cells \<Rightarrow> llama_kv_cells option" where
  "cells_set_at idx other j c = do {
     require (idx < cells_size c);
     let p = kc_pos c ! idx;
     let q = kc_pos other ! j;
     let c1 = (if p = - 1 \<and> q \<noteq> - 1 then c\<lparr>kc_used := insert idx (kc_used c)\<rparr> else c);
     let c2 = (if p \<noteq> - 1 \<and> q = - 1 then c1\<lparr>kc_used := kc_used c1 - {idx}\<rparr> else c1);
     c3 \<leftarrow> (if p \<noteq> - 1 then cells_seq_pos_rm idx c2 else Some c2);
     let c4 = c3\<lparr>kc_pos := (kc_pos c3)[idx := q], kc_ext := (kc_ext c3)[idx := kc_ext other ! j],
                 kc_seq := (kc_seq c3)[idx := kc_seq other ! j]\<rparr>;
     c5 \<leftarrow> (if q \<noteq> - 1 then cells_seq_pos_add idx c4 else Some c4);
     require (kc_shift c5 ! idx = 0);
     Some c5 }"

definition cells_set :: "nat \<Rightarrow> llama_kv_cells \<Rightarrow> llama_kv_cells \<Rightarrow> llama_kv_cells option" where
  "cells_set i other c = do {
     require (i + cells_size other \<le> cells_size c);
     mfold (\<lambda>j. cells_set_at (i + j) other j) [0..<cells_size other] c }"

definition cells_set_idxs :: "nat list \<Rightarrow> llama_kv_cells \<Rightarrow> llama_kv_cells \<Rightarrow> llama_kv_cells option" where
  "cells_set_idxs idxs other c = do {
     require (length idxs = cells_size other);
     mfold (\<lambda>j. cells_set_at (idxs ! j) other j) [0..<cells_size other] c }"

section \<open>Operations on one cell\<close>

text \<open>The common tail of \<open>rm\<close>, \<open>seq_rm\<close> and \<open>seq_keep\<close>: the fields of a cell that becomes empty.\<close>

definition cells_erase :: "nat \<Rightarrow> llama_kv_cells \<Rightarrow> llama_kv_cells" where
  "cells_erase i c = c\<lparr>kc_pos := (kc_pos c)[i := - 1], kc_ext := (kc_ext c)[i := ext_reset],
     kc_shift := (kc_shift c)[i := 0], kc_used := kc_used c - {i}\<rparr>"

definition cells_rm :: "nat \<Rightarrow> llama_kv_cells \<Rightarrow> llama_kv_cells option" where
  "cells_rm i c = do {
     require (i < cells_size c);
     require (kc_pos c ! i \<noteq> - 1);
     c1 \<leftarrow> cells_seq_pos_rm i c;
     Some (cells_erase i (c1\<lparr>kc_seq := (kc_seq c1)[i := {}]\<rparr>)) }"

definition cells_seq_rm :: "nat \<Rightarrow> nat \<Rightarrow> llama_kv_cells \<Rightarrow> (bool \<times> llama_kv_cells) option" where
  "cells_seq_rm i s c = do {
     require (i < cells_size c);
     require (s < LLAMA_MAX_SEQ);
     require (s \<in> kc_seq c ! i);
     require (kc_pos c ! i \<noteq> - 1);
     let c1 = c\<lparr>kc_seq := (kc_seq c)[i := kc_seq c ! i - {s}]\<rparr>;
     c2 \<leftarrow> cells_seq_pos_dec s (kc_pos c1 ! i) c1;
     if kc_seq c2 ! i = {} then Some (True, cells_erase i c2) else Some (False, c2) }"

definition cells_seq_keep :: "nat \<Rightarrow> nat \<Rightarrow> llama_kv_cells \<Rightarrow> (bool \<times> llama_kv_cells) option" where
  "cells_seq_keep i s c = do {
     require (i < cells_size c);
     require (s < LLAMA_MAX_SEQ);
     if s \<in> kc_seq c ! i then do {
       c1 \<leftarrow> cells_seq_pos_rm i c;
       let c2 = c1\<lparr>kc_seq := (kc_seq c1)[i := {s}]\<rparr>;
       Some (False, cells_seq_pos_inc s (kc_pos c2 ! i) c2) }
     else if kc_seq c ! i \<noteq> {} then do {
       c1 \<leftarrow> cells_seq_pos_rm i c;
       Some (True, cells_erase i (c1\<lparr>kc_seq := (kc_seq c1)[i := {}]\<rparr>)) }
     else do {
       require (kc_pos c ! i = - 1);
       Some (False, c) } }"

definition cells_seq_count :: "nat \<Rightarrow> llama_kv_cells \<Rightarrow> nat option" where
  "cells_seq_count i c = do {
     require (i < cells_size c);
     require (kc_pos c ! i \<noteq> - 1);
     Some (card (kc_seq c ! i)) }"

definition cells_seq_has :: "nat \<Rightarrow> nat \<Rightarrow> llama_kv_cells \<Rightarrow> bool option" where
  "cells_seq_has i s c = do {
     require (i < cells_size c);
     require (s < LLAMA_MAX_SEQ);
     Some (s \<in> kc_seq c ! i) }"

definition cells_seq_add :: "nat \<Rightarrow> nat \<Rightarrow> llama_kv_cells \<Rightarrow> llama_kv_cells option" where
  "cells_seq_add i s c = do {
     require (i < cells_size c);
     require (kc_pos c ! i \<noteq> - 1);
     require (s < LLAMA_MAX_SEQ);
     require (s \<notin> kc_seq c ! i);
     let c1 = c\<lparr>kc_seq := (kc_seq c)[i := insert s (kc_seq c ! i)]\<rparr>;
     Some (cells_seq_pos_inc s (kc_pos c1 ! i) c1) }"

definition cells_seq_get :: "nat \<Rightarrow> llama_kv_cells \<Rightarrow> int option" where
  "cells_seq_get i c = do {
     require (i < cells_size c);
     require (card (kc_seq c ! i) = 1);
     Some (case List.find (\<lambda>s. s \<in> kc_seq c ! i) [0..<LLAMA_MAX_SEQ] of None \<Rightarrow> - 1 | Some s \<Rightarrow> int s) }"

definition cells_pos_get :: "nat \<Rightarrow> llama_kv_cells \<Rightarrow> int option" where
  "cells_pos_get i c = do {
     require (i < cells_size c);
     require (kc_pos c ! i \<noteq> - 1);
     Some (kc_pos c ! i) }"

definition cells_ext_get :: "nat \<Rightarrow> llama_kv_cells \<Rightarrow> llama_kv_cell_ext option" where
  "cells_ext_get i c = do {
     require (i < cells_size c);
     require (kc_pos c ! i \<noteq> - 1);
     Some (kc_ext c ! i) }"

definition cells_get_shift :: "nat \<Rightarrow> llama_kv_cells \<Rightarrow> int option" where
  "cells_get_shift i c = do {
     require (i < cells_size c);
     require (kc_pos c ! i \<noteq> - 1);
     Some (kc_shift c ! i) }"

definition cells_pos_in :: "nat \<Rightarrow> int \<Rightarrow> int \<Rightarrow> llama_kv_cells \<Rightarrow> bool option" where
  "cells_pos_in i p0 p1 c = do {
     require (i < cells_size c);
     Some (kc_pos c ! i \<ge> p0 \<and> kc_pos c ! i < p1) }"

definition cells_pos_set :: "nat \<Rightarrow> int \<Rightarrow> llama_kv_cells \<Rightarrow> llama_kv_cells option" where
  "cells_pos_set i p c = do {
     require (i < cells_size c);
     require (kc_pos c ! i = - 1);
     require (kc_seq c ! i = {});
     Some (c\<lparr>kc_pos := (kc_pos c)[i := p], kc_used := insert i (kc_used c)\<rparr>) }"

definition cells_ext_set :: "nat \<Rightarrow> llama_kv_cell_ext \<Rightarrow> llama_kv_cells \<Rightarrow> llama_kv_cells option" where
  "cells_ext_set i e c = do {
     require (i < length (kc_ext c));
     Some (c\<lparr>kc_ext := (kc_ext c)[i := e]\<rparr>) }"

definition cells_pos_add :: "nat \<Rightarrow> int \<Rightarrow> llama_kv_cells \<Rightarrow> (bool \<times> llama_kv_cells) option" where
  "cells_pos_add i d c = do {
     require (i < cells_size c);
     require (kc_pos c ! i \<noteq> - 1);
     c1 \<leftarrow> cells_seq_pos_rm i c;
     p \<leftarrow> i32 (kc_pos c1 ! i + d);
     h \<leftarrow> i32 (kc_shift c1 ! i + d);
     let c2 = c1\<lparr>kc_pos := (kc_pos c1)[i := p], kc_shift := (kc_shift c1)[i := h], kc_has_shift := True\<rparr>;
     if p < 0 then
       Some (True, c2\<lparr>kc_seq := (kc_seq c2)[i := {}], kc_pos := (kc_pos c2)[i := - 1],
         kc_shift := (kc_shift c2)[i := 0], kc_used := kc_used c2 - {i}\<rparr>)
     else do {
       c3 \<leftarrow> cells_seq_pos_add i c2;
       Some (False, c3) } }"

definition cells_pos_div :: "nat \<Rightarrow> int \<Rightarrow> llama_kv_cells \<Rightarrow> llama_kv_cells option" where
  "cells_pos_div i d c = do {
     require (i < cells_size c);
     require (kc_pos c ! i \<noteq> - 1);
     let p_old = kc_pos c ! i;
     c1 \<leftarrow> cells_seq_pos_rm i c;
     p \<leftarrow> cdiv (kc_pos c1 ! i) d;
     h \<leftarrow> i32 (kc_shift c1 ! i + (p_old - p));
     let c2 = c1\<lparr>kc_pos := (kc_pos c1)[i := p], kc_shift := (kc_shift c1)[i := h]\<rparr>;
     c3 \<leftarrow> cells_seq_pos_add i c2;
     Some (c3\<lparr>kc_has_shift := True\<rparr>) }"

section \<open>Abstract view and invariant\<close>

datatype kv_cell = Cell (cell_pos: int) (cell_seqs: "nat set") (cell_shift: int)

definition cell_view :: "llama_kv_cells \<Rightarrow> nat \<Rightarrow> kv_cell option" where
  "cell_view c i = (if kc_pos c ! i = - 1 then None
     else Some (Cell (kc_pos c ! i) (kc_seq c ! i) (kc_shift c ! i)))"

definition cells_view :: "llama_kv_cells \<Rightarrow> kv_cell option list" where
  "cells_view c = map (cell_view c) [0..<cells_size c]"

text \<open>The positions a sequence holds in the cells, with multiplicity.\<close>

definition cell_mset :: "kv_cell option \<Rightarrow> nat \<Rightarrow> int multiset" where
  "cell_mset v s = (case v of None \<Rightarrow> {#} | Some x \<Rightarrow> if s \<in> cell_seqs x then {#cell_pos x#} else {#})"

definition view_mset :: "kv_cell option list \<Rightarrow> nat \<Rightarrow> int multiset" where
  "view_mset vs s = (\<Sum>i<length vs. cell_mset (vs ! i) s)"

definition tracks :: "(nat \<Rightarrow> (int, nat) omap) \<Rightarrow> (nat \<Rightarrow> int multiset) \<Rightarrow> bool" where
  "tracks m M \<longleftrightarrow> (\<forall>s. om.counts (m s) (M s))"

definition cells_wf :: "llama_kv_cells \<Rightarrow> bool" where
  "cells_wf c \<longleftrightarrow>
     length (kc_ext c) = cells_size c \<and> length (kc_shift c) = cells_size c \<and>
     length (kc_seq c) = cells_size c \<and>
     kc_used c = {i. i < cells_size c \<and> kc_pos c ! i \<noteq> - 1} \<and>
     (\<forall>i < cells_size c. - 1 \<le> kc_pos c ! i \<and> kc_pos c ! i \<le> INT32_MAX \<and>
        kc_seq c ! i \<subseteq> {..<LLAMA_MAX_SEQ} \<and>
        (kc_pos c ! i = - 1 \<longrightarrow> kc_seq c ! i = {} \<and> kc_shift c ! i = 0) \<and>
        (\<not> kc_has_shift c \<longrightarrow> kc_shift c ! i = 0))"

definition kv_cells_inv :: "llama_kv_cells \<Rightarrow> bool" where
  "kv_cells_inv c \<longleftrightarrow> cells_wf c \<and> tracks (kc_seq_pos c) (view_mset (cells_view c))"

lemma length_cells_view [simp]: "length (cells_view c) = cells_size c"
  by (simp add: cells_view_def)

lemma nth_cells_view [simp]: "i < cells_size c \<Longrightarrow> cells_view c ! i = cell_view c i"
  by (simp add: cells_view_def)

lemma cell_mset_simps [simp]:
  "cell_mset None s = {#}"
  "cell_mset (Some (Cell p S d)) s = (if s \<in> S then {#p#} else {#})"
  by (simp_all add: cell_mset_def)

lemma view_mset_update:
  assumes "i < length vs"
  shows "view_mset (vs[i := v]) s = view_mset vs s - cell_mset (vs ! i) s + cell_mset v s"
proof -
  have "view_mset (vs[i := v]) s + cell_mset (vs ! i) s = view_mset vs s + cell_mset v s"
    using sum_lessThan_update [of i "length vs" "\<lambda>j. cell_mset ((vs[i := v]) ! j) s" "\<lambda>j. cell_mset (vs ! j) s"]
      assms by (simp add: view_mset_def)
  moreover have "cell_mset (vs ! i) s \<subseteq># view_mset vs s"
    using assms unfolding view_mset_def by (rule sum_mset_subset)
  ultimately show ?thesis
    by (metis add_diff_cancel_right' subset_mset.add_diff_assoc2)
qed

lemma cell_mset_subset: "i < length vs \<Longrightarrow> cell_mset (vs ! i) s \<subseteq># view_mset vs s"
  unfolding view_mset_def by (rule sum_mset_subset)

lemma in_view_mset_iff:
  "p \<in># view_mset vs s \<longleftrightarrow> (\<exists>i<length vs. \<exists>S d. vs ! i = Some (Cell p S d) \<and> s \<in> S)"
proof -
  have "p \<in># cell_mset v s \<longleftrightarrow> (\<exists>S d. v = Some (Cell p S d) \<and> s \<in> S)" for v
    by (cases v; cases "the v") (auto split: if_splits)
  then show ?thesis
    by (simp add: view_mset_def in_sum_mset_iff)
qed

lemma cells_inv_wf: "kv_cells_inv c \<Longrightarrow> cells_wf c"
  by (simp add: kv_cells_inv_def)

lemma length_kc_pos [simp]: "length (kc_pos c) = cells_size c"
  by (simp add: cells_size_def)

lemma cells_wf_lengths:
  "cells_wf c \<Longrightarrow> length (kc_ext c) = cells_size c"
  "cells_wf c \<Longrightarrow> length (kc_shift c) = cells_size c"
  "cells_wf c \<Longrightarrow> length (kc_seq c) = cells_size c"
  by (simp_all add: cells_wf_def)

lemma cells_wf_cell:
  assumes "cells_wf c" "i < cells_size c"
  shows "- 1 \<le> kc_pos c ! i" "kc_pos c ! i \<le> INT32_MAX" "kc_seq c ! i \<subseteq> {..<LLAMA_MAX_SEQ}"
    "finite (kc_seq c ! i)" "kc_pos c ! i = - 1 \<Longrightarrow> kc_seq c ! i = {}"
    "kc_pos c ! i = - 1 \<Longrightarrow> kc_shift c ! i = 0"
  using assms by (auto simp: cells_wf_def intro: finite_subset)

section \<open>The position counters follow the cells\<close>

lemma tracks_upd:
  "tracks m M \<Longrightarrow> om.counts x X \<Longrightarrow> tracks (m(s := x)) (M(s := X))"
  by (simp add: tracks_def)

lemma seq_pos_inc_tracks:
  assumes "tracks (kc_seq_pos c) M"
  shows "tracks (kc_seq_pos (cells_seq_pos_inc s p c)) (M(s := add_mset p (M s)))"
  using assms unfolding cells_seq_pos_inc_def
  by (auto intro!: tracks_upd om.counts_inc simp: tracks_def)

lemma seq_pos_dec_tracks:
  assumes "tracks (kc_seq_pos c) M" "p \<in># M s"
  obtains m where "cells_seq_pos_dec s p c = Some (c\<lparr>kc_seq_pos := m\<rparr>)"
    "tracks m (M(s := M s - {#p#}))"
proof
  have counts: "om.counts (kc_seq_pos c s) (M s)"
    using assms(1) by (simp add: tracks_def)
  let ?m = "(kc_seq_pos c)(s := if count (M s) p - 1 = 0 then om_erase p (kc_seq_pos c s)
     else om_put p (count (M s) p - 1) (kc_seq_pos c s))"
  show "cells_seq_pos_dec s p c = Some (c\<lparr>kc_seq_pos := ?m\<rparr>)"
    using om.counts_find [OF counts assms(2)] by (simp add: cells_seq_pos_dec_def)
  show "tracks ?m (M(s := M s - {#p#}))"
    using assms(1) om.counts_dec [OF counts assms(2)] by (rule tracks_upd)
qed

lemma seq_pos_add_tracks:
  assumes "tracks (kc_seq_pos c) M" "kc_seq c ! i \<subseteq> {..<LLAMA_MAX_SEQ}"
  obtains m where "cells_seq_pos_add i c = Some (c\<lparr>kc_seq_pos := m\<rparr>)"
    "tracks m (\<lambda>s. M s + (if s \<in> kc_seq c ! i then {#kc_pos c ! i#} else {#}))"
proof -
  let ?N = "\<lambda>done s. M s + (if s \<in> kc_seq c ! i \<and> s \<in> set done then {#kc_pos c ! i#} else {#})"
  let ?I = "\<lambda>done c'. \<exists>m. c' = c\<lparr>kc_seq_pos := m\<rparr> \<and> tracks m (?N done)"
  have "\<exists>c'. cells_seq_pos_add i c = Some c' \<and> ?I [0..<LLAMA_MAX_SEQ] c'"
    unfolding cells_seq_pos_add_def
  proof (rule mfold_invariant)
    show "?I [] c"
      using assms(1) by (intro exI [of _ "kc_seq_pos c"]) simp
    fix "done" s rest c'
    assume split: "[0..<LLAMA_MAX_SEQ] = done @ s # rest" and "?I done c'"
    then obtain m where c': "c' = c\<lparr>kc_seq_pos := m\<rparr>" and m: "tracks m (?N done)"
      by blast
    have new: "s \<notin> set done"
      using split distinct_upt [of 0 LLAMA_MAX_SEQ] by simp
    show "\<exists>c''. (if s \<in> kc_seq c' ! i then Some (cells_seq_pos_inc s (kc_pos c' ! i) c') else Some c') = Some c'' \<and> ?I (done @ [s]) c''"
    proof (cases "s \<in> kc_seq c ! i")
      case True
      have "(?N done)(s := add_mset (kc_pos c ! i) (?N done s)) = ?N (done @ [s])"
        using True new by (auto simp: fun_eq_iff)
      then have "tracks (kc_seq_pos (cells_seq_pos_inc s (kc_pos c' ! i) c')) (?N (done @ [s]))"
        using seq_pos_inc_tracks [of c' "?N done" s "kc_pos c' ! i"] m c' by simp
      then show ?thesis
        using True c' by (auto simp: cells_seq_pos_inc_def)
    next
      case False
      then have "?N done = ?N (done @ [s])"
        by (auto simp: fun_eq_iff)
      then show ?thesis
        using False c' m by auto
    qed
  qed
  moreover have "?N [0..<LLAMA_MAX_SEQ] = (\<lambda>s. M s + (if s \<in> kc_seq c ! i then {#kc_pos c ! i#} else {#}))"
    using assms(2) by (auto simp: fun_eq_iff)
  ultimately show thesis
    using that by auto
qed

lemma seq_pos_rm_tracks:
  assumes "tracks (kc_seq_pos c) M" "kc_seq c ! i \<subseteq> {..<LLAMA_MAX_SEQ}"
    and sub: "\<And>s. s \<in> kc_seq c ! i \<Longrightarrow> kc_pos c ! i \<in># M s"
  obtains m where "cells_seq_pos_rm i c = Some (c\<lparr>kc_seq_pos := m\<rparr>)"
    "tracks m (\<lambda>s. M s - (if s \<in> kc_seq c ! i then {#kc_pos c ! i#} else {#}))"
proof -
  let ?N = "\<lambda>done s. M s - (if s \<in> kc_seq c ! i \<and> s \<in> set done then {#kc_pos c ! i#} else {#})"
  let ?I = "\<lambda>done c'. \<exists>m. c' = c\<lparr>kc_seq_pos := m\<rparr> \<and> tracks m (?N done)"
  have "\<exists>c'. cells_seq_pos_rm i c = Some c' \<and> ?I [0..<LLAMA_MAX_SEQ] c'"
    unfolding cells_seq_pos_rm_def
  proof (rule mfold_invariant)
    show "?I [] c"
      using assms(1) by (intro exI [of _ "kc_seq_pos c"]) simp
    fix "done" s rest c'
    assume split: "[0..<LLAMA_MAX_SEQ] = done @ s # rest" and "?I done c'"
    then obtain m where c': "c' = c\<lparr>kc_seq_pos := m\<rparr>" and m: "tracks m (?N done)"
      by blast
    have new: "s \<notin> set done"
      using split distinct_upt [of 0 LLAMA_MAX_SEQ] by simp
    show "\<exists>c''. (if s \<in> kc_seq c' ! i then cells_seq_pos_dec s (kc_pos c' ! i) c' else Some c') = Some c'' \<and> ?I (done @ [s]) c''"
    proof (cases "s \<in> kc_seq c ! i")
      case True
      have upd: "(?N done)(s := ?N done s - {#kc_pos c ! i#}) = ?N (done @ [s])"
        using True new by (auto simp: fun_eq_iff)
      have "kc_pos c ! i \<in># ?N done s"
        using sub [OF True] new by simp
      then obtain m' where "cells_seq_pos_dec s (kc_pos c ! i) c' = Some (c'\<lparr>kc_seq_pos := m'\<rparr>)"
        "tracks m' (?N (done @ [s]))"
        using seq_pos_dec_tracks [of c' "?N done" "kc_pos c ! i" s] m c' upd by auto
      then show ?thesis
        using True c' by auto
    next
      case False
      then have "?N done = ?N (done @ [s])"
        by (auto simp: fun_eq_iff)
      then show ?thesis
        using False c' m by auto
    qed
  qed
  moreover have "?N [0..<LLAMA_MAX_SEQ] = (\<lambda>s. M s - (if s \<in> kc_seq c ! i then {#kc_pos c ! i#} else {#}))"
    using assms(2) by (auto simp: fun_eq_iff)
  ultimately show thesis
    using that by auto
qed

section \<open>Rewriting one cell\<close>

text \<open>The normal form of every single-cell operation: new contents of cell \<open>i\<close>, a new value of the
  shift flag and new position counters.\<close>

definition cells_store ::
  "nat \<Rightarrow> int \<Rightarrow> nat set \<Rightarrow> int \<Rightarrow> llama_kv_cell_ext \<Rightarrow> bool \<Rightarrow> (nat \<Rightarrow> (int, nat) omap) \<Rightarrow>
   llama_kv_cells \<Rightarrow> llama_kv_cells" where
  "cells_store i p S h e b m c = c\<lparr>
     kc_has_shift := b,
     kc_used := (if p = - 1 then kc_used c - {i} else insert i (kc_used c)),
     kc_pos := (kc_pos c)[i := p],
     kc_ext := (kc_ext c)[i := e],
     kc_shift := (kc_shift c)[i := h],
     kc_seq := (kc_seq c)[i := S],
     kc_seq_pos := m\<rparr>"

definition mk_cell :: "int \<Rightarrow> nat set \<Rightarrow> int \<Rightarrow> kv_cell option" where
  "mk_cell p S h = (if p = - 1 then None else Some (Cell p S h))"

lemma mk_cell_simps [simp]:
  "mk_cell (- 1) S h = None"
  "p \<noteq> - 1 \<Longrightarrow> mk_cell p S h = Some (Cell p S h)"
  by (simp_all add: mk_cell_def)

lemma cell_view_mk: "cell_view c i = mk_cell (kc_pos c ! i) (kc_seq c ! i) (kc_shift c ! i)"
  by (simp add: cell_view_def mk_cell_def)

lemma cells_size_store [simp]: "cells_size (cells_store i p S h e b m c) = cells_size c"
  by (simp add: cells_size_def cells_store_def del: length_kc_pos)

lemma cells_store_sel [simp]:
  "kc_has_shift (cells_store i p S h e b m c) = b"
  "kc_used (cells_store i p S h e b m c) = (if p = - 1 then kc_used c - {i} else insert i (kc_used c))"
  "kc_pos (cells_store i p S h e b m c) = (kc_pos c)[i := p]"
  "kc_ext (cells_store i p S h e b m c) = (kc_ext c)[i := e]"
  "kc_shift (cells_store i p S h e b m c) = (kc_shift c)[i := h]"
  "kc_seq (cells_store i p S h e b m c) = (kc_seq c)[i := S]"
  "kc_seq_pos (cells_store i p S h e b m c) = m"
  by (simp_all add: cells_store_def)

lemma cells_wf_store:
  assumes wf: "cells_wf c" and i: "i < cells_size c"
    and p: "- 1 \<le> p" "p \<le> INT32_MAX" and S: "S \<subseteq> {..<LLAMA_MAX_SEQ}"
    and empty: "p = - 1 \<Longrightarrow> S = {} \<and> h = 0"
    and b: "\<not> b \<Longrightarrow> h = 0 \<and> \<not> kc_has_shift c"
  shows "cells_wf (cells_store i p S h e b m c)"
proof -
  note len = cells_wf_lengths [OF wf]
  have "kc_used c = {j. j < cells_size c \<and> kc_pos c ! j \<noteq> - 1}"
    using wf by (simp add: cells_wf_def)
  then have used: "(if p = - 1 then kc_used c - {i} else insert i (kc_used c)) =
      {j. j < cells_size c \<and> (kc_pos c)[i := p] ! j \<noteq> - 1}"
    using i by (auto simp: nth_list_update)
  show ?thesis
    unfolding cells_wf_def cells_store_sel cells_size_store used
    using wf i p S empty b by (auto simp: cells_wf_def nth_list_update)
qed

lemma cells_view_store:
  assumes "cells_wf c" "i < cells_size c"
  shows "cells_view (cells_store i p S h e b m c) = (cells_view c)[i := mk_cell p S h]"
  using assms cells_wf_lengths [of c]
  by (intro nth_equalityI)
    (auto simp: nth_list_update cell_view_mk)

text \<open>Storing a cell keeps the invariant when the counters were adjusted for that cell.\<close>

lemma cells_store_inv:
  assumes "kv_cells_inv c" "i < cells_size c"
    and "- 1 \<le> p" "p \<le> INT32_MAX" "S \<subseteq> {..<LLAMA_MAX_SEQ}"
    and "p = - 1 \<Longrightarrow> S = {} \<and> h = 0"
    and "\<not> b \<Longrightarrow> h = 0 \<and> \<not> kc_has_shift c"
    and m: "tracks m M"
    and M: "\<And>s. M s = view_mset (cells_view c) s - cell_mset (cell_view c i) s + cell_mset (mk_cell p S h) s"
  shows "kv_cells_inv (cells_store i p S h e b m c)"
    "cells_view (cells_store i p S h e b m c) = (cells_view c)[i := mk_cell p S h]"
proof -
  have wf: "cells_wf c"
    using assms(1) by (rule cells_inv_wf)
  show view: "cells_view (cells_store i p S h e b m c) = (cells_view c)[i := mk_cell p S h]"
    using wf assms(2) by (rule cells_view_store)
  have "view_mset ((cells_view c)[i := mk_cell p S h]) = M"
    using assms(2) M by (simp add: view_mset_update fun_eq_iff)
  then have "tracks (kc_seq_pos (cells_store i p S h e b m c))
      (view_mset (cells_view (cells_store i p S h e b m c)))"
    using m by (simp add: view)
  then show "kv_cells_inv (cells_store i p S h e b m c)"
    using assms cells_wf_store [OF wf assms(2)] by (simp add: kv_cells_inv_def)
qed

lemma seq_pos_rm_inv:
  assumes inv: "kv_cells_inv c" and i: "i < cells_size c" and pos: "kc_pos c ! i \<noteq> - 1"
  obtains m where "cells_seq_pos_rm i c = Some (c\<lparr>kc_seq_pos := m\<rparr>)"
    "tracks m (\<lambda>s. view_mset (cells_view c) s - cell_mset (cell_view c i) s)"
proof -
  have sub: "kc_seq c ! i \<subseteq> {..<LLAMA_MAX_SEQ}"
    using inv i by (simp add: cells_inv_wf cells_wf_cell)
  have mem: "kc_pos c ! i \<in># view_mset (cells_view c) s" if "s \<in> kc_seq c ! i" for s
    using that i pos by (auto simp: in_view_mset_iff cell_view_def)
  obtain m where m: "cells_seq_pos_rm i c = Some (c\<lparr>kc_seq_pos := m\<rparr>)"
    "tracks m (\<lambda>s. view_mset (cells_view c) s - (if s \<in> kc_seq c ! i then {#kc_pos c ! i#} else {#}))"
    using seq_pos_rm_tracks [of c "view_mset (cells_view c)" i] sub mem inv
    by (auto simp: kv_cells_inv_def)
  then show thesis
    using that pos by (simp add: cell_view_def cong: if_cong)
qed

lemma used_iff: "cells_wf c \<Longrightarrow> i < cells_size c \<Longrightarrow> i \<in> kc_used c \<longleftrightarrow> kc_pos c ! i \<noteq> - 1"
  by (simp add: cells_wf_def)

section \<open>Every operation keeps the invariant and changes one cell\<close>

text \<open>The abstract effect of each operation on the view of its cell.\<close>

definition spec_seq_rm :: "nat \<Rightarrow> kv_cell \<Rightarrow> kv_cell option" where
  "spec_seq_rm s x = (if cell_seqs x - {s} = {} then None
     else Some (Cell (cell_pos x) (cell_seqs x - {s}) (cell_shift x)))"

definition spec_seq_keep :: "nat \<Rightarrow> kv_cell \<Rightarrow> kv_cell option" where
  "spec_seq_keep s x = (if s \<in> cell_seqs x then Some (Cell (cell_pos x) {s} (cell_shift x)) else None)"

definition spec_pos_add :: "int \<Rightarrow> kv_cell \<Rightarrow> kv_cell option" where
  "spec_pos_add d x = (if cell_pos x + d < 0 then None
     else Some (Cell (cell_pos x + d) (cell_seqs x) (cell_shift x + d)))"

definition spec_pos_div :: "int \<Rightarrow> kv_cell \<Rightarrow> kv_cell option" where
  "spec_pos_div d x = (let p = cell_pos x sdiv d in
     Some (Cell p (cell_seqs x) (cell_shift x + (cell_pos x - p))))"

lemma cells_rm_spec:
  assumes inv: "kv_cells_inv c" and i: "i < cells_size c" and pos: "kc_pos c ! i \<noteq> - 1"
  obtains c' where "cells_rm i c = Some c'" "kv_cells_inv c'"
    "cells_view c' = (cells_view c)[i := None]"
proof -
  obtain m where m: "cells_seq_pos_rm i c = Some (c\<lparr>kc_seq_pos := m\<rparr>)"
    "tracks m (\<lambda>s. view_mset (cells_view c) s - cell_mset (cell_view c i) s)"
    using seq_pos_rm_inv [OF inv i pos] by blast
  let ?c = "cells_store i (- 1) {} 0 ext_reset (kc_has_shift c) m c"
  have "cells_rm i c = Some ?c"
    using i pos m(1) by (simp add: cells_rm_def cells_erase_def cells_store_def)
  moreover have "kv_cells_inv ?c" "cells_view ?c = (cells_view c)[i := None]"
    using cells_store_inv [OF inv i _ _ _ _ _ m(2), of "- 1" "{}" 0 "kc_has_shift c"]
    by (simp_all add: INT32_MAX_def)
  ultimately show thesis
    using that by blast
qed

lemma cells_seq_rm_spec:
  assumes inv: "kv_cells_inv c" and i: "i < cells_size c" and v: "cell_view c i = Some x"
    and s: "s \<in> cell_seqs x"
  obtains c' where "cells_seq_rm i s c = Some (spec_seq_rm s x = None, c')" "kv_cells_inv c'"
    "cells_view c' = (cells_view c)[i := spec_seq_rm s x]"
proof -
  have wf: "cells_wf c" and x: "x = Cell (kc_pos c ! i) (kc_seq c ! i) (kc_shift c ! i)"
    and pos: "kc_pos c ! i \<noteq> - 1"
    using inv v by (auto simp: cells_inv_wf cell_view_def split: if_splits)
  note cell = cells_wf_cell [OF wf i] cells_wf_lengths [OF wf]
  have s': "s \<in> kc_seq c ! i" "s < LLAMA_MAX_SEQ"
    using s x cell(3) by auto
  let ?S = "kc_seq c ! i - {s}"
  have mem: "kc_pos c ! i \<in># view_mset (cells_view c) s"
    using s' i pos by (auto simp: in_view_mset_iff cell_view_def)
  let ?c1 = "c\<lparr>kc_seq := (kc_seq c)[i := ?S]\<rparr>"
  obtain m where m: "cells_seq_pos_dec s (kc_pos c ! i) ?c1 = Some (?c1\<lparr>kc_seq_pos := m\<rparr>)"
    "tracks m ((view_mset (cells_view c))(s := view_mset (cells_view c) s - {#kc_pos c ! i#}))"
    using seq_pos_dec_tracks [of ?c1 "view_mset (cells_view c)" "kc_pos c ! i" s] inv mem
    by (auto simp: kv_cells_inv_def)
  have sub: "cell_mset (cell_view c i) t \<subseteq># view_mset (cells_view c) t" for t
    using cell_mset_subset [of i "cells_view c" t] i by simp
  have M: "((view_mset (cells_view c))(s := view_mset (cells_view c) s - {#kc_pos c ! i#})) t =
      view_mset (cells_view c) t - cell_mset (cell_view c i) t + cell_mset (mk_cell (kc_pos c ! i) ?S h) t" for t h
    using sub [of t] pos s' by (auto simp: cell_view_def)
  show thesis
  proof (cases "?S = {}")
    case True
    then have one: "kc_seq c ! i = {s}"
      using s' by auto
    let ?c = "cells_store i (- 1) {} 0 ext_reset (kc_has_shift c) m c"
    have "kv_cells_inv ?c" "cells_view ?c = (cells_view c)[i := None]"
      using cells_store_inv [OF inv i _ _ _ _ _ m(2), of "- 1" "{}" 0 "kc_has_shift c"] M True pos
      by (simp_all add: INT32_MAX_def)
    moreover have "cells_seq_rm i s c = Some (True, ?c)"
      using i s' pos m(1) one cell
      by (simp add: cells_seq_rm_def cells_erase_def cells_store_def)
    moreover have "spec_seq_rm s x = None"
      using one x by (simp add: spec_seq_rm_def)
    ultimately show thesis
      using that by simp
  next
    case False
    let ?c = "cells_store i (kc_pos c ! i) ?S (kc_shift c ! i) (kc_ext c ! i) (kc_has_shift c) m c"
    have "insert i (kc_used c) = kc_used c"
      using wf i pos by (auto simp: used_iff)
    then have "cells_seq_rm i s c = Some (False, ?c)"
      using i s' pos m(1) False cell
      by (simp add: cells_seq_rm_def cells_store_def insert_absorb)
    moreover have "\<not> kc_has_shift c \<Longrightarrow> kc_shift c ! i = 0"
      using wf i by (simp add: cells_wf_def)
    then have "kv_cells_inv ?c"
      "cells_view ?c = (cells_view c)[i := Some (Cell (kc_pos c ! i) ?S (kc_shift c ! i))]"
      using cells_store_inv [OF inv i _ _ _ _ _ m(2), of "kc_pos c ! i" ?S "kc_shift c ! i" "kc_has_shift c"]
        cell pos M by auto
    ultimately show thesis
      using that False x by (simp add: spec_seq_rm_def)
  qed
qed

lemma cells_wf_shift: "cells_wf c \<Longrightarrow> i < cells_size c \<Longrightarrow> \<not> kc_has_shift c \<Longrightarrow> kc_shift c ! i = 0"
  by (simp add: cells_wf_def)

lemma cells_seq_keep_spec:
  assumes inv: "kv_cells_inv c" and i: "i < cells_size c" and s: "s < LLAMA_MAX_SEQ"
    and v: "cell_view c i = Some x" and ne: "cell_seqs x \<noteq> {}"
  obtains c' where "cells_seq_keep i s c = Some (spec_seq_keep s x = None, c')" "kv_cells_inv c'"
    "cells_view c' = (cells_view c)[i := spec_seq_keep s x]"
proof -
  have wf: "cells_wf c" and x: "x = Cell (kc_pos c ! i) (kc_seq c ! i) (kc_shift c ! i)"
    and pos: "kc_pos c ! i \<noteq> - 1"
    using inv v by (auto simp: cells_inv_wf cell_view_def split: if_splits)
  note cell = cells_wf_cell [OF wf i] cells_wf_lengths [OF wf] cells_wf_shift [OF wf i]
  obtain m where m: "cells_seq_pos_rm i c = Some (c\<lparr>kc_seq_pos := m\<rparr>)"
    "tracks m (\<lambda>t. view_mset (cells_view c) t - cell_mset (cell_view c i) t)" (is "tracks m ?M")
    using seq_pos_rm_inv [OF inv i pos] by blast
  show thesis
  proof (cases "s \<in> kc_seq c ! i")
    case True
    let ?c2 = "c\<lparr>kc_seq_pos := m, kc_seq := (kc_seq c)[i := {s}]\<rparr>"
    let ?m = "kc_seq_pos (cells_seq_pos_inc s (kc_pos c ! i) ?c2)"
    let ?c = "cells_store i (kc_pos c ! i) {s} (kc_shift c ! i) (kc_ext c ! i) (kc_has_shift c) ?m c"
    have tr: "tracks ?m (?M(s := add_mset (kc_pos c ! i) (?M s)))"
      using m(2) by (intro seq_pos_inc_tracks) simp
    have used: "insert i (kc_used c) = kc_used c"
      using wf i pos by (auto simp: used_iff)
    have "cells_seq_keep i s c = Some (False, ?c)"
      using i s True m(1) used pos cell
      by (simp add: cells_seq_keep_def cells_store_def cells_seq_pos_inc_def)
    moreover have "kv_cells_inv ?c"
      "cells_view ?c = (cells_view c)[i := Some (Cell (kc_pos c ! i) {s} (kc_shift c ! i))]"
      using cells_store_inv [OF inv i _ _ _ _ _ tr, of "kc_pos c ! i" "{s}" "kc_shift c ! i" "kc_has_shift c"]
        cell pos s by auto
    ultimately show thesis
      using that x True by (simp add: spec_seq_keep_def)
  next
    case False
    let ?c = "cells_store i (- 1) {} 0 ext_reset (kc_has_shift c) m c"
    have "cells_seq_keep i s c = Some (True, ?c)"
      using i s False m(1) ne x by (simp add: cells_seq_keep_def cells_erase_def cells_store_def)
    moreover have "kv_cells_inv ?c" "cells_view ?c = (cells_view c)[i := None]"
      using cells_store_inv [OF inv i _ _ _ _ _ m(2), of "- 1" "{}" 0 "kc_has_shift c"]
      by (simp_all add: INT32_MAX_def)
    ultimately show thesis
      using that x False by (simp add: spec_seq_keep_def)
  qed
qed

lemma cells_seq_keep_empty:
  assumes "kv_cells_inv c" "i < cells_size c" "s < LLAMA_MAX_SEQ" "cell_view c i = None"
  shows "cells_seq_keep i s c = Some (False, c)"
  using assms cells_wf_cell [of c i]
  by (simp add: cells_seq_keep_def cells_inv_wf cell_view_def split: if_splits)

lemma cells_seq_add_spec:
  assumes inv: "kv_cells_inv c" and i: "i < cells_size c" and s: "s < LLAMA_MAX_SEQ"
    and v: "cell_view c i = Some x" and new: "s \<notin> cell_seqs x"
  obtains c' where "cells_seq_add i s c = Some c'" "kv_cells_inv c'"
    "cells_view c' = (cells_view c)[i := Some (Cell (cell_pos x) (insert s (cell_seqs x)) (cell_shift x))]"
    "kc_ext c' = kc_ext c"
proof -
  have wf: "cells_wf c" and x: "x = Cell (kc_pos c ! i) (kc_seq c ! i) (kc_shift c ! i)"
    and pos: "kc_pos c ! i \<noteq> - 1"
    using inv v by (auto simp: cells_inv_wf cell_view_def split: if_splits)
  note cell = cells_wf_cell [OF wf i] cells_wf_lengths [OF wf] cells_wf_shift [OF wf i]
  let ?S = "insert s (kc_seq c ! i)"
  let ?c1 = "c\<lparr>kc_seq := (kc_seq c)[i := ?S]\<rparr>"
  let ?m = "kc_seq_pos (cells_seq_pos_inc s (kc_pos c ! i) ?c1)"
  let ?M = "view_mset (cells_view c)"
  let ?c = "cells_store i (kc_pos c ! i) ?S (kc_shift c ! i) (kc_ext c ! i) (kc_has_shift c) ?m c"
  have tr: "tracks ?m (?M(s := add_mset (kc_pos c ! i) (?M s)))"
    using inv by (intro seq_pos_inc_tracks) (simp add: kv_cells_inv_def)
  have sub: "cell_mset (cell_view c i) t \<subseteq># ?M t" for t
    using cell_mset_subset [of i "cells_view c" t] i by simp
  have M: "(?M(s := add_mset (kc_pos c ! i) (?M s))) t =
      ?M t - cell_mset (cell_view c i) t + cell_mset (mk_cell (kc_pos c ! i) ?S (kc_shift c ! i)) t" for t
    using sub [of t] pos new x by (auto simp: cell_view_def)
  have used: "insert i (kc_used c) = kc_used c"
    using wf i pos by (auto simp: used_iff)
  have "cells_seq_add i s c = Some ?c"
    using i s new x used pos cell by (simp add: cells_seq_add_def cells_store_def cells_seq_pos_inc_def)
  moreover have "kv_cells_inv ?c"
    "cells_view ?c = (cells_view c)[i := Some (Cell (kc_pos c ! i) ?S (kc_shift c ! i))]"
    using cells_store_inv [OF inv i _ _ _ _ _ tr M] cell pos s by auto
  ultimately show thesis
    using that x cell by simp
qed

lemma cells_pos_set_spec:
  assumes inv: "kv_cells_inv c" and i: "i < cells_size c" and v: "cell_view c i = None"
    and p: "0 \<le> p" "p \<le> INT32_MAX"
  obtains c' where "cells_pos_set i p c = Some c'" "kv_cells_inv c'"
    "cells_view c' = (cells_view c)[i := Some (Cell p {} 0)]" "kc_ext c' = kc_ext c"
proof -
  have wf: "cells_wf c" and pos: "kc_pos c ! i = - 1"
    using inv v by (auto simp: cells_inv_wf cell_view_def split: if_splits)
  note cell = cells_wf_cell [OF wf i] cells_wf_lengths [OF wf]
  let ?c = "cells_store i p {} 0 (kc_ext c ! i) (kc_has_shift c) (kc_seq_pos c) c"
  have tr: "tracks (kc_seq_pos c) (view_mset (cells_view c))"
    using inv by (simp add: kv_cells_inv_def)
  have "list_update (kc_seq c) i {} = kc_seq c" "list_update (kc_shift c) i 0 = kc_shift c"
    using cell pos by (metis list_update_id)+
  then have "cells_pos_set i p c = Some ?c"
    using i pos cell p by (simp add: cells_pos_set_def cells_store_def)
  moreover have "kv_cells_inv ?c" "cells_view ?c = (cells_view c)[i := Some (Cell p {} 0)]"
    using cells_store_inv [OF inv i _ _ _ _ _ tr, of p "{}" 0 "kc_has_shift c"] p v by auto
  ultimately show thesis
    using that cell by simp
qed

lemma cells_ext_set_spec:
  assumes inv: "kv_cells_inv c" and i: "i < cells_size c"
  obtains c' where "cells_ext_set i e c = Some c'" "kv_cells_inv c'" "cells_view c' = cells_view c"
    "kc_ext c' = (kc_ext c)[i := e]"
proof
  let ?c = "c\<lparr>kc_ext := (kc_ext c)[i := e]\<rparr>"
  have wf: "cells_wf c"
    using inv by (rule cells_inv_wf)
  show "cells_ext_set i e c = Some ?c"
    using i wf by (simp add: cells_ext_set_def cells_wf_lengths)
  have size: "cells_size ?c = cells_size c"
    by (simp add: cells_size_def del: length_kc_pos)
  show view: "cells_view ?c = cells_view c"
    by (intro nth_equalityI) (simp_all add: size cell_view_def)
  have "cells_wf ?c"
    using wf by (simp add: cells_wf_def size)
  then show "kv_cells_inv ?c"
    using inv view by (simp add: kv_cells_inv_def)
qed simp

text \<open>\<open>pos_add\<close> and \<open>pos_div\<close> take a cell out of the counters, rewrite it and enter it again.\<close>

lemma seq_pos_readd:
  assumes inv: "kv_cells_inv c" and i: "i < cells_size c" and pos: "kc_pos c ! i \<noteq> - 1"
    and m: "tracks m (\<lambda>t. view_mset (cells_view c) t - cell_mset (cell_view c i) t)"
    and p: "0 \<le> p" "p \<le> INT32_MAX"
    and c2: "kc_seq_pos c2 = m" "kc_pos c2 ! i = p" "kc_seq c2 = kc_seq c"
  obtains m' where "cells_seq_pos_add i c2 = Some (c2\<lparr>kc_seq_pos := m'\<rparr>)"
    "kv_cells_inv (cells_store i p (kc_seq c ! i) h (kc_ext c ! i) True m' c)"
    "cells_view (cells_store i p (kc_seq c ! i) h (kc_ext c ! i) True m' c) =
       (cells_view c)[i := Some (Cell p (kc_seq c ! i) h)]"
proof -
  have wf: "cells_wf c"
    using inv by (rule cells_inv_wf)
  note cell = cells_wf_cell [OF wf i]
  obtain m' where m': "cells_seq_pos_add i c2 = Some (c2\<lparr>kc_seq_pos := m'\<rparr>)"
    "tracks m' (\<lambda>s. (view_mset (cells_view c) s - cell_mset (cell_view c i) s) +
       (if s \<in> kc_seq c ! i then {#p#} else {#}))"
    using seq_pos_add_tracks [of c2 "\<lambda>t. view_mset (cells_view c) t - cell_mset (cell_view c i) t" i]
      m c2 cell(3) by (auto cong: if_cong)
  show thesis
    by (rule that [OF m'(1)])
      (use cells_store_inv [OF inv i _ _ _ _ _ m'(2), of p "kc_seq c ! i" h True] cell p in auto)
qed

lemma cells_pos_add_spec:
  assumes inv: "kv_cells_inv c" and i: "i < cells_size c" and v: "cell_view c i = Some x"
    and p32: "in_i32 (cell_pos x + d)" and h32: "in_i32 (cell_shift x + d)"
  obtains c' where "cells_pos_add i d c = Some (spec_pos_add d x = None, c')" "kv_cells_inv c'"
    "cells_view c' = (cells_view c)[i := spec_pos_add d x]" "kc_ext c' = kc_ext c"
proof -
  have wf: "cells_wf c" and x: "x = Cell (kc_pos c ! i) (kc_seq c ! i) (kc_shift c ! i)"
    and pos: "kc_pos c ! i \<noteq> - 1"
    using inv v by (auto simp: cells_inv_wf cell_view_def split: if_splits)
  note cell = cells_wf_cell [OF wf i] cells_wf_lengths [OF wf]
  let ?p = "kc_pos c ! i + d" and ?h = "kc_shift c ! i + d"
  obtain m where m: "cells_seq_pos_rm i c = Some (c\<lparr>kc_seq_pos := m\<rparr>)"
    "tracks m (\<lambda>t. view_mset (cells_view c) t - cell_mset (cell_view c i) t)"
    using seq_pos_rm_inv [OF inv i pos] by blast
  show thesis
  proof (cases "?p < 0")
    case True
    let ?c = "cells_store i (- 1) {} 0 (kc_ext c ! i) True m c"
    have "cells_pos_add i d c = Some (True, ?c)"
      using i pos m(1) p32 h32 x True cell by (simp add: cells_pos_add_def cells_store_def)
    moreover have "kv_cells_inv ?c" "cells_view ?c = (cells_view c)[i := None]"
      using cells_store_inv [OF inv i _ _ _ _ _ m(2), of "- 1" "{}" 0 True]
      by (simp_all add: INT32_MAX_def)
    ultimately show thesis
      using that x True cell by (simp add: spec_pos_add_def)
  next
    case False
    let ?c2 = "c\<lparr>kc_seq_pos := m, kc_pos := (kc_pos c)[i := ?p], kc_shift := (kc_shift c)[i := ?h],
      kc_has_shift := True\<rparr>"
    have "?p \<le> INT32_MAX"
      using p32 x by (simp add: in_i32_def)
    then obtain m' where m': "cells_seq_pos_add i ?c2 = Some (?c2\<lparr>kc_seq_pos := m'\<rparr>)"
      "kv_cells_inv (cells_store i ?p (kc_seq c ! i) ?h (kc_ext c ! i) True m' c)"
      "cells_view (cells_store i ?p (kc_seq c ! i) ?h (kc_ext c ! i) True m' c) =
         (cells_view c)[i := Some (Cell ?p (kc_seq c ! i) ?h)]"
      using seq_pos_readd [OF inv i pos m(2), of ?p ?c2 ?h] False i by auto
    have used: "insert i (kc_used c) = kc_used c"
      using wf i pos by (auto simp: used_iff)
    have "cells_pos_add i d c = Some (False, cells_store i ?p (kc_seq c ! i) ?h (kc_ext c ! i) True m' c)"
      using i pos m(1) p32 h32 x False m'(1) used by (simp add: cells_pos_add_def cells_store_def)
    then show thesis
      using that m'(2,3) x False cell by (simp add: spec_pos_add_def)
  qed
qed

lemma cells_pos_div_spec:
  assumes inv: "kv_cells_inv c" and i: "i < cells_size c" and v: "cell_view c i = Some x"
    and d: "0 < d" and h32: "in_i32 (cell_shift x + (cell_pos x - cell_pos x sdiv d))"
  obtains c' where "cells_pos_div i d c = Some c'" "kv_cells_inv c'"
    "cells_view c' = (cells_view c)[i := spec_pos_div d x]" "kc_ext c' = kc_ext c"
proof -
  have wf: "cells_wf c" and x: "x = Cell (kc_pos c ! i) (kc_seq c ! i) (kc_shift c ! i)"
    and pos: "kc_pos c ! i \<noteq> - 1"
    using inv v by (auto simp: cells_inv_wf cell_view_def split: if_splits)
  note cell = cells_wf_cell [OF wf i] cells_wf_lengths [OF wf]
  let ?p = "kc_pos c ! i sdiv d"
  let ?h = "kc_shift c ! i + (kc_pos c ! i - ?p)"
  have nn: "0 \<le> kc_pos c ! i"
    using cell(1) pos by simp
  have bounds: "0 \<le> ?p" "?p \<le> INT32_MAX" and div: "cdiv (kc_pos c ! i) d = Some ?p"
    using sdiv_nonneg_bounds [OF nn d] cdiv_nonneg [OF nn cell(2) d] cell(2) by auto
  obtain m where m: "cells_seq_pos_rm i c = Some (c\<lparr>kc_seq_pos := m\<rparr>)"
    "tracks m (\<lambda>t. view_mset (cells_view c) t - cell_mset (cell_view c i) t)"
    using seq_pos_rm_inv [OF inv i pos] by blast
  let ?c2 = "c\<lparr>kc_seq_pos := m, kc_pos := (kc_pos c)[i := ?p], kc_shift := (kc_shift c)[i := ?h]\<rparr>"
  obtain m' where m': "cells_seq_pos_add i ?c2 = Some (?c2\<lparr>kc_seq_pos := m'\<rparr>)"
    "kv_cells_inv (cells_store i ?p (kc_seq c ! i) ?h (kc_ext c ! i) True m' c)"
    "cells_view (cells_store i ?p (kc_seq c ! i) ?h (kc_ext c ! i) True m' c) =
       (cells_view c)[i := Some (Cell ?p (kc_seq c ! i) ?h)]"
    using seq_pos_readd [OF inv i pos m(2) bounds, of ?c2 ?h] i by auto
  have used: "insert i (kc_used c) = kc_used c"
    using wf i pos by (auto simp: used_iff)
  have "cells_pos_div i d c = Some (cells_store i ?p (kc_seq c ! i) ?h (kc_ext c ! i) True m' c)"
    using i pos m(1) h32 x m'(1) used div bounds by (simp add: cells_pos_div_def cells_store_def)
  then show thesis
    using that m'(2,3) x cell by (simp add: spec_pos_div_def Let_def)
qed

section \<open>Whole-object operations\<close>

lemma view_mset_None: "view_mset (replicate n None) s = {#}"
  by (simp add: view_mset_def)

lemma cells_size_reset [simp]: "cells_size (cells_reset c) = cells_size c"
  by (simp add: cells_reset_def cells_size_def del: length_kc_pos)

lemma cells_view_reset [cells_simps]: "cells_view (cells_reset c) = replicate (cells_size c) None"
  by (intro nth_equalityI) (simp_all add: cell_view_def, simp add: cells_reset_def)

lemma cells_reset_inv [inv_intros]: "kv_cells_inv (cells_reset c)"
proof -
  have "cells_wf (cells_reset c)"
    by (simp add: cells_wf_def) (auto simp: cells_reset_def INT32_MAX_def)
  moreover have "kc_seq_pos (cells_reset c) = (\<lambda>_. [])"
    by (simp add: cells_reset_def)
  ultimately show ?thesis
    by (simp add: kv_cells_inv_def cells_view_reset tracks_def view_mset_None om.counts_empty)
qed

lemma cells_size_resize [simp]: "cells_size (cells_resize n c) = n"
  by (simp add: cells_resize_def) (simp add: cells_size_def vec_resize_def del: length_kc_pos)

lemma cells_resize_inv [inv_intros]: "kv_cells_inv (cells_resize n c)"
  by (simp add: cells_resize_def cells_reset_inv)

lemma cells_view_resize [cells_simps]: "cells_view (cells_resize n c) = replicate n None"
proof -
  have "cells_view (cells_resize n c) = replicate (cells_size (cells_resize n c)) None"
    unfolding cells_resize_def by (simp add: cells_view_reset)
  then show ?thesis by simp
qed

lemma cells_size_reset_shift [simp]: "cells_size (cells_reset_shift c) = cells_size c"
  by (simp add: cells_reset_shift_def cells_size_def del: length_kc_pos)

definition spec_reset_shift :: "kv_cell \<Rightarrow> kv_cell" where
  "spec_reset_shift x = Cell (cell_pos x) (cell_seqs x) 0"

lemma cells_reset_shift_sel [simp]:
  "kc_pos (cells_reset_shift c) = kc_pos c"
  "kc_seq (cells_reset_shift c) = kc_seq c"
  "kc_shift (cells_reset_shift c) = replicate (length (kc_shift c)) 0"
  "kc_seq_pos (cells_reset_shift c) = kc_seq_pos c"
  by (simp_all add: cells_reset_shift_def)

lemma cells_view_reset_shift [cells_simps]:
  assumes "cells_wf c"
  shows "cells_view (cells_reset_shift c) = map (map_option spec_reset_shift) (cells_view c)"
  using assms
  by (intro nth_equalityI) (auto simp: cell_view_def spec_reset_shift_def cells_wf_lengths)

lemma view_mset_map_shift:
  "view_mset (map (map_option spec_reset_shift) vs) s = view_mset vs s"
proof -
  have "cell_mset (map_option spec_reset_shift v) s = cell_mset v s" for v
    by (cases v) (simp_all add: spec_reset_shift_def cell_mset_def)
  then show ?thesis
    by (simp add: view_mset_def)
qed

lemma cells_reset_shift_inv [inv_intros]:
  assumes "kv_cells_inv c"
  shows "kv_cells_inv (cells_reset_shift c)"
proof -
  have wf: "cells_wf c"
    using assms by (rule cells_inv_wf)
  then have "cells_wf (cells_reset_shift c)"
    by (simp add: cells_wf_def) (auto simp: cells_reset_shift_def)
  then show ?thesis
    using assms
    by (simp add: kv_cells_inv_def cells_view_reset_shift [OF wf] tracks_def view_mset_map_shift)
qed

section \<open>Queries read the view\<close>

lemma cells_is_empty_view:
  "kv_cells_inv c \<Longrightarrow> i < cells_size c \<Longrightarrow> cells_is_empty i c = Some (cell_view c i = None)"
  using cells_wf_cell(1) [of c i] by (simp add: cells_is_empty_def cell_view_def cells_inv_wf)

lemma cells_seq_has_view:
  assumes "kv_cells_inv c" "i < cells_size c" "s < LLAMA_MAX_SEQ"
  shows "cells_seq_has i s c = Some (case cell_view c i of None \<Rightarrow> False | Some x \<Rightarrow> s \<in> cell_seqs x)"
  using assms cells_wf_cell(5) [of c i] by (simp add: cells_seq_has_def cell_view_def cells_inv_wf)

lemma cells_pos_in_view:
  assumes "kv_cells_inv c" "i < cells_size c" "0 \<le> p0"
  shows "cells_pos_in i p0 p1 c =
    Some (case cell_view c i of None \<Rightarrow> False | Some x \<Rightarrow> p0 \<le> cell_pos x \<and> cell_pos x < p1)"
  using assms by (simp add: cells_pos_in_def cell_view_def)

lemma cells_pos_get_view:
  "i < cells_size c \<Longrightarrow> cell_view c i = Some x \<Longrightarrow> cells_pos_get i c = Some (cell_pos x)"
  by (auto simp: cells_pos_get_def cell_view_def split: if_splits)

lemma cells_get_shift_view:
  "i < cells_size c \<Longrightarrow> cell_view c i = Some x \<Longrightarrow> cells_get_shift i c = Some (cell_shift x)"
  by (auto simp: cells_get_shift_def cell_view_def split: if_splits)

lemma cells_ext_get_view:
  "i < cells_size c \<Longrightarrow> cell_view c i = Some x \<Longrightarrow> cells_ext_get i c = Some (kc_ext c ! i)"
  by (auto simp: cells_ext_get_def cell_view_def split: if_splits)

lemma cells_seq_count_view:
  "i < cells_size c \<Longrightarrow> cell_view c i = Some x \<Longrightarrow> cells_seq_count i c = Some (card (cell_seqs x))"
  by (auto simp: cells_seq_count_def cell_view_def split: if_splits)

lemma find_singleton: "s < n \<Longrightarrow> List.find (\<lambda>t. t = s) [0..<n] = Some s"
  unfolding find_Some_iff by (rule exI [of _ s]) simp

lemma cells_seq_get_view:
  assumes "kv_cells_inv c" "i < cells_size c" "cell_view c i = Some x" "cell_seqs x = {s}"
  shows "cells_seq_get i c = Some (int s)"
proof -
  have seq: "kc_seq c ! i = {s}"
    using assms(3,4) by (cases x) (simp add: cell_view_def split: if_splits)
  moreover have "s < LLAMA_MAX_SEQ"
    using cells_wf_cell(3) [OF cells_inv_wf [OF assms(1)] assms(2)] seq by simp
  ultimately show ?thesis
    using assms(2) find_singleton [of s LLAMA_MAX_SEQ] by (simp add: cells_seq_get_def)
qed

lemma cells_seq_pos_min_view:
  assumes "kv_cells_inv c" "s < LLAMA_MAX_SEQ"
  shows "cells_seq_pos_min s c = Some (if view_mset (cells_view c) s = {#} then - 1
    else Min_mset (view_mset (cells_view c) s))"
  using assms om.counts_first [of "kc_seq_pos c s" "view_mset (cells_view c) s"]
  by (simp add: cells_seq_pos_min_def kv_cells_inv_def tracks_def)

lemma cells_seq_pos_max_view:
  assumes "kv_cells_inv c" "s < LLAMA_MAX_SEQ"
  shows "cells_seq_pos_max s c = Some (if view_mset (cells_view c) s = {#} then - 1
    else Max_mset (view_mset (cells_view c) s))"
  using assms om.counts_final [of "kc_seq_pos c s" "view_mset (cells_view c) s"]
  by (simp add: cells_seq_pos_max_def kv_cells_inv_def tracks_def)

lemma kc_used_view: "kv_cells_inv c \<Longrightarrow> kc_used c = {i. i < cells_size c \<and> cell_view c i \<noteq> None}"
  using cells_inv_wf [of c] by (auto simp: cells_wf_def cell_view_def)

lemma cells_used_max_p1_view:
  assumes "kv_cells_inv c"
  shows "cells_used_max_p1 c \<le> cells_size c"
    "\<And>i. i < cells_size c \<Longrightarrow> cell_view c i \<noteq> None \<Longrightarrow> i < cells_used_max_p1 c"
proof -
  have fin: "finite (kc_used c)"
    using kc_used_view [OF assms] by simp
  show "cells_used_max_p1 c \<le> cells_size c"
    using fin kc_used_view [OF assms] by (auto simp: cells_used_max_p1_def Suc_le_eq)
  show "i < cells_used_max_p1 c" if "i < cells_size c" "cell_view c i \<noteq> None" for i
  proof -
    have "i \<in> kc_used c"
      using that kc_used_view [OF assms] by simp
    then show ?thesis
      using Max_ge [OF fin, of i] by (auto simp: cells_used_max_p1_def less_Suc_eq_le)
  qed
qed

section \<open>Save and restore\<close>

text \<open>A saved copy of cells restores them: the fields of a copied cell satisfy what \<open>set\<close> needs.\<close>

lemma cells_set_at_spec:
  assumes inv: "kv_cells_inv c" and i: "i < cells_size c" and shift: "kc_shift c ! i = 0"
    and q: "- 1 \<le> kc_pos other ! j" "kc_pos other ! j \<le> INT32_MAX"
    and S: "kc_seq other ! j \<subseteq> {..<LLAMA_MAX_SEQ}"
    and empty: "kc_pos other ! j = - 1 \<Longrightarrow> kc_seq other ! j = {}"
  obtains c' where "cells_set_at i other j c = Some c'" "kv_cells_inv c'"
    "cells_view c' = (cells_view c)[i := mk_cell (kc_pos other ! j) (kc_seq other ! j) 0]"
    "kc_shift c' = kc_shift c" "kc_ext c' = (kc_ext c)[i := kc_ext other ! j]"
proof -
  let ?p = "kc_pos c ! i" and ?q = "kc_pos other ! j" and ?S = "kc_seq other ! j"
    and ?e = "kc_ext other ! j"
  have wf: "cells_wf c"
    using inv by (rule cells_inv_wf)
  note cell = cells_wf_cell [OF wf i] cells_wf_lengths [OF wf]
  let ?M = "\<lambda>t. view_mset (cells_view c) t - cell_mset (cell_view c i) t"
  let ?u = "if ?q = - 1 then kc_used c - {i} else insert i (kc_used c)"
  define c2 where "c2 = c\<lparr>kc_used := ?u\<rparr>"
  have c2_sel: "kc_seq c2 = kc_seq c" "kc_pos c2 = kc_pos c" "kc_seq_pos c2 = kc_seq_pos c"
    by (simp_all add: c2_def)
  have inv_tr: "tracks (kc_seq_pos c) (view_mset (cells_view c))"
    using inv by (simp add: kv_cells_inv_def)
  have rm: "\<exists>m. (if ?p \<noteq> - 1 then cells_seq_pos_rm i c2 else Some c2) = Some (c2\<lparr>kc_seq_pos := m\<rparr>) \<and> tracks m ?M"
  proof (cases "?p = - 1")
    case True
    then have "?M = view_mset (cells_view c)"
      by (simp add: cell_view_def)
    then show ?thesis
      using True inv_tr by (intro exI [of _ "kc_seq_pos c"]) (simp add: c2_def)
  next
    case False
    have mem: "?p \<in># view_mset (cells_view c) s" if "s \<in> kc_seq c ! i" for s
      using that i False by (auto simp: in_view_mset_iff cell_view_def)
    obtain m where "cells_seq_pos_rm i c2 = Some (c2\<lparr>kc_seq_pos := m\<rparr>)"
      "tracks m (\<lambda>s. view_mset (cells_view c) s - (if s \<in> kc_seq c ! i then {#?p#} else {#}))"
      using seq_pos_rm_tracks [of c2 "view_mset (cells_view c)" i] inv_tr cell(3) mem
      unfolding c2_sel by (auto cong: if_cong)
    then show ?thesis
      using False by (auto simp: cell_view_def cong: if_cong)
  qed
  then obtain m where m: "(if ?p \<noteq> - 1 then cells_seq_pos_rm i c2 else Some c2) = Some (c2\<lparr>kc_seq_pos := m\<rparr>)"
    and tr: "tracks m ?M" by blast
  define c4 where "c4 = c2\<lparr>kc_seq_pos := m, kc_pos := (kc_pos c)[i := ?q], kc_ext := (kc_ext c)[i := ?e],
    kc_seq := (kc_seq c)[i := ?S]\<rparr>"
  have add: "\<exists>m'. (if ?q \<noteq> - 1 then cells_seq_pos_add i c4 else Some c4) = Some (c4\<lparr>kc_seq_pos := m'\<rparr>) \<and>
      tracks m' (\<lambda>t. ?M t + cell_mset (mk_cell ?q ?S 0) t)"
  proof (cases "?q = - 1")
    case True
    then show ?thesis
      using tr by (intro exI [of _ m]) (simp add: c4_def)
  next
    case False
    have sel: "kc_seq c4 ! i = ?S" "kc_pos c4 ! i = ?q" "kc_seq_pos c4 = m"
      using i cell by (simp_all add: c4_def)
    obtain m' where "cells_seq_pos_add i c4 = Some (c4\<lparr>kc_seq_pos := m'\<rparr>)"
      "tracks m' (\<lambda>s. ?M s + (if s \<in> ?S then {#?q#} else {#}))"
      using seq_pos_add_tracks [of c4 ?M i] tr S unfolding sel by (auto cong: if_cong)
    then show ?thesis
      using False by (auto cong: if_cong)
  qed
  then obtain m' where m': "(if ?q \<noteq> - 1 then cells_seq_pos_add i c4 else Some c4) = Some (c4\<lparr>kc_seq_pos := m'\<rparr>)"
    and tr': "tracks m' (\<lambda>t. ?M t + cell_mset (mk_cell ?q ?S 0) t)" by blast
  let ?c = "cells_store i ?q ?S 0 ?e (kc_has_shift c) m' c"
  have used: "?p \<noteq> - 1 \<Longrightarrow> insert i (kc_used c) = kc_used c" "?p = - 1 \<Longrightarrow> kc_used c - {i} = kc_used c"
    using wf i by (auto simp: used_iff)
  have c2': "(let c1 = (if ?p = - 1 \<and> ?q \<noteq> - 1 then c\<lparr>kc_used := insert i (kc_used c)\<rparr> else c)
     in if ?p \<noteq> - 1 \<and> ?q = - 1 then c1\<lparr>kc_used := kc_used c1 - {i}\<rparr> else c1) = c2"
    using used by (auto simp: c2_def Let_def)
  have c4': "(c2\<lparr>kc_seq_pos := m\<rparr>)\<lparr>kc_pos := (kc_pos (c2\<lparr>kc_seq_pos := m\<rparr>))[i := ?q],
      kc_ext := (kc_ext (c2\<lparr>kc_seq_pos := m\<rparr>))[i := ?e], kc_seq := (kc_seq (c2\<lparr>kc_seq_pos := m\<rparr>))[i := ?S]\<rparr> = c4"
    by (simp add: c4_def c2_def)
  have sh: "(kc_shift c)[i := 0] = kc_shift c"
    using shift by (metis list_update_id)
  have c5: "c4\<lparr>kc_seq_pos := m'\<rparr> = ?c"
    using sh by (simp add: c4_def c2_def cells_store_def)
  have "cells_set_at i other j c = Some ?c"
    unfolding cells_set_at_def Let_def c2' [unfolded Let_def] m Option.bind.bind_lunit c4' m' c5
    using i shift sh by simp
  moreover have "kv_cells_inv ?c" "cells_view ?c = (cells_view c)[i := mk_cell ?q ?S 0]"
    using cells_store_inv [OF inv i q S _ _ tr', of 0 "kc_has_shift c" ?e] empty by auto
  ultimately show thesis
    using that sh by simp
qed

text \<open>What a copy made by \<open>cp\<close> contains.\<close>

definition cells_saved :: "llama_kv_cells \<Rightarrow> bool" where
  "cells_saved o' \<longleftrightarrow> (\<forall>j < cells_size o'. - 1 \<le> kc_pos o' ! j \<and> kc_pos o' ! j \<le> INT32_MAX \<and>
     kc_seq o' ! j \<subseteq> {..<LLAMA_MAX_SEQ} \<and> (kc_pos o' ! j = - 1 \<longrightarrow> kc_seq o' ! j = {}))"

lemma cells_cp_idxs_sel:
  assumes "cells_cp_idxs idxs c = Some o'"
  shows "cells_size o' = length idxs" "list_all (\<lambda>idx. idx < cells_size c \<and> kc_shift c ! idx = 0) idxs"
    "kc_pos o' = map ((!) (kc_pos c)) idxs" "kc_seq o' = map ((!) (kc_seq c)) idxs"
    "kc_ext o' = map ((!) (kc_ext c)) idxs"
  using assms by (auto simp: cells_cp_idxs_def bind_Some_iff cells_size_def simp del: length_kc_pos)

lemma cells_cp_idxs_saved:
  assumes "kv_cells_inv c" "cells_cp_idxs idxs c = Some o'"
  shows "cells_saved o'"
  using cells_cp_idxs_sel [OF assms(2)] cells_inv_wf [OF assms(1)]
  by (auto simp: cells_saved_def cells_wf_def list_all_iff)

lemma cells_set_idxs_loop:
  assumes inv: "kv_cells_inv c" and saved: "cells_saved o'" and len: "length idxs = cells_size o'"
    and idxs: "\<And>i. i \<in> set idxs \<Longrightarrow> i < cells_size c \<and> kc_shift c ! i = 0"
  obtains c' where "cells_set_idxs idxs o' c = Some c'" "kv_cells_inv c'"
    "cells_view c' = fold (\<lambda>j vs. vs[idxs ! j := mk_cell (kc_pos o' ! j) (kc_seq o' ! j) 0])
       [0..<cells_size o'] (cells_view c)"
    "kc_shift c' = kc_shift c"
    "kc_ext c' = fold (\<lambda>j es. es[idxs ! j := kc_ext o' ! j]) [0..<cells_size o'] (kc_ext c)"
proof -
  let ?upd = "\<lambda>j vs. vs[idxs ! j := mk_cell (kc_pos o' ! j) (kc_seq o' ! j) 0]"
  let ?eupd = "\<lambda>j es. es[idxs ! j := kc_ext o' ! j]"
  let ?I = "\<lambda>done c'. kv_cells_inv c' \<and> cells_view c' = fold ?upd done (cells_view c) \<and>
    cells_size c' = cells_size c \<and> kc_shift c' = kc_shift c \<and> kc_ext c' = fold ?eupd done (kc_ext c)"
  have "\<exists>c'. mfold (\<lambda>j. cells_set_at (idxs ! j) o' j) [0..<cells_size o'] c = Some c' \<and>
      ?I [0..<cells_size o'] c'"
  proof (rule mfold_invariant)
    show "?I [] c" using inv by simp
    fix "done" j rest c'
    assume split: "[0..<cells_size o'] = done @ j # rest" and I: "?I done c'"
    have "j \<in> set [0..<cells_size o']"
      unfolding split by simp
    then have j: "j < cells_size o'" by simp
    then have mem: "idxs ! j \<in> set idxs"
      using len by simp
    obtain c'' where "cells_set_at (idxs ! j) o' j c' = Some c''" "kv_cells_inv c''"
      "cells_view c'' = (cells_view c')[idxs ! j := mk_cell (kc_pos o' ! j) (kc_seq o' ! j) 0]"
      "kc_shift c'' = kc_shift c'" "kc_ext c'' = (kc_ext c')[idxs ! j := kc_ext o' ! j]"
      using cells_set_at_spec [of c' "idxs ! j" o' j] I idxs [OF mem] saved j
      by (auto simp: cells_saved_def)
    moreover from this(3) I have "cells_size c'' = cells_size c"
      by (metis length_cells_view length_list_update)
    ultimately show "\<exists>c''. cells_set_at (idxs ! j) o' j c' = Some c'' \<and> ?I (done @ [j]) c''"
      using I by auto
  qed
  then show thesis
    using that len by (auto simp: cells_set_idxs_def)
qed

lemma fold_update_same:
  assumes eq: "\<And>j. j < n \<Longrightarrow> f j = xs ! g j" and len: "length vs = length xs"
    and rest: "\<And>i. i < length xs \<Longrightarrow> i \<notin> g ` {..<n} \<Longrightarrow> vs ! i = xs ! i"
  shows "fold (\<lambda>j vs. vs[g j := f j]) [0..<n] vs = xs"
proof -
  have length: "length (fold (\<lambda>j vs. vs[g j := f j]) [0..<k] vs) = length xs" for k
    by (induction k) (simp_all add: len)
  have "fold (\<lambda>j vs. vs[g j := f j]) [0..<k] vs ! i = (if i \<in> g ` {..<k} then xs ! i else vs ! i)"
    if "k \<le> n" "i < length xs" for k i
    using that
  proof (induction k)
    case (Suc k)
    then show ?case
      using eq [of k] length [of k]
      by (cases "g k < length xs") (auto simp: nth_list_update lessThan_Suc list_update_beyond)
  qed simp
  from this [of n] rest show ?thesis
    by (intro nth_equalityI) (auto simp: length)
qed

section \<open>The object as a state machine\<close>

text \<open>One rule per mutating member function. A rule applies when the call returns, that is, when no
  assertion of the source fails; the side conditions are the argument ranges the callers ensure
  (positions are non-negative, divisors positive, restored cells come from \<open>cp\<close>).\<close>

inductive cells_step :: "llama_kv_cells \<Rightarrow> llama_kv_cells \<Rightarrow> bool" where
  step_reset: "cells_step c (cells_reset c)"
| step_reset_shift: "cells_step c (cells_reset_shift c)"
| step_resize: "cells_step c (cells_resize n c)"
| step_set: "cells_cp_idxs idxs' c0 = Some o' \<Longrightarrow> kv_cells_inv c0 \<Longrightarrow>
    (\<And>i. i \<in> set idxs \<Longrightarrow> i < cells_size c \<and> kc_shift c ! i = 0) \<Longrightarrow>
    cells_set_idxs idxs o' c = Some c' \<Longrightarrow> cells_step c c'"
| step_rm: "cells_rm i c = Some c' \<Longrightarrow> cells_step c c'"
| step_seq_rm: "cells_seq_rm i s c = Some (b, c') \<Longrightarrow> cells_step c c'"
| step_seq_keep: "cells_seq_keep i s c = Some (b, c') \<Longrightarrow> cells_step c c'"
| step_seq_add: "cells_seq_add i s c = Some c' \<Longrightarrow> cells_step c c'"
| step_pos_set: "cells_pos_set i p c = Some c' \<Longrightarrow> 0 \<le> p \<Longrightarrow> p \<le> INT32_MAX \<Longrightarrow> cells_step c c'"
| step_ext_set: "cells_ext_set i e c = Some c' \<Longrightarrow> cells_step c c'"
| step_pos_add: "cells_pos_add i d c = Some (b, c') \<Longrightarrow> cells_step c c'"
| step_pos_div: "cells_pos_div i d c = Some c' \<Longrightarrow> 0 < d \<Longrightarrow> cells_step c c'"

inductive cells_reachable :: "llama_kv_cells \<Rightarrow> bool" where
  reach_new: "cells_reachable (cells_resize n cells_new)"
| reach_step: "cells_reachable c \<Longrightarrow> cells_step c c' \<Longrightarrow> cells_reachable c'"

lemma cells_seq_pos_rm_sel:
  assumes "cells_seq_pos_rm i c = Some c'"
  shows "kc_pos c' = kc_pos c" "kc_seq c' = kc_seq c" "kc_shift c' = kc_shift c"
proof -
  have "kc_pos c' = kc_pos c \<and> kc_seq c' = kc_seq c \<and> kc_shift c' = kc_shift c"
    using assms unfolding cells_seq_pos_rm_def
    by (rule mfold_partial) (auto simp: cells_seq_pos_dec_def split: if_splits option.splits)
  then show "kc_pos c' = kc_pos c" "kc_seq c' = kc_seq c" "kc_shift c' = kc_shift c"
    by simp_all
qed

lemma view_of_pos: "kc_pos c ! i \<noteq> - 1 \<Longrightarrow>
  cell_view c i = Some (Cell (kc_pos c ! i) (kc_seq c ! i) (kc_shift c ! i))"
  by (simp add: cell_view_def)

lemma cells_seq_keep_inv:
  assumes inv: "kv_cells_inv c" and keep: "cells_seq_keep i s c = Some (b, c')"
  shows "kv_cells_inv c'"
proof -
  from keep have i: "i < cells_size c" and s: "s < LLAMA_MAX_SEQ"
    by (auto simp: cells_seq_keep_def bind_Some_iff)
  show ?thesis
  proof (cases "kc_seq c ! i = {}")
    case True
    then show ?thesis
      using keep inv by (auto simp: cells_seq_keep_def bind_Some_iff)
  next
    case False
    then have "kc_pos c ! i \<noteq> - 1"
      using cells_wf_cell(5) [OF cells_inv_wf [OF inv] i] by blast
    then show ?thesis
      by (rule cells_seq_keep_spec [OF inv i s view_of_pos]) (use False keep in auto)
  qed
qed

lemma cells_pos_add_inv:
  assumes inv: "kv_cells_inv c" and add: "cells_pos_add i d c = Some (b, c')"
  shows "kv_cells_inv c'"
proof -
  from add have i: "i < cells_size c" and pos: "kc_pos c ! i \<noteq> - 1"
    by (auto simp: cells_pos_add_def bind_Some_iff)
  from add have r: "in_i32 (kc_pos c ! i + d)" "in_i32 (kc_shift c ! i + d)"
    by (auto simp: cells_pos_add_def bind_Some_iff i32_eq_Some cells_seq_pos_rm_sel)
  show ?thesis
    by (rule cells_pos_add_spec [OF inv i view_of_pos [OF pos], of d]) (use add r in auto)
qed

lemma cells_pos_div_inv:
  assumes inv: "kv_cells_inv c" and div: "cells_pos_div i d c = Some c'" and d: "0 < d"
  shows "kv_cells_inv c'"
proof -
  from div have i: "i < cells_size c" and pos: "kc_pos c ! i \<noteq> - 1"
    by (auto simp: cells_pos_div_def bind_Some_iff)
  from div have r: "in_i32 (kc_shift c ! i + (kc_pos c ! i - kc_pos c ! i sdiv d))"
    by (auto simp: cells_pos_div_def bind_Some_iff i32_eq_Some cells_seq_pos_rm_sel cdiv_def
        split: if_splits)
  show ?thesis
    by (rule cells_pos_div_spec [OF inv i view_of_pos [OF pos] d]) (use div r in auto)
qed

lemma cells_set_idxs_inv:
  assumes "kv_cells_inv c" "kv_cells_inv c0" "cells_cp_idxs idxs' c0 = Some o'"
    "\<And>i. i \<in> set idxs \<Longrightarrow> i < cells_size c \<and> kc_shift c ! i = 0"
    "cells_set_idxs idxs o' c = Some c'"
  shows "kv_cells_inv c'"
proof -
  have "length idxs = cells_size o'"
    using assms(5) by (auto simp: cells_set_idxs_def bind_Some_iff)
  then show ?thesis
    by (rule cells_set_idxs_loop [OF assms(1) cells_cp_idxs_saved [OF assms(2,3)] _ assms(4)])
      (use assms(5) in auto)
qed

lemma cells_step_inv:
  assumes "cells_step c c'" "kv_cells_inv c"
  shows "kv_cells_inv c'"
  using assms
proof (cases rule: cells_step.cases)
  case (step_set idxs' c0 o' idxs)
  then show ?thesis
    using assms(2) cells_set_idxs_inv by blast
next
  case (step_rm i)
  then have "i < cells_size c" "kc_pos c ! i \<noteq> - 1"
    by (auto simp: cells_rm_def bind_Some_iff)
  then show ?thesis
    by (rule cells_rm_spec [OF assms(2)]) (use step_rm in auto)
next
  case (step_seq_rm i s b)
  then have pre: "i < cells_size c" "kc_pos c ! i \<noteq> - 1" "s \<in> kc_seq c ! i"
    by (auto simp: cells_seq_rm_def bind_Some_iff)
  show ?thesis
    by (rule cells_seq_rm_spec [OF assms(2) pre(1) view_of_pos [OF pre(2)], of s])
      (use step_seq_rm pre in auto)
next
  case (step_seq_add i s)
  then have pre: "i < cells_size c" "kc_pos c ! i \<noteq> - 1" "s < LLAMA_MAX_SEQ" "s \<notin> kc_seq c ! i"
    by (auto simp: cells_seq_add_def bind_Some_iff)
  show ?thesis
    by (rule cells_seq_add_spec [OF assms(2) pre(1,3) view_of_pos [OF pre(2)]])
      (use step_seq_add pre in auto)
next
  case (step_pos_set i p)
  then have pre: "i < cells_size c" "cell_view c i = None"
    by (auto simp: cells_pos_set_def bind_Some_iff cell_view_def)
  show ?thesis
    by (rule cells_pos_set_spec [OF assms(2) pre step_pos_set(2,3)]) (use step_pos_set in auto)
next
  case (step_ext_set i e)
  then have "i < cells_size c"
    using assms(2) by (auto simp: cells_ext_set_def bind_Some_iff cells_inv_wf cells_wf_lengths)
  then show ?thesis
    by (rule cells_ext_set_spec [OF assms(2), where e = e]) (use step_ext_set in auto)
qed (use assms(2) in \<open>auto intro: inv_intros cells_seq_keep_inv cells_pos_add_inv cells_pos_div_inv\<close>)

section \<open>Properties\<close>

text \<open>C1. in every state of a cell array that the member functions can produce from a fresh one, the
  secondary indices agree with the cells: the vectors have equal length, \<open>used\<close> holds exactly the
  non-empty cells, an empty cell has no sequence and no pending shift, and \<open>seq_pos[s][p]\<close> counts
  exactly the cells that hold position \<open>p\<close> of sequence \<open>s\<close>.\<close>

theorem cells_reachable_consistent:
  assumes "cells_reachable c"
  shows "kv_cells_inv c"
  using assms
proof (induction rule: cells_reachable.induct)
  case (reach_new n)
  show ?case by (rule cells_resize_inv)
next
  case (reach_step c c')
  then show ?case by (blast intro: cells_step_inv)
qed

theorem cells_reachable_consistent_witness:
  "kv_cells_inv (cells_reset_shift (cells_resize 4 cells_new))"
  by (rule cells_reachable_consistent)
    (rule cells_reachable.intros cells_step.intros)+

text \<open>C18. \<open>seq_pos_min\<close> and \<open>seq_pos_max\<close> return -1 when no cell holds the sequence, and otherwise
  the least and the greatest position that some cell holds for it, so the bounds are attained and
  cover every cell of the sequence.\<close>

theorem cells_seq_pos_bounds:
  assumes "kv_cells_inv c" "s < LLAMA_MAX_SEQ"
  shows "\<exists>lo hi. cells_seq_pos_min s c = Some lo \<and> cells_seq_pos_max s c = Some hi \<and>
    (let P = {cell_pos x | x i. i < cells_size c \<and> cell_view c i = Some x \<and> s \<in> cell_seqs x}
     in if P = {} then lo = - 1 \<and> hi = - 1
        else lo \<in> P \<and> hi \<in> P \<and> (\<forall>p \<in> P. lo \<le> p \<and> p \<le> hi))"
proof -
  let ?M = "view_mset (cells_view c) s"
  let ?P = "{cell_pos x | x i. i < cells_size c \<and> cell_view c i = Some x \<and> s \<in> cell_seqs x}"
  have P: "?P = set_mset ?M"
  proof (intro set_eqI iffI)
    fix p assume "p \<in> ?P"
    then obtain x i where "p = cell_pos x" "i < cells_size c" "cell_view c i = Some x" "s \<in> cell_seqs x"
      by auto
    then show "p \<in># ?M"
      unfolding in_view_mset_iff by (cases x) (auto intro!: exI [of _ i])
  next
    fix p assume "p \<in># ?M"
    then show "p \<in> ?P"
      unfolding in_view_mset_iff by force
  qed
  show ?thesis
    unfolding P using assms
    by (auto simp: cells_seq_pos_min_view cells_seq_pos_max_view Let_def)
qed

theorem cells_seq_pos_bounds_witness:
  "\<exists>lo hi. cells_seq_pos_min 1 (cells_resize 3 cells_new) = Some lo \<and>
    cells_seq_pos_max 1 (cells_resize 3 cells_new) = Some hi \<and> lo = - 1 \<and> hi = - 1"
proof -
  have "cell_view (cells_resize 3 cells_new) i = None" if "i < 3" for i
    using that nth_cells_view [of i "cells_resize 3 cells_new"] by (simp add: cells_view_resize)
  then have "{cell_pos x | x i. i < cells_size (cells_resize 3 cells_new) \<and>
      cell_view (cells_resize 3 cells_new) i = Some x \<and> 1 \<in> cell_seqs x} = {}"
    by auto
  then show ?thesis
    using cells_seq_pos_bounds [OF cells_resize_inv, of 1 3 cells_new]
    by (simp add: LLAMA_MAX_SEQ_def Let_def)
qed

text \<open>Restoring the saved cells after any change confined to them.\<close>

lemma cells_set_restores:
  assumes "kv_cells_inv c" "cells_cp_idxs idxs c = Some o'"
    and "kv_cells_inv c1" "cells_size c1 = cells_size c"
    and "\<forall>i. i < cells_size c \<and> i \<notin> set idxs \<longrightarrow> cell_view c1 i = cell_view c i"
    and "\<forall>i \<in> set idxs. kc_shift c1 ! i = 0"
  shows "\<exists>c2. cells_set_idxs idxs o' c1 = Some c2 \<and> kv_cells_inv c2 \<and> cells_view c2 = cells_view c"
proof -
  note sel = cells_cp_idxs_sel [OF assms(2)]
  have idxs: "i < cells_size c1 \<and> kc_shift c1 ! i = 0" if "i \<in> set idxs" for i
    using that sel(2) assms(4,6) by (auto simp: list_all_iff)
  obtain c2 where c2: "cells_set_idxs idxs o' c1 = Some c2" "kv_cells_inv c2"
    "cells_view c2 = fold (\<lambda>j vs. vs[idxs ! j := mk_cell (kc_pos o' ! j) (kc_seq o' ! j) 0])
       [0..<cells_size o'] (cells_view c1)"
    by (rule cells_set_idxs_loop [OF assms(3) cells_cp_idxs_saved [OF assms(1,2)] sel(1) [symmetric] idxs])
  have "cells_view c2 = cells_view c"
    unfolding c2(3)
  proof (rule fold_update_same)
    fix j assume "j < cells_size o'"
    then show "mk_cell (kc_pos o' ! j) (kc_seq o' ! j) 0 = cells_view c ! (idxs ! j)"
      using sel by (simp add: list_all_length cell_view_mk)
  next
    fix i assume i: "i < length (cells_view c)" "i \<notin> (!) idxs ` {..<cells_size o'}"
    then have "i \<notin> set idxs"
      using sel(1) by (auto simp: in_set_conv_nth)
    then show "cells_view c1 ! i = cells_view c ! i"
      using assms(4,5) i by simp
  qed (simp add: assms(4))
  with c2 show ?thesis by blast
qed

text \<open>\<open>cp(idxs)\<close> followed, after any change confined to those cells, by \<open>set(idxs)\<close> restores the
  array: positions, sequence sets, shifts and position counters are those of the moment of the
  copy, whatever the cells contained in between. This is the undo step of \<open>prepare()\<close>.\<close>

theorem cells_cp_set_roundtrip:
  assumes "kv_cells_inv c" "cells_cp_idxs idxs c = Some o'"
    and "kv_cells_inv c1" "cells_size c1 = cells_size c"
    and "\<forall>i. i < cells_size c \<and> i \<notin> set idxs \<longrightarrow> cell_view c1 i = cell_view c i"
    and "\<forall>i \<in> set idxs. kc_shift c1 ! i = 0"
  shows "\<exists>c2. cells_set_idxs idxs o' c1 = Some c2 \<and> kv_cells_inv c2 \<and> cells_view c2 = cells_view c"
  using cells_set_restores [OF assms] .

theorem cells_cp_set_roundtrip_witness:
  "\<exists>o' c1 c2. cells_cp_idxs [1] (cells_resize 2 cells_new) = Some o' \<and>
     cells_pos_set 1 7 (cells_resize 2 cells_new) = Some c1 \<and>
     cells_view c1 = [None, Some (Cell 7 {} 0)] \<and>
     cells_set_idxs [1] o' c1 = Some c2 \<and> cells_view c2 = [None, None]"
proof -
  let ?c = "cells_resize 2 cells_new"
  have inv: "kv_cells_inv ?c" and view: "cells_view ?c = [None, None]"
    by (simp_all add: cells_resize_inv cells_view_resize numeral_2_eq_2)
  have sh: "kc_shift ?c = [0, 0]"
    by (simp add: cells_resize_def cells_reset_def cells_new_def vec_resize_def cells_size_def
        numeral_2_eq_2 del: length_kc_pos)
  obtain o' where o': "cells_cp_idxs [1] ?c = Some o'"
    using sh by (simp add: cells_cp_idxs_def)
  have v: "cell_view ?c 1 = None" "cell_view ?c 0 = None"
    using view nth_cells_view [of 1 ?c] nth_cells_view [of 0 ?c] by simp_all
  obtain c1 where c1: "cells_pos_set 1 7 ?c = Some c1" "kv_cells_inv c1"
    "cells_view c1 = (cells_view ?c)[1 := Some (Cell 7 {} 0)]"
    using cells_pos_set_spec [OF inv _ v(1), of 7] by (auto simp: INT32_MAX_def)
  have size: "cells_size c1 = 2"
    using arg_cong [OF c1(3), of length] by simp
  have "kc_shift c1 = kc_shift ?c"
    using c1(1) by (auto simp: cells_pos_set_def bind_Some_iff)
  moreover have "cell_view c1 0 = cell_view ?c 0"
    using nth_cells_view [of 0 c1] size c1(3) view v by simp
  ultimately show ?thesis
    using cells_cp_set_roundtrip [OF inv o' c1(2)] o' c1 size view sh
    by (auto simp: less_2_cases_iff)
qed

end
