(* ===== verification/KV_Paging.thy ===== *)
theory KV_Paging
  imports KV_Cells
begin

text \<open>
  The block pool of the paged V cache (\<open>pg_*\<close> of \<open>src/src/llama-kv-cache.cpp\<close>): the page table from
  logical pages of a stream to physical blocks, the stack of free blocks, allocation with TriAttention
  eviction (\<open>pg_alloc_for_sinfo\<close>), release of pages whose cells are all empty (the end of \<open>seq_rm\<close>), and
  the page table and row indices handed to the compute graph.

  The relevance score of a page is computed in floating point from tensor data. It is a parameter here,
  together with the floating-point comparison it is minimised with, about which nothing is assumed (a
  NaN compares false). The theorems hold for every score.
\<close>

section \<open>State\<close>

record page_pool =
  pg_enabled :: bool
  pg_block_size :: nat
  pg_n_blocks :: nat
  pg_page_table :: "int list list"
  pg_free_blocks :: "int list"

record 'f tri_attention =
  tri_budget :: nat
  tri_less :: "'f \<Rightarrow> 'f \<Rightarrow> bool"
  tri_max :: 'f
  tri_score :: "nat \<Rightarrow> nat \<Rightarrow> 'f"

definition pg_n_pages :: "nat \<Rightarrow> nat \<Rightarrow> nat" where
  "pg_n_pages kv_size block_size = (kv_size + block_size - 1) div block_size"

text \<open>The free stack is a vector with its top at the end; block 1 is on top, block 0 is never in it.\<close>

definition pg_stack :: "nat \<Rightarrow> int list" where
  "pg_stack n = map (\<lambda>i. int (n - i)) [0..<n]"

definition pg_init :: "bool \<Rightarrow> nat \<Rightarrow> nat \<Rightarrow> page_pool" where
  "pg_init enabled kv_size n_stream =
     (if enabled then
        (let n_pages = pg_n_pages kv_size 32;
             n_blocks = (n_pages + 1) * n_stream - 1
         in \<lparr>pg_enabled = True, pg_block_size = 32, pg_n_blocks = n_blocks,
             pg_page_table = replicate n_stream (replicate n_pages (- 1)),
             pg_free_blocks = pg_stack n_blocks\<rparr>)
      else \<lparr>pg_enabled = False, pg_block_size = 32, pg_n_blocks = 0, pg_page_table = [], pg_free_blocks = []\<rparr>)"

definition pg_clear :: "page_pool \<Rightarrow> page_pool" where
  "pg_clear pool = (if pg_enabled pool
     then pool\<lparr>pg_page_table := map (map (\<lambda>_. - 1)) (pg_page_table pool), pg_free_blocks := pg_stack (pg_n_blocks pool)\<rparr>
     else pool)"

definition on_flash_attn_disabled :: "page_pool \<Rightarrow> page_pool" where
  "on_flash_attn_disabled pool = pool\<lparr>pg_enabled := False\<rparr>"

text \<open>Checked access to the page table.\<close>

definition pg_get :: "page_pool \<Rightarrow> nat \<Rightarrow> nat \<Rightarrow> int option" where
  "pg_get pool strm lpage = (if strm < length (pg_page_table pool) \<and> lpage < length (pg_page_table pool ! strm)
     then Some (pg_page_table pool ! strm ! lpage) else None)"

definition pg_set :: "nat \<Rightarrow> nat \<Rightarrow> int \<Rightarrow> page_pool \<Rightarrow> page_pool" where
  "pg_set strm lpage b pool =
     pool\<lparr>pg_page_table := (pg_page_table pool)[strm := (pg_page_table pool ! strm)[lpage := b]]\<rparr>"

section \<open>Releasing pages\<close>

definition pg_release :: "nat \<Rightarrow> nat \<Rightarrow> page_pool \<Rightarrow> page_pool" where
  "pg_release strm lpage pool =
     (pg_set strm lpage (- 1) pool)\<lparr>pg_free_blocks := pg_free_blocks pool @ [pg_page_table pool ! strm ! lpage]\<rparr>"

fun page_busy :: "llama_kv_cells \<Rightarrow> nat list \<Rightarrow> bool option" where
  "page_busy c [] = Some False"
| "page_busy c (i # is) = do { e \<leftarrow> cells_is_empty i c; if \<not> e then Some True else page_busy c is }"

definition try_free_page :: "nat \<Rightarrow> llama_kv_cells \<Rightarrow> nat \<Rightarrow> nat \<Rightarrow> page_pool \<Rightarrow> page_pool option" where
  "try_free_page kv_sz c strm lpage pool = do {
     b \<leftarrow> pg_get pool strm lpage;
     if b < 0 then Some pool
     else do {
       let lo = lpage * pg_block_size pool;
       let hi = min (lo + pg_block_size pool) kv_sz;
       busy \<leftarrow> page_busy c [lo..<hi];
       if busy then Some pool else Some (pg_release strm lpage pool) } }"

definition free_pages :: "nat \<Rightarrow> llama_kv_cells \<Rightarrow> nat \<Rightarrow> page_pool \<Rightarrow> page_pool option" where
  "free_pages kv_sz c strm pool = mfold (try_free_page kv_sz c strm) [0..<pg_n_pages kv_sz (pg_block_size pool)] pool"

section \<open>Allocating pages\<close>

definition pg_allocated :: "nat \<Rightarrow> page_pool \<Rightarrow> nat" where
  "pg_allocated strm pool =
     length (filter (\<lambda>lp. pg_page_table pool ! strm ! lp \<ge> 0) [0..<length (pg_page_table pool ! 0)])"

definition evict_step ::
  "'f tri_attention \<Rightarrow> page_pool \<Rightarrow> nat \<Rightarrow> nat set \<Rightarrow> nat \<Rightarrow> nat option \<times> 'f \<Rightarrow> nat option \<times> 'f" where
  "evict_step tri pool strm batch_pages lp = (\<lambda>(evict_lp, min_score).
     if pg_page_table pool ! strm ! lp \<ge> 0 \<and> lp \<notin> batch_pages
     then (if tri_less tri (tri_score tri strm lp) min_score then (Some lp, tri_score tri strm lp)
           else (evict_lp, min_score))
     else (evict_lp, min_score))"

definition pg_evict :: "'f tri_attention \<Rightarrow> nat \<Rightarrow> nat set \<Rightarrow> page_pool \<Rightarrow> page_pool" where
  "pg_evict tri strm batch_pages pool =
     (if tri_budget tri > 0 \<and> pg_allocated strm pool \<ge> tri_budget tri
      then (case fst (fold (evict_step tri pool strm batch_pages) [0..<length (pg_page_table pool ! 0)] (None, tri_max tri)) of
              None \<Rightarrow> pool
            | Some lp \<Rightarrow> pg_release strm lp pool)
      else pool)"

definition pg_take :: "nat \<Rightarrow> nat \<Rightarrow> page_pool \<Rightarrow> page_pool option" where
  "pg_take strm lpage pool = do {
     require (pg_free_blocks pool \<noteq> []);
     Some ((pg_set strm lpage (last (pg_free_blocks pool)) pool)\<lparr>pg_free_blocks := butlast (pg_free_blocks pool)\<rparr>) }"

definition pg_alloc_cell ::
  "'f tri_attention \<Rightarrow> nat \<Rightarrow> nat set \<Rightarrow> nat \<Rightarrow> page_pool \<Rightarrow> page_pool option" where
  "pg_alloc_cell tri strm batch_pages cell_idx pool = do {
     let lpage = cell_idx div pg_block_size pool;
     require (lpage < length (pg_page_table pool ! 0));
     b \<leftarrow> pg_get pool strm lpage;
     if b < 0 then pg_take strm lpage (pg_evict tri strm batch_pages pool) else Some pool }"

definition pg_alloc_stream :: "'f tri_attention \<Rightarrow> nat \<times> nat list \<Rightarrow> page_pool \<Rightarrow> page_pool option" where
  "pg_alloc_stream tri = (\<lambda>(strm, idxs) pool.
     mfold (pg_alloc_cell tri strm (set (map (\<lambda>c. c div pg_block_size pool) idxs))) idxs pool)"

definition pg_alloc_for_sinfo :: "'f tri_attention \<Rightarrow> nat list \<Rightarrow> nat list list \<Rightarrow> page_pool \<Rightarrow> page_pool option" where
  "pg_alloc_for_sinfo tri strm idxs pool =
     (if \<not> pg_enabled pool then Some pool
      else do {
        require (pg_page_table pool \<noteq> [] \<and> length strm \<le> length idxs);
        mfold (pg_alloc_stream tri) (zip strm idxs) pool })"

section \<open>What the compute graph is given\<close>

text \<open>The row of the V pool that a cell is written to, and the table the attention kernel reads: an
  unmapped page refers to block 0, which holds zeros.\<close>

definition v_row :: "page_pool \<Rightarrow> nat \<Rightarrow> nat \<Rightarrow> int option" where
  "v_row pool strm cell_idx = do {
     b \<leftarrow> pg_get pool strm (cell_idx div pg_block_size pool);
     require (b \<ge> 0);
     Some (b * int (pg_block_size pool) + int (cell_idx mod pg_block_size pool)) }"

definition build_input_v_page_table :: "page_pool \<Rightarrow> nat \<Rightarrow> nat \<Rightarrow> nat \<Rightarrow> nat \<Rightarrow> (nat \<times> nat) option" where
  "build_input_v_page_table pool n_kv s0 s1 n_seq = do {
     require (pg_enabled pool \<and> s0 \<le> s1);
     let ns = s1 - s0 + 1;
     Some ((n_kv + pg_block_size pool - 1) div pg_block_size pool, max ns n_seq) }"

definition set_input_v_page_table :: "page_pool \<Rightarrow> nat \<Rightarrow> nat \<Rightarrow> nat \<Rightarrow> nat \<Rightarrow> int list list option" where
  "set_input_v_page_table pool n_lpage n_rows s0 s1 = do {
     require (pg_enabled pool \<and> s0 \<le> s1);
     let ns = s1 - s0 + 1;
     mfold (\<lambda>r rows. do {
        row \<leftarrow> mfold (\<lambda>lp xs. do { b \<leftarrow> pg_get pool (s0 + min r (ns - 1)) lp;
                                   Some (xs @ [if b \<ge> 0 then b else 0]) }) [0..<n_lpage] [];
        Some (rows @ [row]) }) [0..<n_rows] [] }"

section \<open>Invariant\<close>

text \<open>Every block from 1 to \<open>pg_n_blocks\<close> is either free or mapped by exactly one page, and there are at
  least as many blocks as pages.\<close>

definition mapped :: "page_pool \<Rightarrow> int multiset" where
  "mapped pool = filter_mset (\<lambda>b. 0 \<le> b) (mset (concat (pg_page_table pool)))"

definition all_blocks :: "page_pool \<Rightarrow> int multiset" where
  "all_blocks pool = mset (map int [1..<pg_n_blocks pool + 1])"

definition pool_inv :: "nat \<Rightarrow> nat \<Rightarrow> page_pool \<Rightarrow> bool" where
  "pool_inv n_stream kv_size pool \<longleftrightarrow> (pg_enabled pool \<longrightarrow>
     0 < n_stream \<and> 0 < pg_block_size pool \<and> length (pg_page_table pool) = n_stream \<and>
     (\<forall>row \<in> set (pg_page_table pool). length row = pg_n_pages kv_size (pg_block_size pool)) \<and>
     mset (pg_free_blocks pool) + mapped pool = all_blocks pool \<and>
     pg_n_pages kv_size (pg_block_size pool) * n_stream \<le> pg_n_blocks pool)"

lemma pool_inv_disabled [simp]: "\<not> pg_enabled pool \<Longrightarrow> pool_inv n kv pool"
  by (simp add: pool_inv_def)

lemma mset_concat_update:
  "s < length xss \<Longrightarrow> mset (concat (xss[s := ys])) + mset (xss ! s) = mset (concat xss) + mset ys"
  by (induction xss arbitrary: s) (auto split: nat.split simp: nth_Cons' less_Suc_eq_0_disj)

lemma mapped_set:
  assumes "strm < length (pg_page_table pool)" "lp < length (pg_page_table pool ! strm)"
  shows "mapped (pg_set strm lp b pool) + filter_mset (\<lambda>b. 0 \<le> b) {#pg_page_table pool ! strm ! lp#} =
    mapped pool + filter_mset (\<lambda>b. 0 \<le> b) {#b#}"
proof -
  let ?t = "pg_page_table pool"
  have "mset (concat (?t[strm := (?t ! strm)[lp := b]])) + {#?t ! strm ! lp#} + mset (?t ! strm) =
      mset (concat ?t) + {#b#} + mset (?t ! strm)"
    using mset_concat_update [OF assms(1), of "(?t ! strm)[lp := b]"] assms(2)
    by (simp add: mset_update)
  then have "mset (concat (?t[strm := (?t ! strm)[lp := b]])) + {#?t ! strm ! lp#} = mset (concat ?t) + {#b#}"
    by (simp only: add_right_cancel)
  then have "filter_mset (\<lambda>b. 0 \<le> b) (mset (concat (?t[strm := (?t ! strm)[lp := b]])) + {#?t ! strm ! lp#}) =
      filter_mset (\<lambda>b. 0 \<le> b) (mset (concat ?t) + {#b#})"
    by (rule arg_cong)
  then show ?thesis
    unfolding mapped_def pg_set_def filter_union_mset by simp
qed

lemma pg_set_sel [simp]:
  "pg_enabled (pg_set strm lp b pool) = pg_enabled pool" "pg_block_size (pg_set strm lp b pool) = pg_block_size pool"
  "pg_n_blocks (pg_set strm lp b pool) = pg_n_blocks pool" "pg_free_blocks (pg_set strm lp b pool) = pg_free_blocks pool"
  "length (pg_page_table (pg_set strm lp b pool)) = length (pg_page_table pool)"
  by (simp_all add: pg_set_def)

lemma mapped_free [simp]: "mapped (pool\<lparr>pg_free_blocks := fs\<rparr>) = mapped pool"
  "all_blocks (pool\<lparr>pg_free_blocks := fs\<rparr>) = all_blocks pool"
  "all_blocks (pg_set strm lp b pool) = all_blocks pool"
  by (simp_all add: mapped_def all_blocks_def)

lemma pg_set_rows:
  assumes "\<forall>row \<in> set (pg_page_table pool). length row = n"
  shows "\<forall>row \<in> set (pg_page_table (pg_set strm lp b pool)). length row = n"
proof (cases "strm < length (pg_page_table pool)")
  case True
  then show ?thesis
    using assms set_update_subset_insert [of "pg_page_table pool" strm] by (fastforce simp: pg_set_def)
next
  case False
  then show ?thesis
    using assms by (simp add: pg_set_def list_update_beyond)
qed

lemma pg_set_get:
  "pg_get (pg_set strm lp b pool) strm' lp' =
     (if strm = strm' \<and> lp = lp' \<and> pg_get pool strm lp \<noteq> None then Some b else pg_get pool strm' lp')"
proof (cases "strm < length (pg_page_table pool)")
  case True
  then show ?thesis
    by (cases "strm = strm'") (auto simp: pg_get_def pg_set_def nth_list_update)
next
  case False
  then show ?thesis
    by (auto simp: pg_get_def pg_set_def list_update_beyond)
qed

lemma pg_get_free [simp]: "pg_get (pool\<lparr>pg_free_blocks := fs\<rparr>) = pg_get pool"
  by (simp add: pg_get_def fun_eq_iff)

lemma pg_get_Some_iff:
  assumes "pool_inv n_stream kv_size pool" "pg_enabled pool"
  shows "(\<exists>b. pg_get pool strm lp = Some b) \<longleftrightarrow> strm < n_stream \<and> lp < pg_n_pages kv_size (pg_block_size pool)"
  using assms by (auto simp: pool_inv_def pg_get_def)

text \<open>Releasing a mapped page and taking a block for an unmapped one keep the invariant.\<close>

lemma pg_release_inv:
  assumes "pool_inv n_stream kv_size pool" "pg_get pool strm lp = Some b" "0 \<le> b"
  shows "pool_inv n_stream kv_size (pg_release strm lp pool)"
proof (cases "pg_enabled pool")
  case True
  have b: "b = pg_page_table pool ! strm ! lp" "strm < length (pg_page_table pool)" "lp < length (pg_page_table pool ! strm)"
    using assms(2) by (auto simp: pg_get_def split: if_splits)
  have "add_mset b (mapped (pg_set strm lp (- 1) pool)) = mapped pool"
    using mapped_set [OF b(2,3), of "- 1"] assms(3) b(1) by simp
  moreover have "mset (pg_free_blocks pool) + mapped pool = all_blocks pool"
    using assms(1) True by (simp add: pool_inv_def)
  ultimately have "mset (pg_free_blocks pool) + add_mset b (mapped (pg_set strm lp (- 1) pool)) = all_blocks pool"
    by simp
  then have "mset (pg_free_blocks pool @ [b]) + mapped (pg_set strm lp (- 1) pool) = all_blocks pool"
    by simp
  then show ?thesis
    using assms(1) True pg_set_rows [of pool "pg_n_pages kv_size (pg_block_size pool)" strm lp "- 1"] b(1) by (simp add: pool_inv_def pg_release_def)
qed (simp add: pg_release_def)

lemma mapped_size:
  assumes "pool_inv n_stream kv_size pool" "pg_enabled pool"
  shows "size (mapped pool) \<le> pg_n_pages kv_size (pg_block_size pool) * n_stream"
    and "pg_get pool strm lp = Some b \<Longrightarrow> b < 0 \<Longrightarrow> size (mapped pool) < pg_n_pages kv_size (pg_block_size pool) * n_stream"
proof -
  have "length (concat (pg_page_table pool)) = pg_n_pages kv_size (pg_block_size pool) * n_stream"
    using assms by (simp add: pool_inv_def length_concat sum_list_triv cong: map_cong)
  then have n: "size (mset (concat (pg_page_table pool))) = pg_n_pages kv_size (pg_block_size pool) * n_stream"
    by simp
  then show "size (mapped pool) \<le> pg_n_pages kv_size (pg_block_size pool) * n_stream"
    unfolding mapped_def by (metis multiset_filter_subset size_mset_mono)
  assume b: "pg_get pool strm lp = Some b" "b < 0"
  then have "b \<in># mset (concat (pg_page_table pool))"
    using nth_mem [of strm "pg_page_table pool"] nth_mem [of lp "pg_page_table pool ! strm"]
    by (auto simp: pg_get_def split: if_splits intro: bexI [of _ "pg_page_table pool ! strm"])
  then have "mapped pool \<noteq> mset (concat (pg_page_table pool))"
    using b(2) unfolding mapped_def by (metis filter_mset_eq_conv not_le)
  then have "mapped pool \<subset># mset (concat (pg_page_table pool))"
    unfolding mapped_def by (simp add: subset_mset.less_le)
  then show "size (mapped pool) < pg_n_pages kv_size (pg_block_size pool) * n_stream"
    using n by (metis mset_subset_size)
qed

lemma pg_take_inv:
  assumes "pool_inv n_stream kv_size pool" "pg_enabled pool" "pg_get pool strm lp = Some b" "b < 0"
  obtains b' pool' where "pg_take strm lp pool = Some pool'" "pool_inv n_stream kv_size pool'" "pg_enabled pool'"
    "pg_block_size pool' = pg_block_size pool" "0 < b'"
    "\<And>strm' lp'. pg_get pool' strm' lp' = (if strm' = strm \<and> lp' = lp then Some b' else pg_get pool strm' lp')"
proof -
  let ?f = "pg_free_blocks pool"
  have inv: "mset ?f + mapped pool = all_blocks pool" "pg_n_pages kv_size (pg_block_size pool) * n_stream \<le> pg_n_blocks pool"
    using assms(1,2) by (simp_all add: pool_inv_def)
  have "size (mapped pool) < pg_n_blocks pool"
    using mapped_size(2) [OF assms] inv(2) by simp
  moreover have "size (mset ?f) + size (mapped pool) = pg_n_blocks pool"
    using arg_cong [OF inv(1), of size] by (simp add: all_blocks_def)
  ultimately have ne: "?f \<noteq> []"
    by auto
  have f: "mset ?f = add_mset (last ?f) (mset (butlast ?f))"
  proof -
    obtain ys y where "?f = ys @ [y]"
      using ne by (cases ?f rule: rev_cases) auto
    then show ?thesis by simp
  qed
  have pos: "0 < last ?f"
  proof -
    have "last ?f \<in># all_blocks pool"
      unfolding inv(1) [symmetric] using ne by simp
    then show ?thesis
      by (auto simp: all_blocks_def)
  qed
  have b: "b = pg_page_table pool ! strm ! lp" "strm < length (pg_page_table pool)" "lp < length (pg_page_table pool ! strm)"
    using assms(3) by (auto simp: pg_get_def split: if_splits)
  have "mapped (pg_set strm lp (last ?f) pool) = add_mset (last ?f) (mapped pool)"
    using mapped_set [OF b(2,3), of "last ?f"] assms(4) b(1) pos by simp
  then have "mset (butlast ?f) + mapped (pg_set strm lp (last ?f) pool) = all_blocks pool"
    using inv(1) f by simp
  then have "pool_inv n_stream kv_size ((pg_set strm lp (last ?f) pool)\<lparr>pg_free_blocks := butlast ?f\<rparr>)"
    using assms(1,2) pg_set_rows [of pool "pg_n_pages kv_size (pg_block_size pool)" strm lp "last ?f"] by (simp add: pool_inv_def)
  then show thesis
    using ne pos assms(2,3)
    by (intro that [of "(pg_set strm lp (last ?f) pool)\<lparr>pg_free_blocks := butlast ?f\<rparr>" "last ?f"])
      (auto simp: pg_take_def pg_set_get)
qed

text \<open>Eviction releases at most one page, and none of the pages of the current batch.\<close>

lemma evict_pick:
  assumes "fst (fold (evict_step tri pool strm bp) lps (None, m)) = Some lp"
  shows "lp \<in> set lps \<and> 0 \<le> pg_page_table pool ! strm ! lp \<and> lp \<notin> bp"
proof -
  have "\<forall>lp. fst (fold (evict_step tri pool strm bp) lps a) = Some lp \<longrightarrow>
      fst a = Some lp \<or> lp \<in> set lps \<and> 0 \<le> pg_page_table pool ! strm ! lp \<and> lp \<notin> bp" for a
    by (induction lps arbitrary: a) (auto simp: evict_step_def split: prod.splits if_splits, fastforce+)
  from this [of "(None, m)"] show ?thesis
    using assms by simp
qed

lemma pg_evict_inv:
  assumes "pool_inv n_stream kv_size pool" "pg_enabled pool" "strm < n_stream"
  shows "pool_inv n_stream kv_size (pg_evict tri strm bp pool)" "pg_enabled (pg_evict tri strm bp pool)"
    "pg_block_size (pg_evict tri strm bp pool) = pg_block_size pool"
    "\<And>strm' lp'. strm' \<noteq> strm \<or> lp' \<in> bp \<Longrightarrow> pg_get (pg_evict tri strm bp pool) strm' lp' = pg_get pool strm' lp'"
proof -
  let ?p = "pg_evict tri strm bp pool"
  consider "?p = pool" | lp where "?p = pg_release strm lp pool" "lp < length (pg_page_table pool ! 0)"
    "0 \<le> pg_page_table pool ! strm ! lp" "lp \<notin> bp"
  proof (cases "tri_budget tri > 0 \<and> pg_allocated strm pool \<ge> tri_budget tri")
    case True
    show thesis
    proof (cases "fst (fold (evict_step tri pool strm bp) [0..<length (pg_page_table pool ! 0)] (None, tri_max tri))")
      case None
      then have "?p = pool"
        by (simp add: pg_evict_def)
      then show thesis by (rule that(1))
    next
      case (Some lp)
      then have "?p = pg_release strm lp pool"
        using True by (simp add: pg_evict_def)
      then show thesis
        using evict_pick [OF Some] by (intro that(2)) auto
    qed
  next
    case False
    then have "?p = pool"
      by (auto simp: pg_evict_def)
    then show thesis by (rule that(1))
  qed
  then have "pool_inv n_stream kv_size ?p \<and> pg_enabled ?p \<and> pg_block_size ?p = pg_block_size pool \<and>
    (\<forall>strm' lp'. strm' \<noteq> strm \<or> lp' \<in> bp \<longrightarrow> pg_get ?p strm' lp' = pg_get pool strm' lp')"
  proof cases
    case 1
    then show ?thesis using assms by simp
  next
    case (2 lp)
    have "length (pg_page_table pool ! 0) = length (pg_page_table pool ! strm)"
      using assms by (auto simp: pool_inv_def)
    then have g: "pg_get pool strm lp = Some (pg_page_table pool ! strm ! lp)"
      using 2 assms by (simp add: pg_get_def pool_inv_def)
    then show ?thesis
      using pg_release_inv [OF assms(1) g 2(3)] 2 assms(2) by (auto simp: pg_release_def pg_set_get)
  qed
  then show "pool_inv n_stream kv_size ?p" "pg_enabled ?p" "pg_block_size ?p = pg_block_size pool"
    "\<And>strm' lp'. strm' \<noteq> strm \<or> lp' \<in> bp \<Longrightarrow> pg_get ?p strm' lp' = pg_get pool strm' lp'"
    by blast+
qed

lemma page_of_cell: "0 < bs \<Longrightarrow> c < kv_size \<Longrightarrow> c div bs < pg_n_pages kv_size bs"
proof -
  assume "0 < bs" "c < kv_size"
  then have "c + bs \<le> kv_size + bs - 1"
    by simp
  then have "(c + bs) div bs \<le> (kv_size + bs - 1) div bs"
    by (rule div_le_mono)
  then show ?thesis
    using \<open>0 < bs\<close> by (simp add: pg_n_pages_def Suc_le_eq div_add_self2)
qed

definition cell_mapped :: "page_pool \<Rightarrow> nat \<Rightarrow> nat \<Rightarrow> bool" where
  "cell_mapped pool strm c \<longleftrightarrow> (\<exists>b \<ge> 0. pg_get pool strm (c div pg_block_size pool) = Some b)"

lemma pg_alloc_cell_spec:
  assumes "pool_inv n_stream kv_size pool" "pg_enabled pool" "strm < n_stream" "c < kv_size"
    "c div pg_block_size pool \<in> bp"
  obtains pool' where "pg_alloc_cell tri strm bp c pool = Some pool'" "pool_inv n_stream kv_size pool'"
    "pg_enabled pool'" "pg_block_size pool' = pg_block_size pool" "cell_mapped pool' strm c"
    "\<And>strm' lp b. strm' \<noteq> strm \<Longrightarrow> pg_get pool' strm' lp = pg_get pool strm' lp"
    "\<And>lp b. lp \<in> bp \<Longrightarrow> pg_get pool strm lp = Some b \<Longrightarrow> 0 \<le> b \<Longrightarrow> pg_get pool' strm lp = Some b"
proof -
  let ?lp = "c div pg_block_size pool"
  have bs: "0 < pg_block_size pool" and row: "length (pg_page_table pool ! 0) = pg_n_pages kv_size (pg_block_size pool)"
    using assms(1,2) by (auto simp: pool_inv_def)
  have lp: "?lp < length (pg_page_table pool ! 0)"
    using page_of_cell [OF bs assms(4)] row by simp
  obtain b where b: "pg_get pool strm ?lp = Some b"
    using pg_get_Some_iff [OF assms(1,2)] assms(3) lp row by auto
  show thesis
  proof (cases "b < 0")
    case True
    let ?e = "pg_evict tri strm bp pool"
    note e = pg_evict_inv [OF assms(1,2,3), where tri = tri and bp = bp]
    have "pg_get ?e strm ?lp = Some b"
      using e(4) [of strm ?lp] assms(5) b by simp
    then obtain b' pool' where t: "pg_take strm ?lp ?e = Some pool'" "pool_inv n_stream kv_size pool'" "pg_enabled pool'"
      "pg_block_size pool' = pg_block_size pool" "0 < b'"
      "\<And>strm' lp'. pg_get pool' strm' lp' = (if strm' = strm \<and> lp' = ?lp then Some b' else pg_get ?e strm' lp')"
      using pg_take_inv [OF e(1,2) _ True] e(3) by metis
    show thesis
    proof (rule that [of pool'])
      show "pg_alloc_cell tri strm bp c pool = Some pool'"
        using lp b True t(1) by (simp add: pg_alloc_cell_def)
      show "cell_mapped pool' strm c"
        using t(4,5,6) by (auto simp: cell_mapped_def intro: less_imp_le)
    qed (use t e(4) b True in auto)
  next
    case False
    then show thesis
      using assms lp b by (intro that [of pool]) (auto simp: pg_alloc_cell_def cell_mapped_def)
  qed
qed

lemma pg_alloc_stream_spec:
  assumes "pool_inv n_stream kv_size pool" "pg_enabled pool" "strm < n_stream" "\<And>c. c \<in> set idxs \<Longrightarrow> c < kv_size"
  obtains pool' where "pg_alloc_stream tri (strm, idxs) pool = Some pool'" "pool_inv n_stream kv_size pool'"
    "pg_enabled pool'" "pg_block_size pool' = pg_block_size pool" "\<And>c. c \<in> set idxs \<Longrightarrow> cell_mapped pool' strm c"
    "\<And>strm' lp. strm' \<noteq> strm \<Longrightarrow> pg_get pool' strm' lp = pg_get pool strm' lp"
proof -
  let ?bs = "pg_block_size pool"
  let ?bp = "set (map (\<lambda>c. c div ?bs) idxs)"
  let ?I = "\<lambda>done p. pool_inv n_stream kv_size p \<and> pg_enabled p \<and> pg_block_size p = ?bs \<and>
    (\<forall>c \<in> set done. cell_mapped p strm c) \<and> (\<forall>strm' lp. strm' \<noteq> strm \<longrightarrow> pg_get p strm' lp = pg_get pool strm' lp)"
  have "\<exists>p. mfold (pg_alloc_cell tri strm ?bp) idxs pool = Some p \<and> ?I idxs p"
  proof (rule mfold_invariant)
    show "?I [] pool"
      using assms by simp
  next
    fix done' c rest p
    assume split: "idxs = done' @ c # rest" and I: "?I done' p"
    have "c < kv_size" "c div pg_block_size p \<in> ?bp"
      using I split assms(4) by auto
    then obtain p' where p': "pg_alloc_cell tri strm ?bp c p = Some p'" "pool_inv n_stream kv_size p'"
      "pg_enabled p'" "pg_block_size p' = pg_block_size p" "cell_mapped p' strm c"
      "\<And>strm' lp b. strm' \<noteq> strm \<Longrightarrow> pg_get p' strm' lp = pg_get p strm' lp"
      "\<And>lp b. lp \<in> ?bp \<Longrightarrow> pg_get p strm lp = Some b \<Longrightarrow> 0 \<le> b \<Longrightarrow> pg_get p' strm lp = Some b"
      using I assms(3) by (elim pg_alloc_cell_spec [of n_stream kv_size p strm c ?bp tri, rotated -1]) auto
    have "cell_mapped p' strm d" if "d \<in> set done'" for d
    proof -
      have "d div ?bs \<in> ?bp"
        using that split by auto
      then show ?thesis
        using I that p'(4,7) by (auto simp: cell_mapped_def)
    qed
    then show "\<exists>s'. pg_alloc_cell tri strm ?bp c p = Some s' \<and> ?I (done' @ [c]) s'"
      using p' I by auto
  qed
  then show thesis
    by (auto simp: pg_alloc_stream_def intro: that)
qed

lemma pg_alloc_for_sinfo_spec:
  assumes "pool_inv n_stream kv_size pool" "pg_enabled pool" "distinct strm" "\<And>s. s \<in> set strm \<Longrightarrow> s < n_stream"
    "length idxs = length strm" "\<And>xs c. xs \<in> set idxs \<Longrightarrow> c \<in> set xs \<Longrightarrow> c < kv_size"
  obtains pool' where "pg_alloc_for_sinfo tri strm idxs pool = Some pool'" "pool_inv n_stream kv_size pool'"
    "pg_enabled pool'" "pg_block_size pool' = pg_block_size pool"
    "\<And>k c. k < length strm \<Longrightarrow> c \<in> set (idxs ! k) \<Longrightarrow> cell_mapped pool' (strm ! k) c"
proof -
  let ?I = "\<lambda>done p. pool_inv n_stream kv_size p \<and> pg_enabled p \<and> pg_block_size p = pg_block_size pool \<and>
    (\<forall>(s, xs) \<in> set done. \<forall>c \<in> set xs. cell_mapped p s c)"
  have "\<exists>p. mfold (pg_alloc_stream tri) (zip strm idxs) pool = Some p \<and> ?I (zip strm idxs) p"
  proof (rule mfold_invariant)
    fix done' x rest p
    assume split: "zip strm idxs = done' @ x # rest" and I: "?I done' p"
    obtain s xs where x: "x = (s, xs)" by fastforce
    have "(s, xs) \<in> set (zip strm idxs)"
      using split x by simp
    then have mem: "s < n_stream" "\<And>c. c \<in> set xs \<Longrightarrow> c < kv_size"
      using assms(4) [of s] assms(6) [of xs] by (auto dest: set_zip_leftD set_zip_rightD)
    obtain p' where p': "pg_alloc_stream tri (s, xs) p = Some p'" "pool_inv n_stream kv_size p'"
      "pg_enabled p'" "pg_block_size p' = pg_block_size p" "\<And>c. c \<in> set xs \<Longrightarrow> cell_mapped p' s c"
      "\<And>strm' lp. strm' \<noteq> s \<Longrightarrow> pg_get p' strm' lp = pg_get p strm' lp"
      using I mem by (elim pg_alloc_stream_spec [of n_stream kv_size p s xs tri, rotated -1]) auto
    have "distinct (map fst (zip strm idxs))"
      using assms(3,5) by simp
    then have "s \<notin> fst ` set done'"
      unfolding split x by auto
    then have "cell_mapped p' s' c" if "(s', ys) \<in> set done'" "c \<in> set ys" for s' ys c
    proof -
      have "s' \<noteq> s"
        using \<open>s \<notin> fst ` set done'\<close> that(1) by force
      moreover have "cell_mapped p s' c"
        using I that by blast
      ultimately show ?thesis
        using p'(4) p'(6) [of s'] by (simp add: cell_mapped_def)
    qed
    then show "\<exists>s'. pg_alloc_stream tri x p = Some s' \<and> ?I (done' @ [x]) s'"
      using p' I x by auto
  qed (use assms in auto)
  then obtain p where p: "mfold (pg_alloc_stream tri) (zip strm idxs) pool = Some p" "?I (zip strm idxs) p"
    by blast
  have "pg_page_table pool \<noteq> []"
    using assms(1,2) by (auto simp: pool_inv_def)
  then have "pg_alloc_for_sinfo tri strm idxs pool = Some p"
    using p(1) assms(2,5) by (simp add: pg_alloc_for_sinfo_def)
  moreover have "cell_mapped p (strm ! k) c" if "k < length strm" "c \<in> set (idxs ! k)" for k c
  proof -
    have "(strm ! k, idxs ! k) \<in> set (zip strm idxs)"
      using that(1) assms(5) by (auto simp: in_set_zip)
    then show ?thesis
      using p(2) that(2) by blast
  qed
  ultimately show thesis
    using p(2) by (intro that [of p]) auto
qed

text \<open>No two pages share a block, so no two cells share a row of the V pool.\<close>

lemma count_all_blocks: "count (all_blocks pool) b \<le> 1"
proof -
  have "distinct (map int [1..<pg_n_blocks pool + 1])"
    by (simp add: distinct_map del: upt_Suc)
  then show ?thesis
    unfolding all_blocks_def by (simp add: distinct_count_atmost_1 del: upt_Suc)
qed

lemma block_range:
  assumes "pool_inv n_stream kv_size pool" "pg_enabled pool" "pg_get pool strm lp = Some b" "0 \<le> b"
  shows "1 \<le> b" "b \<le> int (pg_n_blocks pool)"
proof -
  have "b \<in> set (concat (pg_page_table pool))"
    using assms(3) nth_mem [of strm "pg_page_table pool"] nth_mem [of lp "pg_page_table pool ! strm"]
    by (auto simp: pg_get_def split: if_splits intro: bexI [of _ "pg_page_table pool ! strm"])
  then have "b \<in># mapped pool"
    using assms(4) by (simp add: mapped_def)
  moreover have "mapped pool \<subseteq># all_blocks pool"
    using assms(1,2) by (metis mset_subset_eq_add_right pool_inv_def)
  ultimately have "b \<in># all_blocks pool"
    by (rule mset_subset_eqD [rotated])
  then show "1 \<le> b" "b \<le> int (pg_n_blocks pool)"
    by (auto simp: all_blocks_def)
qed

lemma block_inj:
  assumes "pool_inv n_stream kv_size pool" "pg_enabled pool" "0 \<le> b"
    "pg_get pool s lp = Some b" "pg_get pool s' lp' = Some b"
  shows "s = s' \<and> lp = lp'"
proof (rule ccontr)
  assume ne: "\<not> (s = s' \<and> lp = lp')"
  let ?p = "pg_release s lp pool"
  have g: "pg_get ?p s' lp' = Some b" "pool_inv n_stream kv_size ?p" "pg_enabled ?p"
    using ne assms(2,5) pg_release_inv [OF assms(1,4,3)] by (auto simp: pg_release_def pg_set_get)
  have "b \<in> set (concat (pg_page_table ?p))"
    using g(1) nth_mem [of s' "pg_page_table ?p"] nth_mem [of lp' "pg_page_table ?p ! s'"]
    by (auto simp: pg_get_def split: if_splits intro: bexI [of _ "pg_page_table ?p ! s'"])
  then have "1 \<le> count (mapped ?p) b"
    using assms(3) by (simp add: mapped_def count_mset_gt_0 Suc_le_eq count_greater_zero_iff)
  moreover have "1 \<le> count (mset (pg_free_blocks ?p)) b"
    using assms(4) by (auto simp: pg_release_def pg_get_def split: if_splits)
  moreover have "count (mset (pg_free_blocks ?p)) b + count (mapped ?p) b \<le> 1"
    using count_all_blocks [of ?p b] g(2,3) by (metis count_union pool_inv_def)
  ultimately show False by linarith
qed

lemma v_row_Some:
  "v_row pool s c = Some r \<longleftrightarrow> (\<exists>b \<ge> 0. pg_get pool s (c div pg_block_size pool) = Some b \<and>
     r = b * int (pg_block_size pool) + int (c mod pg_block_size pool))"
  by (auto simp: v_row_def bind_Some_iff)

lemma v_row_mapped: "(\<exists>r. v_row pool s c = Some r) \<longleftrightarrow> cell_mapped pool s c"
  by (auto simp: v_row_Some cell_mapped_def)


text \<open>Releasing the pages whose cells are all empty.\<close>

definition page_empty :: "llama_kv_cells \<Rightarrow> nat \<Rightarrow> nat \<Rightarrow> bool" where
  "page_empty c bs lp \<longleftrightarrow> (\<forall>i < cells_size c. i div bs = lp \<longrightarrow> cell_view c i = None)"

lemma page_busy_eq:
  assumes "kv_cells_inv c" "\<And>i. i \<in> set is \<Longrightarrow> i < cells_size c"
  shows "page_busy c is = Some (\<exists>i \<in> set is. cell_view c i \<noteq> None)"
  using assms by (induction "is") (auto simp: cells_is_empty_view)

lemma div_eq_range: "0 < bs \<Longrightarrow> i div bs = lp \<longleftrightarrow> lp * bs \<le> i \<and> i < lp * bs + (bs :: nat)"
  by (metis add.commute div_le_dividend dividend_less_div_times div_nat_eqI less_mult_imp_div_less
      mult.commute mult_Suc mult_Suc_right nat_less_le times_div_less_eq_dividend)

lemma try_free_page_spec:
  assumes "pool_inv n_stream kv_size pool" "pg_enabled pool" "strm < n_stream" "kv_cells_inv c" "cells_size c = kv_size"
    "lp < pg_n_pages kv_size (pg_block_size pool)"
  obtains pool' where "try_free_page kv_size c strm lp pool = Some pool'" "pool_inv n_stream kv_size pool'"
    "pg_enabled pool'" "pg_block_size pool' = pg_block_size pool"
    "\<And>s lp'. (\<exists>b \<ge> 0. pg_get pool' s lp' = Some b) \<longleftrightarrow>
       (\<exists>b \<ge> 0. pg_get pool s lp' = Some b) \<and> \<not> (s = strm \<and> lp' = lp \<and> page_empty c (pg_block_size pool) lp)"
proof -
  let ?bs = "pg_block_size pool"
  have bs: "0 < ?bs"
    using assms(1,2) by (simp add: pool_inv_def)
  obtain b where b: "pg_get pool strm lp = Some b"
    using pg_get_Some_iff [OF assms(1,2)] assms(3,6) by blast
  have "(\<exists>i \<in> set [lp * ?bs..<min (lp * ?bs + ?bs) kv_size]. cell_view c i \<noteq> None) \<longleftrightarrow> \<not> page_empty c ?bs lp"
    using assms(5) div_eq_range [OF bs] by (auto simp: page_empty_def)
  moreover have "page_busy c [lp * ?bs..<min (lp * ?bs + ?bs) kv_size] =
      Some (\<exists>i \<in> set [lp * ?bs..<min (lp * ?bs + ?bs) kv_size]. cell_view c i \<noteq> None)"
    using assms(4,5) by (intro page_busy_eq) auto
  ultimately have free: "try_free_page kv_size c strm lp pool =
      Some (if b < 0 \<or> \<not> page_empty c ?bs lp then pool else pg_release strm lp pool)"
    using b by (simp add: try_free_page_def)
  show thesis
  proof (cases "b < 0 \<or> \<not> page_empty c ?bs lp")
    case True
    then show thesis
      using free assms(1,2) b by (intro that [of pool]) auto
  next
    case False
    then show thesis
      using free assms(2) b pg_release_inv [OF assms(1) b]
      by (intro that [of "pg_release strm lp pool"]) (auto simp: pg_release_def pg_set_get)
  qed
qed

lemma free_pages_spec:
  assumes "pool_inv n_stream kv_size pool" "pg_enabled pool" "strm < n_stream" "kv_cells_inv c" "cells_size c = kv_size"
  obtains pool' where "free_pages kv_size c strm pool = Some pool'" "pool_inv n_stream kv_size pool'"
    "pg_enabled pool'" "pg_block_size pool' = pg_block_size pool"
    "\<And>s i. i < kv_size \<Longrightarrow> cell_mapped pool' s i \<longleftrightarrow>
       cell_mapped pool s i \<and> \<not> (s = strm \<and> page_empty c (pg_block_size pool) (i div pg_block_size pool))"
proof -
  let ?bs = "pg_block_size pool"
  let ?I = "\<lambda>done p. pool_inv n_stream kv_size p \<and> pg_enabled p \<and> pg_block_size p = ?bs \<and>
    (\<forall>s lp. (\<exists>b \<ge> 0. pg_get p s lp = Some b) \<longleftrightarrow>
       (\<exists>b \<ge> 0. pg_get pool s lp = Some b) \<and> \<not> (s = strm \<and> lp \<in> set done \<and> page_empty c ?bs lp))"
  have "\<exists>p. mfold (try_free_page kv_size c strm) [0..<pg_n_pages kv_size ?bs] pool = Some p \<and>
      ?I [0..<pg_n_pages kv_size ?bs] p"
  proof (rule mfold_invariant)
    fix done' lp rest p
    assume split: "[0..<pg_n_pages kv_size ?bs] = done' @ lp # rest" and I: "?I done' p"
    have "lp \<in> set [0..<pg_n_pages kv_size ?bs]"
      unfolding split by simp
    then obtain p' where p': "try_free_page kv_size c strm lp p = Some p'" "pool_inv n_stream kv_size p'"
      "pg_enabled p'" "pg_block_size p' = pg_block_size p"
      "\<And>s lp'. (\<exists>b \<ge> 0. pg_get p' s lp' = Some b) \<longleftrightarrow>
         (\<exists>b \<ge> 0. pg_get p s lp' = Some b) \<and> \<not> (s = strm \<and> lp' = lp \<and> page_empty c (pg_block_size p) lp)"
      using I assms(3-5) by (elim try_free_page_spec [of n_stream kv_size p strm c lp, rotated -1]) auto
    have bs: "pg_block_size p = ?bs"
      using I by simp
    have "(\<exists>b \<ge> 0. pg_get p' s lp' = Some b) \<longleftrightarrow>
       (\<exists>b \<ge> 0. pg_get pool s lp' = Some b) \<and> \<not> (s = strm \<and> lp' \<in> set (done' @ [lp]) \<and> page_empty c ?bs lp')" for s lp'
      using I unfolding p'(5) bs by auto
    then show "\<exists>s'. try_free_page kv_size c strm lp p = Some s' \<and> ?I (done' @ [lp]) s'"
      using p'(1-4) bs by auto
  qed (use assms in auto)
  then obtain p where p: "free_pages kv_size c strm pool = Some p" "?I [0..<pg_n_pages kv_size ?bs] p"
    by (auto simp: free_pages_def)
  have "i div ?bs \<in> set [0..<pg_n_pages kv_size ?bs]" if "i < kv_size" for i
    using page_of_cell [OF _ that] assms(1,2) by (simp add: pool_inv_def)
  then show thesis
    using p by (intro that [of p]) (auto simp: cell_mapped_def)
qed

text \<open>The fresh pool.\<close>

lemma mset_pg_stack: "mset (pg_stack n) = mset (map int [1..<n + 1])"
proof -
  have "pg_stack n = rev (map int [1..<n + 1])"
    by (rule nth_equalityI) (auto simp: pg_stack_def rev_nth nth_append of_nat_diff simp del: upt_Suc)
  then show ?thesis by simp
qed

lemma pg_init_inv:
  assumes "0 < n_stream"
  shows "pool_inv n_stream kv_size (pg_init enabled kv_size n_stream)"
proof -
  define n_pages where "n_pages = pg_n_pages kv_size 32"
  define n_blocks where "n_blocks = (n_pages + 1) * n_stream - 1"
  have "filter_mset (\<lambda>b :: int. 0 \<le> b) (mset (concat (replicate n_stream (replicate n_pages (- 1))))) = {#}"
    unfolding mset_filter [symmetric] by (auto simp: filter_empty_conv)
  moreover have "n_pages * n_stream \<le> n_blocks"
    using assms by (cases n_stream) (auto simp: n_blocks_def)
  ultimately show ?thesis
    unfolding pg_init_def Let_def n_pages_def [symmetric] n_blocks_def [symmetric]
    using assms by (simp add: pool_inv_def mapped_def all_blocks_def mset_pg_stack n_pages_def [symmetric])
qed

lemma pg_clear_inv:
  assumes "pool_inv n_stream kv_size pool"
  shows "pool_inv n_stream kv_size (pg_clear pool)"
proof -
  have "filter_mset (\<lambda>b :: int. 0 \<le> b) (mset (concat (map (map (\<lambda>_. - 1)) (xss :: int list list)))) = {#}" for xss
    unfolding mset_filter [symmetric] by (auto simp: filter_empty_conv)
  then show ?thesis
    using assms by (auto simp: pool_inv_def pg_clear_def mapped_def all_blocks_def mset_pg_stack)
qed

definition demo_tri :: "int tri_attention" where
  "demo_tri = \<lparr>tri_budget = 1, tri_less = (<), tri_max = 1000, tri_score = (\<lambda>s lp. 7)\<rparr>"

text \<open>C23. Allocation never fails: for any slots inside the cache, whatever the scores and the page
  budget, \<open>pg_alloc_for_sinfo\<close> returns (it never runs out of blocks), keeps the pool consistent, and
  afterwards every cell of the slots has a row in the V pool, so that \<open>set_input_v_idxs\<close> does not meet
  an unmapped page.\<close>

theorem pg_alloc_total:
  assumes "pool_inv n_stream kv_size pool" "pg_enabled pool" "distinct strm" "\<forall>s \<in> set strm. s < n_stream"
    "length idxs = length strm" "\<forall>xs \<in> set idxs. \<forall>c \<in> set xs. c < kv_size"
  shows "\<exists>pool'. pg_alloc_for_sinfo tri strm idxs pool = Some pool' \<and> pool_inv n_stream kv_size pool' \<and>
    (\<forall>k < length strm. \<forall>c \<in> set (idxs ! k). \<exists>r. v_row pool' (strm ! k) c = Some r)"
proof -
  obtain pool' where "pg_alloc_for_sinfo tri strm idxs pool = Some pool'" "pool_inv n_stream kv_size pool'"
    "\<And>k c. k < length strm \<Longrightarrow> c \<in> set (idxs ! k) \<Longrightarrow> cell_mapped pool' (strm ! k) c"
    by (rule pg_alloc_for_sinfo_spec [of n_stream kv_size pool strm idxs tri]) (use assms in auto)
  then show ?thesis
    by (auto simp: v_row_mapped)
qed

theorem pg_alloc_total_witness:
  "\<exists>pool'. pg_alloc_for_sinfo demo_tri [1, 0] [[5, 40], [63]] (pg_init True 64 2) = Some pool' \<and>
     (\<exists>r. v_row pool' 1 40 = Some r)"
  using pg_alloc_total [OF pg_init_inv [of 2 64 True], of "[1, 0]" "[[5, 40], [63]]" demo_tri]
  by (fastforce simp: pg_init_def Let_def)


end
