(* ===== verification/KV_Cache.thy ===== *)
theory KV_Cache
  imports Memory KV_Paging
begin

text \<open>
  \<open>llama_kv_cache\<close> of \<open>src/src/llama-kv-cache.cpp\<close> as a memory: its state, the constructor's metadata, and
  the operations of the memory interface (\<open>clear\<close>, \<open>seq_rm\<close>, \<open>seq_cp\<close>, \<open>seq_keep\<close>, \<open>seq_add\<close>,
  \<open>seq_div\<close>, \<open>seq_pos_min\<close>, \<open>seq_pos_max\<close>, \<open>update\<close>). The K and V tensors themselves are not modelled; the
  commands the cache issues on them are recorded in order in \<open>kv_log\<close>.

  The loops over the cells share one shape: visit every cell, let a body change it, and remember the first
  cell the body freed. \<open>sweep\<close> is that loop, and the locale \<open>cell_body\<close> the contract of a body.
\<close>

section \<open>State\<close>

datatype swa_type = SWA_NONE | SWA_STANDARD | SWA_CHUNKED | SWA_SYMMETRIC

datatype tensor_op =
    Zero_Block0
  | Clear_Buffers
  | Set_Rotation
  | Copy_Stream nat nat
  | K_Shift

record stream_copy_info =
  sc_ssrc :: "nat list"
  sc_sdst :: "nat list"

definition sc_empty :: "stream_copy_info \<Rightarrow> bool option" where
  "sc_empty sc = do { require (length (sc_ssrc sc) = length (sc_sdst sc)); Some (sc_ssrc sc = []) }"

record kv_cache =
  kv_n_seq_max :: nat
  kv_n_stream :: nat
  kv_n_pad :: nat
  kv_n_swa :: nat
  kv_swa_type :: swa_type
  kv_v_trans :: bool
  kv_n_pos_per_embd :: nat
  kv_arch_step35 :: bool
  kv_rope_none :: bool
  kv_has_rotation :: bool
  kv_heads :: "nat list"
  kv_cells :: "llama_kv_cells list"
  kv_seq_to_stream :: "nat list"
  kv_sc_info :: stream_copy_info
  kv_pool :: page_pool
  kv_log :: "tensor_op list"

text \<open>The part of the constructor that sets up the metadata: \<open>unified\<close> selects one stream for all
  sequences. Whether paging is on depends on the devices and on an environment variable and is an
  argument.\<close>

definition kv_new ::
  "bool \<Rightarrow> nat \<Rightarrow> nat \<Rightarrow> nat \<Rightarrow> nat \<Rightarrow> swa_type \<Rightarrow> bool \<Rightarrow> nat \<Rightarrow> bool \<Rightarrow> bool \<Rightarrow> bool \<Rightarrow> bool \<Rightarrow> kv_cache option" where
  "kv_new unified kv_size n_seq_max n_pad n_swa swa v_trans n_pos step35 rope_none rotation paging = do {
     let n_stream = (if unified then 1 else n_seq_max);
     require (n_pad > 0 \<and> kv_size mod n_pad = 0);
     require (n_stream = 1 \<or> n_stream = n_seq_max);
     require (n_stream \<le> LLAMA_MAX_SEQ);
     let pool = pg_init (paging \<and> \<not> v_trans) kv_size n_stream;
     Some \<lparr>kv_n_seq_max = n_seq_max, kv_n_stream = n_stream, kv_n_pad = n_pad, kv_n_swa = n_swa,
           kv_swa_type = swa, kv_v_trans = v_trans, kv_n_pos_per_embd = n_pos, kv_arch_step35 = step35,
           kv_rope_none = rope_none, kv_has_rotation = rotation,
           kv_heads = replicate n_stream 0,
           kv_cells = replicate n_stream (cells_resize kv_size cells_new),
           kv_seq_to_stream = (if n_stream > 1 then [0..<n_stream] @ replicate (LLAMA_MAX_SEQ - n_stream) 0
             else replicate LLAMA_MAX_SEQ 0),
           kv_sc_info = \<lparr>sc_ssrc = [], sc_sdst = []\<rparr>,
           kv_pool = pool,
           kv_log = (if rotation then [Set_Rotation] else []) @ (if pg_enabled pool then [Zero_Block0] else [])\<rparr> }"

section \<open>Operations\<close>

definition kv_clear :: "bool \<Rightarrow> kv_cache \<Rightarrow> kv_cache" where
  "kv_clear data kv = kv\<lparr>
     kv_cells := map cells_reset (kv_cells kv),
     kv_heads := map (\<lambda>_. 0) (kv_heads kv),
     kv_pool := pg_clear (kv_pool kv),
     kv_log := kv_log kv @ (if pg_enabled (kv_pool kv) then [Zero_Block0] else []) @
       (if data then Clear_Buffers # (if kv_has_rotation kv then [Set_Rotation] else []) else [])\<rparr>"

definition sweep ::
  "(nat \<Rightarrow> llama_kv_cells \<Rightarrow> (bool \<times> llama_kv_cells) option) \<Rightarrow> llama_kv_cells \<Rightarrow> (nat \<times> llama_kv_cells) option" where
  "sweep body c = mfold (\<lambda>i (new_head, c). do {
       r \<leftarrow> body i c;
       Some (if fst r \<and> new_head = cells_size (snd r) then i else new_head, snd r) })
     [0..<cells_size c] (cells_size c, c)"

definition sweep_stream ::
  "(nat \<Rightarrow> llama_kv_cells \<Rightarrow> (bool \<times> llama_kv_cells) option) \<Rightarrow> (nat \<Rightarrow> nat \<Rightarrow> nat \<Rightarrow> nat) \<Rightarrow> nat \<Rightarrow>
   kv_cache \<Rightarrow> kv_cache option" where
  "sweep_stream body new_head_of s kv = do {
     require (s < length (kv_cells kv) \<and> s < length (kv_heads kv));
     r \<leftarrow> sweep body (kv_cells kv ! s);
     Some (kv\<lparr>kv_cells := (kv_cells kv)[s := snd r],
              kv_heads := (kv_heads kv)[s := new_head_of (fst r) (cells_size (snd r)) (kv_heads kv ! s)]\<rparr>) }"

definition lower_head :: "nat \<Rightarrow> nat \<Rightarrow> nat \<Rightarrow> nat" where
  "lower_head new_head sz head = (if new_head \<noteq> sz \<and> new_head < head then new_head else head)"

definition reset_head :: "nat \<Rightarrow> nat \<Rightarrow> nat \<Rightarrow> nat" where
  "reset_head new_head sz head = (if new_head \<noteq> sz then new_head else 0)"

definition same_head :: "nat \<Rightarrow> nat \<Rightarrow> nat \<Rightarrow> nat" where
  "same_head new_head sz head = head"

text \<open>The bodies of the loops of \<open>seq_rm\<close> (one sequence, any sequence), \<open>seq_cp\<close>, \<open>seq_keep\<close>,
  \<open>seq_add\<close> and \<open>seq_div\<close>.\<close>

definition on_match ::
  "int \<Rightarrow> int \<Rightarrow> nat \<Rightarrow> (nat \<Rightarrow> llama_kv_cells \<Rightarrow> (bool \<times> llama_kv_cells) option) \<Rightarrow> nat \<Rightarrow>
   llama_kv_cells \<Rightarrow> (bool \<times> llama_kv_cells) option" where
  "on_match p0 p1 s act i c = do {
     inside \<leftarrow> cells_pos_in i p0 p1 c;
     if \<not> inside then Some (False, c)
     else do {
       has \<leftarrow> cells_seq_has i s c;
       if has then act i c else Some (False, c) } }"

definition rm_seq_body :: "int \<Rightarrow> int \<Rightarrow> nat \<Rightarrow> nat \<Rightarrow> llama_kv_cells \<Rightarrow> (bool \<times> llama_kv_cells) option" where
  "rm_seq_body p0 p1 s = on_match p0 p1 s (\<lambda>i c. cells_seq_rm i s c)"

definition rm_any_body :: "int \<Rightarrow> int \<Rightarrow> nat \<Rightarrow> llama_kv_cells \<Rightarrow> (bool \<times> llama_kv_cells) option" where
  "rm_any_body p0 p1 i c = do {
     inside \<leftarrow> cells_pos_in i p0 p1 c;
     if \<not> inside then Some (False, c) else do { c' \<leftarrow> cells_rm i c; Some (True, c') } }"

definition cp_body :: "int \<Rightarrow> int \<Rightarrow> nat \<Rightarrow> nat \<Rightarrow> nat \<Rightarrow> llama_kv_cells \<Rightarrow> (bool \<times> llama_kv_cells) option" where
  "cp_body p0 p1 src dst = on_match p0 p1 src (\<lambda>i c. do { c' \<leftarrow> cells_seq_add i dst c; Some (False, c') })"

definition keep_body :: "nat \<Rightarrow> nat \<Rightarrow> llama_kv_cells \<Rightarrow> (bool \<times> llama_kv_cells) option" where
  "keep_body s i c = cells_seq_keep i s c"

definition add_body :: "int \<Rightarrow> int \<Rightarrow> nat \<Rightarrow> int \<Rightarrow> nat \<Rightarrow> llama_kv_cells \<Rightarrow> (bool \<times> llama_kv_cells) option" where
  "add_body p0 p1 s shift = on_match p0 p1 s (\<lambda>i c. cells_pos_add i shift c)"

definition div_body :: "int \<Rightarrow> int \<Rightarrow> nat \<Rightarrow> int \<Rightarrow> nat \<Rightarrow> llama_kv_cells \<Rightarrow> (bool \<times> llama_kv_cells) option" where
  "div_body p0 p1 s d = on_match p0 p1 s (\<lambda>i c. do { c' \<leftarrow> cells_pos_div i d c; Some (False, c') })"

text \<open>Range arguments: a negative start is 0, a negative end is the greatest position (which itself is
  then excluded).\<close>

definition pos_lo :: "int \<Rightarrow> int" where
  "pos_lo p0 = (if p0 < 0 then 0 else p0)"

definition pos_hi :: "int \<Rightarrow> int" where
  "pos_hi p1 = (if p1 < 0 then INT32_MAX else p1)"

definition kv_stream :: "kv_cache \<Rightarrow> int \<Rightarrow> nat option" where
  "kv_stream kv seq_id = do {
     require (seq_id \<ge> 0 \<and> seq_id < int (length (kv_seq_to_stream kv)));
     Some (kv_seq_to_stream kv ! nat seq_id) }"

definition kv_free_pages :: "nat list \<Rightarrow> kv_cache \<Rightarrow> kv_cache option" where
  "kv_free_pages strms kv =
     (if pg_enabled (kv_pool kv) then do {
        let kv_sz = cells_size (kv_cells kv ! 0);
        pool \<leftarrow> mfold (\<lambda>s. free_pages kv_sz (kv_cells kv ! s) s) strms (kv_pool kv);
        Some (kv\<lparr>kv_pool := pool\<rparr>) }
      else Some kv)"

definition kv_seq_rm :: "int \<Rightarrow> int \<Rightarrow> int \<Rightarrow> kv_cache \<Rightarrow> (bool \<times> kv_cache) option" where
  "kv_seq_rm seq_id p0 p1 kv = do {
     require (seq_id = - 1 \<or> seq_id \<ge> 0 \<and> seq_id < int (length (kv_seq_to_stream kv)));
     let lo = pos_lo p0;
     let hi = pos_hi p1;
     if seq_id \<ge> 0 then do {
       strm \<leftarrow> kv_stream kv seq_id;
       kv1 \<leftarrow> sweep_stream (rm_seq_body lo hi (nat seq_id)) lower_head strm kv;
       kv2 \<leftarrow> kv_free_pages [strm] kv1;
       Some (True, kv2) }
     else do {
       kv1 \<leftarrow> mfold (sweep_stream (rm_any_body lo hi) lower_head) [0..<kv_n_stream kv] kv;
       kv2 \<leftarrow> kv_free_pages [0..<kv_n_stream kv] kv1;
       Some (True, kv2) } }"

definition get_size :: "kv_cache \<Rightarrow> nat" where
  "get_size kv = cells_size (kv_cells kv ! (kv_seq_to_stream kv ! 0))"

text \<open>The copy of one cell to another stream: the position is set without the pending shift, and the
  shift is applied again afterwards so that it is recorded as pending there too.\<close>

definition copy_cell :: "nat \<Rightarrow> nat \<Rightarrow> llama_kv_cells \<Rightarrow> nat \<Rightarrow> llama_kv_cells \<Rightarrow> llama_kv_cells option" where
  "copy_cell src dst c0 i c1 = do {
     has \<leftarrow> cells_seq_has i src c0;
     if \<not> has then Some c1
     else do {
       pos \<leftarrow> cells_pos_get i c0;
       shift \<leftarrow> cells_get_shift i c0;
       ext \<leftarrow> cells_ext_get i c0;
       pos0 \<leftarrow> (if shift \<noteq> 0 then do { p \<leftarrow> i32 (pos - shift); require (p \<ge> 0); Some p } else Some pos);
       c2 \<leftarrow> cells_pos_set i pos0 c1;
       c3 \<leftarrow> cells_seq_add i dst c2;
       c4 \<leftarrow> (if shift \<noteq> 0 then map_option snd (cells_pos_add i shift c3) else Some c3);
       cells_ext_set i ext c4 } }"

definition kv_seq_cp :: "int \<Rightarrow> int \<Rightarrow> int \<Rightarrow> int \<Rightarrow> kv_cache \<Rightarrow> kv_cache option" where
  "kv_seq_cp src dst p0 p1 kv = do {
     s0 \<leftarrow> kv_stream kv src;
     s1 \<leftarrow> kv_stream kv dst;
     if s0 = s1 then
       (if src = dst then Some kv
        else sweep_stream (cp_body (pos_lo p0) (pos_hi p1) (nat src) (nat dst)) same_head s0 kv)
     else do {
       require (s0 < length (kv_cells kv) \<and> s1 < length (kv_cells kv));
       require (p0 > 0 \<longrightarrow> in_i32 (p0 + 1) \<and> \<not> p0 + 1 < int (get_size kv));
       require (p1 > 0 \<longrightarrow> in_i32 (p1 + 1) \<and> \<not> p1 + 1 < int (get_size kv));
       c1 \<leftarrow> mfold (copy_cell (nat src) (nat dst) (kv_cells kv ! s0)) [0..<cells_size (kv_cells kv ! s0)]
               (cells_reset (kv_cells kv ! s1));
       Some (kv\<lparr>kv_sc_info := \<lparr>sc_ssrc = sc_ssrc (kv_sc_info kv) @ [s0], sc_sdst = sc_sdst (kv_sc_info kv) @ [s1]\<rparr>,
                kv_cells := (kv_cells kv)[s1 := c1],
                kv_heads := (kv_heads kv)[s1 := kv_heads kv ! s0]\<rparr>) } }"

definition kv_seq_keep :: "int \<Rightarrow> kv_cache \<Rightarrow> kv_cache option" where
  "kv_seq_keep seq_id kv = do {
     strm \<leftarrow> kv_stream kv seq_id;
     sweep_stream (keep_body (nat seq_id)) lower_head strm kv }"

definition kv_seq_add :: "int \<Rightarrow> int \<Rightarrow> int \<Rightarrow> int \<Rightarrow> kv_cache \<Rightarrow> kv_cache option" where
  "kv_seq_add seq_id p0 p1 shift kv = do {
     strm \<leftarrow> kv_stream kv seq_id;
     require (kv_n_pos_per_embd kv = 1);
     if shift = 0 then Some kv
     else if pos_lo p0 = pos_hi p1 then Some kv
     else sweep_stream (add_body (pos_lo p0) (pos_hi p1) (nat seq_id) shift) reset_head strm kv }"

definition kv_seq_div :: "int \<Rightarrow> int \<Rightarrow> int \<Rightarrow> int \<Rightarrow> kv_cache \<Rightarrow> kv_cache option" where
  "kv_seq_div seq_id p0 p1 d kv = do {
     strm \<leftarrow> kv_stream kv seq_id;
     require (kv_n_pos_per_embd kv = 1);
     if d = 1 then Some kv
     else if pos_lo p0 = pos_hi p1 then Some kv
     else sweep_stream (div_body (pos_lo p0) (pos_hi p1) (nat seq_id) d) same_head strm kv }"

definition kv_seq_pos_min :: "int \<Rightarrow> kv_cache \<Rightarrow> int option" where
  "kv_seq_pos_min seq_id kv = do { strm \<leftarrow> kv_stream kv seq_id; cells_seq_pos_min (nat seq_id) (kv_cells kv ! strm) }"

definition kv_seq_pos_max :: "int \<Rightarrow> kv_cache \<Rightarrow> int option" where
  "kv_seq_pos_max seq_id kv = do { strm \<leftarrow> kv_stream kv seq_id; cells_seq_pos_max (nat seq_id) (kv_cells kv ! strm) }"

definition get_can_shift :: "kv_cache \<Rightarrow> bool" where
  "get_can_shift kv = (if kv_arch_step35 kv then False else if kv_n_pos_per_embd kv > 1 then False else True)"

definition get_has_shift :: "kv_cache \<Rightarrow> bool" where
  "get_has_shift kv = fold (\<lambda>s r. r \<or> cells_get_has_shift (kv_cells kv ! s)) [0..<kv_n_stream kv] False"

text \<open>Pending stream copies and shifts. Whether the graph that rotates K can be allocated and computed
  is decided outside: \<open>computed\<close>.\<close>

definition copy_stream :: "nat \<times> nat \<Rightarrow> kv_cache \<Rightarrow> kv_cache option" where
  "copy_stream = (\<lambda>(ssrc, sdst) kv. do {
     require (ssrc < kv_n_stream kv \<and> sdst < kv_n_stream kv \<and> ssrc \<noteq> sdst);
     Some (kv\<lparr>kv_log := kv_log kv @ [Copy_Stream ssrc sdst]\<rparr>) })"

definition kv_copy_streams :: "stream_copy_info \<Rightarrow> kv_cache \<Rightarrow> kv_cache option" where
  "kv_copy_streams sc kv = do {
     none \<leftarrow> sc_empty sc;
     if none then Some kv
     else do { require (kv_n_stream kv > 1); mfold copy_stream (zip (sc_ssrc sc) (sc_sdst sc)) kv } }"

definition kv_apply_shift :: "bool \<Rightarrow> kv_cache \<Rightarrow> (bool \<times> kv_cache) option" where
  "kv_apply_shift computed kv = do {
     require (get_can_shift kv);
     if \<not> kv_rope_none kv \<and> \<not> computed then Some (False, kv)
     else Some (\<not> kv_rope_none kv,
       kv\<lparr>kv_log := kv_log kv @ (if kv_rope_none kv then [] else [K_Shift]),
          kv_cells := map cells_reset_shift (kv_cells kv)\<rparr>) }"

definition kv_update :: "bool \<Rightarrow> bool \<Rightarrow> stream_copy_info \<Rightarrow> kv_cache \<Rightarrow> (bool \<times> kv_cache) option" where
  "kv_update computed do_shift sc kv = do {
     kv1 \<leftarrow> kv_copy_streams sc kv;
     if do_shift then kv_apply_shift computed kv1 else Some (False, kv1) }"

section \<open>Invariant\<close>

text \<open>Every used cell belongs to a sequence.\<close>

definition cells_live :: "llama_kv_cells \<Rightarrow> bool" where
  "cells_live c \<longleftrightarrow> (\<forall>x. Some x \<in> set (cells_view c) \<longrightarrow> cell_seqs x \<noteq> {})"

lemma cells_liveD: "cells_live c \<Longrightarrow> i < cells_size c \<Longrightarrow> cell_view c i = Some x \<Longrightarrow> cell_seqs x \<noteq> {}"
  unfolding cells_live_def by (metis in_set_conv_nth length_cells_view nth_cells_view)

definition kv_cache_inv :: "nat \<Rightarrow> kv_cache \<Rightarrow> bool" where
  "kv_cache_inv kv_size kv \<longleftrightarrow>
     0 < kv_n_stream kv \<and> kv_n_stream kv \<le> LLAMA_MAX_SEQ \<and>
     length (kv_cells kv) = kv_n_stream kv \<and> length (kv_heads kv) = kv_n_stream kv \<and>
     length (kv_seq_to_stream kv) = LLAMA_MAX_SEQ \<and> (\<forall>s \<in> set (kv_seq_to_stream kv). s < kv_n_stream kv) \<and>
     (\<forall>c \<in> set (kv_cells kv). kv_cells_inv c \<and> cells_live c \<and> cells_size c = kv_size) \<and>
     (\<forall>h \<in> set (kv_heads kv). h \<le> kv_size) \<and>
     pool_inv (kv_n_stream kv) kv_size (kv_pool kv)"

lemma kv_inv_cells:
  assumes "kv_cache_inv kv_size kv" "s < kv_n_stream kv"
  shows "kv_cells_inv (kv_cells kv ! s)" "cells_live (kv_cells kv ! s)" "cells_size (kv_cells kv ! s) = kv_size"
    "s < length (kv_cells kv)" "s < length (kv_heads kv)" "kv_heads kv ! s \<le> kv_size"
  using assms by (auto simp: kv_cache_inv_def)

lemma kv_inv_stream:
  assumes "kv_cache_inv kv_size kv" "0 \<le> q" "q < int LLAMA_MAX_SEQ"
  obtains s where "kv_stream kv q = Some s" "s < kv_n_stream kv" "nat q < LLAMA_MAX_SEQ"
    "s = kv_seq_to_stream kv ! nat q"
proof -
  have "nat q < length (kv_seq_to_stream kv)"
    using assms by (auto simp: kv_cache_inv_def)
  then show thesis
    using assms by (intro that [of "kv_seq_to_stream kv ! nat q"]) (auto simp: kv_stream_def kv_cache_inv_def)
qed

section \<open>The contract of a loop body\<close>

text \<open>A body applied to cell \<open>i\<close> changes the view of that cell by a function \<open>f\<close> and nothing else, provided
  the view satisfies \<open>pre\<close>; it may report \<open>True\<close> only for a cell it emptied.\<close>

definition first_upto :: "('a \<Rightarrow> bool) \<Rightarrow> 'a list \<Rightarrow> nat \<Rightarrow> nat" where
  "first_upto P xs k = (let t = length (takeWhile (\<lambda>v. \<not> P v) (take k xs)) in if t < k then t else length xs)"

lemma first_upto_step:
  assumes "i < length xs"
  shows "first_upto P xs (Suc i) = (if P (xs ! i) \<and> first_upto P xs i = length xs then i else first_upto P xs i)"
proof -
  let ?t = "\<lambda>k. length (takeWhile (\<lambda>v. \<not> P v) (take k xs))"
  have take: "take (Suc i) xs = take i xs @ [xs ! i]" "length (take i xs) = i"
    using assms by (simp_all add: take_Suc_conv_app_nth)
  show ?thesis
  proof (cases "\<forall>v \<in> set (take i xs). \<not> P v")
    case True
    then have "?t i = i" "?t (Suc i) = (if P (xs ! i) then i else Suc i)"
      using take by (simp_all add: takeWhile_append takeWhile_eq_all_conv [THEN iffD2])
    then show ?thesis
      by (simp add: first_upto_def)
  next
    case False
    then have "?t (Suc i) = ?t i"
      unfolding take by (auto simp: takeWhile_append)
    moreover have "?t i < i"
    proof (rule ccontr)
      assume "\<not> ?t i < i"
      then have "takeWhile (\<lambda>v. \<not> P v) (take i xs) = take i xs"
        using take(2) by (metis linorder_not_less takeWhile_eq_take take_all)
      then show False
        using False by (simp add: takeWhile_eq_all_conv)
    qed
    ultimately show ?thesis
      using assms by (simp add: first_upto_def)
  qed
qed

locale cell_body =
  fixes body :: "nat \<Rightarrow> llama_kv_cells \<Rightarrow> (bool \<times> llama_kv_cells) option"
    and pre :: "kv_cell option \<Rightarrow> bool"
    and f :: "kv_cell option \<Rightarrow> kv_cell option"
    and freed :: "kv_cell option \<Rightarrow> bool"
  assumes body_ok: "kv_cells_inv c \<Longrightarrow> i < cells_size c \<Longrightarrow> pre (cell_view c i) \<Longrightarrow>
      \<exists>c'. body i c = Some (freed (cell_view c i), c') \<and> kv_cells_inv c' \<and>
        cells_view c' = (cells_view c)[i := f (cell_view c i)]"
    and freed_empty: "freed v \<Longrightarrow> f v = None"
    and f_live: "pre v \<Longrightarrow> f v = Some x \<Longrightarrow> (\<forall>y. v = Some y \<longrightarrow> cell_seqs y \<noteq> {}) \<Longrightarrow> cell_seqs x \<noteq> {}"
begin

text \<open>The whole loop maps \<open>f\<close> over the view, and the new head is the first freed cell.\<close>

lemma sweep_ok:
  assumes "kv_cells_inv c" "\<And>v. v \<in> set (cells_view c) \<Longrightarrow> pre v"
  obtains c' where "sweep body c = Some (length (takeWhile (\<lambda>v. \<not> freed v) (cells_view c)), c')"
    "kv_cells_inv c'" "cells_view c' = map f (cells_view c)" "cells_size c' = cells_size c"
proof -
  let ?vs = "cells_view c"
  let ?n = "cells_size c"
  let ?I = "\<lambda>done (h, c1). kv_cells_inv c1 \<and> cells_view c1 = map f (take (length done) ?vs) @ drop (length done) ?vs \<and>
    h = first_upto freed ?vs (length done)"
  let ?F = "\<lambda>i (new_head, c). do { r \<leftarrow> body i c;
    Some (if fst r \<and> new_head = cells_size (snd r) then i else new_head, snd r) }"
  have "\<exists>s'. mfold ?F [0..<?n] (?n, c) = Some s' \<and> ?I [0..<?n] s'"
  proof (rule mfold_invariant)
    show "?I [] (?n, c)"
      using assms(1) by (simp add: first_upto_def)
  next
    fix done' i rest s
    assume split: "[0..<?n] = done' @ i # rest" and I: "?I done' s"
    obtain h c1 where s: "s = (h, c1)" by fastforce
    have i: "length done' = i" "i < ?n"
      using upt_splitD [OF split] by simp_all
    have c1: "kv_cells_inv c1" "cells_view c1 = map f (take i ?vs) @ drop i ?vs" "h = first_upto freed ?vs i"
      using I s i by auto
    have n: "cells_size c1 = ?n"
      using arg_cong [OF c1(2), of length] i by simp
    have v: "cell_view c1 i = ?vs ! i"
      using arg_cong [OF c1(2), of "\<lambda>xs. xs ! i"] i n by (simp add: nth_append)
    have "pre (cell_view c1 i)"
      unfolding v using i by (intro assms(2) nth_mem) simp
    then obtain c2 where c2: "body i c1 = Some (freed (?vs ! i), c2)" "kv_cells_inv c2"
      "cells_view c2 = (cells_view c1)[i := f (?vs ! i)]"
      using body_ok [OF c1(1), of i] i n v by auto
    have n2: "cells_size c2 = ?n"
      using arg_cong [OF c2(3), of length] n by simp
    have "drop i ?vs = ?vs ! i # drop (Suc i) ?vs"
      using i Cons_nth_drop_Suc [of i ?vs] by simp
    then have view: "cells_view c2 = map f (take (Suc i) ?vs) @ drop (Suc i) ?vs"
      unfolding c2(3) c1(2) using i by (simp add: take_Suc_conv_app_nth list_update_append)
    have head: "(if freed (?vs ! i) \<and> h = ?n then i else h) = first_upto freed ?vs (Suc i)"
      using first_upto_step [of i ?vs freed] i c1(3) by simp
    show "\<exists>s'. ?F i s = Some s' \<and> ?I (done' @ [i]) s'"
      using c2(1,2) view head n2 i(1) s by auto
  qed
  then obtain h c' where r: "sweep body c = Some (h, c')" "?I [0..<?n] (h, c')"
    unfolding sweep_def by auto
  have "h = length (takeWhile (\<lambda>v. \<not> freed v) ?vs)"
    using r(2) length_takeWhile_le [of "\<lambda>v. \<not> freed v" ?vs] by (auto simp: first_upto_def Let_def split: if_splits)
  moreover have "cells_view c' = map f ?vs"
    using r(2) by simp
  moreover from this have "cells_size c' = ?n"
    by (metis length_cells_view length_map)
  ultimately show thesis
    using r by (intro that [of c']) auto
qed

end

section \<open>The bodies satisfy it\<close>

definition cell_match :: "int \<Rightarrow> int \<Rightarrow> nat \<Rightarrow> kv_cell \<Rightarrow> bool" where
  "cell_match p0 p1 s x \<longleftrightarrow> p0 \<le> cell_pos x \<and> cell_pos x < p1 \<and> s \<in> cell_seqs x"

definition upd_match :: "(kv_cell \<Rightarrow> bool) \<Rightarrow> (kv_cell \<Rightarrow> kv_cell option) \<Rightarrow> kv_cell option \<Rightarrow> kv_cell option" where
  "upd_match m g v = (case v of None \<Rightarrow> None | Some x \<Rightarrow> if m x then g x else Some x)"

definition freed_match :: "(kv_cell \<Rightarrow> bool) \<Rightarrow> (kv_cell \<Rightarrow> kv_cell option) \<Rightarrow> kv_cell option \<Rightarrow> bool" where
  "freed_match m g v = (case v of None \<Rightarrow> False | Some x \<Rightarrow> m x \<and> g x = None)"

lemma upd_match_simps [simp]:
  "upd_match m g None = None" "upd_match m g (Some x) = (if m x then g x else Some x)"
  "freed_match m g None = False" "freed_match m g (Some x) = (m x \<and> g x = None)"
  by (simp_all add: upd_match_def freed_match_def)

lemma freed_match_upd: "freed_match m g v \<Longrightarrow> upd_match m g v = None"
  by (cases v) auto

lemma view_same [simp]: "i < cells_size c \<Longrightarrow> cell_view c i = v \<Longrightarrow> (cells_view c)[i := v] = cells_view c"
  by (metis list_update_id nth_cells_view)

lemma view_updated:
  assumes "cells_view c' = (cells_view c)[i := v]" "i < cells_size c"
  shows "cells_size c' = cells_size c" "cell_view c' i = v"
proof -
  show n: "cells_size c' = cells_size c"
    using arg_cong [OF assms(1), of length] by simp
  show "cell_view c' i = v"
    using arg_cong [OF assms(1), of "\<lambda>vs. vs ! i"] assms(2) n by simp
qed

lemma on_match_ok:
  assumes inv: "kv_cells_inv c" "i < cells_size c" and args: "0 \<le> p0" "s < LLAMA_MAX_SEQ"
    and act: "\<And>x. cell_view c i = Some x \<Longrightarrow> cell_match p0 p1 s x \<Longrightarrow>
      \<exists>c'. act i c = Some (g x = None, c') \<and> kv_cells_inv c' \<and> cells_view c' = (cells_view c)[i := g x]"
  shows "\<exists>c'. on_match p0 p1 s act i c = Some (freed_match (cell_match p0 p1 s) g (cell_view c i), c') \<and>
    kv_cells_inv c' \<and> cells_view c' = (cells_view c)[i := upd_match (cell_match p0 p1 s) g (cell_view c i)]"
proof (cases "cell_view c i")
  case None
  then show ?thesis
    using inv args by (simp add: on_match_def cells_pos_in_view)
next
  case (Some x)
  show ?thesis
  proof (cases "cell_match p0 p1 s x")
    case True
    then show ?thesis
      using act [OF Some True] inv args Some
      by (simp add: on_match_def cells_pos_in_view cells_seq_has_view cell_match_def)
  next
    case False
    then have "on_match p0 p1 s act i c = Some (False, c)"
      using inv args Some by (auto simp: on_match_def cells_pos_in_view cells_seq_has_view cell_match_def)
    then show ?thesis
      using False inv Some by simp
  qed
qed

interpretation rm_seq: cell_body "rm_seq_body p0 p1 s" "\<lambda>_. 0 \<le> p0 \<and> s < LLAMA_MAX_SEQ"
  "upd_match (cell_match p0 p1 s) (spec_seq_rm s)" "freed_match (cell_match p0 p1 s) (spec_seq_rm s)" for p0 p1 s
proof (unfold_locales, goal_cases)
  case (1 c i)
  have "\<exists>c'. cells_seq_rm i s c = Some (spec_seq_rm s x = None, c') \<and> kv_cells_inv c' \<and>
      cells_view c' = (cells_view c)[i := spec_seq_rm s x]"
    if "cell_view c i = Some x" "cell_match p0 p1 s x" for x
    by (rule cells_seq_rm_spec [OF 1(1,2) that(1), of s]) (use that(2) in \<open>auto simp: cell_match_def\<close>)
  then show ?case
    unfolding rm_seq_body_def using 1 by (intro on_match_ok) auto
next
  case (3 v x)
  then show ?case
    by (cases v) (auto simp: spec_seq_rm_def split: if_splits)
qed (simp add: freed_match_upd)

interpretation rm_any: cell_body "rm_any_body p0 p1" "\<lambda>_. 0 \<le> p0"
  "upd_match (\<lambda>x. p0 \<le> cell_pos x \<and> cell_pos x < p1) (\<lambda>_. None)"
  "freed_match (\<lambda>x. p0 \<le> cell_pos x \<and> cell_pos x < p1) (\<lambda>_. None)" for p0 p1
proof (unfold_locales, goal_cases)
  case (1 c i)
  show ?case
  proof (cases "cell_view c i")
    case None
    then show ?thesis
      using 1 by (simp add: rm_any_body_def cells_pos_in_view)
  next
    case (Some x)
    then have pos: "kc_pos c ! i \<noteq> - 1"
      by (auto simp: cell_view_def split: if_splits)
    obtain c' where c': "cells_rm i c = Some c'" "kv_cells_inv c'" "cells_view c' = (cells_view c)[i := None]"
      by (rule cells_rm_spec [OF 1(1,2) pos])
    show ?thesis
      using 1 Some c' by (cases "p0 \<le> cell_pos x \<and> cell_pos x < p1") (auto simp: rm_any_body_def cells_pos_in_view)
  qed
next
  case (3 v x)
  then show ?case
    by (cases v) (auto split: if_splits)
qed (simp add: freed_match_upd)

definition cp_pre :: "int \<Rightarrow> int \<Rightarrow> nat \<Rightarrow> nat \<Rightarrow> kv_cell option \<Rightarrow> bool" where
  "cp_pre p0 p1 src dst v \<longleftrightarrow> 0 \<le> p0 \<and> src < LLAMA_MAX_SEQ \<and> dst < LLAMA_MAX_SEQ \<and>
     opt_all (\<lambda>x. cell_match p0 p1 src x \<longrightarrow> dst \<notin> cell_seqs x) v"

definition spec_seq_cp :: "nat \<Rightarrow> kv_cell \<Rightarrow> kv_cell option" where
  "spec_seq_cp dst x = Some (Cell (cell_pos x) (insert dst (cell_seqs x)) (cell_shift x))"

interpretation cp: cell_body "cp_body p0 p1 src dst" "cp_pre p0 p1 src dst"
  "upd_match (cell_match p0 p1 src) (spec_seq_cp dst)" "freed_match (cell_match p0 p1 src) (spec_seq_cp dst)"
  for p0 p1 src dst
proof (unfold_locales, goal_cases)
  case (1 c i)
  have "\<exists>c'. do { c' \<leftarrow> cells_seq_add i dst c; Some (False, c') } = Some (spec_seq_cp dst x = None, c') \<and> kv_cells_inv c' \<and>
      cells_view c' = (cells_view c)[i := spec_seq_cp dst x]"
    if "cell_view c i = Some x" "cell_match p0 p1 src x" for x
    by (rule cells_seq_add_spec [OF 1(1,2) _ that(1), of dst])
      (use 1 that in \<open>auto simp: cp_pre_def spec_seq_cp_def\<close>)
  then show ?case
    unfolding cp_body_def using 1 by (intro on_match_ok) (auto simp: cp_pre_def)
next
  case (3 v x)
  then show ?case
    by (cases v) (auto simp: spec_seq_cp_def split: if_splits)
qed (simp add: freed_match_upd)

interpretation keep: cell_body "keep_body s" "\<lambda>v. s < LLAMA_MAX_SEQ \<and> opt_all (\<lambda>x. cell_seqs x \<noteq> {}) v"
  "upd_match (\<lambda>_. True) (spec_seq_keep s)" "freed_match (\<lambda>_. True) (spec_seq_keep s)" for s
proof (unfold_locales, goal_cases)
  case (1 c i)
  show ?case
  proof (cases "cell_view c i")
    case None
    then show ?thesis
      using 1 by (simp add: keep_body_def cells_seq_keep_empty)
  next
    case (Some x)
    show ?thesis
      by (rule cells_seq_keep_spec [OF 1(1,2) _ Some, of s]) (use 1 Some in \<open>auto simp: keep_body_def\<close>)
  qed
next
  case (3 v x)
  then show ?case
    by (cases v) (auto simp: spec_seq_keep_def split: if_splits)
qed (simp add: freed_match_upd)

definition add_pre :: "int \<Rightarrow> int \<Rightarrow> nat \<Rightarrow> int \<Rightarrow> kv_cell option \<Rightarrow> bool" where
  "add_pre p0 p1 s d v \<longleftrightarrow> 0 \<le> p0 \<and> s < LLAMA_MAX_SEQ \<and>
     opt_all (\<lambda>x. cell_match p0 p1 s x \<longrightarrow> in_i32 (cell_pos x + d) \<and> in_i32 (cell_shift x + d)) v"

interpretation add: cell_body "add_body p0 p1 s d" "add_pre p0 p1 s d"
  "upd_match (cell_match p0 p1 s) (spec_pos_add d)" "freed_match (cell_match p0 p1 s) (spec_pos_add d)" for p0 p1 s d
proof (unfold_locales, goal_cases)
  case (1 c i)
  have "\<exists>c'. cells_pos_add i d c = Some (spec_pos_add d x = None, c') \<and> kv_cells_inv c' \<and>
      cells_view c' = (cells_view c)[i := spec_pos_add d x]"
    if "cell_view c i = Some x" "cell_match p0 p1 s x" for x
    by (rule cells_pos_add_spec [OF 1(1,2) that(1), of d]) (use 1 that in \<open>auto simp: add_pre_def\<close>)
  then show ?case
    unfolding add_body_def using 1 by (intro on_match_ok) (auto simp: add_pre_def)
next
  case (3 v x)
  then show ?case
    by (cases v) (auto simp: spec_pos_add_def split: if_splits)
qed (simp add: freed_match_upd)

definition div_pre :: "int \<Rightarrow> int \<Rightarrow> nat \<Rightarrow> int \<Rightarrow> kv_cell option \<Rightarrow> bool" where
  "div_pre p0 p1 s d v \<longleftrightarrow> 0 \<le> p0 \<and> s < LLAMA_MAX_SEQ \<and> 0 < d \<and>
     opt_all (\<lambda>x. cell_match p0 p1 s x \<longrightarrow> in_i32 (cell_shift x + (cell_pos x - cell_pos x sdiv d))) v"

interpretation dv: cell_body "div_body p0 p1 s d" "div_pre p0 p1 s d"
  "upd_match (cell_match p0 p1 s) (spec_pos_div d)" "freed_match (cell_match p0 p1 s) (spec_pos_div d)" for p0 p1 s d
proof (unfold_locales, goal_cases)
  case (1 c i)
  have "\<exists>c'. do { c' \<leftarrow> cells_pos_div i d c; Some (False, c') } = Some (spec_pos_div d x = None, c') \<and> kv_cells_inv c' \<and>
      cells_view c' = (cells_view c)[i := spec_pos_div d x]"
    if "cell_view c i = Some x" "cell_match p0 p1 s x" for x
    by (rule cells_pos_div_spec [OF 1(1,2) that(1), of d])
      (use 1 that in \<open>auto simp: div_pre_def spec_pos_div_def Let_def\<close>)
  then show ?case
    unfolding div_body_def using 1 by (intro on_match_ok) (auto simp: div_pre_def)
next
  case (3 v x)
  then show ?case
    by (cases v) (auto simp: spec_pos_div_def Let_def split: if_splits)
qed (simp add: freed_match_upd)

section \<open>The operations keep the invariant\<close>

lemma kv_inv_store:
  assumes "kv_cache_inv n kv" "kv_cells_inv c" "cells_live c" "cells_size c = n" "h \<le> n"
  shows "kv_cache_inv n (kv\<lparr>kv_cells := (kv_cells kv)[s := c], kv_heads := (kv_heads kv)[s := h]\<rparr>)"
  using assms set_update_subset_insert [of "kv_cells kv" s c] set_update_subset_insert [of "kv_heads kv" s h]
  by (auto simp: kv_cache_inv_def)

context cell_body
begin

lemma sweep_stream_ok:
  assumes inv: "kv_cache_inv n kv" and s: "s < kv_n_stream kv"
    and pre: "\<And>v. v \<in> set (cells_view (kv_cells kv ! s)) \<Longrightarrow> pre v"
    and hd: "\<And>t h. t \<le> n \<Longrightarrow> h \<le> n \<Longrightarrow> new_head_of t n h \<le> n"
  obtains c' h' where "sweep_stream body new_head_of s kv =
      Some (kv\<lparr>kv_cells := (kv_cells kv)[s := c'], kv_heads := (kv_heads kv)[s := h']\<rparr>)"
    "kv_cache_inv n (kv\<lparr>kv_cells := (kv_cells kv)[s := c'], kv_heads := (kv_heads kv)[s := h']\<rparr>)"
    "cells_view c' = map f (cells_view (kv_cells kv ! s))"
    "h' = new_head_of (length (takeWhile (\<lambda>v. \<not> freed v) (cells_view (kv_cells kv ! s)))) n (kv_heads kv ! s)"
proof -
  note c = kv_inv_cells [OF inv s]
  obtain c' where c': "sweep body (kv_cells kv ! s) =
      Some (length (takeWhile (\<lambda>v. \<not> freed v) (cells_view (kv_cells kv ! s))), c')"
    "kv_cells_inv c'" "cells_view c' = map f (cells_view (kv_cells kv ! s))" "cells_size c' = n"
    using sweep_ok [OF c(1) pre] c(3) by metis
  let ?t = "length (takeWhile (\<lambda>v. \<not> freed v) (cells_view (kv_cells kv ! s)))"
  have "?t \<le> n"
    using length_takeWhile_le [of _ "cells_view (kv_cells kv ! s)"] c(3) by (metis length_cells_view)
  then have h: "new_head_of ?t n (kv_heads kv ! s) \<le> n"
    using hd c(6) by simp
  have "cells_live c'"
    unfolding cells_live_def c'(3)
  proof (intro allI impI)
    fix x
    assume "Some x \<in> set (map f (cells_view (kv_cells kv ! s)))"
    then obtain v where v: "v \<in> set (cells_view (kv_cells kv ! s))" "f v = Some x"
      by (metis imageE set_map)
    then show "cell_seqs x \<noteq> {}"
      using f_live [OF pre [OF v(1)] v(2)] c(2) by (auto simp: cells_live_def)
  qed
  then show thesis
    using c' c h kv_inv_store [OF inv c'(2) _ c'(4) h, of s]
    by (intro that [where c' = c' and h' = "new_head_of ?t n (kv_heads kv ! s)"]) (simp_all add: sweep_stream_def)
qed

end

text \<open>Releasing pages.\<close>

lemma kv_free_pages_ok:
  assumes inv: "kv_cache_inv n kv" and s: "\<And>s. s \<in> set strms \<Longrightarrow> s < kv_n_stream kv"
  obtains pool where "kv_free_pages strms kv = Some (kv\<lparr>kv_pool := pool\<rparr>)" "kv_cache_inv n (kv\<lparr>kv_pool := pool\<rparr>)"
    "pg_enabled pool = pg_enabled (kv_pool kv)" "pg_block_size pool = pg_block_size (kv_pool kv)"
    "\<And>s i. pg_enabled pool \<Longrightarrow> i < n \<Longrightarrow> cell_mapped pool s i \<longleftrightarrow> cell_mapped (kv_pool kv) s i \<and>
       \<not> (s \<in> set strms \<and> page_empty (kv_cells kv ! s) (pg_block_size pool) (i div pg_block_size pool))"
proof (cases "pg_enabled (kv_pool kv)")
  case True
  let ?bs = "pg_block_size (kv_pool kv)"
  have n0: "cells_size (kv_cells kv ! 0) = n"
    using kv_inv_cells(3) [OF inv, of 0] inv by (simp add: kv_cache_inv_def)
  let ?I = "\<lambda>done p. pool_inv (kv_n_stream kv) n p \<and> pg_enabled p \<and> pg_block_size p = ?bs \<and>
    (\<forall>s i. i < n \<longrightarrow> (cell_mapped p s i \<longleftrightarrow> cell_mapped (kv_pool kv) s i \<and>
       \<not> (s \<in> set done \<and> page_empty (kv_cells kv ! s) ?bs (i div ?bs))))"
  have "\<exists>p. mfold (\<lambda>s. free_pages n (kv_cells kv ! s) s) strms (kv_pool kv) = Some p \<and> ?I strms p"
  proof (rule mfold_invariant)
    fix done' x rest p
    assume split: "strms = done' @ x # rest" and I: "?I done' p"
    have x: "x < kv_n_stream kv"
      using s split by simp
    have I': "pool_inv (kv_n_stream kv) n p" "pg_enabled p" "pg_block_size p = ?bs"
      using I by blast+
    obtain p' where p': "free_pages n (kv_cells kv ! x) x p = Some p'" "pool_inv (kv_n_stream kv) n p'"
      "pg_enabled p'" "pg_block_size p' = pg_block_size p"
      "\<forall>s i. i < n \<longrightarrow> (cell_mapped p' s i \<longleftrightarrow>
         cell_mapped p s i \<and> \<not> (s = x \<and> page_empty (kv_cells kv ! x) (pg_block_size p) (i div pg_block_size p)))"
      by (rule free_pages_spec [OF I'(1,2) x kv_inv_cells(1,3) [OF inv x]]) auto
    have "cell_mapped p' s i \<longleftrightarrow> cell_mapped (kv_pool kv) s i \<and>
       \<not> (s \<in> set (done' @ [x]) \<and> page_empty (kv_cells kv ! s) ?bs (i div ?bs))" if "i < n" for s i
      using p'(5) I that unfolding I'(3) by auto
    then show "\<exists>s'. free_pages n (kv_cells kv ! x) x p = Some s' \<and> ?I (done' @ [x]) s'"
      using p'(1-4) I'(3) by auto
  qed (use inv True in \<open>auto simp: kv_cache_inv_def\<close>)
  then obtain p where p: "mfold (\<lambda>s. free_pages n (kv_cells kv ! s) s) strms (kv_pool kv) = Some p" "?I strms p"
    by blast
  then show thesis
    using True n0 inv by (intro that [of p]) (auto simp: kv_free_pages_def kv_cache_inv_def)
next
  case False
  then show thesis
    using inv by (intro that [of "kv_pool kv"]) (auto simp: kv_free_pages_def)
qed

lemma head_bounds:
  "t \<le> n \<Longrightarrow> h \<le> n \<Longrightarrow> lower_head t n h \<le> n" "t \<le> n \<Longrightarrow> h \<le> n \<Longrightarrow> reset_head t n h \<le> n"
  "t \<le> n \<Longrightarrow> h \<le> n \<Longrightarrow> same_head t n h \<le> n"
  by (simp_all add: lower_head_def reset_head_def same_head_def)

lemma pos_lo_nonneg [simp]: "0 \<le> pos_lo p"
  by (simp add: pos_lo_def)

text \<open>The streams of the cache as views.\<close>

definition kv_views :: "kv_cache \<Rightarrow> kv_cell option list list" where
  "kv_views kv = map cells_view (kv_cells kv)"

lemma kv_views_simps [simp]:
  "length (kv_views kv) = length (kv_cells kv)"
  "kv_views (kv\<lparr>kv_pool := p\<rparr>) = kv_views kv"
  "kv_views (kv\<lparr>kv_cells := (kv_cells kv)[s := c], kv_heads := hs\<rparr>) = (kv_views kv)[s := cells_view c]"
  "s < length (kv_cells kv) \<Longrightarrow> kv_views kv ! s = cells_view (kv_cells kv ! s)"
  by (simp_all add: kv_views_def map_update)

lemma kv_seq_rm_one:
  assumes "kv_cache_inv n kv" "0 \<le> q" "q < int LLAMA_MAX_SEQ"
  obtains s kv' where "kv_seq_rm q p0 p1 kv = Some (True, kv')" "kv_cache_inv n kv'" "s = kv_seq_to_stream kv ! nat q"
    "s < kv_n_stream kv"
    "kv_views kv' = (kv_views kv)[s := map (upd_match (cell_match (pos_lo p0) (pos_hi p1) (nat q)) (spec_seq_rm (nat q))) (kv_views kv ! s)]"
    "kv_seq_to_stream kv' = kv_seq_to_stream kv" "kv_n_stream kv' = kv_n_stream kv"
    "kv_n_swa kv' = kv_n_swa kv" "kv_swa_type kv' = kv_swa_type kv" "kv_n_pos_per_embd kv' = kv_n_pos_per_embd kv"
proof -
  obtain s where s: "kv_stream kv q = Some s" "s < kv_n_stream kv" "nat q < LLAMA_MAX_SEQ" "s = kv_seq_to_stream kv ! nat q"
    using kv_inv_stream [OF assms] .
  obtain c h where sw: "sweep_stream (rm_seq_body (pos_lo p0) (pos_hi p1) (nat q)) lower_head s kv =
      Some (kv\<lparr>kv_cells := (kv_cells kv)[s := c], kv_heads := (kv_heads kv)[s := h]\<rparr>)"
    "kv_cache_inv n (kv\<lparr>kv_cells := (kv_cells kv)[s := c], kv_heads := (kv_heads kv)[s := h]\<rparr>)"
    "cells_view c = map (upd_match (cell_match (pos_lo p0) (pos_hi p1) (nat q)) (spec_seq_rm (nat q))) (cells_view (kv_cells kv ! s))"
    by (rule rm_seq.sweep_stream_ok [OF assms(1) s(2), of "pos_lo p0" "nat q" lower_head "pos_hi p1"])
      (use s(3) in \<open>auto simp: head_bounds\<close>)
  let ?kv = "kv\<lparr>kv_cells := (kv_cells kv)[s := c], kv_heads := (kv_heads kv)[s := h]\<rparr>"
  obtain pool where pool: "kv_free_pages [s] ?kv = Some (?kv\<lparr>kv_pool := pool\<rparr>)" "kv_cache_inv n (?kv\<lparr>kv_pool := pool\<rparr>)"
    by (rule kv_free_pages_ok [OF sw(2), of "[s]"]) (use s(2) in auto)
  have range: "q < int (length (kv_seq_to_stream kv))"
    using assms by (simp add: kv_cache_inv_def)
  then have "kv_seq_rm q p0 p1 kv = Some (True, ?kv\<lparr>kv_pool := pool\<rparr>)"
    using assms(2) s(1) sw(1) pool(1) by (simp add: kv_seq_rm_def)
  moreover have "kv_views (?kv\<lparr>kv_pool := pool\<rparr>) = (kv_views kv)[s := cells_view c]"
    by simp
  ultimately show thesis
    using pool(2) s sw(3) kv_inv_cells(4) [OF assms(1) s(2)]
    by (intro that [of "?kv\<lparr>kv_pool := pool\<rparr>" s]) auto
qed

lemma kv_seq_rm_any:
  assumes "kv_cache_inv n kv"
  obtains kv' where "kv_seq_rm (- 1) p0 p1 kv = Some (True, kv')" "kv_cache_inv n kv'"
    "kv_views kv' = map (map (upd_match (\<lambda>x. pos_lo p0 \<le> cell_pos x \<and> cell_pos x < pos_hi p1) (\<lambda>_. None))) (kv_views kv)"
    "kv_seq_to_stream kv' = kv_seq_to_stream kv" "kv_n_stream kv' = kv_n_stream kv"
proof -
  let ?f = "map (upd_match (\<lambda>x. pos_lo p0 \<le> cell_pos x \<and> cell_pos x < pos_hi p1) (\<lambda>_. None))"
  let ?I = "\<lambda>done k. kv_cache_inv n k \<and> kv_n_stream k = kv_n_stream kv \<and> kv_seq_to_stream k = kv_seq_to_stream kv \<and>
    kv_views k = map ?f (take (length done) (kv_views kv)) @ drop (length done) (kv_views kv)"
  have len: "length (kv_cells kv) = kv_n_stream kv"
    using assms by (simp add: kv_cache_inv_def)
  have "\<exists>k. mfold (sweep_stream (rm_any_body (pos_lo p0) (pos_hi p1)) lower_head) [0..<kv_n_stream kv] kv = Some k \<and>
      ?I [0..<kv_n_stream kv] k"
  proof (rule mfold_invariant)
    fix done' s rest k
    assume split: "[0..<kv_n_stream kv] = done' @ s # rest" and I: "?I done' k"
    have s: "length done' = s" "s < kv_n_stream k" "s < kv_n_stream kv"
      using upt_splitD [OF split] I by simp_all
    have I': "kv_cache_inv n k" "kv_views k = map ?f (take s (kv_views kv)) @ drop s (kv_views kv)"
      using I s(1) by auto
    obtain c h where sw: "sweep_stream (rm_any_body (pos_lo p0) (pos_hi p1)) lower_head s k =
        Some (k\<lparr>kv_cells := (kv_cells k)[s := c], kv_heads := (kv_heads k)[s := h]\<rparr>)"
      "kv_cache_inv n (k\<lparr>kv_cells := (kv_cells k)[s := c], kv_heads := (kv_heads k)[s := h]\<rparr>)"
      "cells_view c = ?f (cells_view (kv_cells k ! s))"
      by (rule rm_any.sweep_stream_ok [OF I'(1) s(2), of "pos_lo p0" lower_head "pos_hi p1"])
        (auto simp: head_bounds)
    have "cells_view (kv_cells k ! s) = kv_views kv ! s"
      using arg_cong [OF I'(2), of "\<lambda>xs. xs ! s"] kv_inv_cells(4) [OF I'(1) s(2)] s(3) len by (simp add: nth_append)
    moreover have "drop s (kv_views kv) = kv_views kv ! s # drop (Suc s) (kv_views kv)"
      using s(3) len Cons_nth_drop_Suc [of s "kv_views kv"] by simp
    ultimately have "kv_views (k\<lparr>kv_cells := (kv_cells k)[s := c], kv_heads := (kv_heads k)[s := h]\<rparr>) =
        map ?f (take (Suc s) (kv_views kv)) @ drop (Suc s) (kv_views kv)"
      using s(3) len unfolding kv_views_simps I'(2) sw(3)
      by (simp add: take_Suc_conv_app_nth list_update_append)
    then show "\<exists>k'. sweep_stream (rm_any_body (pos_lo p0) (pos_hi p1)) lower_head s k = Some k' \<and> ?I (done' @ [s]) k'"
      using sw(1,2) I s(1) by auto
  qed (use assms in auto)
  then obtain k where k: "mfold (sweep_stream (rm_any_body (pos_lo p0) (pos_hi p1)) lower_head) [0..<kv_n_stream kv] kv = Some k"
    "?I [0..<kv_n_stream kv] k"
    by blast
  have k': "kv_cache_inv n k" "kv_n_stream k = kv_n_stream kv" "kv_views k = map ?f (kv_views kv)"
    "kv_seq_to_stream k = kv_seq_to_stream kv"
    using k(2) len by auto
  obtain pool where "kv_free_pages [0..<kv_n_stream kv] k = Some (k\<lparr>kv_pool := pool\<rparr>)" "kv_cache_inv n (k\<lparr>kv_pool := pool\<rparr>)"
    by (rule kv_free_pages_ok [OF k'(1), of "[0..<kv_n_stream kv]"]) (use k'(2) in auto)
  then show thesis
    using k(1) k'(2-4) by (intro that [of "k\<lparr>kv_pool := pool\<rparr>"]) (auto simp: kv_seq_rm_def)
qed

text \<open>The operations on one stream: \<open>changes_stream\<close> says that only stream \<open>s\<close> changed, and how.\<close>

definition changes_stream :: "nat \<Rightarrow> (kv_cell option \<Rightarrow> kv_cell option) \<Rightarrow> nat \<Rightarrow> kv_cache \<Rightarrow> kv_cache \<Rightarrow> bool" where
  "changes_stream n f s kv kv' \<longleftrightarrow> kv_cache_inv n kv' \<and> kv_views kv' = (kv_views kv)[s := map f (kv_views kv ! s)] \<and>
     kv_seq_to_stream kv' = kv_seq_to_stream kv \<and> kv_n_stream kv' = kv_n_stream kv"

lemma changes_streamI:
  assumes "kv_cache_inv n kv" "s < kv_n_stream kv"
    "kv_cache_inv n (kv\<lparr>kv_cells := (kv_cells kv)[s := c], kv_heads := (kv_heads kv)[s := h]\<rparr>)"
    "cells_view c = map f (cells_view (kv_cells kv ! s))"
  shows "changes_stream n f s kv (kv\<lparr>kv_cells := (kv_cells kv)[s := c], kv_heads := (kv_heads kv)[s := h]\<rparr>)"
  using assms kv_inv_cells(4) [OF assms(1,2)] by (simp add: changes_stream_def)

lemma kv_seq_keep_ok:
  assumes "kv_cache_inv n kv" "0 \<le> q" "q < int LLAMA_MAX_SEQ"
  shows "\<exists>kv'. kv_seq_keep q kv = Some kv' \<and>
    changes_stream n (upd_match (\<lambda>_. True) (spec_seq_keep (nat q))) (kv_seq_to_stream kv ! nat q) kv kv'"
proof -
  obtain s where s: "kv_stream kv q = Some s" "s < kv_n_stream kv" "nat q < LLAMA_MAX_SEQ" "s = kv_seq_to_stream kv ! nat q"
    using kv_inv_stream [OF assms] .
  have pre: "opt_all (\<lambda>x. cell_seqs x \<noteq> {}) v" if "v \<in> set (cells_view (kv_cells kv ! s))" for v
    by (cases v) (use that kv_inv_cells(2) [OF assms(1) s(2)] in \<open>auto simp: cells_live_def\<close>)
  show ?thesis
    by (rule keep.sweep_stream_ok [OF assms(1) s(2), of "nat q" lower_head])
      (use s pre in \<open>auto simp: head_bounds kv_seq_keep_def intro!: changes_streamI [OF assms(1)]\<close>)
qed

lemma kv_seq_add_ok:
  assumes "kv_cache_inv n kv" "0 \<le> q" "q < int LLAMA_MAX_SEQ" "kv_n_pos_per_embd kv = 1" "shift \<noteq> 0" "pos_lo p0 \<noteq> pos_hi p1"
    and pre: "\<And>v. v \<in> set (kv_views kv ! (kv_seq_to_stream kv ! nat q)) \<Longrightarrow> add_pre (pos_lo p0) (pos_hi p1) (nat q) shift v"
  shows "\<exists>kv'. kv_seq_add q p0 p1 shift kv = Some kv' \<and>
    changes_stream n (upd_match (cell_match (pos_lo p0) (pos_hi p1) (nat q)) (spec_pos_add shift)) (kv_seq_to_stream kv ! nat q) kv kv'"
proof -
  obtain s where s: "kv_stream kv q = Some s" "s < kv_n_stream kv" "nat q < LLAMA_MAX_SEQ" "s = kv_seq_to_stream kv ! nat q"
    using kv_inv_stream [OF assms(1-3)] .
  have pre': "add_pre (pos_lo p0) (pos_hi p1) (nat q) shift v" if "v \<in> set (cells_view (kv_cells kv ! s))" for v
    using pre that s(4) kv_inv_cells(4) [OF assms(1) s(2)] by simp
  show ?thesis
    by (rule add.sweep_stream_ok [OF assms(1) s(2), of "pos_lo p0" "pos_hi p1" "nat q" shift reset_head])
      (use s pre' assms(4-6) in \<open>auto simp: head_bounds kv_seq_add_def intro!: changes_streamI [OF assms(1)]\<close>)
qed

lemma kv_seq_div_ok:
  assumes "kv_cache_inv n kv" "0 \<le> q" "q < int LLAMA_MAX_SEQ" "kv_n_pos_per_embd kv = 1" "d \<noteq> 1" "pos_lo p0 \<noteq> pos_hi p1"
    and pre: "\<And>v. v \<in> set (kv_views kv ! (kv_seq_to_stream kv ! nat q)) \<Longrightarrow> div_pre (pos_lo p0) (pos_hi p1) (nat q) d v"
  shows "\<exists>kv'. kv_seq_div q p0 p1 d kv = Some kv' \<and>
    changes_stream n (upd_match (cell_match (pos_lo p0) (pos_hi p1) (nat q)) (spec_pos_div d)) (kv_seq_to_stream kv ! nat q) kv kv'"
proof -
  obtain s where s: "kv_stream kv q = Some s" "s < kv_n_stream kv" "nat q < LLAMA_MAX_SEQ" "s = kv_seq_to_stream kv ! nat q"
    using kv_inv_stream [OF assms(1-3)] .
  have pre': "div_pre (pos_lo p0) (pos_hi p1) (nat q) d v" if "v \<in> set (cells_view (kv_cells kv ! s))" for v
    using pre that s(4) kv_inv_cells(4) [OF assms(1) s(2)] by simp
  show ?thesis
    by (rule dv.sweep_stream_ok [OF assms(1) s(2), of "pos_lo p0" "pos_hi p1" "nat q" d same_head])
      (use s pre' assms(4-6) in \<open>auto simp: head_bounds kv_seq_div_def intro!: changes_streamI [OF assms(1)]\<close>)
qed

lemma kv_seq_cp_same:
  assumes "kv_cache_inv n kv" "0 \<le> src" "src < int LLAMA_MAX_SEQ" "0 \<le> dst" "dst < int LLAMA_MAX_SEQ" "src \<noteq> dst"
    and same: "kv_seq_to_stream kv ! nat src = kv_seq_to_stream kv ! nat dst"
    and pre: "\<And>v. v \<in> set (kv_views kv ! (kv_seq_to_stream kv ! nat src)) \<Longrightarrow> cp_pre (pos_lo p0) (pos_hi p1) (nat src) (nat dst) v"
  shows "\<exists>kv'. kv_seq_cp src dst p0 p1 kv = Some kv' \<and>
    changes_stream n (upd_match (cell_match (pos_lo p0) (pos_hi p1) (nat src)) (spec_seq_cp (nat dst)))
      (kv_seq_to_stream kv ! nat src) kv kv'"
proof -
  obtain s where s: "kv_stream kv src = Some s" "s < kv_n_stream kv" "nat src < LLAMA_MAX_SEQ" "s = kv_seq_to_stream kv ! nat src"
    using kv_inv_stream [OF assms(1-3)] .
  have dst: "kv_stream kv dst = Some s"
    by (rule kv_inv_stream [OF assms(1,4,5)]) (use same s(4) in auto)
  have pre': "cp_pre (pos_lo p0) (pos_hi p1) (nat src) (nat dst) v" if "v \<in> set (cells_view (kv_cells kv ! s))" for v
    using pre that s(4) kv_inv_cells(4) [OF assms(1) s(2)] by simp
  show ?thesis
    by (rule cp.sweep_stream_ok [OF assms(1) s(2), of "pos_lo p0" "pos_hi p1" "nat src" "nat dst" same_head])
      (use s dst pre' assms(6) in \<open>auto simp: head_bounds kv_seq_cp_def intro!: changes_streamI [OF assms(1)]\<close>)
qed

text \<open>Copying a sequence to another stream. A pending shift must be one that can be undone.\<close>

definition copy_view :: "nat \<Rightarrow> nat \<Rightarrow> kv_cell option \<Rightarrow> kv_cell option" where
  "copy_view src dst v = (case v of None \<Rightarrow> None
     | Some x \<Rightarrow> if src \<in> cell_seqs x then Some (Cell (cell_pos x) {dst} (cell_shift x)) else None)"

definition copy_pre :: "nat \<Rightarrow> kv_cell option \<Rightarrow> bool" where
  "copy_pre src v \<longleftrightarrow> opt_all (\<lambda>x. src \<in> cell_seqs x \<longrightarrow> in_i32 (cell_shift x) \<and>
     0 \<le> cell_pos x - cell_shift x \<and> cell_pos x - cell_shift x \<le> INT32_MAX) v"

lemma copy_cell_ok:
  assumes c0: "kv_cells_inv c0" "i < cells_size c0" "copy_pre src (cell_view c0 i)"
    and c1: "kv_cells_inv c1" "cells_size c1 = cells_size c0" "cell_view c1 i = None"
    and seqs: "src < LLAMA_MAX_SEQ" "dst < LLAMA_MAX_SEQ"
  shows "\<exists>c'. copy_cell src dst c0 i c1 = Some c' \<and> kv_cells_inv c' \<and>
    cells_view c' = (cells_view c1)[i := copy_view src dst (cell_view c0 i)]"
proof (cases "cell_view c0 i")
  case None
  then show ?thesis
    using c0 c1 seqs by (simp add: copy_cell_def cells_seq_has_view copy_view_def)
next
  case (Some x)
  have i1: "i < cells_size c1"
    using c0(2) c1(2) by simp
  show ?thesis
  proof (cases "src \<in> cell_seqs x")
    case False
    then show ?thesis
      using Some c0 c1 i1 seqs by (simp add: copy_cell_def cells_seq_has_view copy_view_def)
  next
    case True
    let ?p = "cell_pos x - cell_shift x"
    have pos: "0 \<le> cell_pos x" "cell_pos x \<le> INT32_MAX"
      using cells_wf_cell(1,2) [OF cells_inv_wf [OF c0(1)] c0(2)] Some by (auto simp: cell_view_def split: if_splits)
    have pre: "in_i32 (cell_shift x)" "0 \<le> ?p" "?p \<le> INT32_MAX"
      using c0(3) Some True by (simp_all add: copy_pre_def)
    obtain c2 where c2: "cells_pos_set i ?p c1 = Some c2" "kv_cells_inv c2" "cells_view c2 = (cells_view c1)[i := Some (Cell ?p {} 0)]"
      by (rule cells_pos_set_spec [OF c1(1) i1 c1(3) pre(2,3)])
    have i2: "i < cells_size c2" "cell_view c2 i = Some (Cell ?p {} 0)"
      using i1 arg_cong [OF c2(3), of length] arg_cong [OF c2(3), of "\<lambda>v. v ! i"] by simp_all
    obtain c3 where c3: "cells_seq_add i dst c2 = Some c3" "kv_cells_inv c3"
      "cells_view c3 = (cells_view c2)[i := Some (Cell ?p {dst} 0)]"
      by (rule cells_seq_add_spec [OF c2(2) i2(1) seqs(2) i2(2)]) auto
    have i3: "i < cells_size c3" "cell_view c3 i = Some (Cell ?p {dst} 0)"
      using i2 arg_cong [OF c3(3), of length] arg_cong [OF c3(3), of "\<lambda>v. v ! i"] by simp_all
    obtain c4 where c4: "(if cell_shift x \<noteq> 0 then map_option snd (cells_pos_add i (cell_shift x) c3) else Some c3) = Some c4"
      "kv_cells_inv c4" "cells_view c4 = (cells_view c3)[i := Some (Cell (cell_pos x) {dst} (cell_shift x))]"
    proof (cases "cell_shift x = 0")
      case True
      then show thesis
        using c3(2) i3 by (intro that [of c3]) simp_all
    next
      case False
      have "in_i32 (?p + cell_shift x)"
        using pos by (simp add: in_i32_def INT32_MIN_def)
      then show thesis
        using pre pos False
        by - (rule cells_pos_add_spec [OF c3(2) i3, of "cell_shift x"], auto simp: spec_pos_add_def intro: that)
    qed
    have i4: "i < cells_size c4"
      using i3 arg_cong [OF c4(3), of length] by simp
    obtain c5 where c5: "cells_ext_set i (kc_ext c0 ! i) c4 = Some c5" "kv_cells_inv c5" "cells_view c5 = cells_view c4"
      by (rule cells_ext_set_spec [OF c4(2) i4])
    have "i32 ?p = Some ?p"
      using pre by (simp add: in_i32_def INT32_MIN_def)
    then have "copy_cell src dst c0 i c1 = Some c5"
      using c0 Some True seqs c2(1) c3(1) c4(1) c5(1) pre(2)
      by (auto simp: copy_cell_def cells_seq_has_view cells_pos_get_view cells_get_shift_view cells_ext_get_view split: if_splits)
    then show ?thesis
      using c5 c4(3) c3(3) c2(3) Some True by (simp add: copy_view_def)
  qed
qed

lemma copy_loop_ok:
  assumes c0: "kv_cells_inv c0" "\<And>v. v \<in> set (cells_view c0) \<Longrightarrow> copy_pre src v"
    and c1: "cells_size c1 = cells_size c0" and seqs: "src < LLAMA_MAX_SEQ" "dst < LLAMA_MAX_SEQ"
  obtains c' where "mfold (copy_cell src dst c0) [0..<cells_size c0] (cells_reset c1) = Some c'" "kv_cells_inv c'"
    "cells_view c' = map (copy_view src dst) (cells_view c0)"
proof -
  let ?n = "cells_size c0" and ?vs = "cells_view c0"
  let ?I = "\<lambda>done c. kv_cells_inv c \<and>
    cells_view c = map (copy_view src dst) (take (length done) ?vs) @ replicate (?n - length done) None"
  have "\<exists>c'. mfold (copy_cell src dst c0) [0..<?n] (cells_reset c1) = Some c' \<and> ?I [0..<?n] c'"
  proof (rule mfold_invariant)
    show "?I [] (cells_reset c1)"
      using c1 by (simp add: cells_reset_inv cells_view_reset)
  next
    fix done' i rest c
    assume split: "[0..<?n] = done' @ i # rest" and I: "?I done' c"
    have i: "length done' = i" "i < ?n"
      using upt_splitD [OF split] by simp_all
    have c: "kv_cells_inv c" "cells_view c = map (copy_view src dst) (take i ?vs) @ replicate (?n - i) None"
      using I i by auto
    have n: "cells_size c = ?n"
      using arg_cong [OF c(2), of length] i by simp
    have v: "cell_view c i = None"
      using arg_cong [OF c(2), of "\<lambda>xs. xs ! i"] i n by (simp add: nth_append)
    have "cell_view c0 i \<in> set ?vs"
      using i by (simp add: cells_view_def)
    then obtain c' where c': "copy_cell src dst c0 i c = Some c'" "kv_cells_inv c'"
      "cells_view c' = (cells_view c)[i := copy_view src dst (cell_view c0 i)]"
      using copy_cell_ok [OF c0(1) i(2) c0(2) c(1) n v seqs] by blast
    have "replicate (?n - i) None = None # replicate (?n - Suc i) (None :: kv_cell option)"
      using i by (metis Suc_diff_Suc replicate_Suc)
    then have "cells_view c' = map (copy_view src dst) (take (Suc i) ?vs) @ replicate (?n - Suc i) None"
      unfolding c'(3) c(2) using i by (simp add: take_Suc_conv_app_nth list_update_append)
    then show "\<exists>c'. copy_cell src dst c0 i c = Some c' \<and> ?I (done' @ [i]) c'"
      using c'(1,2) i by auto
  qed
  then show thesis
    by (auto intro: that)
qed

lemma kv_seq_cp_cross:
  assumes inv: "kv_cache_inv n kv" and src: "0 \<le> src" "src < int LLAMA_MAX_SEQ" and dst: "0 \<le> dst" "dst < int LLAMA_MAX_SEQ"
    and diff: "kv_seq_to_stream kv ! nat src \<noteq> kv_seq_to_stream kv ! nat dst"
    and full: "p0 > 0 \<longrightarrow> in_i32 (p0 + 1) \<and> int n \<le> p0 + 1" "p1 > 0 \<longrightarrow> in_i32 (p1 + 1) \<and> int n \<le> p1 + 1"
    and pre: "\<And>v. v \<in> set (kv_views kv ! (kv_seq_to_stream kv ! nat src)) \<Longrightarrow> copy_pre (nat src) v"
  shows "\<exists>kv'. kv_seq_cp src dst p0 p1 kv = Some kv' \<and> kv_cache_inv n kv' \<and>
    kv_views kv' = (kv_views kv)[kv_seq_to_stream kv ! nat dst :=
      map (copy_view (nat src) (nat dst)) (kv_views kv ! (kv_seq_to_stream kv ! nat src))] \<and>
    kv_sc_info kv' = \<lparr>sc_ssrc = sc_ssrc (kv_sc_info kv) @ [kv_seq_to_stream kv ! nat src],
      sc_sdst = sc_sdst (kv_sc_info kv) @ [kv_seq_to_stream kv ! nat dst]\<rparr>"
proof -
  obtain s0 where s0: "kv_stream kv src = Some s0" "s0 < kv_n_stream kv" "nat src < LLAMA_MAX_SEQ" "s0 = kv_seq_to_stream kv ! nat src"
    using kv_inv_stream [OF inv src] .
  obtain s1 where s1: "kv_stream kv dst = Some s1" "s1 < kv_n_stream kv" "nat dst < LLAMA_MAX_SEQ" "s1 = kv_seq_to_stream kv ! nat dst"
    using kv_inv_stream [OF inv dst] .
  note c0 = kv_inv_cells [OF inv s0(2)] and c1 = kv_inv_cells [OF inv s1(2)]
  have size: "get_size kv = n"
    using kv_inv_stream [OF inv, of 0] kv_inv_cells(3) [OF inv] inv
    by (auto simp: get_size_def kv_cache_inv_def LLAMA_MAX_SEQ_def)
  have "copy_pre (nat src) v" if "v \<in> set (cells_view (kv_cells kv ! s0))" for v
    using pre that s0(4) c0(4) by simp
  then obtain c' where c': "mfold (copy_cell (nat src) (nat dst) (kv_cells kv ! s0)) [0..<n] (cells_reset (kv_cells kv ! s1)) = Some c'"
    "kv_cells_inv c'" "cells_view c' = map (copy_view (nat src) (nat dst)) (cells_view (kv_cells kv ! s0))"
    using copy_loop_ok [OF c0(1), of "nat src" "kv_cells kv ! s1" "nat dst"] c0(3) c1(3) s0(3) s1(3) by auto
  let ?kv = "kv\<lparr>kv_sc_info := \<lparr>sc_ssrc = sc_ssrc (kv_sc_info kv) @ [s0], sc_sdst = sc_sdst (kv_sc_info kv) @ [s1]\<rparr>,
    kv_cells := (kv_cells kv)[s1 := c'], kv_heads := (kv_heads kv)[s1 := kv_heads kv ! s0]\<rparr>"
  have "kv_seq_cp src dst p0 p1 kv = Some ?kv"
    using s0(1,4) s1(1,4) diff c0(3,4) c1(4) full size c'(1) by (auto simp: kv_seq_cp_def not_less)
  moreover have "cells_size c' = n"
    using arg_cong [OF c'(3), of length] c0(3) by simp
  moreover have "cells_live c'"
    unfolding cells_live_def c'(3) by (auto simp: copy_view_def split: option.splits if_splits)
  then have "kv_cache_inv n ?kv"
    using kv_inv_store [OF inv c'(2) _ \<open>cells_size c' = n\<close> c0(6), of s1] by (simp add: kv_cache_inv_def)
  moreover have "kv_views ?kv = (kv_views kv)[s1 := cells_view c']"
    by (simp add: kv_views_def map_update)
  ultimately show ?thesis
    using c'(3) c0(4) s0(4) s1(4) by auto
qed

lemma kv_clear_inv: "kv_cache_inv n kv \<Longrightarrow> kv_cache_inv n (kv_clear data kv)"
  by (auto simp: kv_cache_inv_def kv_clear_def cells_reset_inv cells_live_def cells_view_reset pg_clear_inv)

lemma kv_new_inv:
  assumes "kv_new unified kv_size n_seq_max n_pad n_swa swa v_trans n_pos step35 rope_none rotation paging = Some kv"
    "0 < n_seq_max"
  shows "kv_cache_inv kv_size kv"
  using assms
  by (auto simp: kv_new_def bind_Some_iff Let_def kv_cache_inv_def cells_resize_inv cells_live_def cells_view_resize
      pg_init_inv LLAMA_MAX_SEQ_def split: if_splits)

section \<open>The cache as a memory\<close>

definition seq_in_range :: "int \<Rightarrow> bool" where
  "seq_in_range q \<longleftrightarrow> 0 \<le> q \<and> q < int LLAMA_MAX_SEQ"

text \<open>When an operation may be called. The conditions beyond the range of the arguments are those under
  which the source does not run into an assertion or an overflow: a same-stream copy must not meet a
  cell that already belongs to the destination, shifts and divisions must stay in 32 bits, divisors are
  positive.\<close>

definition kv_allowed :: "mem_op \<Rightarrow> kv_cache \<Rightarrow> bool" where
  "kv_allowed op kv = (case op of
       Op_Clear data \<Rightarrow> True
     | Op_Seq_Rm q p0 p1 \<Rightarrow> q = - 1 \<or> seq_in_range q
     | Op_Seq_Cp src dst p0 p1 \<Rightarrow> seq_in_range src \<and> seq_in_range dst \<and>
         (let s0 = kv_seq_to_stream kv ! nat src; s1 = kv_seq_to_stream kv ! nat dst
          in if s0 = s1 then src = dst \<or> list_all (cp_pre (pos_lo p0) (pos_hi p1) (nat src) (nat dst)) (kv_views kv ! s0)
             else (p0 > 0 \<longrightarrow> in_i32 (p0 + 1) \<and> int (get_size kv) \<le> p0 + 1) \<and>
               (p1 > 0 \<longrightarrow> in_i32 (p1 + 1) \<and> int (get_size kv) \<le> p1 + 1) \<and> list_all (copy_pre (nat src)) (kv_views kv ! s0))
     | Op_Seq_Keep q \<Rightarrow> seq_in_range q
     | Op_Seq_Add q p0 p1 shift \<Rightarrow> seq_in_range q \<and> kv_n_pos_per_embd kv = 1 \<and>
         list_all (add_pre (pos_lo p0) (pos_hi p1) (nat q) shift) (kv_views kv ! (kv_seq_to_stream kv ! nat q))
     | Op_Seq_Div q p0 p1 d \<Rightarrow> seq_in_range q \<and> kv_n_pos_per_embd kv = 1 \<and>
         list_all (div_pre (pos_lo p0) (pos_hi p1) (nat q) d) (kv_views kv ! (kv_seq_to_stream kv ! nat q)))"

definition kv_exec :: "mem_op \<Rightarrow> kv_cache \<Rightarrow> kv_cache option" where
  "kv_exec op kv = (case op of
       Op_Clear data \<Rightarrow> Some (kv_clear data kv)
     | Op_Seq_Rm q p0 p1 \<Rightarrow> map_option snd (kv_seq_rm q p0 p1 kv)
     | Op_Seq_Cp src dst p0 p1 \<Rightarrow> kv_seq_cp src dst p0 p1 kv
     | Op_Seq_Keep q \<Rightarrow> kv_seq_keep q kv
     | Op_Seq_Add q p0 p1 shift \<Rightarrow> kv_seq_add q p0 p1 shift kv
     | Op_Seq_Div q p0 p1 d \<Rightarrow> kv_seq_div q p0 p1 d kv)"

lemma get_size_inv: "kv_cache_inv n kv \<Longrightarrow> get_size kv = n"
  using kv_inv_cells(3) [of n kv "kv_seq_to_stream kv ! 0"]
  by (simp add: get_size_def kv_cache_inv_def LLAMA_MAX_SEQ_def)

lemma kv_stream_total:
  assumes "kv_cache_inv n kv" "seq_in_range q"
  shows "kv_stream kv q = Some (kv_seq_to_stream kv ! nat q)"
  by (rule kv_inv_stream [OF assms(1), of q]) (use assms(2) in \<open>auto simp: seq_in_range_def\<close>)

lemma kv_exec_rm_ok:
  assumes inv: "kv_cache_inv n kv" and ok: "kv_allowed (Op_Seq_Rm q p0 p1) kv"
  shows "\<exists>kv'. kv_exec (Op_Seq_Rm q p0 p1) kv = Some kv' \<and> kv_cache_inv n kv'"
proof (cases "q = - 1")
  case True
  show ?thesis
    by (rule kv_seq_rm_any [OF inv, of p0 p1]) (simp add: kv_exec_def True)
next
  case False
  then have q: "0 \<le> q" "q < int LLAMA_MAX_SEQ"
    using ok by (auto simp: kv_allowed_def seq_in_range_def)
  show ?thesis
    by (rule kv_seq_rm_one [OF inv q, of p0 p1]) (simp add: kv_exec_def)
qed

lemma kv_exec_cp_ok:
  assumes inv: "kv_cache_inv n kv" and ok: "kv_allowed (Op_Seq_Cp src dst p0 p1) kv"
  shows "\<exists>kv'. kv_exec (Op_Seq_Cp src dst p0 p1) kv = Some kv' \<and> kv_cache_inv n kv'"
proof -
  let ?s = "\<lambda>q. kv_seq_to_stream kv ! nat q"
  have r: "seq_in_range src" "seq_in_range dst" "0 \<le> src" "src < int LLAMA_MAX_SEQ" "0 \<le> dst" "dst < int LLAMA_MAX_SEQ"
    using ok by (simp_all add: kv_allowed_def seq_in_range_def)
  consider "src = dst" | "src \<noteq> dst" "?s src = ?s dst" | "?s src \<noteq> ?s dst"
    by blast
  then show ?thesis
  proof cases
    case 1
    then show ?thesis
      using inv kv_stream_total [OF inv r(2)] by (simp add: kv_exec_def kv_seq_cp_def)
  next
    case 2
    then have "v \<in> set (kv_views kv ! ?s src) \<Longrightarrow> cp_pre (pos_lo p0) (pos_hi p1) (nat src) (nat dst) v" for v
      using ok by (auto simp: kv_allowed_def list_all_iff)
    from kv_seq_cp_same [OF inv r(3-6) 2 this] show ?thesis
      by (auto simp: kv_exec_def changes_stream_def)
  next
    case 3
    then have full: "p0 > 0 \<longrightarrow> in_i32 (p0 + 1) \<and> int n \<le> p0 + 1" "p1 > 0 \<longrightarrow> in_i32 (p1 + 1) \<and> int n \<le> p1 + 1"
      and pre: "v \<in> set (kv_views kv ! ?s src) \<Longrightarrow> copy_pre (nat src) v" for v
      using ok get_size_inv [OF inv] by (auto simp: kv_allowed_def list_all_iff)
    from kv_seq_cp_cross [OF inv r(3-6) 3 full pre] show ?thesis
      by (auto simp: kv_exec_def)
  qed
qed

lemma kv_exec_add_ok:
  assumes inv: "kv_cache_inv n kv" and ok: "kv_allowed (Op_Seq_Add q p0 p1 shift) kv"
  shows "\<exists>kv'. kv_exec (Op_Seq_Add q p0 p1 shift) kv = Some kv' \<and> kv_cache_inv n kv'"
proof -
  have q: "seq_in_range q" "0 \<le> q" "q < int LLAMA_MAX_SEQ" and n1: "kv_n_pos_per_embd kv = 1"
    and pre: "v \<in> set (kv_views kv ! (kv_seq_to_stream kv ! nat q)) \<Longrightarrow> add_pre (pos_lo p0) (pos_hi p1) (nat q) shift v" for v
    using ok by (auto simp: kv_allowed_def seq_in_range_def list_all_iff)
  show ?thesis
  proof (cases "shift = 0 \<or> pos_lo p0 = pos_hi p1")
    case True
    then show ?thesis
      using inv kv_stream_total [OF inv q(1)] n1 by (auto simp: kv_exec_def kv_seq_add_def)
  next
    case False
    then show ?thesis
      using kv_seq_add_ok [OF inv q(2,3) n1 _ _ pre] by (auto simp: kv_exec_def changes_stream_def)
  qed
qed

lemma kv_exec_div_ok:
  assumes inv: "kv_cache_inv n kv" and ok: "kv_allowed (Op_Seq_Div q p0 p1 d) kv"
  shows "\<exists>kv'. kv_exec (Op_Seq_Div q p0 p1 d) kv = Some kv' \<and> kv_cache_inv n kv'"
proof -
  have q: "seq_in_range q" "0 \<le> q" "q < int LLAMA_MAX_SEQ" and n1: "kv_n_pos_per_embd kv = 1"
    and pre: "v \<in> set (kv_views kv ! (kv_seq_to_stream kv ! nat q)) \<Longrightarrow> div_pre (pos_lo p0) (pos_hi p1) (nat q) d v" for v
    using ok by (auto simp: kv_allowed_def seq_in_range_def list_all_iff)
  show ?thesis
  proof (cases "d = 1 \<or> pos_lo p0 = pos_hi p1")
    case True
    then show ?thesis
      using inv kv_stream_total [OF inv q(1)] n1 by (auto simp: kv_exec_def kv_seq_div_def)
  next
    case False
    then show ?thesis
      using kv_seq_div_ok [OF inv q(2,3) n1 _ _ pre] by (auto simp: kv_exec_def changes_stream_def)
  qed
qed

lemma kv_exec_ok:
  assumes inv: "kv_cache_inv n kv" and ok: "kv_allowed op kv"
  shows "\<exists>kv'. kv_exec op kv = Some kv' \<and> kv_cache_inv n kv'"
proof (cases op)
  case (Op_Clear data)
  then show ?thesis
    using kv_clear_inv [OF inv] by (simp add: kv_exec_def)
next
  case (Op_Seq_Keep q)
  then show ?thesis
    using kv_seq_keep_ok [OF inv, of q] ok
    by (auto simp: kv_exec_def kv_allowed_def seq_in_range_def changes_stream_def)
qed (use ok kv_exec_rm_ok [OF inv] kv_exec_cp_ok [OF inv] kv_exec_add_ok [OF inv] kv_exec_div_ok [OF inv] in auto)

interpretation kvm: llama_memory "kv_cache_inv n" kv_allowed kv_exec for n
  by unfold_locales (rule kv_exec_ok)

section \<open>Properties\<close>

definition demo_kv :: kv_cache where
  "demo_kv = the (kv_new False 4 2 1 0 SWA_NONE False 1 False False True False)"

lemma demo_kv_new: "kv_new False 4 2 1 0 SWA_NONE False 1 False False True False = Some demo_kv"
  by (simp add: demo_kv_def kv_new_def Let_def LLAMA_MAX_SEQ_def)



lemma view_mset_cong:
  assumes "\<And>v. v \<in> set vs \<Longrightarrow> cell_mset (f v) s = cell_mset v t"
  shows "view_mset (map f vs) s = view_mset vs t"
  unfolding view_mset_def using assms by (intro sum.cong) auto

lemma view_mset_empty:
  assumes "\<And>v. v \<in> set vs \<Longrightarrow> cell_mset (f v) s = {#}"
  shows "view_mset (map f vs) s = {#}"
  unfolding view_mset_def using assms by (intro sum.neutral) auto

lemma in_view_msetI:
  assumes "v \<in> set vs" "v = Some x" "s \<in> cell_seqs x"
  shows "cell_pos x \<in># view_mset vs s"
proof -
  obtain i where "i < length vs" "vs ! i = Some x"
    using assms by (auto simp: in_set_conv_nth)
  then show ?thesis
    using assms(3) by (cases x) (auto simp: in_view_mset_iff)
qed

definition stream_of :: "kv_cache \<Rightarrow> int \<Rightarrow> nat" where
  "stream_of kv q = kv_seq_to_stream kv ! nat q"

lemma kv_seq_pos_views:
  assumes "kv_cache_inv n kv" "seq_in_range q"
  shows "kv_seq_pos_min q kv = Some (let M = view_mset (kv_views kv ! stream_of kv q) (nat q) in if M = {#} then - 1 else Min_mset M)"
    and "kv_seq_pos_max q kv = Some (let M = view_mset (kv_views kv ! stream_of kv q) (nat q) in if M = {#} then - 1 else Max_mset M)"
proof -
  have q: "0 \<le> q" "q < int LLAMA_MAX_SEQ"
    using assms(2) by (simp_all add: seq_in_range_def)
  obtain s where s: "kv_stream kv q = Some s" "s < kv_n_stream kv" "nat q < LLAMA_MAX_SEQ" "s = stream_of kv q"
    by (rule kv_inv_stream [OF assms(1) q]) (auto simp: stream_of_def)
  note c = kv_inv_cells [OF assms(1) s(2)]
  show "kv_seq_pos_min q kv = Some (let M = view_mset (kv_views kv ! stream_of kv q) (nat q) in if M = {#} then - 1 else Min_mset M)"
    and "kv_seq_pos_max q kv = Some (let M = view_mset (kv_views kv ! stream_of kv q) (nat q) in if M = {#} then - 1 else Max_mset M)"
    using s c cells_seq_pos_min_view [OF c(1) s(3)] cells_seq_pos_max_view [OF c(1) s(3)]
    by (simp_all add: kv_seq_pos_min_def kv_seq_pos_max_def Let_def)
qed

lemma seq_rm_all_hit:
  assumes inv: "kv_cache_inv n kv" and q: "seq_in_range q" and max: "\<forall>m. kv_seq_pos_max q kv = Some m \<longrightarrow> m < INT32_MAX"
    and s: "s < kv_n_stream kv" "s = stream_of kv q" and v: "v \<in> set (kv_views kv ! s)"
  shows "cell_mset (upd_match (cell_match (pos_lo (- 1)) (pos_hi (- 1)) (nat q)) (spec_seq_rm (nat q)) v) (nat q) = {#}"
proof (cases v)
  case (Some x)
  note c = kv_inv_cells [OF inv s(1)]
  have "cell_match 0 INT32_MAX (nat q) x" if "nat q \<in> cell_seqs x"
  proof -
    obtain i where i: "i < n" "cell_view (kv_cells kv ! s) i = Some x"
      using v Some c(3,4) by (auto simp: in_set_conv_nth)
    have "0 \<le> cell_pos x"
      using cells_wf_cell(1) [OF cells_inv_wf [OF c(1)], of i] i c(3) by (auto simp: cell_view_def split: if_splits)
    moreover have "cell_pos x \<in># view_mset (kv_views kv ! s) (nat q)"
      using v Some that by (intro in_view_msetI)
    then have "cell_pos x < INT32_MAX"
      using max kv_seq_pos_views(2) [OF inv q] s(2) by (auto simp: Let_def split: if_splits)
    ultimately show ?thesis
      using that by (simp add: cell_match_def)
  qed
  then show ?thesis
    using Some by (auto simp: pos_lo_def pos_hi_def spec_seq_rm_def cell_mset_def)
qed simp

text \<open>Removing a whole sequence empties it: after \<open>seq_rm(q, -1, -1)\<close> the cache reports position -1
  for \<open>q\<close>, and for every other sequence the same least and greatest position as before. The open end
  is \<open>INT32_MAX\<close>, exclusive, so this needs that no cell of \<open>q\<close> sits at that position.\<close>

theorem kv_seq_rm_bounds:
  assumes inv: "kv_cache_inv n kv" and q: "seq_in_range q" "seq_in_range r" "q \<noteq> r"
    and max: "\<forall>m. kv_seq_pos_max q kv = Some m \<longrightarrow> m < INT32_MAX"
  shows "\<exists>kv'. kv_seq_rm q (- 1) (- 1) kv = Some (True, kv') \<and>
    kv_seq_pos_min q kv' = Some (- 1) \<and> kv_seq_pos_max q kv' = Some (- 1) \<and>
    kv_seq_pos_min r kv' = kv_seq_pos_min r kv \<and> kv_seq_pos_max r kv' = kv_seq_pos_max r kv"
proof -
  have q': "0 \<le> q" "q < int LLAMA_MAX_SEQ"
    using q(1) by (simp_all add: seq_in_range_def)
  let ?f = "upd_match (cell_match (pos_lo (- 1)) (pos_hi (- 1)) (nat q)) (spec_seq_rm (nat q))"
  obtain s kv' where kv': "kv_seq_rm q (- 1) (- 1) kv = Some (True, kv')" "kv_cache_inv n kv'" "s = stream_of kv q"
    "s < kv_n_stream kv" "kv_views kv' = (kv_views kv)[s := map ?f (kv_views kv ! s)]"
    "kv_seq_to_stream kv' = kv_seq_to_stream kv"
    by (rule kv_seq_rm_one [OF inv q', of "- 1" "- 1"]) (auto simp: stream_of_def)
  have s: "s < length (kv_views kv)"
    using kv_inv_cells(4) [OF inv kv'(4)] by simp
  have hit: "cell_mset (?f v) (nat q) = {#}" if "v \<in> set (kv_views kv ! s)" for v
    using seq_rm_all_hit [OF inv q(1) max kv'(4)] kv'(3) that by simp
  have miss: "cell_mset (?f v) (nat r) = cell_mset v (nat r)" for v
    using q by (cases v) (auto simp: spec_seq_rm_def cell_mset_def seq_in_range_def)
  have "view_mset (kv_views kv' ! s) (nat q) = {#}"
    using hit s kv'(5) by (simp add: view_mset_empty)
  moreover have "view_mset (kv_views kv' ! t) (nat r) = view_mset (kv_views kv ! t) (nat r)" for t
    using miss s kv'(5) by (cases "t = s") (simp_all add: view_mset_cong)
  ultimately show ?thesis
    using kv_seq_pos_views [OF kv'(2)] kv_seq_pos_views [OF inv] q kv' by (simp add: stream_of_def Let_def)
qed

theorem kv_seq_rm_bounds_witness:
  "\<exists>kv'. kv_seq_rm 0 (- 1) (- 1) demo_kv = Some (True, kv') \<and> kv_seq_pos_max 0 kv' = Some (- 1)"
proof -
  have "kv_seq_pos_max 0 demo_kv = Some (- 1)"
    by code_simp
  then have "\<forall>m. kv_seq_pos_max 0 demo_kv = Some m \<longrightarrow> m < INT32_MAX"
    by (simp add: INT32_MAX_def)
  moreover have "kv_cache_inv 4 demo_kv"
    using kv_new_inv [OF demo_kv_new] by simp
  moreover have "seq_in_range 0" "seq_in_range 1"
    by (simp_all add: seq_in_range_def LLAMA_MAX_SEQ_def)
  ultimately show ?thesis
    using kv_seq_rm_bounds [of 4 demo_kv 0 1] by auto
qed



lemma copy_streams_ok:
  assumes "\<forall>(a, b) \<in> set ps. a < kv_n_stream kv \<and> b < kv_n_stream kv \<and> a \<noteq> b"
  shows "mfold copy_stream ps kv = Some (kv\<lparr>kv_log := kv_log kv @ map (\<lambda>(a, b). Copy_Stream a b) ps\<rparr>)"
  using assms by (induction ps arbitrary: kv) (auto simp: copy_stream_def)

lemma kv_reset_shift_ok:
  assumes "kv_cache_inv n kv"
  shows "kv_cache_inv n (kv\<lparr>kv_log := l, kv_cells := map cells_reset_shift (kv_cells kv)\<rparr>)"
    "\<not> get_has_shift (kv\<lparr>kv_log := l, kv_cells := map cells_reset_shift (kv_cells kv)\<rparr>)"
    "kv_views (kv\<lparr>kv_log := l, kv_cells := map cells_reset_shift (kv_cells kv)\<rparr>) = map (map (map_option spec_reset_shift)) (kv_views kv)"
proof -
  have c: "kv_cells_inv c \<and> cells_live c \<and> cells_size c = n" if "c \<in> set (kv_cells kv)" for c
    using assms that by (auto simp: kv_cache_inv_def)
  have live: "cells_live (cells_reset_shift c)" if "cells_live c" "cells_wf c" for c
    using that by (auto simp: cells_live_def cells_view_reset_shift spec_reset_shift_def eq_commute [of "Some _"])
  show "kv_cache_inv n (kv\<lparr>kv_log := l, kv_cells := map cells_reset_shift (kv_cells kv)\<rparr>)"
    using assms c live cells_inv_wf by (auto simp: kv_cache_inv_def cells_reset_shift_inv)
  have "fold (\<lambda>s r. r \<or> P s) xs b \<longleftrightarrow> b \<or> (\<exists>s \<in> set xs. P s)" for P b and xs :: "nat list"
    by (induction xs arbitrary: b) auto
  moreover have "length (kv_cells kv) = kv_n_stream kv"
    using assms by (simp add: kv_cache_inv_def)
  ultimately show "\<not> get_has_shift (kv\<lparr>kv_log := l, kv_cells := map cells_reset_shift (kv_cells kv)\<rparr>)"
    by (simp add: get_has_shift_def cells_get_has_shift_def cells_reset_shift_def)
  show "kv_views (kv\<lparr>kv_log := l, kv_cells := map cells_reset_shift (kv_cells kv)\<rparr>) = map (map (map_option spec_reset_shift)) (kv_views kv)"
    using c cells_inv_wf by (simp add: kv_views_def cells_view_reset_shift)
qed

lemma kv_inv_log: "kv_cache_inv n kv \<Longrightarrow> kv_cache_inv n (kv\<lparr>kv_log := l\<rparr>)"
  by (simp add: kv_cache_inv_def)



text \<open>\<open>pos_div\<close> records the pending shift with the wrong sign. The K data of a cell was rotated for
  the position \<open>pos - shift\<close>; a shift by \<open>pos_add\<close> keeps that difference, as the rotation by \<open>shift\<close>
  requires, but \<open>pos_div\<close> adds the amount the position lost, so the difference changes by twice that
  amount.\<close>

theorem pos_div_shift_sign:
  assumes inv: "kv_cells_inv c" and i: "i < cells_size c" and v: "cell_view c i = Some x"
    and add: "0 \<le> cell_pos x + e" "in_i32 (cell_pos x + e)" "in_i32 (cell_shift x + e)"
    and dv: "0 < d" "in_i32 (cell_shift x + (cell_pos x - cell_pos x sdiv d))"
  shows "(\<exists>c' y. cells_pos_add i e c = Some (False, c') \<and> cell_view c' i = Some y \<and>
      cell_pos y - cell_shift y = cell_pos x - cell_shift x) \<and>
    (\<exists>c' y. cells_pos_div i d c = Some c' \<and> cell_view c' i = Some y \<and>
      cell_pos y - cell_shift y = cell_pos x - cell_shift x - 2 * (cell_pos x - cell_pos y))"
proof
  obtain c' where c': "cells_pos_add i e c = Some (spec_pos_add e x = None, c')"
    "cells_view c' = (cells_view c)[i := spec_pos_add e x]"
    by (rule cells_pos_add_spec [OF inv i v add(2,3)])
  then have "cell_view c' i = spec_pos_add e x"
    using view_updated [OF c'(2) i] by simp
  then show "\<exists>c' y. cells_pos_add i e c = Some (False, c') \<and> cell_view c' i = Some y \<and>
      cell_pos y - cell_shift y = cell_pos x - cell_shift x"
    using c'(1) add(1) by (auto simp: spec_pos_add_def)
next
  obtain c' where c': "cells_pos_div i d c = Some c'" "cells_view c' = (cells_view c)[i := spec_pos_div d x]"
    by (rule cells_pos_div_spec [OF inv i v dv])
  then have "cell_view c' i = spec_pos_div d x"
    using view_updated [OF c'(2) i] by simp
  then show "\<exists>c' y. cells_pos_div i d c = Some c' \<and> cell_view c' i = Some y \<and>
      cell_pos y - cell_shift y = cell_pos x - cell_shift x - 2 * (cell_pos x - cell_pos y)"
    using c'(1) by (auto simp: spec_pos_div_def Let_def)
qed

definition demo_cells :: llama_kv_cells where
  "demo_cells = the (cells_pos_set 0 8 (cells_resize 1 cells_new))"

theorem pos_div_shift_sign_witness:
  "\<exists>c' y. cells_pos_div 0 2 demo_cells = Some c' \<and> cell_view c' 0 = Some y \<and> cell_pos y = 4 \<and> cell_shift y = 4"
proof -
  have "cell_view (cells_resize 1 cells_new) 0 = None"
    using arg_cong [OF cells_view_resize [of 1 cells_new], of "\<lambda>v. v ! 0"] by simp
  then obtain c0 where c0: "cells_pos_set 0 8 (cells_resize 1 cells_new) = Some c0" "kv_cells_inv c0"
    "cells_view c0 = (cells_view (cells_resize 1 cells_new))[0 := Some (Cell 8 {} 0)]"
    by (rule cells_pos_set_spec [OF cells_resize_inv, of 0 1 cells_new 8, rotated]) (auto simp: INT32_MAX_def)
  have v: "cells_size demo_cells = 1" "cell_view demo_cells 0 = Some (Cell 8 {} 0)" "kv_cells_inv demo_cells"
    using c0 view_updated [OF c0(3)] by (auto simp: demo_cells_def)
  have sdiv: "8 sdiv 2 = (4 :: int)"
    by code_simp
  have "\<exists>c' y. cells_pos_div 0 2 demo_cells = Some c' \<and> cell_view c' 0 = Some y \<and>
      cell_pos y - cell_shift y = 8 - 2 * (8 - cell_pos y)"
    using pos_div_shift_sign [OF v(3) _ v(2), of 0 2] v(1) sdiv by (simp add: in_i32_def INT32_MAX_def INT32_MIN_def)
  moreover obtain c1 where "cells_pos_div 0 2 demo_cells = Some c1" "cells_view c1 = (cells_view demo_cells)[0 := spec_pos_div 2 (Cell 8 {} 0)]"
    by (rule cells_pos_div_spec [OF v(3) _ v(2), of 2])
      (use v(1) sdiv in \<open>auto simp: in_i32_def INT32_MAX_def INT32_MIN_def\<close>)
  then have "cells_pos_div 0 2 demo_cells = Some c1" "cell_view c1 0 = Some (Cell 4 {} 4)"
    using view_updated(2) [of c1 demo_cells 0] v(1) sdiv by (auto simp: spec_pos_div_def)
  ultimately show ?thesis by auto
qed

end
