(* ===== verification/Batch.thy ===== *)
theory Batch
  imports KV_Cells
begin

text \<open>
  \<open>llama_batch_allocr\<close> of \<open>src/src/llama-batch.cpp\<close> and \<open>llama-batch.h\<close>: sanitizing an input
  batch (\<open>init\<close>) and splitting it into ubatches (\<open>split_simple\<close>, \<open>split_equal\<close>, \<open>split_seq\<close>,
  \<open>ubatch_add\<close>, \<open>ubatch_reserve\<close>).

  Embedding vectors are rows of an arbitrary type \<open>'e\<close> (the code copies them and never looks
  inside), a null pointer is \<open>None\<close>, and the arrays of the C structure are lists. The arrays that
  the caller hands over must have the lengths documented for \<open>llama_batch\<close> in
  \<open>src/include/llama.h\<close>: that is the guard \<open>batch_arrays_ok\<close>, since reading past an array is
  undefined. Printing for \<open>LLAMA_BATCH_DEBUG\<close> is left out.
\<close>

section \<open>Data\<close>

record 'e llama_batch =
  b_n_tokens :: nat
  b_token :: "int list option"
  b_embd :: "'e list option"
  b_pos :: "int list option"
  b_n_seq_id :: "nat list option"
  b_seq_id :: "int list list option"
  b_logits :: "int list option"

record 'e llama_ubatch =
  ub_equal_seqs :: bool
  ub_n_tokens :: nat
  ub_n_seq_tokens :: nat
  ub_n_seqs :: nat
  ub_n_seqs_unq :: nat
  ub_n_pos :: nat
  ub_token :: "int list option"
  ub_embd :: "'e list option"
  ub_pos :: "int list"
  ub_n_seq_id :: "nat list"
  ub_seq_id :: "int list list"
  ub_seq_id_unq :: "nat list"
  ub_seq_idx :: "int list"
  ub_output :: "int list"

definition is_pos_2d :: "'e llama_ubatch \<Rightarrow> bool" where
  "is_pos_2d ub \<longleftrightarrow> ub_n_pos ub \<ge> 3"

text \<open>The value-initialised ubatch \<open>{}\<close> that the split functions return when they are done.\<close>

definition ubatch_none :: "'e llama_ubatch" where
  "ubatch_none = \<lparr>ub_equal_seqs = False, ub_n_tokens = 0, ub_n_seq_tokens = 0, ub_n_seqs = 0,
     ub_n_seqs_unq = 0, ub_n_pos = 0, ub_token = None, ub_embd = None, ub_pos = [],
     ub_n_seq_id = [], ub_seq_id = [], ub_seq_id_unq = [], ub_seq_idx = [], ub_output = []\<rparr>"

record 'e batch_allocr =
  ba_batch :: "'e llama_batch"
  ba_n_pos :: nat
  ba_n_seq_max :: nat
  ba_n_outputs :: nat
  ba_seq_id_unq :: "nat list"
  ba_seq_idx :: "int list"
  ba_has_cpl :: bool
  ba_seq_pos :: "nat \<Rightarrow> int set"
  ba_seq_cpl :: "nat \<Rightarrow> nat \<Rightarrow> bool"
  ba_seq_set :: "nat set list"
  ba_seq_set_map :: "nat set \<Rightarrow> nat list"
  ba_out_ids :: "nat list"
  ba_n_used :: nat
  ba_used :: "bool list"

definition batch_null :: "'e llama_batch" where
  "batch_null = \<lparr>b_n_tokens = 0, b_token = None, b_embd = None, b_pos = None, b_n_seq_id = None,
     b_seq_id = None, b_logits = None\<rparr>"

definition batch_get_one :: "int list \<Rightarrow> 'e llama_batch" where
  "batch_get_one tokens = batch_null\<lparr>b_n_tokens := length tokens, b_token := Some tokens\<rparr>"

definition allocr_new :: "nat \<Rightarrow> 'e batch_allocr" where
  "allocr_new n_pos = \<lparr>ba_batch = batch_null, ba_n_pos = n_pos, ba_n_seq_max = 0, ba_n_outputs = 0,
     ba_seq_id_unq = [], ba_seq_idx = replicate LLAMA_MAX_SEQ (- 1), ba_has_cpl = False,
     ba_seq_pos = (\<lambda>_. {}), ba_seq_cpl = (\<lambda>_ _. False), ba_seq_set = [],
     ba_seq_set_map = (\<lambda>_. []), ba_out_ids = [], ba_n_used = 0, ba_used = []\<rparr>"

section \<open>Reset\<close>

definition allocr_clear :: "'e batch_allocr \<Rightarrow> 'e batch_allocr" where
  "allocr_clear a = a\<lparr>ba_n_outputs := 0, ba_batch := batch_null, ba_seq_id_unq := [],
     ba_seq_pos := (\<lambda>_. {}), ba_seq_cpl := (\<lambda>_ _. False), ba_seq_set := [],
     ba_seq_set_map := (\<lambda>_. []), ba_seq_idx := replicate (length (ba_seq_idx a)) (- 1)\<rparr>"

definition get_n_tokens :: "'e batch_allocr \<Rightarrow> nat" where
  "get_n_tokens a = b_n_tokens (ba_batch a)"

definition split_reset :: "'e batch_allocr \<Rightarrow> 'e batch_allocr" where
  "split_reset a = a\<lparr>ba_out_ids := [], ba_n_used := 0, ba_used := replicate (get_n_tokens a) False\<rparr>"

definition allocr_seq_pos_min :: "'e batch_allocr \<Rightarrow> nat \<Rightarrow> int" where
  "allocr_seq_pos_min a s = (if ba_seq_pos a s = {} then - 1 else Min (ba_seq_pos a s))"

definition allocr_seq_pos_max :: "'e batch_allocr \<Rightarrow> nat \<Rightarrow> int" where
  "allocr_seq_pos_max a s = (if ba_seq_pos a s = {} then - 1 else Max (ba_seq_pos a s))"

section \<open>Sanitizing a batch\<close>

text \<open>The memory is consulted through its interface only: the least and greatest position it holds
  for a sequence, or nothing when there is no memory module.\<close>

type_synonym mem_bounds = "((nat \<Rightarrow> int) \<times> (nat \<Rightarrow> int)) option"

definition batch_arrays_ok :: "nat \<Rightarrow> 'e llama_batch \<Rightarrow> bool" where
  "batch_arrays_ok n_pos b \<longleftrightarrow>
     opt_all (\<lambda>t. b_n_tokens b \<le> length t) (b_token b) \<and>
     opt_all (\<lambda>e. b_n_tokens b \<le> length e) (b_embd b) \<and>
     opt_all (\<lambda>p. b_n_tokens b * (if b_token b = None then n_pos else 1) \<le> length p) (b_pos b) \<and>
     opt_all (\<lambda>n. b_n_tokens b \<le> length n) (b_n_seq_id b) \<and>
     (case b_seq_id b of
        Some q \<Rightarrow> b_n_tokens b \<le> length q \<and> b_n_seq_id b \<noteq> None \<and>
          list_all (\<lambda>i. q ! i \<noteq> [] \<and> the (b_n_seq_id b) ! i \<le> length (q ! i)) [0..<b_n_tokens b]
      | None \<Rightarrow> opt_all (\<lambda>n. list_all (\<lambda>i. n ! i \<le> 1) [0..<b_n_tokens b]) (b_n_seq_id b)) \<and>
     opt_all (\<lambda>l. b_n_tokens b \<le> length l) (b_logits b)"

definition init_valid_tokens :: "nat \<Rightarrow> 'e llama_batch \<Rightarrow> bool" where
  "init_valid_tokens n_vocab b =
     (case b_token b of None \<Rightarrow> True
      | Some t \<Rightarrow> list_all (\<lambda>i. \<not> (t ! i < 0 \<or> t ! i \<ge> int n_vocab)) [0..<b_n_tokens b])"

definition init_valid_seqs :: "nat \<Rightarrow> 'e llama_batch \<Rightarrow> bool" where
  "init_valid_seqs n_seq_max b =
     (case b_seq_id b of None \<Rightarrow> True
      | Some q \<Rightarrow> list_all (\<lambda>i. list_all (\<lambda>s. \<not> (q ! i ! s < 0 \<or> q ! i ! s \<ge> int n_seq_max))
          [0..<the (b_n_seq_id b) ! i]) [0..<b_n_tokens b])"

text \<open>Missing \<open>n_seq_id\<close>, \<open>seq_id\<close>, \<open>pos\<close> and \<open>logits\<close> are generated. The accumulator of the position
  loop is the next position \<open>p0\<close> of every sequence and the positions so far.\<close>

definition gen_seq_ids :: "'e llama_batch \<Rightarrow> 'e llama_batch" where
  "gen_seq_ids b = (let b1 = (if b_n_seq_id b = None
       then b\<lparr>b_n_seq_id := Some (replicate (b_n_tokens b) 1)\<rparr> else b)
     in if b_seq_id b1 = None then b1\<lparr>b_seq_id := Some (replicate (b_n_tokens b1) [0])\<rparr> else b1)"

text \<open>The starting positions \<open>p0\<close> are set for the sequences below \<open>n_seq_max\<close> only; a token without
  sequences whose first id is beyond would read an unset entry.\<close>

definition first_ids_ok :: "nat \<Rightarrow> 'e llama_batch \<Rightarrow> bool" where
  "first_ids_ok n_seq_max b \<longleftrightarrow> b_pos b \<noteq> None \<or>
     list_all (\<lambda>i. 0 \<le> the (b_seq_id b) ! i ! 0 \<and> the (b_seq_id b) ! i ! 0 < int n_seq_max) [0..<b_n_tokens b]"

definition gen_pos_step ::
  "int list list \<Rightarrow> nat list \<Rightarrow> nat \<Rightarrow> (nat \<Rightarrow> int) \<times> int list \<Rightarrow> (nat \<Rightarrow> int) \<times> int list" where
  "gen_pos_step q n i = (\<lambda>(p0, ps).
     let p = p0 (nat (q ! i ! 0));
         p0' = fold (\<lambda>s f. f(nat (q ! i ! s) := p + 1)) [0..<n ! i] p0
     in (p0', ps @ [p]))"

definition gen_pos :: "mem_bounds \<Rightarrow> 'e llama_batch \<Rightarrow> 'e llama_batch" where
  "gen_pos mem b = (case b_pos b of Some _ \<Rightarrow> b
     | None \<Rightarrow> (let p0 = (\<lambda>s. case mem of None \<Rightarrow> 0 | Some (_, mx) \<Rightarrow> mx s + 1);
                    (_, ps) = fold (gen_pos_step (the (b_seq_id b)) (the (b_n_seq_id b))) [0..<b_n_tokens b] (p0, [])
                in b\<lparr>b_pos := Some ps\<rparr>))"

definition gen_output :: "bool \<Rightarrow> 'e llama_batch \<Rightarrow> 'e llama_batch" where
  "gen_output output_all b = (case b_logits b of
       None \<Rightarrow> if output_all then b\<lparr>b_logits := Some (replicate (b_n_tokens b) 1)\<rparr>
         else b\<lparr>b_logits := Some ((replicate (b_n_tokens b) 0)[b_n_tokens b - 1 := 1])\<rparr>
     | Some l \<Rightarrow> if output_all \<and> (\<exists>i \<in> set [0..<b_n_tokens b]. l ! i = 0)
         then b\<lparr>b_logits := Some (replicate (b_n_tokens b) 1)\<rparr> else b)"

text \<open>The statistics: outputs, the positions of every sequence, coupled sequences, and the sequence
  set of every token.\<close>

definition stat_seq_step :: "'e llama_batch \<Rightarrow> nat \<Rightarrow> nat \<Rightarrow> 'e batch_allocr \<Rightarrow> 'e batch_allocr" where
  "stat_seq_step b i s a =
     (let s0 = nat (the (b_seq_id b) ! i ! 0);
          s1 = nat (the (b_seq_id b) ! i ! s);
          a1 = a\<lparr>ba_seq_pos := (ba_seq_pos a)(s1 := insert (the (b_pos b) ! i) (ba_seq_pos a s1))\<rparr>
      in if s > 0 then a1\<lparr>ba_seq_cpl := (ba_seq_cpl a1)(s1 := (ba_seq_cpl a1 s1)(s0 := True)), ba_has_cpl := True\<rparr>
         else a1)"

definition token_seq_set :: "'e llama_batch \<Rightarrow> nat \<Rightarrow> nat set" where
  "token_seq_set b i = set (map (\<lambda>s. nat (the (b_seq_id b) ! i ! s)) [0..<the (b_n_seq_id b) ! i])"

definition stat_set_step :: "'e llama_batch \<Rightarrow> nat \<Rightarrow> 'e batch_allocr \<Rightarrow> 'e batch_allocr" where
  "stat_set_step b i a =
     (let cur = token_seq_set b i
      in a\<lparr>ba_seq_set := ba_seq_set a @ [cur],
           ba_seq_set_map := (ba_seq_set_map a)(cur := ba_seq_set_map a cur @ [i])\<rparr>)"

definition stat_unq_step :: "nat set \<Rightarrow> nat \<Rightarrow> 'e batch_allocr \<Rightarrow> 'e batch_allocr" where
  "stat_unq_step unq s a = (if s \<in> unq
     then a\<lparr>ba_seq_idx := (ba_seq_idx a)[s := int (length (ba_seq_id_unq a))],
            ba_seq_id_unq := ba_seq_id_unq a @ [s]\<rparr>
     else a)"

definition init_stats :: "nat \<Rightarrow> 'e batch_allocr \<Rightarrow> 'e batch_allocr" where
  "init_stats n_seq_max a =
     (let b = ba_batch a; n = b_n_tokens b;
          a1 = a\<lparr>ba_n_seq_max := n_seq_max, ba_n_outputs := ba_n_outputs a +
                 length (filter (\<lambda>i. the (b_logits b) ! i \<noteq> 0) [0..<n]), ba_has_cpl := False\<rparr>;
          a2 = fold (\<lambda>i. fold (stat_seq_step b i) [0..<the (b_n_seq_id b) ! i]) [0..<n] a1;
          a3 = fold (stat_set_step b) [0..<n] a2;
          unq = \<Union> (set (map (token_seq_set b) [0..<n]))
      in fold (stat_unq_step unq) [0..<n_seq_max] a3)"

text \<open>The consistency checks. A failing check makes \<open>init\<close> return \<open>false\<close>.\<close>

definition check_positions_mrope :: "mem_bounds \<Rightarrow> 'e batch_allocr \<Rightarrow> nat \<Rightarrow> bool" where
  "check_positions_mrope mem a s =
     (ba_seq_pos a s = {} \<or>
      (let p0 = (case mem of None \<Rightarrow> - 1 | Some (_, mx) \<Rightarrow> mx s)
       in if b_token (ba_batch a) \<noteq> None then \<not> (p0 \<ge> 0 \<and> p0 \<ge> allocr_seq_pos_min a s)
          else \<not> (p0 \<ge> 0 \<and> p0 > allocr_seq_pos_min a s)))"

definition check_positions_seq :: "mem_bounds \<Rightarrow> 'e batch_allocr \<Rightarrow> nat \<Rightarrow> bool" where
  "check_positions_seq mem a s =
     (ba_seq_pos a s = {} \<or>
      (let p0 = (case mem of None \<Rightarrow> - 1 | Some (_, mx) \<Rightarrow> mx s)
       in \<not> (p0 \<ge> 0 \<and> allocr_seq_pos_min a s \<noteq> p0 + 1) \<and>
          \<not> (allocr_seq_pos_max a s - allocr_seq_pos_min a s + 1 > int (card (ba_seq_pos a s)))))"

definition check_coupled :: "mem_bounds \<Rightarrow> nat \<Rightarrow> 'e batch_allocr \<Rightarrow> bool" where
  "check_coupled mem n_seq_max a = (case mem of None \<Rightarrow> True
     | Some (mn, mx) \<Rightarrow> list_all (\<lambda>s0. list_all (\<lambda>s1.
         \<not> (ba_seq_cpl a s0 s1 \<and> (mn s0 \<noteq> mn s1 \<or> mx s0 \<noteq> mx s1))) [0..<n_seq_max]) [0..<n_seq_max])"

text \<open>The last check walks over the tokens with two arrays: the intersection of the sequence sets
  seen for every sequence, and a last position per sequence. The source initialises \<open>cur_seq_pos\<close>
  with -1 and compares against it, but never assigns it in the loop; the model does the same.\<close>

definition check_token_seq ::
  "'e batch_allocr \<Rightarrow> nat \<Rightarrow> nat \<Rightarrow> (nat \<Rightarrow> nat set) \<times> (nat \<Rightarrow> int) \<Rightarrow> ((nat \<Rightarrow> nat set) \<times> (nat \<Rightarrow> int)) option" where
  "check_token_seq a i s = (\<lambda>(cur_seq_set, cur_seq_pos).
     let b = ba_batch a;
         p = the (b_pos b) ! i;
         q = nat (the (b_seq_id b) ! i ! s);
         cur = cur_seq_set(q := cur_seq_set q \<inter> ba_seq_set a ! i)
     in if cur q = {} then None
        else if p < cur_seq_pos q then None
        else Some (cur, cur_seq_pos))"

definition check_subsets :: "'e batch_allocr \<Rightarrow> bool" where
  "check_subsets a =
     (mfold (\<lambda>i. mfold (check_token_seq a i) [0..<the (b_n_seq_id (ba_batch a)) ! i])
        [0..<b_n_tokens (ba_batch a)] (\<lambda>_. {..<LLAMA_MAX_SEQ}, \<lambda>_. - 1) \<noteq> None)"

definition allocr_init ::
  "'e llama_batch \<Rightarrow> nat \<Rightarrow> mem_bounds \<Rightarrow> nat \<Rightarrow> bool \<Rightarrow> 'e batch_allocr \<Rightarrow> (bool \<times> 'e batch_allocr) option" where
  "allocr_init inp n_vocab mem n_seq_max output_all a0 = do {
     require (batch_arrays_ok (ba_n_pos a0) inp);
     let a = (allocr_clear a0)\<lparr>ba_batch := inp\<rparr>;
     require (b_n_tokens inp > 0);
     if n_seq_max > LLAMA_MAX_SEQ then Some (False, a)
     else if \<not> init_valid_tokens n_vocab inp then Some (False, a)
     else if \<not> init_valid_seqs n_seq_max inp then Some (False, a)
     else do {
       require (first_ids_ok n_seq_max (gen_seq_ids inp));
       let b = gen_output output_all (gen_pos mem (gen_seq_ids inp));
       let a1 = init_stats n_seq_max (a\<lparr>ba_batch := b\<rparr>);
       if ba_n_pos a1 > 1 \<and> \<not> list_all (check_positions_mrope mem a1) [0..<n_seq_max] then Some (False, a1)
          else if \<not> ba_n_pos a1 > 1 \<and> \<not> list_all (check_positions_seq mem a1) [0..<n_seq_max] then Some (False, a1)
          else if \<not> check_coupled mem n_seq_max a1 then Some (False, a1)
          else if \<not> check_subsets a1 then Some (False, a1)
          else Some (True, split_reset a1) } }"

section \<open>Building a ubatch\<close>

definition ubatch_unq :: "nat set \<Rightarrow> nat \<Rightarrow> nat list" where
  "ubatch_unq unq n_seq_max = filter (\<lambda>s. s \<in> unq) [0..<n_seq_max]"

definition ubatch_seq_idx :: "nat list \<Rightarrow> int list" where
  "ubatch_seq_idx unq = fold (\<lambda>(k, s) xs. xs[s := int k]) (enumerate 0 unq) (replicate LLAMA_MAX_SEQ (- 1))"

text \<open>If the batch has tokens, one position per token is broadcast to all RoPE sections; a batch of
  embeddings brings one row of positions per section.\<close>

definition src_off :: "'e llama_batch \<Rightarrow> nat \<Rightarrow> nat" where
  "src_off b j = (if b_token b \<noteq> None then 0 else j * b_n_tokens b)"

definition ubatch_data :: "nat list \<Rightarrow> nat \<Rightarrow> bool \<Rightarrow> 'e batch_allocr \<Rightarrow> 'e llama_ubatch" where
  "ubatch_data idxs n_seqs equal_seqs a =
     (let b = ba_batch a;
          n_tokens = length idxs;
          unq = ubatch_unq (\<Union> (set (map (token_seq_set b) idxs))) (ba_n_seq_max a)
      in \<lparr>ub_equal_seqs = equal_seqs,
          ub_n_tokens = n_tokens,
          ub_n_seq_tokens = n_tokens div n_seqs,
          ub_n_seqs = n_seqs,
          ub_n_seqs_unq = length unq,
          ub_n_pos = ba_n_pos a,
          ub_token = map_option (\<lambda>t. map (\<lambda>i. t ! i) idxs) (b_token b),
          ub_embd = map_option (\<lambda>e. map (\<lambda>i. e ! i) idxs) (b_embd b),
          ub_pos = concat (map (\<lambda>j. map (\<lambda>i. the (b_pos b) ! (src_off b j + i)) idxs) [0..<ba_n_pos a]),
          ub_n_seq_id = map (\<lambda>i. the (b_n_seq_id b) ! i) idxs,
          ub_seq_id = map (\<lambda>i. take (the (b_n_seq_id b) ! i) (the (b_seq_id b) ! i)) idxs,
          ub_seq_id_unq = unq,
          ub_seq_idx = ubatch_seq_idx unq,
          ub_output = map (\<lambda>i. the (b_logits b) ! i) idxs\<rparr>)"

text \<open>Reading the batch or its positions out of range is undefined.\<close>

definition ubatch_add ::
  "nat list \<Rightarrow> nat \<Rightarrow> bool \<Rightarrow> 'e batch_allocr \<Rightarrow> ('e llama_ubatch \<times> 'e batch_allocr) option" where
  "ubatch_add idxs n_seqs equal_seqs a = do {
     let b = ba_batch a;
     require (n_seqs > 0 \<and> length idxs mod n_seqs = 0);
     require (list_all (\<lambda>i. i < b_n_tokens b \<and>
       list_all (\<lambda>j. src_off b j + i < length (the (b_pos b))) [0..<ba_n_pos a]) idxs);
     Some (ubatch_data idxs n_seqs equal_seqs a,
           a\<lparr>ba_out_ids := ba_out_ids a @ filter (\<lambda>i. the (b_logits b) ! i \<noteq> 0) idxs\<rparr>) }"

definition ubatch_reserve :: "nat \<Rightarrow> nat \<Rightarrow> 'e batch_allocr \<Rightarrow> ('e llama_ubatch \<times> 'e batch_allocr) option" where
  "ubatch_reserve n_seq_tokens n_seqs a = do {
     let n_tokens = n_seq_tokens * n_seqs;
     let a' = split_reset (allocr_clear a);
     require (n_seqs \<le> LLAMA_MAX_SEQ);
     Some (\<lparr>ub_equal_seqs = True, ub_n_tokens = n_tokens, ub_n_seq_tokens = n_seq_tokens,
            ub_n_seqs = n_seqs, ub_n_seqs_unq = n_seqs, ub_n_pos = ba_n_pos a',
            ub_token = Some (replicate n_tokens 0), ub_embd = None,
            ub_pos = replicate (n_tokens * ba_n_pos a') 0,
            ub_n_seq_id = replicate n_tokens 0, ub_seq_id = replicate n_tokens [],
            ub_seq_id_unq = [0..<n_seqs], ub_seq_idx = ubatch_seq_idx [0..<n_seqs],
            ub_output = replicate n_tokens 0\<rparr>, a') }"

section \<open>Splitting\<close>

definition first_unused :: "'e batch_allocr \<Rightarrow> nat" where
  "first_unused a = length (takeWhile (\<lambda>u. u) (ba_used a))"

text \<open>The body marks one token as used; the two break conditions of the source follow.\<close>

definition mark_used :: "nat \<Rightarrow> 'e batch_allocr \<Rightarrow> 'e batch_allocr" where
  "mark_used i a = a\<lparr>ba_used := (ba_used a)[i := True], ba_n_used := ba_n_used a + 1\<rparr>"

lemma length_used_mark [simp]: "length (ba_used (mark_used i a)) = length (ba_used a)"
  by (simp add: mark_used_def)

function split_simple_loop :: "nat \<Rightarrow> nat \<Rightarrow> nat list \<Rightarrow> 'e batch_allocr \<Rightarrow> nat list \<times> 'e batch_allocr" where
  "split_simple_loop n_ubatch cur_idx idxs a =
     (let idxs' = idxs @ [cur_idx]; a' = mark_used cur_idx a; cur' = cur_idx + 1
      in if cur' \<ge> length (ba_used a') then (idxs', a')
         else if length idxs' \<ge> n_ubatch then (idxs', a')
         else split_simple_loop n_ubatch cur' idxs' a')"
  by pat_completeness auto
termination
  by (relation "measure (\<lambda>(n, cur, idxs, a). length (ba_used a) - cur)") auto

definition split_simple :: "nat \<Rightarrow> 'e batch_allocr \<Rightarrow> ('e llama_ubatch \<times> 'e batch_allocr) option" where
  "split_simple n_ubatch a =
     (let cur_idx = first_unused a
      in if cur_idx \<ge> length (ba_used a) then Some (ubatch_none, a)
         else (let (idxs, a') = split_simple_loop n_ubatch cur_idx [] a
               in ubatch_add idxs (length idxs) False a'))"

text \<open>\<open>split_equal\<close>, first phase: the sequence sets that take part in this ubatch. The loop stops with
  more than \<open>n_ubatch\<close> sets.\<close>

fun equal_sets ::
  "nat \<Rightarrow> bool \<Rightarrow> 'e batch_allocr \<Rightarrow> nat list \<Rightarrow> nat set list \<Rightarrow> int \<Rightarrow> nat set list" where
  "equal_sets n_ubatch sequential a [] cur last_seq_id = cur"
| "equal_sets n_ubatch sequential a (i # is) cur last_seq_id =
     (if ba_used a ! i then equal_sets n_ubatch sequential a is cur last_seq_id
      else (let id0 = the (b_seq_id (ba_batch a)) ! i ! 0;
                add = list_all (\<lambda>c. c \<inter> ba_seq_set a ! i = {}) cur;
                add' = (if sequential then add \<and> (cur = [] \<or> id0 = last_seq_id + 1) else add)
            in if add' then
                 (let cur' = cur @ [ba_seq_set a ! i]
                  in if length cur' > n_ubatch then cur'
                     else equal_sets n_ubatch sequential a is cur' id0)
               else equal_sets n_ubatch sequential a is cur last_seq_id))"

text \<open>Second phase: the first unused token of every set. Reading past the list of a set would be
  undefined; it does not happen because every set was taken from an unused token.\<close>

definition first_unused_in :: "'e batch_allocr \<Rightarrow> nat list \<Rightarrow> nat option" where
  "first_unused_in a is = (let k = length (takeWhile (\<lambda>i. ba_used a ! i) is)
     in if k < length is then Some k else None)"

fun map_opt :: "('a \<Rightarrow> 'b option) \<Rightarrow> 'a list \<Rightarrow> 'b list option" where
  "map_opt f [] = Some []"
| "map_opt f (x # xs) = do { y \<leftarrow> f x; ys \<leftarrow> map_opt f xs; Some (y # ys) }"

text \<open>Third phase: one token of every set per round, as long as every set has one left and the ubatch
  has room for another round.\<close>

function equal_rounds ::
  "nat \<Rightarrow> nat list list \<Rightarrow> nat list \<Rightarrow> nat list list \<Rightarrow> 'e batch_allocr \<Rightarrow> nat list list \<times> 'e batch_allocr" where
  "equal_rounds n_ubatch tls cur idxs a =
     (if tls = [] \<or> list_ex (\<lambda>s. cur ! s \<ge> length (tls ! s)) [0..<length tls] then (idxs, a)
      else (let toks = map (\<lambda>s. tls ! s ! (cur ! s)) [0..<length tls];
                idxs' = map (\<lambda>s. idxs ! s @ [toks ! s]) [0..<length tls];
                a' = fold mark_used toks a;
                cur' = map (\<lambda>s. cur ! s + 1) [0..<length tls]
            in if (length (idxs' ! 0) + 1) * length tls > n_ubatch then (idxs', a')
               else equal_rounds n_ubatch tls cur' idxs' a'))"
  by pat_completeness auto
termination
proof (relation "measure (\<lambda>(n, tls, cur, idxs, a). length (tls ! 0) - cur ! 0)", goal_cases)
  case (2 n_ubatch tls cur idxs a toks idxs' a' cur')
  then have "tls \<noteq> []" "\<not> cur ! 0 \<ge> length (tls ! 0)"
    by (auto simp: list_ex_iff)
  moreover have "cur' ! 0 = cur ! 0 + 1"
    using 2 \<open>tls \<noteq> []\<close> by simp
  ultimately show ?case by simp
qed simp

definition split_equal :: "nat \<Rightarrow> bool \<Rightarrow> 'e batch_allocr \<Rightarrow> ('e llama_ubatch \<times> 'e batch_allocr) option" where
  "split_equal n_ubatch sequential a =
     (if sequential \<and> ba_has_cpl a then Some (ubatch_none, a)
      else (let sets = equal_sets n_ubatch sequential a [0..<get_n_tokens a] [] (- 1)
            in if sets = [] then Some (ubatch_none, a)
               else do {
                 let tls = map (ba_seq_set_map a) sets;
                 cur \<leftarrow> map_opt (first_unused_in a) tls;
                 let (idxs, a') = equal_rounds n_ubatch tls cur (replicate (length sets) []) a;
                 ubatch_add (concat idxs) (length sets) True a' }))"

text \<open>\<open>split_seq\<close>: after each token the next unused token whose sequence set is contained in the
  current one.\<close>

definition next_in_set :: "'e batch_allocr \<Rightarrow> nat set \<Rightarrow> nat \<Rightarrow> nat" where
  "next_in_set a S i = i + 1 + length (takeWhile (\<lambda>j. ba_used a ! j \<or> S \<inter> ba_seq_set a ! j \<noteq> ba_seq_set a ! j)
     [i + 1..<get_n_tokens a])"

lemma next_in_set_gt: "i < next_in_set a S i"
  by (simp add: next_in_set_def)

lemma get_n_tokens_mark [simp]: "get_n_tokens (mark_used i a) = get_n_tokens a"
  by (simp add: get_n_tokens_def mark_used_def)

function split_seq_loop ::
  "nat \<Rightarrow> nat set \<Rightarrow> nat \<Rightarrow> nat list \<Rightarrow> 'e batch_allocr \<Rightarrow> nat list \<times> 'e batch_allocr" where
  "split_seq_loop n_ubatch S cur_idx idxs a =
     (let idxs' = idxs @ [cur_idx]; a' = mark_used cur_idx a
      in if length idxs' \<ge> n_ubatch then (idxs', a')
         else (let cur' = next_in_set a' S cur_idx
               in if cur' \<ge> get_n_tokens a' then (idxs', a')
                  else split_seq_loop n_ubatch (ba_seq_set a' ! cur') cur' idxs' a'))"
  by pat_completeness auto
termination
proof (relation "measure (\<lambda>(n, S, cur, idxs, a). get_n_tokens a - cur)", goal_cases)
  case (2 n_ubatch S cur_idx idxs a idxs' a' cur')
  then have "cur_idx < cur'" "cur' < get_n_tokens a"
    by (auto simp: next_in_set_gt)
  then show ?case using 2 by simp
qed simp

definition split_seq :: "nat \<Rightarrow> 'e batch_allocr \<Rightarrow> ('e llama_ubatch \<times> 'e batch_allocr) option" where
  "split_seq n_ubatch a =
     (let cur_idx = first_unused a
      in if cur_idx \<ge> length (ba_used a) then Some (ubatch_none, a)
         else (let (idxs, a') = split_seq_loop n_ubatch (ba_seq_set a ! cur_idx) cur_idx [] a
               in ubatch_add idxs 1 True a'))"

text \<open>The driver loop of \<open>init_batch\<close> in every memory type: split until an empty ubatch comes back. It
  is a \<open>while (true)\<close> loop, so that it ends is a property of the split function.\<close>

partial_function (option) split_loop ::
  "('e batch_allocr \<Rightarrow> ('e llama_ubatch \<times> 'e batch_allocr) option) \<Rightarrow> 'e batch_allocr \<Rightarrow>
   ('e llama_ubatch list \<times> 'e batch_allocr) option" where
  "split_loop split a = do {
     r \<leftarrow> split a;
     if ub_n_tokens (fst r) = 0 then Some ([], snd r)
     else do {
       rest \<leftarrow> split_loop split (snd r);
       Some (fst r # fst rest, snd rest) } }"

declare split_loop.simps [code]

declare split_simple_loop.simps [simp del] equal_rounds.simps [simp del] split_seq_loop.simps [simp del]

section \<open>What \<open>init\<close> computes\<close>

text \<open>The state between \<open>init\<close> and the end of the splitting.\<close>

definition allocr_ok :: "'e batch_allocr \<Rightarrow> bool" where
  "allocr_ok a \<longleftrightarrow>
     length (ba_used a) = get_n_tokens a \<and>
     ba_n_used a = length (filter (\<lambda>u. u) (ba_used a)) \<and>
     (\<forall>i < get_n_tokens a. \<forall>j < ba_n_pos a. src_off (ba_batch a) j + i < length (the (b_pos (ba_batch a)))) \<and>
     ba_seq_set a = map (token_seq_set (ba_batch a)) [0..<get_n_tokens a] \<and>
     ba_seq_set_map a = (\<lambda>S. filter (\<lambda>i. token_seq_set (ba_batch a) i = S) [0..<get_n_tokens a])"

lemma fold_inv: "P s \<Longrightarrow> (\<And>x s. x \<in> set xs \<Longrightarrow> P s \<Longrightarrow> P (f x s)) \<Longrightarrow> P (fold f xs s)"
  by (induction xs arbitrary: s) auto

lemma stat_seq_frame:
  "ba_batch (stat_seq_step b i s a) = ba_batch a" "ba_n_pos (stat_seq_step b i s a) = ba_n_pos a"
  "ba_seq_set (stat_seq_step b i s a) = ba_seq_set a" "ba_seq_set_map (stat_seq_step b i s a) = ba_seq_set_map a"
  "ba_n_seq_max (stat_seq_step b i s a) = ba_n_seq_max a"
  by (simp_all add: stat_seq_step_def Let_def)

lemma stat_unq_frame:
  "ba_batch (stat_unq_step unq s a) = ba_batch a" "ba_n_pos (stat_unq_step unq s a) = ba_n_pos a"
  "ba_seq_set (stat_unq_step unq s a) = ba_seq_set a" "ba_seq_set_map (stat_unq_step unq s a) = ba_seq_set_map a"
  "ba_n_seq_max (stat_unq_step unq s a) = ba_n_seq_max a" "ba_seq_pos (stat_unq_step unq s a) = ba_seq_pos a"
  "ba_has_cpl (stat_unq_step unq s a) = ba_has_cpl a"
  by (simp_all add: stat_unq_step_def)

lemma stat_set_fold:
  "ba_seq_set (fold (stat_set_step b) is a) = ba_seq_set a @ map (token_seq_set b) is"
  "ba_seq_set_map (fold (stat_set_step b) is a) S = ba_seq_set_map a S @ filter (\<lambda>i. token_seq_set b i = S) is"
  "ba_batch (fold (stat_set_step b) is a) = ba_batch a" "ba_n_pos (fold (stat_set_step b) is a) = ba_n_pos a"
  "ba_seq_pos (fold (stat_set_step b) is a) = ba_seq_pos a"
  "ba_has_cpl (fold (stat_set_step b) is a) = ba_has_cpl a"
  "ba_n_seq_max (fold (stat_set_step b) is a) = ba_n_seq_max a"
  by (induction "is" arbitrary: a) (simp_all add: stat_set_step_def Let_def)

lemma fold_frame:
  assumes "\<And>x s. sel (f x s) = sel s"
  shows "sel (fold f xs s) = sel s"
  using assms by (induction xs arbitrary: s) simp_all

lemma stat_seq_fold_frame:
  "ba_batch (fold (\<lambda>i. fold (stat_seq_step b i) (g i)) is a) = ba_batch a"
  "ba_n_pos (fold (\<lambda>i. fold (stat_seq_step b i) (g i)) is a) = ba_n_pos a"
  "ba_seq_set (fold (\<lambda>i. fold (stat_seq_step b i) (g i)) is a) = ba_seq_set a"
  "ba_seq_set_map (fold (\<lambda>i. fold (stat_seq_step b i) (g i)) is a) = ba_seq_set_map a"
  "ba_n_seq_max (fold (\<lambda>i. fold (stat_seq_step b i) (g i)) is a) = ba_n_seq_max a"
  by (rule fold_frame, rule fold_frame, rule stat_seq_frame)+

lemma stat_seq_pos_fold:
  "ba_seq_pos (fold (stat_seq_step b i) ss a) q =
     ba_seq_pos a q \<union> (if q \<in> set (map (\<lambda>s. nat (the (b_seq_id b) ! i ! s)) ss) then {the (b_pos b) ! i} else {})"
  by (induction ss arbitrary: a) (auto simp: stat_seq_step_def Let_def)

lemma stat_seq_pos_fold2:
  "ba_seq_pos (fold (\<lambda>i. fold (stat_seq_step b i) [0..<the (b_n_seq_id b) ! i]) is a) q =
     ba_seq_pos a q \<union> {the (b_pos b) ! i | i. i \<in> set is \<and> q \<in> token_seq_set b i}"
proof (induction "is" arbitrary: a)
  case (Cons i "is")
  then show ?case
    using stat_seq_pos_fold [of b i "[0..<the (b_n_seq_id b) ! i]" a q]
    by (auto simp: token_seq_set_def)
qed simp

lemma stat_cpl_fold:
  "ba_has_cpl (fold (stat_seq_step b i) ss a) \<longleftrightarrow> ba_has_cpl a \<or> (\<exists>s \<in> set ss. 0 < s)"
  by (induction ss arbitrary: a) (auto simp: stat_seq_step_def Let_def)

lemma stat_cpl_fold2:
  "ba_has_cpl (fold (\<lambda>i. fold (stat_seq_step b i) [0..<the (b_n_seq_id b) ! i]) is a) \<longleftrightarrow>
     ba_has_cpl a \<or> (\<exists>i \<in> set is. 1 < the (b_n_seq_id b) ! i)"
proof (induction "is" arbitrary: a)
  case (Cons i "is")
  have "(\<exists>s \<in> set [0..<the (b_n_seq_id b) ! i]. 0 < s) \<longleftrightarrow> 1 < the (b_n_seq_id b) ! i"
    by (auto intro: bexI [of _ 1])
  then show ?case
    using Cons by (simp add: stat_cpl_fold)
qed simp

lemma init_stats_sel:
  "ba_batch (init_stats m a) = ba_batch a" "ba_n_pos (init_stats m a) = ba_n_pos a"
  "ba_n_seq_max (init_stats m a) = m"
  "ba_seq_set (init_stats m a) = ba_seq_set a @ map (token_seq_set (ba_batch a)) [0..<get_n_tokens a]"
  "ba_seq_set_map (init_stats m a) S = ba_seq_set_map a S @
     filter (\<lambda>i. token_seq_set (ba_batch a) i = S) [0..<get_n_tokens a]"
  "ba_seq_pos (init_stats m a) q = ba_seq_pos a q \<union>
     {the (b_pos (ba_batch a)) ! i | i. i < get_n_tokens a \<and> q \<in> token_seq_set (ba_batch a) i}"
  "ba_has_cpl (init_stats m a) \<longleftrightarrow> (\<exists>i < get_n_tokens a. 1 < the (b_n_seq_id (ba_batch a)) ! i)"
  by (simp_all add: init_stats_def Let_def fold_frame [of _ "stat_unq_step _"] stat_unq_frame
      stat_set_fold stat_seq_fold_frame stat_seq_pos_fold2 stat_cpl_fold2 get_n_tokens_def Bex_def)

lemma gen_frame:
  "b_n_tokens (gen_seq_ids b) = b_n_tokens b" "b_token (gen_seq_ids b) = b_token b"
  "b_pos (gen_seq_ids b) = b_pos b"
  "b_n_tokens (gen_pos mem b) = b_n_tokens b" "b_token (gen_pos mem b) = b_token b"
  "b_n_seq_id (gen_pos mem b) = b_n_seq_id b" "b_seq_id (gen_pos mem b) = b_seq_id b"
  "b_n_tokens (gen_output all b) = b_n_tokens b" "b_token (gen_output all b) = b_token b"
  "b_n_seq_id (gen_output all b) = b_n_seq_id b" "b_seq_id (gen_output all b) = b_seq_id b"
  "b_pos (gen_output all b) = b_pos b"
  by (simp_all add: gen_seq_ids_def gen_pos_def gen_output_def Let_def split: option.split prod.split)

lemma length_gen_pos_fold:
  "length (snd (fold (gen_pos_step q n) is (p0, ps))) = length ps + length is"
  by (induction "is" arbitrary: p0 ps) (simp_all add: gen_pos_step_def Let_def)

lemma length_gen_pos:
  assumes "b_pos b = None"
  shows "length (the (b_pos (gen_pos mem b))) = b_n_tokens b"
  using assms
    length_gen_pos_fold [of "the (b_seq_id b)" "the (b_n_seq_id b)" "[0..<b_n_tokens b]"
      "\<lambda>s. case mem of None \<Rightarrow> 0 | Some (_, mx) \<Rightarrow> mx s + 1" "[]"]
  by (auto simp: gen_pos_def Let_def split: prod.split)

lemma split_reset_sel:
  "ba_batch (split_reset a) = ba_batch a" "ba_n_pos (split_reset a) = ba_n_pos a"
  "ba_seq_set (split_reset a) = ba_seq_set a" "ba_seq_set_map (split_reset a) = ba_seq_set_map a"
  "ba_n_seq_max (split_reset a) = ba_n_seq_max a" "ba_has_cpl (split_reset a) = ba_has_cpl a"
  "ba_used (split_reset a) = replicate (get_n_tokens a) False" "ba_n_used (split_reset a) = 0"
  "ba_out_ids (split_reset a) = []" "get_n_tokens (split_reset a) = get_n_tokens a"
  by (simp_all add: split_reset_def get_n_tokens_def)

text \<open>The completed batch that an accepted \<open>init\<close> leaves behind.\<close>

definition init_batch_of :: "mem_bounds \<Rightarrow> bool \<Rightarrow> 'e llama_batch \<Rightarrow> 'e llama_batch" where
  "init_batch_of mem output_all inp = gen_output output_all (gen_pos mem (gen_seq_ids inp))"

lemma allocr_init_accept:
  assumes "allocr_init inp n_vocab mem n_seq_max output_all a0 = Some (True, a)"
  obtains a1 where "a1 = init_stats n_seq_max ((allocr_clear a0)\<lparr>ba_batch := init_batch_of mem output_all inp\<rparr>)"
    "a = split_reset a1" "batch_arrays_ok (ba_n_pos a0) inp" "0 < b_n_tokens inp" "n_seq_max \<le> LLAMA_MAX_SEQ"
    "init_valid_seqs n_seq_max inp" "init_valid_tokens n_vocab inp"
    "\<not> ba_n_pos a1 > 1 \<longrightarrow> list_all (check_positions_seq mem a1) [0..<n_seq_max]"
    "check_subsets a1"
  using assms
  by (auto simp: allocr_init_def bind_Some_iff Let_def init_batch_of_def not_less split: if_splits)

lemma allocr_init_ok:
  assumes init: "allocr_init inp n_vocab mem n_seq_max output_all a0 = Some (True, a)"
    and pos: "b_pos inp \<noteq> None \<or> b_token inp \<noteq> None \<or> ba_n_pos a0 \<le> 1"
  shows "allocr_ok a" "ba_batch a = init_batch_of mem output_all inp" "get_n_tokens a = b_n_tokens inp"
    "ba_n_used a = 0" "ba_out_ids a = []" "ba_used a = replicate (b_n_tokens inp) False"
    "ba_n_pos a = ba_n_pos a0"
proof -
  obtain a1 where a1: "a1 = init_stats n_seq_max ((allocr_clear a0)\<lparr>ba_batch := init_batch_of mem output_all inp\<rparr>)"
    and a: "a = split_reset a1" and arr: "batch_arrays_ok (ba_n_pos a0) inp"
    using init by (rule allocr_init_accept)
  let ?b = "init_batch_of mem output_all inp"
  have n: "b_n_tokens ?b = b_n_tokens inp" and tok: "b_token ?b = b_token inp"
    by (simp_all add: init_batch_of_def gen_frame)
  show batch: "ba_batch a = ?b" and npos: "ba_n_pos a = ba_n_pos a0"
    by (simp_all add: a a1 split_reset_sel init_stats_sel allocr_clear_def)
  show nt: "get_n_tokens a = b_n_tokens inp"
    using batch n by (simp add: get_n_tokens_def)
  show used: "ba_n_used a = 0" "ba_out_ids a = []" "ba_used a = replicate (b_n_tokens inp) False"
    using nt by (simp_all add: a split_reset_sel)
  have "src_off ?b j + i < length (the (b_pos ?b))" if "i < b_n_tokens inp" "j < ba_n_pos a0" for i j
  proof (cases "b_pos inp")
    case None
    then have "length (the (b_pos ?b)) = b_n_tokens inp"
      by (simp add: init_batch_of_def gen_frame length_gen_pos)
    moreover have "src_off ?b j = 0"
      using pos None that by (auto simp: src_off_def tok)
    ultimately show ?thesis using that by simp
  next
    case (Some p)
    then have "b_pos ?b = Some p"
      by (simp add: init_batch_of_def gen_frame gen_pos_def)
    moreover have len: "b_n_tokens inp * (if b_token inp = None then ba_n_pos a0 else 1) \<le> length p"
      using arr Some by (simp add: batch_arrays_ok_def)
    moreover have "j * b_n_tokens inp + i < ba_n_pos a0 * b_n_tokens inp"
      using mult_le_mono1 [of "Suc j" "ba_n_pos a0" "b_n_tokens inp"] that by simp
    ultimately show ?thesis
      using that by (auto simp: src_off_def tok n mult.commute split: if_splits)
  qed
  then show "allocr_ok a"
    using used batch npos nt n
    by (auto simp: allocr_ok_def a a1 split_reset_sel init_stats_sel allocr_clear_def get_n_tokens_def fun_eq_iff)
qed

section \<open>The contract of a split function\<close>

text \<open>\<open>took a idxs a'\<close>: the call consumed exactly the tokens \<open>idxs\<close>, none of them consumed before.
  \<open>ub_carries b idxs ub\<close>: the ubatch holds the data of those tokens, in that order.\<close>

definition took :: "'e batch_allocr \<Rightarrow> nat list \<Rightarrow> 'e batch_allocr \<Rightarrow> bool" where
  "took a idxs a' \<longleftrightarrow>
     a' = a\<lparr>ba_used := fold (\<lambda>i us. us[i := True]) idxs (ba_used a), ba_n_used := ba_n_used a + length idxs,
            ba_out_ids := ba_out_ids a @ filter (\<lambda>i. the (b_logits (ba_batch a)) ! i \<noteq> 0) idxs\<rparr> \<and>
     distinct idxs \<and> (\<forall>i \<in> set idxs. i < get_n_tokens a \<and> \<not> ba_used a ! i)"

definition ub_carries :: "nat \<Rightarrow> 'e llama_batch \<Rightarrow> nat list \<Rightarrow> 'e llama_ubatch \<Rightarrow> bool" where
  "ub_carries n_pos b idxs ub \<longleftrightarrow>
     ub_n_tokens ub = length idxs \<and>
     ub_n_tokens ub = ub_n_seq_tokens ub * ub_n_seqs ub \<and>
     ub_token ub = map_option (\<lambda>t. map ((!) t) idxs) (b_token b) \<and>
     ub_embd ub = map_option (\<lambda>e. map ((!) e) idxs) (b_embd b) \<and>
     ub_pos ub = concat (map (\<lambda>j. map (\<lambda>i. the (b_pos b) ! (src_off b j + i)) idxs) [0..<n_pos]) \<and>
     ub_n_seq_id ub = map ((!) (the (b_n_seq_id b))) idxs \<and>
     ub_seq_id ub = map (\<lambda>i. take (the (b_n_seq_id b) ! i) (the (b_seq_id b) ! i)) idxs \<and>
     ub_output ub = map ((!) (the (b_logits b))) idxs"

lemma ubatch_add_spec:
  assumes "allocr_ok a" "\<And>i. i \<in> set idxs \<Longrightarrow> i < get_n_tokens a" "0 < n_seqs" "length idxs mod n_seqs = 0"
    "ba_batch a1 = ba_batch a" "ba_n_pos a1 = ba_n_pos a"
  obtains ub where "ubatch_add idxs n_seqs eq a1 = Some (ub,
      a1\<lparr>ba_out_ids := ba_out_ids a1 @ filter (\<lambda>i. the (b_logits (ba_batch a)) ! i \<noteq> 0) idxs\<rparr>)"
    "ub_carries (ba_n_pos a) (ba_batch a) idxs ub" "ub_n_seqs ub = n_seqs" "ub_equal_seqs ub = eq"
    "ub_n_seqs_unq ub = length (ub_seq_id_unq ub)"
    "ub_seq_id_unq ub = ubatch_unq (\<Union> (set (map (token_seq_set (ba_batch a)) idxs))) (ba_n_seq_max a1)"
proof -
  have "list_all (\<lambda>i. i < b_n_tokens (ba_batch a) \<and> list_all (\<lambda>j. src_off (ba_batch a) j + i <
      length (the (b_pos (ba_batch a)))) [0..<ba_n_pos a]) idxs"
    using assms(1,2) by (auto simp: list_all_iff allocr_ok_def get_n_tokens_def)
  then have add: "ubatch_add idxs n_seqs eq a1 = Some (ubatch_data idxs n_seqs eq a1,
      a1\<lparr>ba_out_ids := ba_out_ids a1 @ filter (\<lambda>i. the (b_logits (ba_batch a)) ! i \<noteq> 0) idxs\<rparr>)"
    using assms(3-6) by (simp add: ubatch_add_def)
  have "length idxs = length idxs div n_seqs * n_seqs"
    using assms(4) by (metis add.right_neutral div_mult_mod_eq)
  then show thesis
    using assms(5,6) by (intro that [OF add]) (auto simp: ub_carries_def ubatch_data_def Let_def)
qed

lemma length_fold_mark [simp]: "length (fold (\<lambda>i us. us[i := True]) idxs us) = length us"
  by (induction idxs arbitrary: us) simp_all

lemma nth_update_True: "j < length us \<Longrightarrow> us[i := True] ! j \<longleftrightarrow> us ! j \<or> j = i"
  by (cases "i < length us") (auto simp: nth_list_update list_update_beyond)

lemma nth_fold_mark:
  "j < length us \<Longrightarrow> fold (\<lambda>i us. us[i := True]) idxs us ! j \<longleftrightarrow> us ! j \<or> j \<in> set idxs"
  by (induction idxs arbitrary: us) (auto simp: nth_update_True)

lemma filter_update_True:
  assumes "i < length us" "\<not> us ! i"
  shows "length (filter (\<lambda>u. u) (us[i := True])) = Suc (length (filter (\<lambda>u. u) us))"
proof -
  have us: "us = take i us @ us ! i # drop (Suc i) us"
    using assms(1) by (rule id_take_nth_drop)
  have upd: "us[i := True] = take i us @ True # drop (Suc i) us"
    using assms(1) by (rule upd_conv_take_nth_drop)
  show ?thesis
    unfolding upd by (subst (2) us) (simp add: assms(2))
qed

lemma filter_fold_mark:
  assumes "distinct idxs" "\<forall>i \<in> set idxs. i < length us \<and> \<not> us ! i"
  shows "length (filter (\<lambda>u. u) (fold (\<lambda>i us. us[i := True]) idxs us)) = length (filter (\<lambda>u. u) us) + length idxs"
  using assms
proof (induction idxs arbitrary: us)
  case (Cons i idxs)
  have "\<forall>j \<in> set idxs. j < length (us[i := True]) \<and> \<not> us[i := True] ! j"
    using Cons.prems by (auto simp: nth_update_True)
  then show ?case
    using Cons by (simp add: filter_update_True)
qed simp

lemma took_ok:
  assumes "allocr_ok a" "took a idxs a'"
  shows "allocr_ok a'" "get_n_tokens a' = get_n_tokens a" "ba_batch a' = ba_batch a" "ba_n_pos a' = ba_n_pos a"
  using assms filter_fold_mark [of idxs "ba_used a"]
  by (auto simp: took_def allocr_ok_def get_n_tokens_def)

lemma fold_mark_used:
  "fold mark_used idxs a = a\<lparr>ba_used := fold (\<lambda>i us. us[i := True]) idxs (ba_used a), ba_n_used := ba_n_used a + length idxs\<rparr>"
  by (induction idxs arbitrary: a) (simp_all add: mark_used_def)

lemma tookI:
  assumes "distinct idxs" "\<And>i. i \<in> set idxs \<Longrightarrow> i < get_n_tokens a \<and> \<not> ba_used a ! i"
  shows "took a idxs ((fold mark_used idxs a)\<lparr>ba_out_ids := ba_out_ids (fold mark_used idxs a) @
     filter (\<lambda>i. the (b_logits (ba_batch a)) ! i \<noteq> 0) idxs\<rparr>)"
  using assms by (simp add: took_def fold_mark_used)

lemma used_all_iff:
  assumes "allocr_ok a"
  shows "(\<forall>i < get_n_tokens a. ba_used a ! i) \<longleftrightarrow> ba_n_used a = get_n_tokens a"
proof -
  have "length (filter (\<lambda>u. u) us) = length us \<longleftrightarrow> (\<forall>i < length us. us ! i)" for us
    by (metis (mono_tags) filter_id_conv length_filter_less less_irrefl nth_mem in_set_conv_nth)
  from this [of "ba_used a"] show ?thesis
    using assms by (auto simp: allocr_ok_def)
qed

lemma n_used_le: "allocr_ok a \<Longrightarrow> ba_n_used a \<le> get_n_tokens a"
  by (metis allocr_ok_def length_filter_le)

lemma took_trans:
  assumes "allocr_ok a" "took a xs a1" "took a1 ys a'"
  shows "took a (xs @ ys) a'"
proof -
  have "i < get_n_tokens a \<and> \<not> ba_used a ! i \<and> i \<notin> set xs" if "i \<in> set ys" for i
  proof -
    have "i < get_n_tokens a" "\<not> fold (\<lambda>i us. us[i := True]) xs (ba_used a) ! i"
      using that assms(2,3) by (auto simp: took_def get_n_tokens_def)
    then show ?thesis
      using assms(1) nth_fold_mark [of i "ba_used a" xs] by (simp add: allocr_ok_def)
  qed
  then show ?thesis
    using assms(2,3) by (auto simp: took_def)
qed

text \<open>A run of splits: the state each ubatch was cut from satisfies \<open>P\<close> with it.\<close>

fun split_chain ::
  "('e batch_allocr \<Rightarrow> nat list \<Rightarrow> 'e llama_ubatch \<Rightarrow> bool) \<Rightarrow> 'e batch_allocr \<Rightarrow> nat list list \<Rightarrow>
   'e llama_ubatch list \<Rightarrow> 'e batch_allocr \<Rightarrow> bool" where
  "split_chain P a [] [] a' \<longleftrightarrow> a' = a"
| "split_chain P a (idxs # idxss) (ub # ubs) a' \<longleftrightarrow>
     (\<exists>a1. idxs \<noteq> [] \<and> took a idxs a1 \<and> ub_carries (ba_n_pos a) (ba_batch a) idxs ub \<and> P a idxs ub \<and>
        split_chain P a1 idxss ubs a')"
| "split_chain P a _ _ a' \<longleftrightarrow> False"

lemma split_chain_took:
  assumes "split_chain P a idxss ubs a'" "allocr_ok a"
  shows "took a (concat idxss) a' \<and> [] \<notin> set idxss \<and> list_all2 (ub_carries (ba_n_pos a) (ba_batch a)) idxss ubs"
  using assms
proof (induction P a idxss ubs a' rule: split_chain.induct)
  case (2 P a idxs idxss ub ubs a')
  then obtain a1 where s: "idxs \<noteq> []" "took a idxs a1" "ub_carries (ba_n_pos a) (ba_batch a) idxs ub"
    "split_chain P a1 idxss ubs a'"
    by auto
  note ok = took_ok [OF "2.prems"(2) s(2)]
  show ?case
    using "2.IH" [OF s(4) ok(1)] s took_trans [OF "2.prems"(2) s(2)] ok(3,4) by auto
qed (auto simp: took_def)

lemma split_chain_n_used:
  "split_chain P a idxss ubs a' \<Longrightarrow> ba_n_used a' = ba_n_used a + length (concat idxss)"
  by (induction P a idxss ubs a' rule: split_chain.induct) (fastforce simp: took_def)+

lemma split_chain_shape:
  assumes "split_chain P a idxss ubs a'" "\<And>a xs a1. took a xs a1 \<Longrightarrow> P a1 = P a"
  shows "list_all2 (P a) idxss ubs"
  using assms by (induction P a idxss ubs a' rule: split_chain.induct) (auto, metis)

locale batch_splitter =
  fixes split :: "'e batch_allocr \<Rightarrow> ('e llama_ubatch \<times> 'e batch_allocr) option"
    and ready :: "'e batch_allocr \<Rightarrow> bool"
    and shape :: "'e batch_allocr \<Rightarrow> nat list \<Rightarrow> 'e llama_ubatch \<Rightarrow> bool"
  assumes split_takes: "allocr_ok a \<Longrightarrow> ready a \<Longrightarrow> ba_n_used a < get_n_tokens a \<Longrightarrow>
      \<exists>ub a' idxs. split a = Some (ub, a') \<and> idxs \<noteq> [] \<and> took a idxs a' \<and>
        ub_carries (ba_n_pos a) (ba_batch a) idxs ub \<and> ready a' \<and> shape a idxs ub"
    and split_done: "allocr_ok a \<Longrightarrow> ready a \<Longrightarrow> ba_n_used a = get_n_tokens a \<Longrightarrow> split a = Some (ubatch_none, a)"
begin

text \<open>The driver loop ends, and the ubatches partition the tokens that were left.\<close>

lemma split_loop_chain:
  assumes "allocr_ok a" "ready a"
  shows "\<exists>ubs a' idxss. split_loop split a = Some (ubs, a') \<and> split_chain shape a idxss ubs a' \<and>
    ba_n_used a' = get_n_tokens a"
  using assms
proof (induction "get_n_tokens a - ba_n_used a" arbitrary: a rule: less_induct)
  case less
  show ?case
  proof (cases "ba_n_used a = get_n_tokens a")
    case True
    then have "split_loop split a = Some ([], a)"
      using split_done [OF less.prems] by (subst split_loop.simps) (simp add: ubatch_none_def)
    then show ?thesis
      using True by (intro exI [of _ "[]"] exI [of _ a]) auto
  next
    case False
    then have lt: "ba_n_used a < get_n_tokens a"
      using n_used_le [OF less.prems(1)] by simp
    obtain ub a1 idxs where s: "split a = Some (ub, a1)" "idxs \<noteq> []" "took a idxs a1"
      "ub_carries (ba_n_pos a) (ba_batch a) idxs ub" "ready a1" "shape a idxs ub"
      using split_takes [OF less.prems lt] by blast
    note ok1 = took_ok [OF less.prems(1) s(3)]
    have "ba_n_used a1 = ba_n_used a + length idxs"
      using s(3) by (simp add: took_def)
    then have "get_n_tokens a1 - ba_n_used a1 < get_n_tokens a - ba_n_used a"
      using s(2) lt ok1(2) by (cases idxs) auto
    from less.hyps [OF this ok1(1) s(5)]
    obtain ubs a' idxss where r: "split_loop split a1 = Some (ubs, a')" "split_chain shape a1 idxss ubs a'"
      "ba_n_used a' = get_n_tokens a"
      using ok1(2) by auto
    have "ub_n_tokens ub \<noteq> 0"
      using s(2,4) by (simp add: ub_carries_def)
    then have "split_loop split a = Some (ub # ubs, a')"
      using s(1) r(1) by (subst split_loop.simps) simp
    then show ?thesis
      using r(2,3) s(2,3,4,6)
      by (intro exI [of _ "ub # ubs"] exI [of _ a'] exI [of _ "idxs # idxss"]) auto
  qed
qed

lemma split_loop_partitions:
  assumes "allocr_ok a" "ready a" "ba_n_used a = 0"
  shows "\<exists>ubs a' idxss. split_loop split a = Some (ubs, a') \<and> split_chain shape a idxss ubs a' \<and>
    mset (concat idxss) = mset [0..<get_n_tokens a] \<and> [] \<notin> set idxss \<and>
    list_all2 (ub_carries (ba_n_pos a) (ba_batch a)) idxss ubs \<and>
    ba_out_ids a' = ba_out_ids a @ filter (\<lambda>i. the (b_logits (ba_batch a)) ! i \<noteq> 0) (concat idxss)"
proof -
  obtain ubs a' idxss where r: "split_loop split a = Some (ubs, a')" "split_chain shape a idxss ubs a'"
    "ba_n_used a' = get_n_tokens a"
    using split_loop_chain [OF assms(1,2)] by blast
  note t = split_chain_took [OF r(2) assms(1)]
  have "length (concat idxss) = get_n_tokens a"
    using r(3) t assms(3) by (auto simp: took_def)
  then have card: "card (set (concat idxss)) = get_n_tokens a"
    using t by (metis distinct_card took_def)
  have "set (concat idxss) = {0..<get_n_tokens a}"
    using t card by (intro card_subset_eq) (auto simp: took_def)
  then have "mset (concat idxss) = mset [0..<get_n_tokens a]"
    using t by (intro set_eq_iff_mset_eq_distinct [THEN iffD1]) (auto simp: took_def)
  then show ?thesis
    using r(1,2) t by (auto simp: took_def intro!: exI)
qed

end

section \<open>The three split functions satisfy it\<close>

lemma first_unused_spec:
  assumes "allocr_ok a" "ba_n_used a < get_n_tokens a"
  shows "first_unused a < length (ba_used a)" "\<not> ba_used a ! first_unused a"
    "\<And>i. i < first_unused a \<Longrightarrow> ba_used a ! i"
proof -
  have "\<exists>i < length (ba_used a). \<not> ba_used a ! i"
    using assms used_all_iff [OF assms(1)] by (auto simp: allocr_ok_def)
  then have "takeWhile (\<lambda>u. u) (ba_used a) \<noteq> ba_used a"
    by (metis nth_mem takeWhile_eq_all_conv)
  then show lt: "first_unused a < length (ba_used a)"
    unfolding first_unused_def by (metis length_takeWhile_le le_neq_implies_less takeWhile_eq_take take_all)
  then show "\<not> ba_used a ! first_unused a"
    unfolding first_unused_def by (rule nth_length_takeWhile)
  show "\<And>i. i < first_unused a \<Longrightarrow> ba_used a ! i"
    unfolding first_unused_def by (metis nth_mem set_takeWhileD takeWhile_nth)
qed

lemma first_unused_done:
  assumes "allocr_ok a" "ba_n_used a = get_n_tokens a"
  shows "length (ba_used a) \<le> first_unused a"
proof -
  have "\<forall>u \<in> set (ba_used a). u"
    using assms used_all_iff [OF assms(1)] by (metis allocr_ok_def in_set_conv_nth)
  then show ?thesis
    by (simp add: first_unused_def takeWhile_eq_all_conv [THEN iffD2])
qed

lemma split_simple_loop_eq:
  assumes "cur < length (ba_used a)"
  shows "split_simple_loop n cur idxs a =
    (let k = min (length (ba_used a)) (max (cur + 1) (cur + n - length idxs)) in
     (idxs @ [cur..<k], fold mark_used [cur..<k] a))"
  using assms
proof (induction n cur idxs a rule: split_simple_loop.induct)
  case (1 n cur idxs a)
  let ?a = "mark_used cur a"
  show ?case
  proof (cases "cur + 1 \<ge> length (ba_used a) \<or> length idxs + 1 \<ge> n")
    case True
    then have "min (length (ba_used a)) (max (cur + 1) (cur + n - length idxs)) = Suc cur"
      using "1.prems" by auto
    then show ?thesis
      using True by (subst split_simple_loop.simps) (auto simp: Let_def)
  next
    case False
    define k where "k = min (length (ba_used a)) (cur + n - length idxs)"
    have k: "min (length (ba_used ?a)) (max (cur + 1 + 1) (cur + 1 + n - length (idxs @ [cur]))) = k"
      "min (length (ba_used a)) (max (cur + 1) (cur + n - length idxs)) = k" "cur < k"
      using False by (auto simp: k_def)
    have "split_simple_loop n cur idxs a = split_simple_loop n (cur + 1) (idxs @ [cur]) ?a"
      using False by (subst split_simple_loop.simps) (simp add: Let_def)
    also have "\<dots> = (idxs @ [cur] @ [cur + 1..<k], fold mark_used [cur + 1..<k] ?a)"
      using "1.IH" [of "idxs @ [cur]" ?a "cur + 1"] False unfolding k by (simp add: Let_def)
    also have "\<dots> = (idxs @ [cur..<k], fold mark_used [cur..<k] a)"
      using k(3) by (simp add: upt_conv_Cons)
    finally show ?thesis
      unfolding k by (simp add: Let_def)
  qed
qed

text \<open>The consecutive run that \<open>split_simple\<close> takes.\<close>

lemma mark_batch [simp]:
  "ba_batch (fold mark_used idxs a) = ba_batch a" "ba_n_pos (fold mark_used idxs a) = ba_n_pos a"
  "ba_n_seq_max (fold mark_used idxs a) = ba_n_seq_max a"
  by (simp_all add: fold_mark_used)

text \<open>Shared by the three: marking the tokens and filling the ubatch is \<open>took\<close>.\<close>

lemma mark_add_took:
  assumes "allocr_ok a" "distinct idxs" "\<And>i. i \<in> set idxs \<Longrightarrow> i < get_n_tokens a \<and> \<not> ba_used a ! i"
    "0 < n_seqs" "length idxs mod n_seqs = 0"
  shows "\<exists>ub a'. ubatch_add idxs n_seqs eq (fold mark_used idxs a) = Some (ub, a') \<and> took a idxs a' \<and>
    ub_carries (ba_n_pos a) (ba_batch a) idxs ub \<and> ub_n_seqs ub = n_seqs \<and> ub_equal_seqs ub = eq \<and>
    ub_n_seqs_unq ub = length (ub_seq_id_unq ub) \<and>
    ub_seq_id_unq ub = ubatch_unq (\<Union> (set (map (token_seq_set (ba_batch a)) idxs))) (ba_n_seq_max a)"
proof -
  obtain ub where "ubatch_add idxs n_seqs eq (fold mark_used idxs a) = Some (ub, (fold mark_used idxs a)
      \<lparr>ba_out_ids := ba_out_ids (fold mark_used idxs a) @ filter (\<lambda>i. the (b_logits (ba_batch a)) ! i \<noteq> 0) idxs\<rparr>)"
    "ub_carries (ba_n_pos a) (ba_batch a) idxs ub" "ub_n_seqs ub = n_seqs" "ub_equal_seqs ub = eq"
    "ub_n_seqs_unq ub = length (ub_seq_id_unq ub)"
    "ub_seq_id_unq ub = ubatch_unq (\<Union> (set (map (token_seq_set (ba_batch a)) idxs))) (ba_n_seq_max a)"
    by (rule ubatch_add_spec [of a idxs n_seqs "fold mark_used idxs a" eq]) (use assms in auto)
  moreover have "took a idxs ((fold mark_used idxs a)
      \<lparr>ba_out_ids := ba_out_ids (fold mark_used idxs a) @ filter (\<lambda>i. the (b_logits (ba_batch a)) ! i \<noteq> 0) idxs\<rparr>)"
    using assms(2,3) by (rule tookI)
  ultimately show ?thesis
    by blast
qed

text \<open>\<open>split_simple\<close> is ready when the used tokens are a prefix, which it keeps.\<close>

definition used_prefix :: "'e batch_allocr \<Rightarrow> bool" where
  "used_prefix a \<longleftrightarrow> (\<forall>i < get_n_tokens a. ba_used a ! i \<longleftrightarrow> i < ba_n_used a)"

definition simple_shape :: "nat \<Rightarrow> 'e batch_allocr \<Rightarrow> nat list \<Rightarrow> 'e llama_ubatch \<Rightarrow> bool" where
  "simple_shape n_ubatch a idxs ub \<longleftrightarrow>
     length idxs \<le> max 1 n_ubatch \<and> idxs = [ba_n_used a..<ba_n_used a + length idxs] \<and>
     ub_n_seqs ub = length idxs \<and> \<not> ub_equal_seqs ub"

lemma first_unused_prefix:
  assumes "allocr_ok a" "used_prefix a" "ba_n_used a < get_n_tokens a"
  shows "first_unused a = ba_n_used a"
proof (rule antisym)
  show "first_unused a \<le> ba_n_used a"
    using first_unused_spec [OF assms(1,3)] assms by (metis leI less_irrefl used_prefix_def)
  show "ba_n_used a \<le> first_unused a"
    using first_unused_spec(1,2) [OF assms(1,3)] assms by (metis allocr_ok_def leI used_prefix_def)
qed

lemma split_simple_takes:
  assumes "allocr_ok a" "used_prefix a" "ba_n_used a < get_n_tokens a"
  shows "\<exists>ub a' idxs. split_simple n a = Some (ub, a') \<and> idxs \<noteq> [] \<and> took a idxs a' \<and>
    ub_carries (ba_n_pos a) (ba_batch a) idxs ub \<and> used_prefix a' \<and> simple_shape n a idxs ub"
proof -
  define c where "c = ba_n_used a"
  define k where "k = min (get_n_tokens a) (max (c + 1) (c + n))"
  have len: "length (ba_used a) = get_n_tokens a" and c: "c < get_n_tokens a" and ck: "c < k" "k \<le> get_n_tokens a"
    "k - c \<le> max 1 n"
    using assms(1,3) by (auto simp: allocr_ok_def c_def k_def)
  have split: "split_simple n a = ubatch_add [c..<k] (length [c..<k]) False (fold mark_used [c..<k] a)"
    using c len split_simple_loop_eq [of c a n "[]"] first_unused_prefix [OF assms]
    by (simp add: split_simple_def c_def [symmetric] k_def Let_def)
  obtain ub a' where u: "ubatch_add [c..<k] (length [c..<k]) False (fold mark_used [c..<k] a) = Some (ub, a')"
    "took a [c..<k] a'" "ub_carries (ba_n_pos a) (ba_batch a) [c..<k] ub" "ub_n_seqs ub = length [c..<k]"
    "\<not> ub_equal_seqs ub"
    using mark_add_took [of a "[c..<k]" "length [c..<k]" False] assms ck
    by (auto simp: used_prefix_def c_def)
  have "used_prefix a'"
    unfolding used_prefix_def
  proof (intro allI impI)
    fix i
    assume "i < get_n_tokens a'"
    then have i: "i < length (ba_used a)"
      using u(2) len by (simp add: took_def get_n_tokens_def)
    then have "ba_used a' ! i \<longleftrightarrow> ba_used a ! i \<or> i \<in> set [c..<k]"
      using u(2) nth_fold_mark [OF i] by (simp add: took_def)
    then show "ba_used a' ! i \<longleftrightarrow> i < ba_n_used a'"
      using assms(2) u(2) i len ck by (auto simp: used_prefix_def took_def c_def)
  qed
  moreover have "simple_shape n a [c..<k] ub"
    using u(4,5) ck by (simp add: simple_shape_def c_def)
  ultimately show ?thesis
    using u ck split by (intro exI [of _ ub] exI [of _ a'] exI [of _ "[c..<k]"]) auto
qed

lemma split_simple_done:
  "allocr_ok a \<Longrightarrow> ba_n_used a = get_n_tokens a \<Longrightarrow> split_simple n a = Some (ubatch_none, a)"
  using first_unused_done by (fastforce simp: split_simple_def Let_def)

interpretation simple: batch_splitter "split_simple n" used_prefix "simple_shape n" for n
  by (unfold_locales; (rule split_simple_takes split_simple_done; assumption)?)

text \<open>\<open>split_seq\<close>: ascending tokens, each one's sequence set contained in the previous one's.\<close>

definition seq_shape :: "nat \<Rightarrow> 'e batch_allocr \<Rightarrow> nat list \<Rightarrow> 'e llama_ubatch \<Rightarrow> bool" where
  "seq_shape n_ubatch a idxs ub \<longleftrightarrow>
     length idxs \<le> max 1 n_ubatch \<and> ub_n_seqs ub = 1 \<and> ub_equal_seqs ub \<and>
     sorted_wrt (\<lambda>i j. i < j \<and> token_seq_set (ba_batch a) j \<subseteq> token_seq_set (ba_batch a) i) idxs"

lemma next_in_set_spec:
  assumes "next_in_set a S i < get_n_tokens a"
  shows "\<not> ba_used a ! next_in_set a S i" "ba_seq_set a ! next_in_set a S i \<subseteq> S"
proof -
  define P where "P = (\<lambda>j. ba_used a ! j \<or> S \<inter> ba_seq_set a ! j \<noteq> ba_seq_set a ! j)"
  define xs where "xs = [i + 1..<get_n_tokens a]"
  have l: "length (takeWhile P xs) < length xs"
    using assms by (simp add: next_in_set_def P_def xs_def)
  then have "\<not> P (xs ! length (takeWhile P xs))"
    by (rule nth_length_takeWhile)
  moreover have "xs ! length (takeWhile P xs) = next_in_set a S i"
    using l by (simp add: xs_def next_in_set_def P_def)
  ultimately show "\<not> ba_used a ! next_in_set a S i" "ba_seq_set a ! next_in_set a S i \<subseteq> S"
    by (auto simp: P_def)
qed

lemma seq_set_mark [simp]: "ba_seq_set (mark_used i a) = ba_seq_set a"
  by (simp add: mark_used_def)

lemma split_seq_loop_spec:
  assumes "cur < get_n_tokens a" "\<not> ba_used a ! cur" "length (ba_used a) = get_n_tokens a"
  shows "\<exists>new. split_seq_loop n (ba_seq_set a ! cur) cur idxs a = (idxs @ cur # new, fold mark_used (cur # new) a) \<and>
    sorted_wrt (\<lambda>i j. i < j \<and> ba_seq_set a ! j \<subseteq> ba_seq_set a ! i) (cur # new) \<and>
    (\<forall>i \<in> set new. i < get_n_tokens a \<and> \<not> ba_used a ! i) \<and>
    length idxs + length (cur # new) \<le> max (length idxs + 1) n"
  using assms
proof (induction "get_n_tokens a - cur" arbitrary: cur idxs a rule: less_induct)
  case less
  let ?a = "mark_used cur a"
  define c where "c = next_in_set ?a (ba_seq_set a ! cur) cur"
  show ?case
  proof (cases "length idxs + 1 \<ge> n \<or> c \<ge> get_n_tokens a")
    case True
    then have "split_seq_loop n (ba_seq_set a ! cur) cur idxs a = (idxs @ [cur], ?a)"
      by (subst split_seq_loop.simps) (auto simp: c_def Let_def)
    then show ?thesis
      by (intro exI [of _ "[]"]) auto
  next
    case False
    have c: "cur < c" "c < get_n_tokens ?a" "\<not> ba_used ?a ! c" "ba_seq_set a ! c \<subseteq> ba_seq_set a ! cur"
      using False next_in_set_gt next_in_set_spec [of ?a "ba_seq_set a ! cur" cur] by (auto simp: c_def)
    have step: "split_seq_loop n (ba_seq_set a ! cur) cur idxs a =
        split_seq_loop n (ba_seq_set ?a ! c) c (idxs @ [cur]) ?a"
      using False by (subst split_seq_loop.simps) (simp add: c_def Let_def)
    have "get_n_tokens ?a - c < get_n_tokens a - cur" "length (ba_used ?a) = get_n_tokens ?a"
      using c less.prems by auto
    from less.hyps [OF this(1) c(2,3) this(2), of "idxs @ [cur]"]
    obtain new where new: "split_seq_loop n (ba_seq_set ?a ! c) c (idxs @ [cur]) ?a =
        ((idxs @ [cur]) @ c # new, fold mark_used (c # new) ?a)"
      "sorted_wrt (\<lambda>i j. i < j \<and> ba_seq_set a ! j \<subseteq> ba_seq_set a ! i) (c # new)"
      "\<forall>i \<in> set new. i < get_n_tokens a \<and> \<not> ba_used ?a ! i"
      "length (idxs @ [cur]) + length (c # new) \<le> max (length (idxs @ [cur]) + 1) n"
      unfolding get_n_tokens_mark seq_set_mark by blast
    have "\<forall>i \<in> set (c # new). i < get_n_tokens a \<and> \<not> ba_used a ! i"
      using new(3) c less.prems by (auto simp: mark_used_def nth_update_True get_n_tokens_def)
    then show ?thesis
      using new(1,2,4) c step False by (intro exI [of _ "c # new"]) fastforce
  qed
qed

lemma split_seq_takes:
  assumes "allocr_ok a" "ba_n_used a < get_n_tokens a"
  shows "\<exists>ub a' idxs. split_seq n a = Some (ub, a') \<and> idxs \<noteq> [] \<and> took a idxs a' \<and>
    ub_carries (ba_n_pos a) (ba_batch a) idxs ub \<and> True \<and> seq_shape n a idxs ub"
proof -
  note f = first_unused_spec(1,2) [OF assms]
  have len: "length (ba_used a) = get_n_tokens a"
    "\<And>i. i < get_n_tokens a \<Longrightarrow> ba_seq_set a ! i = token_seq_set (ba_batch a) i"
    using assms(1) by (auto simp: allocr_ok_def)
  obtain new where new: "split_seq_loop n (ba_seq_set a ! first_unused a) (first_unused a) [] a =
      (first_unused a # new, fold mark_used (first_unused a # new) a)"
    "sorted_wrt (\<lambda>i j. i < j \<and> ba_seq_set a ! j \<subseteq> ba_seq_set a ! i) (first_unused a # new)"
    "\<forall>i \<in> set new. i < get_n_tokens a \<and> \<not> ba_used a ! i" "length (first_unused a # new) \<le> max 1 n"
    using split_seq_loop_spec [of "first_unused a" a n "[]"] f len by auto
  define idxs where "idxs = first_unused a # new"
  have i: "\<And>i. i \<in> set idxs \<Longrightarrow> i < get_n_tokens a \<and> \<not> ba_used a ! i"
    using new(3) f len by (auto simp: idxs_def)
  have sorted: "sorted_wrt (\<lambda>i j. i < j \<and> token_seq_set (ba_batch a) j \<subseteq> token_seq_set (ba_batch a) i) idxs"
    using new(2) unfolding idxs_def [symmetric]
    by (rule sorted_wrt_mono_rel [rotated]) (use i len(2) in auto)
  then have "sorted_wrt (<) idxs"
    by (rule sorted_wrt_mono_rel [rotated]) simp
  then have "distinct idxs"
    by (simp add: strict_sorted_iff)
  from mark_add_took [OF assms(1) this i, of 1 True] obtain ub a' where
    "ubatch_add idxs 1 True (fold mark_used idxs a) = Some (ub, a')" "took a idxs a'"
    "ub_carries (ba_n_pos a) (ba_batch a) idxs ub" "ub_n_seqs ub = 1" "ub_equal_seqs ub"
    by auto
  then show ?thesis
    using sorted new f len
    by (intro exI [of _ ub] exI [of _ a'] exI [of _ idxs]) (auto simp: split_seq_def Let_def idxs_def seq_shape_def)
qed

lemma split_seq_done:
  "allocr_ok a \<Longrightarrow> ba_n_used a = get_n_tokens a \<Longrightarrow> split_seq n a = Some (ubatch_none, a)"
  using first_unused_done by (fastforce simp: split_seq_def Let_def)

lemma seq_shape_took: "took a idxs a' \<Longrightarrow> seq_shape n a' = seq_shape n a"
  by (auto simp: took_def seq_shape_def fun_eq_iff)

interpretation seq: batch_splitter "split_seq n" "\<lambda>a. True" "seq_shape n" for n
  by (unfold_locales; (rule split_seq_takes split_seq_done; assumption)?)

text \<open>\<open>split_equal\<close> relies on the tokens of a sequence set being consumed in order, and on every token
  belonging to some sequence; it keeps both. A row of the result is a run of tokens with the same
  sequence set, and the sets of different rows are disjoint. The number of rows may exceed
  \<open>n_ubatch\<close> by one.\<close>

definition seq_ready :: "bool \<Rightarrow> 'e batch_allocr \<Rightarrow> bool" where
  "seq_ready sequential a \<longleftrightarrow>
     \<not> (sequential \<and> ba_has_cpl a) \<and>
     (\<forall>i < get_n_tokens a. token_seq_set (ba_batch a) i \<noteq> {}) \<and>
     (\<forall>j < get_n_tokens a. \<forall>i < j. token_seq_set (ba_batch a) i = token_seq_set (ba_batch a) j \<and> ba_used a ! j \<longrightarrow>
        ba_used a ! i)"

definition equal_shape :: "nat \<Rightarrow> 'e batch_allocr \<Rightarrow> nat list \<Rightarrow> 'e llama_ubatch \<Rightarrow> bool" where
  "equal_shape n_ubatch a idxs ub \<longleftrightarrow> ub_equal_seqs ub \<and> (\<exists>rows sets.
     idxs = concat rows \<and> length rows = ub_n_seqs ub \<and> length sets = ub_n_seqs ub \<and>
     (\<forall>s < ub_n_seqs ub. length (rows ! s) = ub_n_seq_tokens ub \<and> sorted_wrt (<) (rows ! s) \<and>
        (\<forall>i \<in> set (rows ! s). token_seq_set (ba_batch a) i = sets ! s)) \<and>
     (\<forall>s < ub_n_seqs ub. \<forall>t < s. sets ! t \<inter> sets ! s = {}) \<and>
     ub_n_seqs ub \<le> n_ubatch + 1 \<and> length idxs \<le> max n_ubatch (ub_n_seqs ub))"

definition sets_ok :: "'e batch_allocr \<Rightarrow> nat set list \<Rightarrow> bool" where
  "sets_ok a sets \<longleftrightarrow> sorted_wrt (\<lambda>S T. S \<inter> T = {}) sets \<and>
     (\<forall>S \<in> set sets. \<exists>i < get_n_tokens a. \<not> ba_used a ! i \<and> ba_seq_set a ! i = S)"

lemma equal_sets_ok:
  assumes "sets_ok a cur" "length cur \<le> n" "\<forall>i \<in> set is. i < get_n_tokens a"
  shows "sets_ok a (equal_sets n sq a is cur l) \<and> length (equal_sets n sq a is cur l) \<le> n + 1"
  using assms
proof (induction n sq a "is" cur l rule: equal_sets.induct)
  case (2 n sq a i "is" cur l)
  have "sets_ok a (cur @ [ba_seq_set a ! i])" if "list_all (\<lambda>c. c \<inter> ba_seq_set a ! i = {}) cur" "\<not> ba_used a ! i"
    using "2.prems" that by (auto simp: sets_ok_def sorted_wrt_append list_all_iff)
  then show ?case
    using 2 by (auto simp: Let_def)
qed simp

lemma equal_sets_grow: "cur \<noteq> [] \<Longrightarrow> equal_sets n sq a is cur l \<noteq> []"
  by (induction "is" arbitrary: cur l) (auto simp: Let_def)

lemma equal_sets_empty: "equal_sets n sq a is [] l = [] \<longleftrightarrow> (\<forall>i \<in> set is. ba_used a ! i)"
  by (induction "is") (auto simp: Let_def equal_sets_grow)

text \<open>Marking in the order of the rounds or in the order of the rows is the same.\<close>

lemma fold_mark_perm: "mset xs = mset ys \<Longrightarrow> fold mark_used xs a = fold mark_used ys a"
proof -
  assume "mset xs = mset ys"
  then have "fold mark_used xs = fold (mark_used :: nat \<Rightarrow> 'a batch_allocr \<Rightarrow> _) ys"
  proof (rule fold_multiset_equiv [rotated])
    show "mark_used x \<circ> mark_used y = mark_used y \<circ> (mark_used x :: 'a batch_allocr \<Rightarrow> _)" for x y
      by (cases "x = y") (auto simp: fun_eq_iff mark_used_def list_update_swap)
  qed
  then show ?thesis by simp
qed

lemma mset_transpose:
  "mset (concat (map (\<lambda>r. map (\<lambda>s. f s r) ss) rs)) = mset (concat (map (\<lambda>s. map (f s) rs) ss))"
proof (induction rs)
  case Nil
  then show ?case by (induction ss) auto
next
  case (Cons r rs)
  have "mset (concat (map (\<lambda>s. map (f s) (r # rs)) ss)) = mset (map (\<lambda>s. f s r) ss) + mset (concat (map (\<lambda>s. map (f s) rs) ss))"
    by (induction ss) auto
  then show ?case using Cons by simp
qed

lemma equal_rounds_spec:
  assumes "tls \<noteq> []" "length cur = length tls" "length idxs = length tls"
    "\<forall>s < length tls. cur ! s \<le> length (tls ! s)"
  shows "\<exists>R. equal_rounds n tls cur idxs a =
      (map (\<lambda>s. idxs ! s @ map (\<lambda>r. tls ! s ! (cur ! s + r)) [0..<R]) [0..<length tls],
       fold mark_used (concat (map (\<lambda>r. map (\<lambda>s. tls ! s ! (cur ! s + r)) [0..<length tls]) [0..<R])) a) \<and>
    (\<forall>s < length tls. cur ! s + R \<le> length (tls ! s)) \<and>
    ((\<forall>s < length tls. cur ! s < length (tls ! s)) \<longrightarrow> 0 < R) \<and>
    (R = 0 \<or> (length (idxs ! 0) + R) * length tls \<le> max n ((length (idxs ! 0) + 1) * length tls))"
  using assms
proof (induction n tls cur idxs a rule: equal_rounds.induct)
  case (1 n tls cur idxs a)
  let ?stuck = "list_ex (\<lambda>s. cur ! s \<ge> length (tls ! s)) [0..<length tls]"
  define toks where "toks = map (\<lambda>s. tls ! s ! (cur ! s)) [0..<length tls]"
  define idxs' where "idxs' = map (\<lambda>s. idxs ! s @ [toks ! s]) [0..<length tls]"
  define cur' where "cur' = map (\<lambda>s. cur ! s + 1) [0..<length tls]"
  define a' where "a' = fold mark_used toks a"
  have idxs: "map ((!) idxs) [0..<length tls] = idxs"
    using "1.prems"(3) by (metis map_nth)
  show ?case
  proof (cases ?stuck)
    case True
    then have "equal_rounds n tls cur idxs a = (idxs, a)"
      by (subst equal_rounds.simps) simp
    moreover have "\<not> (\<forall>s < length tls. cur ! s < length (tls ! s))"
      using True by (auto simp: list_ex_iff not_less)
    ultimately show ?thesis
      using "1.prems"(4) idxs by (intro exI [of _ 0]) simp
  next
    case stuck: False
    then have lt: "cur ! s < length (tls ! s)" if "s < length tls" for s
      using that by (auto simp: list_ex_iff not_le)
    have len: "length (idxs' ! 0) = length (idxs ! 0) + 1" "0 < length tls"
      using "1.prems"(1) by (simp_all add: idxs'_def)
    show ?thesis
    proof (cases "(length (idxs' ! 0) + 1) * length tls > n")
      case True
      then have "equal_rounds n tls cur idxs a = (idxs', a')"
        using "1.prems"(1) stuck
        by (subst equal_rounds.simps) (simp add: Let_def toks_def idxs'_def a'_def)
      then show ?thesis
        using lt by (intro exI [of _ 1]) (simp add: idxs'_def a'_def toks_def Suc_le_eq)
    next
      case False
      then have step: "equal_rounds n tls cur idxs a = equal_rounds n tls cur' idxs' a'"
        using "1.prems"(1) stuck
        by (subst equal_rounds.simps) (simp add: Let_def toks_def idxs'_def a'_def cur'_def)
      have "\<exists>R. equal_rounds n tls cur' idxs' a' =
          (map (\<lambda>s. idxs' ! s @ map (\<lambda>r. tls ! s ! (cur' ! s + r)) [0..<R]) [0..<length tls],
           fold mark_used (concat (map (\<lambda>r. map (\<lambda>s. tls ! s ! (cur' ! s + r)) [0..<length tls]) [0..<R])) a') \<and>
          (\<forall>s < length tls. cur' ! s + R \<le> length (tls ! s)) \<and>
          ((\<forall>s < length tls. cur' ! s < length (tls ! s)) \<longrightarrow> 0 < R) \<and>
          (R = 0 \<or> (length (idxs' ! 0) + R) * length tls \<le> max n ((length (idxs' ! 0) + 1) * length tls))"
        using "1.prems"(1) stuck False lt
        by (intro "1.IH") (auto simp: toks_def idxs'_def a'_def cur'_def Suc_le_eq)
      then obtain R where R: "equal_rounds n tls cur' idxs' a' =
          (map (\<lambda>s. idxs' ! s @ map (\<lambda>r. tls ! s ! (cur' ! s + r)) [0..<R]) [0..<length tls],
           fold mark_used (concat (map (\<lambda>r. map (\<lambda>s. tls ! s ! (cur' ! s + r)) [0..<length tls]) [0..<R])) a')"
        "\<forall>s < length tls. cur' ! s + R \<le> length (tls ! s)"
        "R = 0 \<or> (length (idxs' ! 0) + R) * length tls \<le> max n ((length (idxs' ! 0) + 1) * length tls)"
        by blast
      have upt: "[0..<Suc R] = 0 # map Suc [0..<R]"
        by (simp add: upt_conv_Cons map_Suc_upt del: upt_Suc)
      have round: "map (\<lambda>s. tls ! s ! (cur' ! s + r)) [0..<length tls] = map (\<lambda>s. tls ! s ! (cur ! s + Suc r)) [0..<length tls]" for r
        by (simp add: cur'_def)
      have "equal_rounds n tls cur idxs a =
          (map (\<lambda>s. idxs ! s @ map (\<lambda>r. tls ! s ! (cur ! s + r)) [0..<Suc R]) [0..<length tls],
           fold mark_used (concat (map (\<lambda>r. map (\<lambda>s. tls ! s ! (cur ! s + r)) [0..<length tls]) [0..<Suc R])) a)"
        unfolding step R(1) upt round by (simp add: idxs'_def cur'_def a'_def toks_def o_def)
      moreover have "(length (idxs ! 0) + Suc R) * length tls \<le> max n ((length (idxs ! 0) + 1) * length tls)"
        using R(3) False len by (cases R) auto
      ultimately show ?thesis
        using R(2) by (intro exI [of _ "Suc R"]) (auto simp: cur'_def)
    qed
  qed
qed

text \<open>One row: \<open>R\<close> consecutive members of the list of a sequence set, from its first unused one.\<close>

lemma map_opt_total: "(\<And>x. x \<in> set xs \<Longrightarrow> f x = Some (g x)) \<Longrightarrow> map_opt f xs = Some (map g xs)"
  by (induction xs) auto

lemma first_unused_in_Some:
  assumes "\<exists>i \<in> set xs. \<not> ba_used a ! i"
  shows "first_unused_in a xs = Some (length (takeWhile (\<lambda>i. ba_used a ! i) xs))"
    "length (takeWhile (\<lambda>i. ba_used a ! i) xs) < length xs"
proof -
  show "length (takeWhile (\<lambda>i. ba_used a ! i) xs) < length xs"
    using assms by (metis length_takeWhile_le le_neq_implies_less takeWhile_eq_all_conv takeWhile_eq_take take_all)
  then show "first_unused_in a xs = Some (length (takeWhile (\<lambda>i. ba_used a ! i) xs))"
    by (simp add: first_unused_in_def Let_def)
qed

lemma row_before:
  fixes xs :: "nat list"
  assumes "sorted_wrt (<) xs" "q < length xs" "i \<in> set xs" "i < xs ! q"
  shows "\<exists>p < q. i = xs ! p"
proof -
  obtain p where p: "p < length xs" "i = xs ! p"
    using assms(3) by (auto simp: in_set_conv_nth)
  have "xs ! q < xs ! p" if "q < p"
    using assms(1) that p(1) by (simp add: sorted_wrt_nth_less)
  then have "p < q"
    using assms(4) p(2) by (metis less_asym less_irrefl linorder_neqE_nat)
  then show ?thesis
    using p by auto
qed

definition row_of :: "'e batch_allocr \<Rightarrow> nat \<Rightarrow> nat set \<Rightarrow> nat list" where
  "row_of a R S = map (\<lambda>r. ba_seq_set_map a S ! (length (takeWhile (\<lambda>i. ba_used a ! i) (ba_seq_set_map a S)) + r)) [0..<R]"

lemma row_of_spec:
  assumes "allocr_ok a" "seq_ready sq a"
    "length (takeWhile (\<lambda>i. ba_used a ! i) (ba_seq_set_map a S)) + R \<le> length (ba_seq_set_map a S)"
  shows "sorted_wrt (<) (row_of a R S)" "length (row_of a R S) = R"
    "\<And>i. i \<in> set (row_of a R S) \<Longrightarrow> i < get_n_tokens a \<and> \<not> ba_used a ! i \<and> token_seq_set (ba_batch a) i = S"
    "\<And>i j. j \<in> set (row_of a R S) \<Longrightarrow> i < j \<Longrightarrow> token_seq_set (ba_batch a) i = S \<Longrightarrow> ba_used a ! i \<or> i \<in> set (row_of a R S)"
proof -
  define xs where "xs = ba_seq_set_map a S"
  define k where "k = length (takeWhile (\<lambda>i. ba_used a ! i) xs)"
  have row: "row_of a R S = map (\<lambda>r. xs ! (k + r)) [0..<R]"
    by (simp add: row_of_def xs_def k_def)
  have xs: "xs = filter (\<lambda>i. token_seq_set (ba_batch a) i = S) [0..<get_n_tokens a]"
    using assms(1) by (simp add: xs_def allocr_ok_def)
  have sorted: "sorted_wrt (<) xs"
    unfolding xs by (rule sorted_wrt_filter) simp
  have kR: "k + R \<le> length xs"
    using assms(3) by (simp add: k_def xs_def)
  have memb: "i \<in> set xs \<longleftrightarrow> i < get_n_tokens a \<and> token_seq_set (ba_batch a) i = S" for i
    unfolding xs by auto
  have before: "ba_used a ! (xs ! p)" if "p < k" for p
    using that set_takeWhileD [OF nth_mem [of p "takeWhile (\<lambda>i. ba_used a ! i) xs"]]
    by (simp add: k_def takeWhile_nth)
  have fresh: "\<not> ba_used a ! (xs ! q)" if "k \<le> q" "q < length xs" for q
  proof
    assume used: "ba_used a ! (xs ! q)"
    have kk: "\<not> ba_used a ! (xs ! k)"
      using that unfolding k_def by (intro nth_length_takeWhile [of "\<lambda>i. ba_used a ! i"]) simp
    then have "k < q"
      using that used by (cases "k = q") auto
    then have "xs ! k < xs ! q"
      using sorted that by (simp add: sorted_wrt_nth_less)
    then show False
      using assms(2) used kk memb [of "xs ! k"] memb [of "xs ! q"] that
      by (auto simp: seq_ready_def)
  qed
  show "sorted_wrt (<) (row_of a R S)"
    using sorted kR by (simp add: row sorted_wrt_iff_nth_less)
  show "length (row_of a R S) = R"
    by (simp add: row)
  show "i < get_n_tokens a \<and> \<not> ba_used a ! i \<and> token_seq_set (ba_batch a) i = S" if "i \<in> set (row_of a R S)" for i
    using that fresh kR memb [of i] by (auto simp: row)
  show "ba_used a ! i \<or> i \<in> set (row_of a R S)"
    if j: "j \<in> set (row_of a R S)" and ij: "i < j" "token_seq_set (ba_batch a) i = S" for i j
  proof -
    obtain r where r: "r < R" "j = xs ! (k + r)"
      using j by (auto simp: row)
    have "j < get_n_tokens a"
      using r kR memb [of j] by simp
    then obtain p where p: "p < k + r" "i = xs ! p"
      using row_before [OF sorted, of "k + r" i] r kR ij memb [of i] by auto
    show ?thesis
    proof (cases "p < k")
      case False
      then have "i = xs ! (k + (p - k))" "p - k < R"
        using p r by auto
      then show ?thesis by (auto simp: row)
    qed (use p before in simp)
  qed
qed

lemma concat_rows_distinct:
  assumes "\<And>S. S \<in> set sets \<Longrightarrow> distinct (f S)" "\<And>S i. S \<in> set sets \<Longrightarrow> i \<in> set (f S) \<Longrightarrow> g i = S" "distinct sets"
  shows "distinct (concat (map f sets))"
  using assms
proof (induction sets)
  case (Cons S sets)
  have "set (f S) \<inter> set (f T) = {}" if "T \<in> set sets" for T
    using Cons.prems(2) [of S] Cons.prems(2) [of T] Cons.prems(3) that by auto
  then show ?case
    using Cons by auto
qed simp

lemma sets_ok_distinct: "sets_ok a sets \<Longrightarrow> {} \<notin> set sets \<Longrightarrow> distinct sets"
proof (induction sets)
  case (Cons S sets)
  then have "S \<notin> set sets"
    by (auto simp: sets_ok_def)
  then show ?case
    using Cons by (auto simp: sets_ok_def)
qed simp

text \<open>The three phases together.\<close>

lemma split_equal_rows:
  fixes n :: nat
  assumes "allocr_ok a" "seq_ready sq a" "ba_n_used a < get_n_tokens a"
  defines "sets \<equiv> equal_sets n sq a [0..<get_n_tokens a] [] (- 1)"
  shows "\<exists>R > 0. split_equal n sq a =
      ubatch_add (concat (map (row_of a R) sets)) (length sets) True (fold mark_used (concat (map (row_of a R) sets)) a) \<and>
    sets \<noteq> [] \<and> sets_ok a sets \<and> length sets \<le> n + 1 \<and> R * length sets \<le> max n (length sets) \<and>
    (\<forall>S \<in> set sets. length (takeWhile (\<lambda>i. ba_used a ! i) (ba_seq_set_map a S)) + R \<le> length (ba_seq_set_map a S))"
proof -
  define first where "first S = length (takeWhile (\<lambda>i. ba_used a ! i) (ba_seq_set_map a S))" for S
  have ok: "sets_ok a sets" "length sets \<le> n + 1"
    using equal_sets_ok [of a "[]" n "[0..<get_n_tokens a]" sq "- 1"] by (auto simp: sets_def sets_ok_def)
  have ne: "sets \<noteq> []"
    using used_all_iff [OF assms(1)] assms(3) by (auto simp: sets_def equal_sets_empty)
  have unused: "\<exists>i \<in> set (ba_seq_set_map a S). \<not> ba_used a ! i" if S: "S \<in> set sets" for S
  proof -
    obtain i where "i < get_n_tokens a" "\<not> ba_used a ! i" "ba_seq_set a ! i = S"
      using ok(1) S by (auto simp: sets_ok_def)
    then show ?thesis
      using assms(1) by (intro bexI [of _ i]) (auto simp: allocr_ok_def)
  qed
  have cur: "map_opt (first_unused_in a) (map (ba_seq_set_map a) sets) = Some (map first sets)"
  proof (subst map_opt_total [where g = "\<lambda>xs. length (takeWhile (\<lambda>i. ba_used a ! i) xs)"])
    fix xs
    assume "xs \<in> set (map (ba_seq_set_map a) sets)"
    then show "first_unused_in a xs = Some (length (takeWhile (\<lambda>i. ba_used a ! i) xs))"
      using unused by (intro first_unused_in_Some(1)) auto
  qed (simp add: first_def)
  obtain R where R: "equal_rounds n (map (ba_seq_set_map a) sets) (map first sets) (replicate (length sets) []) a =
      (map (\<lambda>s. map (\<lambda>r. ba_seq_set_map a (sets ! s) ! (first (sets ! s) + r)) [0..<R]) [0..<length sets],
       fold mark_used (concat (map (\<lambda>r. map (\<lambda>s. ba_seq_set_map a (sets ! s) ! (first (sets ! s) + r)) [0..<length sets]) [0..<R])) a)"
    "\<forall>s < length sets. first (sets ! s) + R \<le> length (ba_seq_set_map a (sets ! s))" "0 < R"
    "R * length sets \<le> max n (length sets)"
  proof -
    have lt: "first (sets ! s) < length (ba_seq_set_map a (sets ! s))" if "s < length sets" for s
      unfolding first_def using that by (intro first_unused_in_Some(2) unused) simp
    obtain R where R: "equal_rounds n (map (ba_seq_set_map a) sets) (map first sets) (replicate (length sets) []) a =
        (map (\<lambda>s. replicate (length sets) [] ! s @ map (\<lambda>r. map (ba_seq_set_map a) sets ! s ! (map first sets ! s + r)) [0..<R])
           [0..<length (map (ba_seq_set_map a) sets)],
         fold mark_used (concat (map (\<lambda>r. map (\<lambda>s. map (ba_seq_set_map a) sets ! s ! (map first sets ! s + r))
           [0..<length (map (ba_seq_set_map a) sets)]) [0..<R])) a)"
      "\<forall>s < length sets. first (sets ! s) + R \<le> length (ba_seq_set_map a (sets ! s))" "0 < R"
      "R * length sets \<le> max n (length sets)"
      using equal_rounds_spec [of "map (ba_seq_set_map a) sets" "map first sets" "replicate (length sets) []" n a] ne lt
      by (auto simp: less_imp_le)
    have "map (\<lambda>s. map (ba_seq_set_map a) sets ! s ! (map first sets ! s + r)) [0..<length sets] =
        map (\<lambda>s. ba_seq_set_map a (sets ! s) ! (first (sets ! s) + r)) [0..<length sets]" for r
      by (intro map_cong refl) simp
    then have marks: "concat (map (\<lambda>r. map (\<lambda>s. map (ba_seq_set_map a) sets ! s ! (map first sets ! s + r))
          [0..<length (map (ba_seq_set_map a) sets)]) [0..<R]) =
        concat (map (\<lambda>r. map (\<lambda>s. ba_seq_set_map a (sets ! s) ! (first (sets ! s) + r)) [0..<length sets]) [0..<R])"
      by (simp only: length_map)
    show thesis
      using R(2-4) by (intro that [of R]) (simp_all only: R(1) marks, simp_all)
  qed
  have rows: "map (row_of a R) sets = map (\<lambda>s. map (\<lambda>r. ba_seq_set_map a (sets ! s) ! (first (sets ! s) + r)) [0..<R]) [0..<length sets]"
    by (rule nth_equalityI) (simp_all add: row_of_def first_def)
  have "fold mark_used (concat (map (\<lambda>r. map (\<lambda>s. ba_seq_set_map a (sets ! s) ! (first (sets ! s) + r)) [0..<length sets]) [0..<R])) a =
      fold mark_used (concat (map (row_of a R) sets)) a"
    unfolding rows by (rule fold_mark_perm) (rule mset_transpose)
  moreover have "\<not> (sq \<and> ba_has_cpl a)"
    using assms(2) by (simp add: seq_ready_def)
  ultimately have "split_equal n sq a =
      ubatch_add (concat (map (row_of a R) sets)) (length sets) True (fold mark_used (concat (map (row_of a R) sets)) a)"
    using ne cur R(1) by (auto simp: split_equal_def sets_def [symmetric] Let_def rows)
  then show ?thesis
    using ok ne R(2-4) by (auto simp: first_def in_set_conv_nth intro!: exI [of _ R])
qed

lemma split_equal_takes:
  assumes "allocr_ok a" "seq_ready sq a" "ba_n_used a < get_n_tokens a"
  shows "\<exists>ub a' idxs. split_equal n sq a = Some (ub, a') \<and> idxs \<noteq> [] \<and> took a idxs a' \<and>
    ub_carries (ba_n_pos a) (ba_batch a) idxs ub \<and> seq_ready sq a' \<and> equal_shape n a idxs ub"
proof -
  define sets where "sets = equal_sets n sq a [0..<get_n_tokens a] [] (- 1)"
  obtain R where R: "0 < R" "split_equal n sq a =
      ubatch_add (concat (map (row_of a R) sets)) (length sets) True (fold mark_used (concat (map (row_of a R) sets)) a)"
    "sets \<noteq> []" "sets_ok a sets" "length sets \<le> n + 1" "R * length sets \<le> max n (length sets)"
    "\<And>S. S \<in> set sets \<Longrightarrow> length (takeWhile (\<lambda>i. ba_used a ! i) (ba_seq_set_map a S)) + R \<le> length (ba_seq_set_map a S)"
    using split_equal_rows [OF assms, of n] unfolding sets_def by blast
  define idxs where "idxs = concat (map (row_of a R) sets)"
  note row = row_of_spec [OF assms(1,2) R(7)]
  have "{} \<notin> set sets"
    using R(4) assms(1,2) by (auto simp: sets_ok_def allocr_ok_def seq_ready_def)
  then have "distinct sets"
    using R(4) by (rule sets_ok_distinct [rotated])
  have dist: "distinct idxs"
    unfolding idxs_def
  proof (rule concat_rows_distinct [OF _ _ \<open>distinct sets\<close>])
    show "distinct (row_of a R S)" if "S \<in> set sets" for S
      using row(1) [OF that] by (simp add: strict_sorted_iff)
    show "token_seq_set (ba_batch a) i = S" if "S \<in> set sets" "i \<in> set (row_of a R S)" for S i
      using row(3) [OF that] by simp
  qed
  have i: "i < get_n_tokens a \<and> \<not> ba_used a ! i" if "i \<in> set idxs" for i
    using that row(3) by (auto simp: idxs_def)
  have len: "length idxs = R * length sets"
    using row(2) by (simp add: idxs_def length_concat o_def sum_list_triv cong: map_cong)
  obtain ub a' where u: "ubatch_add idxs (length sets) True (fold mark_used idxs a) = Some (ub, a')" "took a idxs a'"
    "ub_carries (ba_n_pos a) (ba_batch a) idxs ub" "ub_n_seqs ub = length sets" "ub_equal_seqs ub"
    using mark_add_took [OF assms(1) dist i, of "length sets" True] R(3) len by auto
  have "seq_ready sq a'"
    unfolding seq_ready_def
  proof (intro conjI allI impI)
    fix j i
    assume j: "j < get_n_tokens a'" "i < j" "token_seq_set (ba_batch a') i = token_seq_set (ba_batch a') j \<and> ba_used a' ! j"
    then have lt: "j < length (ba_used a)" "i < length (ba_used a)" "j < get_n_tokens a"
      using took_ok(2) [OF assms(1) u(2)] assms(1) by (auto simp: allocr_ok_def)
    have used: "ba_used a' ! k \<longleftrightarrow> ba_used a ! k \<or> k \<in> set idxs" if "k < length (ba_used a)" for k
      using u(2) nth_fold_mark [OF that] by (simp add: took_def)
    have same: "token_seq_set (ba_batch a) i = token_seq_set (ba_batch a) j"
      using j(3) took_ok(3) [OF assms(1) u(2)] by simp
    have "i \<in> set idxs \<or> ba_used a ! i" if row_j: "j \<in> set idxs"
    proof -
      obtain S where S: "S \<in> set sets" "j \<in> set (row_of a R S)"
        using row_j by (auto simp: idxs_def)
      have "token_seq_set (ba_batch a) i = S"
        using row(3) [OF S] same by simp
      from row(4) [OF S j(2) this] show ?thesis
        using S(1) by (auto simp: idxs_def)
    qed
    then show "ba_used a' ! i"
      using used lt j assms(2) same by (auto simp: seq_ready_def)
  qed (use assms(2) u(2) in \<open>auto simp: seq_ready_def took_def get_n_tokens_def\<close>)
  moreover have "ub_n_seq_tokens ub = R"
    using u(3,4) len R(3) by (auto simp: ub_carries_def)
  then have "equal_shape n a idxs ub"
    unfolding equal_shape_def u(4)
    using u(4,5) R len row(1,2,3)
    by (intro conjI exI [of _ "map (row_of a R) sets"] exI [of _ sets])
      (auto simp: idxs_def sets_ok_def sorted_wrt_iff_nth_less)
  moreover have "idxs \<noteq> []"
    using len R(1,3) by auto
  moreover have "split_equal n sq a = Some (ub, a')"
    using u(1) R(2) by (simp add: idxs_def)
  ultimately show ?thesis
    using u(2,3) by blast
qed

lemma split_equal_done:
  assumes "allocr_ok a" "ba_n_used a = get_n_tokens a"
  shows "split_equal n sq a = Some (ubatch_none, a)"
proof -
  have "equal_sets n sq a [0..<get_n_tokens a] [] (- 1) = []"
    using assms used_all_iff [OF assms(1)] by (simp add: equal_sets_empty)
  then show ?thesis
    by (simp add: split_equal_def)
qed

lemma equal_shape_took: "took a idxs a' \<Longrightarrow> equal_shape n a' = equal_shape n a"
  by (auto simp: took_def equal_shape_def fun_eq_iff)

interpretation equal: batch_splitter "split_equal n sq" "seq_ready sq" "equal_shape n" for n sq
  by (unfold_locales; (rule split_equal_takes split_equal_done; assumption)?)

section \<open>Properties\<close>

lemma simple_chain_concat:
  "split_chain (simple_shape n) a idxss ubs a' \<Longrightarrow> concat idxss = [ba_n_used a..<ba_n_used a']"
proof (induction "simple_shape n :: 'a batch_allocr \<Rightarrow> _" a idxss ubs a' rule: split_chain.induct)
  case (2 a idxs idxss ub ubs a')
  then obtain a1 where s: "took a idxs a1" "simple_shape n a idxs ub" "split_chain (simple_shape n) a1 idxss ubs a'"
    by auto
  have u: "ba_n_used a1 = ba_n_used a + length idxs"
    using s(1) by (simp add: took_def)
  have le: "ba_n_used a1 \<le> ba_n_used a'"
    using split_chain_n_used [OF s(3)] by simp
  have "concat (idxs # idxss) = [ba_n_used a..<ba_n_used a1] @ [ba_n_used a1..<ba_n_used a']"
    using "2.hyps" [OF s(3)] s(2) u by (simp add: simple_shape_def)
  then show ?case
    using le u by (metis le_add1 upt_add_eq_append le_iff_add add.assoc)
qed simp_all

lemma simple_chain_sizes:
  "split_chain (simple_shape n) a idxss ubs a' \<Longrightarrow> ub \<in> set ubs \<Longrightarrow>
    1 \<le> ub_n_tokens ub \<and> ub_n_tokens ub \<le> max 1 n \<and> ub_n_seq_tokens ub = 1"
proof (induction "simple_shape n :: 'a batch_allocr \<Rightarrow> _" a idxss ubs a' rule: split_chain.induct)
  case (2 a idxs idxss ub' ubs a')
  then show ?case
    by (auto simp: simple_shape_def ub_carries_def Suc_le_eq)
qed simp_all

text \<open>C14. After an accepted \<open>init\<close> the driver loop over \<open>split_simple\<close> ends, and the ubatches hold
  the tokens of the batch in order, each exactly once: block \<open>k\<close> of the partition of \<open>0 .. n_tokens - 1\<close>
  is carried by ubatch \<open>k\<close> with its tokens, embeddings, positions, sequences and output flags. No ubatch
  is empty or larger than \<open>n_ubatch\<close>, and the output ids recorded are the tokens with a set output flag,
  in order. (An embedding batch that leaves out the positions of an M-RoPE model is excluded.)\<close>

theorem simple_split_partitions:
  assumes "allocr_init inp n_vocab mem n_seq_max output_all a0 = Some (True, a)"
    and "b_pos inp \<noteq> None \<or> b_token inp \<noteq> None \<or> ba_n_pos a0 \<le> 1"
  shows "\<exists>ubs a' idxss. split_loop (split_simple n_ubatch) a = Some (ubs, a') \<and>
    concat idxss = [0..<b_n_tokens inp] \<and>
    list_all2 (ub_carries (ba_n_pos a0) (init_batch_of mem output_all inp)) idxss ubs \<and>
    (\<forall>ub \<in> set ubs. 1 \<le> ub_n_tokens ub \<and> ub_n_tokens ub \<le> max 1 n_ubatch \<and> ub_n_seq_tokens ub = 1) \<and>
    ba_out_ids a' = filter (\<lambda>i. the (b_logits (init_batch_of mem output_all inp)) ! i \<noteq> 0) [0..<b_n_tokens inp]"
proof -
  note ok = allocr_init_ok [OF assms]
  have "used_prefix a"
    using ok by (simp add: used_prefix_def)
  then obtain ubs a' idxss where r: "split_loop (split_simple n_ubatch) a = Some (ubs, a')"
    "split_chain (simple_shape n_ubatch) a idxss ubs a'" "ba_n_used a' = get_n_tokens a"
    using simple.split_loop_chain [OF ok(1)] by blast
  have "concat idxss = [0..<b_n_tokens inp]"
    using simple_chain_concat [OF r(2)] r(3) ok by simp
  moreover note split_chain_took [OF r(2) ok(1)]
  ultimately show ?thesis
    using r(1) simple_chain_sizes [OF r(2)] ok
    by (intro exI [of _ ubs] exI [of _ a'] exI [of _ idxss]) (auto simp: took_def)
qed

text \<open>A small batch of three tokens for which everything but the tokens is left to \<open>init\<close>, and one of
  three tokens of two sequences with given positions.\<close>

definition demo_batch :: "unit llama_batch" where
  "demo_batch = \<lparr>b_n_tokens = 3, b_token = Some [11, 12, 13], b_embd = None, b_pos = None,
     b_n_seq_id = None, b_seq_id = None, b_logits = None\<rparr>"

definition demo_batch2 :: "int list \<Rightarrow> unit llama_batch" where
  "demo_batch2 ps = \<lparr>b_n_tokens = 3, b_token = Some [11, 12, 13], b_embd = None, b_pos = Some ps,
     b_n_seq_id = Some [1, 1, 1], b_seq_id = Some [[0], [1], [0]], b_logits = None\<rparr>"

definition demo_init :: "unit llama_batch \<Rightarrow> unit batch_allocr" where
  "demo_init b = snd (the (allocr_init b 100 None 2 False (allocr_new 1)))"

lemma demo_init_accept:
  "allocr_init demo_batch 100 None 2 False (allocr_new 1) = Some (True, demo_init demo_batch)"
  "allocr_init (demo_batch2 [0, 0, 1]) 100 None 2 False (allocr_new 1) = Some (True, demo_init (demo_batch2 [0, 0, 1]))"
proof -
  have accept: "x = Some (True, snd (the x))" if "case x of None \<Rightarrow> False | Some r \<Rightarrow> fst r" for x :: "(bool \<times> 'a) option"
    using that by (cases x) auto
  show "allocr_init demo_batch 100 None 2 False (allocr_new 1) = Some (True, demo_init demo_batch)"
    unfolding demo_init_def by (rule accept) code_simp
  show "allocr_init (demo_batch2 [0, 0, 1]) 100 None 2 False (allocr_new 1) = Some (True, demo_init (demo_batch2 [0, 0, 1]))"
    unfolding demo_init_def by (rule accept) code_simp
qed

lemma demo_sizes:
  "[0..<b_n_tokens demo_batch] = [0, 1, 2]" "mset [0..<b_n_tokens (demo_batch2 ps)] = {#0, 1, 2#}"
  "ba_n_pos (allocr_new n) = n"
  by (simp_all add: demo_batch_def demo_batch2_def allocr_new_def upt_rec)

theorem simple_split_partitions_witness:
  "\<exists>ubs a' idxss. split_loop (split_simple 2) (demo_init demo_batch) = Some (ubs, a') \<and>
    concat idxss = [0, 1, 2] \<and> list_all2 (ub_carries 1 (init_batch_of None False demo_batch)) idxss ubs"
proof -
  have "b_pos demo_batch \<noteq> None \<or> b_token demo_batch \<noteq> None \<or> ba_n_pos (allocr_new 1 :: unit batch_allocr) \<le> 1"
    by (simp add: demo_batch_def)
  from simple_split_partitions [OF demo_init_accept(1) this, of 2] show ?thesis
    unfolding demo_sizes by blast
qed

text \<open>C20. The same for \<open>split_equal\<close>, when every token belongs to a sequence and, for the sequential
  mode, no sequences are coupled: the loop ends, every token goes into exactly one ubatch, and each ubatch
  is a rectangle of \<open>n_seqs\<close> rows of \<open>n_seq_tokens\<close> tokens, a row being ascending tokens with one and the
  same sequence set and the sets of different rows disjoint. The number of rows is at most
  \<open>n_ubatch + 1\<close>.\<close>

theorem equal_split_partitions:
  assumes "allocr_init inp n_vocab mem n_seq_max output_all a0 = Some (True, a)"
    and "b_pos inp \<noteq> None \<or> b_token inp \<noteq> None \<or> ba_n_pos a0 \<le> 1"
    and "\<forall>i < b_n_tokens inp. 0 < the (b_n_seq_id (init_batch_of mem output_all inp)) ! i"
    and "sequential \<longrightarrow> (\<forall>i < b_n_tokens inp. the (b_n_seq_id (init_batch_of mem output_all inp)) ! i \<le> 1)"
  shows "\<exists>ubs a' idxss. split_loop (split_equal n_ubatch sequential) a = Some (ubs, a') \<and>
    mset (concat idxss) = mset [0..<b_n_tokens inp] \<and> [] \<notin> set idxss \<and>
    list_all2 (ub_carries (ba_n_pos a0) (init_batch_of mem output_all inp)) idxss ubs \<and>
    list_all2 (equal_shape n_ubatch a) idxss ubs"
proof -
  note ok = allocr_init_ok [OF assms(1,2)]
  have cpl: "ba_has_cpl a \<longleftrightarrow> (\<exists>i < b_n_tokens inp. 1 < the (b_n_seq_id (init_batch_of mem output_all inp)) ! i)"
    using assms(1) by (rule allocr_init_accept)
      (simp add: split_reset_sel init_stats_sel get_n_tokens_def init_batch_of_def gen_frame)
  have "token_seq_set (init_batch_of mem output_all inp) i \<noteq> {}" if "i < b_n_tokens inp" for i
    using assms(3) that by (simp add: token_seq_set_def)
  then have "seq_ready sequential a"
    using ok assms(4) cpl by (auto simp: seq_ready_def)
  from equal.split_loop_partitions [OF ok(1) this ok(4), of n_ubatch]
  obtain ubs a' idxss where r: "split_loop (split_equal n_ubatch sequential) a = Some (ubs, a')"
    "split_chain (equal_shape n_ubatch) a idxss ubs a'" "mset (concat idxss) = mset [0..<get_n_tokens a]"
    "[] \<notin> set idxss" "list_all2 (ub_carries (ba_n_pos a) (ba_batch a)) idxss ubs"
    by blast
  moreover have "list_all2 (equal_shape n_ubatch a) idxss ubs"
    using r(2) by (rule split_chain_shape) (rule equal_shape_took)
  ultimately show ?thesis
    unfolding ok(2,3,7) by blast
qed

theorem equal_split_partitions_witness:
  "\<exists>ubs a' idxss. split_loop (split_equal 2 True) (demo_init (demo_batch2 [0, 0, 1])) = Some (ubs, a') \<and>
    mset (concat idxss) = {#0, 1, 2#} \<and> list_all2 (equal_shape 2 (demo_init (demo_batch2 [0, 0, 1]))) idxss ubs"
proof -
  have "b_pos (demo_batch2 [0, 0, 1]) \<noteq> None \<or> b_token (demo_batch2 [0, 0, 1]) \<noteq> None \<or>
      ba_n_pos (allocr_new 1 :: unit batch_allocr) \<le> 1"
    and "\<forall>i < b_n_tokens (demo_batch2 [0, 0, 1]). 0 < the (b_n_seq_id (init_batch_of None False (demo_batch2 [0, 0, 1]))) ! i"
    and "True \<longrightarrow> (\<forall>i < b_n_tokens (demo_batch2 [0, 0, 1]). the (b_n_seq_id (init_batch_of None False (demo_batch2 [0, 0, 1]))) ! i \<le> 1)"
    by (simp add: demo_batch2_def, code_simp, code_simp)
  from equal_split_partitions [OF demo_init_accept(2) this, of 2] show ?thesis
    unfolding demo_sizes by blast
qed

definition token_positions :: "'e llama_batch \<Rightarrow> nat \<Rightarrow> int set" where
  "token_positions b q = {the (b_pos b) ! i | i. i < b_n_tokens b \<and> q \<in> token_seq_set b i}"

lemma no_gaps_interval:
  fixes P :: "int set"
  assumes "finite P" "P \<noteq> {}" "Max P - Min P + 1 \<le> int (card P)"
  shows "P = {Min P..Max P}"
proof (rule card_seteq)
  show "P \<subseteq> {Min P..Max P}"
    using assms by auto
  show "card {Min P..Max P} \<le> card P"
    using assms(3) by simp
qed simp



text \<open>\<open>init\<close> accepts a batch whose positions decrease inside a sequence: the check that compares a
  position with \<open>cur_seq_pos\<close> never assigns \<open>cur_seq_pos\<close>, so only negative positions fail it.\<close>

theorem init_accepts_decreasing_positions:
  "fst (the (allocr_init (demo_batch2 [1, 0, 0]) 100 None 2 False (allocr_new 1)))"
  by code_simp

text \<open>\<open>split_equal\<close> may return a ubatch larger than \<open>n_ubatch\<close>: it stops collecting sequence sets
  only after there are more than \<open>n_ubatch\<close> of them.\<close>

theorem split_equal_exceeds_n_ubatch:
  "ub_n_tokens (fst (the (split_equal 1 False (demo_init (demo_batch2 [0, 0, 1]))))) = 2"
  by code_simp

end
