(* ===== verification/KV_Slots.thy ===== *)
theory KV_Slots
  imports KV_Cache Batch
begin

text \<open>
  Placing ubatches in the cache (\<open>src/src/llama-kv-cache.cpp\<close>): \<open>slot_info\<close>, \<open>find_slot\<close>, \<open>apply_ubatch\<close>,
  \<open>prepare\<close>, \<open>init_batch\<close>, and the memory context \<open>llama_kv_cache_context\<close> with \<open>next\<close> and \<open>apply\<close>. The
  search of \<open>find_slot\<close> is a \<open>while (true)\<close> loop, modelled as a partial function; that it ends is proved.
\<close>

section \<open>Slots\<close>

record slot_info =
  si_s0 :: nat
  si_s1 :: nat
  si_strm :: "nat list"
  si_idxs :: "nat list list"

definition si_none :: slot_info where
  "si_none = \<lparr>si_s0 = 0, si_s1 = 0, si_strm = [], si_idxs = []\<rparr>"

definition si_empty :: "slot_info \<Rightarrow> bool" where
  "si_empty si \<longleftrightarrow> si_idxs si = []"

definition si_n_stream :: "slot_info \<Rightarrow> nat" where
  "si_n_stream si = length (si_strm si)"

definition si_size :: "slot_info \<Rightarrow> nat option" where
  "si_size si = do {
     require (length (si_idxs si) = length (si_strm si));
     require (si_idxs si \<noteq> []);
     Some (length (si_idxs si ! 0)) }"

definition si_head :: "slot_info \<Rightarrow> nat option" where
  "si_head si = do {
     require (length (si_idxs si) = 1);
     require (si_idxs si ! 0 \<noteq> []);
     Some (si_idxs si ! 0 ! 0) }"

definition si_is_contiguous :: "slot_info \<Rightarrow> bool" where
  "si_is_contiguous si =
     (if si_idxs si = [] \<or> si_idxs si ! 0 = [] then True
      else if length (si_idxs si) > 1 then False
      else (let h = si_idxs si ! 0 ! 0
            in list_all (\<lambda>i. si_idxs si ! 0 ! i = h + i) [0..<length (si_idxs si ! 0)]))"

section \<open>Sliding-window mask\<close>

definition is_masked_swa :: "nat \<Rightarrow> swa_type \<Rightarrow> int \<Rightarrow> int \<Rightarrow> bool option" where
  "is_masked_swa n_swa swa p0 p1 = do {
     require (p0 \<ge> 0 \<and> p1 \<ge> 0);
     case swa of
       SWA_NONE \<Rightarrow> Some False
     | SWA_STANDARD \<Rightarrow> Some (p1 - p0 \<ge> int n_swa)
     | SWA_CHUNKED \<Rightarrow> do { require (n_swa > 0); Some (p0 < (p1 div int n_swa) * int n_swa) }
     | SWA_SYMMETRIC \<Rightarrow> (let half = int (n_swa div 2); diff = p1 - p0 in Some (diff < - half \<or> diff > half)) }"

section \<open>Finding a slot\<close>

definition cell_usable :: "kv_cache \<Rightarrow> llama_kv_cells \<Rightarrow> nat \<Rightarrow> bool option" where
  "cell_usable kv c idx = do {
     e \<leftarrow> cells_is_empty idx c;
     if e then Some True
     else do {
       n \<leftarrow> cells_seq_count idx c;
       if n = 1 then do {
         pos \<leftarrow> cells_pos_get idx c;
         seq \<leftarrow> cells_seq_get idx c;
         mx \<leftarrow> cells_seq_pos_max (nat seq) c;
         p1 \<leftarrow> i32 (mx + 1);
         is_masked_swa (kv_n_swa kv) (kv_swa_type kv) pos p1 }
       else Some False } }"

text \<open>The inner loop tests \<open>n_test\<close> cells; with \<open>cont\<close> it stops at the first unusable one.\<close>

fun scan_cells ::
  "kv_cache \<Rightarrow> bool \<Rightarrow> llama_kv_cells \<Rightarrow> nat \<Rightarrow> nat \<times> nat \<times> nat list \<Rightarrow> (nat \<times> nat \<times> nat list) option" where
  "scan_cells kv cont c 0 st = Some st"
| "scan_cells kv cont c (Suc k) (head, tested, idxs) = do {
     use \<leftarrow> cell_usable kv c head;
     if use then scan_cells kv cont c k (head + 1, tested + 1, idxs @ [head])
     else if cont then Some (head + 1, tested + 1, idxs)
     else scan_cells kv cont c k (head + 1, tested + 1, idxs) }"

partial_function (option) search_slot ::
  "kv_cache \<Rightarrow> bool \<Rightarrow> llama_kv_cells \<Rightarrow> nat \<Rightarrow> nat \<Rightarrow> nat \<Rightarrow> nat \<Rightarrow> nat list \<Rightarrow> nat list option option" where
  "search_slot kv cont c n_tokens n_test head tested idxs =
     (if head + n_test > cells_size c
      then (if head \<le> cells_size c then search_slot kv cont c n_tokens n_test 0 (tested + (cells_size c - head)) idxs else None)
      else do {
        st \<leftarrow> scan_cells kv cont c n_test (head, tested, idxs);
        if length (snd (snd st)) = n_tokens then Some (Some (snd (snd st)))
        else if fst (snd st) \<ge> cells_size c then Some None
        else search_slot kv cont c n_tokens n_test (fst st) (fst (snd st)) (if cont then [] else snd (snd st)) })"

declare search_slot.simps [code]

definition find_slot_stream :: "kv_cache \<Rightarrow> bool \<Rightarrow> nat \<Rightarrow> nat \<Rightarrow> nat list option option" where
  "find_slot_stream kv cont n_tokens strm = do {
     require (strm < length (kv_cells kv) \<and> strm < length (kv_heads kv));
     let c = kv_cells kv ! strm;
     let head = (if kv_heads kv ! strm > cells_get_used c + 2 * n_tokens then 0 else kv_heads kv ! strm);
     if n_tokens > cells_size c then Some None
     else do {
       r \<leftarrow> search_slot kv cont c n_tokens (if cont then n_tokens else 1) head 0 [];
       Some (case r of None \<Rightarrow> None | Some idxs \<Rightarrow> if length idxs < n_tokens then None else Some idxs) } }"

definition find_slot_step ::
  "kv_cache \<Rightarrow> 'e llama_ubatch \<Rightarrow> bool \<Rightarrow> nat \<Rightarrow> nat \<Rightarrow> slot_info option \<Rightarrow> slot_info option option" where
  "find_slot_step kv ub cont n_tokens s res = (case res of
       None \<Rightarrow> Some None
     | Some si \<Rightarrow> do {
         require (s < length (ub_seq_id_unq ub));
         let seq_id = ub_seq_id_unq ub ! s;
         require (kv_n_stream kv > 1 \<longrightarrow> s * n_tokens < length (ub_n_seq_id ub) \<and> ub_n_seq_id ub ! (s * n_tokens) = 1 \<and>
           ub_seq_id ub ! (s * n_tokens) ! 0 = int seq_id);
         require (seq_id < length (kv_seq_to_stream kv));
         let strm = kv_seq_to_stream kv ! seq_id;
         r \<leftarrow> find_slot_stream kv cont n_tokens strm;
         Some (case r of None \<Rightarrow> None
           | Some idxs \<Rightarrow> Some \<lparr>si_s0 = min (si_s0 si) strm, si_s1 = max (si_s1 si) strm,
               si_strm = si_strm si @ [strm], si_idxs = si_idxs si @ [idxs]\<rparr>) })"

definition find_slot :: "kv_cache \<Rightarrow> 'e llama_ubatch \<Rightarrow> bool \<Rightarrow> slot_info option" where
  "find_slot kv ub cont = do {
     require (kv_n_stream kv > 1 \<longrightarrow> ub_n_seqs_unq ub > 0 \<and> ub_n_tokens ub mod ub_n_seqs_unq ub = 0);
     let n_seqs = (if kv_n_stream kv > 1 then ub_n_seqs_unq ub else 1);
     let n_tokens = ub_n_tokens ub div n_seqs;
     r \<leftarrow> mfold (find_slot_step kv ub cont n_tokens) [0..<n_seqs]
            (Some \<lparr>si_s0 = LLAMA_MAX_SEQ, si_s1 = 0, si_strm = [], si_idxs = []\<rparr>);
     case r of None \<Rightarrow> Some si_none
     | Some si \<Rightarrow> do { require (si_s1 si \<ge> si_s0 si); Some si } }"

section \<open>Placing a ubatch\<close>

text \<open>One token goes into cell \<open>idx\<close>; \<open>rm\<close> is \<open>seq_pos_max_rm\<close>, the greatest position overwritten per
  sequence.\<close>

definition evict_cell :: "nat \<Rightarrow> llama_kv_cells \<times> int list \<Rightarrow> (llama_kv_cells \<times> int list) option" where
  "evict_cell idx = (\<lambda>(c, rm). do {
     e \<leftarrow> cells_is_empty idx c;
     if e then Some (c, rm)
     else do {
       n \<leftarrow> cells_seq_count idx c;
       require (n = 1);
       seq \<leftarrow> cells_seq_get idx c;
       pos \<leftarrow> cells_pos_get idx c;
       c' \<leftarrow> cells_rm idx c;
       Some (c', rm[nat seq := max (rm ! nat seq) pos]) } })"

definition place_token ::
  "'e llama_ubatch \<Rightarrow> nat \<Rightarrow> nat \<Rightarrow> llama_kv_cells \<times> int list \<Rightarrow> (llama_kv_cells \<times> int list) option" where
  "place_token ub i idx st = do {
     (c, rm) \<leftarrow> evict_cell idx st;
     require (i < length (ub_pos ub) \<and> i < length (ub_n_seq_id ub) \<and> i < length (ub_seq_id ub));
     c1 \<leftarrow> cells_pos_set idx (ub_pos ub ! i) c;
     c2 \<leftarrow> (if is_pos_2d ub then do {
               require (i + ub_n_tokens ub * 2 < length (ub_pos ub));
               cells_ext_set idx \<lparr>ext_x = ub_pos ub ! (i + ub_n_tokens ub * 2), ext_y = ub_pos ub ! (i + ub_n_tokens ub)\<rparr> c1 }
             else Some c1);
     require (ub_n_seq_id ub ! i \<le> length (ub_seq_id ub ! i));
     c3 \<leftarrow> mfold (\<lambda>q c. do { require (q \<ge> 0); cells_seq_add idx (nat q) c }) (take (ub_n_seq_id ub ! i) (ub_seq_id ub ! i)) c2;
     Some (c3, rm) }"

definition place_stream ::
  "'e llama_ubatch \<Rightarrow> slot_info \<Rightarrow> nat \<Rightarrow> nat \<Rightarrow> kv_cache \<times> int list \<Rightarrow> (kv_cache \<times> int list) option" where
  "place_stream ub si n s = (\<lambda>(kv, rm). do {
     let strm = si_strm si ! s;
     require (strm < length (kv_cells kv) \<and> n \<le> length (si_idxs si ! s));
     (c, rm') \<leftarrow> mfold (\<lambda>ii. place_token ub (s * n + ii) (si_idxs si ! s ! ii)) [0..<n] (kv_cells kv ! strm, rm);
     Some (kv\<lparr>kv_cells := (kv_cells kv)[strm := c]\<rparr>, rm') })"

definition purge_seq :: "int list \<Rightarrow> nat \<Rightarrow> kv_cache \<Rightarrow> kv_cache option" where
  "purge_seq rm s kv =
     (if rm ! s = - 1 then Some kv
      else do {
        require (s < length (kv_seq_to_stream kv));
        mn \<leftarrow> cells_seq_pos_min s (kv_cells kv ! (kv_seq_to_stream kv ! s));
        if mn \<le> rm ! s then do {
          p1 \<leftarrow> i32 (rm ! s + 1);
          map_option snd (kv_seq_rm (int s) mn p1 kv) }
        else Some kv })"

definition advance_head :: "slot_info \<Rightarrow> nat \<Rightarrow> kv_cache \<Rightarrow> kv_cache option" where
  "advance_head si s kv = do {
     require (si_idxs si ! s \<noteq> []);
     Some (kv\<lparr>kv_heads := (kv_heads kv)[si_strm si ! s := last (si_idxs si ! s) + 1]\<rparr>) }"

definition apply_ubatch :: "slot_info \<Rightarrow> 'e llama_ubatch \<Rightarrow> kv_cache \<Rightarrow> kv_cache option" where
  "apply_ubatch si ub kv = do {
     n \<leftarrow> si_size si;
     require (ub_n_tokens ub = si_n_stream si * n);
     (kv1, rm) \<leftarrow> mfold (place_stream ub si n) [0..<si_n_stream si] (kv, replicate LLAMA_MAX_SEQ (- 1));
     kv2 \<leftarrow> mfold (purge_seq rm) [0..<LLAMA_MAX_SEQ] kv1;
     mfold (advance_head si) [0..<si_n_stream si] kv2 }"

section \<open>Preparing a batch\<close>

text \<open>The recovery stack: the slot, all heads before, and a copy of the cells of the slot per stream. The
  most recent entry comes first.\<close>

record prep_state =
  ps_sinfo :: slot_info
  ps_heads_old :: "nat list"
  ps_cells :: "llama_kv_cells list"

definition save_cells :: "slot_info \<Rightarrow> kv_cache \<Rightarrow> llama_kv_cells list option" where
  "save_cells si kv = mfold (\<lambda>s acc. do {
     require (si_strm si ! s < length (kv_cells kv));
     o' \<leftarrow> cells_cp_idxs (si_idxs si ! s) (kv_cells kv ! (si_strm si ! s));
     Some (acc @ [o']) }) [0..<si_n_stream si] []"

fun prepare_loop ::
  "'e llama_ubatch list \<Rightarrow> slot_info list \<Rightarrow> prep_state list \<Rightarrow> kv_cache \<Rightarrow> (bool \<times> slot_info list \<times> prep_state list \<times> kv_cache) option" where
  "prepare_loop [] res states kv = Some (True, res, states, kv)"
| "prepare_loop (ub # ubs) res states kv = do {
     si \<leftarrow> find_slot kv ub False;
     if si_empty si then Some (False, res, states, kv)
     else do {
       saved \<leftarrow> save_cells si kv;
       kv' \<leftarrow> apply_ubatch si ub kv;
       prepare_loop ubs (res @ [si]) (\<lparr>ps_sinfo = si, ps_heads_old = kv_heads kv, ps_cells = saved\<rparr> # states) kv' } }"

text \<open>Restoring indexes the old heads with the position of the stream in the slot, not with the
  stream.\<close>

definition restore_stream :: "prep_state \<Rightarrow> nat \<Rightarrow> kv_cache \<Rightarrow> kv_cache option" where
  "restore_stream st s kv = do {
     let strm = si_strm (ps_sinfo st) ! s;
     require (strm < length (kv_cells kv) \<and> strm < length (kv_heads kv) \<and> s < length (ps_heads_old st));
     c \<leftarrow> cells_set_idxs (si_idxs (ps_sinfo st) ! s) (ps_cells st ! s) (kv_cells kv ! strm);
     Some (kv\<lparr>kv_cells := (kv_cells kv)[strm := c], kv_heads := (kv_heads kv)[strm := ps_heads_old st ! s]\<rparr>) }"

definition restore_state :: "prep_state \<Rightarrow> kv_cache \<Rightarrow> kv_cache option" where
  "restore_state st kv = mfold (restore_stream st) [0..<si_n_stream (ps_sinfo st)] kv"

definition prepare :: "'e llama_ubatch list \<Rightarrow> kv_cache \<Rightarrow> (slot_info list \<times> kv_cache) option" where
  "prepare ubs kv = do {
     (success, res, states, kv1) \<leftarrow> prepare_loop ubs [] [] kv;
     require (states \<noteq> [] \<or> \<not> success);
     kv2 \<leftarrow> mfold restore_state states kv1;
     Some (if success then res else [], kv2) }"

section \<open>Memory contexts\<close>

record 'e kv_context =
  cx_status :: llama_memory_status
  cx_sinfos :: "slot_info list"
  cx_ubatches :: "'e llama_ubatch list"
  cx_i_cur :: nat
  cx_do_shift :: bool
  cx_sc_info :: stream_copy_info
  cx_n_kv :: nat

definition ctx_status :: "llama_memory_status \<Rightarrow> 'e kv_context" where
  "ctx_status st = \<lparr>cx_status = st, cx_sinfos = [], cx_ubatches = [], cx_i_cur = 0, cx_do_shift = False,
     cx_sc_info = \<lparr>sc_ssrc = [], sc_sdst = []\<rparr>, cx_n_kv = 0\<rparr>"

definition ctx_batch :: "slot_info list \<Rightarrow> 'e llama_ubatch list \<Rightarrow> 'e kv_context" where
  "ctx_batch sinfos ubs = (ctx_status STATUS_SUCCESS)\<lparr>cx_sinfos := sinfos, cx_ubatches := ubs\<rparr>"

definition init_full :: "kv_cache \<Rightarrow> 'e kv_context" where
  "init_full kv = (ctx_status STATUS_SUCCESS)\<lparr>cx_n_kv := get_size kv,
     cx_sinfos := [\<lparr>si_s0 = 0, si_s1 = kv_n_stream kv - 1, si_strm = [0..<kv_n_stream kv],
       si_idxs = replicate (kv_n_stream kv) [0]\<rparr>]\<rparr>"

definition init_update :: "kv_cache \<Rightarrow> ('e kv_context \<times> kv_cache) option" where
  "init_update kv = do {
     let do_shift = get_has_shift kv;
     none \<leftarrow> sc_empty (kv_sc_info kv);
     Some ((ctx_status (if \<not> do_shift \<and> none then STATUS_NO_UPDATE else STATUS_SUCCESS))
             \<lparr>cx_do_shift := do_shift, cx_sc_info := kv_sc_info kv\<rparr>,
           kv\<lparr>kv_sc_info := \<lparr>sc_ssrc = [], sc_sdst = []\<rparr>\<rparr>) }"

definition init_batch ::
  "nat \<Rightarrow> 'e batch_allocr \<Rightarrow> kv_cache \<Rightarrow> ('e kv_context \<times> 'e batch_allocr \<times> kv_cache) option" where
  "init_batch n_ubatch a kv = do {
     (ubs, a') \<leftarrow> split_loop (if kv_n_stream kv = 1 then split_simple n_ubatch else split_equal n_ubatch True) (split_reset a);
     if ba_n_used a' < get_n_tokens a' then Some (ctx_status STATUS_FAILED_PREPARE, a', kv)
     else do {
       (sinfos, kv') \<leftarrow> prepare ubs kv;
       if sinfos = [] then Some (ctx_status STATUS_FAILED_PREPARE, a', kv')
       else Some (ctx_batch sinfos ubs, a', kv') } }"

definition get_n_kv :: "slot_info \<Rightarrow> kv_cache \<Rightarrow> nat" where
  "get_n_kv si kv = (let n_pad_cur = max (kv_n_pad kv) 256
     in fold (\<lambda>s result. let c = kv_cells kv ! (si_strm si ! s);
                             padded = (cells_used_max_p1 c + n_pad_cur - 1) div n_pad_cur * n_pad_cur
                         in max (min (cells_size c) (max n_pad_cur padded)) result) [0..<si_n_stream si] 0)"

definition ctx_next :: "'e kv_context \<Rightarrow> (bool \<times> 'e kv_context) option" where
  "ctx_next ctx = do {
     require (cx_status ctx = STATUS_SUCCESS);
     let ctx' = ctx\<lparr>cx_i_cur := cx_i_cur ctx + 1\<rparr>;
     Some (\<not> cx_i_cur ctx' \<ge> length (cx_ubatches ctx'), ctx') }"

definition ctx_apply ::
  "'f tri_attention \<Rightarrow> bool \<Rightarrow> 'e kv_context \<Rightarrow> kv_cache \<Rightarrow> ('e kv_context \<times> kv_cache) option" where
  "ctx_apply tri computed ctx kv = do {
     require (\<not> llama_memory_status_is_fail (cx_status ctx));
     if cx_ubatches ctx = [] then do {
       (_, kv') \<leftarrow> kv_update computed (cx_do_shift ctx) (cx_sc_info ctx) kv;
       Some (ctx, kv') }
     else do {
       require (cx_i_cur ctx < length (cx_sinfos ctx) \<and> cx_i_cur ctx < length (cx_ubatches ctx));
       let si = cx_sinfos ctx ! cx_i_cur ctx;
       kv1 \<leftarrow> apply_ubatch si (cx_ubatches ctx ! cx_i_cur ctx) kv;
       let n_kv = get_n_kv si kv1;
       pool \<leftarrow> pg_alloc_for_sinfo tri (si_strm si) (si_idxs si) (kv_pool kv1);
       Some (ctx\<lparr>cx_n_kv := n_kv\<rparr>, kv1\<lparr>kv_pool := pool\<rparr>) } }"

section \<open>Evaluation\<close>

text \<open>Most ubatches overwrite no cell; then the loop over all sequences does nothing and evaluation skips it.\<close>

lemma purge_idle: "(\<And>s. s \<in> set ss \<Longrightarrow> rm ! s = - 1) \<Longrightarrow> mfold (purge_seq rm) ss kv = Some kv"
  by (induction ss) (simp_all add: purge_seq_def)

lemma apply_ubatch_code [code]:
  "apply_ubatch si ub kv = do {
     n \<leftarrow> si_size si;
     require (ub_n_tokens ub = si_n_stream si * n);
     (kv1, rm) \<leftarrow> mfold (place_stream ub si n) [0..<si_n_stream si] (kv, replicate LLAMA_MAX_SEQ (- 1));
     kv2 \<leftarrow> (if length rm = LLAMA_MAX_SEQ \<and> list_all (\<lambda>p. p = - 1) rm then Some kv1 else mfold (purge_seq rm) [0..<LLAMA_MAX_SEQ] kv1);
     mfold (advance_head si) [0..<si_n_stream si] kv2 }"
proof -
  have "(if length rm = LLAMA_MAX_SEQ \<and> list_all (\<lambda>p. p = - 1) rm then Some kv1 else mfold (purge_seq rm) [0..<LLAMA_MAX_SEQ] kv1) =
    mfold (purge_seq rm) [0..<LLAMA_MAX_SEQ] kv1" for rm kv1
    using purge_idle [of "[0..<LLAMA_MAX_SEQ]" rm kv1] by (auto simp: list_all_length)
  then show ?thesis
    by (simp only: apply_ubatch_def)
qed

section \<open>The search ends and finds what there is\<close>

definition swa_masked :: "nat \<Rightarrow> swa_type \<Rightarrow> int \<Rightarrow> int \<Rightarrow> bool" where
  "swa_masked n_swa swa p0 p1 \<longleftrightarrow> (case swa of
       SWA_NONE \<Rightarrow> False
     | SWA_STANDARD \<Rightarrow> p1 - p0 \<ge> int n_swa
     | SWA_CHUNKED \<Rightarrow> p0 < (p1 div int n_swa) * int n_swa
     | SWA_SYMMETRIC \<Rightarrow> \<bar>p1 - p0\<bar> > int (n_swa div 2))"

lemma is_masked_swa_eq:
  assumes "0 \<le> p0" "0 \<le> p1" "swa = SWA_CHUNKED \<longrightarrow> 0 < n_swa"
  shows "is_masked_swa n_swa swa p0 p1 = Some (swa_masked n_swa swa p0 p1)"
  using assms by (cases swa) (auto simp: is_masked_swa_def swa_masked_def Let_def)

text \<open>A cell can be used if it is empty, or if it belongs to one sequence only and lies outside the window
  of the next position of that sequence.\<close>

definition usable :: "kv_cache \<Rightarrow> llama_kv_cells \<Rightarrow> nat \<Rightarrow> bool" where
  "usable kv c i \<longleftrightarrow> (case cell_view c i of
       None \<Rightarrow> True
     | Some x \<Rightarrow> card (cell_seqs x) = 1 \<and>
         swa_masked (kv_n_swa kv) (kv_swa_type kv) (cell_pos x)
           (Max_mset (view_mset (cells_view c) (the_elem (cell_seqs x))) + 1))"

definition below_max :: "llama_kv_cells \<Rightarrow> bool" where
  "below_max c \<longleftrightarrow> (\<forall>i < cells_size c. opt_all (\<lambda>x. cell_pos x < INT32_MAX) (cell_view c i))"

definition swa_ok :: "kv_cache \<Rightarrow> bool" where
  "swa_ok kv \<longleftrightarrow> (kv_swa_type kv = SWA_CHUNKED \<longrightarrow> 0 < kv_n_swa kv)"

lemma view_mset_bounds:
  assumes "kv_cells_inv c" "below_max c" "p \<in># view_mset (cells_view c) s"
  shows "0 \<le> p" "p < INT32_MAX"
proof -
  obtain i S h where i: "i < cells_size c" "cell_view c i = Some (Cell p S h)"
    using assms(3) by (auto simp: in_view_mset_iff)
  show "p < INT32_MAX"
    using assms(2) i by (auto simp: below_max_def)
  show "0 \<le> p"
    using cells_wf_cell(1) [OF cells_inv_wf [OF assms(1)] i(1)] i(2) by (auto simp: cell_view_def split: if_splits)
qed

lemma cell_usable_eq:
  assumes "kv_cells_inv c" "below_max c" "swa_ok kv" "i < cells_size c"
  shows "cell_usable kv c i = Some (usable kv c i)"
proof (cases "cell_view c i")
  case None
  then show ?thesis
    using assms by (simp add: cell_usable_def cells_is_empty_view usable_def)
next
  case (Some x)
  show ?thesis
  proof (cases "card (cell_seqs x) = 1")
    case False
    then show ?thesis
      using assms Some by (simp add: cell_usable_def cells_is_empty_view cells_seq_count_view usable_def)
  next
    case True
    then obtain s where s: "cell_seqs x = {s}"
      by (auto simp: card_1_singleton_iff)
    have s_lt: "s < LLAMA_MAX_SEQ"
      using cells_wf_cell(3) [OF cells_inv_wf [OF assms(1)] assms(4)] Some s
      by (auto simp: cell_view_def split: if_splits)
    let ?M = "view_mset (cells_view c) s"
    have mem: "cell_pos x \<in># ?M"
      using Some s assms(4) by (cases x) (auto simp: in_view_mset_iff)
    have mx: "0 \<le> Max_mset ?M" "Max_mset ?M < INT32_MAX"
      using view_mset_bounds [OF assms(1,2), of "Max_mset ?M" s] mem by (auto intro: Max_in)
    have "cells_seq_pos_max s c = Some (Max_mset ?M)"
      using cells_seq_pos_max_view [OF assms(1) s_lt] mem by auto
    moreover have "i32 (Max_mset ?M + 1) = Some (Max_mset ?M + 1)"
      using mx by (simp add: in_i32_def INT32_MIN_def)
    moreover have "0 \<le> cell_pos x"
      using view_mset_bounds(1) [OF assms(1,2) mem] .
    ultimately show ?thesis
      using assms Some s True mx(1)
      by (simp add: cell_usable_def cells_is_empty_view cells_seq_count_view cells_pos_get_view cells_seq_get_view
          is_masked_swa_eq swa_ok_def usable_def)
  qed
qed

definition pick :: "nat \<Rightarrow> nat list \<Rightarrow> nat list option" where
  "pick n xs = (if n \<le> length xs then Some (take n xs) else None)"

lemma search_second:
  assumes cell: "\<And>i. i < cells_size c \<Longrightarrow> cell_usable kv c i = Some (U i)"
    and "head < h" "h \<le> cells_size c" "tested + (h - head) = cells_size c" "length idxs < n"
  shows "search_slot kv False c n 1 head tested idxs = Some (pick n (idxs @ filter U [head..<h]))"
  using assms(2-)
proof (induction "h - head" arbitrary: head tested idxs)
  case (Suc k)
  have upt: "[head..<h] = head # [Suc head..<h]"
    using Suc.prems by (simp add: upt_conv_Cons)
  let ?idxs = "if U head then idxs @ [head] else idxs"
  have scan: "scan_cells kv False c 1 (head, tested, idxs) = Some (head + 1, tested + 1, ?idxs)"
    using cell [of head] Suc.prems by (simp add: numeral_eq_Suc)
  have "search_slot kv False c n 1 head tested idxs =
      (if length ?idxs = n then Some (Some ?idxs) else if tested + 1 \<ge> cells_size c then Some None
       else search_slot kv False c n 1 (head + 1) (tested + 1) ?idxs)"
    using scan Suc.prems by (subst search_slot.simps) simp
  moreover have "search_slot kv False c n 1 (head + 1) (tested + 1) ?idxs = Some (pick n (?idxs @ filter U [head + 1..<h]))"
    if "length ?idxs < n" "head + 1 < h"
    using Suc.hyps(1) [of "head + 1" "tested + 1" ?idxs] Suc.hyps(2) Suc.prems that by simp
  ultimately show ?case
    using Suc.prems unfolding upt by (cases "head + 1 = h") (auto simp: pick_def)
qed simp

lemma search_first:
  assumes cell: "\<And>i. i < cells_size c \<Longrightarrow> cell_usable kv c i = Some (U i)"
    and "h \<le> head" "head \<le> cells_size c" "tested = head - h" "tested < cells_size c" "length idxs < n"
  shows "search_slot kv False c n 1 head tested idxs = Some (pick n (idxs @ filter U ([head..<cells_size c] @ [0..<h])))"
  using assms(2-)
proof (induction "cells_size c - head" arbitrary: head tested idxs)
  case 0
  then have "search_slot kv False c n 1 head tested idxs = search_slot kv False c n 1 0 tested idxs"
    by (subst search_slot.simps) simp
  then show ?case
    using search_second [OF cell, of 0 h tested idxs n] 0 by simp
next
  case (Suc k)
  have lt: "head < cells_size c"
    using Suc.hyps(2) by simp
  then have upt: "[head..<cells_size c] = head # [Suc head..<cells_size c]"
    by (simp add: upt_conv_Cons)
  let ?idxs = "if U head then idxs @ [head] else idxs"
  have scan: "scan_cells kv False c 1 (head, tested, idxs) = Some (head + 1, tested + 1, ?idxs)"
    using cell [of head] lt by (simp add: numeral_eq_Suc)
  have "search_slot kv False c n 1 head tested idxs =
      (if length ?idxs = n then Some (Some ?idxs) else if tested + 1 \<ge> cells_size c then Some None
       else search_slot kv False c n 1 (head + 1) (tested + 1) ?idxs)"
    using scan lt by (subst search_slot.simps) simp
  note step = this
  have rest: "idxs @ filter U ([head..<cells_size c] @ [0..<h]) = ?idxs @ filter U ([head + 1..<cells_size c] @ [0..<h])"
    unfolding upt by simp
  consider "length ?idxs = n" | "length ?idxs < n" "tested + 1 < cells_size c"
    | "length ?idxs < n" "head + 1 = cells_size c" "h = 0" "\<not> tested + 1 < cells_size c"
    using Suc.prems lt by (cases "U head") (auto, linarith+)
  then show ?case
  proof cases
    case 1
    then show ?thesis
      unfolding rest step by (simp add: pick_def)
  next
    case 2
    have "search_slot kv False c n 1 (head + 1) (tested + 1) ?idxs =
        Some (pick n (?idxs @ filter U ([head + 1..<cells_size c] @ [0..<h])))"
      by (rule Suc.hyps(1)) (use Suc.hyps(2) Suc.prems 2 in auto)
    then show ?thesis
      unfolding rest step using 2 by simp
  next
    case 3
    then show ?thesis
      unfolding rest step by (simp add: pick_def)
  qed
qed

text \<open>The cells in the order in which the search visits them.\<close>

definition ring :: "nat \<Rightarrow> nat \<Rightarrow> nat list" where
  "ring h n = [h..<n] @ [0..<h]"

definition start_head :: "kv_cache \<Rightarrow> nat \<Rightarrow> nat \<Rightarrow> nat" where
  "start_head kv n strm =
     (if kv_heads kv ! strm > cells_get_used (kv_cells kv ! strm) + 2 * n then 0 else kv_heads kv ! strm)"

definition slot_for :: "kv_cache \<Rightarrow> nat \<Rightarrow> nat \<Rightarrow> nat list option" where
  "slot_for kv n strm = pick n (filter (usable kv (kv_cells kv ! strm)) (ring (start_head kv n strm) (get_size kv)))"

lemma ring_set: "h \<le> n \<Longrightarrow> distinct (ring h n) \<and> set (ring h n) = {..<n}"
  by (auto simp: ring_def)

lemma start_head_le: "kv_cache_inv m kv \<Longrightarrow> strm < kv_n_stream kv \<Longrightarrow> start_head kv n strm \<le> m"
  using kv_inv_cells(6) [of m kv strm] by (auto simp: start_head_def)

definition kv_bounded :: "kv_cache \<Rightarrow> bool" where
  "kv_bounded kv \<longleftrightarrow> swa_ok kv \<and> (\<forall>c \<in> set (kv_cells kv). below_max c)"

lemma find_slot_stream_eq:
  assumes inv: "kv_cache_inv m kv" and bnd: "kv_bounded kv" and strm: "strm < kv_n_stream kv" and n: "0 < n"
  shows "find_slot_stream kv False n strm = Some (slot_for kv n strm)"
proof -
  let ?c = "kv_cells kv ! strm"
  let ?U = "usable kv ?c"
  note c = kv_inv_cells [OF inv strm]
  have size: "get_size kv = m" "cells_size ?c = m"
    using c get_size_inv [OF inv] by auto
  have h: "start_head kv n strm \<le> m"
    by (rule start_head_le [OF inv strm])
  have cell: "cell_usable kv ?c i = Some (?U i)" if "i < cells_size ?c" for i
    by (rule cell_usable_eq) (use c bnd that in \<open>auto simp: kv_bounded_def\<close>)
  have len: "length (filter ?U (ring (start_head kv n strm) m)) \<le> m"
    using length_filter_le [of ?U "ring (start_head kv n strm) m"] h by (simp add: ring_def)
  show ?thesis
  proof (cases "n \<le> m")
    case False
    then show ?thesis
      using c size len by (simp add: find_slot_stream_def slot_for_def pick_def Let_def)
  next
    case True
    have "search_slot kv False ?c n 1 (start_head kv n strm) 0 [] = Some (slot_for kv n strm)"
      unfolding slot_for_def ring_def size
      by (subst search_first [OF cell]) (use h n True size in auto)
    then show ?thesis
      using c size True
      by (auto simp: find_slot_stream_def start_head_def slot_for_def pick_def Let_def)
  qed
qed

text \<open>What \<open>find_slot\<close> asks of a ubatch: with several streams the tokens come in rows of equal length, one
  sequence and so one stream per row.\<close>

definition n_rows :: "kv_cache \<Rightarrow> 'e llama_ubatch \<Rightarrow> nat" where
  "n_rows kv ub = (if kv_n_stream kv > 1 then ub_n_seqs_unq ub else 1)"

definition row_len :: "kv_cache \<Rightarrow> 'e llama_ubatch \<Rightarrow> nat" where
  "row_len kv ub = ub_n_tokens ub div n_rows kv ub"

definition row_stream :: "kv_cache \<Rightarrow> 'e llama_ubatch \<Rightarrow> nat \<Rightarrow> nat" where
  "row_stream kv ub s = kv_seq_to_stream kv ! (ub_seq_id_unq ub ! s)"

definition ub_rows_ok :: "kv_cache \<Rightarrow> 'e llama_ubatch \<Rightarrow> bool" where
  "ub_rows_ok kv ub \<longleftrightarrow>
     0 < n_rows kv ub \<and> ub_n_tokens ub mod n_rows kv ub = 0 \<and> 0 < ub_n_tokens ub \<and>
     n_rows kv ub \<le> length (ub_seq_id_unq ub) \<and> (\<forall>s < n_rows kv ub. ub_seq_id_unq ub ! s < LLAMA_MAX_SEQ) \<and>
     (kv_n_stream kv > 1 \<longrightarrow> (\<forall>s < n_rows kv ub. s * row_len kv ub < length (ub_n_seq_id ub) \<and>
        ub_n_seq_id ub ! (s * row_len kv ub) = 1 \<and> ub_seq_id ub ! (s * row_len kv ub) ! 0 = int (ub_seq_id_unq ub ! s)))"

lemma row_len_pos: "ub_rows_ok kv ub \<Longrightarrow> 0 < row_len kv ub"
  by (auto simp: ub_rows_ok_def row_len_def dest: mod_less)

lemma row_stream_less:
  "kv_cache_inv m kv \<Longrightarrow> ub_rows_ok kv ub \<Longrightarrow> s < n_rows kv ub \<Longrightarrow> row_stream kv ub s < kv_n_stream kv"
  by (auto simp: ub_rows_ok_def row_stream_def kv_cache_inv_def)

definition slot_of_rows :: "nat list \<Rightarrow> nat list list option \<Rightarrow> slot_info option" where
  "slot_of_rows strms r = (case r of None \<Rightarrow> None
     | Some idxs \<Rightarrow> Some \<lparr>si_s0 = fold min strms LLAMA_MAX_SEQ, si_s1 = fold max strms 0, si_strm = strms, si_idxs = idxs\<rparr>)"

fun all_slots :: "nat list option list \<Rightarrow> nat list list option" where
  "all_slots [] = Some []"
| "all_slots (x # xs) = do { y \<leftarrow> x; ys \<leftarrow> all_slots xs; Some (y # ys) }"

lemma all_slots_snoc:
  "all_slots (xs @ [x]) = do { ys \<leftarrow> all_slots xs; y \<leftarrow> x; Some (ys @ [y]) }"
  by (induction xs) (auto split: bind_splits)

lemma all_slots_Some: "all_slots xs = Some ys \<longleftrightarrow> xs = map Some ys"
  by (induction xs arbitrary: ys) (auto simp: bind_Some_iff)

lemma all_slots_None: "all_slots xs = None \<longleftrightarrow> None \<in> set xs"
proof -
  have "None \<notin> set xs" if "all_slots xs \<noteq> None"
    using that by (auto simp: all_slots_Some)
  moreover have "None \<in> set xs" if "all_slots xs = None"
    using that by (induction xs) (auto split: bind_splits)
  ultimately show ?thesis by blast
qed

lemma find_slot_steps:
  assumes inv: "kv_cache_inv m kv" and bnd: "kv_bounded kv" and ok: "ub_rows_ok kv ub" and k: "k \<le> n_rows kv ub"
  defines "strms \<equiv> map (row_stream kv ub) [0..<k]"
  shows "mfold (find_slot_step kv ub False (row_len kv ub)) [0..<k]
      (Some \<lparr>si_s0 = LLAMA_MAX_SEQ, si_s1 = 0, si_strm = [], si_idxs = []\<rparr>) =
    Some (slot_of_rows strms (all_slots (map (slot_for kv (row_len kv ub)) strms)))"
  using k unfolding strms_def
proof (induction k)
  case 0
  then show ?case by (simp add: slot_of_rows_def)
next
  case (Suc k)
  let ?n = "row_len kv ub"
  have strm: "row_stream kv ub k < kv_n_stream kv"
    using row_stream_less [OF inv ok] Suc.prems by simp
  have "find_slot_step kv ub False ?n k (Some si) =
      Some (case slot_for kv ?n (row_stream kv ub k) of None \<Rightarrow> None
        | Some idxs \<Rightarrow> Some \<lparr>si_s0 = min (si_s0 si) (row_stream kv ub k), si_s1 = max (si_s1 si) (row_stream kv ub k),
               si_strm = si_strm si @ [row_stream kv ub k], si_idxs = si_idxs si @ [idxs]\<rparr>)" for si
    using find_slot_stream_eq [OF inv bnd strm row_len_pos [OF ok]] ok inv Suc.prems unfolding row_stream_def
    by (simp add: find_slot_step_def Let_def ub_rows_ok_def kv_cache_inv_def)
  then show ?case
    using Suc by (auto simp: mfold_append slot_of_rows_def all_slots_snoc find_slot_step_def min.commute max.commute
        split: option.splits bind_splits)
qed

lemma find_slot_eq:
  assumes inv: "kv_cache_inv m kv" and bnd: "kv_bounded kv" and ok: "ub_rows_ok kv ub"
  defines "strms \<equiv> map (row_stream kv ub) [0..<n_rows kv ub]"
  shows "find_slot kv ub False =
    Some (case slot_of_rows strms (all_slots (map (slot_for kv (row_len kv ub)) strms)) of None \<Rightarrow> si_none | Some si \<Rightarrow> si)"
proof -
  have "row_stream kv ub 0 \<in> set strms"
    using ok by (auto simp: strms_def ub_rows_ok_def)
  then have "Min (set (LLAMA_MAX_SEQ # strms)) \<le> Max (set (0 # strms))"
    by (intro order.trans [OF Min_le Max_ge, of _ "row_stream kv ub 0"]) auto
  then have le: "fold min strms LLAMA_MAX_SEQ \<le> fold max strms 0"
    unfolding Min.set_eq_fold Max.set_eq_fold .
  show ?thesis
    using find_slot_steps [OF inv bnd ok order.refl] ok le unfolding strms_def
    by (auto simp: find_slot_def Let_def n_rows_def row_len_def ub_rows_ok_def slot_of_rows_def split: option.splits if_splits)
qed

lemma slot_for_Some:
  assumes "kv_cache_inv m kv" "strm < kv_n_stream kv" "slot_for kv n strm = Some idxs"
  shows "length idxs = n" "distinct idxs" "\<And>i. i \<in> set idxs \<Longrightarrow> i < m \<and> usable kv (kv_cells kv ! strm) i"
proof -
  let ?xs = "filter (usable kv (kv_cells kv ! strm)) (ring (start_head kv n strm) m)"
  have idxs: "idxs = take n ?xs" "n \<le> length ?xs"
    using assms(3) get_size_inv [OF assms(1)] by (simp_all add: slot_for_def pick_def split: if_splits)
  have r: "distinct ?xs" "set ?xs \<subseteq> {i. i < m \<and> usable kv (kv_cells kv ! strm) i}"
    using ring_set [OF start_head_le [OF assms(1,2), of n]] by auto
  show "length idxs = n" "distinct idxs"
    unfolding idxs(1) using idxs(2) r(1) by (simp_all add: min_def)
  show "\<And>i. i \<in> set idxs \<Longrightarrow> i < m \<and> usable kv (kv_cells kv ! strm) i"
    unfolding idxs(1) using r(2) by (blast dest: in_set_takeD)
qed

lemma slot_for_None:
  assumes "kv_cache_inv m kv" "strm < kv_n_stream kv"
  shows "slot_for kv n strm = None \<longleftrightarrow> card {i. i < m \<and> usable kv (kv_cells kv ! strm) i} < n"
proof -
  let ?xs = "filter (usable kv (kv_cells kv ! strm)) (ring (start_head kv n strm) m)"
  have "distinct ?xs" "set ?xs = {i. i < m \<and> usable kv (kv_cells kv ! strm) i}"
    using ring_set [OF start_head_le [OF assms, of n]] by auto
  then have "card {i. i < m \<and> usable kv (kv_cells kv ! strm) i} = length ?xs"
    by (metis distinct_card)
  then show ?thesis
    using get_size_inv [OF assms(1)] by (auto simp: slot_for_def pick_def)
qed

text \<open>A found slot: per row of the ubatch, as many different cells of its stream as the row has tokens, all
  of them usable.\<close>

definition slot_fits :: "nat \<Rightarrow> kv_cache \<Rightarrow> 'e llama_ubatch \<Rightarrow> slot_info \<Rightarrow> bool" where
  "slot_fits m kv ub si \<longleftrightarrow>
     si_strm si = map (row_stream kv ub) [0..<n_rows kv ub] \<and> length (si_idxs si) = n_rows kv ub \<and>
     (\<forall>s < n_rows kv ub. length (si_idxs si ! s) = row_len kv ub \<and> distinct (si_idxs si ! s) \<and>
        (\<forall>i \<in> set (si_idxs si ! s). i < m \<and> usable kv (kv_cells kv ! row_stream kv ub s) i))"

definition room_for :: "nat \<Rightarrow> kv_cache \<Rightarrow> 'e llama_ubatch \<Rightarrow> bool" where
  "room_for m kv ub \<longleftrightarrow>
     (\<forall>s < n_rows kv ub. row_len kv ub \<le> card {i. i < m \<and> usable kv (kv_cells kv ! row_stream kv ub s) i})"

lemma find_slot_fits:
  assumes inv: "kv_cache_inv m kv" and bnd: "kv_bounded kv" and ok: "ub_rows_ok kv ub"
  shows "\<exists>si. find_slot kv ub False = Some si \<and> (\<not> si_empty si \<longleftrightarrow> room_for m kv ub) \<and>
    (\<not> si_empty si \<longrightarrow> slot_fits m kv ub si)"
proof -
  let ?strms = "map (row_stream kv ub) [0..<n_rows kv ub]"
  let ?slots = "map (slot_for kv (row_len kv ub)) ?strms"
  note strm = row_stream_less [OF inv ok]
  have none: "None \<in> set ?slots \<longleftrightarrow> \<not> room_for m kv ub"
  proof -
    have "None \<in> set ?slots \<longleftrightarrow> (\<exists>s < n_rows kv ub. slot_for kv (row_len kv ub) (row_stream kv ub s) = None)"
      by (auto simp: image_iff Bex_def)
    then show ?thesis
      using slot_for_None [OF inv strm] by (auto simp: room_for_def not_le)
  qed
  show ?thesis
  proof (cases "all_slots ?slots")
    case None
    then show ?thesis
      unfolding find_slot_eq [OF inv bnd ok] None using none None
      by (simp add: all_slots_None slot_of_rows_def si_empty_def si_none_def del: map_map)
  next
    case (Some idxs)
    then have idxs: "?slots = map Some idxs"
      by (simp add: all_slots_Some)
    have len: "length idxs = n_rows kv ub"
      using map_eq_imp_length_eq [OF idxs] by simp
    have nth: "slot_for kv (row_len kv ub) (row_stream kv ub s) = Some (idxs ! s)" if "s < n_rows kv ub" for s
      using arg_cong [OF idxs, of "\<lambda>xs. xs ! s"] that len by simp
    have "None \<notin> set ?slots"
      unfolding idxs by auto
    then have "room_for m kv ub"
      using none by blast
    moreover have "idxs \<noteq> []"
      using len ok by (auto simp: ub_rows_ok_def)
    moreover have "slot_fits m kv ub \<lparr>si_s0 = a, si_s1 = b, si_strm = ?strms, si_idxs = idxs\<rparr>" for a b
      using slot_for_Some [OF inv strm nth] len by (auto simp: slot_fits_def)
    ultimately show ?thesis
      unfolding find_slot_eq [OF inv bnd ok] Some by (simp add: slot_of_rows_def si_empty_def)
  qed
qed

section \<open>Property\<close>

definition demo_ub :: "unit llama_ubatch" where
  "demo_ub = \<lparr>ub_equal_seqs = True, ub_n_tokens = 4, ub_n_seq_tokens = 2, ub_n_seqs = 2, ub_n_seqs_unq = 2, ub_n_pos = 1,
     ub_token = Some [11, 12, 13, 14], ub_embd = None, ub_pos = [0, 1, 0, 1], ub_n_seq_id = [1, 1, 1, 1],
     ub_seq_id = [[0], [0], [1], [1]], ub_seq_id_unq = [0, 1], ub_seq_idx = [0, 1], ub_output = [0, 1, 0, 1]\<rparr>"

lemma demo_kv_ok: "kv_cache_inv 4 demo_kv" "kv_bounded demo_kv" "ub_rows_ok demo_kv demo_ub"
proof -
  show "kv_cache_inv 4 demo_kv"
    by (rule kv_new_inv [OF demo_kv_new]) simp
  show "kv_bounded demo_kv"
    by code_simp
  show "ub_rows_ok demo_kv demo_ub"
    by code_simp
qed

text \<open>C11. \<open>find_slot\<close> always returns: its \<open>while (true)\<close> search ends and no assertion fails. It finds a slot
  exactly when, for every row of the ubatch, the stream of the row has as many usable cells (empty, or of a
  single sequence and outside its attention window) as the row has tokens, and then the slot lists, per row,
  that many different usable cells of the stream.\<close>

theorem find_slot_complete:
  assumes "kv_cache_inv kv_size kv" "kv_bounded kv" "ub_rows_ok kv ub"
  shows "\<exists>si. find_slot kv ub False = Some si \<and> (si_empty si \<longleftrightarrow> \<not> room_for kv_size kv ub) \<and>
    (\<not> si_empty si \<longrightarrow> slot_fits kv_size kv ub si)"
  using find_slot_fits [OF assms] by auto

theorem find_slot_complete_witness:
  "\<exists>si. find_slot demo_kv demo_ub False = Some si \<and> \<not> si_empty si \<and> slot_fits 4 demo_kv demo_ub si"
proof -
  obtain si where si: "find_slot demo_kv demo_ub False = Some si" "\<not> si_empty si \<longrightarrow> slot_fits 4 demo_kv demo_ub si"
    using find_slot_complete [OF demo_kv_ok] by blast
  moreover have "\<not> opt_all si_empty (find_slot demo_kv demo_ub False)"
    by code_simp
  ultimately show ?thesis
    by simp
qed

end
