(* ===== verification/KV_Apply.thy ===== *)
theory KV_Apply
  imports KV_Slots
begin

text \<open>
  What \<open>apply_ubatch\<close> and \<open>prepare\<close> of \<open>src/src/llama-kv-cache.cpp\<close> do to the cells: the tokens of a ubatch
  land in the cells of their slot, overwritten positions are purged together with all older ones of the same
  sequence, and \<open>prepare\<close> leaves the cells as they were. The definitions are those of \<open>KV_Slots\<close>.
\<close>

section \<open>One token\<close>

definition token_seqs :: "'e llama_ubatch \<Rightarrow> nat \<Rightarrow> int list" where
  "token_seqs ub i = take (ub_n_seq_id ub ! i) (ub_seq_id ub ! i)"

definition token_cell :: "'e llama_ubatch \<Rightarrow> nat \<Rightarrow> kv_cell" where
  "token_cell ub i = Cell (ub_pos ub ! i) (nat ` set (token_seqs ub i)) 0"

definition token_ok :: "'e llama_ubatch \<Rightarrow> nat \<Rightarrow> bool" where
  "token_ok ub i \<longleftrightarrow>
     i < length (ub_pos ub) \<and> i < length (ub_n_seq_id ub) \<and> i < length (ub_seq_id ub) \<and>
     (is_pos_2d ub \<longrightarrow> i + ub_n_tokens ub * 2 < length (ub_pos ub)) \<and>
     0 \<le> ub_pos ub ! i \<and> ub_pos ub ! i < INT32_MAX \<and>
     0 < ub_n_seq_id ub ! i \<and> ub_n_seq_id ub ! i \<le> length (ub_seq_id ub ! i) \<and>
     distinct (token_seqs ub i) \<and> (\<forall>q \<in> set (token_seqs ub i). 0 \<le> q \<and> q < int LLAMA_MAX_SEQ)"

text \<open>A cell that may be overwritten: empty, or of exactly one sequence. \<open>note_rm\<close> is the update of
  \<open>seq_pos_max_rm\<close>.\<close>

definition single :: "kv_cell option \<Rightarrow> bool" where
  "single v \<longleftrightarrow> opt_all (\<lambda>x. card (cell_seqs x) = 1) v"

definition note_rm :: "kv_cell option \<Rightarrow> int list \<Rightarrow> int list" where
  "note_rm v rm = (case v of None \<Rightarrow> rm | Some x \<Rightarrow> (let s = the_elem (cell_seqs x) in rm[s := max (rm ! s) (cell_pos x)]))"

lemma evict_cell_ok:
  assumes inv: "kv_cells_inv c" and i: "i < cells_size c" and s: "single (cell_view c i)"
  obtains c' where "evict_cell i (c, rm) = Some (c', note_rm (cell_view c i) rm)" "kv_cells_inv c'"
    "cells_view c' = (cells_view c)[i := None]"
proof (cases "cell_view c i")
  case None
  then show ?thesis
    using inv i by (intro that [of c]) (simp_all add: evict_cell_def cells_is_empty_view note_rm_def)
next
  case (Some x)
  then obtain t where t: "cell_seqs x = {t}"
    using s by (auto simp: single_def card_1_singleton_iff)
  obtain c' where "cells_rm i c = Some c'" "kv_cells_inv c'" "cells_view c' = (cells_view c)[i := None]"
    by (rule cells_rm_spec [OF inv i]) (use Some in \<open>auto simp: cell_view_def\<close>)
  then show ?thesis
    using inv i Some t
    by (intro that [of c']) (simp_all add: evict_cell_def cells_is_empty_view cells_seq_count_view cells_seq_get_view
        cells_pos_get_view note_rm_def Let_def)
qed

lemma seq_adds_ok:
  assumes "kv_cells_inv c" "i < cells_size c" "cell_view c i = Some (Cell p S h)"
    and "distinct qs" "\<forall>q \<in> set qs. 0 \<le> q \<and> q < int LLAMA_MAX_SEQ \<and> nat q \<notin> S"
  shows "\<exists>c'. mfold (\<lambda>q c. do { require (q \<ge> 0); cells_seq_add i (nat q) c }) qs c = Some c' \<and> kv_cells_inv c' \<and>
    cells_view c' = (cells_view c)[i := Some (Cell p (S \<union> nat ` set qs) h)]"
  using assms
proof (induction qs arbitrary: c S)
  case Nil
  then show ?case by simp
next
  case (Cons q qs)
  obtain c' where c': "cells_seq_add i (nat q) c = Some c'" "kv_cells_inv c'"
    "cells_view c' = (cells_view c)[i := Some (Cell p (insert (nat q) S) h)]"
    by (rule cells_seq_add_spec [OF Cons.prems(1,2), of "nat q" "Cell p S h"]) (use Cons.prems in auto)
  note upd = view_updated [OF c'(3) Cons.prems(2)]
  have "\<exists>c''. mfold (\<lambda>q c. do { require (q \<ge> 0); cells_seq_add i (nat q) c }) qs c' = Some c'' \<and> kv_cells_inv c'' \<and>
    cells_view c'' = (cells_view c')[i := Some (Cell p (insert (nat q) S \<union> nat ` set qs) h)]"
    by (rule Cons.IH) (use Cons.prems c'(2) upd in \<open>auto simp: nat_eq_iff2\<close>)
  then show ?case
    using c' Cons.prems(5) by auto
qed

lemma place_token_ok:
  assumes inv: "kv_cells_inv c" and i: "i < cells_size c" and s: "single (cell_view c i)" and tok: "token_ok ub k"
  obtains c' where "place_token ub k i (c, rm) = Some (c', note_rm (cell_view c i) rm)" "kv_cells_inv c'"
    "cells_view c' = (cells_view c)[i := Some (token_cell ub k)]" "cells_size c' = cells_size c"
proof -
  obtain c0 where c0: "evict_cell i (c, rm) = Some (c0, note_rm (cell_view c i) rm)" "kv_cells_inv c0"
    "cells_view c0 = (cells_view c)[i := None]"
    using evict_cell_ok [OF inv i s] .
  note u0 = view_updated [OF c0(3) i]
  obtain c1 where c1: "cells_pos_set i (ub_pos ub ! k) c0 = Some c1" "kv_cells_inv c1"
    "cells_view c1 = (cells_view c0)[i := Some (Cell (ub_pos ub ! k) {} 0)]"
    by (rule cells_pos_set_spec [OF c0(2), of i "ub_pos ub ! k"]) (use u0 i tok in \<open>auto simp: token_ok_def\<close>)
  have u1: "cells_size c1 = cells_size c" "cell_view c1 i = Some (Cell (ub_pos ub ! k) {} 0)"
    using view_updated [OF c1(3)] u0 i by auto
  let ?ext = "if is_pos_2d ub then do {
               require (k + ub_n_tokens ub * 2 < length (ub_pos ub));
               cells_ext_set i \<lparr>ext_x = ub_pos ub ! (k + ub_n_tokens ub * 2), ext_y = ub_pos ub ! (k + ub_n_tokens ub)\<rparr> c1 }
             else Some c1"
  obtain c2 where c2: "?ext = Some c2" "kv_cells_inv c2" "cells_view c2 = cells_view c1"
  proof (cases "is_pos_2d ub")
    case False
    then show ?thesis
      using that [of c1] c1 by simp
  next
    case True
    obtain c' where "cells_ext_set i \<lparr>ext_x = ub_pos ub ! (k + ub_n_tokens ub * 2), ext_y = ub_pos ub ! (k + ub_n_tokens ub)\<rparr> c1 = Some c'"
      "kv_cells_inv c'" "cells_view c' = cells_view c1"
      by (rule cells_ext_set_spec [OF c1(2)]) (use u1 i in auto)
    then show ?thesis
      using that [of c'] True tok by (simp add: token_ok_def)
  qed
  have u2: "cells_size c2 = cells_size c" "cell_view c2 i = Some (Cell (ub_pos ub ! k) {} 0)"
    using c2(3) u1 i by (metis length_cells_view nth_cells_view)+
  obtain c3 where c3: "mfold (\<lambda>q c. do { require (q \<ge> 0); cells_seq_add i (nat q) c }) (token_seqs ub k) c2 = Some c3"
    "kv_cells_inv c3" "cells_view c3 = (cells_view c2)[i := Some (token_cell ub k)]"
    using seq_adds_ok [OF c2(2) _ u2(2), of "token_seqs ub k"] u2(1) i tok by (auto simp: token_ok_def token_cell_def)
  show thesis
  proof (rule that [of c3])
    show "place_token ub k i (c, rm) = Some (c3, note_rm (cell_view c i) rm)"
      using c0(1) c1(1) c2(1) c3(1) tok unfolding place_token_def token_seqs_def by (simp add: token_ok_def)
    show "cells_view c3 = (cells_view c)[i := Some (token_cell ub k)]"
      using c0(3) c1(3) c2(3) c3(3) by simp
    then show "cells_size c3 = cells_size c"
      using view_updated(1) i by blast
  qed (rule c3(2))
qed

section \<open>The rows of a ubatch\<close>

text \<open>Writing \<open>f j\<close> at the places \<open>g j\<close>, for \<open>j\<close> below \<open>n\<close>.\<close>

definition write_at :: "(nat \<Rightarrow> nat) \<Rightarrow> (nat \<Rightarrow> 'a) \<Rightarrow> nat \<Rightarrow> 'a list \<Rightarrow> 'a list" where
  "write_at g f n vs = fold (\<lambda>j vs. vs[g j := f j]) [0..<n] vs"

lemma write_at_simps [simp]:
  "write_at g f 0 vs = vs" "write_at g f (Suc n) vs = (write_at g f n vs)[g n := f n]"
  "length (write_at g f n vs) = length vs"
  by (induction n arbitrary: vs) (simp_all add: write_at_def)

lemma write_at_other: "i \<notin> g ` {..<n} \<Longrightarrow> write_at g f n vs ! i = vs ! i"
  by (induction n) (auto simp: lessThan_Suc)

lemma write_at_nth: "inj_on g {..<n} \<Longrightarrow> j < n \<Longrightarrow> g j < length vs \<Longrightarrow> write_at g f n vs ! g j = f j"
proof (induction n)
  case (Suc n)
  then have "inj_on g {..<n}" "j < n \<Longrightarrow> g j \<noteq> g n"
    by (auto simp: inj_on_def)
  then show ?case
    using Suc by (cases "j = n") auto
qed simp

definition place_row :: "'e llama_ubatch \<Rightarrow> nat \<Rightarrow> nat list \<Rightarrow> kv_cell option list \<Rightarrow> kv_cell option list" where
  "place_row ub off idxs = write_at ((!) idxs) (\<lambda>ii. Some (token_cell ub (off + ii))) (length idxs)"

definition slot_ok :: "nat \<Rightarrow> kv_cell option list list \<Rightarrow> 'e llama_ubatch \<Rightarrow> slot_info \<Rightarrow> bool" where
  "slot_ok m vss ub si \<longleftrightarrow> (let n = length (si_idxs si ! 0) in
     0 < n \<and> si_strm si \<noteq> [] \<and> length (si_idxs si) = length (si_strm si) \<and> ub_n_tokens ub = length (si_strm si) * n \<and>
     distinct (si_strm si) \<and>
     (\<forall>s < length (si_strm si). si_strm si ! s < length vss \<and> length (si_idxs si ! s) = n \<and> distinct (si_idxs si ! s) \<and>
        (\<forall>i \<in> set (si_idxs si ! s). i < m \<and> single (vss ! (si_strm si ! s) ! i))) \<and>
     (\<forall>k < ub_n_tokens ub. token_ok ub k))"

lemma slot_okD:
  assumes "slot_ok m vss ub si"
  shows "0 < length (si_idxs si ! 0)" "si_strm si \<noteq> []" "length (si_idxs si) = length (si_strm si)"
    "ub_n_tokens ub = length (si_strm si) * length (si_idxs si ! 0)" "distinct (si_strm si)"
    "\<And>k. k < ub_n_tokens ub \<Longrightarrow> token_ok ub k"
  using assms unfolding slot_ok_def Let_def by blast+

lemma slot_ok_row:
  assumes "slot_ok m vss ub si" "s < length (si_strm si)"
  shows "si_strm si ! s < length vss" "length (si_idxs si ! s) = length (si_idxs si ! 0)" "distinct (si_idxs si ! s)"
    "\<And>i. i \<in> set (si_idxs si ! s) \<Longrightarrow> i < m \<and> single (vss ! (si_strm si ! s) ! i)"
  using assms unfolding slot_ok_def Let_def by blast+

lemma place_loop_ok:
  assumes inv: "kv_cells_inv c" and d: "distinct idxs"
    and idxs: "\<And>i. i \<in> set idxs \<Longrightarrow> i < cells_size c \<and> single (cell_view c i)"
    and tok: "\<And>ii. ii < length idxs \<Longrightarrow> token_ok ub (off + ii)"
  shows "\<exists>c'. mfold (\<lambda>ii. place_token ub (off + ii) (idxs ! ii)) [0..<length idxs] (c, rm) =
      Some (c', fold note_rm (map (cell_view c) idxs) rm) \<and> kv_cells_inv c' \<and>
      cells_view c' = place_row ub off idxs (cells_view c)"
proof -
  let ?f = "\<lambda>ii. Some (token_cell ub (off + ii))"
  let ?I = "\<lambda>done st. kv_cells_inv (fst st) \<and> cells_size (fst st) = cells_size c \<and>
    cells_view (fst st) = write_at ((!) idxs) ?f (length done) (cells_view c) \<and>
    snd st = fold note_rm (map (cell_view c) (take (length done) idxs)) rm"
  have "\<exists>st. mfold (\<lambda>ii. place_token ub (off + ii) (idxs ! ii)) [0..<length idxs] (c, rm) = Some st \<and> ?I [0..<length idxs] st"
  proof (rule mfold_invariant)
    show "?I [] (c, rm)" using inv by simp
    fix "done" k rest and st :: "llama_kv_cells \<times> int list"
    assume split: "[0..<length idxs] = done @ k # rest" and I: "?I done st"
    note k = upt_splitD [OF split]
    let ?i = "idxs ! k"
    have i: "?i < cells_size c" "single (cell_view c ?i)"
      using idxs [of ?i] k(2) by auto
    have "?i \<notin> (!) idxs ` {..<k}"
      using d k(2) by (auto simp: nth_eq_iff_index_eq)
    then have same: "cell_view (fst st) ?i = cell_view c ?i"
      using I k i(1) write_at_other [of ?i "(!) idxs" k ?f "cells_view c"] by (metis length_upt minus_nat.diff_0 nth_cells_view)
    obtain c' where c': "place_token ub (off + k) ?i (fst st, snd st) = Some (c', note_rm (cell_view (fst st) ?i) (snd st))"
      "kv_cells_inv c'" "cells_view c' = (cells_view (fst st))[?i := ?f k]" "cells_size c' = cells_size (fst st)"
      by (rule place_token_ok [of "fst st" ?i ub "off + k" "snd st"]) (use I i same tok k(2) in auto)
    show "\<exists>st'. place_token ub (off + k) ?i st = Some st' \<and> ?I (done @ [k]) st'"
      using c' I k same by (cases st) (simp add: take_Suc_conv_app_nth)
  qed
  then show ?thesis
    by (auto simp: place_row_def)
qed

lemma place_stream_ok:
  assumes inv: "kv_cache_inv m kv" and ok: "slot_ok m vss ub si" and s: "s < length (si_strm si)"
    and view: "kv_views kv ! (si_strm si ! s) = vss ! (si_strm si ! s)" "length vss = kv_n_stream kv"
  defines "strm \<equiv> si_strm si ! s" and "idxs \<equiv> si_idxs si ! s"
  obtains c' where "place_stream ub si (length (si_idxs si ! 0)) s (kv, rm) =
      Some (kv\<lparr>kv_cells := (kv_cells kv)[strm := c']\<rparr>, fold note_rm (map ((!) (vss ! strm)) idxs) rm)"
    "kv_cache_inv m (kv\<lparr>kv_cells := (kv_cells kv)[strm := c']\<rparr>)"
    "cells_view c' = place_row ub (s * length idxs) idxs (vss ! strm)"
proof -
  let ?n = "length (si_idxs si ! 0)"
  have slot: "strm < kv_n_stream kv" "length idxs = ?n" "distinct idxs"
    "\<And>i. i \<in> set idxs \<Longrightarrow> i < m \<and> single (vss ! strm ! i)"
    using slot_ok_row [OF ok s] unfolding strm_def idxs_def view(2) by blast+
  note c = kv_inv_cells [OF inv slot(1)]
  have vs: "cells_view (kv_cells kv ! strm) = vss ! strm"
    using view(1) c(4) by (simp add: strm_def)
  have cell: "cell_view (kv_cells kv ! strm) i = vss ! strm ! i" if "i < m" for i
    using that c(3) vs by (metis nth_cells_view)
  have tok: "token_ok ub (s * ?n + ii)" if "ii < ?n" for ii
  proof -
    have "s * ?n + ii < Suc s * ?n"
      using that by simp
    also have "\<dots> \<le> length (si_strm si) * ?n"
      using s by (intro mult_le_mono1) simp
    finally show ?thesis
      using slot_okD(4,6) [OF ok] by simp
  qed
  obtain c' where c': "mfold (\<lambda>ii. place_token ub (s * ?n + ii) (idxs ! ii)) [0..<length idxs] (kv_cells kv ! strm, rm) =
      Some (c', fold note_rm (map (cell_view (kv_cells kv ! strm)) idxs) rm)" "kv_cells_inv c'"
    "cells_view c' = place_row ub (s * ?n) idxs (cells_view (kv_cells kv ! strm))"
    using place_loop_ok [OF c(1) slot(3), of ub "s * ?n" rm] slot(2,4) c(3) cell tok by auto
  have size: "cells_size c' = m"
    using arg_cong [OF c'(3), of length] c(3) by (simp add: place_row_def)
  have row: "cells_view c' ! i = vss ! strm ! i \<or> (\<exists>ii < ?n. cells_view c' ! i = Some (token_cell ub (s * ?n + ii)))"
    if "i < m" for i
  proof (cases "i \<in> (!) idxs ` {..<length idxs}")
    case True
    then obtain ii where ii: "ii < length idxs" "i = idxs ! ii"
      by auto
    then have "write_at ((!) idxs) (\<lambda>ii. Some (token_cell ub (s * ?n + ii))) (length idxs) (vss ! strm) ! (idxs ! ii) =
        Some (token_cell ub (s * ?n + ii))"
      using that slot(3) vs c(3)
      by (intro write_at_nth) (auto simp: inj_on_def nth_eq_iff_index_eq simp flip: length_cells_view)
    then show ?thesis
      using c'(3) vs ii slot(2) by (auto simp: place_row_def)
  next
    case False
    then show ?thesis
      using c'(3) vs by (simp add: place_row_def write_at_other)
  qed
  have "cells_live c'"
    unfolding cells_live_def
  proof (intro allI impI)
    fix x assume "Some x \<in> set (cells_view c')"
    then obtain i where i: "i < m" "cells_view c' ! i = Some x"
      using size by (auto simp: in_set_conv_nth)
    have "cell_seqs (token_cell ub (s * ?n + ii)) \<noteq> {}" if "ii < ?n" for ii
      using tok [OF that] by (auto simp: token_cell_def token_seqs_def token_ok_def)
    then show "cell_seqs x \<noteq> {}"
      using row [OF i(1)] i cells_liveD [OF c(2), of i x] c(3) cell [OF i(1)] by auto
  qed
  then have "kv_cache_inv m (kv\<lparr>kv_cells := (kv_cells kv)[strm := c']\<rparr>)"
    using inv c'(2) size set_update_subset_insert [of "kv_cells kv" strm c'] by (auto simp: kv_cache_inv_def)
  moreover have eq: "map (cell_view (kv_cells kv ! strm)) idxs = map ((!) (vss ! strm)) idxs"
    using slot(4) cell by auto
  moreover note c'(1) [unfolded eq]
  ultimately show thesis
    using c'(3) slot(1,2) c(4) vs by (intro that [of c']) (simp_all add: place_stream_def strm_def idxs_def Let_def)
qed

text \<open>All rows: the views after placing, and the cells that were overwritten, in order.\<close>

definition place_rows :: "'e llama_ubatch \<Rightarrow> slot_info \<Rightarrow> nat \<Rightarrow> kv_cell option list list \<Rightarrow> kv_cell option list list" where
  "place_rows ub si k vss = write_at ((!) (si_strm si))
     (\<lambda>s. place_row ub (s * length (si_idxs si ! s)) (si_idxs si ! s) (vss ! (si_strm si ! s))) k vss"

definition overwritten :: "slot_info \<Rightarrow> nat \<Rightarrow> kv_cell option list list \<Rightarrow> kv_cell option list" where
  "overwritten si k vss = concat (map (\<lambda>s. map ((!) (vss ! (si_strm si ! s))) (si_idxs si ! s)) [0..<k])"

definition same_setup :: "kv_cache \<Rightarrow> kv_cache \<Rightarrow> bool" where
  "same_setup kv kv' \<longleftrightarrow> kv_n_stream kv' = kv_n_stream kv \<and> kv_seq_to_stream kv' = kv_seq_to_stream kv \<and>
     kv_n_swa kv' = kv_n_swa kv \<and> kv_swa_type kv' = kv_swa_type kv"

lemma place_rows_ok:
  assumes inv: "kv_cache_inv m kv" and ok: "slot_ok m (kv_views kv) ub si"
  defines "n \<equiv> length (si_idxs si ! 0)"
  shows "\<exists>kv'. mfold (place_stream ub si n) [0..<length (si_strm si)] (kv, rm) =
      Some (kv', fold note_rm (overwritten si (length (si_strm si)) (kv_views kv)) rm) \<and> kv_cache_inv m kv' \<and>
    kv_views kv' = place_rows ub si (length (si_strm si)) (kv_views kv) \<and> same_setup kv kv'"
proof -
  let ?I = "\<lambda>done st. kv_cache_inv m (fst st) \<and> same_setup kv (fst st) \<and>
    kv_views (fst st) = place_rows ub si (length done) (kv_views kv) \<and>
    snd st = fold note_rm (overwritten si (length done) (kv_views kv)) rm"
  have "\<exists>st. mfold (place_stream ub si n) [0..<length (si_strm si)] (kv, rm) = Some st \<and> ?I [0..<length (si_strm si)] st"
  proof (rule mfold_invariant)
    show "?I [] (kv, rm)"
      using inv by (simp add: same_setup_def place_rows_def overwritten_def)
    fix "done" k rest and st :: "kv_cache \<times> int list"
    assume split: "[0..<length (si_strm si)] = done @ k # rest" and I: "?I done st"
    note k = upt_splitD [OF split]
    let ?t = "si_strm si ! k"
    have "?t \<notin> (!) (si_strm si) ` {..<k}"
      using slot_okD(5) [OF ok] k(2) by (auto simp: nth_eq_iff_index_eq)
    then have same: "kv_views (fst st) ! ?t = kv_views kv ! ?t"
      using I k by (simp add: place_rows_def write_at_other)
    obtain c' where c': "place_stream ub si n k (fst st, snd st) =
        Some (fst st\<lparr>kv_cells := (kv_cells (fst st))[?t := c']\<rparr>,
          fold note_rm (map ((!) (kv_views kv ! ?t)) (si_idxs si ! k)) (snd st))"
      "kv_cache_inv m (fst st\<lparr>kv_cells := (kv_cells (fst st))[?t := c']\<rparr>)"
      "cells_view c' = place_row ub (k * length (si_idxs si ! k)) (si_idxs si ! k) (kv_views kv ! ?t)"
      unfolding n_def
      by (rule place_stream_ok [of m "fst st" "kv_views kv" ub si k "snd st"])
        (use I ok k(2) same inv in \<open>auto simp: same_setup_def kv_cache_inv_def\<close>)
    have "kv_views (fst st\<lparr>kv_cells := (kv_cells (fst st))[?t := c']\<rparr>) = (kv_views (fst st))[?t := cells_view c']"
      by (simp add: kv_views_def map_update)
    then show "\<exists>st'. place_stream ub si n k st = Some st' \<and> ?I (done @ [k]) st'"
      using c' I k by (cases st) (simp add: place_rows_def overwritten_def same_setup_def)
  qed
  then show ?thesis
    by auto
qed

section \<open>Purging\<close>

text \<open>Below sequence \<open>k\<close>, a sequence that lost position \<open>rm ! q\<close> loses all positions up to it.\<close>

definition kept_seqs :: "nat \<Rightarrow> int list \<Rightarrow> nat list \<Rightarrow> nat \<Rightarrow> kv_cell \<Rightarrow> nat set" where
  "kept_seqs k rm T t x = {q \<in> cell_seqs x. \<not> (q < k \<and> T ! q = t \<and> rm ! q \<noteq> - 1 \<and> cell_pos x \<le> rm ! q)}"

definition purge_cell :: "nat \<Rightarrow> int list \<Rightarrow> nat list \<Rightarrow> nat \<Rightarrow> kv_cell option \<Rightarrow> kv_cell option" where
  "purge_cell k rm T t v = (case v of None \<Rightarrow> None
     | Some x \<Rightarrow> if kept_seqs k rm T t x = {} then None else Some (Cell (cell_pos x) (kept_seqs k rm T t x) (cell_shift x)))"

definition drop_seq :: "nat \<Rightarrow> int \<Rightarrow> kv_cell option \<Rightarrow> kv_cell option" where
  "drop_seq k p = upd_match (\<lambda>x. k \<in> cell_seqs x \<and> cell_pos x \<le> p) (spec_seq_rm k)"

lemma purge_cell_Suc:
  "purge_cell (Suc k) rm T t v =
     (if rm ! k \<noteq> - 1 \<and> T ! k = t then drop_seq k (rm ! k) (purge_cell k rm T t v) else purge_cell k rm T t v)"
proof (cases v)
  case (Some x)
  have "kept_seqs (Suc k) rm T t x =
      (if rm ! k \<noteq> - 1 \<and> T ! k = t \<and> cell_pos x \<le> rm ! k then kept_seqs k rm T t x - {k} else kept_seqs k rm T t x)"
    by (auto simp: kept_seqs_def less_Suc_eq)
  then show ?thesis
    using Some by (auto simp: purge_cell_def drop_seq_def spec_seq_rm_def)
qed (simp add: purge_cell_def drop_seq_def)

lemma purge_seq_ok:
  assumes inv: "kv_cache_inv m kv" and k: "k < LLAMA_MAX_SEQ" and rm: "- 1 \<le> rm ! k" "rm ! k < INT32_MAX"
  defines "t \<equiv> kv_seq_to_stream kv ! k"
  obtains kv' where "purge_seq rm k kv = Some kv'" "kv_cache_inv m kv'" "same_setup kv kv'"
    "kv_views kv' = (if rm ! k = - 1 then kv_views kv else (kv_views kv)[t := map (drop_seq k (rm ! k)) (kv_views kv ! t)])"
proof (cases "rm ! k = - 1")
  case True
  then show ?thesis
    using inv by (intro that [of kv]) (simp_all add: purge_seq_def same_setup_def)
next
  case False
  have t: "t < kv_n_stream kv" "k < length (kv_seq_to_stream kv)"
    using inv k by (auto simp: kv_cache_inv_def t_def)
  note c = kv_inv_cells [OF inv t(1)]
  let ?vs = "cells_view (kv_cells kv ! t)"
  define mn where "mn = (if view_mset ?vs k = {#} then - 1 else Min_mset (view_mset ?vs k))"
  have min: "cells_seq_pos_min k (kv_cells kv ! t) = Some mn"
    unfolding mn_def by (rule cells_seq_pos_min_view [OF c(1) k])
  have below: "mn \<le> cell_pos x \<and> 0 \<le> cell_pos x" if "Some x \<in> set ?vs" "k \<in> cell_seqs x" for x
  proof -
    obtain i where i: "i < cells_size (kv_cells kv ! t)" "cell_view (kv_cells kv ! t) i = Some x"
      using \<open>Some x \<in> set ?vs\<close> by (auto simp: in_set_conv_nth)
    have "cell_pos x \<in># view_mset ?vs k"
      using i that(2) by (cases x) (auto simp: in_view_mset_iff)
    moreover have "0 \<le> cell_pos x"
      using cells_wf_cell(1) [OF cells_inv_wf [OF c(1)] i(1)] i(2) by (auto simp: cell_view_def split: if_splits)
    ultimately show ?thesis
      by (auto simp: mn_def)
  qed
  show ?thesis
  proof (cases "mn \<le> rm ! k")
    case True
    obtain s' kv' where kv': "kv_seq_rm (int k) mn (rm ! k + 1) kv = Some (True, kv')" "kv_cache_inv m kv'"
      "s' = kv_seq_to_stream kv ! nat (int k)"
      "kv_views kv' = (kv_views kv)[s' := map (upd_match (cell_match (pos_lo mn) (pos_hi (rm ! k + 1)) (nat (int k))) (spec_seq_rm (nat (int k)))) (kv_views kv ! s')]"
      "kv_seq_to_stream kv' = kv_seq_to_stream kv" "kv_n_stream kv' = kv_n_stream kv"
      "kv_n_swa kv' = kv_n_swa kv" "kv_swa_type kv' = kv_swa_type kv"
      by (rule kv_seq_rm_one [OF inv, of "int k" mn "rm ! k + 1"]) (use k in auto)
    have "upd_match (cell_match (pos_lo mn) (pos_hi (rm ! k + 1)) k) (spec_seq_rm k) v = drop_seq k (rm ! k) v"
      if "v \<in> set ?vs" for v
    proof (cases v)
      case (Some x)
      have "cell_match (pos_lo mn) (pos_hi (rm ! k + 1)) k x \<longleftrightarrow> k \<in> cell_seqs x \<and> cell_pos x \<le> rm ! k"
        using that Some below [of x] False rm by (auto simp: cell_match_def pos_lo_def pos_hi_def)
      then show ?thesis
        by (simp add: Some drop_seq_def)
    qed (simp add: drop_seq_def)
    moreover have "i32 (rm ! k + 1) = Some (rm ! k + 1)"
      using rm by (simp add: in_i32_def INT32_MIN_def)
    ultimately show ?thesis
      using kv' min True False t c(4)
      by (intro that [of kv']) (auto simp: purge_seq_def same_setup_def simp flip: t_def cong: map_cong)
  next
    case big: False
    have "drop_seq k (rm ! k) v = v" if "v \<in> set ?vs" for v
      by (cases v) (use that below big in \<open>force simp: drop_seq_def\<close>)+
    then have "map (drop_seq k (rm ! k)) ?vs = ?vs"
      by (simp add: map_idI)
    moreover have "(kv_views kv)[t := ?vs] = kv_views kv"
      using c(4) by (metis kv_views_simps(4) list_update_id)
    ultimately show ?thesis
      using inv min False big t c(4)
      by (intro that [of kv]) (simp_all add: purge_seq_def same_setup_def flip: t_def)
  qed
qed

lemma purge_all_ok:
  assumes inv: "kv_cache_inv m kv" and rm: "\<And>q. q < LLAMA_MAX_SEQ \<Longrightarrow> - 1 \<le> rm ! q \<and> rm ! q < INT32_MAX"
  shows "\<exists>kv'. mfold (purge_seq rm) [0..<LLAMA_MAX_SEQ] kv = Some kv' \<and> kv_cache_inv m kv' \<and> same_setup kv kv' \<and>
    (\<forall>t < kv_n_stream kv. kv_views kv' ! t = map (purge_cell LLAMA_MAX_SEQ rm (kv_seq_to_stream kv) t) (kv_views kv ! t))"
proof -
  let ?T = "kv_seq_to_stream kv"
  let ?I = "\<lambda>done kv'. kv_cache_inv m kv' \<and> same_setup kv kv' \<and>
    (\<forall>t < kv_n_stream kv. kv_views kv' ! t = map (purge_cell (length done) rm ?T t) (kv_views kv ! t))"
  have "\<exists>kv'. mfold (purge_seq rm) [0..<LLAMA_MAX_SEQ] kv = Some kv' \<and> ?I [0..<LLAMA_MAX_SEQ] kv'"
  proof (rule mfold_invariant)
    have "purge_cell 0 rm ?T t v = v" if "t < kv_n_stream kv" "v \<in> set (kv_views kv ! t)" for t v
    proof (cases v)
      case (Some x)
      then have "cell_seqs x \<noteq> {}"
        using that kv_inv_cells [OF inv that(1)] by (simp add: cells_live_def)
      then show ?thesis
        using Some by (simp add: purge_cell_def kept_seqs_def)
    qed (simp add: purge_cell_def)
    then show "?I [] kv"
      using inv by (auto simp: same_setup_def map_idI)
    fix "done" k rest kv'
    assume split: "[0..<LLAMA_MAX_SEQ] = done @ k # rest" and I: "?I done kv'"
    note k = upt_splitD [OF split]
    obtain kv'' where kv'': "purge_seq rm k kv' = Some kv''" "kv_cache_inv m kv''" "same_setup kv' kv''"
      "kv_views kv'' = (if rm ! k = - 1 then kv_views kv' else (kv_views kv')[kv_seq_to_stream kv' ! k :=
         map (drop_seq k (rm ! k)) (kv_views kv' ! (kv_seq_to_stream kv' ! k))])"
      by (rule purge_seq_ok [of m kv' k rm]) (use I k(2) rm in auto)
    have len: "length (kv_views kv') = kv_n_stream kv" "kv_seq_to_stream kv' = ?T"
      using I by (auto simp: kv_cache_inv_def same_setup_def)
    have "kv_views kv'' ! t = map (purge_cell (Suc k) rm ?T t) (kv_views kv ! t)" if "t < kv_n_stream kv" for t
    proof -
      have "kv_views kv' ! t = map (purge_cell k rm ?T t) (kv_views kv ! t)"
        using I k that by simp
      then show ?thesis
        using kv''(4) that len by (cases "?T ! k = t") (auto simp: purge_cell_Suc)
    qed
    then show "\<exists>kv''. purge_seq rm k kv' = Some kv'' \<and> ?I (done @ [k]) kv''"
      using kv'' I k by (auto simp: same_setup_def)
  qed
  then show ?thesis
    by simp
qed

section \<open>The whole ubatch\<close>

definition rm_init :: "int list" where
  "rm_init = replicate LLAMA_MAX_SEQ (- 1)"

text \<open>\<open>seq_pos_max_rm[q]\<close> is the greatest position overwritten of sequence \<open>q\<close>, or \<open>-1\<close>.\<close>

definition lost_pos :: "kv_cell option list \<Rightarrow> nat \<Rightarrow> int set" where
  "lost_pos vs q = {cell_pos x |x. Some x \<in> set vs \<and> cell_seqs x = {q}}"

lemma lost_pos_simps [simp]:
  "lost_pos [] q = {}"
  "lost_pos (v # vs) q = (case v of None \<Rightarrow> {} | Some x \<Rightarrow> if cell_seqs x = {q} then {cell_pos x} else {}) \<union> lost_pos vs q"
  by (auto simp: lost_pos_def split: option.splits)

lemma finite_lost_pos [simp]: "finite (lost_pos vs q)"
  by (induction vs) (auto split: option.splits)

lemma length_note_rm [simp]: "length (note_rm v rm) = length rm"
  by (simp add: note_rm_def Let_def split: option.splits)

lemma length_note_rms [simp]: "length (fold note_rm vs rm) = length rm"
  by (induction vs arbitrary: rm) simp_all

lemma Max_insert_Max:
  assumes "finite A" "A \<noteq> {}" "finite B"
  shows "Max (insert (Max A) B) = Max (A \<union> (B :: int set))"
  using assms by (cases "B = {}") (simp_all add: Max_Un)

lemma note_rm_fold:
  assumes "\<And>v. v \<in> set vs \<Longrightarrow> single v" "\<And>x. Some x \<in> set vs \<Longrightarrow> cell_seqs x \<subseteq> {..<length rm}" "q < length rm"
  shows "fold note_rm vs rm ! q = Max (insert (rm ! q) (lost_pos vs q))"
  using assms
proof (induction vs arbitrary: rm)
  case (Cons v vs)
  have nth: "note_rm v rm ! q = Max (insert (rm ! q) (lost_pos [v] q))"
  proof (cases v)
    case (Some x)
    then obtain s where "cell_seqs x = {s}"
      using Cons.prems(1) [of v] by (auto simp: single_def card_1_singleton_iff)
    then show ?thesis
      using Some Cons.prems(2) [of x] Cons.prems(3) by (auto simp: note_rm_def)
  qed (simp add: note_rm_def)
  have "fold note_rm vs (note_rm v rm) ! q = Max (insert (note_rm v rm ! q) (lost_pos vs q))"
    by (rule Cons.IH) (use Cons.prems in auto)
  also have "\<dots> = Max (insert (rm ! q) (lost_pos [v] q) \<union> lost_pos vs q)"
    unfolding nth by (rule Max_insert_Max) (simp_all split: option.splits)
  finally show ?case
    by simp
qed simp

lemma overwritten_mem:
  assumes "slot_ok m vss ub si" "v \<in> set (overwritten si (length (si_strm si)) vss)"
  obtains t i where "t < length vss" "i < m" "v = vss ! t ! i" "single v"
proof -
  obtain s i where "s < length (si_strm si)" "i \<in> set (si_idxs si ! s)" "v = vss ! (si_strm si ! s) ! i"
    using assms(2) by (auto simp: overwritten_def)
  then show thesis
    using that [of "si_strm si ! s" i] slot_ok_row [OF assms(1)] by auto
qed

lemma advance_heads_ok:
  assumes inv: "kv_cache_inv m kv" and ok: "slot_ok m vss ub si"
  shows "\<exists>kv'. mfold (advance_head si) [0..<length (si_strm si)] kv = Some kv' \<and> kv_cache_inv m kv' \<and>
    same_setup kv kv' \<and> kv_views kv' = kv_views kv"
proof (rule mfold_preserves)
  show "kv_cache_inv m kv \<and> same_setup kv kv \<and> kv_views kv = kv_views kv"
    using inv by (simp add: same_setup_def)
  fix s kv' assume "s \<in> set [0..<length (si_strm si)]"
    and I: "kv_cache_inv m kv' \<and> same_setup kv kv' \<and> kv_views kv' = kv_views kv"
  then have s: "s < length (si_strm si)"
    by simp
  have ne: "si_idxs si ! s \<noteq> []"
    using slot_ok_row(2) [OF ok s] slot_okD(1) [OF ok] by auto
  then have "last (si_idxs si ! s) < m"
    using slot_ok_row(4) [OF ok s] by simp
  then have "kv_cache_inv m (kv'\<lparr>kv_heads := (kv_heads kv')[si_strm si ! s := last (si_idxs si ! s) + 1]\<rparr>)"
    using I set_update_subset_insert [of "kv_heads kv'" "si_strm si ! s" "last (si_idxs si ! s) + 1"]
    by (auto simp: kv_cache_inv_def)
  then show "\<exists>kv''. advance_head si s kv' = Some kv'' \<and> kv_cache_inv m kv'' \<and> same_setup kv kv'' \<and> kv_views kv'' = kv_views kv"
    using ne I by (simp add: advance_head_def same_setup_def kv_views_def)
qed

definition lost_max :: "slot_info \<Rightarrow> kv_cell option list list \<Rightarrow> int list" where
  "lost_max si vss = map (\<lambda>q. Max (insert (- 1) (lost_pos (overwritten si (length (si_strm si)) vss) q))) [0..<LLAMA_MAX_SEQ]"

definition views_bounded :: "kv_cell option list list \<Rightarrow> bool" where
  "views_bounded vss \<longleftrightarrow> (\<forall>vs \<in> set vss. \<forall>v \<in> set vs. opt_all (\<lambda>x. cell_pos x < INT32_MAX) v)"

lemma kv_bounded_views: "kv_bounded kv \<longleftrightarrow> swa_ok kv \<and> views_bounded (kv_views kv)"
proof -
  have "below_max c \<longleftrightarrow> (\<forall>v \<in> set (cells_view c). opt_all (\<lambda>x. cell_pos x < INT32_MAX) v)" for c
    by (auto simp: below_max_def cells_view_def)
  then show ?thesis
    by (auto simp: kv_bounded_def views_bounded_def kv_views_def)
qed

lemma kv_view_cell:
  assumes "kv_cache_inv m kv" "t < kv_n_stream kv" "i < m" "kv_views kv ! t ! i = Some x"
  shows "0 \<le> cell_pos x" "cell_seqs x \<subseteq> {..<LLAMA_MAX_SEQ}" "cell_seqs x \<noteq> {}"
proof -
  note c = kv_inv_cells [OF assms(1,2)]
  have v: "cell_view (kv_cells kv ! t) i = Some x"
    using assms c by simp
  show "0 \<le> cell_pos x" "cell_seqs x \<subseteq> {..<LLAMA_MAX_SEQ}"
    using cells_wf_cell [OF cells_inv_wf [OF c(1)], of i] v assms(3) c(3) by (auto simp: cell_view_def split: if_splits)
  show "cell_seqs x \<noteq> {}"
    using cells_liveD [OF c(2) _ v] assms(3) c(3) by simp
qed

lemma kv_views_lengths:
  assumes "kv_cache_inv m kv"
  shows "length (kv_views kv) = kv_n_stream kv" "t < kv_n_stream kv \<Longrightarrow> length (kv_views kv ! t) = m"
  using assms kv_inv_cells [OF assms, of t] by (auto simp: kv_cache_inv_def)

lemma views_boundedD:
  assumes "views_bounded vss" "t < length vss" "i < length (vss ! t)" "vss ! t ! i = Some x"
  shows "cell_pos x < INT32_MAX"
proof -
  have "vss ! t ! i \<in> set (vss ! t)" "vss ! t \<in> set vss"
    using assms(2,3) by simp_all
  then have "opt_all (\<lambda>x. cell_pos x < INT32_MAX) (vss ! t ! i)"
    using assms(1) unfolding views_bounded_def by blast
  then show ?thesis
    using assms(4) by simp
qed

lemma lost_max_eq:
  assumes inv: "kv_cache_inv m kv" and ok: "slot_ok m (kv_views kv) ub si"
  shows "fold note_rm (overwritten si (length (si_strm si)) (kv_views kv)) rm_init = lost_max si (kv_views kv)"
proof (rule nth_equalityI)
  let ?vs = "overwritten si (length (si_strm si)) (kv_views kv)"
  have vs: "single v \<and> opt_all (\<lambda>x. cell_seqs x \<subseteq> {..<LLAMA_MAX_SEQ}) v" if "v \<in> set ?vs" for v
  proof -
    obtain t i where v: "t < length (kv_views kv)" "i < m" "v = kv_views kv ! t ! i" "single v"
      by (rule overwritten_mem [OF ok \<open>v \<in> set ?vs\<close>])
    have "cell_seqs x \<subseteq> {..<LLAMA_MAX_SEQ}" if "v = Some x" for x
      by (rule kv_view_cell(2) [OF inv, of t i]) (use v that kv_views_lengths(1) [OF inv] in simp_all)
    then show ?thesis
      using v(4) by (cases v) simp_all
  qed
  show "length (fold note_rm ?vs rm_init) = length (lost_max si (kv_views kv))"
    by (simp add: rm_init_def lost_max_def)
  fix q assume "q < length (fold note_rm ?vs rm_init)"
  then have q: "q < length rm_init" "q < LLAMA_MAX_SEQ"
    by (simp_all add: rm_init_def)
  have "fold note_rm ?vs rm_init ! q = Max (insert (rm_init ! q) (lost_pos ?vs q))"
    by (rule note_rm_fold) (use vs q in \<open>fastforce simp: rm_init_def\<close>)+
  then show "fold note_rm ?vs rm_init ! q = lost_max si (kv_views kv) ! q"
    using q by (simp add: rm_init_def lost_max_def)
qed

lemma lost_max_bounds:
  assumes inv: "kv_cache_inv m kv" and ok: "slot_ok m (kv_views kv) ub si" and bnd: "views_bounded (kv_views kv)"
    and q: "q < LLAMA_MAX_SEQ"
  shows "- 1 \<le> lost_max si (kv_views kv) ! q \<and> lost_max si (kv_views kv) ! q < INT32_MAX"
proof -
  let ?vs = "overwritten si (length (si_strm si)) (kv_views kv)"
  have "p < INT32_MAX" if "p \<in> lost_pos ?vs q" for p
  proof -
    obtain x where x: "Some x \<in> set ?vs" "p = cell_pos x"
      using \<open>p \<in> lost_pos ?vs q\<close> by (auto simp: lost_pos_def)
    obtain t i where "t < length (kv_views kv)" "i < m" "Some x = kv_views kv ! t ! i" "single (Some x)"
      by (rule overwritten_mem [OF ok x(1)])
    then show ?thesis
      using views_boundedD [OF bnd, of t i x] kv_views_lengths [OF inv] x(2) by simp
  qed
  then show ?thesis
    using q by (simp add: lost_max_def INT32_MAX_def)
qed

lemma apply_ubatch_ok:
  assumes inv: "kv_cache_inv m kv" and ok: "slot_ok m (kv_views kv) ub si" and bnd: "views_bounded (kv_views kv)"
  shows "\<exists>kv'. apply_ubatch si ub kv = Some kv' \<and> kv_cache_inv m kv' \<and> same_setup kv kv' \<and>
    kv_views kv' = map (\<lambda>t. map (purge_cell LLAMA_MAX_SEQ (lost_max si (kv_views kv)) (kv_seq_to_stream kv) t)
      (place_rows ub si (length (si_strm si)) (kv_views kv) ! t)) [0..<kv_n_stream kv]"
proof -
  let ?rm = "lost_max si (kv_views kv)" and ?k = "length (si_strm si)"
  obtain kv1 where kv1: "mfold (place_stream ub si (length (si_idxs si ! 0))) [0..<?k] (kv, rm_init) = Some (kv1, ?rm)"
    "kv_cache_inv m kv1" "kv_views kv1 = place_rows ub si ?k (kv_views kv)" "same_setup kv kv1"
    using place_rows_ok [OF inv ok, of rm_init] unfolding lost_max_eq [OF inv ok] by auto
  obtain kv2 where kv2: "mfold (purge_seq ?rm) [0..<LLAMA_MAX_SEQ] kv1 = Some kv2" "kv_cache_inv m kv2" "same_setup kv1 kv2"
    "\<forall>t < kv_n_stream kv1. kv_views kv2 ! t = map (purge_cell LLAMA_MAX_SEQ ?rm (kv_seq_to_stream kv1) t) (kv_views kv1 ! t)"
    using purge_all_ok [OF kv1(2) lost_max_bounds [OF inv ok bnd]] by blast
  obtain kv3 where kv3: "mfold (advance_head si) [0..<?k] kv2 = Some kv3" "kv_cache_inv m kv3" "same_setup kv2 kv3"
    "kv_views kv3 = kv_views kv2"
    using advance_heads_ok [OF kv2(2) ok] by blast
  have frame: "kv_n_stream kv1 = kv_n_stream kv" "kv_seq_to_stream kv1 = kv_seq_to_stream kv" "same_setup kv kv3"
    using kv1(4) kv2(3) kv3(3) by (simp_all add: same_setup_def)
  have size: "si_size si = Some (length (si_idxs si ! 0))"
  proof -
    have "si_idxs si \<noteq> []"
      using slot_okD(2,3) [OF ok] by auto
    then show ?thesis
      using slot_okD(3) [OF ok] by (simp add: si_size_def)
  qed
  have "apply_ubatch si ub kv = Some kv3"
    using kv1(1) kv2(1) kv3(1) size slot_okD(4) [OF ok] unfolding rm_init_def
    by (simp add: apply_ubatch_def si_n_stream_def)
  moreover have "kv_views kv3 = map (\<lambda>t. map (purge_cell LLAMA_MAX_SEQ ?rm (kv_seq_to_stream kv) t)
      (place_rows ub si ?k (kv_views kv) ! t)) [0..<kv_n_stream kv]"
    using kv2(4) frame kv1(3) kv3(4) kv_views_lengths(1) [OF kv3(2)]
    by (intro nth_equalityI) (auto simp: same_setup_def)
  ultimately show ?thesis
    using kv3(2) frame(3) by blast
qed

section \<open>Cell by cell\<close>

lemma place_rows_length [simp]: "length (place_rows ub si k vss) = length vss"
  by (simp add: place_rows_def)

lemma place_rows_row:
  assumes "slot_ok m vss ub si" "s < length (si_strm si)"
  shows "place_rows ub si (length (si_strm si)) vss ! (si_strm si ! s) =
    place_row ub (s * length (si_idxs si ! 0)) (si_idxs si ! s) (vss ! (si_strm si ! s))"
  unfolding place_rows_def
  by (subst write_at_nth)
    (use assms slot_okD(5) [OF assms(1)] slot_ok_row [OF assms] in \<open>auto simp: inj_on_def nth_eq_iff_index_eq\<close>)

lemma place_rows_token:
  assumes "slot_ok m vss ub si" "s < length (si_strm si)" "ii < length (si_idxs si ! 0)" "\<And>t. t < length vss \<Longrightarrow> length (vss ! t) = m"
  shows "place_rows ub si (length (si_strm si)) vss ! (si_strm si ! s) ! (si_idxs si ! s ! ii) =
    Some (token_cell ub (s * length (si_idxs si ! 0) + ii))"
proof -
  note row = slot_ok_row [OF assms(1,2)]
  have "si_idxs si ! s ! ii < m"
    using row(2,4) assms(3) by simp
  then show ?thesis
    unfolding place_rows_row [OF assms(1,2)] place_row_def
    by (intro write_at_nth) (use row assms(3,4) in \<open>auto simp: inj_on_def nth_eq_iff_index_eq\<close>)
qed

lemma place_rows_other:
  assumes "slot_ok m vss ub si" "\<And>s. s < length (si_strm si) \<Longrightarrow> si_strm si ! s = t \<Longrightarrow> i \<notin> set (si_idxs si ! s)"
  shows "place_rows ub si (length (si_strm si)) vss ! t ! i = vss ! t ! i"
proof (cases "t \<in> set (si_strm si)")
  case False
  then have "t \<notin> (!) (si_strm si) ` {..<length (si_strm si)}"
    by (auto simp: in_set_conv_nth)
  then show ?thesis
    unfolding place_rows_def by (subst write_at_other) auto
next
  case True
  then obtain s where s: "s < length (si_strm si)" "si_strm si ! s = t"
    by (auto simp: in_set_conv_nth)
  have "i \<notin> (!) (si_idxs si ! s) ` {..<length (si_idxs si ! s)}"
    using assms(2) [OF s] by auto
  then show ?thesis
    using place_rows_row [OF assms(1) s(1)] s(2) by (simp add: place_row_def write_at_other)
qed

text \<open>What a ubatch must satisfy besides its row structure: the tokens are well formed and the rows go to
  different streams.\<close>

definition ub_ready :: "kv_cache \<Rightarrow> 'e llama_ubatch \<Rightarrow> bool" where
  "ub_ready kv ub \<longleftrightarrow> ub_rows_ok kv ub \<and> distinct (map (row_stream kv ub) [0..<n_rows kv ub]) \<and>
     (\<forall>k < ub_n_tokens ub. token_ok ub k)"

lemma usable_single: "usable kv c i \<Longrightarrow> single (cell_view c i)"
  by (auto simp: usable_def single_def split: option.splits)

lemma slot_fits_ok:
  assumes inv: "kv_cache_inv m kv" and fits: "slot_fits m kv ub si" and ub: "ub_ready kv ub"
  shows "slot_ok m (kv_views kv) ub si" "length (si_strm si) = n_rows kv ub" "length (si_idxs si ! 0) = row_len kv ub"
    "\<And>s. s < n_rows kv ub \<Longrightarrow> si_strm si ! s = row_stream kv ub s"
proof -
  have rows: "ub_rows_ok kv ub" "0 < n_rows kv ub"
    using ub by (simp_all add: ub_ready_def ub_rows_ok_def)
  show len: "length (si_strm si) = n_rows kv ub" "length (si_idxs si ! 0) = row_len kv ub"
    "\<And>s. s < n_rows kv ub \<Longrightarrow> si_strm si ! s = row_stream kv ub s"
    using fits rows by (simp_all add: slot_fits_def)
  have tokens: "ub_n_tokens ub = n_rows kv ub * row_len kv ub"
    using rows by (simp add: ub_rows_ok_def row_len_def mod_eq_0_iff_dvd)
  have cell: "single (kv_views kv ! row_stream kv ub s ! i)"
    if "s < n_rows kv ub" "i < m" "usable kv (kv_cells kv ! row_stream kv ub s) i" for s i
    using that usable_single kv_inv_cells [OF inv row_stream_less [OF inv rows(1) that(1)]] by simp
  show "slot_ok m (kv_views kv) ub si"
    unfolding slot_ok_def Let_def len
  proof (intro conjI)
    show "si_strm si \<noteq> []"
      using len(1) rows(2) by auto
    show "\<forall>s < n_rows kv ub. si_strm si ! s < length (kv_views kv) \<and> length (si_idxs si ! s) = row_len kv ub \<and>
        distinct (si_idxs si ! s) \<and> (\<forall>i \<in> set (si_idxs si ! s). i < m \<and> single (kv_views kv ! (si_strm si ! s) ! i))"
      using fits cell row_stream_less [OF inv rows(1)] kv_views_lengths(1) [OF inv]
      unfolding slot_fits_def by (auto simp del: kv_views_simps)
  qed (use row_len_pos [OF rows(1)] fits ub tokens in \<open>simp_all add: slot_fits_def ub_ready_def\<close>)
qed

definition purged :: "kv_cache \<Rightarrow> slot_info \<Rightarrow> nat \<Rightarrow> kv_cell option \<Rightarrow> kv_cell option" where
  "purged kv si t = purge_cell LLAMA_MAX_SEQ (lost_max si (kv_views kv)) (kv_seq_to_stream kv) t"

lemma purged_bounded:
  "opt_all (\<lambda>x. cell_pos x < n) v \<Longrightarrow> opt_all (\<lambda>x. cell_pos x < n) (purged kv si t v)"
  by (cases v) (simp_all add: purged_def purge_cell_def)

text \<open>The tokens of the ubatch and the other cells after \<open>apply_ubatch\<close>.\<close>

definition placed :: "nat \<Rightarrow> kv_cache \<Rightarrow> 'e llama_ubatch \<Rightarrow> slot_info \<Rightarrow> kv_cache \<Rightarrow> bool" where
  "placed m kv ub si kv' \<longleftrightarrow>
     (\<forall>s < n_rows kv ub. \<forall>ii < row_len kv ub. kv_views kv' ! (si_strm si ! s) ! (si_idxs si ! s ! ii) =
        purged kv si (si_strm si ! s) (Some (token_cell ub (s * row_len kv ub + ii)))) \<and>
     (\<forall>t < kv_n_stream kv. \<forall>i < m. (\<forall>s < n_rows kv ub. si_strm si ! s = t \<longrightarrow> i \<notin> set (si_idxs si ! s)) \<longrightarrow>
        kv_views kv' ! t ! i = purged kv si t (kv_views kv ! t ! i))"

lemma slot_cell_cases:
  assumes "slot_ok m vss ub si"
  obtains (token) s ii where "s < length (si_strm si)" "ii < length (si_idxs si ! 0)" "t = si_strm si ! s" "i = si_idxs si ! s ! ii"
    | (other) "\<And>s. s < length (si_strm si) \<Longrightarrow> si_strm si ! s = t \<Longrightarrow> i \<notin> set (si_idxs si ! s)"
proof (cases "\<exists>s < length (si_strm si). si_strm si ! s = t \<and> i \<in> set (si_idxs si ! s)")
  case True
  then obtain s where s: "s < length (si_strm si)" "si_strm si ! s = t" "i \<in> set (si_idxs si ! s)"
    by blast
  then obtain ii where "ii < length (si_idxs si ! s)" "i = si_idxs si ! s ! ii"
    by (auto simp: in_set_conv_nth)
  then show ?thesis
    using token [of s ii] s slot_ok_row(2) [OF assms s(1)] by simp
next
  case False
  then show ?thesis
    using other by blast
qed

lemma apply_slot:
  assumes inv: "kv_cache_inv m kv" and bnd: "kv_bounded kv" and ub: "ub_ready kv ub" and fits: "slot_fits m kv ub si"
  shows "\<exists>kv'. apply_ubatch si ub kv = Some kv' \<and> kv_cache_inv m kv' \<and> same_setup kv kv' \<and> kv_bounded kv' \<and>
    placed m kv ub si kv' \<and>
    (\<forall>t < kv_n_stream kv. kv_views kv' ! t = map (purged kv si t) (place_rows ub si (n_rows kv ub) (kv_views kv) ! t))"
proof -
  note ok = slot_fits_ok [OF inv fits ub]
  have vb: "views_bounded (kv_views kv)" "swa_ok kv"
    using bnd by (simp_all add: kv_bounded_views)
  note len = kv_views_lengths [OF inv]
  let ?P = "place_rows ub si (n_rows kv ub) (kv_views kv)"
  obtain kv' where kv': "apply_ubatch si ub kv = Some kv'" "kv_cache_inv m kv'" "same_setup kv kv'"
    "kv_views kv' = map (\<lambda>t. map (purged kv si t) (?P ! t)) [0..<kv_n_stream kv]"
    using apply_ubatch_ok [OF inv ok(1) vb(1)] unfolding purged_def ok(2) by auto
  have n_stream: "kv_n_stream kv' = kv_n_stream kv"
    using kv'(3) by (simp add: same_setup_def)
  have stream: "kv_views kv' ! t = map (purged kv si t) (?P ! t)" if "t < kv_n_stream kv" for t
    using kv'(4) that by (simp del: kv_views_simps)
  have lenP: "length (?P ! t) = m" if "t < kv_n_stream kv" for t
    using arg_cong [OF stream [OF that], of length] kv_views_lengths(2) [OF kv'(2)] n_stream that by (simp del: kv_views_simps)
  have cell: "kv_views kv' ! t ! i = purged kv si t (?P ! t ! i)" if "t < kv_n_stream kv" "i < m" for t i
    using stream [OF that(1)] lenP [OF that(1)] that(2) by simp
  have tok: "?P ! (si_strm si ! s) ! (si_idxs si ! s ! ii) = Some (token_cell ub (s * row_len kv ub + ii))"
    if "s < n_rows kv ub" "ii < row_len kv ub" for s ii
    using place_rows_token [OF ok(1), of s ii] that len unfolding ok(2,3) by simp
  have oth: "?P ! t ! i = kv_views kv ! t ! i"
    if "\<And>s. s < n_rows kv ub \<Longrightarrow> si_strm si ! s = t \<Longrightarrow> i \<notin> set (si_idxs si ! s)" for t i
    using place_rows_other [OF ok(1), of t i] that unfolding ok(2) by blast
  have range: "si_strm si ! s < kv_n_stream kv" "si_idxs si ! s ! ii < m" if "s < n_rows kv ub" "ii < row_len kv ub" for s ii
    using slot_ok_row [OF ok(1), of s] that len(1) unfolding ok(2,3) by auto
  have "placed m kv ub si kv'"
    unfolding placed_def using cell tok oth range by (auto simp del: kv_views_simps)
  moreover have "opt_all (\<lambda>x. cell_pos x < INT32_MAX) (?P ! t ! i)" if "t < kv_n_stream kv" "i < m" for t i
  proof (rule slot_cell_cases [OF ok(1), of t i])
    fix s ii assume "s < length (si_strm si)" "ii < length (si_idxs si ! 0)" "t = si_strm si ! s" "i = si_idxs si ! s ! ii"
    moreover from this have "s * row_len kv ub + ii < ub_n_tokens ub"
    proof -
      have "s * row_len kv ub + ii < Suc s * row_len kv ub"
        using \<open>ii < length (si_idxs si ! 0)\<close> ok(3) by simp
      also have "\<dots> \<le> n_rows kv ub * row_len kv ub"
        using \<open>s < length (si_strm si)\<close> ok(2) by (intro mult_le_mono1) simp
      finally show ?thesis
        using slot_okD(4) [OF ok(1)] ok(2,3) by simp
    qed
    ultimately show ?thesis
      using tok ub ok(2,3) by (simp add: ub_ready_def token_ok_def token_cell_def)
  next
    assume "\<And>s. s < length (si_strm si) \<Longrightarrow> si_strm si ! s = t \<Longrightarrow> i \<notin> set (si_idxs si ! s)"
    then have "?P ! t ! i = kv_views kv ! t ! i"
      using oth ok(2) by simp
    then show ?thesis
      using views_boundedD [OF vb(1), of t i] that len by (cases "kv_views kv ! t ! i") (simp_all del: kv_views_simps)
  qed
  then have "views_bounded (kv_views kv')"
    unfolding views_bounded_def kv'(4) using lenP purged_bounded by (fastforce simp: in_set_conv_nth)
  then have "kv_bounded kv'"
    using vb(2) kv'(3) by (simp add: kv_bounded_views swa_ok_def same_setup_def)
  ultimately show ?thesis
    using kv' stream by blast
qed

section \<open>Saving and restoring\<close>

text \<open>Without a sliding window only empty cells are usable, so nothing is overwritten or purged.\<close>

lemma fits_empty:
  assumes inv: "kv_cache_inv m kv" and fits: "slot_fits m kv ub si" and ub: "ub_ready kv ub" and swa: "kv_swa_type kv = SWA_NONE"
    and s: "s < length (si_strm si)" "i \<in> set (si_idxs si ! s)"
  shows "kv_views kv ! (si_strm si ! s) ! i = None"
proof -
  note ok = slot_fits_ok [OF inv fits ub]
  have s': "s < n_rows kv ub"
    using s(1) ok(2) by simp
  have "i < m \<and> usable kv (kv_cells kv ! row_stream kv ub s) i"
    using fits s(2) s' unfolding slot_fits_def by blast
  then show ?thesis
    using ok(4) [OF s'] swa kv_inv_cells [OF inv, of "row_stream kv ub s"] ub row_stream_less [OF inv _ s']
    by (auto simp: usable_def swa_masked_def ub_ready_def split: option.splits)
qed

lemma apply_slot_plain:
  assumes inv: "kv_cache_inv m kv" and bnd: "kv_bounded kv" and ub: "ub_ready kv ub" and fits: "slot_fits m kv ub si"
    and swa: "kv_swa_type kv = SWA_NONE"
  shows "\<exists>kv'. apply_ubatch si ub kv = Some kv' \<and> kv_cache_inv m kv' \<and> same_setup kv kv' \<and> kv_bounded kv' \<and>
    kv_views kv' = place_rows ub si (n_rows kv ub) (kv_views kv)"
proof -
  note ok = slot_fits_ok [OF inv fits ub]
  let ?P = "place_rows ub si (n_rows kv ub) (kv_views kv)"
  obtain kv' where kv': "apply_ubatch si ub kv = Some kv'" "kv_cache_inv m kv'" "same_setup kv kv'" "kv_bounded kv'"
    "\<forall>t < kv_n_stream kv. kv_views kv' ! t = map (purged kv si t) (?P ! t)"
    using apply_slot [OF inv bnd ub fits] by blast
  obtain kv1 where kv1: "kv_cache_inv m kv1" "kv_views kv1 = ?P" "same_setup kv kv1"
    using place_rows_ok [OF inv ok(1)] unfolding ok(2) by blast
  have n: "kv_n_stream kv1 = kv_n_stream kv" "kv_n_stream kv' = kv_n_stream kv"
    using kv1(3) kv'(3) by (simp_all add: same_setup_def)
  have none: "v = None" if "v \<in> set (overwritten si (length (si_strm si)) (kv_views kv))" for v
    using that fits_empty [OF inv fits ub swa] by (auto simp: overwritten_def)
  have "lost_pos (overwritten si (length (si_strm si)) (kv_views kv)) q = {}" for q
    using none by (force simp: lost_pos_def)
  then have lost: "lost_max si (kv_views kv) ! q = - 1" if "q < LLAMA_MAX_SEQ" for q
    using that by (simp add: lost_max_def)
  have same: "purged kv si t (?P ! t ! i) = ?P ! t ! i" if "t < kv_n_stream kv" "i < m" for t i
  proof (cases "?P ! t ! i")
    case (Some x)
    have "cell_seqs x \<subseteq> {..<LLAMA_MAX_SEQ}" "cell_seqs x \<noteq> {}"
      using kv_view_cell [OF kv1(1), of t i x] that Some kv1(2) n by simp_all
    moreover from this(1) have "kept_seqs LLAMA_MAX_SEQ (lost_max si (kv_views kv)) (kv_seq_to_stream kv) t x = cell_seqs x"
      using lost by (auto simp: kept_seqs_def)
    ultimately show ?thesis
      unfolding Some purged_def by (simp add: purge_cell_def)
  qed (simp add: purged_def purge_cell_def)
  have "kv_views kv' = ?P"
  proof (rule nth_equalityI)
    show "length (kv_views kv') = length ?P"
      using kv_views_lengths(1) [OF kv'(2)] kv_views_lengths(1) [OF inv] n by simp
    fix t assume "t < length (kv_views kv')"
    then have t: "t < kv_n_stream kv"
      using kv_views_lengths(1) [OF kv'(2)] n by simp
    have "length (?P ! t) = m"
      using kv_views_lengths(2) [OF kv1(1), of t] kv1(2) n t by simp
    then show "kv_views kv' ! t = ?P ! t"
      using kv'(5) t same [OF t] by (auto intro!: map_idI simp: in_set_conv_nth)
  qed
  then show ?thesis
    using kv' by blast
qed

text \<open>The copies that \<open>prepare\<close> takes before placing a ubatch.\<close>

lemma cp_idxs_empty:
  assumes "kv_cells_inv c" "\<And>i. i \<in> set idxs \<Longrightarrow> i < cells_size c \<and> cell_view c i = None"
  shows "\<exists>o'. cells_cp_idxs idxs c = Some o'"
proof -
  have "kc_shift c ! i = 0" if "i \<in> set idxs" for i
    using assms(2) [OF that] cells_wf_cell [OF cells_inv_wf [OF assms(1)], of i] by (auto simp: cell_view_def split: if_splits)
  then show ?thesis
    using assms(2) by (auto simp: cells_cp_idxs_def list_all_iff)
qed

definition saved_rows :: "slot_info \<Rightarrow> kv_cache \<Rightarrow> llama_kv_cells list \<Rightarrow> nat \<Rightarrow> bool" where
  "saved_rows si kv saved k \<longleftrightarrow> length saved = k \<and>
     (\<forall>s < k. cells_cp_idxs (si_idxs si ! s) (kv_cells kv ! (si_strm si ! s)) = Some (saved ! s))"

lemma save_cells_ok:
  assumes inv: "kv_cache_inv m kv" and ok: "slot_ok m (kv_views kv) ub si"
    and empty: "\<And>s i. s < length (si_strm si) \<Longrightarrow> i \<in> set (si_idxs si ! s) \<Longrightarrow> kv_views kv ! (si_strm si ! s) ! i = None"
  shows "\<exists>saved. save_cells si kv = Some saved \<and> saved_rows si kv saved (length (si_strm si))"
proof -
  let ?f = "\<lambda>s acc. do {
     require (si_strm si ! s < length (kv_cells kv));
     o' \<leftarrow> cells_cp_idxs (si_idxs si ! s) (kv_cells kv ! (si_strm si ! s));
     Some (acc @ [o']) }"
  have "\<exists>saved. mfold ?f [0..<length (si_strm si)] [] = Some saved \<and>
      (\<lambda>done saved. saved_rows si kv saved (length done)) [0..<length (si_strm si)] saved"
  proof (rule mfold_invariant)
    show "saved_rows si kv [] (length [])"
      by (simp add: saved_rows_def)
    fix "done" k rest saved
    assume split: "[0..<length (si_strm si)] = done @ k # rest" and I: "saved_rows si kv saved (length done)"
    note k = upt_splitD [OF split]
    note row = slot_ok_row [OF ok k(2)]
    have t: "si_strm si ! k < kv_n_stream kv"
      using row(1) kv_views_lengths(1) [OF inv] by simp
    note c = kv_inv_cells [OF inv t]
    obtain o' where "cells_cp_idxs (si_idxs si ! k) (kv_cells kv ! (si_strm si ! k)) = Some o'"
      using cp_idxs_empty [OF c(1), of "si_idxs si ! k"] row(4) empty [OF k(2)] c by auto
    then show "\<exists>saved'. ?f k saved = Some saved' \<and> saved_rows si kv saved' (length (done @ [k]))"
      using c I k by (auto simp: saved_rows_def nth_append less_Suc_eq)
  qed
  then show ?thesis
    by (simp add: save_cells_def si_n_stream_def)
qed

lemma restore_stream_ok:
  assumes inv: "kv_cache_inv m kv" and ok: "slot_ok m (kv_views kv) ub si" and saved: "saved_rows si kv (ps_cells st) (length (si_strm si))"
    and st: "ps_sinfo st = si" "ps_heads_old st = kv_heads kv" and s: "s < length (si_strm si)"
    and inv1: "kv_cache_inv m kv1" "same_setup kv kv1"
    and row: "kv_views kv1 ! (si_strm si ! s) = place_row ub (s * length (si_idxs si ! 0)) (si_idxs si ! s) (kv_views kv ! (si_strm si ! s))"
  defines "t \<equiv> si_strm si ! s"
  obtains kv2 where "restore_stream st s kv1 = Some kv2" "kv_cache_inv m kv2" "same_setup kv kv2"
    "kv_views kv2 = (kv_views kv1)[t := kv_views kv ! t]"
proof -
  let ?idxs = "si_idxs si ! s"
  note slot = slot_ok_row [OF ok s, folded t_def]
  have t: "t < kv_n_stream kv" "kv_n_stream kv1 = kv_n_stream kv"
    using slot(1) kv_views_lengths(1) [OF inv] inv1(2) by (simp_all add: same_setup_def)
  note c = kv_inv_cells [OF inv t(1)] and c1 = kv_inv_cells [OF inv1(1), of t, unfolded t(2), OF t(1)]
  have view1: "cells_view (kv_cells kv1 ! t) = place_row ub (s * length (si_idxs si ! 0)) ?idxs (cells_view (kv_cells kv ! t))"
    using row c(4) c1(4) by (simp add: t_def)
  have "cell_view (kv_cells kv1 ! t) i = cell_view (kv_cells kv ! t) i" if "i < m" "i \<notin> set ?idxs" for i
  proof -
    have "i \<notin> (!) ?idxs ` {..<length ?idxs}"
      using that(2) by auto
    then show ?thesis
      using arg_cong [OF view1, of "\<lambda>vs. vs ! i"] that(1) c(3) c1(3) by (simp add: place_row_def write_at_other)
  qed
  moreover have "kc_shift (kv_cells kv1 ! t) ! i = 0" if "i \<in> set ?idxs" for i
  proof -
    obtain ii where ii: "ii < length ?idxs" "i = ?idxs ! ii"
      using \<open>i \<in> set ?idxs\<close> by (auto simp: in_set_conv_nth)
    have i: "i < m"
      using slot(4) that by blast
    have "cell_view (kv_cells kv1 ! t) i = place_row ub (s * length (si_idxs si ! 0)) ?idxs (cells_view (kv_cells kv ! t)) ! i"
      using arg_cong [OF view1, of "\<lambda>vs. vs ! i"] i c1(3) by simp
    also have "\<dots> = Some (token_cell ub (s * length (si_idxs si ! 0) + ii))"
      unfolding place_row_def ii(2)
      by (rule write_at_nth) (use ii i c(3) slot(3) in \<open>auto simp: inj_on_def nth_eq_iff_index_eq\<close>)
    finally show ?thesis
      by (auto simp: cell_view_def token_cell_def split: if_splits)
  qed
  ultimately obtain c2 where c2: "cells_set_idxs ?idxs (ps_cells st ! s) (kv_cells kv1 ! t) = Some c2" "kv_cells_inv c2"
    "cells_view c2 = cells_view (kv_cells kv ! t)"
    using cells_set_restores [OF c(1), of ?idxs "ps_cells st ! s" "kv_cells kv1 ! t"] saved s c(3) c1
    by (auto simp: saved_rows_def t_def)
  let ?kv2 = "kv1\<lparr>kv_cells := (kv_cells kv1)[t := c2], kv_heads := (kv_heads kv1)[t := kv_heads kv ! s]\<rparr>"
  have k: "s < length (kv_heads kv)"
  proof -
    have "distinct (si_strm si)" "set (si_strm si) \<subseteq> {..<kv_n_stream kv}"
      using slot_okD(5) [OF ok] slot_ok_row(1) [OF ok] kv_views_lengths(1) [OF inv] by (auto simp: in_set_conv_nth)
    then have "length (si_strm si) \<le> kv_n_stream kv"
      using card_mono [of "{..<kv_n_stream kv}" "set (si_strm si)"] by (simp add: distinct_card)
    then show ?thesis
      using s inv by (simp add: kv_cache_inv_def)
  qed
  have live: "cells_live c2" "cells_size c2 = m"
    using c(2,3) c2(3) by (simp_all add: cells_live_def) (metis length_cells_view)
  have "kv_cache_inv m ?kv2"
  proof (rule kv_inv_store [OF inv1(1) c2(2) live])
    show "kv_heads kv ! s \<le> m"
      using inv k by (auto simp: kv_cache_inv_def)
  qed
  moreover have "same_setup kv ?kv2"
    using inv1(2) by (simp add: same_setup_def)
  moreover have "restore_stream st s kv1 = Some ?kv2"
    using c1(4,5) c2(1) k unfolding t_def by (simp add: restore_stream_def st Let_def)
  moreover have "kv_views ?kv2 = (kv_views kv1)[t := kv_views kv ! t]"
    using c2(3) c(4) by simp
  ultimately show thesis
    using that by blast
qed

lemma restore_state_ok:
  assumes inv: "kv_cache_inv m kv" and ok: "slot_ok m (kv_views kv) ub si" and saved: "saved_rows si kv (ps_cells st) (length (si_strm si))"
    and st: "ps_sinfo st = si" "ps_heads_old st = kv_heads kv"
    and kv1: "kv_cache_inv m kv1" "same_setup kv kv1" "kv_views kv1 = place_rows ub si (length (si_strm si)) (kv_views kv)"
  shows "\<exists>kv2. restore_state st kv1 = Some kv2 \<and> kv_cache_inv m kv2 \<and> same_setup kv kv2 \<and> kv_views kv2 = kv_views kv"
proof -
  let ?k = "length (si_strm si)" and ?P = "place_rows ub si (length (si_strm si)) (kv_views kv)"
  let ?I = "\<lambda>done kv2. kv_cache_inv m kv2 \<and> same_setup kv kv2 \<and>
    kv_views kv2 = write_at ((!) (si_strm si)) (\<lambda>s. kv_views kv ! (si_strm si ! s)) (length done) ?P"
  have "\<exists>kv2. mfold (restore_stream st) [0..<?k] kv1 = Some kv2 \<and> ?I [0..<?k] kv2"
  proof (rule mfold_invariant)
    show "?I [] kv1"
      using kv1 by simp
    fix "done" k rest kv2
    assume split: "[0..<?k] = done @ k # rest" and I: "?I done kv2"
    note k = upt_splitD [OF split]
    have "si_strm si ! k \<notin> (!) (si_strm si) ` {..<k}"
      using slot_okD(5) [OF ok] k(2) by (auto simp: nth_eq_iff_index_eq)
    then have row: "kv_views kv2 ! (si_strm si ! k) =
        place_row ub (k * length (si_idxs si ! 0)) (si_idxs si ! k) (kv_views kv ! (si_strm si ! k))"
      using I k place_rows_row [OF ok k(2)] by (simp add: write_at_other)
    obtain kv3 where "restore_stream st k kv2 = Some kv3" "kv_cache_inv m kv3" "same_setup kv kv3"
      "kv_views kv3 = (kv_views kv2)[si_strm si ! k := kv_views kv ! (si_strm si ! k)]"
      by (rule restore_stream_ok [OF inv ok saved st k(2) _ _ row]) (use I in auto)
    then show "\<exists>kv3. restore_stream st k kv2 = Some kv3 \<and> ?I (done @ [k]) kv3"
      using I k by simp
  qed
  moreover have "write_at ((!) (si_strm si)) (\<lambda>s. kv_views kv ! (si_strm si ! s)) ?k ?P = kv_views kv"
    unfolding write_at_def
  proof (rule fold_update_same)
    fix t assume "t \<notin> (!) (si_strm si) ` {..<?k}"
    then show "?P ! t = kv_views kv ! t"
      by (simp add: place_rows_def write_at_other)
  qed simp_all
  ultimately show ?thesis
    by (auto simp: restore_state_def st si_n_stream_def)
qed

section \<open>Preparing\<close>

lemma setup_cong:
  assumes "same_setup kv kv'"
  shows "ub_ready kv' ub = ub_ready kv ub" "n_rows kv' ub = n_rows kv ub" "row_len kv' ub = row_len kv ub"
    "row_stream kv' ub s = row_stream kv ub s"
proof -
  have "row_stream kv' ub = row_stream kv ub"
    using assms by (simp add: fun_eq_iff same_setup_def row_stream_def)
  then show "ub_ready kv' ub = ub_ready kv ub" "n_rows kv' ub = n_rows kv ub" "row_len kv' ub = row_len kv ub"
    "row_stream kv' ub s = row_stream kv ub s"
    using assms by (simp_all add: same_setup_def ub_ready_def ub_rows_ok_def n_rows_def row_len_def)
qed

lemma slot_fits_cong:
  assumes inv: "kv_cache_inv m kv" "kv_cache_inv m kv'" and eq: "same_setup kv kv'" "kv_views kv' = kv_views kv"
    and ub: "ub_ready kv ub" and fits: "slot_fits m kv ub si"
  shows "slot_fits m kv' ub si"
proof -
  have n: "kv_n_stream kv' = kv_n_stream kv" "kv_n_swa kv' = kv_n_swa kv" "kv_swa_type kv' = kv_swa_type kv"
    using eq(1) by (simp_all add: same_setup_def)
  have cells: "usable kv' (kv_cells kv' ! row_stream kv ub s) i"
    if "s < n_rows kv ub" "i < m" "usable kv (kv_cells kv ! row_stream kv ub s) i" for s i
  proof -
    have t: "row_stream kv ub s < kv_n_stream kv"
      using row_stream_less [OF inv(1) _ that(1)] ub by (simp add: ub_ready_def)
    note c = kv_inv_cells [OF inv(1) t] and c' = kv_inv_cells [OF inv(2), of "row_stream kv ub s", unfolded n(1), OF t]
    have "cells_view (kv_cells kv' ! row_stream kv ub s) = cells_view (kv_cells kv ! row_stream kv ub s)"
      using arg_cong [OF eq(2), of "\<lambda>vss. vss ! row_stream kv ub s"] c(4) c'(4) by simp
    moreover from this have "cell_view (kv_cells kv' ! row_stream kv ub s) i = cell_view (kv_cells kv ! row_stream kv ub s) i"
      using that(2) c(3) c'(3) by (metis nth_cells_view)
    ultimately show ?thesis
      using that(3) unfolding usable_def n by (simp split: option.splits)
  qed
  show ?thesis
    using fits cells unfolding slot_fits_def setup_cong [OF eq(1)] by auto
qed

definition run_slots :: "slot_info list \<Rightarrow> 'e llama_ubatch list \<Rightarrow> kv_cache \<Rightarrow> kv_cache option" where
  "run_slots sis ubs = mfold (\<lambda>(si, ub). apply_ubatch si ub) (zip sis ubs)"

text \<open>The slots can be applied one after the other to every cache with these cells.\<close>

definition slots_run :: "nat \<Rightarrow> kv_cache \<Rightarrow> slot_info list \<Rightarrow> 'e llama_ubatch list \<Rightarrow> bool" where
  "slots_run m kv sis ubs \<longleftrightarrow> (\<forall>kvx. kv_cache_inv m kvx \<and> same_setup kv kvx \<and> kv_views kvx = kv_views kv \<longrightarrow>
     (\<exists>kvy. run_slots sis ubs kvx = Some kvy \<and> kv_cache_inv m kvy))"

lemma prepare_loop_ok:
  assumes "kv_cache_inv m kv" "kv_bounded kv" "kv_swa_type kv = SWA_NONE" "\<forall>ub \<in> set ubs. ub_ready kv ub"
  shows "\<exists>b sis sts kv1 kv2. prepare_loop ubs res states kv = Some (b, res @ sis, sts @ states, kv1) \<and>
    (b \<longrightarrow> length sis = length ubs) \<and> length sts = length sis \<and> (ubs \<noteq> [] \<and> b \<longrightarrow> sts \<noteq> []) \<and> slots_run m kv sis ubs \<and>
    mfold restore_state sts kv1 = Some kv2 \<and> kv_cache_inv m kv2 \<and> same_setup kv kv2 \<and> kv_views kv2 = kv_views kv"
  using assms
proof (induction ubs arbitrary: kv res states)
  case Nil
  then show ?case
    by (intro exI [of _ True] exI [of _ "[]"]) (auto simp: slots_run_def run_slots_def same_setup_def)
next
  case (Cons ub ubs)
  have ub: "ub_ready kv ub" "ub_rows_ok kv ub"
    using Cons.prems(4) by (simp_all add: ub_ready_def)
  obtain si where si: "find_slot kv ub False = Some si" "\<not> si_empty si \<longrightarrow> slot_fits m kv ub si"
    using find_slot_fits [OF Cons.prems(1,2) ub(2)] by blast
  show ?case
  proof (cases "si_empty si")
    case True
    then show ?thesis
      using si(1) Cons.prems
      by (intro exI [of _ False] exI [of _ "[]"]) (auto simp: slots_run_def run_slots_def same_setup_def)
  next
    case False
    then have fits: "slot_fits m kv ub si"
      using si(2) by blast
    note ok = slot_fits_ok [OF Cons.prems(1) fits ub(1)]
    obtain saved where saved: "save_cells si kv = Some saved" "saved_rows si kv saved (length (si_strm si))"
      using save_cells_ok [OF Cons.prems(1) ok(1)] fits_empty [OF Cons.prems(1) fits ub(1) Cons.prems(3)] by blast
    obtain kv' where kv': "apply_ubatch si ub kv = Some kv'" "kv_cache_inv m kv'" "same_setup kv kv'" "kv_bounded kv'"
      "kv_views kv' = place_rows ub si (n_rows kv ub) (kv_views kv)"
      using apply_slot_plain [OF Cons.prems(1,2) ub(1) fits Cons.prems(3)] by blast
    let ?st = "\<lparr>ps_sinfo = si, ps_heads_old = kv_heads kv, ps_cells = saved\<rparr>"
    have "kv_swa_type kv' = SWA_NONE" "\<forall>ub \<in> set ubs. ub_ready kv' ub"
      using kv'(3) Cons.prems(3,4) by (simp_all add: setup_cong(1) [OF kv'(3)]) (simp add: same_setup_def)
    from Cons.IH [OF kv'(2,4) this, of "res @ [si]" "?st # states"]
    obtain b sis sts kv1 kv2 where r: "prepare_loop ubs (res @ [si]) (?st # states) kv' = Some (b, (res @ [si]) @ sis, sts @ ?st # states, kv1)"
      "b \<longrightarrow> length sis = length ubs" "length sts = length sis" "slots_run m kv' sis ubs" "mfold restore_state sts kv1 = Some kv2"
      "kv_cache_inv m kv2" "same_setup kv' kv2" "kv_views kv2 = kv_views kv'"
      by blast
    have "same_setup kv kv2"
      using kv'(3) r(7) by (simp add: same_setup_def)
    then obtain kv3 where kv3: "restore_state ?st kv2 = Some kv3" "kv_cache_inv m kv3" "same_setup kv kv3" "kv_views kv3 = kv_views kv"
      using restore_state_ok [OF Cons.prems(1) ok(1), of ?st kv2] saved(2) r(6,8) kv'(5) ok(2) by auto
    have "slots_run m kv (si # sis) (ub # ubs)"
      unfolding slots_run_def
    proof (intro allI impI, elim conjE)
      fix kvx assume x: "kv_cache_inv m kvx" "same_setup kv kvx" "kv_views kvx = kv_views kv"
      have bx: "kv_bounded kvx" "kv_swa_type kvx = SWA_NONE" "ub_ready kvx ub"
        using Cons.prems(2,3) x(2,3) ub(1)
        by (simp_all add: setup_cong(1) [OF x(2)]) (simp_all add: kv_bounded_views swa_ok_def same_setup_def)
      obtain kvx' where "apply_ubatch si ub kvx = Some kvx'" "kv_cache_inv m kvx'" "same_setup kvx kvx'"
        "kv_views kvx' = place_rows ub si (n_rows kvx ub) (kv_views kvx)"
        using apply_slot_plain [OF x(1) bx(1,3) slot_fits_cong [OF Cons.prems(1) x ub(1) fits] bx(2)] by blast
      moreover from this have "same_setup kv' kvx'" "kv_views kvx' = kv_views kv'"
        using x(2,3) kv'(3,5) by (simp_all add: setup_cong(2) [OF x(2)]) (simp add: same_setup_def)
      ultimately show "\<exists>kvy. run_slots (si # sis) (ub # ubs) kvx = Some kvy \<and> kv_cache_inv m kvy"
        using r(4) by (simp add: slots_run_def run_slots_def)
    qed
    moreover have "prepare_loop (ub # ubs) res states kv = Some (b, res @ (si # sis), (sts @ [?st]) @ states, kv1)"
      using si(1) False saved(1) kv'(1) r(1) by simp
    moreover have "mfold restore_state (sts @ [?st]) kv1 = Some kv3"
      using r(5) kv3(1) by (simp add: mfold_append)
    ultimately show ?thesis
      using r(2,3) kv3 by (intro exI [of _ b] exI [of _ "si # sis"] exI [of _ "sts @ [?st]"] exI [of _ kv1] exI [of _ kv3]) simp
  qed
qed

lemma prepare_single:
  assumes "kv_cache_inv m kv" "kv_bounded kv" "kv_swa_type kv = SWA_NONE" "ub_ready kv ub"
    and "\<not> (case find_slot kv ub False of None \<Rightarrow> True | Some si \<Rightarrow> si_empty si)"
  shows "\<exists>sis kv'. prepare [ub] kv = Some (sis, kv') \<and> sis \<noteq> []"
proof -
  obtain si where si: "find_slot kv ub False = Some si" "\<not> si_empty si"
    using assms(5) by (auto split: option.splits)
  obtain b sis sts kv1 kv2 where r: "prepare_loop [ub] [] [] kv = Some (b, [] @ sis, sts @ [], kv1)" "b \<longrightarrow> length sis = length [ub]"
    "[ub] \<noteq> [] \<and> b \<longrightarrow> sts \<noteq> []" "mfold restore_state sts kv1 = Some kv2"
    using prepare_loop_ok [OF assms(1-3), of "[ub]" "[]" "[]"] assms(4) by auto
  have b
    using r(1) si by (auto simp: bind_Some_iff)
  then show ?thesis
    using r by (auto simp: prepare_def)
qed

section \<open>Properties\<close>

lemma demo_ub_ready: "ub_ready demo_kv demo_ub"
  by code_simp

text \<open>C15. \<open>apply_ubatch\<close> with a slot found by \<open>find_slot\<close> returns and keeps the cache consistent. The cells of
  the slot hold the tokens of the ubatch, each with its position and its sequences; all other cells are as
  before. If cells of a sequence were overwritten (only possible with a sliding window), the sequence also
  loses all cells with positions up to the greatest one overwritten, and nothing else.\<close>

theorem apply_ubatch_effect:
  assumes "kv_cache_inv kv_size kv" "kv_bounded kv" "ub_ready kv ub" "find_slot kv ub False = Some si" "\<not> si_empty si"
  shows "\<exists>kv'. apply_ubatch si ub kv = Some kv' \<and> kv_cache_inv kv_size kv' \<and> kv_bounded kv' \<and> placed kv_size kv ub si kv'"
proof -
  have "slot_fits kv_size kv ub si"
    using find_slot_fits [OF assms(1,2)] assms(3-) by (fastforce simp: ub_ready_def)
  then show ?thesis
    using apply_slot [OF assms(1-3)] by blast
qed

theorem apply_ubatch_effect_witness:
  "\<exists>si kv'. find_slot demo_kv demo_ub False = Some si \<and> apply_ubatch si demo_ub demo_kv = Some kv' \<and> placed 4 demo_kv demo_ub si kv'"
proof -
  let ?si = "the (find_slot demo_kv demo_ub False)"
  have "\<not> (case find_slot demo_kv demo_ub False of None \<Rightarrow> True | Some si \<Rightarrow> si_empty si)"
    by code_simp
  then have "find_slot demo_kv demo_ub False = Some ?si" "\<not> si_empty ?si"
    by (auto split: option.splits)
  from apply_ubatch_effect [OF demo_kv_ok(1,2) demo_ub_ready this] this(1) show ?thesis
    by blast
qed

text \<open>C26. Without a sliding window \<open>prepare\<close> returns for every list of well-formed ubatches and leaves the
  cells of all streams as they were. It gives either no slots, or one slot per ubatch, and then placing the
  ubatches one after the other in these slots succeeds.\<close>

theorem prepare_restores:
  assumes "kv_cache_inv kv_size kv" "kv_bounded kv" "kv_swa_type kv = SWA_NONE" "ubs \<noteq> []" "\<forall>ub \<in> set ubs. ub_ready kv ub"
  shows "\<exists>sis kv'. prepare ubs kv = Some (sis, kv') \<and> kv_cache_inv kv_size kv' \<and> kv_views kv' = kv_views kv \<and>
    (sis = [] \<or> length sis = length ubs \<and> (\<exists>kv''. run_slots sis ubs kv' = Some kv'' \<and> kv_cache_inv kv_size kv''))"
proof -
  obtain b sis sts kv1 kv2 where r: "prepare_loop ubs [] [] kv = Some (b, [] @ sis, sts @ [], kv1)"
    "b \<longrightarrow> length sis = length ubs" "ubs \<noteq> [] \<and> b \<longrightarrow> sts \<noteq> []" "slots_run kv_size kv sis ubs"
    "mfold restore_state sts kv1 = Some kv2" "kv_cache_inv kv_size kv2" "same_setup kv kv2" "kv_views kv2 = kv_views kv"
    using prepare_loop_ok [OF assms(1-3,5)] by blast
  have "prepare ubs kv = Some (if b then sis else [], kv2)"
    using r assms(4) by (simp add: prepare_def)
  moreover have "\<exists>kv''. run_slots sis ubs kv2 = Some kv'' \<and> kv_cache_inv kv_size kv''"
    using r(4,6-8) by (simp add: slots_run_def)
  ultimately show ?thesis
    using r(2,6,8) by auto
qed

theorem prepare_restores_witness:
  "\<exists>sis kv'. prepare [demo_ub] demo_kv = Some (sis, kv') \<and> kv_views kv' = kv_views demo_kv \<and> length sis = 1 \<and>
    (\<exists>kv''. run_slots sis [demo_ub] kv' = Some kv'' \<and> kv_cache_inv 4 kv'')"
proof -
  have swa: "kv_swa_type demo_kv = SWA_NONE"
    by code_simp
  then obtain sis kv' where r: "prepare [demo_ub] demo_kv = Some (sis, kv')" "kv_views kv' = kv_views demo_kv"
    "sis = [] \<or> length sis = 1 \<and> (\<exists>kv''. run_slots sis [demo_ub] kv' = Some kv'' \<and> kv_cache_inv 4 kv'')"
    using prepare_restores [OF demo_kv_ok(1,2), of "[demo_ub]"] demo_ub_ready by auto
  have "\<not> (case find_slot demo_kv demo_ub False of None \<Rightarrow> True | Some si \<Rightarrow> si_empty si)"
    by code_simp
  then have "sis \<noteq> []"
    using prepare_single [OF demo_kv_ok(1,2) swa demo_ub_ready] r(1) by auto
  then show ?thesis
    using r by auto
qed

definition demo_ub1 :: "unit llama_ubatch" where
  "demo_ub1 = demo_ub\<lparr>ub_n_tokens := 1, ub_n_seq_tokens := 1, ub_n_seqs := 1, ub_n_seqs_unq := 1, ub_token := Some [13],
     ub_pos := [0], ub_n_seq_id := [1], ub_seq_id := [[1]], ub_seq_id_unq := [1], ub_seq_idx := [-1, 0], ub_output := [1]\<rparr>"

text \<open>The heads are not restored the same way: \<open>prepare\<close> reads the saved head at the index of the row, not
  of the stream. Preparing a ubatch of sequence 1 alone, in stream 1, leaves the head of stream 1 at the old
  head of stream 0.\<close>

theorem prepare_head_of_row:
  "\<exists>sis kv'. prepare [demo_ub1] (demo_kv\<lparr>kv_heads := [1, 2]\<rparr>) = Some (sis, kv') \<and>
     map si_strm sis = [[1]] \<and> kv_heads kv' = [1, 1]"
proof -
  have "(case prepare [demo_ub1] (demo_kv\<lparr>kv_heads := [1, 2]\<rparr>) of None \<Rightarrow> False
     | Some (sis, kv') \<Rightarrow> map si_strm sis = [[1]] \<and> kv_heads kv' = [1, 1])"
    by code_simp
  then show ?thesis
    by (auto split: option.splits)
qed

end
