(* ===== verification/KV_Inputs.thy ===== *)
theory KV_Inputs
  imports KV_Apply
begin

text \<open>
  The inputs that the cache fills for a compute graph (\<open>src/src/llama-kv-cache.cpp\<close>): the rows of K and V to
  write, the pending shifts, and the attention mask. The mask of the first token of a sequence is computed over
  all cells; for later tokens of the sequence \<open>set_input_kq_mask_impl\<close> copies that row and recomputes a recorded
  part of it. That this gives the mask one would compute cell by cell is proved.

  A tensor is the list of its elements. A mask element is \<open>Masked\<close> for minus infinity, or \<open>Bias x\<close> for the
  float of the integer \<open>x\<close>.
\<close>

section \<open>Rows to write\<close>

text \<open>\<open>fill s ii\<close> is the value at row \<open>s\<close> and position \<open>ii\<close> of a slot; the loops store it at \<open>s * size + ii\<close>.\<close>

definition store_at :: "nat \<Rightarrow> 'a \<Rightarrow> 'a list \<Rightarrow> 'a list option" where
  "store_at k x data = do { require (k < length data); Some (data[k := x]) }"

definition slot_loop :: "slot_info \<Rightarrow> (nat \<Rightarrow> nat \<Rightarrow> 'a list \<Rightarrow> 'a list option) \<Rightarrow> 'a list \<Rightarrow> 'a list option" where
  "slot_loop si body data = do {
     n \<leftarrow> si_size si;
     mfold (\<lambda>s. mfold (body s) [0..<n]) [0..<si_n_stream si] data }"

definition set_input_k_idxs :: "kv_cache \<Rightarrow> 'e llama_ubatch \<Rightarrow> slot_info \<Rightarrow> int list \<Rightarrow> int list option" where
  "set_input_k_idxs kv ub si data = do {
     n \<leftarrow> si_size si;
     require (ub_n_tokens ub = n * si_n_stream si);
     slot_loop si (\<lambda>s i. store_at (s * n + i) (int (si_strm si ! s * get_size kv + si_idxs si ! s ! i))) data }"

definition set_input_v_idxs ::
  "kv_cache \<Rightarrow> nat \<Rightarrow> 'e llama_ubatch \<Rightarrow> slot_info \<Rightarrow> int list \<Rightarrow> int list option" where
  "set_input_v_idxs kv n_embd_v_gqa ub si data = do {
     n \<leftarrow> si_size si;
     require (ub_n_tokens ub = n * si_n_stream si);
     if \<not> kv_v_trans kv then
       (if pg_enabled (kv_pool kv)
        then slot_loop si (\<lambda>s i data. do { r \<leftarrow> v_row (kv_pool kv) (si_strm si ! s) (si_idxs si ! s ! i);
                                           store_at (s * n + i) r data }) data
        else slot_loop si (\<lambda>s i. store_at (s * n + i) (int (si_strm si ! s * get_size kv + si_idxs si ! s ! i))) data)
     else slot_loop si (\<lambda>s i. mfold (\<lambda>j. store_at (s * n * n_embd_v_gqa + i * n_embd_v_gqa + j)
              (int (si_strm si ! s * get_size kv * n_embd_v_gqa + j * get_size kv + si_idxs si ! s ! i)))
            [0..<n_embd_v_gqa]) data }"

definition set_input_k_shift :: "kv_cache \<Rightarrow> int list \<Rightarrow> int list option" where
  "set_input_k_shift kv data = mfold (\<lambda>s data. do {
     require (s < length (kv_cells kv));
     let c = kv_cells kv ! s;
     mfold (\<lambda>i data. do {
       e \<leftarrow> cells_is_empty i c;
       h \<leftarrow> (if e then Some 0 else cells_get_shift i c);
       store_at (s * cells_size c + i) h data }) [0..<cells_size c] data }) [0..<kv_n_stream kv] data"

section \<open>The attention mask\<close>

datatype mask_val = Masked | Bias int

record 'e kq_args =
  ka_use_alibi :: bool
  ka_ubatch :: "'e llama_ubatch"
  ka_cells :: "llama_kv_cells list"
  ka_seq_to_stream :: "nat list"
  ka_n_swa :: nat
  ka_swa_type :: swa_type
  ka_n_kv :: nat
  ka_n_stream :: nat
  ka_n_tps :: nat

text \<open>The first sequence of token \<open>i\<close>, the one its mask is made for.\<close>

definition first_seq :: "'e kq_args \<Rightarrow> nat \<Rightarrow> nat option" where
  "first_seq args i = do {
     let ub = ka_ubatch args;
     require (i < length (ub_seq_id ub) \<and> ub_seq_id ub ! i \<noteq> []);
     require (0 \<le> ub_seq_id ub ! i ! 0);
     Some (nat (ub_seq_id ub ! i ! 0)) }"

definition kq_pos_min_step :: "'e kq_args \<Rightarrow> nat \<Rightarrow> int list \<Rightarrow> int list option" where
  "kq_pos_min_step args i mins = do {
     let ub = ka_ubatch args;
     require (i < length (ub_n_seq_id ub) \<and> ub_n_seq_id ub ! i > 0);
     q \<leftarrow> first_seq args i;
     require (q < length (ka_seq_to_stream args) \<and> q < length mins);
     require (i < length (ub_pos ub));
     Some (mins[q := min (mins ! q) (ub_pos ub ! i)]) }"

definition kq_masked ::
  "'e kq_args \<Rightarrow> bool \<Rightarrow> bool \<Rightarrow> bool \<Rightarrow> llama_kv_cells \<Rightarrow> nat \<Rightarrow> int \<Rightarrow> int \<Rightarrow> int \<Rightarrow> int \<Rightarrow> bool option" where
  "kq_masked args causal swa is_2d c j p0 p1 p1_x p1_y = do {
     future \<leftarrow> (if causal then
                  (if p0 > p1 then Some True
                   else if is_2d \<and> p0 = p1 then do { e \<leftarrow> cells_ext_get j c; Some (is_2d_gt e p1_x p1_y) }
                   else Some False)
                else Some False);
     if future then Some True
     else if swa then is_masked_swa (ka_n_swa args) (ka_swa_type args) p0 p1
     else Some False }"

text \<open>One pass of the inner loop for cell \<open>j\<close>; \<open>idxs\<close> are the cells recorded for the sequence.\<close>

definition kq_cell ::
  "'e kq_args \<Rightarrow> bool \<Rightarrow> bool \<Rightarrow> bool \<Rightarrow> bool \<Rightarrow> bool \<Rightarrow> int \<Rightarrow> nat \<Rightarrow> nat \<Rightarrow> llama_kv_cells \<Rightarrow> nat \<Rightarrow>
     mask_val list \<times> nat list \<Rightarrow> (mask_val list \<times> nat list) option" where
  "kq_cell args causal swa is_2d alibi prev pos_min i q c j = (\<lambda>(data, idxs). do {
     let ub = ka_ubatch args;
     let k = ka_n_kv args * i + j;
     e \<leftarrow> cells_is_empty j c;
     if e then do { d \<leftarrow> store_at k Masked data; Some (d, idxs) }
     else do {
       h \<leftarrow> cells_seq_has j q c;
       if \<not> h then do { d \<leftarrow> store_at k Masked data; Some (d, idxs) }
       else do {
         p0 \<leftarrow> cells_pos_get j c;
         idxs' \<leftarrow> (if \<not> alibi \<and> \<not> prev then do {
                      w \<leftarrow> i32 (int (ka_n_swa args) + 32);
                      t \<leftarrow> i32 (p0 + w);
                      Some (if t \<ge> pos_min then idxs @ [j] else idxs) }
                    else Some idxs);
         let p1 = ub_pos ub ! i;
         let p1_x = (if is_2d then ub_pos ub ! (i + ub_n_tokens ub * 2) else 0);
         let p1_y = (if is_2d then ub_pos ub ! (i + ub_n_tokens ub) else 0);
         m \<leftarrow> kq_masked args causal swa is_2d c j p0 p1 p1_x p1_y;
         v \<leftarrow> (if m then Some Masked
                else if alibi then do { d \<leftarrow> i32 (p0 - p1); Some (Bias (- \<bar>d\<bar>)) }
                else Some (Bias 0));
         d \<leftarrow> store_at k v data;
         Some (d, idxs') } } })"

text \<open>\<open>std::copy\<close> of the row of token \<open>src\<close> to the row of token \<open>i\<close>.\<close>

definition copy_row :: "nat \<Rightarrow> nat \<Rightarrow> nat \<Rightarrow> 'a list \<Rightarrow> 'a list option" where
  "copy_row n src i data = mfold (\<lambda>j data. do {
     require (n * src + j < length data);
     store_at (n * i + j) (data ! (n * src + j)) data }) [0..<n] data"

text \<open>The tables \<open>seq_srct\<close> and \<open>seq_idxs\<close> of a stream and the mask under construction.\<close>

record mask_state =
  ms_data :: "mask_val list"
  ms_srct :: "nat \<rightharpoonup> nat"
  ms_idxs :: "nat \<Rightarrow> nat list"

definition kq_row ::
  "'e kq_args \<Rightarrow> bool \<Rightarrow> bool \<Rightarrow> bool \<Rightarrow> bool \<Rightarrow> int list \<Rightarrow> nat \<Rightarrow> mask_state \<Rightarrow> mask_state option" where
  "kq_row args causal swa is_2d alibi mins i st = do {
     let ub = ka_ubatch args;
     q \<leftarrow> first_seq args i;
     require (q < length (ka_seq_to_stream args) \<and> q < length mins);
     require (ka_seq_to_stream args ! q < length (ka_cells args));
     let c = ka_cells args ! (ka_seq_to_stream args ! q);
     require (i < length (ub_pos ub));
     require (is_2d \<longrightarrow> i + ub_n_tokens ub * 2 < length (ub_pos ub));
     case (if alibi then None else ms_srct st q) of
       Some srct \<Rightarrow> do {
         data \<leftarrow> copy_row (ka_n_kv args) srct i (ms_data st);
         (data', _) \<leftarrow> mfold (kq_cell args causal swa is_2d alibi True (mins ! q) i q c)
                         (take (ka_n_kv args) (ms_idxs st q)) (data, ms_idxs st q);
         Some (st\<lparr>ms_data := data'\<rparr>) }
     | None \<Rightarrow> do {
         (data', idxs) \<leftarrow> mfold (kq_cell args causal swa is_2d alibi False (mins ! q) i q c)
                           [0..<ka_n_kv args] (ms_data st, []);
         Some (if alibi then st\<lparr>ms_data := data'\<rparr>
               else st\<lparr>ms_data := data', ms_srct := (ms_srct st)(q \<mapsto> i), ms_idxs := (ms_idxs st)(q := idxs)\<rparr>) } }"

definition kq_stream ::
  "'e kq_args \<Rightarrow> bool \<Rightarrow> bool \<Rightarrow> bool \<Rightarrow> bool \<Rightarrow> int list \<Rightarrow> nat \<Rightarrow> mask_val list \<Rightarrow> mask_val list option" where
  "kq_stream args causal swa is_2d alibi mins s data = do {
     st \<leftarrow> mfold (\<lambda>ii. kq_row args causal swa is_2d alibi mins (s * ka_n_tps args + ii)) [0..<ka_n_tps args]
            \<lparr>ms_data = data, ms_srct = (\<lambda>_. None), ms_idxs = (\<lambda>_. [])\<rparr>;
     Some (ms_data st) }"

definition set_input_kq_mask_impl ::
  "'e kq_args \<Rightarrow> bool \<Rightarrow> bool \<Rightarrow> bool \<Rightarrow> bool \<Rightarrow> mask_val list \<Rightarrow> mask_val list option" where
  "set_input_kq_mask_impl args causal swa is_2d alibi data = do {
     mins \<leftarrow> mfold (kq_pos_min_step args) [0..<ub_n_tokens (ka_ubatch args)] (replicate LLAMA_MAX_SEQ INT32_MAX);
     mfold (kq_stream args causal swa is_2d alibi mins) [0..<ka_n_stream args] data }"

text \<open>The dispatch through the template instances, and the member function. \<open>n_kv\<close> and \<open>n_stream\<close> are the
  dimensions of the tensor.\<close>

definition kq_dispatch :: "'e kq_args \<Rightarrow> bool \<Rightarrow> mask_val list \<Rightarrow> mask_val list option" where
  "kq_dispatch args causal =
     set_input_kq_mask_impl args causal (ka_swa_type args \<noteq> SWA_NONE) (is_pos_2d (ka_ubatch args)) (ka_use_alibi args)"

definition kq_args_of :: "kv_cache \<Rightarrow> bool \<Rightarrow> nat \<Rightarrow> nat \<Rightarrow> 'e llama_ubatch \<Rightarrow> 'e kq_args" where
  "kq_args_of kv alibi n_kv n_stream ub = \<lparr>ka_use_alibi = alibi, ka_ubatch = ub, ka_cells = kv_cells kv,
     ka_seq_to_stream = kv_seq_to_stream kv, ka_n_swa = kv_n_swa kv, ka_swa_type = kv_swa_type kv, ka_n_kv = n_kv,
     ka_n_stream = n_stream, ka_n_tps = ub_n_tokens ub div n_stream\<rparr>"

definition set_input_kq_mask ::
  "kv_cache \<Rightarrow> bool \<Rightarrow> nat \<Rightarrow> nat \<Rightarrow> 'e llama_ubatch \<Rightarrow> bool \<Rightarrow> mask_val list \<Rightarrow> mask_val list option" where
  "set_input_kq_mask kv alibi n_kv n_stream ub causal_attn data = do {
     require (n_stream > 0 \<and> ub_n_tokens ub mod n_stream = 0);
     kq_dispatch (kq_args_of kv alibi n_kv n_stream ub) causal_attn data }"

section \<open>The mask, cell by cell\<close>

definition tok_seq :: "'e kq_args \<Rightarrow> nat \<Rightarrow> nat" where
  "tok_seq args i = nat (ub_seq_id (ka_ubatch args) ! i ! 0)"

definition tok_cells :: "'e kq_args \<Rightarrow> nat \<Rightarrow> llama_kv_cells" where
  "tok_cells args i = ka_cells args ! (ka_seq_to_stream args ! tok_seq args i)"

text \<open>A token does not see a cell that lies in its future or outside its attention window.\<close>

definition hidden :: "'e kq_args \<Rightarrow> bool \<Rightarrow> nat \<Rightarrow> nat \<Rightarrow> int \<Rightarrow> bool" where
  "hidden args causal i j p0 \<longleftrightarrow> (let ub = ka_ubatch args; p1 = ub_pos ub ! i; n = ub_n_tokens ub in
     causal \<and> (p0 > p1 \<or> is_pos_2d ub \<and> p0 = p1 \<and>
        is_2d_gt (kc_ext (tok_cells args i) ! j) (ub_pos ub ! (i + n * 2)) (ub_pos ub ! (i + n))) \<or>
     swa_masked (ka_n_swa args) (ka_swa_type args) p0 p1)"

definition mask_ref :: "'e kq_args \<Rightarrow> bool \<Rightarrow> nat \<Rightarrow> nat \<Rightarrow> mask_val" where
  "mask_ref args causal i j = (case cell_view (tok_cells args i) j of
       None \<Rightarrow> Masked
     | Some x \<Rightarrow> if tok_seq args i \<in> cell_seqs x \<and> \<not> hidden args causal i j (cell_pos x)
         then Bias (if ka_use_alibi args then - \<bar>cell_pos x - ub_pos (ka_ubatch args) ! i\<bar> else 0) else Masked)"

definition tok_mask_ok :: "'e kq_args \<Rightarrow> nat \<Rightarrow> bool" where
  "tok_mask_ok args i \<longleftrightarrow> (let ub = ka_ubatch args in
     i < length (ub_n_seq_id ub) \<and> 0 < ub_n_seq_id ub ! i \<and> i < length (ub_seq_id ub) \<and> ub_seq_id ub ! i \<noteq> [] \<and>
     0 \<le> ub_seq_id ub ! i ! 0 \<and> ub_seq_id ub ! i ! 0 < int (length (ka_seq_to_stream args)) \<and>
     i < length (ub_pos ub) \<and> 0 \<le> ub_pos ub ! i \<and> ub_pos ub ! i \<le> INT32_MAX \<and>
     (is_pos_2d ub \<longrightarrow> i + ub_n_tokens ub * 2 < length (ub_pos ub)))"

definition mask_ok :: "'e kq_args \<Rightarrow> bool" where
  "mask_ok args \<longleftrightarrow>
     (\<forall>c \<in> set (ka_cells args). kv_cells_inv c \<and> ka_n_kv args \<le> cells_size c \<and>
        (\<forall>i < cells_size c. opt_all (\<lambda>x. cell_pos x + int (ka_n_swa args) + 32 \<le> INT32_MAX) (cell_view c i))) \<and>
     int (ka_n_swa args) + 32 \<le> INT32_MAX \<and>
     length (ka_seq_to_stream args) = LLAMA_MAX_SEQ \<and> (\<forall>t \<in> set (ka_seq_to_stream args). t < length (ka_cells args)) \<and>
     (ka_swa_type args = SWA_CHUNKED \<longrightarrow> 0 < ka_n_swa args) \<and>
     ub_n_tokens (ka_ubatch args) = ka_n_stream args * ka_n_tps args \<and>
     (\<forall>i < ub_n_tokens (ka_ubatch args). tok_mask_ok args i)"

lemma mask_tok:
  assumes "mask_ok args" "i < ub_n_tokens (ka_ubatch args)"
  shows "first_seq args i = Some (tok_seq args i)" "tok_seq args i < LLAMA_MAX_SEQ"
    "tok_seq args i < length (ka_seq_to_stream args)" "ka_seq_to_stream args ! tok_seq args i < length (ka_cells args)"
    "i < length (ub_pos (ka_ubatch args))" "0 \<le> ub_pos (ka_ubatch args) ! i" "ub_pos (ka_ubatch args) ! i \<le> INT32_MAX"
    "is_pos_2d (ka_ubatch args) \<Longrightarrow> i + ub_n_tokens (ka_ubatch args) * 2 < length (ub_pos (ka_ubatch args))"
    "i < length (ub_n_seq_id (ka_ubatch args))" "0 < ub_n_seq_id (ka_ubatch args) ! i"
proof -
  have t: "tok_mask_ok args i" "length (ka_seq_to_stream args) = LLAMA_MAX_SEQ"
    "\<forall>t \<in> set (ka_seq_to_stream args). t < length (ka_cells args)"
    using assms unfolding mask_ok_def by blast+
  show q: "first_seq args i = Some (tok_seq args i)" "tok_seq args i < LLAMA_MAX_SEQ"
    "tok_seq args i < length (ka_seq_to_stream args)"
    "i < length (ub_pos (ka_ubatch args))" "0 \<le> ub_pos (ka_ubatch args) ! i" "ub_pos (ka_ubatch args) ! i \<le> INT32_MAX"
    "is_pos_2d (ka_ubatch args) \<Longrightarrow> i + ub_n_tokens (ka_ubatch args) * 2 < length (ub_pos (ka_ubatch args))"
    "i < length (ub_n_seq_id (ka_ubatch args))" "0 < ub_n_seq_id (ka_ubatch args) ! i"
    using t(1,2) by (auto simp: tok_mask_ok_def Let_def first_seq_def tok_seq_def)
  show "ka_seq_to_stream args ! tok_seq args i < length (ka_cells args)"
    using t(3) q(3) by simp
qed

lemma mask_cells:
  assumes "mask_ok args" "i < ub_n_tokens (ka_ubatch args)"
  shows "kv_cells_inv (tok_cells args i)" "ka_n_kv args \<le> cells_size (tok_cells args i)"
    "\<And>j x. j < ka_n_kv args \<Longrightarrow> cell_view (tok_cells args i) j = Some x \<Longrightarrow>
       0 \<le> cell_pos x \<and> cell_pos x + int (ka_n_swa args) + 32 \<le> INT32_MAX"
proof -
  have mem: "tok_cells args i \<in> set (ka_cells args)"
    using mask_tok(4) [OF assms] by (simp add: tok_cells_def)
  then show c: "kv_cells_inv (tok_cells args i)" "ka_n_kv args \<le> cells_size (tok_cells args i)"
    using assms(1) by (simp_all add: mask_ok_def)
  fix j x assume j: "j < ka_n_kv args" and x: "cell_view (tok_cells args i) j = Some x"
  then have "j < cells_size (tok_cells args i)"
    using c(2) by simp
  moreover have "0 \<le> cell_pos x"
    using cells_wf_cell(1) [OF cells_inv_wf [OF c(1)] calculation] x by (auto simp: cell_view_def split: if_splits)
  moreover have "\<forall>i' < cells_size (tok_cells args i).
      opt_all (\<lambda>x. cell_pos x + int (ka_n_swa args) + 32 \<le> INT32_MAX) (cell_view (tok_cells args i) i')"
    using assms(1) mem unfolding mask_ok_def by blast
  ultimately show "0 \<le> cell_pos x \<and> cell_pos x + int (ka_n_swa args) + 32 \<le> INT32_MAX"
    using x by fastforce
qed

text \<open>The cells that are recomputed for the later tokens of a sequence.\<close>

definition recorded :: "'e kq_args \<Rightarrow> int \<Rightarrow> nat \<Rightarrow> nat \<Rightarrow> bool" where
  "recorded args pos_min i j \<longleftrightarrow> (case cell_view (tok_cells args i) j of None \<Rightarrow> False
     | Some x \<Rightarrow> tok_seq args i \<in> cell_seqs x \<and> pos_min \<le> cell_pos x + int (ka_n_swa args) + 32)"

lemma kq_masked_eq:
  assumes ok: "mask_ok args" and i: "i < ub_n_tokens (ka_ubatch args)" and j: "j < ka_n_kv args"
    and x: "cell_view (tok_cells args i) j = Some x"
  defines "ub \<equiv> ka_ubatch args"
  shows "kq_masked args causal (ka_swa_type args \<noteq> SWA_NONE) (is_pos_2d ub) (tok_cells args i) j (cell_pos x) (ub_pos ub ! i)
      (if is_pos_2d ub then ub_pos ub ! (i + ub_n_tokens ub * 2) else 0)
      (if is_pos_2d ub then ub_pos ub ! (i + ub_n_tokens ub) else 0) = Some (hidden args causal i j (cell_pos x))"
proof -
  have size: "j < cells_size (tok_cells args i)"
    using j mask_cells(2) [OF ok i] by simp
  have swa: "is_masked_swa (ka_n_swa args) (ka_swa_type args) (cell_pos x) (ub_pos ub ! i) =
      Some (swa_masked (ka_n_swa args) (ka_swa_type args) (cell_pos x) (ub_pos ub ! i))"
    by (rule is_masked_swa_eq) (use mask_cells(3) [OF ok i j x] mask_tok(6) [OF ok i] ok in \<open>auto simp: mask_ok_def ub_def\<close>)
  have none: "ka_swa_type args = SWA_NONE \<Longrightarrow> \<not> swa_masked (ka_n_swa args) (ka_swa_type args) p0 p1" for p0 p1
    by (simp add: swa_masked_def)
  show ?thesis
    unfolding kq_masked_def hidden_def Let_def ub_def [symmetric]
    using swa none cells_ext_get_view [OF size x] by (auto simp: ub_def)
qed

lemma kq_cell_eq:
  assumes ok: "mask_ok args" and i: "i < ub_n_tokens (ka_ubatch args)" and j: "j < ka_n_kv args"
    and len: "ka_n_kv args * i + j < length data"
  shows "kq_cell args causal (ka_swa_type args \<noteq> SWA_NONE) (is_pos_2d (ka_ubatch args)) (ka_use_alibi args) prev pos_min i
      (tok_seq args i) (tok_cells args i) j (data, idxs) =
    Some (data[ka_n_kv args * i + j := mask_ref args causal i j],
      if \<not> ka_use_alibi args \<and> \<not> prev \<and> recorded args pos_min i j then idxs @ [j] else idxs)"
proof -
  note c = mask_cells [OF ok i] and t = mask_tok [OF ok i]
  have size: "j < cells_size (tok_cells args i)"
    using j c(2) by simp
  note q = cells_is_empty_view [OF c(1) size] cells_seq_has_view [OF c(1) size t(2)]
  show ?thesis
  proof (cases "cell_view (tok_cells args i) j")
    case None
    then show ?thesis
      using q len by (simp add: kq_cell_def Let_def store_at_def mask_ref_def recorded_def)
  next
    case (Some x)
    note pos = c(3) [OF j Some]
    have i32: "i32 (int (ka_n_swa args) + 32) = Some (int (ka_n_swa args) + 32)"
      "i32 (cell_pos x + (int (ka_n_swa args) + 32)) = Some (cell_pos x + (int (ka_n_swa args) + 32))"
      "i32 (cell_pos x - ub_pos (ka_ubatch args) ! i) = Some (cell_pos x - ub_pos (ka_ubatch args) ! i)"
      using pos t(6,7) by (auto simp: i32_def in_i32_def INT32_MIN_def INT32_MAX_def)
    show ?thesis
      using q len Some i32 kq_masked_eq [OF ok i j Some, of causal] cells_pos_get_view [OF size Some]
      unfolding kq_cell_def Let_def
      by (auto simp: store_at_def mask_ref_def recorded_def add.assoc)
  qed
qed

section \<open>Rows\<close>

lemma row_index_eq:
  fixes n i i' j j' :: nat
  assumes "j < n" "j' < n"
  shows "n * i + j = n * i' + j' \<longleftrightarrow> i = i' \<and> j = j'"
proof
  assume eq: "n * i + j = n * i' + j'"
  have "(n * i + j) div n = i" "(n * i' + j') div n = i'" "(n * i + j) mod n = j" "(n * i' + j') mod n = j'"
    using assms by simp_all
  then show "i = i' \<and> j = j'"
    unfolding eq by simp
qed simp

definition put_row :: "nat \<Rightarrow> nat \<Rightarrow> (nat \<Rightarrow> 'a) \<Rightarrow> nat list \<Rightarrow> 'a list \<Rightarrow> 'a list" where
  "put_row n i f js = fold (\<lambda>j d. d[n * i + j := f j]) js"

lemma put_row_simps [simp]:
  "put_row n i f [] data = data" "put_row n i f (j # js) data = put_row n i f js (data[n * i + j := f j])"
  "put_row n i f (js @ [j]) data = (put_row n i f js data)[n * i + j := f j]"
  by (simp_all add: put_row_def)

lemma length_put_row [simp]: "length (put_row n i f js data) = length data"
  by (induction js arbitrary: data) auto

lemma put_row_nth:
  assumes "j' < n" "n * i' + j' < length data" "\<And>j. j \<in> set js \<Longrightarrow> j < n"
  shows "put_row n i f js data ! (n * i' + j') = (if i' = i \<and> j' \<in> set js then f j' else data ! (n * i' + j'))"
  using assms(2,3)
proof (induction js arbitrary: data)
  case (Cons j js)
  then show ?case
    using row_index_eq [of j n j' i i'] assms(1) by (auto simp: nth_list_update)
qed simp

lemma row_in_range:
  fixes n i j m :: nat
  assumes "i < m" "j < n" "n * m \<le> len"
  shows "n * i + j < len"
proof -
  have "n * i + j < n * Suc i"
    using assms(2) by simp
  also have "\<dots> \<le> n * m"
    using assms(1) by (intro mult_le_mono2) simp
  finally show ?thesis
    using assms(3) by simp
qed

lemma kq_cells_eq:
  assumes ok: "mask_ok args" and i: "i < ub_n_tokens (ka_ubatch args)" and js: "\<And>j. j \<in> set js \<Longrightarrow> j < ka_n_kv args"
    and len: "ka_n_kv args * ub_n_tokens (ka_ubatch args) \<le> length data"
  shows "mfold (kq_cell args causal (ka_swa_type args \<noteq> SWA_NONE) (is_pos_2d (ka_ubatch args)) (ka_use_alibi args) prev pos_min i
      (tok_seq args i) (tok_cells args i)) js (data, idxs) =
    Some (put_row (ka_n_kv args) i (mask_ref args causal i) js data,
      if \<not> ka_use_alibi args \<and> \<not> prev then idxs @ filter (recorded args pos_min i) js else idxs)"
  using js len
proof (induction js arbitrary: data idxs)
  case (Cons j js)
  have "ka_n_kv args * i + j < length data"
    using row_in_range [OF i] Cons.prems by simp
  then show ?case
    using Cons kq_cell_eq [OF ok i, of j data causal prev pos_min idxs] by simp
qed simp

lemma copy_row_eq:
  assumes "src \<noteq> i" "n * src + n \<le> length data" "n * i + n \<le> length data"
  shows "copy_row n src i data = Some (put_row n i (\<lambda>j. data ! (n * src + j)) [0..<n] data)"
proof -
  let ?f = "\<lambda>j. data ! (n * src + j)"
  let ?I = "\<lambda>done d. d = put_row n i ?f done data"
  have "\<exists>d. mfold (\<lambda>j data. do {
     require (n * src + j < length data);
     store_at (n * i + j) (data ! (n * src + j)) data }) [0..<n] data = Some d \<and> ?I [0..<n] d"
  proof (rule mfold_invariant)
    show "?I [] data" by simp
    fix "done" k rest d
    assume split: "[0..<n] = done @ k # rest" and I: "?I done d"
    note k = upt_splitD [OF split]
    have "d ! (n * src + k) = ?f k"
      unfolding I using assms k by (subst put_row_nth) auto
    then show "\<exists>d'. do { require (n * src + k < length d); store_at (n * i + k) (d ! (n * src + k)) d } = Some d' \<and> ?I (done @ [k]) d'"
      using I assms k by (simp add: store_at_def)
  qed
  then show ?thesis
    by (simp add: copy_row_def)
qed

section \<open>The copied row is right\<close>

text \<open>A cell that is not recorded looks the same to all tokens of the sequence: it is not in their future, and
  if there is a window, it lies outside of it for all of them.\<close>

lemma far_swa_masked:
  assumes "0 \<le> p0" "p0 + int n_swa + 32 < p1" "swa \<noteq> SWA_NONE" "swa = SWA_CHUNKED \<longrightarrow> 0 < n_swa"
  shows "swa_masked n_swa swa p0 p1"
proof (cases swa)
  case SWA_CHUNKED
  have "p1 - int n_swa < p1 div int n_swa * int n_swa" if "n_swa \<noteq> 0"
    using that pos_mod_bound [of "int n_swa" p1] minus_mod_eq_div_mult [of p1 "int n_swa", symmetric] by linarith
  then show ?thesis
    using assms SWA_CHUNKED by (cases "n_swa = 0") (auto simp: swa_masked_def)
qed (use assms in \<open>auto simp: swa_masked_def\<close>)

lemma mask_ref_same:
  assumes ok: "mask_ok args" and i: "i < ub_n_tokens (ka_ubatch args)" "i' < ub_n_tokens (ka_ubatch args)"
    and seq: "tok_seq args i = tok_seq args i'" and j: "j < ka_n_kv args" "\<not> recorded args pos_min i j"
    and min: "pos_min \<le> ub_pos (ka_ubatch args) ! i" "pos_min \<le> ub_pos (ka_ubatch args) ! i'" and alibi: "\<not> ka_use_alibi args"
  shows "mask_ref args causal i j = mask_ref args causal i' j"
proof (cases "cell_view (tok_cells args i) j")
  case None
  then show ?thesis
    using seq by (simp add: mask_ref_def tok_cells_def)
next
  case (Some x)
  have same: "tok_cells args i' = tok_cells args i"
    using seq by (simp add: tok_cells_def)
  show ?thesis
  proof (cases "tok_seq args i \<in> cell_seqs x")
    case False
    then show ?thesis
      using Some seq same by (simp add: mask_ref_def)
  next
    case True
    then have far: "cell_pos x + int (ka_n_swa args) + 32 < pos_min"
      using j(2) Some by (simp add: recorded_def)
    have "hidden args causal k j (cell_pos x) \<longleftrightarrow> ka_swa_type args \<noteq> SWA_NONE"
      if "pos_min \<le> ub_pos (ka_ubatch args) ! k" for k
    proof -
      have p: "cell_pos x + int (ka_n_swa args) + 32 < ub_pos (ka_ubatch args) ! k" "0 \<le> cell_pos x"
        using far that mask_cells(3) [OF ok i(1) j(1) Some] by auto
      then show ?thesis
        using far_swa_masked [OF p(2,1), of "ka_swa_type args"] ok unfolding mask_ok_def
        by (auto simp: hidden_def Let_def swa_masked_def)
    qed
    then show ?thesis
      using Some seq same alibi min by (simp add: mask_ref_def)
  qed
qed

definition row_right :: "'e kq_args \<Rightarrow> bool \<Rightarrow> mask_val list \<Rightarrow> nat \<Rightarrow> bool" where
  "row_right args causal data i \<longleftrightarrow> (\<forall>j < ka_n_kv args. data ! (ka_n_kv args * i + j) = mask_ref args causal i j)"

definition mins_below :: "'e kq_args \<Rightarrow> int list \<Rightarrow> bool" where
  "mins_below args mins \<longleftrightarrow> length mins = LLAMA_MAX_SEQ \<and>
     (\<forall>i < ub_n_tokens (ka_ubatch args). mins ! tok_seq args i \<le> ub_pos (ka_ubatch args) ! i)"

text \<open>The invariant of the loop over the tokens of a stream: the rows done are right, and a sequence with an
  entry has a row done and its recorded cells.\<close>

definition mask_inv :: "'e kq_args \<Rightarrow> bool \<Rightarrow> int list \<Rightarrow> nat set \<Rightarrow> nat \<Rightarrow> mask_state \<Rightarrow> bool" where
  "mask_inv args causal mins R len st \<longleftrightarrow> length (ms_data st) = len \<and>
     (\<forall>i \<in> R. row_right args causal (ms_data st) i) \<and>
     (\<forall>q src. ms_srct st q = Some src \<longrightarrow> src \<in> R \<and> tok_seq args src = q \<and>
        ms_idxs st q = filter (recorded args (mins ! q) src) [0..<ka_n_kv args])"

lemma put_row_keeps:
  assumes "row_right args causal data i'" "i' \<noteq> i" "\<And>j. j \<in> set js \<Longrightarrow> j < ka_n_kv args"
    and "ka_n_kv args * i' + ka_n_kv args \<le> length data"
  shows "row_right args causal (put_row (ka_n_kv args) i f js data) i'"
  using assms by (auto simp: row_right_def put_row_nth)

lemma kq_row_ok:
  assumes ok: "mask_ok args" and mins: "mins_below args mins" and i: "i < ub_n_tokens (ka_ubatch args)" "i \<notin> R"
    and R: "\<And>i. i \<in> R \<Longrightarrow> i < ub_n_tokens (ka_ubatch args)"
    and len: "ka_n_kv args * ub_n_tokens (ka_ubatch args) \<le> len" and I: "mask_inv args causal mins R len st"
  shows "\<exists>st'. kq_row args causal (ka_swa_type args \<noteq> SWA_NONE) (is_pos_2d (ka_ubatch args)) (ka_use_alibi args) mins i st = Some st' \<and>
    mask_inv args causal mins (insert i R) len st'"
proof -
  let ?n = "ka_n_kv args" and ?q = "tok_seq args i" and ?c = "tok_cells args i" and ?al = "ka_use_alibi args"
  note t = mask_tok [OF ok i(1)]
  have dlen: "length (ms_data st) = len"
    using I by (simp add: mask_inv_def)
  have room: "?n * i' + ?n \<le> len" if "i' < ub_n_tokens (ka_ubatch args)" for i'
  proof -
    have "?n * i' + ?n = ?n * Suc i'"
      by simp
    also have "\<dots> \<le> ?n * ub_n_tokens (ka_ubatch args)"
      using that by (intro mult_le_mono2) simp
    finally show ?thesis
      using len by simp
  qed
  have keep: "row_right args causal (put_row ?n i f js (ms_data st)) i'" if "i' \<in> R" "\<And>j. j \<in> set js \<Longrightarrow> j < ?n" for i' f js
    by (rule put_row_keeps) (use I i(2) that room R dlen in \<open>auto simp: mask_inv_def\<close>)
  have unfold: "kq_row args causal (ka_swa_type args \<noteq> SWA_NONE) (is_pos_2d (ka_ubatch args)) ?al mins i st =
     (case (if ?al then None else ms_srct st ?q) of
       Some srct \<Rightarrow> do {
         data \<leftarrow> copy_row ?n srct i (ms_data st);
         (data', _) \<leftarrow> mfold (kq_cell args causal (ka_swa_type args \<noteq> SWA_NONE) (is_pos_2d (ka_ubatch args)) ?al True (mins ! ?q) i ?q ?c)
                         (take ?n (ms_idxs st ?q)) (data, ms_idxs st ?q);
         Some (st\<lparr>ms_data := data'\<rparr>) }
     | None \<Rightarrow> do {
         (data', idxs) \<leftarrow> mfold (kq_cell args causal (ka_swa_type args \<noteq> SWA_NONE) (is_pos_2d (ka_ubatch args)) ?al False (mins ! ?q) i ?q ?c)
                           [0..<?n] (ms_data st, []);
         Some (if ?al then st\<lparr>ms_data := data'\<rparr>
               else st\<lparr>ms_data := data', ms_srct := (ms_srct st)(?q \<mapsto> i), ms_idxs := (ms_idxs st)(?q := idxs)\<rparr>) })"
    using t mins unfolding kq_row_def Let_def tok_cells_def by (simp add: mins_below_def)
  show ?thesis
  proof (cases "if ?al then None else ms_srct st ?q")
    case None
    let ?d = "put_row ?n i (mask_ref args causal i) [0..<?n] (ms_data st)"
    have "row_right args causal ?d i"
      unfolding row_right_def using room [OF i(1)] dlen by (intro allI impI, subst put_row_nth) auto
    moreover have "row_right args causal ?d i'" if "i' \<in> R" for i'
      by (rule keep) (use that in auto)
    ultimately show ?thesis
      unfolding unfold None using kq_cells_eq [OF ok i(1), of "[0..<?n]" "ms_data st" causal False "mins ! ?q" "[]"] len dlen I None
      by (auto simp: mask_inv_def)
  next
    case (Some src)
    have al: "\<not> ?al" and src: "src \<in> R" "tok_seq args src = ?q" "row_right args causal (ms_data st) src"
      "ms_idxs st ?q = filter (recorded args (mins ! ?q) src) [0..<?n]"
      using Some I by (auto simp: mask_inv_def split: if_splits)
    have lt: "src < ub_n_tokens (ka_ubatch args)" "src \<noteq> i"
      using R src(1) i(2) by auto
    let ?idxs = "filter (recorded args (mins ! ?q) src) [0..<?n]"
    let ?d1 = "put_row ?n i (\<lambda>j. ms_data st ! (?n * src + j)) [0..<?n] (ms_data st)"
    let ?d2 = "put_row ?n i (mask_ref args causal i) ?idxs ?d1"
    have take: "take ?n ?idxs = ?idxs"
      using length_filter_le [of "recorded args (mins ! ?q) src" "[0..<?n]"] by simp
    have copy: "copy_row ?n src i (ms_data st) = Some ?d1"
      by (rule copy_row_eq) (use lt room i(1) dlen in auto)
    have m: "mins ! ?q \<le> ub_pos (ka_ubatch args) ! src" "mins ! ?q \<le> ub_pos (ka_ubatch args) ! i"
      using mins i(1) lt(1) src(2) by (auto simp: mins_below_def)
    have "?d2 ! (?n * i + j) = mask_ref args causal i j" if j: "j < ?n" for j
    proof (cases "recorded args (mins ! ?q) src j")
      case True
      then show ?thesis
        using j room [OF i(1)] dlen by (subst put_row_nth) auto
    next
      case False
      have "?d2 ! (?n * i + j) = mask_ref args causal src j"
        using False j room [OF i(1)] dlen src(3)
        by (subst put_row_nth; (subst put_row_nth)?) (auto simp: row_right_def)
      then show ?thesis
        using mask_ref_same [OF ok lt(1) i(1) src(2) j False m al] by simp
    qed
    then have "row_right args causal ?d2 i"
      by (simp add: row_right_def)
    moreover have "row_right args causal ?d2 i'" if "i' \<in> R" for i'
      by (rule put_row_keeps [OF keep]) (use that i(2) room R dlen in auto)
    moreover have "mfold (kq_cell args causal (ka_swa_type args \<noteq> SWA_NONE) (is_pos_2d (ka_ubatch args)) ?al True (mins ! ?q) i ?q ?c)
        ?idxs (?d1, ?idxs) = Some (?d2, ?idxs)"
      using kq_cells_eq [OF ok i(1), of ?idxs ?d1 causal True "mins ! ?q" ?idxs] len dlen by simp
    ultimately show ?thesis
      unfolding unfold Some src(4) take using I copy dlen by (simp add: mask_inv_def)
  qed
qed

section \<open>The whole mask\<close>

lemma kq_mins_ok:
  assumes ok: "mask_ok args"
  obtains mins where "mfold (kq_pos_min_step args) [0..<ub_n_tokens (ka_ubatch args)] (replicate LLAMA_MAX_SEQ INT32_MAX) = Some mins"
    "mins_below args mins"
proof -
  let ?n = "ub_n_tokens (ka_ubatch args)" and ?pos = "ub_pos (ka_ubatch args)"
  let ?I = "\<lambda>done mins. length mins = LLAMA_MAX_SEQ \<and> (\<forall>i \<in> set done. mins ! tok_seq args i \<le> ?pos ! i)"
  have "\<exists>mins. mfold (kq_pos_min_step args) [0..<?n] (replicate LLAMA_MAX_SEQ INT32_MAX) = Some mins \<and> ?I [0..<?n] mins"
  proof (rule mfold_invariant)
    show "?I [] (replicate LLAMA_MAX_SEQ INT32_MAX)" by simp
    fix "done" k rest mins
    assume split: "[0..<?n] = done @ k # rest" and I: "?I done mins"
    note k = upt_splitD [OF split]
    note t = mask_tok [OF ok k(2)]
    have "kq_pos_min_step args k mins = Some (mins[tok_seq args k := min (mins ! tok_seq args k) (?pos ! k)])"
      using t I by (simp add: kq_pos_min_step_def Let_def)
    moreover have "mins[tok_seq args k := min (mins ! tok_seq args k) (?pos ! k)] ! tok_seq args i \<le> ?pos ! i"
      if "i \<in> set done \<or> i = k" for i
      using that I t(2) by (auto simp: nth_list_update min_le_iff_disj)
    ultimately show "\<exists>mins'. kq_pos_min_step args k mins = Some mins' \<and> ?I (done @ [k]) mins'"
      using I by auto
  qed
  then show thesis
    using that by (auto simp: mins_below_def)
qed

lemma kq_stream_ok:
  assumes ok: "mask_ok args" and mins: "mins_below args mins" and s: "s < ka_n_stream args"
    and len: "ka_n_kv args * ub_n_tokens (ka_ubatch args) \<le> length data"
    and rows: "\<And>i. i < s * ka_n_tps args \<Longrightarrow> row_right args causal data i"
  shows "\<exists>data'. kq_stream args causal (ka_swa_type args \<noteq> SWA_NONE) (is_pos_2d (ka_ubatch args)) (ka_use_alibi args) mins s data =
      Some data' \<and> length data' = length data \<and> (\<forall>i < Suc s * ka_n_tps args. row_right args causal data' i)"
proof -
  let ?m = "ka_n_tps args"
  let ?step = "\<lambda>ii. kq_row args causal (ka_swa_type args \<noteq> SWA_NONE) (is_pos_2d (ka_ubatch args)) (ka_use_alibi args) mins (s * ?m + ii)"
  let ?st = "\<lparr>ms_data = data, ms_srct = (\<lambda>_. None), ms_idxs = (\<lambda>_. [])\<rparr>"
  let ?I = "\<lambda>done st. mask_inv args causal mins {..<s * ?m + length done} (length data) st"
  have range: "i < ub_n_tokens (ka_ubatch args)" if "i < s * ?m + ?m" for i
  proof -
    have "s * ?m + ?m \<le> ka_n_stream args * ?m"
      using s mult_le_mono1 [of "Suc s" "ka_n_stream args" ?m] by simp
    then show ?thesis
      using that ok by (simp add: mask_ok_def)
  qed
  have "\<exists>st. mfold ?step [0..<?m] ?st = Some st \<and> ?I [0..<?m] st"
  proof (rule mfold_invariant)
    show "?I [] ?st"
      using rows by (simp add: mask_inv_def)
    fix "done" k rest st
    assume split: "[0..<?m] = done @ k # rest" and I: "?I done st"
    note k = upt_splitD [OF split]
    have "\<exists>st'. ?step k st = Some st' \<and> mask_inv args causal mins (insert (s * ?m + k) {..<s * ?m + k}) (length data) st'"
      by (rule kq_row_ok [OF ok mins]) (use range k I len in auto)
    moreover have "insert (s * ?m + k) {..<s * ?m + k} = {..<s * ?m + length (done @ [k])}"
      using k by auto
    ultimately show "\<exists>st'. ?step k st = Some st' \<and> ?I (done @ [k]) st'"
      by simp
  qed
  then obtain st where "mfold ?step [0..<?m] ?st = Some st" "?I [0..<?m] st"
    by blast
  then show ?thesis
    by (intro exI [of _ "ms_data st"]) (auto simp: kq_stream_def mask_inv_def)
qed

lemma kq_mask_ok:
  assumes ok: "mask_ok args" and len: "ka_n_kv args * ub_n_tokens (ka_ubatch args) \<le> length data"
  shows "\<exists>data'. kq_dispatch args causal data = Some data' \<and> length data' = length data \<and>
    (\<forall>i < ub_n_tokens (ka_ubatch args). row_right args causal data' i)"
proof -
  obtain mins where mins: "mfold (kq_pos_min_step args) [0..<ub_n_tokens (ka_ubatch args)] (replicate LLAMA_MAX_SEQ INT32_MAX) = Some mins"
    "mins_below args mins"
    using kq_mins_ok [OF ok] .
  let ?step = "kq_stream args causal (ka_swa_type args \<noteq> SWA_NONE) (is_pos_2d (ka_ubatch args)) (ka_use_alibi args) mins"
  let ?I = "\<lambda>done d. length d = length data \<and> (\<forall>i < length done * ka_n_tps args. row_right args causal d i)"
  have "\<exists>d. mfold ?step [0..<ka_n_stream args] data = Some d \<and> ?I [0..<ka_n_stream args] d"
  proof (rule mfold_invariant)
    show "?I [] data" by simp
    fix "done" k rest d
    assume split: "[0..<ka_n_stream args] = done @ k # rest" and I: "?I done d"
    note k = upt_splitD [OF split]
    have "\<exists>d'. ?step k d = Some d' \<and> length d' = length d \<and> (\<forall>i < Suc k * ka_n_tps args. row_right args causal d' i)"
      by (rule kq_stream_ok [OF ok mins(2) k(2)]) (use len I k in auto)
    then show "\<exists>d'. ?step k d = Some d' \<and> ?I (done @ [k]) d'"
      using I k by auto
  qed
  then show ?thesis
    using mins(1) ok by (auto simp: kq_dispatch_def set_input_kq_mask_impl_def mask_ok_def)
qed

text \<open>What the mask of a cache needs: positions stay clear of the 32-bit limit by the window.\<close>

definition kv_room :: "kv_cache \<Rightarrow> bool" where
  "kv_room kv \<longleftrightarrow> int (kv_n_swa kv) + 32 \<le> INT32_MAX \<and>
     (\<forall>c \<in> set (kv_cells kv). \<forall>i < cells_size c.
        opt_all (\<lambda>x. cell_pos x + int (kv_n_swa kv) + 32 \<le> INT32_MAX) (cell_view c i))"

definition mask_input_ok :: "nat \<Rightarrow> kv_cache \<Rightarrow> nat \<Rightarrow> nat \<Rightarrow> 'e llama_ubatch \<Rightarrow> bool" where
  "mask_input_ok m kv n_kv n_stream ub \<longleftrightarrow> n_kv \<le> m \<and> kv_room kv \<and> swa_ok kv \<and> 0 < n_stream \<and>
     ub_n_tokens ub mod n_stream = 0 \<and> (\<forall>i < ub_n_tokens ub. tok_mask_ok (kq_args_of kv False n_kv n_stream ub) i)"

lemma mask_ok_kv:
  assumes "kv_cache_inv m kv" "mask_input_ok m kv n_kv n_stream ub"
  shows "mask_ok (kq_args_of kv alibi n_kv n_stream ub)"
proof -
  have "ub_n_tokens ub = n_stream * (ub_n_tokens ub div n_stream)"
    using assms(2) by (auto simp: mask_input_ok_def)
  moreover have "tok_mask_ok (kq_args_of kv alibi n_kv n_stream ub) i = tok_mask_ok (kq_args_of kv False n_kv n_stream ub) i" for i
    by (simp add: tok_mask_ok_def kq_args_of_def)
  ultimately show ?thesis
    using assms by (simp add: mask_ok_def mask_input_ok_def kv_room_def swa_ok_def kq_args_of_def kv_cache_inv_def)
qed

section \<open>Rows filled by a slot\<close>

lemma fill_rows:
  assumes step: "\<And>r d. r < m \<Longrightarrow> length d = len \<Longrightarrow> f r d = Some (put_row n r (v r) [0..<n] d)"
    and len: "n * m \<le> len" "length data = len"
  shows "\<exists>d. mfold f [0..<m] data = Some d \<and> length d = len \<and> (\<forall>r < m. \<forall>i < n. d ! (n * r + i) = v r i)"
proof -
  let ?I = "\<lambda>done d. length d = len \<and> (\<forall>r < length done. \<forall>i < n. d ! (n * r + i) = v r i)"
  have "\<exists>d. mfold f [0..<m] data = Some d \<and> ?I [0..<m] d"
  proof (rule mfold_invariant)
    show "?I [] data" using len by simp
    fix "done" k rest d
    assume split: "[0..<m] = done @ k # rest" and I: "?I done d"
    note k = upt_splitD [OF split]
    have "put_row n k (v k) [0..<n] d ! (n * r + i) = v r i" if "r < Suc k" "i < n" for r i
    proof -
      have "n * r + i < length d"
        using row_in_range [of r m i n "length d"] that k(2) len(1) I by simp
      then show ?thesis
        using that I k by (subst put_row_nth) (auto simp: less_Suc_eq)
    qed
    then show "\<exists>d'. f k d = Some d' \<and> ?I (done @ [k]) d'"
      using step [OF k(2)] I k by auto
  qed
  then show ?thesis by simp
qed

lemma store_row:
  assumes "n * r + n \<le> length d"
  shows "mfold (\<lambda>i. store_at (n * r + i) (v i)) [0..<n] d = Some (put_row n r v [0..<n] d)"
proof -
  have "mfold (\<lambda>i. store_at (n * r + i) (v i)) is d = Some (put_row n r v is d)" if "\<forall>i \<in> set is. i < n" for "is"
    using that assms
  proof (induction "is" arbitrary: d)
    case (Cons i "is")
    then show ?case by (simp add: store_at_def)
  qed simp
  then show ?thesis by simp
qed

lemma mfold_Nil [simp]: "mfold f [] = Some"
  by (rule ext) simp

lemma mfold_shift:
  fixes s :: 'a
  shows "mfold (\<lambda>r. f (r - a)) [a..<a + n] s = mfold f [0..<n] s"
proof (induction n)
  case (Suc n)
  then show ?case by (simp add: mfold_append)
qed simp

lemma mfold_cong:
  "(\<And>x. x \<in> set xs \<Longrightarrow> f x = g x) \<Longrightarrow> mfold f xs s = mfold g xs s"
  by (induction xs arbitrary: s) (auto cong: Option.bind_cong)

lemma mfold_nested:
  assumes "0 < n"
  shows "mfold (\<lambda>s. mfold (g s) [0..<n]) [0..<m] d = mfold (\<lambda>r. g (r div n) (r mod n)) [0..<m * n] d"
proof (induction m)
  case (Suc m)
  have "mfold (\<lambda>r. g (r div n) (r mod n)) [m * n..<m * n + n] s = mfold (\<lambda>r. g m (r - m * n)) [m * n..<m * n + n] s" for s
  proof (rule mfold_cong)
    fix r assume "r \<in> set [m * n..<m * n + n]"
    then obtain i where "r = m * n + i" "i < n"
      by (metis add_diff_inverse_nat atLeastLessThan_iff atLeastLessThan_upt leD nat_add_left_cancel_less)
    then show "g (r div n) (r mod n) = g m (r - m * n)"
      by simp
  qed
  then have row: "mfold (\<lambda>r. g (r div n) (r mod n)) [m * n..<m * n + n] s = mfold (g m) [0..<n] s" for s
    using mfold_shift [of "g m" "m * n" n s] by simp
  have "[0..<Suc m * n] = [0..<m * n] @ [m * n..<m * n + n]"
    using upt_add_eq_append [of 0 "m * n" n] by (simp add: add.commute)
  then show ?case
    using Suc.IH row by (simp add: mfold_append)
qed simp

text \<open>The slot of a ubatch: row \<open>s\<close>, position \<open>i\<close> is a cell of stream \<open>strm ! s\<close>; different places are different
  cells.\<close>

lemma slot_places:
  assumes ok: "slot_ok m vss ub si" and s: "s < length (si_strm si)" "i < length (si_idxs si ! 0)"
    and s': "s' < length (si_strm si)" "i' < length (si_idxs si ! 0)"
  shows "si_strm si ! s < length vss" "si_idxs si ! s ! i < m"
    "si_strm si ! s = si_strm si ! s' \<and> si_idxs si ! s ! i = si_idxs si ! s' ! i' \<longleftrightarrow> s = s' \<and> i = i'"
  using slot_ok_row [OF ok s(1)] slot_okD(5) [OF ok] s s' by (auto simp: nth_eq_iff_index_eq)

lemma slot_si_size:
  assumes "slot_ok m vss ub si"
  shows "si_size si = Some (length (si_idxs si ! 0))" "si_n_stream si = length (si_strm si)"
proof -
  have "si_idxs si \<noteq> []"
    using slot_okD(2,3) [OF assms] by auto
  then show "si_size si = Some (length (si_idxs si ! 0))" "si_n_stream si = length (si_strm si)"
    using slot_okD(3) [OF assms] by (simp_all add: si_size_def si_n_stream_def)
qed

lemma slot_loop_flat:
  fixes data :: "'a list"
  assumes ok: "slot_ok m vss ub si" and len: "length data = ub_n_tokens ub"
  defines "n \<equiv> length (si_idxs si ! 0)"
  shows "\<exists>d. slot_loop si (\<lambda>s i. store_at (s * n + i) (v s i)) data = Some d \<and> length d = length data \<and>
    (\<forall>s < length (si_strm si). \<forall>i < n. d ! (s * n + i) = v s i)"
proof -
  have "\<exists>d. mfold (\<lambda>s. mfold (\<lambda>i. store_at (s * n + i) (v s i)) [0..<n]) [0..<length (si_strm si)] data = Some d \<and>
      length d = length data \<and> (\<forall>s < length (si_strm si). \<forall>i < n. d ! (n * s + i) = v s i)"
  proof (rule fill_rows)
    fix s and d :: "'a list" assume s: "s < length (si_strm si)" and d: "length d = length data"
    have "n * s + n \<le> length d"
      using mult_le_mono2 [of "Suc s" "length (si_strm si)" n] s d len slot_okD(4) [OF ok] by (simp add: n_def mult.commute)
    then show "mfold (\<lambda>i. store_at (s * n + i) (v s i)) [0..<n] d = Some (put_row n s (v s) [0..<n] d)"
      using store_row [of n s d "v s"] by (simp add: mult.commute)
  qed (use len slot_okD(4) [OF ok] in \<open>simp_all add: n_def mult.commute\<close>)
  then show ?thesis
    using slot_si_size [OF ok] by (simp add: slot_loop_def n_def mult.commute)
qed

lemma slot_loop_trans:
  fixes data :: "'a list"
  assumes ok: "slot_ok m vss ub si" and len: "length data = ub_n_tokens ub * E"
  defines "n \<equiv> length (si_idxs si ! 0)"
  shows "\<exists>d. slot_loop si (\<lambda>s i. mfold (\<lambda>j. store_at (s * n * E + i * E + j) (v s i j)) [0..<E]) data = Some d \<and>
    length d = length data \<and>
    (\<forall>s < length (si_strm si). \<forall>i < n. \<forall>j < E. d ! (s * n * E + i * E + j) = v s i j)"
proof -
  let ?k = "length (si_strm si)"
  have n: "0 < n" "ub_n_tokens ub = ?k * n"
    using slot_okD(1,4) [OF ok] by (simp_all add: n_def)
  let ?g = "\<lambda>s i. mfold (\<lambda>j. store_at (s * n * E + i * E + j) (v s i j)) [0..<E]"
  have "\<exists>d. mfold (\<lambda>r. ?g (r div n) (r mod n)) [0..<?k * n] data = Some d \<and>
      length d = length data \<and> (\<forall>r < ?k * n. \<forall>j < E. d ! (E * r + j) = v (r div n) (r mod n) j)"
  proof (rule fill_rows)
    fix r and d :: "'a list" assume r: "r < ?k * n" and d: "length d = length data"
    have "E * r + E \<le> length d"
      using mult_le_mono2 [of "Suc r" "?k * n" E] r d len n(2) by (simp add: mult.commute)
    moreover have "r div n * n * E + r mod n * E = E * r"
      by (metis add_mult_distrib div_mult_mod_eq mult.commute)
    ultimately show "?g (r div n) (r mod n) d = Some (put_row E r (v (r div n) (r mod n)) [0..<E] d)"
      using store_row [of E r d "v (r div n) (r mod n)"] by simp
  qed (use len n(2) in \<open>simp_all add: mult.commute\<close>)
  then obtain d where d: "mfold (\<lambda>r. ?g (r div n) (r mod n)) [0..<?k * n] data = Some d" "length d = length data"
    "\<And>r j. r < ?k * n \<Longrightarrow> j < E \<Longrightarrow> d ! (E * r + j) = v (r div n) (r mod n) j"
    by blast
  have "d ! (s * n * E + i * E + j) = v s i j" if "s < ?k" "i < n" "j < E" for s i j
  proof -
    have "s * n + i < ?k * n"
      using that row_in_range [of s ?k i n] by (simp add: mult.commute)
    then show ?thesis
      using d(3) [of "s * n + i" j] that by (simp add: algebra_simps)
  qed
  moreover have "slot_loop si ?g data = Some d"
    using d(1) mfold_nested [OF n(1), of ?g ?k data] slot_si_size [OF ok] by (simp add: slot_loop_def n_def)
  ultimately show ?thesis
    using d(2) by blast
qed

text \<open>The places of the tokens in a flat buffer and of their elements in a transposed one.\<close>

lemma token_place:
  assumes "slot_ok m vss ub si" "r < ub_n_tokens ub"
  obtains s i where "s < length (si_strm si)" "i < length (si_idxs si ! 0)" "r = s * length (si_idxs si ! 0) + i"
proof -
  let ?n = "length (si_idxs si ! 0)"
  have n: "0 < ?n" "r < length (si_strm si) * ?n"
    using slot_okD(1,4) [OF assms(1)] assms(2) by simp_all
  show thesis
    by (rule that [of "r div ?n" "r mod ?n"]) (use n in \<open>simp_all add: less_mult_imp_div_less\<close>)
qed

lemma element_place:
  assumes "slot_ok m vss ub si" "r < ub_n_tokens ub * E"
  obtains s i j where "s < length (si_strm si)" "i < length (si_idxs si ! 0)" "j < E"
    "r = s * length (si_idxs si ! 0) * E + i * E + j"
proof -
  have E: "0 < E" "r div E < ub_n_tokens ub"
    using assms(2) by (auto simp: less_mult_imp_div_less intro: Nat.gr0I)
  obtain s i where p: "s < length (si_strm si)" "i < length (si_idxs si ! 0)" "r div E = s * length (si_idxs si ! 0) + i"
    by (rule token_place [OF assms(1) E(2)])
  have "r = (s * length (si_idxs si ! 0) + i) * E + r mod E"
    unfolding p(3) [symmetric] by simp
  then show thesis
    using p E(1) by (intro that [of s i "r mod E"]) (simp_all add: algebra_simps)
qed

lemma k_rows_ok:
  assumes ok: "slot_ok m vss ub si" and len: "length d = ub_n_tokens ub"
    and val: "\<forall>s < length (si_strm si). \<forall>i < length (si_idxs si ! 0).
      d ! (s * length (si_idxs si ! 0) + i) = int (si_strm si ! s * m + si_idxs si ! s ! i)"
  shows "distinct d" "set d \<subseteq> {0..<int (length vss * m)}"
proof -
  let ?n = "length (si_idxs si ! 0)" and ?strm = "\<lambda>s. si_strm si ! s" and ?idx = "\<lambda>s i. si_idxs si ! s ! i"
  have val': "d ! (s * ?n + i) = int (m * ?strm s + ?idx s i)" if "s < length (si_strm si)" "i < ?n" for s i
    using val that by (simp add: mult.commute)
  show "distinct d"
    unfolding distinct_conv_nth
  proof (intro allI impI)
    fix a b assume ab: "a < length d" "b < length d" "a \<noteq> b"
    obtain s i where p: "s < length (si_strm si)" "i < ?n" "a = s * ?n + i"
      by (rule token_place [OF ok, of a]) (use ab len in auto)
    obtain s' i' where p': "s' < length (si_strm si)" "i' < ?n" "b = s' * ?n + i'"
      by (rule token_place [OF ok, of b]) (use ab len in auto)
    have "m * ?strm s + ?idx s i \<noteq> m * ?strm s' + ?idx s' i'"
      using row_index_eq [of "?idx s i" m "?idx s' i'" "?strm s" "?strm s'"] slot_places [OF ok p(1,2) p'(1,2)]
        slot_places(2) [OF ok p'(1,2) p(1,2)] p(3) p'(3) ab(3) by auto
    then show "d ! a \<noteq> d ! b"
      unfolding p(3) p'(3) val' [OF p(1,2)] val' [OF p'(1,2)] of_nat_eq_iff .
  qed
  show "set d \<subseteq> {0..<int (length vss * m)}"
  proof
    fix x assume "x \<in> set d"
    then obtain a where a: "a < length d" "x = d ! a"
      by (auto simp: in_set_conv_nth)
    obtain s i where p: "s < length (si_strm si)" "i < ?n" "a = s * ?n + i"
      by (rule token_place [OF ok, of a]) (use a len in auto)
    have "m * ?strm s + ?idx s i < m * length vss"
      using row_in_range [of "?strm s" "length vss" "?idx s i" m] slot_places [OF ok p(1,2) p(1,2)] by simp
    then show "x \<in> {0..<int (length vss * m)}"
      unfolding a(2) p(3) val' [OF p(1,2)] by (simp add: mult.commute flip: of_nat_mult of_nat_add)
  qed
qed

lemma v_elements_ok:
  assumes ok: "slot_ok m vss ub si" and len: "length d = ub_n_tokens ub * E"
    and val: "\<forall>s < length (si_strm si). \<forall>i < length (si_idxs si ! 0). \<forall>j < E.
      d ! (s * length (si_idxs si ! 0) * E + i * E + j) = int (si_strm si ! s * m * E + j * m + si_idxs si ! s ! i)"
  shows "distinct d" "set d \<subseteq> {0..<int (length vss * m * E)}"
proof -
  let ?n = "length (si_idxs si ! 0)" and ?strm = "\<lambda>s. si_strm si ! s" and ?idx = "\<lambda>s i. si_idxs si ! s ! i"
  have val': "d ! (s * ?n * E + i * E + j) = int (m * (E * ?strm s + j) + ?idx s i)"
    if "s < length (si_strm si)" "i < ?n" "j < E" for s i j
  proof -
    have "?strm s * m * E + j * m + ?idx s i = m * (E * ?strm s + j) + ?idx s i"
      by (simp add: algebra_simps)
    then show ?thesis
      using val that by metis
  qed
  show "distinct d"
    unfolding distinct_conv_nth
  proof (intro allI impI)
    fix a b assume ab: "a < length d" "b < length d" "a \<noteq> b"
    obtain s i j where p: "s < length (si_strm si)" "i < ?n" "j < E" "a = s * ?n * E + i * E + j"
      by (rule element_place [OF ok, of a]) (use ab len in auto)
    obtain s' i' j' where p': "s' < length (si_strm si)" "i' < ?n" "j' < E" "b = s' * ?n * E + i' * E + j'"
      by (rule element_place [OF ok, of b]) (use ab len in auto)
    have "m * (E * ?strm s + j) + ?idx s i \<noteq> m * (E * ?strm s' + j') + ?idx s' i'"
    proof
      assume "m * (E * ?strm s + j) + ?idx s i = m * (E * ?strm s' + j') + ?idx s' i'"
      then have "E * ?strm s + j = E * ?strm s' + j'" "?idx s i = ?idx s' i'"
        using row_index_eq [of "?idx s i" m "?idx s' i'"] slot_places(2) [OF ok p(1,2) p'(1,2)]
          slot_places(2) [OF ok p'(1,2) p(1,2)] by blast+
      then show False
        using row_index_eq [OF p(3) p'(3), of "?strm s" "?strm s'"] p p' slot_places(3) [OF ok p(1,2) p'(1,2)] ab(3) by auto
    qed
    then show "d ! a \<noteq> d ! b"
      unfolding p(4) p'(4) val' [OF p(1-3)] val' [OF p'(1-3)] of_nat_eq_iff .
  qed
  show "set d \<subseteq> {0..<int (length vss * m * E)}"
  proof
    fix x assume "x \<in> set d"
    then obtain a where a: "a < length d" "x = d ! a"
      by (auto simp: in_set_conv_nth)
    obtain s i j where p: "s < length (si_strm si)" "i < ?n" "j < E" "a = s * ?n * E + i * E + j"
      by (rule element_place [OF ok, of a]) (use a len in auto)
    note pl = slot_places [OF ok p(1,2) p(1,2)]
    have "m * (E * ?strm s + j) + ?idx s i < m * (E * length vss)"
      using row_in_range [of "E * ?strm s + j" "E * length vss" "?idx s i" m] row_in_range [of "?strm s" "length vss" j E] pl p(3)
      by simp
    then show "x \<in> {0..<int (length vss * m * E)}"
      unfolding a(2) p(4) val' [OF p(1-3)] by (simp add: algebra_simps flip: of_nat_mult of_nat_add)
  qed
qed

section \<open>Properties\<close>

text \<open>C13. The attention mask computed with reuse of rows is the mask defined cell by cell: for every token and
  every cell below \<open>n_kv\<close>, the element is minus infinity if the cell is empty, does not belong to the sequence of
  the token, lies in its future (causal attention; for 2D positions also within the same position) or outside
  its window, and otherwise \<open>0\<close> or, with ALiBi, minus the distance of the positions.\<close>

theorem kq_mask_equals_reference:
  assumes "kv_cache_inv kv_size kv" "mask_input_ok kv_size kv n_kv n_stream ub" "n_kv * ub_n_tokens ub \<le> length data"
  shows "\<exists>data'. set_input_kq_mask kv alibi n_kv n_stream ub causal data = Some data' \<and> length data' = length data \<and>
    (\<forall>i < ub_n_tokens ub. \<forall>j < n_kv.
       data' ! (n_kv * i + j) = mask_ref (kq_args_of kv alibi n_kv n_stream ub) causal i j)"
proof -
  let ?args = "kq_args_of kv alibi n_kv n_stream ub"
  have sel: "ka_n_kv ?args = n_kv" "ka_ubatch ?args = ub"
    by (simp_all add: kq_args_of_def)
  have "\<exists>data'. kq_dispatch ?args causal data = Some data' \<and> length data' = length data \<and>
      (\<forall>i < ub_n_tokens ub. row_right ?args causal data' i)"
    using kq_mask_ok [OF mask_ok_kv [OF assms(1,2), of alibi], where data = data and causal = causal] assms(3) unfolding sel by blast
  then show ?thesis
    using assms(2) by (auto simp: set_input_kq_mask_def mask_input_ok_def row_right_def sel)
qed

theorem kq_mask_equals_reference_witness:
  "\<exists>data'. set_input_kq_mask demo_kv False 4 2 demo_ub True (replicate 16 Masked) = Some data' \<and> length data' = 16 \<and>
    (\<forall>i < 4. \<forall>j < 4. data' ! (4 * i + j) = mask_ref (kq_args_of demo_kv False 4 2 demo_ub) True i j)"
proof -
  have in_ok: "mask_input_ok 4 demo_kv 4 2 demo_ub"
    by code_simp
  have n: "ub_n_tokens demo_ub = 4"
    by (simp add: demo_ub_def)
  have len: "4 * ub_n_tokens demo_ub \<le> length (replicate 16 Masked)"
    unfolding n by simp
  from kq_mask_equals_reference [OF demo_kv_ok(1) in_ok len, of False True] show ?thesis
    unfolding n by simp
qed



end
