(* ===== verification/Utf8.thy ===== *)
theory Utf8
  imports Prelude
begin

text \<open>
  UTF-8 decoding of token pieces and of grammar text (the two \<open>decode_utf8\<close> of \<open>src/src/llama-grammar.cpp\<close>).
  Text is a \<open>string\<close> whose characters are bytes; a NUL character ends it, as in C. Code points are integers of 32
  bits. A piece may end inside a code point: the rest is carried in a \<open>llama_partial_utf8\<close>.
\<close>

abbreviation byte :: "char \<Rightarrow> int" where
  "byte \<equiv> of_char"

record llama_partial_utf8 =
  pu_value :: int
  pu_n_remain :: int

section \<open>Decoding\<close>

text \<open>The sequence length by the high four bits of the first byte, 0 for a continuation byte.\<close>

definition utf8_len :: "int \<Rightarrow> int" where
  "utf8_len highbits = [1, 1, 1, 1, 1, 1, 1, 1, 0, 0, 0, 0, 2, 2, 3, 4] ! nat highbits"

definition shift_in :: "int \<Rightarrow> char \<Rightarrow> int" where
  "shift_in value c = (value * 64 + byte c mod 64) mod 2 ^ 32"

text \<open>Continue the decode of the previous piece; \<open>None\<close> is an invalid continuation byte.\<close>

fun continue_loop :: "string \<Rightarrow> int \<Rightarrow> int \<Rightarrow> (string \<times> int \<times> int) option" where
  "continue_loop [] value n_remain = Some ([], value, n_remain)"
| "continue_loop (c # cs) value n_remain =
     (if byte c = 0 \<or> n_remain \<le> 0 then Some (c # cs, value, n_remain)
      else if byte c div 64 \<noteq> 2 then None
      else continue_loop cs (shift_in value c) (n_remain - 1))"

text \<open>The same loop inside a piece, which does not look at the kind of byte.\<close>

fun rest_loop :: "string \<Rightarrow> int \<Rightarrow> int \<Rightarrow> string \<times> int \<times> int" where
  "rest_loop [] value n_remain = ([], value, n_remain)"
| "rest_loop (c # cs) value n_remain =
     (if byte c = 0 \<or> n_remain \<le> 0 then (c # cs, value, n_remain)
      else rest_loop cs (shift_in value c) (n_remain - 1))"

lemma rest_loop_length: "rest_loop cs v n = (cs', v', n') \<Longrightarrow> length cs' \<le> length cs"
  by (induction cs v n rule: rest_loop.induct) (fastforce split: if_splits)+

function decode_loop :: "string \<Rightarrow> int list \<Rightarrow> int \<Rightarrow> int \<Rightarrow> int list \<times> llama_partial_utf8" where
  "decode_loop [] code_points value n_remain = (code_points @ [0], \<lparr>pu_value = value, pu_n_remain = n_remain\<rparr>)"
| "decode_loop (c # cs) code_points value n_remain =
     (if byte c = 0 then (code_points @ [0], \<lparr>pu_value = value, pu_n_remain = n_remain\<rparr>)
      else (let n1 = utf8_len (byte c div 16) - 1
            in if n1 < 0 then ([0], \<lparr>pu_value = 0, pu_n_remain = n1\<rparr>)
               else (let (cs', value', n') = rest_loop cs (byte c mod 2 ^ nat (7 - n1)) n1
                     in decode_loop cs' (if n' = 0 then code_points @ [value'] else code_points) value' n')))"
  by pat_completeness auto
termination
proof (relation "measure (\<lambda>(cs, _, _, _). length cs)", goal_cases)
  case (2 c cs cps v n n1 x cs' y v' n')
  then show ?case
    using rest_loop_length [of cs _ _ cs' v' n'] by (simp add: le_imp_less_Suc)
qed simp

definition decode_utf8 :: "string \<Rightarrow> llama_partial_utf8 \<Rightarrow> int list \<times> llama_partial_utf8" where
  "decode_utf8 src partial_start = (case continue_loop src (pu_value partial_start) (pu_n_remain partial_start) of
     None \<Rightarrow> ([0], \<lparr>pu_value = 0, pu_n_remain = - 1\<rparr>)
   | Some (cs, value, n_remain) \<Rightarrow>
       decode_loop cs (if pu_n_remain partial_start > 0 \<and> n_remain = 0 then [value] else []) value n_remain)"

text \<open>The decoder of the grammar text reads one code point and never fails: a continuation byte counts as a
  sequence of length one. The result is the code point and the rest.\<close>

definition text_len :: "int \<Rightarrow> nat" where
  "text_len highbits = [1, 1, 1, 1, 1, 1, 1, 1, 1, 1, 1, 1, 2, 2, 3, 4] ! nat highbits"

fun text_rest :: "nat \<Rightarrow> string \<Rightarrow> int \<Rightarrow> int \<times> string" where
  "text_rest (Suc n) (c # cs) value = (if byte c = 0 then (value, c # cs) else text_rest n cs (shift_in value c))"
| "text_rest _ cs value = (value, cs)"

definition decode_utf8_char :: "string \<Rightarrow> (int \<times> string) option" where
  "decode_utf8_char src = (case src of [] \<Rightarrow> None
   | c # cs \<Rightarrow> (let n = text_len (byte c div 16)
       in Some (text_rest (n - 1) cs (byte c mod 2 ^ (8 - n)))))"

section \<open>Encoding\<close>

text \<open>The encoding of a code point, as a specification of what the decoder inverts.\<close>

definition cont_byte :: "int \<Rightarrow> char" where
  "cont_byte x = char_of (128 + x mod 64)"

definition utf8_encode :: "int \<Rightarrow> string" where
  "utf8_encode cp =
     (if cp < 2 ^ 7 then [char_of cp]
      else if cp < 2 ^ 11 then [char_of (192 + cp div 64), cont_byte cp]
      else if cp < 2 ^ 16 then [char_of (224 + cp div 64 ^ 2), cont_byte (cp div 64), cont_byte cp]
      else [char_of (240 + cp div 64 ^ 3), cont_byte (cp div 64 ^ 2), cont_byte (cp div 64), cont_byte cp])"

definition utf8_encode_all :: "int list \<Rightarrow> string" where
  "utf8_encode_all cps = concat (map utf8_encode cps)"

definition code_point :: "int \<Rightarrow> bool" where
  "code_point cp \<longleftrightarrow> 0 < cp \<and> cp < 2 ^ 21"

lemma lead_mods:
  fixes x :: int
  shows "(128 + x) mod 64 = x mod 64" "(192 + x) mod 64 = x mod 64" "(224 + x) mod 32 = x mod 32" "(240 + x) mod 16 = x mod 16"
proof -
  have e: "128 + x = 2 * 64 + x" "192 + x = 3 * 64 + x" "224 + x = 7 * 32 + x" "240 + x = 15 * 16 + x"
    by simp_all
  show "(128 + x) mod 64 = x mod 64" "(192 + x) mod 64 = x mod 64" "(224 + x) mod 32 = x mod 32" "(240 + x) mod 16 = x mod 16"
    unfolding e by (rule mod_mult_self3)+
qed

lemma byte_char_of: "0 \<le> x \<Longrightarrow> x < 256 \<Longrightarrow> byte (char_of x) = (x :: int)"
  by (simp add: of_char_of)

lemma byte_cont: "byte (cont_byte x) = 128 + x mod 64"
proof -
  have "0 \<le> 128 + x mod 64" "128 + x mod 64 < 256"
    using pos_mod_bound [of 64 x] pos_mod_sign [of 64 x] by simp_all
  then show ?thesis
    unfolding cont_byte_def by (rule byte_char_of)
qed

lemma shift_in_cont: "0 \<le> v \<Longrightarrow> v < 2 ^ 21 \<Longrightarrow> shift_in v (cont_byte x) = v * 64 + x mod 64"
proof -
  assume v: "0 \<le> v" "v < 2 ^ 21"
  have "(128 + x mod 64) mod 64 = x mod 64"
    by (simp add: lead_mods)
  moreover have "0 \<le> v * 64 + x mod 64" "v * 64 + x mod 64 < 2 ^ 32"
    using v pos_mod_bound [of 64 x] pos_mod_sign [of 64 x] by auto
  ultimately show ?thesis
    by (simp add: shift_in_def byte_cont)
qed

text \<open>What the decoder relies on: the first byte tells the length, and shifting in the rest gives the code
  point.\<close>

definition utf8_seq :: "int \<Rightarrow> char \<Rightarrow> string \<Rightarrow> bool" where
  "utf8_seq cp c r \<longleftrightarrow> byte c \<noteq> 0 \<and> utf8_len (byte c div 16) - 1 = int (length r) \<and>
     foldl shift_in (byte c mod 2 ^ nat (7 - int (length r))) r = cp \<and> (\<forall>x \<in> set r. byte x div 64 = 2)"

lemma cont_byte_kind: "byte (cont_byte x) div 64 = 2"
proof -
  have "(128 + x mod 64) div 64 = 2"
    using pos_mod_bound [of 64 x] pos_mod_sign [of 64 x] by simp
  then show ?thesis
    by (simp add: byte_cont)
qed

lemma utf8_len_values:
  "0 \<le> h \<Longrightarrow> h < 8 \<Longrightarrow> utf8_len h = 1" "12 \<le> h \<Longrightarrow> h < 14 \<Longrightarrow> utf8_len h = 2" "utf8_len 14 = 3" "utf8_len 15 = 4"
proof -
  assume "0 \<le> h" "h < 8"
  then have "h \<in> {0, 1, 2, 3, 4, 5, 6, 7}"
    by auto
  then show "utf8_len h = 1"
    by (auto simp: utf8_len_def)
next
  assume "12 \<le> h" "h < 14"
  then have "h \<in> {12, 13}"
    by auto
  then show "utf8_len h = 2"
    by (auto simp: utf8_len_def)
qed (simp_all add: utf8_len_def)

lemma split_64: "x div 64 * 64 + x mod 64 = (x :: int)"
  by simp

lemma div_64_64: "x div 64 div 64 = x div (4096 :: int)" "x div 4096 div 64 = x div (262144 :: int)"
  using zdiv_zmult2_eq [of 64 x 64] zdiv_zmult2_eq [of 64 x 4096] by simp_all

text \<open>The first bytes of sequences of length two, three and four.\<close>

lemma lead_byte:
  assumes "192 \<le> b" "0 \<le> x" "b + x < 256"
  shows "byte (char_of (b + x)) = b + x" "b + x \<noteq> 0"
  using assms by (auto intro: byte_char_of)

lemma lead_2:
  fixes x :: int
  assumes "0 \<le> x" "x < 32"
  shows "12 \<le> (192 + x) div 16" "(192 + x) div 16 < 14" "(192 + x) mod 64 = x" "192 + x < 256"
  using assms by (simp_all add: lead_mods)

lemma lead_3:
  fixes x :: int
  assumes "0 \<le> x" "x < 16"
  shows "(224 + x) div 16 = 14" "(224 + x) mod 32 = x" "224 + x < 256"
  using assms by (simp_all add: lead_mods)

lemma lead_4:
  fixes x :: int
  assumes "0 \<le> x" "x < 8"
  shows "(240 + x) div 16 = 15" "(240 + x) mod 16 = x" "240 + x < 256"
  using assms by (simp_all add: lead_mods)

lemma div_bounds:
  fixes cp :: int
  assumes "0 < cp" "cp < 2 ^ 21"
  shows "0 \<le> cp div 64" "cp div 64 < 2 ^ 21" "0 \<le> cp div 4096" "cp div 4096 < 2 ^ 21" "0 \<le> cp div 262144" "cp div 262144 < 8"
    "cp < 2 ^ 11 \<Longrightarrow> cp div 64 < 32" "cp < 2 ^ 16 \<Longrightarrow> cp div 4096 < 16"
  using assms by simp_all

lemma utf8_encode_seq:
  assumes "code_point cp"
  shows "\<exists>c r. utf8_encode cp = c # r \<and> utf8_seq cp c r"
proof -
  have cp: "0 < cp" "cp < 2 ^ 21"
    using assms by (auto simp: code_point_def)
  note d = div_bounds [OF cp]
  have d6: "cp div 262144 < 2 ^ 21"
    using d(6) by simp
  consider "cp < 2 ^ 7" | "2 ^ 7 \<le> cp" "cp < 2 ^ 11" | "2 ^ 11 \<le> cp" "cp < 2 ^ 16" | "2 ^ 16 \<le> cp"
    by linarith
  then show ?thesis
  proof cases
    case 1
    then have "byte (char_of cp) = cp" "0 \<le> cp div 16" "cp div 16 < 8"
      using cp by (auto simp: byte_char_of)
    then show ?thesis
      using 1 cp utf8_len_values(1) by (auto simp: utf8_encode_def utf8_seq_def)
  next
    case 2
    let ?c = "192 + cp div 64"
    note x = d(1) d(7) [OF 2(2)]
    have c: "byte (char_of ?c) = ?c" "?c \<noteq> 0"
      by (rule lead_byte [OF _ d(1) lead_2(4) [OF x]], simp)+
    note b = c lead_2 [OF x]
    have "utf8_encode cp = [char_of ?c, cont_byte cp]"
      using 2 by (simp add: utf8_encode_def)
    moreover have "utf8_seq cp (char_of ?c) [cont_byte cp]"
      using b(2) utf8_len_values(2) [OF b(3,4)] shift_in_cont [OF d(1,2), of cp]
      unfolding utf8_seq_def b(1) by (simp add: cont_byte_kind b(5))
    ultimately show ?thesis
      by blast
  next
    case 3
    let ?c = "224 + cp div 4096"
    note x = d(3) d(8) [OF 3(2)]
    have c: "byte (char_of ?c) = ?c" "?c \<noteq> 0"
      by (rule lead_byte [OF _ d(3) lead_3(3) [OF x]], simp)+
    note b = c lead_3 [OF x]
    have s: "shift_in (cp div 4096) (cont_byte (cp div 64)) = cp div 64"
      using shift_in_cont [OF d(3,4)] unfolding div_64_64(1) [symmetric] by (simp only: split_64)
    have s': "shift_in (cp div 64) (cont_byte cp) = cp"
      using shift_in_cont [OF d(1,2), of cp] by simp
    have "utf8_encode cp = [char_of ?c, cont_byte (cp div 64), cont_byte cp]"
      using 3 by (simp add: utf8_encode_def)
    moreover have "utf8_seq cp (char_of ?c) [cont_byte (cp div 64), cont_byte cp]"
      using b(2) utf8_len_values(3) unfolding utf8_seq_def b(1) by (simp add: cont_byte_kind b(3,4) s s')
    ultimately show ?thesis
      by blast
  next
    case 4
    let ?c = "240 + cp div 262144"
    have c: "byte (char_of ?c) = ?c" "?c \<noteq> 0"
      by (rule lead_byte [OF _ d(5) lead_4(3) [OF d(5,6)]], simp)+
    note b = c lead_4 [OF d(5,6)]
    have s1: "shift_in (cp div 262144) (cont_byte (cp div 4096)) = cp div 4096"
      using shift_in_cont [OF d(5) d6] unfolding div_64_64(2) [symmetric] by (simp only: split_64)
    from shift_in_cont [OF d(3,4)] have s2: "shift_in (cp div 4096) (cont_byte (cp div 64)) = cp div 64"
      unfolding div_64_64(1) [symmetric] by (simp only: split_64)
    have s3: "shift_in (cp div 64) (cont_byte cp) = cp"
      using shift_in_cont [OF d(1,2), of cp] by simp
    have "utf8_encode cp = [char_of ?c, cont_byte (cp div 4096), cont_byte (cp div 64), cont_byte cp]"
      using 4 by (simp add: utf8_encode_def)
    moreover have "utf8_seq cp (char_of ?c) [cont_byte (cp div 4096), cont_byte (cp div 64), cont_byte cp]"
      using b(2) utf8_len_values(4) unfolding utf8_seq_def b(1) by (simp add: cont_byte_kind b(3,4) s1 s2 s3)
    ultimately show ?thesis
      by blast
  qed
qed

section \<open>Decoding in pieces\<close>

abbreviation conts :: "string \<Rightarrow> bool" where
  "conts r \<equiv> \<forall>x \<in> set r. byte x div 64 = 2"

lemma conts_nonzero: "byte x div 64 = 2 \<Longrightarrow> byte x \<noteq> 0"
  by auto

lemma rest_loop_all: "conts r \<Longrightarrow> rest_loop (r @ bs) v (int (length r)) = (bs, foldl shift_in v r, 0)"
proof (induction r arbitrary: v)
  case Nil
  then show ?case by (cases bs) auto
qed (auto dest: conts_nonzero)

lemma rest_loop_some: "conts r \<Longrightarrow> rest_loop r v (int (length r) + int n) = ([], foldl shift_in v r, int n)"
  by (induction r arbitrary: v) (auto dest: conts_nonzero simp: algebra_simps)

lemma continue_loop_all: "conts r \<Longrightarrow> continue_loop (r @ bs) v (int (length r)) = Some (bs, foldl shift_in v r, 0)"
proof (induction r arbitrary: v)
  case Nil
  then show ?case by (cases bs) auto
qed (auto dest: conts_nonzero)

lemma continue_loop_some: "conts r \<Longrightarrow> continue_loop r v (int (length r) + int n) = Some ([], foldl shift_in v r, int n)"
  by (induction r arbitrary: v) (auto dest: conts_nonzero simp: algebra_simps)

text \<open>The bytes \<open>bs\<close> complete the code points \<open>cps\<close>, the first of which may have been started.\<close>

definition utf8_rest :: "llama_partial_utf8 \<Rightarrow> int list \<Rightarrow> string \<Rightarrow> bool" where
  "utf8_rest p cps bs \<longleftrightarrow> (pu_n_remain p = 0 \<and> bs = utf8_encode_all cps) \<or>
     (\<exists>r cps'. r \<noteq> [] \<and> pu_n_remain p = int (length r) \<and> conts r \<and>
        cps = foldl shift_in (pu_value p) r # cps' \<and> bs = r @ utf8_encode_all cps')"

lemma decode_loop_prefix:
  assumes "\<forall>cp \<in> set cps. code_point cp" "utf8_encode_all cps = a @ b"
  shows "\<exists>xs ys p. decode_loop a acc v 0 = (acc @ xs @ [0], p) \<and> cps = xs @ ys \<and> utf8_rest p ys b"
  using assms
proof (induction cps arbitrary: a acc v)
  case Nil
  then show ?case
    by (auto simp: utf8_rest_def utf8_encode_all_def)
next
  case (Cons cp cps)
  show ?case
  proof (cases a)
    case Nil
    then show ?thesis
      using Cons.prems(2) by (intro exI [of _ "[]"] exI [of _ "cp # cps"]) (simp add: utf8_rest_def)
  next
    case (Cons c a1)
    obtain r where r: "utf8_encode cp = c # r" "utf8_seq cp c r" "r @ utf8_encode_all cps = a1 @ b"
      using utf8_encode_seq [of cp] Cons.prems Cons by (auto simp: utf8_encode_all_def)
    let ?v = "byte c mod 2 ^ nat (7 - int (length r))"
    have seq: "byte c \<noteq> 0" "utf8_len (byte c div 16) - 1 = int (length r)" "foldl shift_in ?v r = cp" "conts r"
      using r(2) by (auto simp: utf8_seq_def)
    from r(3) consider a' where "a1 = r @ a'" "utf8_encode_all cps = a' @ b" | r2 where "r = a1 @ r2" "r2 \<noteq> []" "b = r2 @ utf8_encode_all cps"
      by (auto simp: append_eq_append_conv2) (metis append_Nil2 self_append_conv)
    then show ?thesis
    proof cases
      case 1
      obtain xs ys p where "decode_loop a' (acc @ [cp]) cp 0 = ((acc @ [cp]) @ xs @ [0], p)" "cps = xs @ ys" "utf8_rest p ys b"
        using Cons.IH [OF _ 1(2), of "acc @ [cp]" cp] Cons.prems(1) by auto
      then show ?thesis
        using Cons 1(1) seq rest_loop_all [OF seq(4), of a' ?v] by (intro exI [of _ "cp # xs"] exI [of _ ys] exI [of _ p]) (simp add: Let_def)
    next
      case 2
      have c: "conts a1" "conts r2"
        using seq(4) 2(1) by auto
      have len: "int (length r) = int (length a1) + int (length r2)"
        using 2(1) by simp
      have "decode_loop a acc v 0 = (acc @ [0], \<lparr>pu_value = foldl shift_in ?v a1, pu_n_remain = int (length r2)\<rparr>)"
        using Cons seq(1,2) rest_loop_some [OF c(1), of ?v "length r2"] 2(2) unfolding len by (simp add: Let_def)
      moreover have "utf8_rest \<lparr>pu_value = foldl shift_in ?v a1, pu_n_remain = int (length r2)\<rparr> (cp # cps) b"
        using 2 c(2) seq(3) unfolding utf8_rest_def by (intro disjI2 exI [of _ r2] exI [of _ cps]) simp
      ultimately show ?thesis
        by (intro exI [of _ "[]"] exI [of _ "cp # cps"]) simp
    qed
  qed
qed

lemma decode_piece:
  assumes cps: "\<forall>cp \<in> set cps. code_point cp" and rest: "utf8_rest p cps (a @ b)"
  shows "\<exists>xs ys p'. decode_utf8 a p = (xs @ [0], p') \<and> cps = xs @ ys \<and> utf8_rest p' ys b"
proof -
  consider "pu_n_remain p = 0" "utf8_encode_all cps = a @ b"
    | r cps' where "r \<noteq> []" "pu_n_remain p = int (length r)" "conts r" "cps = foldl shift_in (pu_value p) r # cps'" "r @ utf8_encode_all cps' = a @ b"
    using rest unfolding utf8_rest_def by auto
  then show ?thesis
  proof cases
    case 1
    have "continue_loop a (pu_value p) 0 = Some (a, pu_value p, 0)"
      by (cases a) auto
    then show ?thesis
      using 1(1) decode_loop_prefix [OF cps 1(2), of "[]"] by (simp add: decode_utf8_def)
  next
    case 2
    let ?cp = "foldl shift_in (pu_value p) r"
    from 2(5) consider a' where "a = r @ a'" "utf8_encode_all cps' = a' @ b" | r2 where "r = a @ r2" "r2 \<noteq> []" "b = r2 @ utf8_encode_all cps'"
      by (auto simp: append_eq_append_conv2) (metis append_Nil2 self_append_conv)
    then show ?thesis
    proof cases
      case a: 1
      have "\<forall>cp \<in> set cps'. code_point cp"
        using cps 2(4) by simp
      from decode_loop_prefix [OF this a(2), of "[?cp]" ?cp] obtain xs ys p' where
        "decode_loop a' [?cp] ?cp 0 = ([?cp] @ xs @ [0], p')" "cps' = xs @ ys" "utf8_rest p' ys b"
        by blast
      then show ?thesis
        using a(1) 2 continue_loop_all [OF 2(3), of a' "pu_value p"]
        by (intro exI [of _ "?cp # xs"] exI [of _ ys] exI [of _ p']) (simp add: decode_utf8_def)
    next
      case r2: 2
      have c: "conts a" "conts r2"
        using 2(3) r2(1) by auto
      have len: "int (length r) = int (length a) + int (length r2)"
        using r2(1) by simp
      let ?p = "\<lparr>pu_value = foldl shift_in (pu_value p) a, pu_n_remain = int (length r2)\<rparr>"
      have "decode_utf8 a p = ([0], ?p)"
        using 2(2) continue_loop_some [OF c(1), of "pu_value p" "length r2"] r2(2) unfolding len by (simp add: decode_utf8_def)
      moreover have "utf8_rest ?p cps b"
        using 2(4) r2 c(2) unfolding utf8_rest_def by (intro disjI2 exI [of _ r2] exI [of _ cps']) simp
      ultimately show ?thesis
        by (intro exI [of _ "[]"] exI [of _ cps]) simp
    qed
  qed
qed

text \<open>A text that arrives in pieces: every piece is decoded with what the piece before left over.\<close>

fun decode_pieces :: "string list \<Rightarrow> llama_partial_utf8 \<Rightarrow> int list \<times> llama_partial_utf8" where
  "decode_pieces [] p = ([], p)"
| "decode_pieces (s # ss) p = (let (cps, p1) = decode_utf8 s p; (cps', p2) = decode_pieces ss p1 in (butlast cps @ cps', p2))"

lemma decode_pieces_rest:
  assumes "\<forall>cp \<in> set cps. code_point cp" "utf8_rest p cps (concat pieces @ b)"
  shows "\<exists>xs ys p'. decode_pieces pieces p = (xs, p') \<and> cps = xs @ ys \<and> utf8_rest p' ys b"
  using assms
proof (induction pieces arbitrary: p cps)
  case (Cons s ss)
  obtain xs ys p1 where 1: "decode_utf8 s p = (xs @ [0], p1)" "cps = xs @ ys" "utf8_rest p1 ys (concat ss @ b)"
    using decode_piece [OF Cons.prems(1), of p s "concat ss @ b"] Cons.prems(2) by auto
  then obtain xs' ys' p' where "decode_pieces ss p1 = (xs', p')" "ys = xs' @ ys'" "utf8_rest p' ys' b"
    using Cons.IH [of ys p1] Cons.prems(1) by auto
  then show ?case
    using 1 by auto
qed auto

abbreviation no_partial :: llama_partial_utf8 where
  "no_partial \<equiv> \<lparr>pu_value = 0, pu_n_remain = 0\<rparr>"

text \<open>C29. Decoding is independent of how text is cut into pieces: if the pieces together are the UTF-8 encoding of
  a list of code points, decoding them one after the other, each with the partial sequence the previous one left,
  gives exactly these code points, and nothing is left over at the end.\<close>

theorem utf8_pieces:
  assumes "\<forall>cp \<in> set cps. code_point cp" "concat pieces = utf8_encode_all cps"
  shows "\<exists>p. decode_pieces pieces no_partial = (cps, p) \<and> pu_n_remain p = 0"
proof -
  have "utf8_rest no_partial cps (concat pieces @ [])"
    using assms(2) by (simp add: utf8_rest_def)
  then obtain xs ys p where "decode_pieces pieces no_partial = (xs, p)" "cps = xs @ ys" "utf8_rest p ys []"
    using decode_pieces_rest [OF assms(1)] by blast
  moreover have "ys = [] \<and> pu_n_remain p = 0"
  proof -
    have "utf8_encode cp \<noteq> []" for cp
      by (simp add: utf8_encode_def)
    then show ?thesis
      using \<open>utf8_rest p ys []\<close> by (cases ys) (auto simp: utf8_rest_def utf8_encode_all_def)
  qed
  ultimately show ?thesis
    by simp
qed

theorem utf8_pieces_witness:
  "\<exists>p. decode_pieces [[CHR ''a'', char_of (195 :: int)], [char_of (169 :: int)], []] no_partial = ([97, 233], p) \<and> pu_n_remain p = 0"
proof (rule utf8_pieces)
  show "\<forall>cp \<in> set [97, 233]. code_point cp"
    by (simp add: code_point_def)
  show "concat [[CHR ''a'', char_of (195 :: int)], [char_of (169 :: int)], []] = utf8_encode_all [97, 233]"
    by code_simp
qed

end
