(* ===== verification/Grammar.thy ===== *)
theory Grammar
  imports Utf8
begin

text \<open>
  Grammar-constrained sampling (\<open>src/src/llama-grammar.cpp\<close>, \<open>llama-grammar.h\<close>): rules, matching of characters and
  tokens, the pushdown stacks and how they advance, detection of left recursion, initialisation, and the two
  operations the sampler calls, \<open>apply\<close> and \<open>accept\<close>.

  A pointer to an element is the pair of a rule and an index into it. A stack is a list whose head is the top (the
  back of the vector in the source), and so is the work list of \<open>advance_stack\<close>. The vocabulary and the search with
  a trigger pattern (a regular expression) are parameters.
\<close>

section \<open>Rules\<close>

datatype llama_gretype =
  GRE_END | GRE_ALT | GRE_RULE_REF | GRE_CHAR | GRE_CHAR_NOT | GRE_CHAR_RNG_UPPER | GRE_CHAR_ALT | GRE_CHAR_ANY | GRE_TOKEN | GRE_TOKEN_NOT

record llama_grammar_element =
  ge_type :: llama_gretype
  ge_value :: int

type_synonym llama_grammar_rule = "llama_grammar_element list"
type_synonym llama_grammar_rules = "llama_grammar_rule list"
type_synonym grammar_pos = "nat \<times> nat"
type_synonym llama_grammar_stack = "grammar_pos list"
type_synonym llama_grammar_stacks = "llama_grammar_stack list"

definition elem_at :: "llama_grammar_rules \<Rightarrow> grammar_pos \<Rightarrow> llama_grammar_element option" where
  "elem_at rules = (\<lambda>(r, i). do {
     require (r < length rules \<and> i < length (rules ! r));
     Some (rules ! r ! i) })"

definition next_pos :: "grammar_pos \<Rightarrow> grammar_pos" where
  "next_pos = (\<lambda>(r, i). (r, i + 1))"

definition end_type :: "llama_gretype \<Rightarrow> bool" where
  "end_type t \<longleftrightarrow> t = GRE_END \<or> t = GRE_ALT"

definition llama_grammar_is_end_of_sequence :: "llama_grammar_rules \<Rightarrow> grammar_pos \<Rightarrow> bool option" where
  "llama_grammar_is_end_of_sequence rules p = do { e \<leftarrow> elem_at rules p; Some (end_type (ge_type e)) }"

section \<open>Matching\<close>

definition positive_char :: "llama_gretype \<Rightarrow> bool" where
  "positive_char t \<longleftrightarrow> t = GRE_CHAR \<or> t = GRE_CHAR_ANY"

text \<open>The loop over the alternatives of a character class, on the elements from the current one on. The last
  argument counts the elements passed.\<close>

fun match_char_loop :: "llama_grammar_element list \<Rightarrow> int \<Rightarrow> bool \<Rightarrow> nat \<Rightarrow> (bool \<times> nat) option" where
  "match_char_loop (e # e1 # es) chr found k =
     (if ge_type e1 = GRE_CHAR_RNG_UPPER then
        (let found' = (found \<or> (ge_value e \<le> chr \<and> chr \<le> ge_value e1))
         in case es of [] \<Rightarrow> None
            | e2 # _ \<Rightarrow> if ge_type e2 = GRE_CHAR_ALT then match_char_loop es chr found' (k + 2) else Some (found', k + 2))
      else
        (let found' = (if ge_type e = GRE_CHAR_ANY then True else found \<or> ge_value e = chr)
         in if ge_type e1 = GRE_CHAR_ALT then match_char_loop (e1 # es) chr found' (k + 1) else Some (found', k + 1)))"
| "match_char_loop _ _ _ _ = None"

definition llama_grammar_match_char :: "llama_grammar_rules \<Rightarrow> grammar_pos \<Rightarrow> int \<Rightarrow> (bool \<times> grammar_pos) option" where
  "llama_grammar_match_char rules pos chr = do {
     e \<leftarrow> elem_at rules pos;
     let is_positive_char = positive_char (ge_type e);
     require (is_positive_char \<or> ge_type e = GRE_CHAR_NOT);
     (found, k) \<leftarrow> match_char_loop (drop (snd pos) (rules ! fst pos)) chr False 0;
     Some (found = is_positive_char, (fst pos, snd pos + k)) }"

text \<open>The code points a partial sequence can become. \<open>high\<close> sets the low bits, which are zero in \<open>low\<close>.\<close>

definition partial_range :: "int \<Rightarrow> int \<Rightarrow> int \<times> int" where
  "partial_range partial_value n_remain =
     (let low = (partial_value * 2 ^ nat (n_remain * 6)) mod 2 ^ 32;
          high = low + (2 ^ nat (n_remain * 6) - 1)
      in (if low = 0 then (if n_remain = 2 then 2 ^ 11 else if n_remain = 3 then 2 ^ 16 else low) else low, high))"

fun match_partial_loop :: "llama_grammar_element list \<Rightarrow> int \<Rightarrow> int \<Rightarrow> bool \<Rightarrow> bool option" where
  "match_partial_loop (e # e1 # es) low high positive =
     (if ge_type e1 = GRE_CHAR_RNG_UPPER then
        (if ge_value e \<le> high \<and> low \<le> ge_value e1 then Some positive
         else case es of [] \<Rightarrow> None
              | e2 # _ \<Rightarrow> if ge_type e2 = GRE_CHAR_ALT then match_partial_loop es low high positive else Some (\<not> positive))
      else if ge_type e = GRE_CHAR_ANY then Some True
      else if low \<le> ge_value e \<and> ge_value e \<le> high then Some positive
      else if ge_type e1 = GRE_CHAR_ALT then match_partial_loop (e1 # es) low high positive
      else Some (\<not> positive))"
| "match_partial_loop _ _ _ _ = None"

definition llama_grammar_match_partial_char :: "llama_grammar_rules \<Rightarrow> grammar_pos \<Rightarrow> llama_partial_utf8 \<Rightarrow> bool option" where
  "llama_grammar_match_partial_char rules pos partial_utf8 = do {
     e \<leftarrow> elem_at rules pos;
     let is_positive_char = positive_char (ge_type e);
     require (is_positive_char \<or> ge_type e = GRE_CHAR_NOT);
     let n_remain = pu_n_remain partial_utf8;
     if n_remain < 0 \<or> (n_remain = 1 \<and> pu_value partial_utf8 < 2) then Some False
     else do {
       let (low, high) = partial_range (pu_value partial_utf8) n_remain;
       match_partial_loop (drop (snd pos) (rules ! fst pos)) low high is_positive_char } }"

definition token_type :: "llama_gretype \<Rightarrow> bool" where
  "token_type t \<longleftrightarrow> t = GRE_TOKEN \<or> t = GRE_TOKEN_NOT"

definition llama_grammar_match_token :: "llama_grammar_rules \<Rightarrow> grammar_pos \<Rightarrow> int \<Rightarrow> bool option" where
  "llama_grammar_match_token rules pos token = do {
     e \<leftarrow> elem_at rules pos;
     require (token_type (ge_type e));
     Some (if ge_type e = GRE_TOKEN then ge_value e = token mod 2 ^ 32 else ge_value e \<noteq> token mod 2 ^ 32) }"

section \<open>Advancing a stack\<close>

definition push_pos :: "llama_grammar_rules \<Rightarrow> grammar_pos \<Rightarrow> llama_grammar_stack \<Rightarrow> llama_grammar_stack option" where
  "push_pos rules p stack = do {
     e \<leftarrow> llama_grammar_is_end_of_sequence rules p;
     Some (if e then stack else p # stack) }"

text \<open>The indices where the alternates of a rule start, after the first: one behind every \<open>ALT\<close> before the
  \<open>END\<close>.\<close>

fun alt_starts :: "llama_grammar_rule \<Rightarrow> nat \<Rightarrow> nat list option" where
  "alt_starts [] i = None"
| "alt_starts (e # es) i =
     (if ge_type e = GRE_END then Some []
      else if ge_type e = GRE_ALT then do { xs \<leftarrow> alt_starts es (i + 1); Some ((i + 1) # xs) }
      else alt_starts es (i + 1))"

definition rule_starts :: "llama_grammar_rules \<Rightarrow> nat \<Rightarrow> nat list option" where
  "rule_starts rules rule_id = do {
     require (rule_id < length rules);
     xs \<leftarrow> alt_starts (rules ! rule_id) 0;
     Some (0 # xs) }"

definition expand_ref ::
  "llama_grammar_rules \<Rightarrow> grammar_pos \<Rightarrow> llama_grammar_stack \<Rightarrow> nat \<Rightarrow> llama_grammar_stacks \<Rightarrow> llama_grammar_stacks option" where
  "expand_ref rules pos below rule_id todo = do {
     starts \<leftarrow> rule_starts rules rule_id;
     mfold (\<lambda>i todo. do {
       s1 \<leftarrow> push_pos rules (next_pos pos) below;
       s2 \<leftarrow> push_pos rules (rule_id, i) s1;
       Some (s2 # todo) }) starts todo }"

definition add_stack :: "llama_grammar_stack \<Rightarrow> llama_grammar_stacks \<Rightarrow> llama_grammar_stacks" where
  "add_stack stack new_stacks = (if stack \<in> set new_stacks then new_stacks else new_stacks @ [stack])"

type_synonym advance_state = "llama_grammar_stacks \<times> llama_grammar_stack list \<times> llama_grammar_stacks"

text \<open>One iteration of the loop over the work list \<open>todo\<close>, with the stacks \<open>seen\<close> and the result so far.\<close>

definition advance_iter :: "llama_grammar_rules \<Rightarrow> advance_state \<Rightarrow> advance_state option" where
  "advance_iter rules = (\<lambda>(todo, seen, new_stacks). case todo of [] \<Rightarrow> None
   | curr_stack # todo' \<Rightarrow>
       if curr_stack \<in> set seen then Some (todo', seen, new_stacks)
       else (let seen' = curr_stack # seen in
         case curr_stack of [] \<Rightarrow> Some (todo', seen', add_stack [] new_stacks)
         | pos # below \<Rightarrow> do {
             e \<leftarrow> elem_at rules pos;
             if ge_type e = GRE_RULE_REF then do {
               todo'' \<leftarrow> expand_ref rules pos below (nat (ge_value e)) todo';
               Some (todo'', seen', new_stacks) }
             else if ge_type e \<in> {GRE_CHAR, GRE_CHAR_NOT, GRE_CHAR_ANY, GRE_TOKEN, GRE_TOKEN_NOT} then
               Some (todo', seen', add_stack curr_stack new_stacks)
             else None }))"

partial_function (option) advance_loop :: "llama_grammar_rules \<Rightarrow> advance_state \<Rightarrow> llama_grammar_stacks option" where
  [code]: "advance_loop rules st =
     (if fst st = [] then Some (snd (snd st))
      else do { st' \<leftarrow> advance_iter rules st; advance_loop rules st' })"

definition llama_grammar_advance_stack ::
  "llama_grammar_rules \<Rightarrow> llama_grammar_stack \<Rightarrow> llama_grammar_stacks \<Rightarrow> llama_grammar_stacks option" where
  "llama_grammar_advance_stack rules stack new_stacks = advance_loop rules ([stack], [], new_stacks)"

section \<open>Left recursion\<close>

record lr_state =
  lr_visited :: "bool list"
  lr_in_progress :: "bool list"
  lr_may_be_empty :: "bool list"

text \<open>Does an alternate of the rule have no elements? The flag says whether an alternate has just started.\<close>

fun has_empty_alt :: "llama_grammar_rule \<Rightarrow> bool \<Rightarrow> bool" where
  "has_empty_alt [] at_rule_start = False"
| "has_empty_alt (e # es) at_rule_start =
     (if end_type (ge_type e) then at_rule_start \<or> has_empty_alt es True else has_empty_alt es False)"

text \<open>The loop that recurses into the leftmost nonterminals of every alternate; \<open>detect\<close> is the recursive
  call.\<close>

fun lr_scan :: "(nat \<Rightarrow> lr_state \<Rightarrow> (bool \<times> lr_state) option) \<Rightarrow> llama_grammar_rule \<Rightarrow> bool \<Rightarrow> lr_state \<Rightarrow> (bool \<times> lr_state) option" where
  "lr_scan detect [] recurse_into_nonterminal st = Some (False, st)"
| "lr_scan detect (e # es) recurse_into_nonterminal st =
     (if ge_type e = GRE_RULE_REF \<and> recurse_into_nonterminal then do {
        (found, st') \<leftarrow> detect (nat (ge_value e)) st;
        if found then Some (True, st')
        else do {
          require (nat (ge_value e) < length (lr_may_be_empty st'));
          lr_scan detect es (lr_may_be_empty st' ! nat (ge_value e)) st' } }
      else lr_scan detect es (end_type (ge_type e)) st)"

text \<open>The recursion is as deep as there are rules, since a rule in progress ends it; the first argument bounds
  the depth.\<close>

primrec llama_grammar_detect_left_recursion ::
  "nat \<Rightarrow> llama_grammar_rules \<Rightarrow> nat \<Rightarrow> lr_state \<Rightarrow> (bool \<times> lr_state) option" where
  "llama_grammar_detect_left_recursion 0 rules rule_index st = None"
| "llama_grammar_detect_left_recursion (Suc n) rules rule_index st = do {
     require (rule_index < length rules \<and> rule_index < length (lr_in_progress st));
     if lr_in_progress st ! rule_index then Some (True, st)
     else do {
       let st1 = st\<lparr>lr_in_progress := (lr_in_progress st)[rule_index := True]\<rparr>;
       let st2 = (if has_empty_alt (rules ! rule_index) True
                  then st1\<lparr>lr_may_be_empty := (lr_may_be_empty st1)[rule_index := True]\<rparr> else st1);
       (found, st3) \<leftarrow> lr_scan (llama_grammar_detect_left_recursion n rules) (rules ! rule_index) True st2;
       if found then Some (True, st3)
       else Some (False, st3\<lparr>lr_in_progress := (lr_in_progress st3)[rule_index := False],
                             lr_visited := (lr_visited st3)[rule_index := True]\<rparr>) } }"

text \<open>The check over all rules at initialisation, \<open>True\<close> if left recursion was found.\<close>

fun check_left_recursion :: "llama_grammar_rules \<Rightarrow> nat list \<Rightarrow> lr_state \<Rightarrow> bool option" where
  "check_left_recursion rules [] st = Some False"
| "check_left_recursion rules (i # is) st =
     (if lr_visited st ! i then check_left_recursion rules is st
      else do {
        (found, st') \<leftarrow> llama_grammar_detect_left_recursion (Suc (length rules)) rules i st;
        if found then Some True else check_left_recursion rules is st' })"

definition lr_init :: "nat \<Rightarrow> lr_state" where
  "lr_init n_rules = \<lparr>lr_visited = replicate n_rules False, lr_in_progress = replicate n_rules False,
     lr_may_be_empty = replicate n_rules False\<rparr>"

section \<open>The grammar\<close>

type_synonym llama_token = int

record vocab =
  token_to_piece :: "llama_token \<Rightarrow> string"
  is_eog :: "llama_token \<Rightarrow> bool"

text \<open>A trigger pattern is given by its search function, which returns the start of the match.\<close>

record llama_grammar =
  gr_rules :: llama_grammar_rules
  gr_stacks :: llama_grammar_stacks
  gr_partial_utf8 :: llama_partial_utf8
  gr_lazy :: bool
  gr_awaiting_trigger :: bool
  gr_trigger_buffer :: string
  gr_trigger_buffer_positions :: "(llama_token \<times> nat \<times> nat) list"
  gr_trigger_tokens :: "llama_token list"
  gr_trigger_patterns :: "(string \<Rightarrow> nat option) list"

text \<open>Rules are copied up to the \<open>END\<close>.\<close>

fun copy_rule :: "llama_grammar_rule \<Rightarrow> llama_grammar_rule option" where
  "copy_rule [] = None"
| "copy_rule (e # es) = (if ge_type e = GRE_END then Some [\<lparr>ge_type = GRE_END, ge_value = 0\<rparr>]
     else do { es' \<leftarrow> copy_rule es; Some (e # es') })"

definition copy_rules :: "llama_grammar_rules \<Rightarrow> llama_grammar_rules option" where
  "copy_rules rules = mfold (\<lambda>r out. do { r' \<leftarrow> copy_rule r; Some (out @ [r']) }) rules []"

definition init_stacks :: "llama_grammar_rules \<Rightarrow> nat \<Rightarrow> llama_grammar_stacks option" where
  "init_stacks rules start_rule_index = do {
     starts \<leftarrow> rule_starts rules start_rule_index;
     mfold (\<lambda>i stacks. do {
       s \<leftarrow> push_pos rules (start_rule_index, i) [];
       llama_grammar_advance_stack rules s stacks }) starts [] }"

text \<open>Initialisation from parsed rules; the inner \<open>None\<close> is the null pointer returned for left recursion.\<close>

definition llama_grammar_init_impl ::
  "llama_grammar_rules \<Rightarrow> nat \<Rightarrow> bool \<Rightarrow> (string \<Rightarrow> nat option) list \<Rightarrow> llama_token list \<Rightarrow> llama_grammar option option" where
  "llama_grammar_init_impl rules start_rule_index lazy trigger_patterns trigger_tokens = do {
     vec_rules \<leftarrow> copy_rules rules;
     lr \<leftarrow> check_left_recursion vec_rules [0..<length vec_rules] (lr_init (length vec_rules));
     if lr then Some None
     else do {
       stacks \<leftarrow> init_stacks vec_rules start_rule_index;
       Some (Some \<lparr>gr_rules = vec_rules, gr_stacks = stacks, gr_partial_utf8 = no_partial, gr_lazy = lazy,
         gr_awaiting_trigger = lazy, gr_trigger_buffer = [], gr_trigger_buffer_positions = [],
         gr_trigger_tokens = trigger_tokens, gr_trigger_patterns = trigger_patterns\<rparr>) } }"

section \<open>Accepting\<close>

definition llama_grammar_accept_chr ::
  "llama_grammar_rules \<Rightarrow> llama_grammar_stack \<Rightarrow> int \<Rightarrow> llama_grammar_stacks \<Rightarrow> llama_grammar_stacks option" where
  "llama_grammar_accept_chr rules stack chr new_stacks = (case stack of [] \<Rightarrow> Some new_stacks
   | pos # below \<Rightarrow> do {
       e \<leftarrow> elem_at rules pos;
       if token_type (ge_type e) then Some new_stacks
       else do {
         (matches, pos') \<leftarrow> llama_grammar_match_char rules pos chr;
         if matches then do {
           new_stack \<leftarrow> push_pos rules pos' below;
           llama_grammar_advance_stack rules new_stack new_stacks }
         else Some new_stacks } })"

definition accept_stacks :: "llama_grammar_rules \<Rightarrow> int \<Rightarrow> llama_grammar_stacks \<Rightarrow> llama_grammar_stacks option" where
  "accept_stacks rules chr stacks = mfold (\<lambda>stack. llama_grammar_accept_chr rules stack chr) stacks []"

definition llama_grammar_accept :: "int \<Rightarrow> llama_grammar \<Rightarrow> llama_grammar option" where
  "llama_grammar_accept chr g = do {
     stacks_new \<leftarrow> accept_stacks (gr_rules g) chr (gr_stacks g);
     Some (g\<lparr>gr_stacks := stacks_new\<rparr>) }"

text \<open>\<open>False\<close> stands for the exception thrown when no stack is left.\<close>

definition llama_grammar_accept_str :: "string \<Rightarrow> llama_grammar \<Rightarrow> (bool \<times> llama_grammar) option" where
  "llama_grammar_accept_str piece g = do {
     let (code_points, partial') = decode_utf8 piece (gr_partial_utf8 g);
     g1 \<leftarrow> mfold llama_grammar_accept (butlast code_points) g;
     let g2 = g1\<lparr>gr_partial_utf8 := partial'\<rparr>;
     Some (gr_stacks g2 \<noteq> [], g2) }"

fun accept_code_points :: "llama_grammar_rules \<Rightarrow> int list \<Rightarrow> llama_grammar_stacks \<Rightarrow> llama_grammar_stacks option" where
  "accept_code_points rules [] current_stacks = Some current_stacks"
| "accept_code_points rules (c # cs) current_stacks = do {
     next_stacks \<leftarrow> accept_stacks rules c current_stacks;
     if next_stacks = [] then Some [] else accept_code_points rules cs next_stacks }"

definition accept_token_stack ::
  "llama_grammar_rules \<Rightarrow> llama_token \<Rightarrow> int list \<Rightarrow> llama_grammar_stack \<Rightarrow> llama_grammar_stacks \<Rightarrow> llama_grammar_stacks option" where
  "accept_token_stack rules token cps stack stacks_new = (case stack of [] \<Rightarrow> Some stacks_new
   | pos # below \<Rightarrow> do {
       e \<leftarrow> elem_at rules pos;
       if token_type (ge_type e) then do {
         m \<leftarrow> llama_grammar_match_token rules pos token;
         if m then do {
           new_stack \<leftarrow> push_pos rules (next_pos pos) below;
           llama_grammar_advance_stack rules new_stack stacks_new }
         else Some stacks_new }
       else do {
         current_stacks \<leftarrow> accept_code_points rules cps [stack];
         Some (fold add_stack current_stacks stacks_new) } })"

definition llama_grammar_accept_token :: "llama_token \<Rightarrow> string \<Rightarrow> llama_grammar \<Rightarrow> (bool \<times> llama_grammar) option" where
  "llama_grammar_accept_token token piece g = do {
     let (code_points, partial') = decode_utf8 piece (gr_partial_utf8 g);
     stacks_new \<leftarrow> mfold (accept_token_stack (gr_rules g) token (butlast code_points)) (gr_stacks g) [];
     let g' = g\<lparr>gr_stacks := stacks_new, gr_partial_utf8 := partial'\<rparr>;
     Some (stacks_new \<noteq> [], g') }"

section \<open>Triggers of lazy grammars\<close>

text \<open>The buffered tokens that overlap the match are replayed, the first one possibly cut. An exception ends the
  loop.\<close>

fun replay_tokens :: "nat \<Rightarrow> string \<Rightarrow> (llama_token \<times> nat \<times> nat) list \<Rightarrow> llama_grammar \<Rightarrow> (bool \<times> llama_grammar) option" where
  "replay_tokens start buffer [] g = Some (True, g)"
| "replay_tokens start buffer ((tok, tok_start, tok_end) # ps) g =
     (if tok_end \<le> start then replay_tokens start buffer ps g
      else do {
        let piece_start = (if tok_start < start then start else tok_start);
        require (piece_start \<le> length buffer);
        (ok, g') \<leftarrow> llama_grammar_accept_token tok (take (tok_end - piece_start) (drop piece_start buffer)) g;
        if ok then replay_tokens start buffer ps g' else Some (False, g') })"

fun find_trigger :: "(string \<Rightarrow> nat option) list \<Rightarrow> string \<Rightarrow> nat option" where
  "find_trigger [] buffer = None"
| "find_trigger (f # fs) buffer = (case f buffer of None \<Rightarrow> find_trigger fs buffer | Some i \<Rightarrow> Some i)"

definition buffer_token :: "llama_token \<Rightarrow> string \<Rightarrow> llama_grammar \<Rightarrow> llama_grammar" where
  "buffer_token token piece g =
     (let n = length (gr_trigger_buffer g)
      in g\<lparr>gr_trigger_buffer_positions := gr_trigger_buffer_positions g @ [(token, n, n + length piece)],
           gr_trigger_buffer := gr_trigger_buffer g @ piece\<rparr>)"

definition llama_grammar_accept_impl :: "vocab \<Rightarrow> llama_token \<Rightarrow> llama_grammar \<Rightarrow> (bool \<times> llama_grammar) option" where
  "llama_grammar_accept_impl voc token g =
     (let piece = token_to_piece voc token in
      if gr_awaiting_trigger g then
        (if token \<in> set (gr_trigger_tokens g) then
           llama_grammar_accept_token token piece (g\<lparr>gr_awaiting_trigger := False, gr_trigger_buffer := []\<rparr>)
         else
           (let g1 = buffer_token token piece g in
            case find_trigger (gr_trigger_patterns g) (gr_trigger_buffer g1) of
              None \<Rightarrow> Some (True, g1)
            | Some start \<Rightarrow> do {
                (ok, g2) \<leftarrow> replay_tokens start (gr_trigger_buffer g1) (gr_trigger_buffer_positions g1) (g1\<lparr>gr_awaiting_trigger := False\<rparr>);
                if \<not> ok then Some (False, g2)
                else do {
                  require (start \<le> length (gr_trigger_buffer g2));
                  Some (True, g2\<lparr>gr_trigger_buffer := [], gr_trigger_buffer_positions := []\<rparr>) } }))
      else if is_eog voc token then do {
        require ([] \<in> set (gr_stacks g));
        Some (True, g) }
      else llama_grammar_accept_token token piece g)"

section \<open>Rejecting candidates\<close>

text \<open>A candidate holds the array of its code points, with a terminating 0, and a position in it.\<close>

record llama_grammar_candidate =
  cd_index :: nat
  cd_code_points :: "int list"
  cd_off :: nat
  cd_partial_utf8 :: llama_partial_utf8
  cd_id :: llama_token

definition cd_chr :: "llama_grammar_candidate \<Rightarrow> int option" where
  "cd_chr tok = do { require (cd_off tok < length (cd_code_points tok)); Some (cd_code_points tok ! cd_off tok) }"

text \<open>A loop over the candidates that collects those for which \<open>P\<close> holds.\<close>

definition collect_rejects ::
  "(llama_grammar_candidate \<Rightarrow> int \<Rightarrow> bool option) \<Rightarrow> llama_grammar_candidate list \<Rightarrow> llama_grammar_candidate list option" where
  "collect_rejects P candidates = mfold (\<lambda>tok rejects. do {
     c \<leftarrow> cd_chr tok;
     b \<leftarrow> P tok c;
     Some (if b then rejects @ [tok] else rejects) }) candidates []"

definition split_candidates ::
  "llama_grammar_rules \<Rightarrow> grammar_pos \<Rightarrow> llama_grammar_candidate list \<Rightarrow>
   (llama_grammar_candidate list \<times> llama_grammar_candidate list) option" where
  "split_candidates rules stack_pos candidates = mfold (\<lambda>tok (rejects, next_candidates). do {
     c \<leftarrow> cd_chr tok;
     if c = 0 then do {
       ok \<leftarrow> (if pu_n_remain (cd_partial_utf8 tok) \<noteq> 0 then llama_grammar_match_partial_char rules stack_pos (cd_partial_utf8 tok)
              else Some True);
       Some (if ok then rejects else rejects @ [tok], next_candidates) }
     else do {
       (matches, _) \<leftarrow> llama_grammar_match_char rules stack_pos c;
       Some (if matches then (rejects, next_candidates @ [tok\<lparr>cd_off := cd_off tok + 1\<rparr>])
             else (rejects @ [tok], next_candidates)) } }) candidates ([], [])"

definition reject_with ::
  "(llama_grammar_stack \<Rightarrow> llama_grammar_candidate list \<Rightarrow> llama_grammar_candidate list option) \<Rightarrow>
   llama_grammar_stacks \<Rightarrow> llama_grammar_candidate list \<Rightarrow> llama_grammar_candidate list option" where
  "reject_with for_stack stacks candidates = do {
     require (stacks \<noteq> []);
     if candidates = [] then Some []
     else mfold for_stack stacks candidates }"

text \<open>Every level of the recursion consumes a code point of the candidates it passes on; the first argument
  bounds the levels.\<close>

primrec llama_grammar_reject_candidates_for_stack ::
  "nat \<Rightarrow> llama_grammar_rules \<Rightarrow> llama_grammar_stack \<Rightarrow> llama_grammar_candidate list \<Rightarrow> llama_grammar_candidate list option" where
  "llama_grammar_reject_candidates_for_stack 0 rules stack candidates = None"
| "llama_grammar_reject_candidates_for_stack (Suc n) rules stack candidates =
     (case stack of
        [] \<Rightarrow> collect_rejects (\<lambda>tok c. Some (c \<noteq> 0 \<or> pu_n_remain (cd_partial_utf8 tok) \<noteq> 0)) candidates
      | stack_pos # below \<Rightarrow> do {
          e \<leftarrow> elem_at rules stack_pos;
          if token_type (ge_type e) then
            collect_rejects (\<lambda>tok c. if c = 0 then Some (pu_n_remain (cd_partial_utf8 tok) \<noteq> 0)
              else do { m \<leftarrow> llama_grammar_match_token rules stack_pos (cd_id tok); Some (\<not> m) }) candidates
          else do {
            (rejects, next_candidates) \<leftarrow> split_candidates rules stack_pos candidates;
            (_, stack_pos_after) \<leftarrow> llama_grammar_match_char rules stack_pos 0;
            stack_after \<leftarrow> push_pos rules stack_pos_after below;
            next_stacks \<leftarrow> llama_grammar_advance_stack rules stack_after [];
            next_rejects \<leftarrow> reject_with (llama_grammar_reject_candidates_for_stack n rules) next_stacks next_candidates;
            Some (rejects @ map (\<lambda>tok. tok\<lparr>cd_off := cd_off tok - 1\<rparr>) next_rejects) } })"

definition llama_grammar_reject_candidates ::
  "nat \<Rightarrow> llama_grammar_rules \<Rightarrow> llama_grammar_stacks \<Rightarrow> llama_grammar_candidate list \<Rightarrow> llama_grammar_candidate list option" where
  "llama_grammar_reject_candidates n rules = reject_with (llama_grammar_reject_candidates_for_stack n rules)"

section \<open>Applying the grammar to the candidates\<close>

text \<open>The logit \<open>None\<close> is minus infinity.\<close>

record 'l llama_token_data =
  td_id :: llama_token
  td_logit :: "'l option"

definition mask_token :: "nat \<Rightarrow> 'l llama_token_data list \<Rightarrow> 'l llama_token_data list" where
  "mask_token i cur = cur[i := (cur ! i)\<lparr>td_logit := None\<rparr>]"

definition apply_candidate ::
  "vocab \<Rightarrow> llama_grammar \<Rightarrow> bool \<Rightarrow> nat \<Rightarrow> 'l llama_token_data list \<times> llama_grammar_candidate list \<Rightarrow>
   'l llama_token_data list \<times> llama_grammar_candidate list" where
  "apply_candidate voc g allow_eog i = (\<lambda>(cur, cands).
     let id' = td_id (cur ! i); piece = token_to_piece voc id' in
     if is_eog voc id' then (if allow_eog then cur else mask_token i cur, cands)
     else if piece = [] \<or> byte (piece ! 0) = 0 then (mask_token i cur, cands)
     else (let (code_points, partial') = decode_utf8 piece (gr_partial_utf8 g)
           in (cur, cands @ [\<lparr>cd_index = i, cd_code_points = code_points, cd_off = 0, cd_partial_utf8 = partial', cd_id = id'\<rparr>])))"

definition llama_grammar_apply_impl :: "vocab \<Rightarrow> llama_grammar \<Rightarrow> 'l llama_token_data list \<Rightarrow> 'l llama_token_data list option" where
  "llama_grammar_apply_impl voc g cur_p =
     (if gr_awaiting_trigger g then Some cur_p
      else do {
        let allow_eog = ([] \<in> set (gr_stacks g));
        let (cur, cands) = fold (apply_candidate voc g allow_eog) [0..<length cur_p] (cur_p, []);
        rejects \<leftarrow> llama_grammar_reject_candidates (Suc (sum_list (map (\<lambda>c. length (cd_code_points c)) cands)))
          (gr_rules g) (gr_stacks g) cands;
        Some (fold (\<lambda>r. mask_token (cd_index r)) rejects cur) })"

end
