(* ===== verification/Grammar_Lang.thy ===== *)
theory Grammar_Lang
  imports Grammar
begin

text \<open>
  What the stacks of the grammar engine mean. A well-formed grammar derives lists of code points from positions;
  the engine's stacks denote sets of such lists. Advancing a stack computes exactly the stacks with a terminal on
  top that are reachable by expanding rule references; it ends for grammars without left recursion. Accepting a
  code point takes the derivative of the language.
\<close>

section \<open>Well-formed rules\<close>

text \<open>The elements of a rule from some point on. The first argument says where in a character class this point
  is: 0 outside, 1 after a single character, 2 after a range.\<close>

fun wf_elems :: "nat \<Rightarrow> llama_grammar_element list \<Rightarrow> bool" where
  "wf_elems k [] = False"
| "wf_elems k (e # es) = (case ge_type e of
     GRE_END \<Rightarrow> es = [] \<and> ge_value e = 0
   | GRE_CHAR \<Rightarrow> wf_elems 1 es
   | GRE_CHAR_NOT \<Rightarrow> wf_elems 1 es
   | GRE_CHAR_RNG_UPPER \<Rightarrow> k = 1 \<and> wf_elems 2 es
   | GRE_CHAR_ALT \<Rightarrow> k \<noteq> 0 \<and> wf_elems 1 es
   | _ \<Rightarrow> wf_elems 0 es)"

definition refs_ok :: "nat \<Rightarrow> llama_grammar_rule \<Rightarrow> bool" where
  "refs_ok n rule \<longleftrightarrow> (\<forall>e \<in> set rule. ge_type e = GRE_RULE_REF \<longrightarrow> 0 \<le> ge_value e \<and> nat (ge_value e) < n)"

definition wf_rules :: "llama_grammar_rules \<Rightarrow> bool" where
  "wf_rules rules \<longleftrightarrow> (\<forall>rule \<in> set rules. wf_elems 0 rule \<and> refs_ok (length rules) rule)"

text \<open>Positions between items, where stacks and alternates can be.\<close>

definition item_pos :: "llama_grammar_rules \<Rightarrow> grammar_pos \<Rightarrow> bool" where
  "item_pos rules p \<longleftrightarrow> fst p < length rules \<and> wf_elems 0 (drop (snd p) (rules ! fst p))"

abbreviation elem :: "llama_grammar_rules \<Rightarrow> grammar_pos \<Rightarrow> llama_grammar_element" where
  "elem rules p \<equiv> rules ! fst p ! snd p"

abbreviation etype :: "llama_grammar_rules \<Rightarrow> grammar_pos \<Rightarrow> llama_gretype" where
  "etype rules p \<equiv> ge_type (elem rules p)"

definition valid_stack :: "llama_grammar_rules \<Rightarrow> llama_grammar_stack \<Rightarrow> bool" where
  "valid_stack rules s \<longleftrightarrow> (\<forall>p \<in> set s. item_pos rules p \<and> \<not> end_type (etype rules p))"

lemma wf_elems_not_Nil: "wf_elems k es \<Longrightarrow> es \<noteq> []"
  by auto

lemma item_pos_elem:
  assumes "item_pos rules p"
  shows "elem_at rules p = Some (elem rules p)" "drop (snd p) (rules ! fst p) = elem rules p # drop (Suc (snd p)) (rules ! fst p)"
    "snd p < length (rules ! fst p)" "fst p < length rules"
proof -
  have "drop (snd p) (rules ! fst p) \<noteq> []"
    using assms wf_elems_not_Nil unfolding item_pos_def by blast
  then show i: "snd p < length (rules ! fst p)"
    by simp
  then show "drop (snd p) (rules ! fst p) = elem rules p # drop (Suc (snd p)) (rules ! fst p)"
    by (simp add: Cons_nth_drop_Suc)
  show r: "fst p < length rules"
    using assms by (simp add: item_pos_def)
  show "elem_at rules p = Some (elem rules p)"
    using i r by (cases p) (simp add: elem_at_def)
qed

lemma is_end_item: "item_pos rules p \<Longrightarrow> llama_grammar_is_end_of_sequence rules p = Some (end_type (etype rules p))"
  by (simp add: llama_grammar_is_end_of_sequence_def item_pos_elem)

definition push :: "llama_grammar_rules \<Rightarrow> grammar_pos \<Rightarrow> llama_grammar_stack \<Rightarrow> llama_grammar_stack" where
  "push rules p s = (if end_type (etype rules p) then s else p # s)"

lemma push_pos_item: "item_pos rules p \<Longrightarrow> push_pos rules p s = Some (push rules p s)"
  by (simp add: push_pos_def is_end_item push_def)

lemma valid_push: "item_pos rules p \<Longrightarrow> valid_stack rules s \<Longrightarrow> valid_stack rules (push rules p s)"
  by (simp add: valid_stack_def push_def)

lemma item_pos_next:
  assumes "item_pos rules p" "etype rules p \<in> {GRE_RULE_REF, GRE_CHAR_ANY, GRE_TOKEN, GRE_TOKEN_NOT, GRE_ALT}"
  shows "item_pos rules (next_pos p)"
  using assms item_pos_elem(2) [OF assms(1)] by (auto simp: item_pos_def next_pos_def split: prod.splits)

lemma item_pos_types:
  assumes "item_pos rules p"
  shows "etype rules p \<noteq> GRE_CHAR_RNG_UPPER" "etype rules p \<noteq> GRE_CHAR_ALT"
  using assms item_pos_elem(2) [OF assms] by (auto simp: item_pos_def)

lemma rule_start_item: "wf_rules rules \<Longrightarrow> r < length rules \<Longrightarrow> item_pos rules (r, 0)"
  by (simp add: item_pos_def wf_rules_def)

text \<open>The starts of the alternates of a rule.\<close>

lemma alt_starts_ok:
  assumes "wf_elems k (drop i rule)"
  shows "\<exists>xs. alt_starts (drop i rule) i = Some xs \<and> (\<forall>x \<in> set xs. i < x \<and> wf_elems 0 (drop x rule))"
  using assms
proof (induction "length rule - i" arbitrary: i k)
  case 0
  then show ?case by simp
next
  case (Suc n)
  then have i: "i < length rule" "n = length rule - Suc i"
    by auto
  have d: "drop i rule = rule ! i # drop (Suc i) rule"
    using i(1) by (simp add: Cons_nth_drop_Suc)
  have IH: "wf_elems k' (drop (Suc i) rule) \<Longrightarrow>
      \<exists>xs. alt_starts (drop (Suc i) rule) (Suc i) = Some xs \<and> (\<forall>x \<in> set xs. Suc i < x \<and> wf_elems 0 (drop x rule))" for k'
    by (rule Suc.hyps(1) [OF i(2)])
  show ?case
  proof (cases "ge_type (rule ! i) = GRE_END")
    case False
    then have "\<exists>k'. wf_elems k' (drop (Suc i) rule)"
      using Suc.prems unfolding d by (auto split: llama_gretype.splits)
    then obtain xs where xs: "alt_starts (drop (Suc i) rule) (Suc i) = Some xs" "\<forall>x \<in> set xs. Suc i < x \<and> wf_elems 0 (drop x rule)"
      using IH by blast
    show ?thesis
      unfolding d using False xs Suc.prems [unfolded d] by (auto dest: Suc_lessD)
  qed (simp add: d)
qed

lemma rule_starts_ok:
  assumes "wf_rules rules" "r < length rules"
  shows "\<exists>starts. rule_starts rules r = Some starts \<and> (\<forall>i \<in> set starts. item_pos rules (r, i)) \<and> starts \<noteq> []"
proof -
  have "wf_elems 0 (drop 0 (rules ! r))"
    using assms by (simp add: wf_rules_def)
  from alt_starts_ok [OF this] obtain xs where xs: "alt_starts (rules ! r) 0 = Some xs" "\<forall>x \<in> set xs. wf_elems 0 (drop x (rules ! r))"
    by auto
  have "rule_starts rules r = Some (0 # xs)"
    using assms(2) xs(1) by (simp add: rule_starts_def)
  moreover have "\<forall>i \<in> set (0 # xs). item_pos rules (r, i)"
    using xs(2) assms by (auto simp: item_pos_def wf_rules_def)
  ultimately show ?thesis
    by blast
qed

lemma ref_target:
  assumes "wf_rules rules" "item_pos rules p" "etype rules p = GRE_RULE_REF"
  shows "nat (ge_value (elem rules p)) < length rules"
proof -
  have "elem rules p \<in> set (rules ! fst p)" "rules ! fst p \<in> set rules"
    using item_pos_elem(3,4) [OF assms(2)] by auto
  then show ?thesis
    using assms(1,3) by (auto simp: wf_rules_def refs_ok_def)
qed

section \<open>Character classes\<close>

text \<open>The ranges of the class that starts with the first element, and the number of its elements.\<close>

fun class_ranges :: "llama_grammar_element list \<Rightarrow> (int \<times> int) list" where
  "class_ranges (e # e1 # es) =
     (if ge_type e1 = GRE_CHAR_RNG_UPPER then
        (ge_value e, ge_value e1) # (if es \<noteq> [] \<and> ge_type (hd es) = GRE_CHAR_ALT then class_ranges es else [])
      else (ge_value e, ge_value e) # (if ge_type e1 = GRE_CHAR_ALT then class_ranges (e1 # es) else []))"
| "class_ranges _ = []"

fun class_len :: "llama_grammar_element list \<Rightarrow> nat" where
  "class_len (e # e1 # es) =
     (if ge_type e1 = GRE_CHAR_RNG_UPPER then 2 + (if es \<noteq> [] \<and> ge_type (hd es) = GRE_CHAR_ALT then class_len es else 0)
      else 1 + (if ge_type e1 = GRE_CHAR_ALT then class_len (e1 # es) else 0))"
| "class_len _ = 0"

definition in_ranges :: "int \<Rightarrow> (int \<times> int) list \<Rightarrow> bool" where
  "in_ranges c rs \<longleftrightarrow> (\<exists>(lo, hi) \<in> set rs. lo \<le> c \<and> c \<le> hi)"

lemma in_ranges_simps [simp]: "\<not> in_ranges c []" "in_ranges c ((lo, hi) # rs) \<longleftrightarrow> (lo \<le> c \<and> c \<le> hi) \<or> in_ranges c rs"
  by (auto simp: in_ranges_def)

definition char_type :: "llama_gretype \<Rightarrow> bool" where
  "char_type t \<longleftrightarrow> t = GRE_CHAR \<or> t = GRE_CHAR_NOT \<or> t = GRE_CHAR_ANY"

abbreviation elems_from :: "llama_grammar_rules \<Rightarrow> grammar_pos \<Rightarrow> llama_grammar_element list" where
  "elems_from rules p \<equiv> drop (snd p) (rules ! fst p)"

definition class_accepts :: "llama_grammar_rules \<Rightarrow> grammar_pos \<Rightarrow> int \<Rightarrow> bool" where
  "class_accepts rules p c \<longleftrightarrow> etype rules p = GRE_CHAR_ANY \<or>
     (in_ranges c (class_ranges (elems_from rules p)) \<longleftrightarrow> etype rules p = GRE_CHAR)"

definition after_class :: "llama_grammar_rules \<Rightarrow> grammar_pos \<Rightarrow> grammar_pos" where
  "after_class rules p = (fst p, snd p + (if etype rules p = GRE_CHAR_ANY then 1 else class_len (elems_from rules p)))"

lemma match_char_loop_eq:
  assumes "wf_elems 1 es" "ge_type e \<noteq> GRE_CHAR_ANY"
  shows "match_char_loop (e # es) c found k = Some (found \<or> in_ranges c (class_ranges (e # es)), k + class_len (e # es)) \<and>
    wf_elems 0 (drop (class_len (e # es)) (e # es))"
  using assms
proof (induction "length es" arbitrary: e es found k rule: less_induct)
  case less
  obtain e1 es1 where es: "es = e1 # es1"
    using less.prems(1) by (cases es) auto
  show ?case
  proof (cases "ge_type e1 = GRE_CHAR_RNG_UPPER")
    case True
    then have w2: "wf_elems 2 es1"
      using less.prems(1) es by simp
    then obtain e2 es2 where es1: "es1 = e2 # es2"
      by (cases es1) auto
    show ?thesis
    proof (cases "ge_type e2 = GRE_CHAR_ALT")
      case alt: True
      then have "wf_elems 1 es2" "ge_type e2 \<noteq> GRE_CHAR_ANY"
        using w2 es1 by auto
      from less.hyps [OF _ this] es es1 show ?thesis
        using True alt by (auto simp: Let_def)
    next
      case False
      then show ?thesis
        using True es es1 w2 by (auto simp: Let_def split: llama_gretype.splits)
    qed
  next
    case rng: False
    show ?thesis
    proof (cases "ge_type e1 = GRE_CHAR_ALT")
      case alt: True
      then have "wf_elems 1 es1" "ge_type e1 \<noteq> GRE_CHAR_ANY"
        using less.prems(1) es by auto
      from less.hyps [OF _ this] es show ?thesis
        using alt less.prems(2) by (auto simp: Let_def)
    next
      case False
      then show ?thesis
        using rng es less.prems by (auto simp: Let_def split: llama_gretype.splits)
    qed
  qed
qed

lemma match_char_item:
  assumes "item_pos rules p" "char_type (etype rules p)"
  shows "llama_grammar_match_char rules p c = Some (class_accepts rules p c, after_class rules p)" "item_pos rules (after_class rules p)"
proof -
  note e = item_pos_elem [OF assms(1)]
  have w: "wf_elems 0 (elem rules p # drop (Suc (snd p)) (rules ! fst p))"
    using assms(1) e(2) by (simp add: item_pos_def)
  show "llama_grammar_match_char rules p c = Some (class_accepts rules p c, after_class rules p)"
  proof (cases "etype rules p = GRE_CHAR_ANY")
    case True
    then obtain e1 es where es: "drop (Suc (snd p)) (rules ! fst p) = e1 # es" "wf_elems 0 (e1 # es)"
      using w by (cases "drop (Suc (snd p)) (rules ! fst p)") auto
    then have "ge_type e1 \<noteq> GRE_CHAR_RNG_UPPER" "ge_type e1 \<noteq> GRE_CHAR_ALT"
      by auto
    then show ?thesis
      unfolding llama_grammar_match_char_def e(1,2) es(1) using True
      by (simp add: positive_char_def class_accepts_def after_class_def)
  next
    case False
    then have "wf_elems 1 (drop (Suc (snd p)) (rules ! fst p))"
      using w assms(2) by (auto simp: char_type_def)
    from match_char_loop_eq [OF this False, of c False 0] show ?thesis
      unfolding llama_grammar_match_char_def e(1) using False assms(2) e(2)
      by (auto simp: positive_char_def class_accepts_def after_class_def char_type_def)
  qed
  show "item_pos rules (after_class rules p)"
  proof (cases "etype rules p = GRE_CHAR_ANY")
    case True
    then show ?thesis
      using item_pos_next [OF assms(1)] by (auto simp: after_class_def next_pos_def split: prod.splits)
  next
    case False
    then have "wf_elems 1 (drop (Suc (snd p)) (rules ! fst p))"
      using w assms(2) by (auto simp: char_type_def)
    from match_char_loop_eq [OF this False, of c False 0] show ?thesis
      using False e(4) unfolding e(2) [symmetric] by (simp add: item_pos_def after_class_def add.commute)
  qed
qed

section \<open>Expanding stacks\<close>

text \<open>The rule a reference names, and the starts of its alternates.\<close>

abbreviation target :: "llama_grammar_rules \<Rightarrow> grammar_pos \<Rightarrow> nat" where
  "target rules p \<equiv> nat (ge_value (elem rules p))"

definition alternates :: "llama_grammar_rules \<Rightarrow> nat \<Rightarrow> grammar_pos set" where
  "alternates rules r = (case rule_starts rules r of None \<Rightarrow> {} | Some starts \<Rightarrow> Pair r ` set starts)"

lemma alternates_ok:
  assumes "wf_rules rules" "r < length rules"
  shows "alternates rules r \<noteq> {}" "\<And>q. q \<in> alternates rules r \<Longrightarrow> item_pos rules q \<and> fst q = r"
proof -
  obtain starts where st: "rule_starts rules r = Some starts" "\<forall>i \<in> set starts. item_pos rules (r, i)" "starts \<noteq> []"
    using rule_starts_ok [OF assms] by blast
  then show "alternates rules r \<noteq> {}" "\<And>q. q \<in> alternates rules r \<Longrightarrow> item_pos rules q \<and> fst q = r"
    by (auto simp: alternates_def)
qed

inductive expands :: "llama_grammar_rules \<Rightarrow> llama_grammar_stack \<Rightarrow> llama_grammar_stack \<Rightarrow> bool" for rules where
  expand: "etype rules p = GRE_RULE_REF \<Longrightarrow> q \<in> alternates rules (target rules p) \<Longrightarrow>
     expands rules (p # s) (push rules q (push rules (next_pos p) s))"

inductive_simps expands_Nil [simp]: "expands rules [] t"
inductive_simps expands_Cons: "expands rules (p # s) t"

definition final :: "llama_grammar_rules \<Rightarrow> llama_grammar_stack \<Rightarrow> bool" where
  "final rules s \<longleftrightarrow> s = [] \<or> char_type (etype rules (hd s)) \<or> token_type (etype rules (hd s))"

lemma item_cases:
  assumes "item_pos rules p" "\<not> end_type (etype rules p)"
  obtains "etype rules p = GRE_RULE_REF" | "char_type (etype rules p)" | "token_type (etype rules p)"
  using assms item_pos_types [OF assms(1)] by (cases "etype rules p") (auto simp: char_type_def token_type_def end_type_def)

lemma valid_expands:
  assumes "wf_rules rules" "valid_stack rules s" "expands rules s t"
  shows "valid_stack rules t"
  using assms(3,2)
proof cases
  case (expand p q s')
  have p: "item_pos rules p" "valid_stack rules s'"
    using assms(2) expand(1) by (auto simp: valid_stack_def)
  have "item_pos rules q"
    using alternates_ok(2) [OF assms(1) ref_target [OF assms(1) p(1) expand(3)] expand(4)] by simp
  moreover have "item_pos rules (next_pos p)"
    by (rule item_pos_next [OF p(1)]) (simp add: expand(3))
  ultimately show ?thesis
    unfolding expand(2) by (intro valid_push p(2))
qed

lemma not_final_expands:
  assumes "wf_rules rules" "valid_stack rules s" "\<not> final rules s"
  shows "\<exists>t. expands rules s t"
proof -
  obtain p s' where s: "s = p # s'"
    using assms(3) by (cases s) (auto simp: final_def)
  have p: "item_pos rules p" "\<not> end_type (etype rules p)"
    using assms(2) s by (auto simp: valid_stack_def)
  have ref: "etype rules p = GRE_RULE_REF"
    using assms(3) s by (rule_tac item_cases [OF p]) (auto simp: final_def)
  then obtain q where "q \<in> alternates rules (target rules p)"
    using alternates_ok(1) [OF assms(1) ref_target [OF assms(1) p(1) ref]] by blast
  then show ?thesis
    using ref s by (blast intro: expands.intros)
qed

lemma final_not_expands: "final rules s \<Longrightarrow> \<not> expands rules s t"
  by (cases s) (auto simp: final_def expands_Cons char_type_def token_type_def)

text \<open>The loop body pushes exactly the expansions of the current stack.\<close>

lemma expand_ref_ok:
  assumes "wf_rules rules" "valid_stack rules (p # s)" "etype rules p = GRE_RULE_REF"
  shows "\<exists>xs. expand_ref rules p s (target rules p) todo = Some (xs @ todo) \<and> set xs = {t. expands rules (p # s) t}"
proof -
  have p: "item_pos rules p"
    using assms(2) by (simp add: valid_stack_def)
  have n: "item_pos rules (next_pos p)"
    using item_pos_next [OF p] assms(3) by simp
  obtain starts where st: "rule_starts rules (target rules p) = Some starts" "\<forall>i \<in> set starts. item_pos rules (target rules p, i)"
    using rule_starts_ok [OF assms(1) ref_target [OF assms(1) p assms(3)]] by blast
  let ?t = "\<lambda>i. push rules (target rules p, i) (push rules (next_pos p) s)"
  have "mfold (\<lambda>i todo. do { s1 \<leftarrow> push_pos rules (next_pos p) s; s2 \<leftarrow> push_pos rules (target rules p, i) s1; Some (s2 # todo) }) is todo =
      Some (rev (map ?t is) @ todo)" if "set is \<subseteq> set starts" for "is"
    using that
  proof (induction "is" arbitrary: todo)
    case (Cons i "is")
    have "item_pos rules (target rules p, i)"
      using Cons.prems st(2) by simp
    then show ?case
      using Cons n by (simp add: push_pos_item)
  qed simp
  from this [of starts] have "expand_ref rules p s (target rules p) todo = Some (rev (map ?t starts) @ todo)"
    using st(1) by (simp add: expand_ref_def)
  moreover have "set (rev (map ?t starts)) = {t. expands rules (p # s) t}"
    using assms(3) st(1) by (auto simp: expands_Cons alternates_def)
  ultimately show ?thesis
    by blast
qed

section \<open>Advancing is exact\<close>

definition reaches :: "llama_grammar_rules \<Rightarrow> llama_grammar_stack \<Rightarrow> llama_grammar_stack set" where
  "reaches rules s = {t. (expands rules)\<^sup>*\<^sup>* s t \<and> final rules t}"

text \<open>Invariant of the loop started with the stack \<open>s0\<close> and the results \<open>new0\<close>.\<close>

definition advance_inv :: "llama_grammar_rules \<Rightarrow> llama_grammar_stack \<Rightarrow> llama_grammar_stacks \<Rightarrow> advance_state \<Rightarrow> bool" where
  "advance_inv rules s0 new0 = (\<lambda>(todo, seen, new).
     (\<forall>s \<in> set seen. final rules s \<longrightarrow> s \<in> set new) \<and>
     (\<forall>s \<in> set seen. \<forall>t. expands rules s t \<longrightarrow> t \<in> set seen \<union> set todo) \<and>
     s0 \<in> set seen \<union> set todo \<and> set new0 \<subseteq> set new \<and>
     set new \<subseteq> set new0 \<union> reaches rules s0 \<and>
     (\<forall>s \<in> set todo. (expands rules)\<^sup>*\<^sup>* s0 s \<and> valid_stack rules s) \<and>
     (distinct new0 \<longrightarrow> distinct new))"

lemma advance_inv_done:
  assumes "advance_inv rules s0 new0 ([], seen, new)"
  shows "set new = set new0 \<union> reaches rules s0"
proof -
  have "t \<in> set seen" if "(expands rules)\<^sup>*\<^sup>* s0 t" for t
    using that assms by (induction rule: rtranclp_induct) (auto simp: advance_inv_def)
  then show ?thesis
    using assms by (auto simp: advance_inv_def reaches_def)
qed

lemma set_add_stack [simp]: "set (add_stack s new) = insert s (set new)" "distinct new \<Longrightarrow> distinct (add_stack s new)"
  by (auto simp: add_stack_def)

lemma advance_invD:
  assumes "advance_inv rules s0 new0 (todo, seen, new)"
  shows "s \<in> set seen \<Longrightarrow> final rules s \<Longrightarrow> s \<in> set new" "s \<in> set seen \<Longrightarrow> expands rules s t \<Longrightarrow> t \<in> set seen \<union> set todo"
    "s0 \<in> set seen \<union> set todo" "set new0 \<subseteq> set new" "set new \<subseteq> set new0 \<union> reaches rules s0"
    "s \<in> set todo \<Longrightarrow> (expands rules)\<^sup>*\<^sup>* s0 s \<and> valid_stack rules s" "distinct new0 \<Longrightarrow> distinct new"
  using assms unfolding advance_inv_def by simp_all

lemma advance_invI:
  assumes "\<And>s. s \<in> set seen \<Longrightarrow> final rules s \<Longrightarrow> s \<in> set new" "\<And>s t. s \<in> set seen \<Longrightarrow> expands rules s t \<Longrightarrow> t \<in> set seen \<union> set todo"
    "s0 \<in> set seen \<union> set todo" "set new0 \<subseteq> set new" "set new \<subseteq> set new0 \<union> reaches rules s0"
    "\<And>s. s \<in> set todo \<Longrightarrow> (expands rules)\<^sup>*\<^sup>* s0 s \<and> valid_stack rules s" "distinct new0 \<Longrightarrow> distinct new"
  shows "advance_inv rules s0 new0 (todo, seen, new)"
  using assms unfolding advance_inv_def by simp

lemma advance_inv_drop:
  assumes I: "advance_inv rules s0 new0 (cur # todo, seen, new)" and cur: "cur \<in> set seen"
  shows "advance_inv rules s0 new0 (todo, seen, new)"
proof (rule advance_invI)
  show "t \<in> set seen \<union> set todo" if "s \<in> set seen" "expands rules s t" for s t
    using advance_invD(2) [OF I that] cur by auto
  show "s0 \<in> set seen \<union> set todo"
    using advance_invD(3) [OF I] cur by auto
qed (use advance_invD [OF I] in simp_all)

lemma advance_inv_step:
  assumes I: "advance_inv rules s0 new0 (cur # todo, seen, new)"
    and xs: "\<forall>t \<in> set xs. (expands rules)\<^sup>*\<^sup>* s0 t \<and> valid_stack rules t" "\<forall>t. expands rules cur t \<longrightarrow> t \<in> set xs"
    and new': "set new \<subseteq> set new'" "set new' \<subseteq> set new \<union> reaches rules s0" "final rules cur \<longrightarrow> cur \<in> set new'"
      "distinct new \<longrightarrow> distinct new'"
  shows "advance_inv rules s0 new0 (xs @ todo, cur # seen, new')"
proof (rule advance_invI)
  show "s \<in> set new'" if "s \<in> set (cur # seen)" "final rules s" for s
    using that advance_invD(1) [OF I, of s] new'(1,3) by auto
  show "t \<in> set (cur # seen) \<union> set (xs @ todo)" if "s \<in> set (cur # seen)" "expands rules s t" for s t
    using that advance_invD(2) [OF I, of s t] xs(2) by auto
  show "s0 \<in> set (cur # seen) \<union> set (xs @ todo)"
    using advance_invD(3) [OF I] by auto
  show "set new0 \<subseteq> set new'"
    using advance_invD(4) [OF I] new'(1) by (rule subset_trans)
  show "set new' \<subseteq> set new0 \<union> reaches rules s0"
    using advance_invD(5) [OF I] new'(2) by blast
  show "(expands rules)\<^sup>*\<^sup>* s0 s \<and> valid_stack rules s" if "s \<in> set (xs @ todo)" for s
    using that advance_invD(6) [OF I, of s] xs(1) by auto
  show "distinct new'" if "distinct new0"
    using advance_invD(7) [OF I that] new'(4) by simp
qed

lemma advance_iter_ok:
  assumes wf: "wf_rules rules" and I: "advance_inv rules s0 new0 (cur # todo, seen, new)"
  shows "\<exists>xs seen' new'. advance_iter rules (cur # todo, seen, new) = Some (xs @ todo, seen', new') \<and>
    advance_inv rules s0 new0 (xs @ todo, seen', new') \<and> set xs \<subseteq> {t. expands rules cur t}"
proof (cases "cur \<in> set seen")
  case True
  then show ?thesis
    using advance_inv_drop [OF I] by (intro exI [of _ "[]"] exI [of _ seen] exI [of _ new]) (simp add: advance_iter_def)
next
  case False
  have cur: "(expands rules)\<^sup>*\<^sup>* s0 cur" "valid_stack rules cur"
    using advance_invD(6) [OF I, of cur] by auto
  show ?thesis
  proof (cases "final rules cur")
    case True
    have "advance_iter rules (cur # todo, seen, new) = Some (todo, cur # seen, add_stack cur new)"
    proof (cases cur)
      case (Cons p s)
      have "elem_at rules p = Some (elem rules p)"
        using cur(2) Cons item_pos_elem(1) [of rules p] by (simp add: valid_stack_def)
      then show ?thesis
        using False True Cons by (auto simp: advance_iter_def final_def char_type_def token_type_def)
    qed (use False in \<open>simp add: advance_iter_def\<close>)
    moreover have "cur \<in> reaches rules s0" "\<forall>t. \<not> expands rules cur t"
      using True cur(1) final_not_expands [OF True] by (simp_all add: reaches_def)
    then have "advance_inv rules s0 new0 (todo, cur # seen, add_stack cur new)"
      using advance_inv_step [OF I, of "[]" "add_stack cur new"] by auto
    ultimately show ?thesis
      by (intro exI [of _ "[]"] exI [of _ "cur # seen"] exI [of _ "add_stack cur new"]) simp
  next
    case nf: False
    then obtain p s where s: "cur = p # s" "etype rules p = GRE_RULE_REF"
      using not_final_expands [OF wf cur(2) nf] by (auto elim: expands.cases)
    obtain xs where xs: "expand_ref rules p s (target rules p) todo = Some (xs @ todo)" "set xs = {t. expands rules cur t}"
      using expand_ref_ok [OF wf _ s(2)] cur(2) s(1) by blast
    have "elem_at rules p = Some (elem rules p)"
      using cur(2) s item_pos_elem(1) [of rules p] by (simp add: valid_stack_def)
    then have "advance_iter rules (cur # todo, seen, new) = Some (xs @ todo, cur # seen, new)"
      using False s xs(1) by (simp add: advance_iter_def)
    moreover have "\<forall>t \<in> set xs. (expands rules)\<^sup>*\<^sup>* s0 t \<and> valid_stack rules t" "\<forall>t. expands rules cur t \<longrightarrow> t \<in> set xs"
      using xs(2) valid_expands [OF wf cur(2)] rtranclp.rtrancl_into_rtrancl [OF cur(1)] by auto
    then have "advance_inv rules s0 new0 (xs @ todo, cur # seen, new)"
      using advance_inv_step [OF I, of xs new] nf by simp
    ultimately show ?thesis
      using xs(2) by blast
  qed
qed

section \<open>Advancing ends\<close>

text \<open>There is no infinite chain of expansions from the stack.\<close>

abbreviation ends :: "llama_grammar_rules \<Rightarrow> llama_grammar_stack \<Rightarrow> bool" where
  "ends rules \<equiv> Wellfounded.accp (\<lambda>t s. expands rules s t)"

lemma ends_Nil: "ends rules []"
  by (rule accp.accI) simp

lemma ends_final: "final rules s \<Longrightarrow> ends rules s"
  by (rule accp.accI) (use final_not_expands in blast)

lemma push_append: "push rules p (s @ r) = push rules p s @ r"
  by (simp add: push_def)

lemma expands_append: "s \<noteq> [] \<Longrightarrow> expands rules (s @ r) t \<Longrightarrow> \<exists>t'. t = t' @ r \<and> expands rules s t'"
  by (cases s) (auto simp: expands_Cons push_append)

lemma ends_append:
  assumes "ends rules s" "(expands rules)\<^sup>*\<^sup>* s [] \<Longrightarrow> ends rules r"
  shows "ends rules (s @ r)"
  using assms
proof (induction rule: accp.induct)
  case (accI s)
  show ?case
  proof (cases "s = []")
    case True
    then show ?thesis
      using accI.prems by simp
  next
    case False
    show ?thesis
    proof (rule accp.accI)
      fix t assume "expands rules (s @ r) t"
      then obtain t' where t': "t = t' @ r" "expands rules s t'"
        using expands_append [OF False] by blast
      show "ends rules t"
        unfolding t'(1)
        using t'(2) by (intro accI.IH) (auto intro: accI.prems converse_rtranclp_into_rtranclp)
    qed
  qed
qed

text \<open>A rule is nullable if one of its alternates can be expanded away. Left recursion is relative to a notion of
  nullable rules: a reference is leftmost if only references to nullable rules stand before it.\<close>

definition nullable :: "llama_grammar_rules \<Rightarrow> nat \<Rightarrow> bool" where
  "nullable rules r \<longleftrightarrow> (\<exists>q \<in> alternates rules r. (expands rules)\<^sup>*\<^sup>* (push rules q []) [])"

inductive left_pos :: "(nat \<Rightarrow> bool) \<Rightarrow> llama_grammar_rules \<Rightarrow> grammar_pos \<Rightarrow> grammar_pos \<Rightarrow> bool" for N rules q where
  start: "left_pos N rules q q"
| skip: "left_pos N rules q p \<Longrightarrow> etype rules p = GRE_RULE_REF \<Longrightarrow> N (target rules p) \<Longrightarrow> left_pos N rules q (next_pos p)"

definition left_ref :: "(nat \<Rightarrow> bool) \<Rightarrow> llama_grammar_rules \<Rightarrow> nat \<Rightarrow> nat \<Rightarrow> bool" where
  "left_ref N rules b a \<longleftrightarrow> (\<exists>q \<in> alternates rules a. \<exists>p. left_pos N rules q p \<and> etype rules p = GRE_RULE_REF \<and> target rules p = b)"

definition left_recursion_free :: "(nat \<Rightarrow> bool) \<Rightarrow> llama_grammar_rules \<Rightarrow> bool" where
  "left_recursion_free N rules \<longleftrightarrow> (\<forall>r < length rules. Wellfounded.accp (left_ref N rules) r)"

lemma ends_ref:
  assumes "etype rules p = GRE_RULE_REF" "\<And>q. q \<in> alternates rules (target rules p) \<Longrightarrow> ends rules (push rules q [])"
    and "nullable rules (target rules p) \<Longrightarrow> ends rules (push rules (next_pos p) [])"
  shows "ends rules [p]"
proof (rule accp.accI)
  fix t assume "expands rules [p] t"
  then obtain q where "q \<in> alternates rules (target rules p)" "t = push rules q (push rules (next_pos p) [])"
    by (auto simp: expands_Cons)
  then have q: "q \<in> alternates rules (target rules p)" "t = push rules q [] @ push rules (next_pos p) []"
    using push_append [of rules q "[]" "push rules (next_pos p) []"] by simp_all
  show "ends rules t"
    unfolding q(2)
  proof (rule ends_append [OF assms(2) [OF q(1)]])
    assume "(expands rules)\<^sup>*\<^sup>* (push rules q []) []"
    then show "ends rules (push rules (next_pos p) [])"
      using q(1) assms(3) by (auto simp: nullable_def)
  qed
qed

lemma ends_item:
  assumes "item_pos rules p" "etype rules p = GRE_RULE_REF \<Longrightarrow> ends rules [p]"
  shows "ends rules (push rules p [])"
proof (cases "end_type (etype rules p)")
  case True
  then show ?thesis
    by (simp add: push_def ends_Nil)
next
  case False
  have "ends rules [p]"
    by (rule item_cases [OF assms(1) False]) (auto intro: assms(2) ends_final simp: final_def)
  then show ?thesis
    using False by (simp add: push_def)
qed

lemma alternates_end:
  assumes wf: "wf_rules rules" and lr: "Wellfounded.accp (left_ref (nullable rules) rules) r" and r: "r < length rules"
  shows "\<forall>q \<in> alternates rules r. ends rules (push rules q [])"
  using lr r
proof (induction rule: accp.induct)
  case (accI r)
  have "ends rules (push rules p [])" if "q \<in> alternates rules r" "left_pos (nullable rules) rules q p" "item_pos rules p" for q p
    using that(2,3)
  proof (induction "length (rules ! fst p) - snd p" arbitrary: p rule: less_induct)
    case less
    show ?case
    proof (rule ends_item [OF less.prems(2)])
      assume ref: "etype rules p = GRE_RULE_REF"
      have "left_ref (nullable rules) rules (target rules p) r"
        unfolding left_ref_def using less.prems(1) that(1) ref by blast
      from accI.IH [OF this ref_target [OF wf less.prems(2) ref]]
      have alts: "\<And>q. q \<in> alternates rules (target rules p) \<Longrightarrow> ends rules (push rules q [])"
        by blast
      show "ends rules [p]"
      proof (rule ends_ref [OF ref alts])
        assume "nullable rules (target rules p)"
        then show "ends rules (push rules (next_pos p) [])"
          using less.prems item_pos_elem(3) [OF less.prems(2)] ref left_pos.skip [OF less.prems(1) ref] item_pos_next [OF less.prems(2)]
          by (intro less.hyps) (auto simp: next_pos_def split: prod.splits)
      qed
    qed
  qed
  then show ?case
    using alternates_ok(2) [OF wf accI.prems] by (blast intro: left_pos.start)
qed

lemma stacks_end:
  assumes wf: "wf_rules rules" and lr: "left_recursion_free (nullable rules) rules" and s: "valid_stack rules s"
  shows "ends rules s"
proof -
  have item: "ends rules (push rules p [])" if "item_pos rules p" for p
    using that
  proof (induction "length (rules ! fst p) - snd p" arbitrary: p rule: less_induct)
    case less
    show ?case
    proof (rule ends_item [OF less.prems])
      assume ref: "etype rules p = GRE_RULE_REF"
      note t = ref_target [OF wf less.prems ref]
      have alts: "ends rules (push rules q [])" if "q \<in> alternates rules (target rules p)" for q
        using alternates_end [OF wf _ t] lr t that by (simp add: left_recursion_free_def)
      have "ends rules (push rules (next_pos p) [])"
        using ref item_pos_elem(3) [OF less.prems] item_pos_next [OF less.prems]
        by (intro less.hyps) (auto simp: next_pos_def split: prod.splits)
      then show "ends rules [p]"
        by (rule_tac ends_ref [OF ref alts])
    qed
  qed
  show ?thesis
    using s
  proof (induction s)
    case (Cons p s)
    then have "ends rules [p]" "ends rules s"
      using item [of p] by (auto simp: valid_stack_def push_def)
    then show ?case
      using ends_append [of rules "[p]" s] by simp
  qed (rule ends_Nil)
qed

lemma expansion_wf:
  assumes "wf_rules rules" "left_recursion_free (nullable rules) rules"
  shows "wf {(t, s). valid_stack rules s \<and> expands rules s t}"
proof -
  let ?r = "\<lambda>t s. valid_stack rules s \<and> expands rules s t"
  have "Wellfounded.accp ?r s" for s
  proof (cases "valid_stack rules s")
    case True
    have "?r \<le> (\<lambda>t s. expands rules s t)"
      by (intro predicate2I) simp
    from predicate1D [OF accp_subset [OF this] stacks_end [OF assms True]] show ?thesis .
  next
    case False
    then show ?thesis
      by (rule_tac accp.accI) simp
  qed
  then have "wfp ?r"
    by (intro accp_wfpI) blast
  then show ?thesis
    by (simp add: wfp_def)
qed

lemma advance_loop_ok:
  assumes wf: "wf_rules rules" and wfR: "wf {(t, s). valid_stack rules s \<and> expands rules s t}"
    and I: "advance_inv rules s0 new0 (todo, seen, new)"
  shows "\<exists>new'. advance_loop rules (todo, seen, new) = Some new' \<and> set new' = set new0 \<union> reaches rules s0 \<and>
    (distinct new0 \<longrightarrow> distinct new')"
  using I
proof (induction "mset todo" arbitrary: todo seen new rule: wf_induct_rule [OF wf_mult [OF wfR]])
  case 1
  show ?case
  proof (cases todo)
    case Nil
    then show ?thesis
      using "1.prems" advance_inv_done advance_invD(7) by (subst advance_loop.simps) auto
  next
    case (Cons cur todo')
    obtain xs seen' new' where it: "advance_iter rules (cur # todo', seen, new) = Some (xs @ todo', seen', new')"
      "advance_inv rules s0 new0 (xs @ todo', seen', new')" "set xs \<subseteq> {t. expands rules cur t}"
      using advance_iter_ok [OF wf "1.prems" [unfolded Cons]] by blast
    have "valid_stack rules cur"
      using advance_invD(6) [OF "1.prems" [unfolded Cons], of cur] by simp
    then have "(mset todo' + mset xs, mset todo' + {#cur#}) \<in> mult {(t, s). valid_stack rules s \<and> expands rules s t}"
      using it(3) by (intro one_step_implies_mult) auto
    then have "(mset (xs @ todo'), mset todo) \<in> mult {(t, s). valid_stack rules s \<and> expands rules s t}"
      using Cons by (simp add: add.commute)
    from "1.hyps" [OF this it(2)] show ?thesis
      using it(1) Cons by (subst advance_loop.simps) simp
  qed
qed

lemma advance_stack_ok:
  assumes "wf_rules rules" "left_recursion_free (nullable rules) rules" "valid_stack rules s"
  shows "\<exists>new'. llama_grammar_advance_stack rules s new = Some new' \<and> set new' = set new \<union> reaches rules s \<and>
    (distinct new \<longrightarrow> distinct new')"
proof -
  have "advance_inv rules s new ([s], [], new)"
    using assms(3) by (intro advance_invI) auto
  from advance_loop_ok [OF assms(1) expansion_wf [OF assms(1,2)] this] show ?thesis
    by (simp add: llama_grammar_advance_stack_def)
qed

lemma reaches_nonempty:
  assumes "wf_rules rules" "left_recursion_free (nullable rules) rules" "valid_stack rules s"
  shows "reaches rules s \<noteq> {}"
  using stacks_end [OF assms] assms(3)
proof (induction rule: accp.induct)
  case (accI s)
  show ?case
  proof (cases "final rules s")
    case True
    then show ?thesis
      by (auto simp: reaches_def)
  next
    case False
    then obtain t where t: "expands rules s t"
      using not_final_expands [OF assms(1) accI.prems] by blast
    from accI.IH [OF this valid_expands [OF assms(1) accI.prems this]] show ?thesis
      using t by (auto simp: reaches_def intro: converse_rtranclp_into_rtranclp)
  qed
qed

lemma reaches_valid:
  assumes "wf_rules rules" "valid_stack rules s" "t \<in> reaches rules s"
  shows "valid_stack rules t \<and> final rules t"
proof -
  have r: "(expands rules)\<^sup>*\<^sup>* s t" and fin: "final rules t"
    using assms(3) by (simp_all add: reaches_def)
  from r have "valid_stack rules t"
    using assms(2) by (induction rule: rtranclp_induct) (auto intro: valid_expands [OF assms(1)])
  then show ?thesis
    using fin by simp
qed

section \<open>The language of a stack\<close>

text \<open>The code points that the elements from a position to the end of its alternate derive. Tokens derive no code
  points.\<close>

inductive derives :: "llama_grammar_rules \<Rightarrow> grammar_pos \<Rightarrow> int list \<Rightarrow> bool" for rules where
  end_of_alternate: "end_type (etype rules p) \<Longrightarrow> derives rules p []"
| char_class: "char_type (etype rules p) \<Longrightarrow> class_accepts rules p c \<Longrightarrow> derives rules (after_class rules p) w \<Longrightarrow> derives rules p (c # w)"
| rule_ref: "etype rules p = GRE_RULE_REF \<Longrightarrow> q \<in> alternates rules (target rules p) \<Longrightarrow> derives rules q u \<Longrightarrow>
     derives rules (next_pos p) v \<Longrightarrow> derives rules p (u @ v)"

fun stack_lang :: "llama_grammar_rules \<Rightarrow> llama_grammar_stack \<Rightarrow> int list set" where
  "stack_lang rules [] = {[]}"
| "stack_lang rules (p # s) = {u @ v | u v. derives rules p u \<and> v \<in> stack_lang rules s}"

lemma derives_end: "end_type (etype rules p) \<Longrightarrow> derives rules p w \<longleftrightarrow> w = []"
  by (subst derives.simps) (auto simp: end_type_def char_type_def)

lemma derives_char:
  "char_type (etype rules p) \<Longrightarrow> derives rules p w \<longleftrightarrow> (\<exists>c v. w = c # v \<and> class_accepts rules p c \<and> derives rules (after_class rules p) v)"
  by (subst derives.simps) (auto simp: end_type_def char_type_def)

lemma derives_ref:
  "etype rules p = GRE_RULE_REF \<Longrightarrow> derives rules p w \<longleftrightarrow>
     (\<exists>q u v. w = u @ v \<and> q \<in> alternates rules (target rules p) \<and> derives rules q u \<and> derives rules (next_pos p) v)"
  by (subst derives.simps) (auto simp: end_type_def char_type_def)

lemma derives_token: "token_type (etype rules p) \<Longrightarrow> \<not> derives rules p w"
  by (subst derives.simps) (auto simp: end_type_def char_type_def token_type_def)

lemma stack_lang_push: "stack_lang rules (push rules p s) = {u @ v | u v. derives rules p u \<and> v \<in> stack_lang rules s}"
  by (auto simp: push_def derives_end)

lemma expands_lang: "expands rules s t \<Longrightarrow> stack_lang rules t \<subseteq> stack_lang rules s"
proof (induction rule: expands.induct)
  case (expand p q s)
  show ?case
  proof
    fix w assume "w \<in> stack_lang rules (push rules q (push rules (next_pos p) s))"
    then obtain u v x where "w = (u @ v) @ x" "derives rules q u" "derives rules (next_pos p) v" "x \<in> stack_lang rules s"
      by (auto simp: stack_lang_push)
    then show "w \<in> stack_lang rules (p # s)"
      using derives.rule_ref [OF expand] by (simp only: stack_lang.simps mem_Collect_eq) blast
  qed
qed

text \<open>Every derivation goes through a stack that the expansion reaches.\<close>

lemma lang_reached:
  assumes "derives rules p u" "v \<in> stack_lang rules s" "\<exists>t \<in> reaches rules s. v \<in> stack_lang rules t"
  shows "\<exists>t \<in> reaches rules (push rules p s). u @ v \<in> stack_lang rules t"
  using assms
proof (induction arbitrary: s v rule: derives.induct)
  case (end_of_alternate p)
  then show ?case by (simp add: push_def)
next
  case (char_class p c w)
  have "final rules (p # s)" "\<not> end_type (etype rules p)"
    using char_class.hyps(1) by (auto simp: final_def char_type_def end_type_def)
  then have reach: "p # s \<in> reaches rules (push rules p s)"
    by (simp add: push_def reaches_def)
  have "(c # w) @ v \<in> stack_lang rules (p # s)"
    using derives.char_class [OF char_class.hyps(1-3)] char_class.prems(1) by (simp only: stack_lang.simps mem_Collect_eq) blast
  with reach show ?case
    by blast
next
  case (rule_ref p q u1 u2)
  have "u2 @ v \<in> stack_lang rules (push rules (next_pos p) s)"
    using rule_ref.hyps(4) rule_ref.prems(1) unfolding stack_lang_push by blast
  moreover have "\<exists>t \<in> reaches rules (push rules (next_pos p) s). u2 @ v \<in> stack_lang rules t"
    using rule_ref.prems by (rule rule_ref.IH(2))
  ultimately obtain t where t: "t \<in> reaches rules (push rules q (push rules (next_pos p) s))" "u1 @ u2 @ v \<in> stack_lang rules t"
    using rule_ref.IH(1) by blast
  have "push rules p s = p # s"
    using rule_ref.hyps(1) by (simp add: push_def end_type_def)
  moreover have "expands rules (p # s) (push rules q (push rules (next_pos p) s))"
    using rule_ref.hyps(1,2) by (rule expand)
  ultimately have "t \<in> reaches rules (push rules p s)"
    using t(1) by (auto simp: reaches_def intro: converse_rtranclp_into_rtranclp)
  then show ?case
    using t(2) by auto
qed

lemma reaches_lang:
  assumes "valid_stack rules s"
  shows "stack_lang rules s = (\<Union>t \<in> reaches rules s. stack_lang rules t)"
proof
  show "stack_lang rules s \<subseteq> (\<Union>t \<in> reaches rules s. stack_lang rules t)"
    using assms
  proof (induction s)
    case Nil
    then show ?case
      by (auto simp: reaches_def final_def)
  next
    case (Cons p s)
    have p: "push rules p s = p # s" "valid_stack rules s"
      using Cons.prems by (auto simp: push_def valid_stack_def)
    show ?case
    proof
      fix w assume "w \<in> stack_lang rules (p # s)"
      then obtain u v where "w = u @ v" "derives rules p u" "v \<in> stack_lang rules s"
        by auto
      then show "w \<in> (\<Union>t \<in> reaches rules (p # s). stack_lang rules t)"
        using lang_reached [of rules p u v s] Cons.IH [OF p(2)] unfolding p(1) by auto
    qed
  qed
  have "stack_lang rules t \<subseteq> stack_lang rules s" if "(expands rules)\<^sup>*\<^sup>* s t" for t
    using that by (induction rule: rtranclp_induct) (use expands_lang in blast)+
  then show "(\<Union>t \<in> reaches rules s. stack_lang rules t) \<subseteq> stack_lang rules s"
    by (auto simp: reaches_def)
qed

section \<open>Accepting code points\<close>

definition engine_ok :: "llama_grammar_rules \<Rightarrow> bool" where
  "engine_ok rules \<longleftrightarrow> wf_rules rules \<and> left_recursion_free (nullable rules) rules"

definition good_stacks :: "llama_grammar_rules \<Rightarrow> llama_grammar_stacks \<Rightarrow> bool" where
  "good_stacks rules stacks \<longleftrightarrow> (\<forall>s \<in> set stacks. valid_stack rules s \<and> final rules s)"

definition stacks_lang :: "llama_grammar_rules \<Rightarrow> llama_grammar_stack set \<Rightarrow> int list set" where
  "stacks_lang rules S = (\<Union>s \<in> S. stack_lang rules s)"

text \<open>The stacks after one code point.\<close>

definition after_chr :: "llama_grammar_rules \<Rightarrow> int \<Rightarrow> llama_grammar_stack \<Rightarrow> llama_grammar_stack set" where
  "after_chr rules c s = (case s of [] \<Rightarrow> {} | p # below \<Rightarrow>
     if char_type (etype rules p) \<and> class_accepts rules p c then reaches rules (push rules (after_class rules p) below) else {})"

lemma valid_after_class:
  assumes "valid_stack rules (p # s)" "char_type (etype rules p)"
  shows "valid_stack rules (push rules (after_class rules p) s)" "item_pos rules p" "item_pos rules (after_class rules p)"
  using assms match_char_item(2) [of rules p] by (auto simp: valid_stack_def push_def)

lemma after_chr_good:
  assumes "wf_rules rules" "valid_stack rules s" "t \<in> after_chr rules c s"
  shows "valid_stack rules t \<and> final rules t"
proof -
  obtain p b where s: "s = p # b" "char_type (etype rules p)" "t \<in> reaches rules (push rules (after_class rules p) b)"
    using assms(3) by (auto simp: after_chr_def split: list.splits if_splits)
  show ?thesis
    using reaches_valid [OF assms(1) valid_after_class(1) s(3)] assms(2) s(1,2) by auto
qed

lemma after_chr_lang:
  assumes "valid_stack rules s" "final rules s"
  shows "stacks_lang rules (after_chr rules c s) = {w. c # w \<in> stack_lang rules s}"
proof (cases s)
  case Nil
  then show ?thesis
    by (simp add: after_chr_def stacks_lang_def)
next
  case (Cons p b)
  show ?thesis
  proof (cases "char_type (etype rules p)")
    case True
    have "{w. c # w \<in> stack_lang rules s} = (if class_accepts rules p c then stack_lang rules (push rules (after_class rules p) b) else {})"
      using derives_char [OF True] unfolding Cons stack_lang_push by (auto simp: Cons_eq_append_conv)
    then show ?thesis
      using reaches_lang [OF valid_after_class(1)] assms(1) True Cons by (auto simp: after_chr_def stacks_lang_def)
  next
    case False
    then have "token_type (etype rules p)"
      using assms(2) Cons by (auto simp: final_def)
    then show ?thesis
      using False Cons derives_token [of rules p] by (simp add: after_chr_def stacks_lang_def)
  qed
qed

lemma accept_chr_ok:
  assumes ok: "engine_ok rules" and s: "valid_stack rules s" "final rules s"
  shows "\<exists>new'. llama_grammar_accept_chr rules s c new = Some new' \<and> set new' = set new \<union> after_chr rules c s"
proof (cases s)
  case Nil
  then show ?thesis
    by (simp add: llama_grammar_accept_chr_def after_chr_def)
next
  case (Cons p b)
  have p: "item_pos rules p" "elem_at rules p = Some (elem rules p)"
    using s(1) Cons item_pos_elem(1) [of rules p] by (auto simp: valid_stack_def)
  show ?thesis
  proof (cases "char_type (etype rules p)")
    case True
    note v = valid_after_class [OF s(1) [unfolded Cons] True]
    obtain new' where "llama_grammar_advance_stack rules (push rules (after_class rules p) b) new = Some new'"
      "set new' = set new \<union> reaches rules (push rules (after_class rules p) b)"
      using advance_stack_ok [OF _ _ v(1)] ok unfolding engine_ok_def by blast
    then show ?thesis
      using True p(2) match_char_item(1) [OF v(2) True] push_pos_item [OF v(3)] Cons
      by (auto simp: llama_grammar_accept_chr_def after_chr_def char_type_def token_type_def)
  next
    case False
    then show ?thesis
      using p(2) Cons s(2) by (simp add: llama_grammar_accept_chr_def after_chr_def final_def)
  qed
qed

lemma accept_stacks_ok:
  assumes ok: "engine_ok rules" and g: "good_stacks rules stacks"
  shows "\<exists>new. accept_stacks rules c stacks = Some new \<and> set new = (\<Union>s \<in> set stacks. after_chr rules c s) \<and> good_stacks rules new"
proof -
  let ?I = "\<lambda>done new. set new = (\<Union>s \<in> set done. after_chr rules c s)"
  have "\<exists>new. accept_stacks rules c stacks = Some new \<and> ?I stacks new"
    unfolding accept_stacks_def
  proof (rule mfold_invariant)
    fix "done" s rest new
    assume split: "stacks = done @ s # rest" and I: "?I done new"
    then have "valid_stack rules s" "final rules s"
      using g by (auto simp: good_stacks_def)
    from accept_chr_ok [OF ok this, of c new] show "\<exists>new'. llama_grammar_accept_chr rules s c new = Some new' \<and> ?I (done @ [s]) new'"
      using I by auto
  qed simp
  then show ?thesis
    using g after_chr_good [of rules] ok unfolding good_stacks_def engine_ok_def by (metis (no_types, lifting) UN_E)
qed

lemma accept_stacks_lang:
  assumes "good_stacks rules stacks"
  shows "stacks_lang rules (\<Union>s \<in> set stacks. after_chr rules c s) = {w. c # w \<in> stacks_lang rules (set stacks)}"
  using assms after_chr_lang [of rules _ c] unfolding good_stacks_def stacks_lang_def by fastforce

lemma Nil_in_good_stacks:
  assumes "good_stacks rules stacks"
  shows "[] \<in> set stacks \<longleftrightarrow> [] \<in> stacks_lang rules (set stacks)"
proof
  assume "[] \<in> set stacks"
  moreover have "[] \<in> stack_lang rules []"
    by simp
  ultimately show "[] \<in> stacks_lang rules (set stacks)"
    unfolding stacks_lang_def by blast
next
  assume "[] \<in> stacks_lang rules (set stacks)"
  then obtain s where s: "s \<in> set stacks" "[] \<in> stack_lang rules s" "valid_stack rules s" "final rules s"
    using assms by (auto simp: stacks_lang_def good_stacks_def)
  show "[] \<in> set stacks"
  proof (cases s)
    case (Cons p b)
    then have "derives rules p []"
      using s(2) by auto
    then show ?thesis
      using s(4) Cons derives_char [of rules p "[]"] derives_token [of rules p] by (auto simp: final_def)
  qed (use s(1) in simp)
qed

text \<open>The code points \<open>cps\<close> accepted one by one.\<close>

lemma accept_all_ok:
  assumes ok: "engine_ok (gr_rules g)" and g: "good_stacks (gr_rules g) (gr_stacks g)"
  shows "\<exists>stacks. mfold llama_grammar_accept cps g = Some (g\<lparr>gr_stacks := stacks\<rparr>) \<and> good_stacks (gr_rules g) stacks \<and>
    stacks_lang (gr_rules g) (set stacks) = {w. cps @ w \<in> stacks_lang (gr_rules g) (set (gr_stacks g))}"
  using assms
proof (induction cps arbitrary: g)
  case Nil
  have "g\<lparr>gr_stacks := gr_stacks g\<rparr> = g"
    by simp
  then show ?case
    using Nil by (intro exI [of _ "gr_stacks g"]) simp
next
  case (Cons c cps)
  obtain new where new: "accept_stacks (gr_rules g) c (gr_stacks g) = Some new" "good_stacks (gr_rules g) new"
    "set new = (\<Union>s \<in> set (gr_stacks g). after_chr (gr_rules g) c s)"
    using accept_stacks_ok [OF Cons.prems, of c] by blast
  have lang: "stacks_lang (gr_rules g) (set new) = {w. c # w \<in> stacks_lang (gr_rules g) (set (gr_stacks g))}"
    unfolding new(3) by (rule accept_stacks_lang [OF Cons.prems(2)])
  from Cons.IH [of "g\<lparr>gr_stacks := new\<rparr>"] Cons.prems(1) new(2) obtain stacks where
    "mfold llama_grammar_accept cps (g\<lparr>gr_stacks := new\<rparr>) = Some (g\<lparr>gr_stacks := stacks\<rparr>)" "good_stacks (gr_rules g) stacks"
    "stacks_lang (gr_rules g) (set stacks) = {w. cps @ w \<in> stacks_lang (gr_rules g) (set new)}"
    by auto
  then show ?case
    using new(1) lang llama_grammar_accept_def [of c g] by (intro exI [of _ stacks]) simp
qed

section \<open>Detection of left recursion\<close>

text \<open>The check calls a rule empty if it has an alternate without elements.\<close>

abbreviation explicit_empty :: "llama_grammar_rules \<Rightarrow> nat \<Rightarrow> bool" where
  "explicit_empty rules r \<equiv> has_empty_alt (rules ! r) True"

text \<open>A state of the check: the vectors have their size, and the rules visited have no left recursion.\<close>

definition lr_ok :: "llama_grammar_rules \<Rightarrow> lr_state \<Rightarrow> bool" where
  "lr_ok rules st \<longleftrightarrow> length (lr_visited st) = length rules \<and> length (lr_in_progress st) = length rules \<and>
     length (lr_may_be_empty st) = length rules \<and>
     (\<forall>r < length rules. lr_visited st ! r \<longrightarrow> Wellfounded.accp (left_ref (explicit_empty rules) rules) r)"

definition lr_grows :: "lr_state \<Rightarrow> lr_state \<Rightarrow> bool" where
  "lr_grows st st' \<longleftrightarrow> length (lr_may_be_empty st') = length (lr_may_be_empty st) \<and>
     (\<forall>r < length (lr_may_be_empty st). lr_may_be_empty st ! r \<longrightarrow> lr_may_be_empty st' ! r)"

lemma lr_grows_refl: "lr_grows st st"
  by (simp add: lr_grows_def)

lemma lr_grows_trans: "lr_grows a b \<Longrightarrow> lr_grows b c \<Longrightarrow> lr_grows a c"
  by (auto simp: lr_grows_def)

text \<open>What the recursive call tells the loop over the elements.\<close>

definition detect_ok :: "llama_grammar_rules \<Rightarrow> (nat \<Rightarrow> lr_state \<Rightarrow> (bool \<times> lr_state) option) \<Rightarrow> bool" where
  "detect_ok rules detect \<longleftrightarrow> (\<forall>r st st'. detect r st = Some (False, st') \<longrightarrow> lr_ok rules st \<longrightarrow>
     r < length rules \<and> Wellfounded.accp (left_ref (explicit_empty rules) rules) r \<and> lr_ok rules st' \<and> lr_grows st st' \<and>
     (explicit_empty rules r \<longrightarrow> lr_may_be_empty st' ! r))"

definition left_index :: "llama_grammar_rules \<Rightarrow> nat \<Rightarrow> nat \<Rightarrow> bool" where
  "left_index rules r i \<longleftrightarrow> (\<exists>q \<in> alternates rules r. left_pos (explicit_empty rules) rules q (r, i))"

lemma alt_starts_after_ALT:
  assumes "alt_starts es i = Some xs" "x \<in> set xs"
  shows "i < x \<and> x - Suc i < length es \<and> ge_type (es ! (x - Suc i)) = GRE_ALT"
  using assms
proof (induction es arbitrary: i xs)
  case (Cons e es)
  show ?case
  proof (cases "ge_type e = GRE_ALT \<and> x = Suc i")
    case False
    then obtain ys where "alt_starts es (Suc i) = Some ys" "x \<in> set ys"
      using Cons.prems by (auto simp: bind_Some_iff split: if_splits)
    from Cons.IH [OF this] show ?thesis
      by (auto simp: nth_Cons' Suc_diff_Suc)
  qed simp
qed simp

lemma left_index_Suc:
  assumes "left_index rules r (Suc i)"
  shows "ge_type (rules ! r ! i) = GRE_ALT \<or>
    left_index rules r i \<and> ge_type (rules ! r ! i) = GRE_RULE_REF \<and> explicit_empty rules (nat (ge_value (rules ! r ! i)))"
proof -
  obtain q where q: "q \<in> alternates rules r" "left_pos (explicit_empty rules) rules q (r, Suc i)"
    using assms by (auto simp: left_index_def)
  from q(2) show ?thesis
  proof cases
    case start
    obtain xs where xs: "alt_starts (rules ! r) 0 = Some xs" "Suc i \<in> set (0 # xs)"
      using q(1) start by (auto simp: alternates_def rule_starts_def bind_Some_iff split: option.splits)
    from alt_starts_after_ALT [OF xs(1), of "Suc i"] xs(2) show ?thesis
      by simp
  next
    case (skip p)
    then have "p = (r, i)"
      by (cases p) (simp add: next_pos_def)
    then show ?thesis
      using skip q(1) by (auto simp: left_index_def)
  qed
qed

lemma lr_scan_ok:
  assumes d: "detect_ok rules detect" and scan: "lr_scan detect (drop i (rules ! r)) rec st = Some (False, st')"
    and ok: "lr_ok rules st" and left: "left_index rules r i \<longrightarrow> rec"
  shows "lr_ok rules st' \<and> lr_grows st st' \<and>
    (\<forall>j. i \<le> j \<longrightarrow> j < length (rules ! r) \<longrightarrow> left_index rules r j \<longrightarrow> ge_type (rules ! r ! j) = GRE_RULE_REF \<longrightarrow>
      Wellfounded.accp (left_ref (explicit_empty rules) rules) (nat (ge_value (rules ! r ! j))))"
  using scan ok left
proof (induction "length (rules ! r) - i" arbitrary: i rec st)
  case 0
  then show ?case
    by (simp add: lr_grows_refl)
next
  case (Suc n)
  let ?e = "rules ! r ! i" and ?acc = "Wellfounded.accp (left_ref (explicit_empty rules) rules)"
  have i: "i < length (rules ! r)" "n = length (rules ! r) - Suc i"
    using Suc.hyps(2) by auto
  have dr: "drop i (rules ! r) = ?e # drop (Suc i) (rules ! r)"
    using i(1) by (simp add: Cons_nth_drop_Suc)
  have rest: "lr_ok rules st' \<and> lr_grows st1 st' \<and> (\<forall>j. Suc i \<le> j \<longrightarrow> j < length (rules ! r) \<longrightarrow> left_index rules r j \<longrightarrow>
      ge_type (rules ! r ! j) = GRE_RULE_REF \<longrightarrow> ?acc (nat (ge_value (rules ! r ! j))))"
    if "lr_scan detect (drop (Suc i) (rules ! r)) rec' st1 = Some (False, st')" "lr_ok rules st1" "left_index rules r (Suc i) \<longrightarrow> rec'" for rec' st1
    by (rule Suc.hyps(1) [OF i(2) that])
  show ?case
  proof (cases "ge_type ?e = GRE_RULE_REF \<and> rec")
    case True
    then obtain st1 where st1: "detect (nat (ge_value ?e)) st = Some (False, st1)"
      "lr_scan detect (drop (Suc i) (rules ! r)) (lr_may_be_empty st1 ! nat (ge_value ?e)) st1 = Some (False, st')"
      using Suc.prems(1) unfolding dr by (auto simp: bind_Some_iff split: if_splits)
    have d1: "?acc (nat (ge_value ?e))" "lr_ok rules st1" "lr_grows st st1" "explicit_empty rules (nat (ge_value ?e)) \<longrightarrow> lr_may_be_empty st1 ! nat (ge_value ?e)"
      using d st1(1) Suc.prems(2) unfolding detect_ok_def by blast+
    have "left_index rules r (Suc i) \<longrightarrow> lr_may_be_empty st1 ! nat (ge_value ?e)"
      using left_index_Suc [of rules r i] True d1(4) by auto
    from rest [OF st1(2) d1(2) this] show ?thesis
      using d1(1) lr_grows_trans [OF d1(3)] by (metis le_antisym not_less_eq_eq)
  next
    case False
    then have scan1: "lr_scan detect (drop (Suc i) (rules ! r)) (end_type (ge_type ?e)) st = Some (False, st')"
      using Suc.prems(1) unfolding dr by auto
    have "left_index rules r (Suc i) \<longrightarrow> end_type (ge_type ?e)"
      using left_index_Suc [of rules r i] False Suc.prems(3) by (auto simp: end_type_def)
    from rest [OF scan1 Suc.prems(2) this] show ?thesis
      using False Suc.prems(3) by (metis le_antisym not_less_eq_eq)
  qed
qed

end
