(* ===== verification/Grammar_Init.thy ===== *)
theory Grammar_Init
  imports Grammar_Lang
begin

text \<open>
  Initialisation of a grammar: what the check for left recursion establishes, that it returns, and that a grammar it
  lets pass recognises exactly its language. The check takes a rule for empty only if the rule has an alternate
  without elements; where that is not the same as being nullable, the check lets left recursion pass.
\<close>

section \<open>Soundness of the check\<close>

lemma left_pos_item:
  assumes "wf_rules rules" "r < length rules" "q \<in> alternates rules r" "left_pos N rules q p"
  shows "item_pos rules p \<and> fst p = r"
  using assms(4)
proof (induction rule: left_pos.induct)
  case start
  then show ?case
    using alternates_ok(2) [OF assms(1-3)] .
next
  case (skip p)
  then show ?case
    using item_pos_next [of rules p] by (auto simp: next_pos_def split: prod.splits)
qed

lemma left_refs_acc:
  assumes wf: "wf_rules rules" and r: "r < length rules"
    and acc: "\<And>j. j < length (rules ! r) \<Longrightarrow> left_index rules r j \<Longrightarrow> ge_type (rules ! r ! j) = GRE_RULE_REF \<Longrightarrow>
      Wellfounded.accp (left_ref (explicit_empty rules) rules) (nat (ge_value (rules ! r ! j)))"
  shows "Wellfounded.accp (left_ref (explicit_empty rules) rules) r"
proof (rule accp.accI)
  fix b assume "left_ref (explicit_empty rules) rules b r"
  then obtain q p where q: "q \<in> alternates rules r" "left_pos (explicit_empty rules) rules q p" "etype rules p = GRE_RULE_REF" "target rules p = b"
    unfolding left_ref_def by blast
  have p: "item_pos rules p" "p = (r, snd p)"
    using left_pos_item [OF wf r q(1,2)] by (auto simp: prod_eq_iff)
  have "left_index rules r (snd p)"
    unfolding left_index_def using q(1,2) p(2) by metis
  from acc [OF _ this] show "Wellfounded.accp (left_ref (explicit_empty rules) rules) b"
    using item_pos_elem(3) [OF p(1)] q(3,4) p(2) by (metis fst_conv)
qed

lemma detect_sound:
  assumes wf: "wf_rules rules"
  shows "detect_ok rules (llama_grammar_detect_left_recursion n rules)"
proof (induction n)
  case 0
  then show ?case by (simp add: detect_ok_def)
next
  case (Suc n)
  show ?case
    unfolding detect_ok_def
  proof (intro allI impI)
    fix r st st'
    assume run: "llama_grammar_detect_left_recursion (Suc n) rules r st = Some (False, st')" and ok: "lr_ok rules st"
    let ?st1 = "st\<lparr>lr_in_progress := (lr_in_progress st)[r := True]\<rparr>"
    let ?st2 = "if explicit_empty rules r then ?st1\<lparr>lr_may_be_empty := (lr_may_be_empty ?st1)[r := True]\<rparr> else ?st1"
    obtain st3 where r: "r < length rules" "lr_scan (llama_grammar_detect_left_recursion n rules) (rules ! r) True ?st2 = Some (False, st3)"
      "st' = st3\<lparr>lr_in_progress := (lr_in_progress st3)[r := False], lr_visited := (lr_visited st3)[r := True]\<rparr>"
      using run by (auto simp: bind_Some_iff Let_def split: if_splits)
    have ok2: "lr_ok rules ?st2"
      using ok by (simp add: lr_ok_def)
    have s3: "lr_ok rules st3" "lr_grows ?st2 st3"
      "\<And>j. j < length (rules ! r) \<Longrightarrow> left_index rules r j \<Longrightarrow> ge_type (rules ! r ! j) = GRE_RULE_REF \<Longrightarrow>
        Wellfounded.accp (left_ref (explicit_empty rules) rules) (nat (ge_value (rules ! r ! j)))"
      using lr_scan_ok [OF Suc.IH, of 0 r True ?st2 st3] r(2) ok2 by auto
    have acc: "Wellfounded.accp (left_ref (explicit_empty rules) rules) r"
      by (rule left_refs_acc [OF wf r(1) s3(3)])
    have g: "lr_grows st ?st2"
      by (auto simp: lr_grows_def) (metis nth_list_update_eq nth_list_update_neq)
    have "explicit_empty rules r \<longrightarrow> lr_may_be_empty st3 ! r"
      using s3(2) r(1) ok by (auto simp: lr_grows_def lr_ok_def)
    moreover have "lr_ok rules st'"
      using s3(1) acc r(1) unfolding r(3) lr_ok_def by (simp add: nth_list_update)
    moreover have "lr_grows st st'"
      using lr_grows_trans [OF g s3(2)] unfolding r(3) by (simp add: lr_grows_def)
    ultimately show "r < length rules \<and> Wellfounded.accp (left_ref (explicit_empty rules) rules) r \<and> lr_ok rules st' \<and> lr_grows st st' \<and>
        (explicit_empty rules r \<longrightarrow> lr_may_be_empty st' ! r)"
      using r(1,3) acc by simp
  qed
qed

lemma check_sound:
  assumes wf: "wf_rules rules"
  shows "check_left_recursion rules is st = Some False \<Longrightarrow> lr_ok rules st \<Longrightarrow> set is \<subseteq> {..<length rules} \<Longrightarrow>
    \<forall>r \<in> set is. Wellfounded.accp (left_ref (explicit_empty rules) rules) r"
proof (induction "is" arbitrary: st)
  case (Cons i "is")
  show ?case
  proof (cases "lr_visited st ! i")
    case True
    then show ?thesis
      using Cons by (auto simp: lr_ok_def)
  next
    case False
    then obtain st' where st': "llama_grammar_detect_left_recursion (Suc (length rules)) rules i st = Some (False, st')"
      "check_left_recursion rules is st' = Some False"
      using Cons.prems(1) by (auto simp: bind_Some_iff simp del: llama_grammar_detect_left_recursion.simps split: if_splits)
    have "Wellfounded.accp (left_ref (explicit_empty rules) rules) i" "lr_ok rules st'"
      using detect_sound [OF wf, of "Suc (length rules)"] st'(1) Cons.prems(2) unfolding detect_ok_def by blast+
    then show ?thesis
      using Cons.IH [OF st'(2)] Cons.prems(3) by simp
  qed
qed simp

lemma lr_ok_init: "lr_ok rules (lr_init (length rules))"
  by (simp add: lr_ok_def lr_init_def)

lemma check_passes:
  assumes "wf_rules rules" "check_left_recursion rules [0..<length rules] (lr_init (length rules)) = Some False"
  shows "left_recursion_free (explicit_empty rules) rules"
  using check_sound [OF assms lr_ok_init] by (simp add: left_recursion_free_def lessThan_atLeast0)

section \<open>The check returns\<close>

definition lr_sizes :: "llama_grammar_rules \<Rightarrow> bool list \<Rightarrow> lr_state \<Rightarrow> bool" where
  "lr_sizes rules P st \<longleftrightarrow> length (lr_may_be_empty st) = length rules \<and> length P = length rules \<and> lr_in_progress st = P"

text \<open>The recursive call returns; if it finds nothing, it leaves the rules in progress as they were.\<close>

definition detect_returns :: "llama_grammar_rules \<Rightarrow> bool list \<Rightarrow> (bool \<times> lr_state) option \<Rightarrow> bool" where
  "detect_returns rules P res \<longleftrightarrow> (\<exists>b st'. res = Some (b, st') \<and> (\<not> b \<longrightarrow> lr_sizes rules P st'))"

lemma lr_scan_returns:
  assumes "\<And>r st. r < length rules \<Longrightarrow> lr_sizes rules P st \<Longrightarrow> detect_returns rules P (detect r st)"
    and "\<forall>e \<in> set es. ge_type e = GRE_RULE_REF \<longrightarrow> nat (ge_value e) < length rules"
    and "lr_sizes rules P st"
  shows "detect_returns rules P (lr_scan detect es rec st)"
  using assms(2,3)
proof (induction es arbitrary: rec st)
  case Nil
  then show ?case by (auto simp: detect_returns_def)
next
  case (Cons e es)
  show ?case
  proof (cases "ge_type e = GRE_RULE_REF \<and> rec")
    case True
    then have r: "nat (ge_value e) < length rules"
      using Cons.prems(1) by simp
    obtain b st1 where d: "detect (nat (ge_value e)) st = Some (b, st1)" "\<not> b \<longrightarrow> lr_sizes rules P st1"
      using assms(1) [OF r Cons.prems(2)] by (auto simp: detect_returns_def)
    show ?thesis
    proof (cases b)
      case True
      then show ?thesis
        using d \<open>ge_type e = GRE_RULE_REF \<and> rec\<close> by (auto simp: detect_returns_def)
    next
      case False
      then have "lr_sizes rules P st1" "nat (ge_value e) < length (lr_may_be_empty st1)"
        using d(2) r by (auto simp: lr_sizes_def)
      then show ?thesis
        using d(1) False True Cons.IH [of st1] Cons.prems(1) by simp
    qed
  next
    case False
    then show ?thesis
      using Cons by auto
  qed
qed

lemma detect_total:
  assumes wf: "wf_rules rules"
  shows "r < length rules \<Longrightarrow> lr_sizes rules P st \<Longrightarrow> card {i. i < length rules \<and> \<not> P ! i} < n \<Longrightarrow>
    detect_returns rules P (llama_grammar_detect_left_recursion n rules r st)"
proof (induction n arbitrary: r P st)
  case (Suc n)
  note sizes = Suc.prems(2) [unfolded lr_sizes_def]
  show ?case
  proof (cases "P ! r")
    case True
    then show ?thesis
      using Suc.prems(1) sizes by (auto simp: detect_returns_def)
  next
    case False
    let ?P = "P[r := True]"
    let ?st1 = "st\<lparr>lr_in_progress := ?P\<rparr>"
    let ?st2 = "if explicit_empty rules r then ?st1\<lparr>lr_may_be_empty := (lr_may_be_empty ?st1)[r := True]\<rparr> else ?st1"
    have sz: "lr_sizes rules ?P ?st2"
      using sizes by (simp add: lr_sizes_def)
    have "{i. i < length rules \<and> \<not> ?P ! i} = {i. i < length rules \<and> \<not> P ! i} - {r}"
      using sizes Suc.prems(1) by (auto simp: nth_list_update)
    moreover have "r \<in> {i. i < length rules \<and> \<not> P ! i}"
      using False Suc.prems(1) by simp
    ultimately have "card {i. i < length rules \<and> \<not> ?P ! i} < card {i. i < length rules \<and> \<not> P ! i}"
      by (metis card_Diff1_less finite_Collect_conjI finite_Collect_less_nat)
    then have "card {i. i < length rules \<and> \<not> ?P ! i} < n"
      using Suc.prems(3) by simp
    then have IH: "detect_returns rules ?P (llama_grammar_detect_left_recursion n rules r' st')"
      if "r' < length rules" "lr_sizes rules ?P st'" for r' st'
      by (rule Suc.IH [OF that])
    have "\<forall>e \<in> set (rules ! r). ge_type e = GRE_RULE_REF \<longrightarrow> nat (ge_value e) < length rules"
      using wf Suc.prems(1) by (auto simp: wf_rules_def refs_ok_def)
    then have "detect_returns rules ?P (lr_scan (llama_grammar_detect_left_recursion n rules) (rules ! r) True ?st2)"
      by (intro lr_scan_returns [OF _ _ sz] IH)
    then obtain b st3 where
      s3: "lr_scan (llama_grammar_detect_left_recursion n rules) (rules ! r) True ?st2 = Some (b, st3)" "\<not> b \<longrightarrow> lr_sizes rules ?P st3"
      unfolding detect_returns_def by blast
    have "P[r := False] = P"
      using False by (simp add: list_update_same_conv Suc.prems(1) sizes)
    then show ?thesis
      using s3 sizes False Suc.prems(1) by (auto simp: detect_returns_def lr_sizes_def Let_def)
  qed
qed simp

lemma check_total:
  assumes wf: "wf_rules rules"
  shows "set is \<subseteq> {..<length rules} \<Longrightarrow> lr_sizes rules P st \<Longrightarrow> \<exists>b. check_left_recursion rules is st = Some b"
proof (induction "is" arbitrary: st)
  case (Cons i "is")
  show ?case
  proof (cases "lr_visited st ! i")
    case False
    have "card {j. j < length rules \<and> \<not> P ! j} \<le> card {..<length rules}"
      by (intro card_mono) auto
    then have "card {j. j < length rules \<and> \<not> P ! j} < Suc (length rules)"
      by simp
    moreover have "i < length rules"
      using Cons.prems(1) by simp
    ultimately obtain b st' where "llama_grammar_detect_left_recursion (Suc (length rules)) rules i st = Some (b, st')" "\<not> b \<longrightarrow> lr_sizes rules P st'"
      using detect_total [OF wf _ Cons.prems(2)] unfolding detect_returns_def by blast
    then show ?thesis
      using False Cons.IH [of st'] Cons.prems(1) by (cases b) (auto simp del: llama_grammar_detect_left_recursion.simps)
  qed (use Cons in auto)
qed auto

section \<open>Initial stacks\<close>

lemma copy_rule_id: "wf_elems k rule \<Longrightarrow> copy_rule rule = Some rule"
proof (induction rule arbitrary: k)
  case (Cons e es)
  show ?case
  proof (cases "ge_type e = GRE_END")
    case True
    then show ?thesis
      using Cons.prems by (cases e) auto
  next
    case False
    then obtain k' where "wf_elems k' es"
      using Cons.prems by (auto split: llama_gretype.splits)
    then show ?thesis
      using False Cons.IH by simp
  qed
qed simp

lemma copy_rules_id: "wf_rules rules \<Longrightarrow> copy_rules rules = Some rules"
proof -
  have "mfold (\<lambda>r out. do { r' \<leftarrow> copy_rule r; Some (out @ [r']) }) rs out = Some (out @ rs)" if "\<forall>r \<in> set rs. wf_elems 0 r" for rs out
    using that by (induction rs arbitrary: out) (auto simp: copy_rule_id)
  then show "wf_rules rules \<Longrightarrow> copy_rules rules = Some rules"
    by (simp add: copy_rules_def wf_rules_def)
qed

text \<open>The language of a rule.\<close>

definition rule_lang :: "llama_grammar_rules \<Rightarrow> nat \<Rightarrow> int list set" where
  "rule_lang rules r = {w. \<exists>q \<in> alternates rules r. derives rules q w}"

lemma init_stacks_ok:
  assumes ok: "engine_ok rules" and r: "r < length rules"
  shows "\<exists>stacks. init_stacks rules r = Some stacks \<and> good_stacks rules stacks \<and> stacks_lang rules (set stacks) = rule_lang rules r \<and> stacks \<noteq> []"
proof -
  have wf: "wf_rules rules" and lr: "left_recursion_free (nullable rules) rules"
    using ok by (simp_all add: engine_ok_def)
  obtain starts where st: "rule_starts rules r = Some starts" "\<forall>i \<in> set starts. item_pos rules (r, i)" "starts \<noteq> []"
    using rule_starts_ok [OF wf r] by blast
  let ?body = "\<lambda>i stacks. do { s \<leftarrow> push_pos rules (r, i) []; llama_grammar_advance_stack rules s stacks }"
  let ?S = "\<lambda>i. reaches rules (push rules (r, i) [])"
  have v: "valid_stack rules (push rules (r, i) [])" if "i \<in> set starts" for i
    using st(2) that by (intro valid_push) (auto simp: valid_stack_def)
  let ?I = "\<lambda>done stacks. set stacks = (\<Union>i \<in> set done. ?S i)"
  have "\<exists>stacks. mfold ?body starts [] = Some stacks \<and> ?I starts stacks"
  proof (rule mfold_invariant)
    fix "done" i rest stacks
    assume split: "starts = done @ i # rest" and I: "?I done stacks"
    then have i: "i \<in> set starts"
      by simp
    obtain stacks' where "llama_grammar_advance_stack rules (push rules (r, i) []) stacks = Some stacks'" "set stacks' = set stacks \<union> ?S i"
      using advance_stack_ok [OF wf lr v [OF i]] by blast
    then show "\<exists>stacks'. ?body i stacks = Some stacks' \<and> ?I (done @ [i]) stacks'"
      using st(2) i I by (auto simp: push_pos_item)
  qed simp
  then obtain stacks where s: "init_stacks rules r = Some stacks" "set stacks = (\<Union>i \<in> set starts. ?S i)"
    using st(1) by (auto simp: init_stacks_def)
  have "good_stacks rules stacks"
    using s(2) reaches_valid [OF wf v] by (auto simp: good_stacks_def)
  moreover have "stacks_lang rules (set stacks) = rule_lang rules r"
  proof -
    have "stacks_lang rules (set stacks) = (\<Union>i \<in> set starts. stack_lang rules (push rules (r, i) []))"
      unfolding s(2) stacks_lang_def using reaches_lang [OF v] by auto
    also have "\<dots> = rule_lang rules r"
      using st(1) by (auto simp: rule_lang_def stack_lang_push alternates_def)
    finally show ?thesis .
  qed
  moreover have "stacks \<noteq> []"
    using s(2) st(3) reaches_nonempty [OF wf lr v] by fastforce
  ultimately show ?thesis
    using s(1) by blast
qed

section \<open>Completeness of the check\<close>

text \<open>Flags are only set for rules with an empty alternate.\<close>

definition flags_sound :: "llama_grammar_rules \<Rightarrow> lr_state \<Rightarrow> bool" where
  "flags_sound rules st \<longleftrightarrow> length (lr_may_be_empty st) = length rules \<and> (\<forall>r < length rules. lr_may_be_empty st ! r \<longrightarrow> explicit_empty rules r)"

abbreviation left_path :: "llama_grammar_rules \<Rightarrow> nat \<Rightarrow> nat \<Rightarrow> bool" where
  "left_path rules a b \<equiv> (\<lambda>a b. left_ref (explicit_empty rules) rules b a)\<^sup>*\<^sup>* a b"

definition left_cycle :: "llama_grammar_rules \<Rightarrow> bool" where
  "left_cycle rules \<longleftrightarrow> (\<exists>a b. a < length rules \<and> left_ref (explicit_empty rules) rules b a \<and> left_path rules b a)"

text \<open>A positive answer has a reason: a rule in progress or a cycle can be reached.\<close>

definition detect_reason :: "llama_grammar_rules \<Rightarrow> bool list \<Rightarrow> nat \<Rightarrow> (bool \<times> lr_state) option \<Rightarrow> bool" where
  "detect_reason rules P r res \<longleftrightarrow> (\<forall>b st'. res = Some (b, st') \<longrightarrow>
     (if b then (\<exists>x < length rules. P ! x \<and> left_path rules r x) \<or> left_cycle rules
      else lr_sizes rules P st' \<and> flags_sound rules st'))"

lemma left_index_skip:
  assumes "left_index rules r i" "ge_type (rules ! r ! i) = GRE_RULE_REF" "explicit_empty rules (nat (ge_value (rules ! r ! i)))"
  shows "left_index rules r (Suc i)"
proof -
  obtain q where "q \<in> alternates rules r" "left_pos (explicit_empty rules) rules q (r, i)"
    using assms(1) by (auto simp: left_index_def)
  moreover from this(2) have "left_pos (explicit_empty rules) rules q (next_pos (r, i))"
    using assms(2,3) by (intro left_pos.skip) simp_all
  ultimately show ?thesis
    by (auto simp: left_index_def next_pos_def)
qed

lemma alt_starts_mem:
  assumes "alt_starts es i = Some xs" "j < length es" "ge_type (es ! j) = GRE_ALT" "\<forall>k < j. ge_type (es ! k) \<noteq> GRE_END"
  shows "Suc (i + j) \<in> set xs"
  using assms
proof (induction es arbitrary: i j xs)
  case (Cons e es)
  show ?case
  proof (cases j)
    case 0
    then show ?thesis
      using Cons.prems by (auto simp: bind_Some_iff)
  next
    case (Suc j')
    have ne: "ge_type e \<noteq> GRE_END"
      using Cons.prems(4) Suc by auto
    then have "\<exists>ys. alt_starts es (Suc i) = Some ys \<and> set ys \<subseteq> set xs"
      using Cons.prems(1) by (auto simp: bind_Some_iff split: if_splits)
    then obtain ys where ys: "alt_starts es (Suc i) = Some ys" "set ys \<subseteq> set xs"
      by blast
    have "\<forall>k < j'. ge_type (es ! k) \<noteq> GRE_END"
      using Cons.prems(4) Suc by (metis Suc_less_eq nth_Cons_Suc)
    from Cons.IH [OF ys(1) _ _ this] show ?thesis
      using Cons.prems(2,3) Suc ys(2) by auto
  qed
qed simp

lemma wf_elems_END:
  assumes "wf_elems k rule" "j < length rule" "ge_type (rule ! j) = GRE_END"
  shows "Suc j = length rule"
  using assms
proof (induction rule arbitrary: k j)
  case (Cons e es)
  show ?case
  proof (cases j)
    case 0
    then show ?thesis
      using Cons.prems by auto
  next
    case (Suc j')
    then have "ge_type e \<noteq> GRE_END"
      using Cons.prems(1,2) by auto
    then obtain k' where "wf_elems k' es"
      using Cons.prems(1) by (auto split: llama_gretype.splits)
    then show ?thesis
      using Cons.IH Cons.prems(2,3) Suc by simp
  qed
qed simp

lemma left_index_start:
  assumes "wf_rules rules" "r < length rules" "Suc i < length (rules ! r)" "end_type (ge_type (rules ! r ! i))"
  shows "left_index rules r (Suc i)"
proof -
  have wf: "wf_elems 0 (rules ! r)"
    using assms(1,2) by (simp add: wf_rules_def)
  have no_end: "ge_type (rules ! r ! k) \<noteq> GRE_END" if "k \<le> i" for k
    using wf_elems_END [OF wf, of k] that assms(3) by auto
  obtain starts where st: "rule_starts rules r = Some starts"
    using rule_starts_ok [OF assms(1,2)] by blast
  then obtain xs where xs: "alt_starts (rules ! r) 0 = Some xs" "starts = 0 # xs"
    by (auto simp: rule_starts_def bind_Some_iff)
  have "Suc (0 + i) \<in> set xs"
    using alt_starts_mem [OF xs(1), of i] assms(3,4) no_end by (auto simp: end_type_def)
  then have "(r, Suc i) \<in> alternates rules r"
    using st xs(2) by (simp add: alternates_def)
  then show ?thesis
    unfolding left_index_def by (blast intro: left_pos.start)
qed

lemma lr_scan_reason:
  assumes wf: "wf_rules rules" "r < length rules"
    and d: "\<And>b st. b < length rules \<Longrightarrow> lr_sizes rules P st \<Longrightarrow> flags_sound rules st \<Longrightarrow> detect_reason rules P b (detect b st)"
    and st: "lr_sizes rules P st" "flags_sound rules st" and left: "rec \<Longrightarrow> i < length (rules ! r) \<Longrightarrow> left_index rules r i"
  shows "\<forall>b st'. lr_scan detect (drop i (rules ! r)) rec st = Some (b, st') \<longrightarrow>
    (if b then (\<exists>x < length rules. P ! x \<and> (\<exists>c. left_ref (explicit_empty rules) rules c r \<and> left_path rules c x)) \<or> left_cycle rules
     else lr_sizes rules P st' \<and> flags_sound rules st')"
  using st left
proof (induction "length (rules ! r) - i" arbitrary: i rec st)
  case 0
  then show ?case by simp
next
  case (Suc n)
  let ?e = "rules ! r ! i"
  have i: "i < length (rules ! r)" "n = length (rules ! r) - Suc i"
    using Suc.hyps(2) by auto
  have dr: "drop i (rules ! r) = ?e # drop (Suc i) (rules ! r)"
    using i(1) by (simp add: Cons_nth_drop_Suc)
  note IH = Suc.hyps(1) [OF i(2)]
  show ?case
  proof (cases "ge_type ?e = GRE_RULE_REF \<and> rec")
    case True
    let ?c = "nat (ge_value ?e)"
    have "?e \<in> set (rules ! r)" "rules ! r \<in> set rules"
      using wf(2) i(1) by auto
    then have c: "?c < length rules"
      using wf(1) True by (auto simp: wf_rules_def refs_ok_def)
    have li: "left_index rules r i"
      using Suc.prems(3) True i(1) by simp
    then obtain q where q: "q \<in> alternates rules r" "left_pos (explicit_empty rules) rules q (r, i)"
      by (auto simp: left_index_def)
    have lr: "left_ref (explicit_empty rules) rules ?c r"
      unfolding left_ref_def by (rule bexI [OF _ q(1)], rule exI [of _ "(r, i)"]) (use q(2) True in simp)
    have reason: "detect_reason rules P ?c (detect ?c st)"
      by (rule d [OF c Suc.prems(1,2)])
    show ?thesis
    proof (intro allI impI)
      fix b st' assume scan: "lr_scan detect (drop i (rules ! r)) rec st = Some (b, st')"
      then obtain f st1 where f: "detect ?c st = Some (f, st1)"
        using True unfolding dr by (auto simp: bind_Some_iff)
      show "if b then (\<exists>x < length rules. P ! x \<and> (\<exists>c. left_ref (explicit_empty rules) rules c r \<and> left_path rules c x)) \<or> left_cycle rules
        else lr_sizes rules P st' \<and> flags_sound rules st'"
      proof (cases f)
        case t: True
        then have "b" "(\<exists>x < length rules. P ! x \<and> left_path rules ?c x) \<or> left_cycle rules"
          using scan f True reason unfolding dr detect_reason_def by auto
        then show ?thesis
          using lr by auto
      next
        case False
        have s1: "lr_sizes rules P st1" "flags_sound rules st1"
          using reason f False by (auto simp: detect_reason_def)
        have "lr_scan detect (drop (Suc i) (rules ! r)) (lr_may_be_empty st1 ! ?c) st1 = Some (b, st')"
          using scan f False True unfolding dr by (auto simp: bind_Some_iff)
        moreover have "lr_may_be_empty st1 ! ?c \<Longrightarrow> left_index rules r (Suc i)"
          using left_index_skip [OF li] True s1(2) c by (auto simp: flags_sound_def)
        ultimately show ?thesis
          using IH [OF s1] by blast
      qed
    qed
  next
    case False
    have "end_type (ge_type ?e) \<Longrightarrow> Suc i < length (rules ! r) \<Longrightarrow> left_index rules r (Suc i)"
      by (rule left_index_start [OF wf])
    then show ?thesis
      using IH [OF Suc.prems(1,2), of "end_type (ge_type ?e)"] False unfolding dr by auto
  qed
qed

lemma detect_complete:
  assumes wf: "wf_rules rules"
  shows "r < length rules \<Longrightarrow> lr_sizes rules P st \<Longrightarrow> flags_sound rules st \<Longrightarrow>
    detect_reason rules P r (llama_grammar_detect_left_recursion n rules r st)"
proof (induction n arbitrary: r P st)
  case 0
  then show ?case by (simp add: detect_reason_def)
next
  case (Suc n)
  note sizes = Suc.prems(2) [unfolded lr_sizes_def]
  show ?case
  proof (cases "P ! r")
    case True
    then show ?thesis
      using Suc.prems(1) sizes by (auto simp: detect_reason_def)
  next
    case False
    let ?P = "P[r := True]"
    let ?st1 = "st\<lparr>lr_in_progress := ?P\<rparr>"
    let ?st2 = "if explicit_empty rules r then ?st1\<lparr>lr_may_be_empty := (lr_may_be_empty ?st1)[r := True]\<rparr> else ?st1"
    have st2: "lr_sizes rules ?P ?st2" "flags_sound rules ?st2"
      using sizes Suc.prems(1,3) by (auto simp: lr_sizes_def flags_sound_def nth_list_update)
    have li: "left_index rules r 0"
    proof -
      have "(r, 0) \<in> alternates rules r"
        using rule_starts_ok [OF wf Suc.prems(1)] by (auto simp: alternates_def rule_starts_def bind_Some_iff)
      then show ?thesis
        unfolding left_index_def by (blast intro: left_pos.start)
    qed
    have scan: "\<forall>b st'. lr_scan (llama_grammar_detect_left_recursion n rules) (drop 0 (rules ! r)) True ?st2 = Some (b, st') \<longrightarrow>
      (if b then (\<exists>x < length rules. ?P ! x \<and> (\<exists>c. left_ref (explicit_empty rules) rules c r \<and> left_path rules c x)) \<or> left_cycle rules
       else lr_sizes rules ?P st' \<and> flags_sound rules st')"
      by (rule lr_scan_reason [OF wf Suc.prems(1) Suc.IH st2]) (use li in auto)
    show ?thesis
      unfolding detect_reason_def
    proof (intro allI impI)
      fix b st' assume "llama_grammar_detect_left_recursion (Suc n) rules r st = Some (b, st')"
      then obtain st3 where s3: "lr_scan (llama_grammar_detect_left_recursion n rules) (drop 0 (rules ! r)) True ?st2 = Some (b, st3)"
        "\<not> b \<longrightarrow> st' = st3\<lparr>lr_in_progress := (lr_in_progress st3)[r := False], lr_visited := (lr_visited st3)[r := True]\<rparr>"
        using False sizes by (auto simp: bind_Some_iff Let_def split: if_splits)
      show "if b then (\<exists>x < length rules. P ! x \<and> left_path rules r x) \<or> left_cycle rules else lr_sizes rules P st' \<and> flags_sound rules st'"
      proof (cases b)
        case True
        then consider x c where "x < length rules" "?P ! x" "left_ref (explicit_empty rules) rules c r" "left_path rules c x" | "left_cycle rules"
          using scan s3(1) by auto
        then show ?thesis
        proof cases
          case 1
          show ?thesis
          proof (cases "x = r")
            case True
            then have "left_cycle rules"
              using 1 by (auto simp: left_cycle_def)
            then show ?thesis
              using \<open>b\<close> by simp
          next
            case False
            have "left_path rules r x"
              using 1(3,4) by (rule converse_rtranclp_into_rtranclp)
            then show ?thesis
              using False 1(1,2) \<open>b\<close> by auto
          qed
        qed (use \<open>b\<close> in simp)
      next
        case b: False
        have "P[r := False] = P"
          using False by (simp add: list_update_same_conv Suc.prems(1) sizes)
        then show ?thesis
          using scan s3 b sizes by (auto simp: lr_sizes_def flags_sound_def)
      qed
    qed
  qed
qed

lemma check_complete:
  assumes wf: "wf_rules rules"
  shows "check_left_recursion rules is st = Some True \<Longrightarrow> set is \<subseteq> {..<length rules} \<Longrightarrow> lr_sizes rules (replicate (length rules) False) st \<Longrightarrow>
    flags_sound rules st \<Longrightarrow> left_cycle rules"
proof (induction "is" arbitrary: st)
  case (Cons i "is")
  show ?case
  proof (cases "lr_visited st ! i")
    case False
    then obtain b st' where d: "llama_grammar_detect_left_recursion (Suc (length rules)) rules i st = Some (b, st')"
      "if b then True else check_left_recursion rules is st' = Some True"
      using Cons.prems(1) by (auto simp: bind_Some_iff simp del: llama_grammar_detect_left_recursion.simps split: if_splits)
    have "i < length rules"
      using Cons.prems(2) by simp
    from detect_complete [OF wf this Cons.prems(3,4), of "Suc (length rules)"] d Cons.IH [of st'] Cons.prems(2) show ?thesis
      unfolding detect_reason_def by (cases b) auto
  qed (use Cons in auto)
qed simp

lemma left_cycle_not_acc:
  assumes "Wellfounded.accp (left_ref (explicit_empty rules) rules) a" "left_ref (explicit_empty rules) rules b a" "left_path rules b a"
  shows False
proof -
  have "(\<lambda>a b. left_ref (explicit_empty rules) rules b a)\<^sup>+\<^sup>+ a a"
    using assms(2,3) by (rule rtranclp_into_tranclp2)
  moreover have "\<not> (\<lambda>a b. left_ref (explicit_empty rules) rules b a)\<^sup>+\<^sup>+ a a"
    using assms(1)
  proof (induction rule: accp.induct)
    case (accI x)
    show ?case
    proof
      assume c: "(\<lambda>a b. left_ref (explicit_empty rules) rules b a)\<^sup>+\<^sup>+ x x"
      then obtain y where y: "left_ref (explicit_empty rules) rules y x" "left_path rules y x"
        by (auto dest: tranclpD)
      then have "(\<lambda>a b. left_ref (explicit_empty rules) rules b a)\<^sup>+\<^sup>+ y y"
        by (simp add: rtranclp_into_tranclp1)
      with accI.IH [OF y(1)] show False ..
    qed
  qed
  ultimately show False
    by blast
qed

lemma check_exact:
  assumes "wf_rules rules"
  shows "check_left_recursion rules [0..<length rules] (lr_init (length rules)) = Some (\<not> left_recursion_free (explicit_empty rules) rules)"
proof -
  have sizes: "lr_sizes rules (replicate (length rules) False) (lr_init (length rules))" "flags_sound rules (lr_init (length rules))"
    by (simp_all add: lr_sizes_def lr_init_def flags_sound_def)
  have sub: "set [0..<length rules] \<subseteq> {..<length rules}"
    by auto
  from check_total [OF assms sub sizes(1)] obtain b where
    b: "check_left_recursion rules [0..<length rules] (lr_init (length rules)) = Some b"
    by blast
  show ?thesis
  proof (cases b)
    case True
    then have "left_cycle rules"
      using check_complete [OF assms _ sub sizes] b by simp
    then have "\<not> left_recursion_free (explicit_empty rules) rules"
      unfolding left_cycle_def left_recursion_free_def using left_cycle_not_acc by blast
    then show ?thesis
      using b True by simp
  next
    case False
    then show ?thesis
      using b check_passes [OF assms] by simp
  qed
qed

section \<open>Explicit and hidden empty rules\<close>

definition nullable_explicit :: "llama_grammar_rules \<Rightarrow> bool" where
  "nullable_explicit rules \<longleftrightarrow> (\<forall>r < length rules. nullable rules r \<longrightarrow> explicit_empty rules r)"

lemma left_pos_mono:
  assumes "wf_rules rules" "r < length rules" "q \<in> alternates rules r" "left_pos N rules q p" "\<And>x. x < length rules \<Longrightarrow> N x \<Longrightarrow> M x"
  shows "left_pos M rules q p"
  using assms(4)
proof (induction rule: left_pos.induct)
  case (skip p)
  have "item_pos rules p"
    using left_pos_item [OF assms(1-3) skip.hyps(1)] by simp
  from ref_target [OF assms(1) this skip.hyps(2)] show ?case
    using skip assms(5) by (intro left_pos.skip) auto
qed (rule left_pos.start)

lemma explicit_engine_ok:
  assumes wf: "wf_rules rules" and lr: "left_recursion_free (explicit_empty rules) rules" and ne: "nullable_explicit rules"
  shows "engine_ok rules"
proof -
  have "left_ref (nullable rules) rules \<le> left_ref (explicit_empty rules) rules"
  proof (intro predicate2I)
    fix b a assume l: "left_ref (nullable rules) rules b a"
    then have a: "a < length rules"
      by (auto simp: left_ref_def alternates_def rule_starts_def bind_Some_iff split: option.splits)
    have mono: "left_pos (explicit_empty rules) rules q p" if "q \<in> alternates rules a" "left_pos (nullable rules) rules q p" for q p
      using ne by (intro left_pos_mono [OF wf a that]) (simp add: nullable_explicit_def)
    from l show "left_ref (explicit_empty rules) rules b a"
      unfolding left_ref_def using mono by blast
  qed
  then have "left_recursion_free (nullable rules) rules"
    using lr accp_subset unfolding left_recursion_free_def by (metis predicate1D)
  then show ?thesis
    using wf by (simp add: engine_ok_def)
qed

section \<open>Properties\<close>

text \<open>The grammar \<open>root ::= "a" root "b" | ; \<close> used as example.\<close>

definition ge :: "llama_gretype \<Rightarrow> int \<Rightarrow> llama_grammar_element" where
  "ge t v = \<lparr>ge_type = t, ge_value = v\<rparr>"

definition demo_rules :: llama_grammar_rules where
  "demo_rules = [[ge GRE_CHAR 97, ge GRE_RULE_REF 0, ge GRE_CHAR 98, ge GRE_ALT 0, ge GRE_END 0]]"

lemma demo_rules_wf: "wf_rules demo_rules"
  by (simp add: wf_rules_def demo_rules_def ge_def refs_ok_def)

lemma demo_rules_explicit: "nullable_explicit demo_rules"
  by (simp add: nullable_explicit_def demo_rules_def ge_def end_type_def)

lemma demo_rules_lr: "left_recursion_free (explicit_empty demo_rules) demo_rules"
proof -
  have "check_left_recursion demo_rules [0..<length demo_rules] (lr_init (length demo_rules)) = Some False"
    by code_simp
  then show ?thesis
    using check_passes [OF demo_rules_wf] by simp
qed

lemma demo_engine_ok: "engine_ok demo_rules"
  by (rule explicit_engine_ok [OF demo_rules_wf demo_rules_lr demo_rules_explicit])

text \<open>C30. \<open>llama_grammar_advance_stack\<close> is exact: for well-formed rules without left recursion it returns, and adds
  to the given stacks exactly those stacks, empty or with a terminal on top, that arise from the given one by
  expanding rule references; no assertion fails, no element outside a rule is read, and no stack is added twice.\<close>

theorem advance_stack_exact:
  assumes "wf_rules rules" "left_recursion_free (nullable rules) rules" "valid_stack rules s"
  shows "\<exists>new'. llama_grammar_advance_stack rules s new = Some new' \<and>
    set new' = set new \<union> {t. (expands rules)\<^sup>*\<^sup>* s t \<and> final rules t} \<and> (distinct new \<longrightarrow> distinct new')"
  using advance_stack_ok [OF assms] by (simp add: reaches_def)

theorem advance_stack_exact_witness:
  "\<exists>new'. llama_grammar_advance_stack demo_rules [(0, 1)] [] = Some new' \<and>
    set new' = {t. (expands demo_rules)\<^sup>*\<^sup>* [(0, 1)] t \<and> final demo_rules t} \<and> distinct new'"
proof -
  have "valid_stack demo_rules [(0, 1)]"
    by (simp add: valid_stack_def item_pos_def demo_rules_def ge_def end_type_def)
  with advance_stack_exact [of demo_rules "[(0, 1)]" "[]"] demo_engine_ok show ?thesis
    by (simp add: engine_ok_def)
qed

text \<open>C31. The check for left recursion always returns on well-formed rules and is exact for what it looks at: it
  reports left recursion if and only if some chain of leftmost references, where references to rules with an empty
  alternate may be skipped, does not end.\<close>

theorem left_recursion_check_exact:
  assumes "wf_rules rules"
  shows "check_left_recursion rules [0..<length rules] (lr_init (length rules)) =
    Some (\<not> (\<forall>r < length rules. Wellfounded.accp (left_ref (explicit_empty rules) rules) r))"
  using check_exact [OF assms] by (simp add: left_recursion_free_def)

theorem left_recursion_check_exact_witness:
  "check_left_recursion demo_rules [0..<length demo_rules] (lr_init (length demo_rules)) =
    Some (\<not> (\<forall>r < length demo_rules. Wellfounded.accp (left_ref (explicit_empty demo_rules) demo_rules) r))"
  by (rule left_recursion_check_exact [OF demo_rules_wf])

text \<open>C12. Initialisation from well-formed rules returns. It gives the null pointer only for left recursion. If
  every nullable rule has an empty alternate, the grammar it gives recognises its language: after any code points,
  accepted one by one, the empty stack is among the stacks (so that the end of the generation is allowed) if and
  only if the code points so far are a sentence of the start rule, and stacks remain as long as the code points can
  be continued to a sentence.\<close>

theorem grammar_recognises:
  assumes "wf_rules rules" "start < length rules" "nullable_explicit rules"
  shows "\<exists>res. llama_grammar_init_impl rules start lazy patterns tokens = Some res \<and>
    (res = None \<longleftrightarrow> \<not> left_recursion_free (explicit_empty rules) rules) \<and>
    (\<forall>g cps. res = Some g \<longrightarrow> (\<exists>g'. mfold llama_grammar_accept cps g = Some g' \<and>
       ([] \<in> set (gr_stacks g') \<longleftrightarrow> cps \<in> rule_lang rules start) \<and>
       ((\<exists>w. cps @ w \<in> rule_lang rules start) \<longrightarrow> gr_stacks g' \<noteq> [])))"
proof (cases "left_recursion_free (explicit_empty rules) rules")
  case False
  then show ?thesis
    using check_exact [OF assms(1)] copy_rules_id [OF assms(1)] by (intro exI [of _ None]) (simp add: llama_grammar_init_impl_def)
next
  case True
  have ok: "engine_ok rules"
    by (rule explicit_engine_ok [OF assms(1) True assms(3)])
  obtain stacks where st: "init_stacks rules start = Some stacks" "good_stacks rules stacks" "stacks_lang rules (set stacks) = rule_lang rules start"
    using init_stacks_ok [OF ok assms(2)] by blast
  let ?g = "\<lparr>gr_rules = rules, gr_stacks = stacks, gr_partial_utf8 = no_partial, gr_lazy = lazy, gr_awaiting_trigger = lazy,
    gr_trigger_buffer = [], gr_trigger_buffer_positions = [], gr_trigger_tokens = tokens, gr_trigger_patterns = patterns\<rparr>"
  have "llama_grammar_init_impl rules start lazy patterns tokens = Some (Some ?g)"
    using check_exact [OF assms(1)] copy_rules_id [OF assms(1)] True st(1) by (simp add: llama_grammar_init_impl_def)
  moreover have "\<exists>g'. mfold llama_grammar_accept cps ?g = Some g' \<and> ([] \<in> set (gr_stacks g') \<longleftrightarrow> cps \<in> rule_lang rules start) \<and>
       ((\<exists>w. cps @ w \<in> rule_lang rules start) \<longrightarrow> gr_stacks g' \<noteq> [])" for cps
  proof -
    obtain stacks' where s': "mfold llama_grammar_accept cps ?g = Some (?g\<lparr>gr_stacks := stacks'\<rparr>)" "good_stacks rules stacks'"
      "stacks_lang rules (set stacks') = {w. cps @ w \<in> rule_lang rules start}"
      using accept_all_ok [of ?g cps] ok st(2,3) by auto
    have "[] \<in> set stacks' \<longleftrightarrow> cps \<in> rule_lang rules start"
      using Nil_in_good_stacks [OF s'(2)] s'(3) by simp
    moreover have "stacks' \<noteq> []" if "cps @ w \<in> rule_lang rules start" for w
      using that s'(3) by (auto simp: stacks_lang_def)
    ultimately show ?thesis
      using s'(1) by (intro exI [of _ "?g\<lparr>gr_stacks := stacks'\<rparr>"]) auto
  qed
  ultimately show ?thesis
    using True by auto
qed

theorem grammar_recognises_witness:
  "\<exists>res. llama_grammar_init_impl demo_rules 0 False [] [] = Some res \<and> res \<noteq> None \<and>
    (\<forall>g. res = Some g \<longrightarrow> (\<exists>g'. mfold llama_grammar_accept [97, 97, 98, 98] g = Some g' \<and>
      ([] \<in> set (gr_stacks g') \<longleftrightarrow> [97, 97, 98, 98] \<in> rule_lang demo_rules 0)))"
proof -
  have "0 < length demo_rules"
    by (simp add: demo_rules_def)
  from grammar_recognises [OF demo_rules_wf this demo_rules_explicit, of False "[]" "[]"] demo_rules_lr show ?thesis
    by blast
qed

section \<open>Hidden left recursion\<close>

text \<open>The grammar \<open>root ::= a root "x" | "y"\<close>, \<open>a ::= b\<close>, \<open>b ::= "z" | \<close>. Rule \<open>a\<close> is nullable but has no empty alternate,
  so the check does not look behind it and misses the left recursion of \<open>root\<close>.\<close>

definition hidden_rules :: llama_grammar_rules where
  "hidden_rules = [[ge GRE_RULE_REF 1, ge GRE_RULE_REF 0, ge GRE_CHAR 120, ge GRE_ALT 0, ge GRE_CHAR 121, ge GRE_END 0],
     [ge GRE_RULE_REF 2, ge GRE_END 0], [ge GRE_CHAR 122, ge GRE_ALT 0, ge GRE_END 0]]"

primrec advance_iters :: "nat \<Rightarrow> llama_grammar_rules \<Rightarrow> advance_state \<Rightarrow> advance_state option" where
  "advance_iters 0 rules st = Some st"
| "advance_iters (Suc n) rules st = do { st' \<leftarrow> advance_iters n rules st; advance_iter rules st' }"

lemma advance_iters_add:
  "advance_iters (n + m) rules st = do { st' \<leftarrow> advance_iters n rules st; advance_iters m rules st' }"
  by (induction m) simp_all

lemma advance_iters_prefix:
  assumes "advance_iters m rules st = Some st'" "n < m"
  shows "\<exists>st''. advance_iters n rules st = Some st'' \<and> fst st'' \<noteq> []"
proof -
  have "advance_iters (Suc n + (m - Suc n)) rules st = Some st'"
    using assms by simp
  then obtain a where "advance_iters (Suc n) rules st = Some a"
    unfolding advance_iters_add by (auto simp: bind_Some_iff)
  then obtain b where "advance_iters n rules st = Some b" "advance_iter rules b = Some a"
    by (auto simp: bind_Some_iff)
  then show ?thesis
    by (cases b) (auto simp: advance_iter_def split: list.splits)
qed

text \<open>In round \<open>k\<close> the work list has the stack with the start of \<open>root\<close> over \<open>k\<close> pending \<open>"x"\<close>; every stack seen has fewer,
  or is the finished alternate.\<close>

abbreviation xs_below :: "nat \<Rightarrow> llama_grammar_stack" where
  "xs_below k \<equiv> replicate k (0, 2)"

definition hidden_round :: "nat \<Rightarrow> advance_state \<Rightarrow> bool" where
  "hidden_round k = (\<lambda>(todo, seen, new). (\<exists>todo'. todo = ((0, 0) # xs_below k) # todo') \<and>
     (\<forall>s \<in> set seen. count_list s (0, 2) < k \<or> (count_list s (0, 2) = k \<and> hd s = (0, 4))))"

lemma hidden_elems:
  "elem_at hidden_rules (0, 0) = Some (ge GRE_RULE_REF 1)" "elem_at hidden_rules (1, 0) = Some (ge GRE_RULE_REF 2)"
  "elem_at hidden_rules (0, Suc 0) = Some (ge GRE_RULE_REF 0)" "elem_at hidden_rules (0, 4) = Some (ge GRE_CHAR 121)"
  by (simp_all add: elem_at_def hidden_rules_def)

lemma hidden_expand:
  "expand_ref hidden_rules (0, 0) s 1 todo = Some (((1, 0) # (0, Suc 0) # s) # todo)"
  "expand_ref hidden_rules (1, 0) s 2 todo = Some (s # ((2, 0) # s) # todo)"
  "expand_ref hidden_rules (0, Suc 0) s 0 todo = Some (((0, 4) # (0, 2) # s) # ((0, 0) # (0, 2) # s) # todo)"
  by (simp_all add: expand_ref_def rule_starts_def hidden_rules_def ge_def push_pos_def llama_grammar_is_end_of_sequence_def
      elem_at_def next_pos_def end_type_def)

lemma hidden_step:
  assumes "hidden_round k st"
  shows "\<exists>st'. advance_iters 4 hidden_rules st = Some st' \<and> hidden_round (Suc k) st'"
proof -
  obtain todo seen new where st: "st = (((0, 0) # xs_below k) # todo, seen, new)"
    "\<And>s. s \<in> set seen \<Longrightarrow> count_list s (0, 2) < k \<or> (count_list s (0, 2) = k \<and> hd s = (0, 4))"
    using assms by (cases st) (auto simp: hidden_round_def)
  have cnt: "count_list (xs_below k) (0, 2) = k" for k
    by (induction k) auto
  let ?s0 = "(0, 0) # xs_below k" and ?s1 = "(1, 0) # (0, Suc 0) # xs_below k" and ?s2 = "(0, Suc 0) # xs_below k"
    and ?s3 = "(0, 4) # (0, 2) # xs_below k"
  have fresh: "?s0 \<notin> set seen" "?s1 \<notin> set seen" "?s2 \<notin> set seen" "?s3 \<notin> set seen"
    using st(2) [of ?s0] st(2) [of ?s1] st(2) [of ?s2] st(2) [of ?s3] cnt by auto
  have 1: "advance_iter hidden_rules st = Some (?s1 # todo, ?s0 # seen, new)"
    unfolding st(1) using fresh hidden_elems(1) hidden_expand(1) by (simp add: advance_iter_def ge_def)
  have 2: "advance_iter hidden_rules (?s1 # todo, ?s0 # seen, new) = Some (?s2 # ((2, 0) # ?s2) # todo, ?s1 # ?s0 # seen, new)"
    using fresh hidden_elems(2) hidden_expand(2) by (simp add: advance_iter_def ge_def)
  have 3: "advance_iter hidden_rules (?s2 # ((2, 0) # ?s2) # todo, ?s1 # ?s0 # seen, new) =
      Some (?s3 # ((0, 0) # (0, 2) # xs_below k) # ((2, 0) # ?s2) # todo, ?s2 # ?s1 # ?s0 # seen, new)"
    using fresh hidden_elems(3) hidden_expand(3) by (simp add: advance_iter_def ge_def)
  have 4: "advance_iter hidden_rules (?s3 # ((0, 0) # (0, 2) # xs_below k) # ((2, 0) # ?s2) # todo, ?s2 # ?s1 # ?s0 # seen, new) =
      Some (((0, 0) # (0, 2) # xs_below k) # ((2, 0) # ?s2) # todo, ?s3 # ?s2 # ?s1 # ?s0 # seen, add_stack ?s3 new)"
    using fresh hidden_elems(4) by (simp add: advance_iter_def ge_def)
  have "advance_iters 4 hidden_rules st = Some (((0, 0) # (0, 2) # xs_below k) # ((2, 0) # ?s2) # todo, ?s3 # ?s2 # ?s1 # ?s0 # seen, add_stack ?s3 new)"
    using 1 2 3 4 by (simp add: numeral_eq_Suc)
  moreover have "hidden_round (Suc k) (((0, 0) # (0, 2) # xs_below k) # ((2, 0) # ?s2) # todo, ?s3 # ?s2 # ?s1 # ?s0 # seen, add_stack ?s3 new)"
    using st(2) cnt [of k] by (fastforce simp: hidden_round_def)
  ultimately show ?thesis
    by blast
qed

text \<open>C32. The check can let left recursion pass: on these well-formed rules it reports none, yet the loop of
  \<open>llama_grammar_advance_stack\<close>, started on the first alternate of \<open>root\<close> as initialisation does, runs forever: for
  every \<open>n\<close> it completes \<open>n\<close> iterations and has work left.\<close>

theorem hidden_left_recursion_diverges:
  "wf_rules hidden_rules \<and>
   check_left_recursion hidden_rules [0..<length hidden_rules] (lr_init (length hidden_rules)) = Some False \<and>
   (\<forall>n. \<exists>todo seen new. advance_iters n hidden_rules ([[(0, 0)]], [], []) = Some (todo, seen, new) \<and> todo \<noteq> [])"
proof (intro conjI allI)
  show "wf_rules hidden_rules"
    by (simp add: wf_rules_def hidden_rules_def ge_def refs_ok_def)
  show "check_left_recursion hidden_rules [0..<length hidden_rules] (lr_init (length hidden_rules)) = Some False"
    by code_simp
  fix n
  let ?st = "([[(0, 0)]], [], []) :: advance_state"
  have "\<exists>st. advance_iters (4 * k) hidden_rules ?st = Some st \<and> hidden_round k st" for k
  proof (induction k)
    case 0
    then show ?case by (simp add: hidden_round_def)
  next
    case (Suc k)
    then obtain st where "advance_iters (4 * k) hidden_rules ?st = Some st" "hidden_round k st"
      by blast
    then show ?case
      using hidden_step [of k st] advance_iters_add [of "4 * k" 4 hidden_rules ?st] by (auto simp: add.commute)
  qed
  from this [of "Suc n"] obtain st where "advance_iters (4 * Suc n) hidden_rules ?st = Some st"
    by blast
  from advance_iters_prefix [OF this, of n] show "\<exists>todo seen new. advance_iters n hidden_rules ?st = Some (todo, seen, new) \<and> todo \<noteq> []"
    by auto
qed

end
