(* ===== verification/Grammar_Reject.thy ===== *)
theory Grammar_Reject
  imports Grammar_Init
begin

text \<open>
  Which candidate tokens the grammar rejects, and how this fits what it accepts: partial UTF-8 sequences, the
  recursion over stacks and code points, and the sampler's view, that a token left with its logit can be accepted.
\<close>

section \<open>Partial sequences\<close>

lemma match_partial_loop_eq:
  assumes "wf_elems 1 es" "ge_type e \<noteq> GRE_CHAR_ANY"
  shows "match_partial_loop (e # es) low high positive =
    Some (if \<exists>(lo, hi) \<in> set (class_ranges (e # es)). lo \<le> high \<and> low \<le> hi then positive else \<not> positive)"
  using assms
proof (induction "length es" arbitrary: e es rule: less_induct)
  case less
  obtain e1 es1 where es: "es = e1 # es1"
    using less.prems(1) by (cases es) auto
  show ?case
  proof (cases "ge_type e1 = GRE_CHAR_RNG_UPPER")
    case True
    then have w2: "wf_elems 2 es1"
      using less.prems(1) es by simp
    then obtain e2 es2 where es1: "es1 = e2 # es2"
      by (cases es1) auto
    show ?thesis
    proof (cases "ge_type e2 = GRE_CHAR_ALT")
      case alt: True
      then have "wf_elems 1 es2" "ge_type e2 \<noteq> GRE_CHAR_ANY"
        using w2 es1 by auto
      from less.hyps [OF _ this] es es1 show ?thesis
        using True alt by auto
    next
      case False
      then show ?thesis
        using True es es1 by auto
    qed
  next
    case rng: False
    show ?thesis
    proof (cases "ge_type e1 = GRE_CHAR_ALT")
      case alt: True
      then have "wf_elems 1 es1" "ge_type e1 \<noteq> GRE_CHAR_ANY"
        using less.prems(1) es by auto
      from less.hyps [OF _ this] es show ?thesis
        using alt less.prems(2) by auto
    next
      case False
      then show ?thesis
        using rng es less.prems(2) by auto
    qed
  qed
qed

definition partial_possible :: "llama_partial_utf8 \<Rightarrow> bool" where
  "partial_possible pu \<longleftrightarrow> \<not> (pu_n_remain pu < 0 \<or> (pu_n_remain pu = 1 \<and> pu_value pu < 2))"

lemma match_partial_item:
  assumes "item_pos rules p" "char_type (etype rules p)"
  shows "llama_grammar_match_partial_char rules p pu = Some (partial_possible pu \<and>
    (let (low, high) = partial_range (pu_value pu) (pu_n_remain pu);
         hit = (\<exists>(lo, hi) \<in> set (class_ranges (elems_from rules p)). lo \<le> high \<and> low \<le> hi)
     in etype rules p = GRE_CHAR_ANY \<or> (hit \<longleftrightarrow> etype rules p = GRE_CHAR)))"
proof -
  note e = item_pos_elem [OF assms(1)]
  have w: "wf_elems 0 (elem rules p # drop (Suc (snd p)) (rules ! fst p))"
    using assms(1) e(2) by (simp add: item_pos_def)
  obtain low high where r: "partial_range (pu_value pu) (pu_n_remain pu) = (low, high)"
    by (cases "partial_range (pu_value pu) (pu_n_remain pu)")
  show ?thesis
  proof (cases "etype rules p = GRE_CHAR_ANY")
    case True
    then obtain e1 es where es: "drop (Suc (snd p)) (rules ! fst p) = e1 # es" "wf_elems 0 (e1 # es)"
      using w by (cases "drop (Suc (snd p)) (rules ! fst p)") auto
    then have "ge_type e1 \<noteq> GRE_CHAR_RNG_UPPER"
      by auto
    then show ?thesis
      unfolding llama_grammar_match_partial_char_def e(1,2) es(1) using True
      by (auto simp: positive_char_def partial_possible_def Let_def r)
  next
    case False
    then have "wf_elems 1 (drop (Suc (snd p)) (rules ! fst p))"
      using w assms(2) by (auto simp: char_type_def)
    from match_partial_loop_eq [OF this False, of low high] show ?thesis
      unfolding llama_grammar_match_partial_char_def e(1) using False assms(2) e(2)
      by (auto simp: positive_char_def char_type_def partial_possible_def Let_def r)
  qed
qed

definition partial_ok :: "llama_grammar_rules \<Rightarrow> grammar_pos \<Rightarrow> llama_partial_utf8 \<Rightarrow> bool" where
  "partial_ok rules p pu \<longleftrightarrow> llama_grammar_match_partial_char rules p pu = Some True"

lemma match_partial_ok:
  "item_pos rules p \<Longrightarrow> char_type (etype rules p) \<Longrightarrow> llama_grammar_match_partial_char rules p pu = Some (partial_ok rules p pu)"
  unfolding partial_ok_def by (simp add: match_partial_item)

section \<open>Loops over candidates\<close>

text \<open>The code points a candidate still has, up to the terminating 0.\<close>

definition cd_word :: "llama_grammar_candidate \<Rightarrow> int list" where
  "cd_word tok = takeWhile (\<lambda>c. c \<noteq> 0) (drop (cd_off tok) (cd_code_points tok))"

definition cd_ok :: "llama_grammar_candidate \<Rightarrow> bool" where
  "cd_ok tok \<longleftrightarrow> 0 \<in> set (drop (cd_off tok) (cd_code_points tok))"

lemma cd_chr_ok:
  assumes "cd_ok tok"
  shows "cd_chr tok = Some (case cd_word tok of [] \<Rightarrow> 0 | c # _ \<Rightarrow> c)" "\<And>c w. cd_word tok = c # w \<Longrightarrow> c \<noteq> 0"
proof -
  let ?d = "drop (cd_off tok) (cd_code_points tok)"
  have "?d \<noteq> []"
    using assms by (auto simp: cd_ok_def)
  then have i: "cd_off tok < length (cd_code_points tok)"
    by simp
  then have d: "?d = cd_code_points tok ! cd_off tok # drop (Suc (cd_off tok)) (cd_code_points tok)"
    by (simp add: Cons_nth_drop_Suc)
  show "cd_chr tok = Some (case cd_word tok of [] \<Rightarrow> 0 | c # _ \<Rightarrow> c)"
    using i unfolding cd_word_def d cd_chr_def by simp
  show "c \<noteq> 0" if "cd_word tok = c # w" for c w
    using that unfolding cd_word_def d by (auto split: if_splits)
qed

abbreviation bump :: "llama_grammar_candidate \<Rightarrow> llama_grammar_candidate" where
  "bump tok \<equiv> tok\<lparr>cd_off := cd_off tok + 1\<rparr>"

lemma bump_ok:
  assumes "cd_ok tok" "cd_word tok = c # w"
  shows "cd_word (bump tok) = w" "cd_ok (bump tok)"
proof -
  let ?d = "drop (cd_off tok) (cd_code_points tok)"
  have "?d \<noteq> []"
    using assms(2) by (auto simp: cd_word_def)
  then have d: "?d = cd_code_points tok ! cd_off tok # drop (Suc (cd_off tok)) (cd_code_points tok)"
    by (simp add: Cons_nth_drop_Suc)
  show "cd_word (bump tok) = w"
    using assms(2) unfolding cd_word_def d by (auto split: if_splits)
  show "cd_ok (bump tok)"
    using assms cd_chr_ok(2) [OF assms] unfolding cd_ok_def cd_word_def d by (auto split: if_splits)
qed

lemma collect_rejects_eq:
  assumes "\<forall>tok \<in> set cands. cd_ok tok"
    and "\<And>tok. tok \<in> set cands \<Longrightarrow> P tok (case cd_word tok of [] \<Rightarrow> 0 | c # _ \<Rightarrow> c) = Some (rej tok)"
  shows "collect_rejects P cands = Some (filter rej cands)"
proof -
  have "mfold (\<lambda>tok rejects. do { c \<leftarrow> cd_chr tok; b \<leftarrow> P tok c; Some (if b then rejects @ [tok] else rejects) }) ts out =
      Some (out @ filter rej ts)" if "set ts \<subseteq> set cands" for ts out
    using that
  proof (induction ts arbitrary: out)
    case (Cons t ts)
    have "cd_ok t" "P t (case cd_word t of [] \<Rightarrow> 0 | c # _ \<Rightarrow> c) = Some (rej t)"
      using assms Cons.prems by auto
    then show ?case
      using Cons cd_chr_ok(1) [of t] by simp
  qed simp
  then show ?thesis
    by (simp add: collect_rejects_def)
qed

text \<open>What happens to a candidate at a position with a character class: rejected, passed on, or kept.\<close>

definition rejected_at :: "llama_grammar_rules \<Rightarrow> grammar_pos \<Rightarrow> llama_grammar_candidate \<Rightarrow> bool" where
  "rejected_at rules p tok = (case cd_word tok of
     [] \<Rightarrow> pu_n_remain (cd_partial_utf8 tok) \<noteq> 0 \<and> \<not> partial_ok rules p (cd_partial_utf8 tok)
   | c # _ \<Rightarrow> \<not> class_accepts rules p c)"

definition passed_at :: "llama_grammar_rules \<Rightarrow> grammar_pos \<Rightarrow> llama_grammar_candidate \<Rightarrow> bool" where
  "passed_at rules p tok = (case cd_word tok of [] \<Rightarrow> False | c # _ \<Rightarrow> class_accepts rules p c)"

lemma split_candidates_eq:
  assumes "\<forall>tok \<in> set cands. cd_ok tok" "item_pos rules p" "char_type (etype rules p)"
  shows "split_candidates rules p cands = Some (filter (rejected_at rules p) cands, map bump (filter (passed_at rules p) cands))"
proof -
  let ?body = "\<lambda>tok (rejects, next_candidates). do {
     c \<leftarrow> cd_chr tok;
     if c = 0 then do {
       ok \<leftarrow> (if pu_n_remain (cd_partial_utf8 tok) \<noteq> 0 then llama_grammar_match_partial_char rules p (cd_partial_utf8 tok) else Some True);
       Some (if ok then rejects else rejects @ [tok], next_candidates) }
     else do {
       (matches, _) \<leftarrow> llama_grammar_match_char rules p c;
       Some (if matches then (rejects, next_candidates @ [tok\<lparr>cd_off := cd_off tok + 1\<rparr>]) else (rejects @ [tok], next_candidates)) } }"
  have "mfold ?body ts (r, n) = Some (r @ filter (rejected_at rules p) ts, n @ map bump (filter (passed_at rules p) ts))"
    if "set ts \<subseteq> set cands" for ts r n
    using that
  proof (induction ts arbitrary: r n)
    case (Cons t ts)
    have t: "cd_ok t"
      using assms Cons.prems by auto
    show ?case
    proof (cases "cd_word t")
      case Nil
      then show ?thesis
        using Cons cd_chr_ok(1) [OF t] match_partial_ok [OF assms(2,3)] by (simp add: rejected_at_def passed_at_def)
    next
      case w: (Cons c w)
      then show ?thesis
        using Cons cd_chr_ok [OF t] match_char_item(1) [OF assms(2,3)] by (simp add: rejected_at_def passed_at_def)
    qed
  qed simp
  then show ?thesis
    by (simp add: split_candidates_def)
qed

section \<open>What is rejected\<close>

text \<open>A candidate with the code points \<open>w\<close> still to come can go on from a stack. At a token element the engine
  looks at the token id only, whatever part of its text has been consumed already.\<close>

fun viable :: "llama_grammar_rules \<Rightarrow> llama_token \<Rightarrow> llama_partial_utf8 \<Rightarrow> int list \<Rightarrow> llama_grammar_stack \<Rightarrow> bool" where
  "viable rules tid pu [] s \<longleftrightarrow> pu_n_remain pu = 0 \<or> (s \<noteq> [] \<and> char_type (etype rules (hd s)) \<and> partial_ok rules (hd s) pu)"
| "viable rules tid pu (c # w) s \<longleftrightarrow>
     (if s \<noteq> [] \<and> token_type (etype rules (hd s)) then llama_grammar_match_token rules (hd s) tid = Some True
      else \<exists>t \<in> after_chr rules c s. viable rules tid pu w t)"

abbreviation cd_viable :: "llama_grammar_rules \<Rightarrow> llama_grammar_candidate \<Rightarrow> llama_grammar_stack \<Rightarrow> bool" where
  "cd_viable rules tok s \<equiv> viable rules (cd_id tok) (cd_partial_utf8 tok) (cd_word tok) s"

definition cands_ok :: "nat \<Rightarrow> llama_grammar_candidate list \<Rightarrow> bool" where
  "cands_ok n cands \<longleftrightarrow> (\<forall>tok \<in> set cands. cd_ok tok \<and> length (cd_word tok) < n)"

lemma reject_with_ok:
  assumes f: "\<And>s cs. s \<in> set stacks \<Longrightarrow> cands_ok n cs \<Longrightarrow> \<exists>R. f s cs = Some R \<and> set R = {tok \<in> set cs. \<not> cd_viable rules tok s}"
    and cs: "cands_ok n cs" "stacks \<noteq> []"
  shows "\<exists>R. reject_with f stacks cs = Some R \<and> set R = {tok \<in> set cs. \<forall>s \<in> set stacks. \<not> cd_viable rules tok s}"
proof (cases "cs = []")
  case True
  then show ?thesis
    using cs(2) by (simp add: reject_with_def)
next
  case False
  let ?I = "\<lambda>done R. set R = {tok \<in> set cs. \<forall>s \<in> set done. \<not> cd_viable rules tok s}"
  have "\<exists>R. mfold f stacks cs = Some R \<and> ?I stacks R"
  proof (rule mfold_invariant)
    fix "done" s rest R
    assume split: "stacks = done @ s # rest" and I: "?I done R"
    have "cands_ok n R"
      using I cs(1) by (auto simp: cands_ok_def)
    then obtain R' where "f s R = Some R'" "set R' = {tok \<in> set R. \<not> cd_viable rules tok s}"
      using f [of s R] split by auto
    then show "\<exists>R'. f s R = Some R' \<and> ?I (done @ [s]) R'"
      using I by auto
  qed simp
  then show ?thesis
    using False cs(2) by (simp add: reject_with_def)
qed

lemma match_token_item: "item_pos rules p \<Longrightarrow> token_type (etype rules p) \<Longrightarrow>
    \<exists>b. llama_grammar_match_token rules p tid = Some b"
  by (simp add: llama_grammar_match_token_def item_pos_elem)

lemma reject_for_stack_ok:
  assumes ok: "engine_ok rules"
  shows "valid_stack rules s \<Longrightarrow> final rules s \<Longrightarrow> cands_ok n cs \<Longrightarrow> 0 < n \<Longrightarrow>
    \<exists>R. llama_grammar_reject_candidates_for_stack n rules s cs = Some R \<and> set R = {tok \<in> set cs. \<not> cd_viable rules tok s}"
proof (induction n arbitrary: s cs)
  case (Suc n)
  have cd: "\<forall>tok \<in> set cs. cd_ok tok"
    using Suc.prems(3) by (simp add: cands_ok_def)
  show ?case
  proof (cases s)
    case Nil
    let ?rej = "\<lambda>tok. cd_word tok \<noteq> [] \<or> pu_n_remain (cd_partial_utf8 tok) \<noteq> 0"
    have "collect_rejects (\<lambda>tok c. Some (c \<noteq> 0 \<or> pu_n_remain (cd_partial_utf8 tok) \<noteq> 0)) cs = Some (filter ?rej cs)"
      using cd cd_chr_ok(2) by (intro collect_rejects_eq) (auto split: list.splits)
    moreover have "cd_viable rules tok [] \<longleftrightarrow> \<not> ?rej tok" for tok
      by (cases "cd_word tok") (auto simp: after_chr_def)
    ultimately show ?thesis
      using Nil by auto
  next
    case (Cons p below)
    have p: "item_pos rules p" "elem_at rules p = Some (elem rules p)"
      using Suc.prems(1) Cons item_pos_elem(1) [of rules p] by (auto simp: valid_stack_def)
    show ?thesis
    proof (cases "token_type (etype rules p)")
      case True
      let ?m = "\<lambda>tok. llama_grammar_match_token rules p (cd_id tok) = Some True"
      let ?rej = "\<lambda>tok. if cd_word tok = [] then pu_n_remain (cd_partial_utf8 tok) \<noteq> 0 else \<not> ?m tok"
      have "collect_rejects (\<lambda>tok c. if c = 0 then Some (pu_n_remain (cd_partial_utf8 tok) \<noteq> 0)
          else do { m \<leftarrow> llama_grammar_match_token rules p (cd_id tok); Some (\<not> m) }) cs = Some (filter ?rej cs)"
      proof (rule collect_rejects_eq [OF cd])
        fix tok assume tok: "tok \<in> set cs"
        obtain b where "llama_grammar_match_token rules p (cd_id tok) = Some b"
          using match_token_item [OF p(1) True] by blast
        moreover have "cd_ok tok"
          using cd tok by simp
        ultimately show "(if (case cd_word tok of [] \<Rightarrow> 0 | c # _ \<Rightarrow> c) = 0 then Some (pu_n_remain (cd_partial_utf8 tok) \<noteq> 0)
            else do { m \<leftarrow> llama_grammar_match_token rules p (cd_id tok); Some (\<not> m) }) = Some (?rej tok)"
          using cd_chr_ok(2) [of tok] by (cases "cd_word tok") auto
      qed
      moreover have "cd_viable rules tok s \<longleftrightarrow> \<not> ?rej tok" for tok
        using True Cons by (cases "cd_word tok") (auto simp: token_type_def char_type_def)
      ultimately show ?thesis
        using Cons True p(2) by auto
    next
      case False
      then have ch: "char_type (etype rules p)"
        using Suc.prems(2) Cons by (simp add: final_def)
      note v = valid_after_class [OF Suc.prems(1) [unfolded Cons] ch]
      let ?after = "push rules (after_class rules p) below"
      obtain ns where ns: "llama_grammar_advance_stack rules ?after [] = Some ns" "set ns = reaches rules ?after"
        using advance_stack_ok [OF _ _ v(1), of "[]"] ok by (auto simp: engine_ok_def)
      have ne: "ns \<noteq> []"
        using reaches_nonempty [OF _ _ v(1)] ok ns(2) by (auto simp: engine_ok_def)
      let ?next = "map bump (filter (passed_at rules p) cs)"
      have passed: "\<exists>c. cd_word tok = c # cd_word (bump tok) \<and> cd_ok (bump tok) \<and> class_accepts rules p c"
        if "tok \<in> set cs" "passed_at rules p tok" for tok
        using that cd bump_ok [of tok] by (auto simp: passed_at_def split: list.splits)
      have next_ok: "cands_ok n ?next"
        using passed Suc.prems(3) by (fastforce simp: cands_ok_def)
      have f: "\<exists>R. llama_grammar_reject_candidates_for_stack n rules t cs' = Some R \<and> set R = {tok \<in> set cs'. \<not> cd_viable rules tok t}"
        if "t \<in> set ns" "cands_ok n cs'" "0 < n" for t cs'
        using reaches_valid [OF _ v(1), of t] ok that ns(2) by (intro Suc.IH) (auto simp: engine_ok_def)
      have "\<exists>R. reject_with (llama_grammar_reject_candidates_for_stack n rules) ns ?next = Some R \<and>
          set R = {tok \<in> set ?next. \<forall>t \<in> set ns. \<not> cd_viable rules tok t}"
      proof (cases "n = 0")
        case True
        then have "?next = []"
          using next_ok by (cases ?next) (auto simp: cands_ok_def)
        then show ?thesis
          using ne by (simp add: reject_with_def)
      next
        case False
        then show ?thesis
          using f by (intro reject_with_ok [OF _ next_ok ne]) auto
      qed
      then obtain R where R: "reject_with (llama_grammar_reject_candidates_for_stack n rules) ns ?next = Some R"
        "set R = {tok \<in> set ?next. \<forall>t \<in> set ns. \<not> cd_viable rules tok t}"
        by blast
      let ?res = "filter (rejected_at rules p) cs @ map (\<lambda>tok. tok\<lparr>cd_off := cd_off tok - 1\<rparr>) R"
      have res: "llama_grammar_reject_candidates_for_stack (Suc n) rules s cs = Some ?res"
        using Cons False p(2) split_candidates_eq [OF cd p(1) ch] match_char_item(1) [OF p(1) ch] push_pos_item [OF v(3)] ns(1) R(1)
        by simp
      have viab: "cd_viable rules tok s \<longleftrightarrow> \<not> rejected_at rules p tok \<and>
          (passed_at rules p tok \<longrightarrow> (\<exists>t \<in> set ns. cd_viable rules (bump tok) t))" if "tok \<in> set cs" for tok
      proof (cases "cd_word tok")
        case Nil
        then show ?thesis
          using Cons ch by (auto simp: rejected_at_def passed_at_def)
      next
        case w: (Cons c w)
        then show ?thesis
          using Cons ch False bump_ok(1) [OF _ w] cd that ns(2) by (auto simp: rejected_at_def passed_at_def after_chr_def)
      qed
      have "set ?res = {tok \<in> set cs. \<not> cd_viable rules tok s}"
      proof -
        have "set R = bump ` {tok \<in> set cs. passed_at rules p tok \<and> (\<forall>t \<in> set ns. \<not> cd_viable rules (bump tok) t)}"
          using R(2) by auto
        then have "set (map (\<lambda>tok. tok\<lparr>cd_off := cd_off tok - 1\<rparr>) R) =
            {tok \<in> set cs. passed_at rules p tok \<and> (\<forall>t \<in> set ns. \<not> cd_viable rules (bump tok) t)}"
          by (simp add: image_image)
        then show ?thesis
          using viab by auto
      qed
      then show ?thesis
        using res by blast
    qed
  qed
qed simp

section \<open>Accepting a token\<close>

definition no_tokens :: "llama_grammar_rules \<Rightarrow> bool" where
  "no_tokens rules \<longleftrightarrow> (\<forall>rule \<in> set rules. \<forall>e \<in> set rule. \<not> token_type (ge_type e))"

lemma no_tokens_item:
  assumes "no_tokens rules" "item_pos rules p"
  shows "\<not> token_type (etype rules p)"
proof -
  have "elem rules p \<in> set (rules ! fst p)" "rules ! fst p \<in> set rules"
    using item_pos_elem(3,4) [OF assms(2)] by auto
  then show ?thesis
    using assms(1) by (auto simp: no_tokens_def)
qed

text \<open>The stacks after several code points.\<close>

fun after_word :: "llama_grammar_rules \<Rightarrow> int list \<Rightarrow> llama_grammar_stack set \<Rightarrow> llama_grammar_stack set" where
  "after_word rules [] S = S"
| "after_word rules (c # w) S = after_word rules w (\<Union>s \<in> S. after_chr rules c s)"

lemma after_word_Un: "after_word rules w S = (\<Union>s \<in> S. after_word rules w {s})"
proof (induction w arbitrary: S)
  case (Cons c w)
  show ?case
    using Cons [of "\<Union>s \<in> S. after_chr rules c s"] Cons [of "after_chr rules c _"] by auto
qed auto

lemma after_word_empty: "after_word rules w {} = {}"
  by (induction w) auto

lemma accept_code_points_ok:
  assumes ok: "engine_ok rules"
  shows "good_stacks rules stacks \<Longrightarrow> \<exists>new. accept_code_points rules w stacks = Some new \<and> set new = after_word rules w (set stacks) \<and> good_stacks rules new"
proof (induction w arbitrary: stacks)
  case (Cons c w)
  obtain new where new: "accept_stacks rules c stacks = Some new" "set new = (\<Union>s \<in> set stacks. after_chr rules c s)" "good_stacks rules new"
    using accept_stacks_ok [OF ok Cons.prems] by blast
  show ?case
  proof (cases "new = []")
    case True
    then have "after_word rules (c # w) (set stacks) = {}"
      using new(2) by (simp add: after_word_empty)
    then show ?thesis
      using new(1) True by (auto simp: good_stacks_def)
  next
    case False
    then show ?thesis
      using Cons.IH [OF new(3)] new(1,2) by auto
  qed
qed simp

lemma set_fold_add_stack: "set (fold add_stack xs ys) = set xs \<union> set ys"
  by (induction xs arbitrary: ys) auto

definition after_token :: "llama_grammar_rules \<Rightarrow> int list \<Rightarrow> llama_grammar_stacks \<Rightarrow> llama_grammar_stack set" where
  "after_token rules w stacks = (\<Union>s \<in> set stacks - {[]}. after_word rules w {s})"

lemma accept_token_stacks_ok:
  assumes ok: "engine_ok rules" and nt: "no_tokens rules" and g: "good_stacks rules stacks"
  shows "\<exists>new. mfold (accept_token_stack rules tid w) stacks [] = Some new \<and> set new = after_token rules w stacks"
proof -
  let ?I = "\<lambda>done new. set new = (\<Union>s \<in> set done - {[]}. after_word rules w {s})"
  have "\<exists>new. mfold (accept_token_stack rules tid w) stacks [] = Some new \<and> ?I stacks new"
  proof (rule mfold_invariant)
    fix "done" s rest new
    assume split: "stacks = done @ s # rest" and I: "?I done new"
    have s: "valid_stack rules s" "final rules s"
      using g split by (auto simp: good_stacks_def)
    show "\<exists>new'. accept_token_stack rules tid w s new = Some new' \<and> ?I (done @ [s]) new'"
    proof (cases s)
      case Nil
      then show ?thesis
        using I by (simp add: accept_token_stack_def insert_absorb)
    next
      case (Cons p b)
      have p: "item_pos rules p" "elem_at rules p = Some (elem rules p)"
        using s(1) Cons item_pos_elem(1) [of rules p] by (auto simp: valid_stack_def)
      obtain cur where cur: "accept_code_points rules w [s] = Some cur" "set cur = after_word rules w {s}"
        using accept_code_points_ok [OF ok, of "[s]" w] s by (auto simp: good_stacks_def)
      have "accept_token_stack rules tid w s new = Some (fold add_stack cur new)"
        using Cons p(2) no_tokens_item [OF nt p(1)] cur(1) by (simp add: accept_token_stack_def)
      then show ?thesis
        using I cur(2) Cons by (auto simp: set_fold_add_stack)
    qed
  qed simp
  then show ?thesis
    by (simp add: after_token_def)
qed

text \<open>Without token elements, a candidate that can go on leaves stacks behind; for text that ends with a code point
  this is the same.\<close>

lemma viable_after_word:
  assumes nt: "no_tokens rules" and wf: "wf_rules rules"
  shows "valid_stack rules s \<Longrightarrow> viable rules tid pu w s \<Longrightarrow> after_word rules w {s} \<noteq> {}"
    "valid_stack rules s \<Longrightarrow> pu_n_remain pu = 0 \<Longrightarrow> after_word rules w {s} \<noteq> {} \<Longrightarrow> viable rules tid pu w s"
proof -
  have top: "\<not> (s \<noteq> [] \<and> token_type (etype rules (hd s)))" if "valid_stack rules s" for s
    using that no_tokens_item [OF nt] by (cases s) (auto simp: valid_stack_def)
  show "valid_stack rules s \<Longrightarrow> viable rules tid pu w s \<Longrightarrow> after_word rules w {s} \<noteq> {}"
  proof (induction w arbitrary: s)
    case (Cons c w)
    then obtain t where t: "t \<in> after_chr rules c s" "viable rules tid pu w t"
      using top [OF Cons.prems(1)] by auto
    have "after_word rules w {t} \<noteq> {}"
      using after_chr_good [OF wf Cons.prems(1) t(1)] t(2) by (intro Cons.IH) auto
    then show ?case
      using t(1) after_word_Un [of rules w "after_chr rules c s"] by auto
  qed simp
  show "valid_stack rules s \<Longrightarrow> pu_n_remain pu = 0 \<Longrightarrow> after_word rules w {s} \<noteq> {} \<Longrightarrow> viable rules tid pu w s"
  proof (induction w arbitrary: s)
    case (Cons c w)
    obtain t where t: "t \<in> after_chr rules c s" "after_word rules w {t} \<noteq> {}"
      using Cons.prems(3) after_word_Un [of rules w "after_chr rules c s"] by auto
    have "viable rules tid pu w t"
      using after_chr_good [OF wf Cons.prems(1) t(1)] t(2) Cons.prems(2) by (intro Cons.IH) auto
    then show ?case
      using t(1) top [OF Cons.prems(1)] by auto
  qed simp
qed

lemma viable_after_token:
  assumes nt: "no_tokens rules" and wf: "wf_rules rules" and g: "good_stacks rules stacks" and w: "w \<noteq> [] \<or> pu_n_remain pu \<noteq> 0"
  shows "(\<exists>s \<in> set stacks. viable rules tid pu w s) \<Longrightarrow> after_token rules w stacks \<noteq> {}"
    "pu_n_remain pu = 0 \<Longrightarrow> after_token rules w stacks \<noteq> {} \<Longrightarrow> \<exists>s \<in> set stacks. viable rules tid pu w s"
proof -
  assume "\<exists>s \<in> set stacks. viable rules tid pu w s"
  then obtain s where s: "s \<in> set stacks" "viable rules tid pu w s"
    by blast
  have "s \<noteq> []"
    using s(2) w by (cases w) (auto simp: after_chr_def)
  moreover have "after_word rules w {s} \<noteq> {}"
    using viable_after_word(1) [OF nt wf _ s(2)] g s(1) by (auto simp: good_stacks_def)
  ultimately show "after_token rules w stacks \<noteq> {}"
    using s(1) by (auto simp: after_token_def)
next
  assume n: "pu_n_remain pu = 0" and "after_token rules w stacks \<noteq> {}"
  then obtain s where s: "s \<in> set stacks" "after_word rules w {s} \<noteq> {}"
    by (auto simp: after_token_def)
  have "viable rules tid pu w s"
    using viable_after_word(2) [OF nt wf _ n s(2)] g s(1) by (simp add: good_stacks_def)
  then show "\<exists>s \<in> set stacks. viable rules tid pu w s"
    using s(1) by blast
qed

section \<open>Decoded pieces\<close>

lemma decode_loop_shape:
  "\<exists>xs p. decode_loop cs acc v n = (xs @ [0], p) \<and>
     (acc \<noteq> [] \<or> n \<noteq> 0 \<or> (cs \<noteq> [] \<and> byte (hd cs) \<noteq> 0) \<longrightarrow> xs \<noteq> [] \<or> pu_n_remain p \<noteq> 0)"
proof (induction cs acc v n rule: decode_loop.induct)
  case (2 c cs acc v n)
  show ?case
  proof (cases "byte c = 0 \<or> utf8_len (byte c div 16) - 1 < 0")
    case True
    then show ?thesis
      by (auto simp: Let_def)
  next
    case False
    obtain cs' v' n' where r: "rest_loop cs (byte c mod 2 ^ nat (7 - (utf8_len (byte c div 16) - 1))) (utf8_len (byte c div 16) - 1) = (cs', v', n')"
      by (metis prod_cases3)
    have "decode_loop (c # cs) acc v n = decode_loop cs' (if n' = 0 then acc @ [v'] else acc) v' n'"
      using False r by (simp add: Let_def)
    moreover have "\<exists>xs p. decode_loop cs' (if n' = 0 then acc @ [v'] else acc) v' n' = (xs @ [0], p) \<and>
        ((if n' = 0 then acc @ [v'] else acc) \<noteq> [] \<or> n' \<noteq> 0 \<or> (cs' \<noteq> [] \<and> byte (hd cs') \<noteq> 0) \<longrightarrow> xs \<noteq> [] \<or> pu_n_remain p \<noteq> 0)"
      using False r by (intro "2.IH" [OF _ refl]) auto
    ultimately show ?thesis
      by (cases "n' = 0") auto
  qed
qed auto

lemma decode_utf8_shape:
  assumes "src \<noteq> []" "byte (hd src) \<noteq> 0"
  shows "\<exists>xs p. decode_utf8 src p0 = (xs @ [0], p) \<and> (xs \<noteq> [] \<or> pu_n_remain p \<noteq> 0)"
proof (cases "continue_loop src (pu_value p0) (pu_n_remain p0)")
  case None
  then show ?thesis
    by (auto simp: decode_utf8_def)
next
  case (Some t)
  obtain cs v n where t: "t = (cs, v, n)"
    by (cases t)
  have "cs = src" if "pu_n_remain p0 \<le> 0"
    using Some that assms(1) unfolding t by (cases src) auto
  then show ?thesis
    using Some assms decode_loop_shape [of cs "if pu_n_remain p0 > 0 \<and> n = 0 then [v] else []" v n] unfolding t
    by (auto simp: decode_utf8_def split: if_splits)
qed

section \<open>Applying\<close>

text \<open>Tokens that are masked before the candidates are looked at, and those that become candidates.\<close>

definition blank :: "vocab \<Rightarrow> llama_token \<Rightarrow> bool" where
  "blank voc tid \<longleftrightarrow> token_to_piece voc tid = [] \<or> byte (token_to_piece voc tid ! 0) = 0"

definition premasked :: "vocab \<Rightarrow> bool \<Rightarrow> llama_token \<Rightarrow> bool" where
  "premasked voc allow_eog tid \<longleftrightarrow> (if is_eog voc tid then \<not> allow_eog else blank voc tid)"

definition candidate :: "vocab \<Rightarrow> llama_grammar \<Rightarrow> nat \<Rightarrow> llama_token \<Rightarrow> llama_grammar_candidate" where
  "candidate voc g i tid = (let (code_points, partial') = decode_utf8 (token_to_piece voc tid) (gr_partial_utf8 g)
     in \<lparr>cd_index = i, cd_code_points = code_points, cd_off = 0, cd_partial_utf8 = partial', cd_id = tid\<rparr>)"

lemma apply_fold:
  assumes "n \<le> length cur_p"
  shows "\<exists>cur. fold (apply_candidate voc g allow_eog) [0..<n] (cur_p, []) =
      (cur, map (\<lambda>i. candidate voc g i (td_id (cur_p ! i))) (filter (\<lambda>i. \<not> is_eog voc (td_id (cur_p ! i)) \<and> \<not> blank voc (td_id (cur_p ! i))) [0..<n])) \<and>
    length cur = length cur_p \<and>
    (\<forall>j < length cur_p. cur ! j = (if j < n \<and> premasked voc allow_eog (td_id (cur_p ! j)) then (cur_p ! j)\<lparr>td_logit := None\<rparr> else cur_p ! j))"
  using assms
proof (induction n)
  case (Suc n)
  then obtain cur where IH: "fold (apply_candidate voc g allow_eog) [0..<n] (cur_p, []) =
      (cur, map (\<lambda>i. candidate voc g i (td_id (cur_p ! i))) (filter (\<lambda>i. \<not> is_eog voc (td_id (cur_p ! i)) \<and> \<not> blank voc (td_id (cur_p ! i))) [0..<n]))"
    "length cur = length cur_p"
    "\<forall>j < length cur_p. cur ! j = (if j < n \<and> premasked voc allow_eog (td_id (cur_p ! j)) then (cur_p ! j)\<lparr>td_logit := None\<rparr> else cur_p ! j)"
    by auto
  have n: "cur ! n = cur_p ! n"
    using IH(3) Suc.prems by simp
  let ?tid = "td_id (cur_p ! n)" and ?cs = "map (\<lambda>i. candidate voc g i (td_id (cur_p ! i))) (filter (\<lambda>i. \<not> is_eog voc (td_id (cur_p ! i)) \<and> \<not> blank voc (td_id (cur_p ! i))) [0..<n])"
  let ?cur = "if premasked voc allow_eog ?tid then mask_token n cur else cur"
  have "apply_candidate voc g allow_eog n (cur, ?cs) =
      (?cur, if \<not> is_eog voc ?tid \<and> \<not> blank voc ?tid then ?cs @ [candidate voc g n ?tid] else ?cs)"
    unfolding apply_candidate_def by (simp add: n premasked_def blank_def candidate_def Let_def split: prod.splits)
  moreover have "\<forall>j < length cur_p. ?cur ! j = (if j < Suc n \<and> premasked voc allow_eog (td_id (cur_p ! j)) then (cur_p ! j)\<lparr>td_logit := None\<rparr> else cur_p ! j)"
    using IH(2,3) n Suc.prems by (auto simp: mask_token_def nth_list_update less_Suc_eq)
  ultimately show ?case
    using IH by (intro exI [of _ ?cur]) (simp add: mask_token_def)
qed simp

lemma mask_rejects:
  assumes "\<forall>r \<in> set R. cd_index r < length cur"
  shows "length (fold (\<lambda>r. mask_token (cd_index r)) R cur) = length cur \<and>
    (\<forall>j < length cur. fold (\<lambda>r. mask_token (cd_index r)) R cur ! j = (if j \<in> cd_index ` set R then (cur ! j)\<lparr>td_logit := None\<rparr> else cur ! j))"
  using assms
proof (induction R arbitrary: cur)
  case (Cons r R)
  then show ?case
    using Cons.IH [of "mask_token (cd_index r) cur"] by (auto simp: mask_token_def nth_list_update)
qed simp

definition decodes_clean :: "vocab \<Rightarrow> llama_grammar \<Rightarrow> llama_token \<Rightarrow> bool" where
  "decodes_clean voc g tid \<longleftrightarrow> 0 \<notin> set (butlast (fst (decode_utf8 (token_to_piece voc tid) (gr_partial_utf8 g))))"

lemma candidate_word:
  assumes "\<not> blank voc tid" "decodes_clean voc g tid"
  shows "cd_ok (candidate voc g i tid)" "cd_id (candidate voc g i tid) = tid" "cd_index (candidate voc g i tid) = i"
    "decode_utf8 (token_to_piece voc tid) (gr_partial_utf8 g) = (cd_word (candidate voc g i tid) @ [0], cd_partial_utf8 (candidate voc g i tid))"
    "cd_word (candidate voc g i tid) \<noteq> [] \<or> pu_n_remain (cd_partial_utf8 (candidate voc g i tid)) \<noteq> 0"
    "length (cd_word (candidate voc g i tid)) < length (cd_code_points (candidate voc g i tid))"
proof -
  obtain xs p where d: "decode_utf8 (token_to_piece voc tid) (gr_partial_utf8 g) = (xs @ [0], p)" "xs \<noteq> [] \<or> pu_n_remain p \<noteq> 0"
    using decode_utf8_shape [of "token_to_piece voc tid" "gr_partial_utf8 g"] assms(1) by (auto simp: blank_def hd_conv_nth)
  have xs: "0 \<notin> set xs"
    using assms(2) d(1) by (simp add: decodes_clean_def)
  then have w: "takeWhile (\<lambda>c. c \<noteq> 0) (xs @ [0]) = xs"
    by (induction xs) auto
  show "cd_ok (candidate voc g i tid)" "cd_id (candidate voc g i tid) = tid" "cd_index (candidate voc g i tid) = i"
    "decode_utf8 (token_to_piece voc tid) (gr_partial_utf8 g) = (cd_word (candidate voc g i tid) @ [0], cd_partial_utf8 (candidate voc g i tid))"
    "cd_word (candidate voc g i tid) \<noteq> [] \<or> pu_n_remain (cd_partial_utf8 (candidate voc g i tid)) \<noteq> 0"
    "length (cd_word (candidate voc g i tid)) < length (cd_code_points (candidate voc g i tid))"
    using d w by (simp_all add: candidate_def cd_ok_def cd_word_def)
qed

text \<open>The grammar as the sampler uses it: not waiting for a trigger, with stacks left.\<close>

definition sampling_ok :: "llama_grammar \<Rightarrow> bool" where
  "sampling_ok g \<longleftrightarrow> engine_ok (gr_rules g) \<and> good_stacks (gr_rules g) (gr_stacks g) \<and> gr_stacks g \<noteq> [] \<and> no_tokens (gr_rules g) \<and>
     \<not> gr_awaiting_trigger g"

lemma accept_impl_candidate:
  assumes g: "sampling_ok g" and tid: "\<not> is_eog voc tid" "\<not> blank voc tid" "decodes_clean voc g tid"
  shows "\<exists>ok g'. llama_grammar_accept_impl voc tid g = Some (ok, g') \<and>
    ((\<exists>s \<in> set (gr_stacks g). cd_viable (gr_rules g) (candidate voc g i tid) s) \<longrightarrow> ok) \<and>
    (pu_n_remain (cd_partial_utf8 (candidate voc g i tid)) = 0 \<longrightarrow> ok \<longrightarrow> (\<exists>s \<in> set (gr_stacks g). cd_viable (gr_rules g) (candidate voc g i tid) s))"
proof -
  let ?c = "candidate voc g i tid"
  note c = candidate_word [OF tid(2,3), of i]
  have gr: "engine_ok (gr_rules g)" "wf_rules (gr_rules g)" "good_stacks (gr_rules g) (gr_stacks g)" "no_tokens (gr_rules g)" "\<not> gr_awaiting_trigger g"
    using g by (simp_all add: sampling_ok_def engine_ok_def)
  obtain new where new: "mfold (accept_token_stack (gr_rules g) tid (cd_word ?c)) (gr_stacks g) [] = Some new"
    "set new = after_token (gr_rules g) (cd_word ?c) (gr_stacks g)"
    using accept_token_stacks_ok [OF gr(1,4,3)] by blast
  have "llama_grammar_accept_impl voc tid g =
      Some (new \<noteq> [], g\<lparr>gr_stacks := new, gr_partial_utf8 := cd_partial_utf8 ?c\<rparr>)"
    using gr(5) tid(1) c(4) new(1) by (simp add: llama_grammar_accept_impl_def llama_grammar_accept_token_def)
  moreover have "new \<noteq> [] \<longleftrightarrow> after_token (gr_rules g) (cd_word ?c) (gr_stacks g) \<noteq> {}"
    using new(2) by auto
  ultimately show ?thesis
    using viable_after_token [OF gr(4,2,3) c(5), of tid] c(2) by auto
qed

text \<open>C33. What survives \<open>llama_grammar_apply_impl\<close> can be accepted, and what can be accepted survives: for a
  grammar without token elements, \<open>apply\<close> returns, leaves every token as it is or sets its logit to minus infinity, and
  a token that keeps its logit is accepted by \<open>llama_grammar_accept_impl\<close> without an exception or abort. A token whose
  text ends with a complete code point loses its logit only if accepting it would throw; an end-of-generation
  token loses it exactly if no stack is empty.\<close>

theorem apply_accept_agree:
  assumes g: "sampling_ok g" and clean: "\<forall>t \<in> set cur_p. decodes_clean voc g (td_id t)"
  shows "\<exists>cur'. llama_grammar_apply_impl voc g cur_p = Some cur' \<and> length cur' = length cur_p \<and>
    (\<forall>i < length cur_p. let tid = td_id (cur_p ! i) in
      (cur' ! i = cur_p ! i \<and> (\<exists>g'. llama_grammar_accept_impl voc tid g = Some (True, g'))) \<or>
      (cur' ! i = (cur_p ! i)\<lparr>td_logit := None\<rparr> \<and>
        (if is_eog voc tid then [] \<notin> set (gr_stacks g)
         else blank voc tid \<or> pu_n_remain (snd (decode_utf8 (token_to_piece voc tid) (gr_partial_utf8 g))) \<noteq> 0 \<or>
           (\<exists>g'. llama_grammar_accept_impl voc tid g = Some (False, g')))))"
proof -
  let ?eog = "[] \<in> set (gr_stacks g)" and ?id = "\<lambda>i. td_id (cur_p ! i)" and ?rules = "gr_rules g"
  let ?isc = "\<lambda>i. \<not> is_eog voc (?id i) \<and> \<not> blank voc (?id i)"
  let ?cs = "map (\<lambda>i. candidate voc g i (?id i)) (filter ?isc [0..<length cur_p])"
  have clean: "decodes_clean voc g (?id i)" if "i < length cur_p" for i
    using clean that by simp
  obtain cur where f: "fold (apply_candidate voc g ?eog) [0..<length cur_p] (cur_p, []) = (cur, ?cs)" "length cur = length cur_p"
    "\<forall>j < length cur_p. cur ! j = (if j < length cur_p \<and> premasked voc ?eog (?id j) then (cur_p ! j)\<lparr>td_logit := None\<rparr> else cur_p ! j)"
    using apply_fold [of "length cur_p" cur_p voc g ?eog] by blast
  let ?n = "Suc (sum_list (map (\<lambda>c. length (cd_code_points c)) ?cs))"
  have cs: "cands_ok ?n ?cs"
    unfolding cands_ok_def
  proof
    fix tok assume tok: "tok \<in> set ?cs"
    then obtain i where i: "i < length cur_p" "?isc i" "tok = candidate voc g i (?id i)"
      by auto
    have "length (cd_code_points tok) \<le> sum_list (map (\<lambda>c. length (cd_code_points c)) ?cs)"
      using tok by (intro member_le_sum_list) auto
    then show "cd_ok tok \<and> length (cd_word tok) < ?n"
      using candidate_word(1,6) [of voc "?id i" g i] i clean by auto
  qed
  have rej: "\<exists>R. llama_grammar_reject_candidates_for_stack ?n ?rules s cs' = Some R \<and> set R = {tok \<in> set cs'. \<not> cd_viable ?rules tok s}"
    if "s \<in> set (gr_stacks g)" "cands_ok ?n cs'" for s cs'
    using g that by (intro reject_for_stack_ok) (auto simp: sampling_ok_def good_stacks_def)
  obtain R where R: "llama_grammar_reject_candidates ?n ?rules (gr_stacks g) ?cs = Some R"
    "set R = {tok \<in> set ?cs. \<forall>s \<in> set (gr_stacks g). \<not> cd_viable ?rules tok s}"
    using reject_with_ok [OF rej cs] g unfolding llama_grammar_reject_candidates_def sampling_ok_def by blast
  let ?cur' = "fold (\<lambda>r. mask_token (cd_index r)) R cur"
  have res: "llama_grammar_apply_impl voc g cur_p = Some ?cur'"
    using g f(1) R(1) by (simp add: llama_grammar_apply_impl_def sampling_ok_def)
  have idx: "j \<in> cd_index ` set R \<longleftrightarrow> ?isc j \<and> (\<forall>s \<in> set (gr_stacks g). \<not> cd_viable ?rules (candidate voc g j (?id j)) s)" if "j < length cur_p" for j
  proof -
    have "cd_index (candidate voc g i (?id i)) = i" for i
      by (simp add: candidate_def split: prod.splits)
    then show ?thesis
      unfolding R(2) using that by (auto simp: image_iff)
  qed
  have "\<forall>r \<in> set R. cd_index r < length cur"
    unfolding R(2) f(2) by (auto simp: candidate_def split: prod.splits)
  note m = mask_rejects [OF this]
  have "let tid = ?id i in (?cur' ! i = cur_p ! i \<and> (\<exists>g'. llama_grammar_accept_impl voc tid g = Some (True, g'))) \<or>
      (?cur' ! i = (cur_p ! i)\<lparr>td_logit := None\<rparr> \<and> (if is_eog voc tid then \<not> ?eog
         else blank voc tid \<or> pu_n_remain (snd (decode_utf8 (token_to_piece voc tid) (gr_partial_utf8 g))) \<noteq> 0 \<or>
           (\<exists>g'. llama_grammar_accept_impl voc tid g = Some (False, g'))))" if i: "i < length cur_p" for i
  proof (cases "?isc i")
    case True
    let ?c = "candidate voc g i (?id i)"
    have vi: "(?cur' ! i) = (if \<forall>s \<in> set (gr_stacks g). \<not> cd_viable ?rules ?c s then (cur_p ! i)\<lparr>td_logit := None\<rparr> else cur_p ! i)"
      using m f(2,3) idx [OF i] i True by (simp add: premasked_def)
    have pu: "cd_partial_utf8 ?c = snd (decode_utf8 (token_to_piece voc (?id i)) (gr_partial_utf8 g))"
      using candidate_word(4) [of voc "?id i" g i] True clean [OF i] by simp
    obtain ok g' where a: "llama_grammar_accept_impl voc (?id i) g = Some (ok, g')"
      "(\<exists>s \<in> set (gr_stacks g). cd_viable ?rules ?c s) \<longrightarrow> ok" "pu_n_remain (cd_partial_utf8 ?c) = 0 \<longrightarrow> ok \<longrightarrow> (\<exists>s \<in> set (gr_stacks g). cd_viable ?rules ?c s)"
      using accept_impl_candidate [OF g _ _ clean [OF i], of i] True by blast
    show ?thesis
    proof (cases "\<exists>s \<in> set (gr_stacks g). cd_viable ?rules ?c s")
      case v: True
      then show ?thesis
        using vi a unfolding Let_def by auto
    next
      case v: False
      then show ?thesis
        using vi a True unfolding pu Let_def by auto
    qed
  next
    case False
    then have cur': "?cur' ! i = (if premasked voc ?eog (?id i) then (cur_p ! i)\<lparr>td_logit := None\<rparr> else cur_p ! i)"
      using m f(2,3) idx [OF i] i by auto
    have "llama_grammar_accept_impl voc (?id i) g = Some (True, g)" if "is_eog voc (?id i)" ?eog
      using that g by (simp add: llama_grammar_accept_impl_def sampling_ok_def)
    then show ?thesis
      using False cur' by (auto simp: premasked_def Let_def)
  qed
  then show ?thesis
    using res m f(2) by (intro exI [of _ ?cur']) simp
qed

lemma init_sampling_ok:
  assumes "engine_ok rules" "left_recursion_free (explicit_empty rules) rules" "no_tokens rules" "r < length rules"
  shows "\<exists>g. llama_grammar_init_impl rules r False ps ts = Some (Some g) \<and> sampling_ok g \<and> gr_partial_utf8 g = no_partial"
proof -
  have wf: "wf_rules rules"
    using assms(1) by (simp add: engine_ok_def)
  obtain stacks where "init_stacks rules r = Some stacks" "good_stacks rules stacks" "stacks \<noteq> []"
    using init_stacks_ok [OF assms(1,4)] by blast
  then show ?thesis
    using check_exact [OF wf] copy_rules_id [OF wf] assms by (simp add: llama_grammar_init_impl_def sampling_ok_def)
qed

definition demo_vocab :: vocab where
  "demo_vocab = \<lparr>token_to_piece = (\<lambda>t. if t = 0 then ''a'' else if t = 1 then ''b'' else if t = 9 then ''xy'' else []), is_eog = (\<lambda>t. t = 2)\<rparr>"

definition demo_cur :: "nat llama_token_data list" where
  "demo_cur = map (\<lambda>t. \<lparr>td_id = t, td_logit = Some 1\<rparr>) [0, 1, 2]"

theorem apply_accept_agree_witness:
  "\<exists>g cur'. llama_grammar_init_impl demo_rules 0 False [] [] = Some (Some g) \<and> llama_grammar_apply_impl demo_vocab g demo_cur = Some cur' \<and>
    length cur' = 3 \<and> (cur' ! 0 = demo_cur ! 0 \<longrightarrow> (\<exists>g'. llama_grammar_accept_impl demo_vocab 0 g = Some (True, g')))"
proof -
  have nt: "no_tokens demo_rules" "0 < length demo_rules"
    by (simp_all add: no_tokens_def demo_rules_def ge_def token_type_def)
  obtain g where g: "llama_grammar_init_impl demo_rules 0 False [] [] = Some (Some g)" "sampling_ok g" "gr_partial_utf8 g = no_partial"
    using init_sampling_ok [OF demo_engine_ok demo_rules_lr nt] by blast
  have "list_all (\<lambda>t. 0 \<notin> set (butlast (fst (decode_utf8 (token_to_piece demo_vocab (td_id t)) no_partial)))) demo_cur"
    by code_simp
  then have "\<forall>t \<in> set demo_cur. decodes_clean demo_vocab g (td_id t)"
    using g(3) by (simp add: decodes_clean_def list_all_iff)
  from apply_accept_agree [OF g(2) this] obtain cur' where c: "llama_grammar_apply_impl demo_vocab g demo_cur = Some cur'" "length cur' = length demo_cur"
    "\<forall>i < length demo_cur. let tid = td_id (demo_cur ! i) in
      (cur' ! i = demo_cur ! i \<and> (\<exists>g'. llama_grammar_accept_impl demo_vocab tid g = Some (True, g'))) \<or>
      (cur' ! i = (demo_cur ! i)\<lparr>td_logit := None\<rparr> \<and>
        (if is_eog demo_vocab tid then [] \<notin> set (gr_stacks g)
         else blank demo_vocab tid \<or> pu_n_remain (snd (decode_utf8 (token_to_piece demo_vocab tid) (gr_partial_utf8 g))) \<noteq> 0 \<or>
           (\<exists>g'. llama_grammar_accept_impl demo_vocab tid g = Some (False, g'))))"
    by blast
  have len: "length demo_cur = 3"
    by (simp add: demo_cur_def)
  have "cur' ! 0 = demo_cur ! 0 \<longrightarrow> (\<exists>g'. llama_grammar_accept_impl demo_vocab 0 g = Some (True, g'))"
    using c(3) [rule_format, of 0] len by (auto simp: Let_def demo_cur_def)
  then show ?thesis
    using g(1) c(1,2) len by auto
qed

definition token_rules :: llama_grammar_rules where
  "token_rules = [[ge GRE_CHAR 120, ge GRE_TOKEN_NOT 3, ge GRE_END 0]]"

text \<open>With a token element behind characters the two disagree: for \<open>root ::= "x" !<[3]>\<close> the candidate
  \<open>xy\<close> keeps its logit, since after \<open>x\<close> the token element is matched against the id of the same token, although accepting
  it throws.\<close>

theorem apply_keeps_unacceptable_token:
  "\<exists>g g'. llama_grammar_init_impl token_rules 0 False [] [] = Some (Some g) \<and>
    llama_grammar_apply_impl demo_vocab g [\<lparr>td_id = 9, td_logit = Some (1 :: nat)\<rparr>] = Some [\<lparr>td_id = 9, td_logit = Some 1\<rparr>] \<and>
    llama_grammar_accept_impl demo_vocab 9 g = Some (False, g')"
proof -
  have "case llama_grammar_init_impl token_rules 0 False [] [] of Some (Some g) \<Rightarrow>
      (case llama_grammar_apply_impl demo_vocab g [\<lparr>td_id = 9, td_logit = Some (1 :: nat)\<rparr>] of
         Some cur \<Rightarrow> map td_id cur = [9] \<and> map td_logit cur = [Some 1] | None \<Rightarrow> False) \<and>
      (case llama_grammar_accept_impl demo_vocab 9 g of Some (ok, _) \<Rightarrow> \<not> ok | None \<Rightarrow> False) | _ \<Rightarrow> False"
    by code_simp
  then obtain g cur ok g' where "llama_grammar_init_impl token_rules 0 False [] [] = Some (Some g)"
    "llama_grammar_apply_impl demo_vocab g [\<lparr>td_id = 9, td_logit = Some (1 :: nat)\<rparr>] = Some cur" "map td_id cur = [9]" "map td_logit cur = [Some 1]"
    "llama_grammar_accept_impl demo_vocab 9 g = Some (ok, g')" "\<not> ok"
    by (auto split: option.splits prod.splits)
  moreover have "cur = [\<lparr>td_id = 9, td_logit = Some 1\<rparr>]"
    using \<open>map td_id cur = [9]\<close> \<open>map td_logit cur = [Some 1]\<close> by (cases cur) auto
  ultimately show ?thesis
    by auto
qed


definition inverse_rules :: llama_grammar_rules where
  "inverse_rules = [[ge GRE_CHAR_NOT 233, ge GRE_END 0]]"


end
