(* ===== verification/Grammar_Parser.thy ===== *)
theory Grammar_Parser
  imports Grammar "HOL-Library.AList"
begin

text \<open>
  The parser of grammar texts (\<open>llama_grammar_parser\<close> in \<open>src/src/llama-grammar.cpp\<close>) and the initialisation of a
  grammar from a text.

  A pointer into the text is the rest of the text from there; reading at its end gives the NUL character, as in C. An
  exception is \<open>Inl\<close> of a \<open>parse_error\<close>, whose constructors are the messages of the source. Two of them stand for
  what is not an exception: \<open>Assert_Failed\<close> for a failing \<open>GGML_ASSERT\<close> and \<open>Out_Of_Fuel\<close> for a loop or a nesting of
  parentheses that exceeds its bound; \<open>Grammar_Text\<close> proves that neither occurs.
\<close>

section \<open>Errors\<close>

datatype parse_error =
  Expecting_Hex | Expecting_Name | Expecting_Integer | Unknown_Escape | Unexpected_End | Expecting_Lt | Expecting_Rbracket
  | Expecting_Gt | No_Vocab | Invalid_Token | Out_Of_Range | Expecting_Preceding_Item | Too_Many_Rules | Too_Many_Repetitions
  | Expecting_Rparen | Expecting_Int | Expecting_Rbrace | Expecting_Comma | Expecting_Def | Expecting_Newline | Undefined_Rule
  | Undefined_Identifier string | Assert_Failed | Out_Of_Fuel

type_synonym 'a result = "parse_error + 'a"

definition ebind :: "'a result \<Rightarrow> ('a \<Rightarrow> 'b result) \<Rightarrow> 'b result" where
  [code_unfold]: "ebind x f = (case x of Inl e \<Rightarrow> Inl e | Inr a \<Rightarrow> f a)"

definition check :: "bool \<Rightarrow> parse_error \<Rightarrow> unit result" where
  "check b e = (if b then Inr () else Inl e)"

section \<open>Lexical functions\<close>

abbreviation NUL :: char where
  "NUL \<equiv> CHR 0x00"

definition char_at :: "string \<Rightarrow> nat \<Rightarrow> char" where
  "char_at pos i = (if i < length pos then pos ! i else NUL)"

definition is_digit_char :: "char \<Rightarrow> bool" where
  "is_digit_char c \<longleftrightarrow> 48 \<le> byte c \<and> byte c \<le> 57"

definition is_word_char :: "char \<Rightarrow> bool" where
  "is_word_char c \<longleftrightarrow> (97 \<le> byte c \<and> byte c \<le> 122) \<or> (65 \<le> byte c \<and> byte c \<le> 90) \<or> c = CHR ''-'' \<or> is_digit_char c"

definition hex_digit :: "char \<Rightarrow> int option" where
  "hex_digit c =
     (if 97 \<le> byte c \<and> byte c \<le> 102 then Some (byte c - 97 + 10)
      else if 65 \<le> byte c \<and> byte c \<le> 70 then Some (byte c - 65 + 10)
      else if 48 \<le> byte c \<and> byte c \<le> 57 then Some (byte c - 48)
      else None)"

text \<open>\<open>None\<close>: the loop stopped before \<open>size\<close> characters.\<close>

fun hex_loop :: "nat \<Rightarrow> string \<Rightarrow> int \<Rightarrow> (int \<times> string) option" where
  "hex_loop 0 pos value = Some (value, pos)"
| "hex_loop (Suc n) [] value = None"
| "hex_loop (Suc n) (c # cs) value = (case hex_digit c of None \<Rightarrow> None | Some d \<Rightarrow> hex_loop n cs ((value * 16 + d) mod 2 ^ 32))"

definition parse_hex :: "string \<Rightarrow> nat \<Rightarrow> (int \<times> string) result" where
  "parse_hex src sz = (case hex_loop sz src 0 of None \<Rightarrow> Inl Expecting_Hex | Some r \<Rightarrow> Inr r)"

definition is_eol :: "char \<Rightarrow> bool" where
  "is_eol c \<longleftrightarrow> byte c = 13 \<or> byte c = 10"

definition skip_comment :: "string \<Rightarrow> string" where
  "skip_comment = dropWhile (\<lambda>c. c \<noteq> NUL \<and> \<not> is_eol c)"

function parse_space :: "string \<Rightarrow> bool \<Rightarrow> string" where
  "parse_space [] newline_ok = []"
| "parse_space (c # cs) newline_ok =
     (if c = CHR '' '' \<or> byte c = 9 \<or> (newline_ok \<and> is_eol c) then parse_space cs newline_ok
      else if c = CHR ''#'' then parse_space (skip_comment cs) newline_ok
      else c # cs)"
  by pat_completeness auto
termination
  by (relation "measure (\<lambda>(s, _). length s)") (auto simp: skip_comment_def le_imp_less_Suc length_dropWhile_le)

definition parse_name :: "string \<Rightarrow> (string \<times> string) result" where
  "parse_name src = (let name = takeWhile is_word_char src
     in if name = [] then Inl Expecting_Name else Inr (name, dropWhile is_word_char src))"

definition parse_int :: "string \<Rightarrow> (string \<times> string) result" where
  "parse_int src = (let digits = takeWhile is_digit_char src
     in if digits = [] then Inl Expecting_Integer else Inr (digits, dropWhile is_digit_char src))"

text \<open>\<open>std::stoull\<close> and \<open>std::stoul\<close> of a string of digits.\<close>

definition stoull :: "string \<Rightarrow> int result" where
  "stoull digits = (let v = foldl (\<lambda>v c. v * 10 + (byte c - 48)) 0 digits
     in if v < 2 ^ 64 then Inr v else Inl Out_Of_Range)"

definition parse_char :: "string \<Rightarrow> (int \<times> string) result" where
  "parse_char src =
     (if char_at src 0 = CHR 0x5C then
        (let c = char_at src 1; rest = drop 2 src in
         if c = CHR ''x'' then parse_hex rest 2
         else if c = CHR ''u'' then parse_hex rest 4
         else if c = CHR ''U'' then parse_hex rest 8
         else if c = CHR ''t'' then Inr (9, rest)
         else if c = CHR ''r'' then Inr (13, rest)
         else if c = CHR ''n'' then Inr (10, rest)
         else if c \<in> {CHR 0x5C, CHR 0x22, CHR ''['', CHR '']''} then Inr (byte c, rest)
         else Inl Unknown_Escape)
      else if char_at src 0 \<noteq> NUL then
        (case decode_utf8_char src of None \<Rightarrow> Inl Assert_Failed | Some r \<Rightarrow> Inr r)
      else Inl Unexpected_End)"

text \<open>The vocabulary is given by its function \<open>tokenize\<close>, or is null.\<close>

definition parse_token :: "(string \<Rightarrow> llama_token list) option \<Rightarrow> string \<Rightarrow> (int \<times> string) result" where
  "parse_token vocab src =
     ebind (check (char_at src 0 = CHR ''<'') Expecting_Lt) (\<lambda>_.
       let pos = drop 1 src in
       if char_at pos 0 = CHR ''['' then
         ebind (parse_int (drop 1 pos)) (\<lambda>(digits, pos1).
         ebind (stoull digits) (\<lambda>token_id.
         ebind (check (char_at pos1 0 = CHR '']'') Expecting_Rbracket) (\<lambda>_.
         ebind (check (char_at pos1 1 = CHR ''>'') Expecting_Gt) (\<lambda>_.
           Inr (token_id mod 2 ^ 32, drop 2 pos1)))))
       else (case vocab of None \<Rightarrow> Inl No_Vocab
         | Some tokenize \<Rightarrow>
             (let name = takeWhile (\<lambda>c. c \<noteq> NUL \<and> c \<noteq> CHR ''>'') pos; pos1 = dropWhile (\<lambda>c. c \<noteq> NUL \<and> c \<noteq> CHR ''>'') pos in
              ebind (check (char_at pos1 0 = CHR ''>'') Expecting_Gt) (\<lambda>_.
                case tokenize (CHR ''<'' # name @ ''>'') of
                  [t] \<Rightarrow> Inr (t mod 2 ^ 32, drop 1 pos1)
                | _ \<Rightarrow> Inl Invalid_Token))))"

section \<open>State of the parser\<close>

record llama_grammar_parser =
  symbol_ids :: "(string \<times> int) list"
  parser_rules :: llama_grammar_rules

definition parser_new :: llama_grammar_parser where
  "parser_new = \<lparr>symbol_ids = [], parser_rules = []\<rparr>"

abbreviation elt :: "llama_gretype \<Rightarrow> int \<Rightarrow> llama_grammar_element" where
  "elt t v \<equiv> \<lparr>ge_type = t, ge_value = v\<rparr>"

fun to_string :: "nat \<Rightarrow> string" where
  "to_string n = (if n < 10 then [char_of (48 + n)] else to_string (n div 10) @ [char_of (48 + n mod 10)])"

declare to_string.simps [simp del]

definition get_symbol_id :: "string \<Rightarrow> llama_grammar_parser \<Rightarrow> int \<times> llama_grammar_parser" where
  "get_symbol_id name p =
     (let next_id = int (length (symbol_ids p)) mod 2 ^ 32
      in case map_of (symbol_ids p) name of
           Some i \<Rightarrow> (i, p)
         | None \<Rightarrow> (next_id, p\<lparr>symbol_ids := symbol_ids p @ [(name, next_id)]\<rparr>))"

definition generate_symbol_id :: "string \<Rightarrow> llama_grammar_parser \<Rightarrow> int \<times> llama_grammar_parser" where
  "generate_symbol_id base_name p =
     (let next_id = int (length (symbol_ids p)) mod 2 ^ 32
      in (next_id, p\<lparr>symbol_ids := AList.update (base_name @ ''_'' @ to_string (nat next_id)) next_id (symbol_ids p)\<rparr>))"

definition add_rule :: "int \<Rightarrow> llama_grammar_rule \<Rightarrow> llama_grammar_parser \<Rightarrow> llama_grammar_parser" where
  "add_rule rule_id rule p =
     (let i = nat rule_id; rs = parser_rules p @ replicate (i + 1 - length (parser_rules p)) []
      in p\<lparr>parser_rules := rs[i := rule]\<rparr>)"

section \<open>Repetitions\<close>

text \<open>What \<open>parse_sequence\<close> keeps while it reads: the position, the rule so far, where the last symbol starts in it,
  how many rules that symbol made, and the parser.\<close>

record seq_state =
  sq_pos :: string
  sq_rule :: llama_grammar_rule
  sq_last :: nat
  sq_n_prev :: int
  sq_parser :: llama_grammar_parser

definition UINT64_MAX :: int where
  "UINT64_MAX = 2 ^ 64 - 1"

definition MAX_REPETITION_THRESHOLD :: int where
  "MAX_REPETITION_THRESHOLD = 2000"

definition rep_step :: "string \<Rightarrow> llama_grammar_rule \<Rightarrow> bool \<Rightarrow> bool \<Rightarrow> int \<times> llama_grammar_parser \<Rightarrow> int \<times> llama_grammar_parser" where
  "rep_step rule_name prev_rule no_max is_first = (\<lambda>(last_rec_rule_id, p).
     let (rec_rule_id, p1) = generate_symbol_id rule_name p;
         rec_rule = prev_rule @
           (if \<not> is_first \<or> no_max then [elt GRE_RULE_REF (if no_max then rec_rule_id else last_rec_rule_id)] else []) @
           [elt GRE_ALT 0, elt GRE_END 0]
     in (rec_rule_id, add_rule rec_rule_id rec_rule p1))"

primrec rep_loop :: "nat \<Rightarrow> string \<Rightarrow> llama_grammar_rule \<Rightarrow> bool \<Rightarrow> bool \<Rightarrow> int \<times> llama_grammar_parser \<Rightarrow> int \<times> llama_grammar_parser" where
  "rep_loop 0 rule_name prev_rule no_max is_first x = x"
| "rep_loop (Suc n) rule_name prev_rule no_max is_first x =
     rep_loop n rule_name prev_rule no_max False (rep_step rule_name prev_rule no_max is_first x)"

definition n_opt :: "int \<Rightarrow> int \<Rightarrow> int" where
  "n_opt min_times max_times = (if max_times = UINT64_MAX then 1 else (max_times - min_times) mod 2 ^ 64)"

definition handle_repetitions :: "string \<Rightarrow> int \<Rightarrow> int \<Rightarrow> seq_state \<Rightarrow> seq_state result" where
  "handle_repetitions rule_name min_times max_times sq =
     (let no_max = (max_times = UINT64_MAX) in
      ebind (check (sq_last sq \<noteq> length (sq_rule sq)) Expecting_Preceding_Item) (\<lambda>_.
        let prev_rule = drop (sq_last sq) (sq_rule sq);
            total_rules = (if \<not> no_max \<and> max_times > 0 then max_times else if min_times > 0 then min_times else 1) in
        ebind (check ((sq_n_prev sq * total_rules) mod 2 ^ 64 < MAX_REPETITION_THRESHOLD) Too_Many_Rules) (\<lambda>_.
          let rule1 = (if min_times = 0 then take (sq_last sq) (sq_rule sq)
                       else sq_rule sq @ concat (replicate (nat (min_times - 1)) prev_rule));
              n = n_opt min_times max_times;
              (last_rec_rule_id, p1) = rep_loop (nat n) rule_name prev_rule no_max True (0, sq_parser sq);
              rule2 = (if n > 0 then rule1 @ [elt GRE_RULE_REF last_rec_rule_id] else rule1);
              n_prev' = (sq_n_prev sq * total_rules) mod 2 ^ 64 in
          ebind (check (n_prev' \<ge> 1) Assert_Failed) (\<lambda>_.
            Inr (sq\<lparr>sq_rule := rule2, sq_n_prev := n_prev', sq_parser := p1\<rparr>)))))"

section \<open>Sequences\<close>

lemma text_rest_length: "length (snd (text_rest n cs v)) \<le> length cs"
  by (induction n cs v rule: text_rest.induct) (auto simp: le_SucI)

lemma hex_loop_length: "hex_loop n pos v = Some (w, pos') \<Longrightarrow> length pos' \<le> length pos"
  by (induction n pos v rule: hex_loop.induct) (auto split: option.splits)

lemma decode_utf8_char_length: "decode_utf8_char src = Some (v, rest) \<Longrightarrow> length rest < length src"
  using text_rest_length by (auto simp: decode_utf8_char_def Let_def le_imp_less_Suc split: list.splits dest!: sym [of _ "(v, rest)"])
    (metis snd_conv le_imp_less_Suc)

lemma parse_hex_length: "parse_hex src n = Inr (v, rest) \<Longrightarrow> length rest \<le> length src"
  using hex_loop_length by (auto simp: parse_hex_def split: option.splits)

lemma parse_char_length:
  assumes "parse_char src = Inr (v, rest)"
  shows "length rest < length src"
proof (cases "char_at src 0 = CHR 0x5C")
  case True
  then have "src \<noteq> []"
    by (auto simp: char_at_def)
  then have "length (drop 2 src) < length src"
    by simp
  then show ?thesis
    using assms True parse_hex_length [of "drop 2 src"]
    by (auto simp: parse_char_def Let_def split: if_splits dest: order_le_less_trans)
next
  case False
  then show ?thesis
    using assms decode_utf8_char_length by (auto simp: parse_char_def split: if_splits option.splits)
qed

text \<open>A literal up to the closing quote, and a character class up to the closing bracket.\<close>

function literal_loop :: "string \<Rightarrow> llama_grammar_rule \<Rightarrow> (string \<times> llama_grammar_rule) result" where
  "literal_loop pos rule =
     (if char_at pos 0 = CHR 0x22 then Inr (drop 1 pos, rule)
      else if char_at pos 0 = NUL then Inl Unexpected_End
      else case parse_char pos of Inl e \<Rightarrow> Inl e
           | Inr (c, pos1) \<Rightarrow> literal_loop pos1 (rule @ [elt GRE_CHAR c]))"
  by pat_completeness auto
termination
  by (relation "measure (\<lambda>(s, _). length s)") (auto dest: parse_char_length)

declare literal_loop.simps [simp del]

definition range_item :: "llama_gretype \<Rightarrow> nat \<Rightarrow> string \<Rightarrow> llama_grammar_rule \<Rightarrow> (string \<times> llama_grammar_rule) result" where
  "range_item start_type last_sym_start pos rule = (case parse_char pos of Inl e \<Rightarrow> Inl e
   | Inr (c, pos1) \<Rightarrow>
       (let rule1 = rule @ [elt (if last_sym_start < length rule then GRE_CHAR_ALT else start_type) c] in
        if char_at pos1 0 = CHR ''-'' \<and> char_at pos1 1 \<noteq> CHR '']'' then
          (if char_at pos1 1 = NUL then Inl Unexpected_End
           else case parse_char (drop 1 pos1) of Inl e \<Rightarrow> Inl e
                | Inr (c2, pos2) \<Rightarrow> Inr (pos2, rule1 @ [elt GRE_CHAR_RNG_UPPER c2]))
        else Inr (pos1, rule1)))"

lemma range_item_length: "range_item t k pos rule = Inr (pos', rule') \<Longrightarrow> length pos' < length pos"
proof -
  assume a: "range_item t k pos rule = Inr (pos', rule')"
  then obtain c pos1 where c: "parse_char pos = Inr (c, pos1)"
    by (auto simp: range_item_def split: sum.splits)
  show ?thesis
    using a c parse_char_length [OF c] parse_char_length [of "drop 1 pos1"]
    by (fastforce simp: range_item_def Let_def split: sum.splits if_splits)
qed

function range_loop :: "llama_gretype \<Rightarrow> nat \<Rightarrow> string \<Rightarrow> llama_grammar_rule \<Rightarrow> (string \<times> llama_grammar_rule) result" where
  "range_loop start_type last_sym_start pos rule =
     (if char_at pos 0 = CHR '']'' then Inr (drop 1 pos, rule)
      else if char_at pos 0 = NUL then Inl Unexpected_End
      else case range_item start_type last_sym_start pos rule of Inl e \<Rightarrow> Inl e
           | Inr (pos1, rule1) \<Rightarrow> range_loop start_type last_sym_start pos1 rule1)"
  by pat_completeness auto
termination
  by (relation "measure (\<lambda>(_, _, s, _). length s)") (auto dest: range_item_length)

declare range_loop.simps [simp del]

text \<open>The second number between braces, which may be missing.\<close>

definition parse_max :: "bool \<Rightarrow> string \<Rightarrow> (int \<times> string) result" where
  "parse_max is_nested pos =
     (if is_digit_char (char_at pos 0) then
        ebind (parse_int pos) (\<lambda>(digits, int_end).
        ebind (stoull digits) (\<lambda>max_times. Inr (max_times, parse_space int_end is_nested)))
      else Inr (UINT64_MAX, pos))"

text \<open>The bounds between braces: the two numbers and the position behind the closing brace.\<close>

definition parse_bounds :: "bool \<Rightarrow> string \<Rightarrow> (int \<times> int \<times> string) result" where
  "parse_bounds is_nested pos =
     ebind (check (is_digit_char (char_at pos 0)) Expecting_Int) (\<lambda>_.
     ebind (parse_int pos) (\<lambda>(digits, int_end).
     ebind (stoull digits) (\<lambda>min_times.
       let pos1 = parse_space int_end is_nested in
       if char_at pos1 0 = CHR ''}'' then Inr (min_times, min_times, parse_space (drop 1 pos1) is_nested)
       else if char_at pos1 0 = CHR '','' then
         (let pos2 = parse_space (drop 1 pos1) is_nested in
          ebind (parse_max is_nested pos2) (\<lambda>(max_times, pos3).
          ebind (check (char_at pos3 0 = CHR ''}'') Expecting_Rbrace) (\<lambda>_.
            Inr (min_times, max_times, parse_space (drop 1 pos3) is_nested))))
       else Inl Expecting_Comma)))"

text \<open>One item of a sequence. The parser of nested alternates is a parameter here and closed below; the result
  \<open>None\<close> is the end of the sequence.\<close>

type_synonym alternates_parser =
  "string \<Rightarrow> string \<Rightarrow> int \<Rightarrow> bool \<Rightarrow> llama_grammar_parser \<Rightarrow> (string \<times> llama_grammar_parser) result"

definition sq_symbol :: "string \<Rightarrow> llama_grammar_rule \<Rightarrow> seq_state \<Rightarrow> seq_state" where
  "sq_symbol pos rule sq = sq\<lparr>sq_pos := pos, sq_rule := rule, sq_last := length (sq_rule sq), sq_n_prev := 1\<rparr>"

definition parse_group :: "alternates_parser \<Rightarrow> string \<Rightarrow> bool \<Rightarrow> seq_state \<Rightarrow> seq_state result" where
  "parse_group alternates rule_name is_nested sq =
     (let pos = parse_space (drop 1 (sq_pos sq)) True;
          n_rules_before = int (length (symbol_ids (sq_parser sq))) mod 2 ^ 32;
          (sub_rule_id, p1) = generate_symbol_id rule_name (sq_parser sq) in
      ebind (alternates pos rule_name sub_rule_id True p1) (\<lambda>(pos1, p2).
      ebind (check (char_at pos1 0 = CHR '')'') Expecting_Rparen) (\<lambda>_.
        Inr \<lparr>sq_pos = parse_space (drop 1 pos1) is_nested, sq_rule = sq_rule sq @ [elt GRE_RULE_REF sub_rule_id],
             sq_last = length (sq_rule sq),
             sq_n_prev = max 1 ((int (length (symbol_ids p2)) mod 2 ^ 32 - n_rules_before) mod 2 ^ 32), sq_parser = p2\<rparr>)))"

definition parse_item ::
  "(string \<Rightarrow> llama_token list) option \<Rightarrow> alternates_parser \<Rightarrow> string \<Rightarrow> bool \<Rightarrow> seq_state \<Rightarrow> seq_state option result" where
  "parse_item vocab alternates rule_name is_nested sq =
     (let pos = sq_pos sq; rule = sq_rule sq; c = char_at pos 0;
          skip = (\<lambda>pos. parse_space pos is_nested); repeat = (\<lambda>lo hi. handle_repetitions rule_name lo hi (sq\<lparr>sq_pos := parse_space (drop 1 pos) is_nested\<rparr>)) in
      if c = NUL then Inr None
      else if c = CHR 0x22 then
        ebind (literal_loop (drop 1 pos) rule) (\<lambda>(pos1, rule1). Inr (Some (sq_symbol (skip pos1) rule1 sq)))
      else if c = CHR ''['' then
        (let neg = (char_at pos 1 = CHR ''^'') in
         ebind (range_loop (if neg then GRE_CHAR_NOT else GRE_CHAR) (length rule) (drop (if neg then 2 else 1) pos) rule) (\<lambda>(pos1, rule1).
           Inr (Some (sq_symbol (skip pos1) rule1 sq))))
      else if c = CHR ''<'' \<or> c = CHR ''!'' then
        ebind (parse_token vocab (if c = CHR ''!'' then drop 1 pos else pos)) (\<lambda>(t, pos1).
          Inr (Some (sq_symbol (skip pos1) (rule @ [elt (if c = CHR ''!'' then GRE_TOKEN_NOT else GRE_TOKEN) t]) sq)))
      else if is_word_char c then
        ebind (parse_name pos) (\<lambda>(name, pos1).
          let (ref_rule_id, p1) = get_symbol_id name (sq_parser sq)
          in Inr (Some ((sq_symbol (skip pos1) (rule @ [elt GRE_RULE_REF ref_rule_id]) sq)\<lparr>sq_parser := p1\<rparr>)))
      else if c = CHR ''('' then
        ebind (parse_group alternates rule_name is_nested sq) (\<lambda>sq1. Inr (Some sq1))
      else if c = CHR ''.'' then Inr (Some (sq_symbol (skip (drop 1 pos)) (rule @ [elt GRE_CHAR_ANY 0]) sq))
      else if c = CHR ''*'' then ebind (repeat 0 UINT64_MAX) (\<lambda>sq1. Inr (Some sq1))
      else if c = CHR ''+'' then ebind (repeat 1 UINT64_MAX) (\<lambda>sq1. Inr (Some sq1))
      else if c = CHR ''?'' then ebind (repeat 0 1) (\<lambda>sq1. Inr (Some sq1))
      else if c = CHR 0x7B then
        ebind (parse_bounds is_nested (skip (drop 1 pos))) (\<lambda>(min_times, max_times, pos1).
        ebind (check (\<not> (min_times > MAX_REPETITION_THRESHOLD \<or> (max_times \<noteq> UINT64_MAX \<and> max_times > MAX_REPETITION_THRESHOLD)))
                 Too_Many_Repetitions) (\<lambda>_.
        ebind (handle_repetitions rule_name min_times max_times (sq\<lparr>sq_pos := pos1\<rparr>)) (\<lambda>sq1. Inr (Some sq1))))
      else Inr None)"

primrec seq_loop ::
  "nat \<Rightarrow> (string \<Rightarrow> llama_token list) option \<Rightarrow> alternates_parser \<Rightarrow> string \<Rightarrow> bool \<Rightarrow> seq_state \<Rightarrow> seq_state result" where
  "seq_loop 0 vocab alternates rule_name is_nested sq = Inl Out_Of_Fuel"
| "seq_loop (Suc n) vocab alternates rule_name is_nested sq =
     ebind (parse_item vocab alternates rule_name is_nested sq) (\<lambda>r. case r of
       None \<Rightarrow> Inr sq
     | Some sq1 \<Rightarrow> seq_loop n vocab alternates rule_name is_nested sq1)"

definition parse_sequence ::
  "(string \<Rightarrow> llama_token list) option \<Rightarrow> alternates_parser \<Rightarrow> string \<Rightarrow> bool \<Rightarrow> string \<Rightarrow> llama_grammar_rule \<Rightarrow> llama_grammar_parser \<Rightarrow>
   (string \<times> llama_grammar_rule \<times> llama_grammar_parser) result" where
  "parse_sequence vocab alternates rule_name is_nested src rule p =
     ebind (seq_loop (Suc (length src)) vocab alternates rule_name is_nested
              \<lparr>sq_pos = src, sq_rule = rule, sq_last = length rule, sq_n_prev = 1, sq_parser = p\<rparr>) (\<lambda>sq.
       Inr (sq_pos sq, sq_rule sq, sq_parser sq))"

section \<open>Alternates, rules and texts\<close>

primrec alternates_loop ::
  "nat \<Rightarrow> (string \<Rightarrow> llama_token list) option \<Rightarrow> alternates_parser \<Rightarrow> string \<Rightarrow> bool \<Rightarrow> string \<Rightarrow> llama_grammar_rule \<Rightarrow> llama_grammar_parser \<Rightarrow>
   (string \<times> llama_grammar_rule \<times> llama_grammar_parser) result" where
  "alternates_loop 0 vocab alternates rule_name is_nested pos rule p = Inl Out_Of_Fuel"
| "alternates_loop (Suc n) vocab alternates rule_name is_nested pos rule p =
     (if char_at pos 0 \<noteq> CHR ''|'' then Inr (pos, rule, p)
      else ebind (parse_sequence vocab alternates rule_name is_nested (parse_space (drop 1 pos) True) (rule @ [elt GRE_ALT 0]) p)
        (\<lambda>(pos1, rule1, p1). alternates_loop n vocab alternates rule_name is_nested pos1 rule1 p1))"

text \<open>The first argument bounds the nesting of parentheses.\<close>

primrec parse_alternates :: "nat \<Rightarrow> (string \<Rightarrow> llama_token list) option \<Rightarrow> alternates_parser" where
  "parse_alternates 0 vocab src rule_name rule_id is_nested p = Inl Out_Of_Fuel"
| "parse_alternates (Suc n) vocab src rule_name rule_id is_nested p =
     ebind (parse_sequence vocab (parse_alternates n vocab) rule_name is_nested src [] p) (\<lambda>(pos1, rule1, p1).
     ebind (alternates_loop (Suc (length pos1)) vocab (parse_alternates n vocab) rule_name is_nested pos1 rule1 p1) (\<lambda>(pos2, rule2, p2).
       Inr (pos2, add_rule rule_id (rule2 @ [elt GRE_END 0]) p2)))"

definition parse_rule :: "(string \<Rightarrow> llama_token list) option \<Rightarrow> string \<Rightarrow> llama_grammar_parser \<Rightarrow> (string \<times> llama_grammar_parser) result" where
  "parse_rule vocab src p =
     ebind (parse_name src) (\<lambda>(name, name_end).
       let pos = parse_space name_end False; (rule_id, p1) = get_symbol_id name p in
       ebind (check (char_at pos 0 = CHR '':'' \<and> char_at pos 1 = CHR '':'' \<and> char_at pos 2 = CHR ''='') Expecting_Def) (\<lambda>_.
       ebind (parse_alternates (Suc (length src)) vocab (parse_space (drop 3 pos) True) name rule_id False p1) (\<lambda>(pos1, p2).
       ebind (if byte (char_at pos1 0) = 13 then Inr (drop (if byte (char_at pos1 1) = 10 then 2 else 1) pos1)
              else if byte (char_at pos1 0) = 10 then Inr (drop 1 pos1)
              else if char_at pos1 0 \<noteq> NUL then Inl Expecting_Newline
              else Inr pos1) (\<lambda>pos2.
         Inr (parse_space pos2 True, p2)))))"

primrec rules_loop :: "nat \<Rightarrow> (string \<Rightarrow> llama_token list) option \<Rightarrow> string \<Rightarrow> llama_grammar_parser \<Rightarrow> llama_grammar_parser result" where
  "rules_loop 0 vocab pos p = Inl Out_Of_Fuel"
| "rules_loop (Suc n) vocab pos p =
     (if char_at pos 0 = NUL then Inr p
      else ebind (parse_rule vocab pos p) (\<lambda>(pos1, p1). rules_loop n vocab pos1 p1))"

text \<open>The validation at the end. A reference to an undefined rule is an error if some symbol has its id.\<close>

definition check_elem :: "llama_grammar_parser \<Rightarrow> llama_grammar_element \<Rightarrow> unit result" where
  "check_elem p e =
     (if ge_type e = GRE_RULE_REF \<and>
         (nat (ge_value e) \<ge> length (parser_rules p) \<or> parser_rules p ! nat (ge_value e) = [])
      then (case find (\<lambda>kv. snd kv = ge_value e) (symbol_ids p) of
              Some kv \<Rightarrow> Inl (Undefined_Identifier (fst kv))
            | None \<Rightarrow> Inr ())
      else Inr ())"

fun check_elems :: "llama_grammar_parser \<Rightarrow> llama_grammar_rule \<Rightarrow> unit result" where
  "check_elems p [] = Inr ()"
| "check_elems p (e # es) = ebind (check_elem p e) (\<lambda>_. check_elems p es)"

fun check_rules :: "llama_grammar_parser \<Rightarrow> llama_grammar_rules \<Rightarrow> unit result" where
  "check_rules p [] = Inr ()"
| "check_rules p (r # rs) =
     ebind (check (r \<noteq> []) Undefined_Rule) (\<lambda>_. ebind (check_elems p r) (\<lambda>_. check_rules p rs))"

text \<open>\<open>Inl\<close> stands for the result \<open>false\<close>, with the rules cleared.\<close>

definition parse :: "(string \<Rightarrow> llama_token list) option \<Rightarrow> string \<Rightarrow> llama_grammar_parser result" where
  "parse vocab src =
     (let pos = parse_space src True in
      ebind (rules_loop (Suc (length pos)) vocab pos parser_new) (\<lambda>p.
      ebind (check_rules p (parser_rules p)) (\<lambda>_. Inr p)))"

text \<open>Initialisation of a grammar from a text; the inner \<open>None\<close> is the null pointer.\<close>

definition llama_grammar_init_str ::
  "(string \<Rightarrow> llama_token list) option \<Rightarrow> string \<Rightarrow> string \<Rightarrow> bool \<Rightarrow> (string \<Rightarrow> nat option) list \<Rightarrow> llama_token list \<Rightarrow> llama_grammar option option" where
  "llama_grammar_init_str vocab grammar_str grammar_root lazy trigger_patterns trigger_tokens =
     (case parse vocab grammar_str of
        Inl _ \<Rightarrow> Some None
      | Inr p \<Rightarrow>
          if parser_rules p = [] then Some None
          else (case map_of (symbol_ids p) grammar_root of
                  None \<Rightarrow> Some None
                | Some start \<Rightarrow> llama_grammar_init_impl (parser_rules p) (nat start) lazy trigger_patterns trigger_tokens))"

end
