(* ===== verification/Grammar_Text.thy ===== *)
theory Grammar_Text
  imports Grammar_Parser Grammar_Lang
begin

text \<open>
  The grammar parser returns on every text without exhausting a bound or failing an assertion, and a text it accepts
  gives well-formed rules, which is what the theories about the grammar engine assume. The parser of nested
  alternates enters the lemmas on sequences through the locale \<open>nested_alternates\<close>, the contract between the two
  mutually recursive functions, and is shown to satisfy it by induction on the depth.
\<close>

section \<open>Results\<close>

definition ok_result :: "('a \<Rightarrow> bool) \<Rightarrow> 'a result \<Rightarrow> bool" where
  "ok_result P r \<longleftrightarrow> (case r of Inl e \<Rightarrow> e \<noteq> Assert_Failed \<and> e \<noteq> Out_Of_Fuel | Inr a \<Rightarrow> P a)"

lemma ok_result_simps [simp]:
  "ok_result P (Inr a) \<longleftrightarrow> P a" "ok_result P (Inl e) \<longleftrightarrow> e \<noteq> Assert_Failed \<and> e \<noteq> Out_Of_Fuel"
  by (simp_all add: ok_result_def)

lemma ok_ebind:
  assumes "ok_result P r" "\<And>a. r = Inr a \<Longrightarrow> P a \<Longrightarrow> ok_result Q (f a)"
  shows "ok_result Q (ebind r f)"
  using assms by (cases r) (auto simp: ebind_def)

lemma ok_check:
  assumes "b \<or> (e \<noteq> Assert_Failed \<and> e \<noteq> Out_Of_Fuel)" "b \<Longrightarrow> ok_result Q (f ())"
  shows "ok_result Q (ebind (check b e) f)"
  using assms by (auto simp: check_def ebind_def)

lemma ok_mono: "ok_result P r \<Longrightarrow> (\<And>a. r = Inr a \<Longrightarrow> P a \<Longrightarrow> Q a) \<Longrightarrow> ok_result Q r"
  by (cases r) auto

lemma ok_resultD: "ok_result P r \<Longrightarrow> r = Inr a \<Longrightarrow> P a"
  by simp

lemma ebind_simps [simp]: "ebind (Inr a) f = f a" "ebind (Inl e) f = Inl e"
  by (simp_all add: ebind_def)

lemma ebind_eq_Inr: "ebind r f = Inr b \<longleftrightarrow> (\<exists>a. r = Inr a \<and> f a = Inr b)"
  by (cases r) auto

lemma check_eq_Inr [simp]: "check b e = Inr u \<longleftrightarrow> b"
  by (simp add: check_def)

section \<open>Lexical functions\<close>

abbreviation u32 :: "int \<Rightarrow> bool" where
  "u32 v \<equiv> 0 \<le> v \<and> v < 2 ^ 32"

lemma parse_space_length: "length (parse_space s nl) \<le> length s"
proof (induction s nl rule: parse_space.induct)
  case (2 c cs nl)
  have "length (skip_comment cs) \<le> length cs"
    by (simp add: skip_comment_def length_dropWhile_le)
  with 2 show ?case
    by auto
qed simp

lemma char_at_nonempty: "char_at pos i \<noteq> NUL \<Longrightarrow> i < length pos"
  by (simp add: char_at_def split: if_splits)

lemma char_at_word: "is_word_char (char_at pos 0) \<Longrightarrow> pos \<noteq> [] \<and> is_word_char (hd pos)"
  by (cases pos) (simp_all add: char_at_def is_word_char_def is_digit_char_def)

lemma text_rest_range: "u32 v \<Longrightarrow> u32 (fst (text_rest n cs v))"
  by (induction n cs v rule: text_rest.induct) (auto simp: shift_in_def)

lemma hex_loop_range: "hex_loop n pos v = Some (w, pos') \<Longrightarrow> u32 v \<Longrightarrow> u32 w"
  by (induction n pos v rule: hex_loop.induct) (auto split: option.splits)

lemma parse_hex_ok: "ok_result (\<lambda>(v, rest). length rest \<le> length src \<and> u32 v) (parse_hex src n)"
  using hex_loop_length hex_loop_range by (auto simp: parse_hex_def split: option.splits)

lemma byte_bounds: "0 \<le> byte c" "byte c < 256"
  using of_char_mod_256 [of c, where 'a = int] by (metis pos_mod_sign zero_less_numeral) (metis of_char_mod_256 pos_mod_bound zero_less_numeral)

lemma decode_utf8_char_range: "decode_utf8_char src = Some (v, rest) \<Longrightarrow> u32 v"
proof -
  assume "decode_utf8_char src = Some (v, rest)"
  then obtain c cs n where n: "text_rest (n - 1) cs (byte c mod 2 ^ (8 - n)) = (v, rest)"
    by (auto simp: decode_utf8_char_def Let_def split: list.splits)
  have "byte c mod 2 ^ (8 - n) \<le> byte c"
    using byte_bounds [of c] by (simp add: zmod_le_nonneg_dividend)
  then have "u32 (byte c mod 2 ^ (8 - n))"
    using byte_bounds [of c] by simp
  from text_rest_range [OF this, of "n - 1" cs] n show ?thesis
    by simp
qed

lemma parse_char_ok: "ok_result (\<lambda>(v, rest). length rest < length src \<and> u32 v) (parse_char src)"
proof -
  have hex: "ok_result (\<lambda>(v, rest). u32 v) (parse_hex (drop 2 src) n)" for n
    by (rule ok_mono [OF parse_hex_ok]) auto
  have byte: "byte c < 4294967296" for c
    using byte_bounds(2) [of c] by simp
  have dec: "decode_utf8_char src \<noteq> None" if "char_at src 0 \<noteq> NUL"
    using char_at_nonempty [OF that] by (auto simp: decode_utf8_char_def Let_def split: list.splits)
  have "ok_result (\<lambda>(v, rest). u32 v) (parse_char src)"
  proof (cases "char_at src 0 = CHR 0x5C")
    case True
    then show ?thesis
      using hex byte byte_bounds(1) by (simp add: parse_char_def Let_def)
  next
    case False
    then show ?thesis
      using dec decode_utf8_char_range [of src] by (cases "char_at src 0 = NUL") (auto simp: parse_char_def)
  qed
  then show ?thesis
    by (rule ok_mono) (auto dest: parse_char_length)
qed

lemma parse_name_ok:
  "ok_result (\<lambda>(name, rest). length rest < length src \<and> name \<noteq> [] \<and> (\<forall>c \<in> set name. is_word_char c)) (parse_name src)"
proof (cases src)
  case (Cons c cs)
  then show ?thesis
    using length_dropWhile_le [of is_word_char cs]
    by (auto simp: parse_name_def Let_def le_imp_less_Suc dest: set_takeWhileD)
qed (simp add: parse_name_def)

lemma parse_int_ok:
  "ok_result (\<lambda>(digits, rest). length rest < length src \<and> (\<forall>c \<in> set digits. is_digit_char c)) (parse_int src)"
proof (cases src)
  case (Cons c cs)
  then show ?thesis
    using length_dropWhile_le [of is_digit_char cs]
    by (auto simp: parse_int_def Let_def le_imp_less_Suc dest: set_takeWhileD)
qed (simp add: parse_int_def)

lemma stoull_ok:
  assumes "\<forall>c \<in> set digits. is_digit_char c"
  shows "ok_result (\<lambda>v. 0 \<le> v \<and> v < 2 ^ 64) (stoull digits)"
proof -
  have "0 \<le> a \<Longrightarrow> 0 \<le> foldl (\<lambda>v c. v * 10 + (byte c - 48)) a digits" for a :: int
    using assms by (induction digits arbitrary: a) (auto simp: is_digit_char_def)
  from this [of 0] show ?thesis
    by (simp add: stoull_def Let_def)
qed

lemma parse_token_ok: "ok_result (\<lambda>(v, rest). length rest < length src \<and> u32 v) (parse_token vocab src)"
proof (cases src)
  case (Cons a cs)
  then show ?thesis
    using length_dropWhile_le [of "\<lambda>c. c \<noteq> NUL \<and> c \<noteq> CHR ''>''" cs]
    by (auto simp: parse_token_def Let_def split: option.splits list.splits
        intro!: ok_check ok_ebind [OF parse_int_ok] ok_ebind [OF stoull_ok])
qed (simp add: parse_token_def char_at_def check_def)

section \<open>Segments of rules\<close>

text \<open>Elements after which, and before which, whole items stand.\<close>

definition closed_seg :: "llama_grammar_rule \<Rightarrow> bool" where
  "closed_seg es \<longleftrightarrow> (\<forall>tail. wf_elems 0 tail \<longrightarrow> wf_elems 0 (es @ tail))"

definition refs_in :: "int set \<Rightarrow> llama_grammar_rule \<Rightarrow> bool" where
  "refs_in ids es \<longleftrightarrow> (\<forall>e \<in> set es. ge_type e = GRE_RULE_REF \<longrightarrow> ge_value e \<in> ids)"

definition symbol_seg :: "llama_grammar_rule \<Rightarrow> bool" where
  "symbol_seg es \<longleftrightarrow> closed_seg es \<and> (\<forall>e \<in> set es. \<not> end_type (ge_type e))"

lemma wf_elems_weaken: "wf_elems 0 es \<Longrightarrow> wf_elems k es"
  by (cases es) (auto split: llama_gretype.splits)

lemma closed_seg_Nil [simp]: "closed_seg []"
  by (simp add: closed_seg_def)

lemma closed_seg_append: "closed_seg a \<Longrightarrow> closed_seg b \<Longrightarrow> closed_seg (a @ b)"
  by (simp add: closed_seg_def)

lemma closed_seg_single:
  "ge_type e \<in> {GRE_ALT, GRE_RULE_REF, GRE_CHAR_ANY, GRE_TOKEN, GRE_TOKEN_NOT, GRE_CHAR, GRE_CHAR_NOT} \<Longrightarrow> closed_seg [e]"
  using wf_elems_weaken by (auto simp: closed_seg_def)

lemma closed_seg_concat: "closed_seg a \<Longrightarrow> closed_seg (concat (replicate n a))"
  by (induction n) (simp_all add: closed_seg_append)

lemma symbol_seg_Nil [simp]: "symbol_seg []"
  by (simp add: symbol_seg_def)

lemma symbol_seg_append: "symbol_seg a \<Longrightarrow> symbol_seg b \<Longrightarrow> symbol_seg (a @ b)"
  by (auto simp: symbol_seg_def closed_seg_append)

lemma symbol_seg_single:
  "ge_type e \<in> {GRE_RULE_REF, GRE_CHAR_ANY, GRE_TOKEN, GRE_TOKEN_NOT, GRE_CHAR, GRE_CHAR_NOT} \<Longrightarrow> symbol_seg [e]"
  using closed_seg_single by (auto simp: symbol_seg_def end_type_def)

lemma symbol_seg_concat: "symbol_seg a \<Longrightarrow> symbol_seg (concat (replicate n a))"
  by (induction n) (simp_all add: symbol_seg_append)

lemma refs_in_simps [simp]:
  "refs_in ids []" "refs_in ids (a @ b) \<longleftrightarrow> refs_in ids a \<and> refs_in ids b"
  "refs_in ids (e # a) \<longleftrightarrow> (ge_type e = GRE_RULE_REF \<longrightarrow> ge_value e \<in> ids) \<and> refs_in ids a"
  by (auto simp: refs_in_def)

lemma refs_in_concat: "refs_in ids a \<Longrightarrow> refs_in ids (concat (replicate n a))"
  by (induction n) simp_all

lemma refs_in_mono: "refs_in ids a \<Longrightarrow> ids \<subseteq> ids' \<Longrightarrow> refs_in ids' a"
  by (auto simp: refs_in_def)

lemma refs_in_sub: "refs_in ids a \<Longrightarrow> set b \<subseteq> set a \<Longrightarrow> refs_in ids b"
  by (auto simp: refs_in_def)

lemma closed_seg_end: "closed_seg es \<Longrightarrow> wf_elems 0 (es @ [elt GRE_END 0])"
  by (simp add: closed_seg_def)

lemma literal_loop_ok:
  "ok_result (\<lambda>(pos', rule'). length pos' < length pos \<and> (\<exists>seg. rule' = rule @ seg \<and> symbol_seg seg \<and> refs_in ids seg)) (literal_loop pos rule)"
proof (induction pos rule rule: literal_loop.induct)
  case (1 pos rule)
  show ?case
  proof (cases "char_at pos 0 = CHR 0x22 \<or> char_at pos 0 = NUL")
    case True
    then show ?thesis
      by (subst literal_loop.simps) (auto dest: char_at_nonempty)
  next
    case False
    show ?thesis
    proof (cases "parse_char pos")
      case (Inl e)
      then show ?thesis
        using False parse_char_ok [of pos] by (subst literal_loop.simps) simp
    next
      case (Inr r)
      then obtain c pos1 where r: "parse_char pos = Inr (c, pos1)"
        by (cases r) auto
      have "ok_result (\<lambda>(pos', rule'). length pos' < length pos1 \<and>
          (\<exists>seg. rule' = (rule @ [elt GRE_CHAR c]) @ seg \<and> symbol_seg seg \<and> refs_in ids seg)) (literal_loop pos1 (rule @ [elt GRE_CHAR c]))"
        using 1 [OF _ _ r refl] False by simp
      then have "ok_result (\<lambda>(pos', rule'). length pos' < length pos \<and> (\<exists>seg. rule' = rule @ seg \<and> symbol_seg seg \<and> refs_in ids seg))
          (literal_loop pos1 (rule @ [elt GRE_CHAR c]))"
      proof (rule ok_mono, clarify, intro conjI)
        fix pos' seg assume "length pos' < length pos1"
        then show "length pos' < length pos"
          using parse_char_length [OF r] by simp
        assume "symbol_seg seg" "refs_in ids seg"
        then show "\<exists>seg'. (rule @ [elt GRE_CHAR c]) @ seg = rule @ seg' \<and> symbol_seg seg' \<and> refs_in ids seg'"
          using symbol_seg_append [OF symbol_seg_single [of "elt GRE_CHAR c"]] by (intro exI [of _ "elt GRE_CHAR c # seg"]) auto
      qed
      then show ?thesis
        using False r by (subst literal_loop.simps) simp
    qed
  qed
qed

text \<open>A class in progress: \<open>k\<close> says what may follow the elements so far.\<close>

definition open_class :: "llama_grammar_rule \<Rightarrow> bool" where
  "open_class seg \<longleftrightarrow> seg = [] \<or> ((\<exists>k. k \<noteq> 0 \<and> (\<forall>tail. wf_elems k tail \<longrightarrow> wf_elems 0 (seg @ tail))) \<and> (\<forall>e \<in> set seg. \<not> end_type (ge_type e) \<and> ge_type e \<noteq> GRE_RULE_REF))"

lemma open_class_closed: "open_class seg \<Longrightarrow> symbol_seg seg \<and> refs_in ids seg"
  using wf_elems_weaken by (auto simp: open_class_def symbol_seg_def closed_seg_def refs_in_def)

lemma open_class_item:
  assumes "open_class seg" "t = GRE_CHAR \<or> t = GRE_CHAR_NOT"
  shows "open_class (seg @ [elt (if seg \<noteq> [] then GRE_CHAR_ALT else t) c])" (is "open_class ?a")
    "open_class (seg @ [elt (if seg \<noteq> [] then GRE_CHAR_ALT else t) c, elt GRE_CHAR_RNG_UPPER c2])" (is "open_class ?b")
proof -
  have 1: "wf_elems 0 (?a @ tail)" if "wf_elems 1 tail" for tail
    using assms that by (auto simp: open_class_def)
  have 2: "wf_elems 0 (?b @ tail)" if "wf_elems 2 tail" for tail
    using 1 [of "elt GRE_CHAR_RNG_UPPER c2 # tail"] that by simp
  show "open_class ?a"
    using 1 assms by (auto simp: open_class_def end_type_def intro!: exI [of _ 1])
  show "open_class ?b"
    using 2 assms by (auto simp: open_class_def end_type_def intro!: exI [of _ 2])
qed

lemma range_item_ok:
  assumes "open_class seg" "t = GRE_CHAR \<or> t = GRE_CHAR_NOT"
  shows "ok_result (\<lambda>(pos', rule'). length pos' < length pos \<and> (\<exists>seg'. rule' = rule @ seg' \<and> open_class seg')) (range_item t (length rule) pos (rule @ seg))"
proof -
  have item: "ok_result (\<lambda>(pos', rule'). \<exists>seg'. rule' = rule @ seg' \<and> open_class seg') (range_item t (length rule) pos (rule @ seg))"
  proof (cases "parse_char pos")
    case (Inl e)
    then show ?thesis
      using parse_char_ok [of pos] by (simp add: range_item_def)
  next
    case (Inr r)
    then obtain c pos1 where r: "parse_char pos = Inr (c, pos1)"
      by (cases r) auto
    show ?thesis
      using r parse_char_ok [of "drop 1 pos1"] open_class_item [OF assms, of c]
      by (auto simp: range_item_def Let_def split: sum.splits)
  qed
  show ?thesis
    by (rule ok_mono [OF item]) (auto dest: range_item_length)
qed

lemma range_loop_ok:
  assumes "open_class seg" "t = GRE_CHAR \<or> t = GRE_CHAR_NOT"
  shows "ok_result (\<lambda>(pos', rule'). length pos' < length pos \<and> (\<exists>seg'. rule' = rule @ seg' \<and> open_class seg')) (range_loop t (length rule) pos (rule @ seg))"
  using assms(1)
proof (induction "length pos" arbitrary: pos seg rule: less_induct)
  case less
  show ?case
  proof (cases "char_at pos 0 = CHR '']'' \<or> char_at pos 0 = NUL")
    case True
    then show ?thesis
      using less.prems by (subst range_loop.simps) (auto dest: char_at_nonempty)
  next
    case False
    have item: "ok_result (\<lambda>(pos', rule'). length pos' < length pos \<and> (\<exists>seg'. rule' = rule @ seg' \<and> open_class seg')) (range_item t (length rule) pos (rule @ seg))"
      by (rule range_item_ok [OF less.prems assms(2)])
    show ?thesis
    proof (cases "range_item t (length rule) pos (rule @ seg)")
      case (Inl e)
      then show ?thesis
        using False item by (subst range_loop.simps) simp
    next
      case (Inr r)
      then obtain pos1 seg1 where r: "range_item t (length rule) pos (rule @ seg) = Inr (pos1, rule @ seg1)" "length pos1 < length pos" "open_class seg1"
        using item by (cases r) auto
      have "ok_result (\<lambda>(pos', rule'). length pos' < length pos \<and> (\<exists>seg'. rule' = rule @ seg' \<and> open_class seg')) (range_loop t (length rule) pos1 (rule @ seg1))"
        by (rule ok_mono [OF less.hyps [OF r(2,3)]]) (use r(2) in auto)
      then show ?thesis
        using False r(1) by (subst range_loop.simps) simp
    qed
  qed
qed

section \<open>Symbols\<close>

abbreviation is_name :: "string \<Rightarrow> bool" where
  "is_name s \<equiv> \<forall>c \<in> set s. is_word_char c"

abbreviation ids :: "llama_grammar_parser \<Rightarrow> int set" where
  "ids p \<equiv> snd ` set (symbol_ids p)"

lemma to_string_digits: "c \<in> set (to_string n) \<Longrightarrow> is_digit_char c"
proof (induction n rule: to_string.induct)
  case (1 n)
  have digit: "is_digit_char (char_of (48 + d :: nat))" if "d < 10" for d
  proof -
    have "byte (char_of (48 + d)) = int (of_char (char_of (48 + d)))"
      by (simp only: of_nat_of_char)
    also have "\<dots> = int (48 + d)"
      using that by simp
    finally show ?thesis
      using that by (simp add: is_digit_char_def)
  qed
  show ?case
  proof (cases "n < 10")
    case True
    then show ?thesis
      using 1(2) digit by (subst (asm) to_string.simps) simp
  next
    case False
    then show ?thesis
      using 1 digit [of "n mod 10"] by (subst (asm) (2) to_string.simps) auto
  qed
qed

lemma to_string_value: "foldl (\<lambda>v c. v * 10 + (of_char c - 48)) 0 (to_string n) = n"
proof (induction n rule: to_string.induct)
  case (1 n)
  have "(of_char (char_of (48 + d :: nat)) :: nat) - 48 = d" if "d < 10" for d
    using that by simp
  with 1 show ?case
    by (subst to_string.simps) auto
qed

lemma to_string_inj: "to_string m = to_string n \<Longrightarrow> m = n"
  by (metis to_string_value)

lemma no_underscore: "is_name s \<Longrightarrow> CHR ''_'' \<notin> set s" "CHR ''_'' \<notin> set (to_string n)"
  using to_string_digits [of "CHR ''_''" n] by (auto simp: is_word_char_def is_digit_char_def)

lemma generated_inj:
  assumes "b @ ''_'' @ to_string m = b' @ ''_'' @ to_string n" "CHR ''_'' \<notin> set b" "CHR ''_'' \<notin> set b'"
  shows "b = b' \<and> m = n"
proof -
  have "takeWhile (\<lambda>c. c \<noteq> CHR ''_'') (b @ ''_'' @ to_string m) = b" "takeWhile (\<lambda>c. c \<noteq> CHR ''_'') (b' @ ''_'' @ to_string n) = b'"
    using assms(2,3) by (auto simp: takeWhile_append intro!: takeWhile_eq_all_conv [THEN iffD2])
  then show ?thesis
    using assms(1) to_string_inj by auto
qed

text \<open>The symbol table maps different names to ids, a generated name (the only ones with an underscore) ends in its
  id, and the ids number the symbols as long as 32 bits suffice. Every rule is undefined or well formed, and its
  references are ids of symbols.\<close>

definition symbols_ok :: "(string \<times> int) list \<Rightarrow> bool" where
  "symbols_ok syms \<longleftrightarrow> distinct (map fst syms) \<and> (\<forall>(n, i) \<in> set syms. u32 i) \<and>
     (\<forall>(n, i) \<in> set syms. CHR ''_'' \<in> set n \<longrightarrow> (\<exists>b. CHR ''_'' \<notin> set b \<and> n = b @ ''_'' @ to_string (nat i))) \<and>
     (length syms \<le> 2 ^ 32 \<longrightarrow> map snd syms = map int [0..<length syms])"

definition parser_ok :: "llama_grammar_parser \<Rightarrow> bool" where
  "parser_ok p \<longleftrightarrow> symbols_ok (symbol_ids p) \<and> (\<forall>r \<in> set (parser_rules p). r = [] \<or> wf_elems 0 r \<and> refs_in (ids p) r)"

definition grows :: "llama_grammar_parser \<Rightarrow> llama_grammar_parser \<Rightarrow> bool" where
  "grows p p' \<longleftrightarrow> parser_ok p' \<and> (\<exists>new. symbol_ids p' = symbol_ids p @ new)"

lemma grows_ids: "grows p p' \<Longrightarrow> ids p \<subseteq> ids p'"
  by (auto simp: grows_def)

lemma grows_ok: "grows p p' \<Longrightarrow> parser_ok p'"
  by (simp add: grows_def)

lemma grows_refl: "parser_ok p \<Longrightarrow> grows p p"
  by (simp add: grows_def)

lemma grows_trans: "grows p q \<Longrightarrow> grows q r \<Longrightarrow> grows p r"
  by (auto simp: grows_def)

lemma symbols_ok_snoc:
  assumes "symbols_ok syms" "n \<notin> fst ` set syms" "i = int (length syms) mod 2 ^ 32"
    and "CHR ''_'' \<in> set n \<Longrightarrow> \<exists>b. CHR ''_'' \<notin> set b \<and> n = b @ ''_'' @ to_string (nat i)"
  shows "symbols_ok (syms @ [(n, i)])"
  using assms by (auto simp: symbols_ok_def)

lemma parser_ok_symbols:
  assumes "parser_ok p" "symbols_ok (symbol_ids p @ new)"
  shows "grows p (p\<lparr>symbol_ids := symbol_ids p @ new\<rparr>)"
proof -
  have "refs_in (ids (p\<lparr>symbol_ids := symbol_ids p @ new\<rparr>)) r" if "r \<in> set (parser_rules p)" "r \<noteq> []" for r
    using assms(1) that by (auto simp: parser_ok_def elim!: refs_in_mono)
  then show ?thesis
    using assms by (auto simp: grows_def parser_ok_def)
qed

lemma get_symbol_id_ok:
  assumes "parser_ok p" "is_name name" "get_symbol_id name p = (i, p')"
  shows "grows p p' \<and> i \<in> ids p' \<and> parser_rules p' = parser_rules p"
proof (cases "map_of (symbol_ids p) name")
  case None
  have "symbols_ok (symbol_ids p @ [(name, int (length (symbol_ids p)) mod 2 ^ 32)])"
    using assms(1,2) None no_underscore(1) [of name] by (intro symbols_ok_snoc) (auto simp: parser_ok_def map_of_eq_None_iff)
  then show ?thesis
    using parser_ok_symbols [OF assms(1)] assms(3) None by (auto simp: get_symbol_id_def Let_def)
next
  case (Some j)
  then show ?thesis
    using assms grows_refl map_of_SomeD [OF Some] by (force simp: get_symbol_id_def Let_def)
qed

lemma update_same: "map_of al k = Some v \<Longrightarrow> AList.update k v al = al"
  by (induction al) (auto split: if_splits)

lemma update_new: "k \<notin> fst ` set al \<Longrightarrow> AList.update k v al = al @ [(k, v)]"
  by (induction al) auto

lemma generate_symbols:
  assumes "parser_ok p" "is_name base" "generate_symbol_id base p = (i, p')"
  defines "key \<equiv> base @ ''_'' @ to_string (nat i)"
  shows "i = int (length (symbol_ids p)) mod 2 ^ 32"
    "symbol_ids p' = (if key \<in> fst ` set (symbol_ids p) then symbol_ids p else symbol_ids p @ [(key, i)])"
    "parser_rules p' = parser_rules p" "(key, i) \<in> set (symbol_ids p')"
proof -
  show i: "i = int (length (symbol_ids p)) mod 2 ^ 32"
    using assms(3) by (auto simp: generate_symbol_id_def Let_def)
  show "parser_rules p' = parser_rules p"
    using assms(3) by (auto simp: generate_symbol_id_def Let_def)
  have p': "symbol_ids p' = AList.update key i (symbol_ids p)"
    using assms(3) i unfolding key_def by (auto simp: generate_symbol_id_def Let_def)
  have "map_of (symbol_ids p) key = Some i" if k: "key \<in> fst ` set (symbol_ids p)"
  proof -
    obtain j where j: "(key, j) \<in> set (symbol_ids p)"
      using k by auto
    have ok: "symbols_ok (symbol_ids p)"
      using assms(1) by (simp add: parser_ok_def)
    have "CHR ''_'' \<in> set key"
      by (simp add: key_def)
    then obtain b where b: "CHR ''_'' \<notin> set b" "key = b @ ''_'' @ to_string (nat j)"
      using ok j by (fastforce simp: symbols_ok_def)
    have "nat i = nat j"
      using generated_inj [of base "nat i" b "nat j"] b no_underscore(1) [OF assms(2)] by (simp add: key_def)
    moreover have "0 \<le> i" "0 \<le> j"
      using i ok j by (auto simp: symbols_ok_def)
    ultimately have "i = j"
      by simp
    then show ?thesis
      using j ok by (simp add: symbols_ok_def)
  qed
  then show "symbol_ids p' = (if key \<in> fst ` set (symbol_ids p) then symbol_ids p else symbol_ids p @ [(key, i)])"
    "(key, i) \<in> set (symbol_ids p')"
    using p' update_same [of "symbol_ids p" key i] update_new [of key "symbol_ids p" i] map_of_SomeD [of "symbol_ids p" key i]
    by (cases "key \<in> fst ` set (symbol_ids p)"; auto)+
qed

lemma generate_symbol_id_ok:
  assumes "parser_ok p" "is_name base" "generate_symbol_id base p = (i, p')"
  shows "grows p p' \<and> i \<in> ids p' \<and> parser_rules p' = parser_rules p"
proof -
  note g = generate_symbols [OF assms]
  let ?key = "base @ ''_'' @ to_string (nat i)"
  have p': "p' = p\<lparr>symbol_ids := symbol_ids p'\<rparr>"
    using g(3) by simp
  have "grows p p'"
  proof (cases "?key \<in> fst ` set (symbol_ids p)")
    case True
    then show ?thesis
      using p' g(2) grows_refl [OF assms(1)] by simp
  next
    case False
    then have "symbols_ok (symbol_ids p @ [(?key, i)])"
      using assms(1) g(1) no_underscore(1) [OF assms(2)] by (intro symbols_ok_snoc) (auto simp: parser_ok_def)
    from parser_ok_symbols [OF assms(1) this] show ?thesis
      using p' g(2) False by simp
  qed
  then show ?thesis
    using g(3,4) by force
qed

lemma add_rule_symbols [simp]: "symbol_ids (add_rule i r p) = symbol_ids p"
  by (simp add: add_rule_def Let_def)

lemma add_rule_set: "set (parser_rules (add_rule i r p)) \<subseteq> insert r (insert [] (set (parser_rules p)))"
  unfolding add_rule_def Let_def using set_update_subset_insert by (fastforce split: if_splits)

lemma add_rule_ok:
  assumes "parser_ok p" "wf_elems 0 r" "refs_in (ids p) r"
  shows "grows p (add_rule i r p)"
  using assms add_rule_set [of i r p] by (fastforce simp: grows_def parser_ok_def)

section \<open>Repetitions\<close>

lemma rep_step_ok:
  assumes "parser_ok p" "is_name name" "symbol_seg prev" "refs_in (ids p) prev" "is_first \<or> l0 \<in> ids p"
    and "rep_step name prev no_max is_first (l0, p) = (l1, p')"
  shows "grows p p' \<and> l1 \<in> ids p'"
proof -
  obtain p1 where g: "generate_symbol_id name p = (l1, p1)"
    using assms(6) by (auto simp: rep_step_def Let_def split: prod.splits)
  note g1 = generate_symbol_id_ok [OF assms(1,2) g]
  let ?refs = "if \<not> is_first \<or> no_max then [elt GRE_RULE_REF (if no_max then l1 else l0)] else []"
  have p': "p' = add_rule l1 (prev @ ?refs @ [elt GRE_ALT 0, elt GRE_END 0]) p1"
    using assms(6) g by (auto simp: rep_step_def Let_def)
  have refs: "closed_seg ?refs"
    by (simp add: closed_seg_single)
  have "closed_seg (prev @ ?refs @ [elt GRE_ALT 0])"
    using assms(3) refs closed_seg_single [of "elt GRE_ALT 0"] by (intro closed_seg_append) (auto simp: symbol_seg_def)
  from closed_seg_end [OF this] have wf: "wf_elems 0 (prev @ ?refs @ [elt GRE_ALT 0, elt GRE_END 0])"
    by simp
  have "ids p \<subseteq> ids p1"
    using g1 grows_ids by blast
  then have "refs_in (ids p1) (prev @ ?refs @ [elt GRE_ALT 0, elt GRE_END 0])"
    using assms(4,5) g1 refs_in_mono by auto
  then have "grows p1 p'"
    unfolding p' using g1 grows_ok wf by (intro add_rule_ok) auto
  then show ?thesis
    using g1 grows_trans grows_ids by blast
qed

lemma rep_loop_ok:
  assumes "parser_ok p" "is_name name" "symbol_seg prev" "refs_in (ids p) prev" "is_first \<or> l0 \<in> ids p"
    and "rep_loop n name prev no_max is_first (l0, p) = (l1, p')"
  shows "grows p p' \<and> (n > 0 \<longrightarrow> l1 \<in> ids p')"
  using assms(1,4,5,6)
proof (induction n arbitrary: is_first l0 p)
  case 0
  then show ?case
    by (simp add: grows_refl)
next
  case (Suc n)
  obtain l2 p1 where s: "rep_step name prev no_max is_first (l0, p) = (l2, p1)"
    by fastforce
  note step = rep_step_ok [OF Suc.prems(1) assms(2,3) Suc.prems(2,3) s]
  have "refs_in (ids p1) prev"
    by (rule refs_in_mono [OF Suc.prems(2) grows_ids]) (use step in blast)
  then have "grows p1 p' \<and> (n > 0 \<longrightarrow> l1 \<in> ids p')"
    using Suc.IH [of p1 False l2] Suc.prems(4) step grows_ok [of p p1] s by simp
  then show ?case
    using step Suc.prems(4) s grows_trans [of p p1 p'] by (cases n) auto
qed

text \<open>The state of a sequence: the elements before the last symbol, and those of the last symbol.\<close>

definition seq_ok :: "seq_state \<Rightarrow> bool" where
  "seq_ok sq \<longleftrightarrow> sq_last sq \<le> length (sq_rule sq) \<and> closed_seg (take (sq_last sq) (sq_rule sq)) \<and> symbol_seg (drop (sq_last sq) (sq_rule sq)) \<and>
     refs_in (ids (sq_parser sq)) (sq_rule sq) \<and> 1 \<le> sq_n_prev sq \<and> sq_n_prev sq < 2 ^ 32 \<and> parser_ok (sq_parser sq)"

lemma seq_ok_rule: "seq_ok sq \<Longrightarrow> closed_seg (sq_rule sq)"
  using closed_seg_append [of "take (sq_last sq) (sq_rule sq)" "drop (sq_last sq) (sq_rule sq)"] by (simp add: seq_ok_def symbol_seg_def)

lemma seq_okI:
  assumes "closed_seg a" "symbol_seg b" "refs_in (ids p) a" "refs_in (ids p) b" "1 \<le> n" "n < 2 ^ 32" "parser_ok p"
  shows "seq_ok \<lparr>sq_pos = pos, sq_rule = a @ b, sq_last = length a, sq_n_prev = n, sq_parser = p\<rparr>"
  using assms by (simp add: seq_ok_def)

definition rep_bounds :: "int \<Rightarrow> int \<Rightarrow> bool" where
  "rep_bounds min_times max_times \<longleftrightarrow> 0 \<le> min_times \<and> min_times \<le> MAX_REPETITION_THRESHOLD \<and>
     (max_times = UINT64_MAX \<or> 0 \<le> max_times \<and> max_times \<le> MAX_REPETITION_THRESHOLD)"

lemma total_rules_bounds:
  assumes "rep_bounds m k" "1 \<le> n" "n < 2 ^ 32"
  defines "t \<equiv> if \<not> k = UINT64_MAX \<and> k > 0 then k else if m > 0 then m else 1"
  shows "(n * t) mod 2 ^ 64 = n * t" "1 \<le> n * t"
proof -
  have t: "1 \<le> t" "t \<le> 2000"
    using assms(1) by (auto simp: t_def rep_bounds_def MAX_REPETITION_THRESHOLD_def)
  have "n * t < 2 ^ 32 * 2001"
    using t assms(2,3) by (intro mult_strict_mono) auto
  then have "n * t < 2 ^ 64"
    by simp
  moreover show "1 \<le> n * t"
    using t assms(2) mult_mono [of 1 n 1 t] by simp
  ultimately show "(n * t) mod 2 ^ 64 = n * t"
    by simp
qed

lemma handle_repetitions_ok:
  assumes sq: "seq_ok sq" and name: "is_name name" and b: "rep_bounds m k"
  shows "ok_result (\<lambda>sq'. seq_ok sq' \<and> sq_pos sq' = sq_pos sq \<and> grows (sq_parser sq) (sq_parser sq')) (handle_repetitions name m k sq)"
proof -
  let ?prev = "drop (sq_last sq) (sq_rule sq)" and ?pre = "take (sq_last sq) (sq_rule sq)"
  have prev: "symbol_seg ?prev" "refs_in (ids (sq_parser sq)) ?prev" "refs_in (ids (sq_parser sq)) ?pre" "closed_seg ?pre" "parser_ok (sq_parser sq)"
    using sq refs_in_sub [OF _ set_drop_subset] refs_in_sub [OF _ set_take_subset] by (auto simp: seq_ok_def)
  let ?t = "if \<not> k = UINT64_MAX \<and> k > 0 then k else if m > 0 then m else 1"
  have t: "(sq_n_prev sq * ?t) mod 2 ^ 64 = sq_n_prev sq * ?t" "1 \<le> sq_n_prev sq * ?t"
    using total_rules_bounds [OF b] sq by (auto simp: seq_ok_def)
  obtain l p1 where rl: "rep_loop (nat (n_opt m k)) name ?prev (k = UINT64_MAX) True (0, sq_parser sq) = (l, p1)"
    by fastforce
  have grow: "grows (sq_parser sq) p1" "n_opt m k > 0 \<Longrightarrow> l \<in> ids p1"
    using rep_loop_ok [OF prev(5) name prev(1,2) disjI1 rl] by auto
  let ?mid = "if m = 0 then [] else ?prev @ concat (replicate (nat (m - 1)) ?prev)"
  let ?opt = "if n_opt m k > 0 then [elt GRE_RULE_REF l] else []"
  have mid: "symbol_seg ?mid" "refs_in (ids (sq_parser sq)) ?mid"
    using prev by (auto intro: symbol_seg_append symbol_seg_concat refs_in_concat)
  have opt: "symbol_seg ?opt" "refs_in (ids p1) ?opt"
    using grow by (auto intro: symbol_seg_single)
  let ?rule2 = "(if 0 < n_opt m k then (if m = 0 then ?pre else sq_rule sq @ concat (replicate (nat (m - 1)) ?prev)) @ [elt GRE_RULE_REF l]
      else if m = 0 then ?pre else sq_rule sq @ concat (replicate (nat (m - 1)) ?prev))"
  have rule2: "?rule2 = ?pre @ ?mid @ ?opt"
    using append_take_drop_id [of "sq_last sq" "sq_rule sq"] by (auto simp del: append_take_drop_id simp flip: append_assoc)
  have len: "length ?pre = sq_last sq"
    using sq by (simp add: seq_ok_def)
  have "seq_ok (sq\<lparr>sq_rule := ?rule2, sq_n_prev := sq_n_prev sq * ?t, sq_parser := p1\<rparr>)" if "sq_n_prev sq * ?t < MAX_REPETITION_THRESHOLD"
  proof -
    have "seq_ok \<lparr>sq_pos = sq_pos sq, sq_rule = ?pre @ ?mid @ ?opt, sq_last = length ?pre, sq_n_prev = sq_n_prev sq * ?t, sq_parser = p1\<rparr>"
      using that t(2) mid opt prev grow refs_in_mono [OF _ grows_ids [OF grow(1)]] grows_ok
      by (intro seq_okI symbol_seg_append) (auto simp: MAX_REPETITION_THRESHOLD_def)
    then show ?thesis
      unfolding rule2 len by (cases sq) simp
  qed
  then show ?thesis
    using t rl grow(1) by (auto simp: handle_repetitions_def Let_def intro!: ok_check)
qed

section \<open>Sequences and alternates\<close>

text \<open>The contract of a parser of nested alternates: on texts shorter than \<open>depth\<close> it returns, does not lengthen
  the text, and keeps the invariant of the parser.\<close>

definition parses :: "llama_grammar_parser \<Rightarrow> string \<Rightarrow> string \<times> llama_grammar_parser \<Rightarrow> bool" where
  "parses p src = (\<lambda>(src', p'). length src' \<le> length src \<and> grows p p')"

locale nested_alternates =
  fixes alternates :: alternates_parser and depth :: nat
  assumes nested_ok: "length src < depth \<Longrightarrow> parser_ok p \<Longrightarrow> is_name name \<Longrightarrow>
    ok_result (parses p src) (alternates src name rule_id is_nested p)"
begin

definition item_step :: "seq_state \<Rightarrow> seq_state option \<Rightarrow> bool" where
  "item_step sq r = (case r of None \<Rightarrow> True
     | Some sq' \<Rightarrow> seq_ok sq' \<and> length (sq_pos sq') < length (sq_pos sq) \<and> grows (sq_parser sq) (sq_parser sq'))"

lemma item_step_symbol:
  assumes "seq_ok sq" "symbol_seg seg" "refs_in (ids (sq_parser sq)) seg" "length pos < length (sq_pos sq)"
  shows "item_step sq (Some (sq_symbol (parse_space pos nl) (sq_rule sq @ seg) sq))"
  using assms seq_ok_rule [OF assms(1)] parse_space_length [of pos nl] grows_refl
  by (auto simp: item_step_def seq_ok_def sq_symbol_def)

lemma item_step_repeat:
  assumes "seq_ok sq" "is_name name" "rep_bounds m k" "length pos < length (sq_pos sq)"
  shows "ok_result (item_step sq) (ebind (handle_repetitions name m k (sq\<lparr>sq_pos := pos\<rparr>)) (\<lambda>sq1. Inr (Some sq1)))"
proof -
  have "seq_ok (sq\<lparr>sq_pos := pos\<rparr>)"
    using assms(1) by (simp add: seq_ok_def)
  then show ?thesis
    using assms(4) by (intro ok_ebind [OF handle_repetitions_ok [OF _ assms(2,3)]]) (simp_all add: item_step_def)
qed

lemma group_ok:
  assumes sq: "seq_ok sq" and name: "is_name name" and pos: "0 < length (sq_pos sq)" "length (sq_pos sq) \<le> depth"
  shows "ok_result (\<lambda>sq'. item_step sq (Some sq')) (parse_group alternates name nl sq)"
proof -
  let ?pos = "parse_space (drop 1 (sq_pos sq)) True"
  have len: "length ?pos < length (sq_pos sq)"
    using parse_space_length [of "drop 1 (sq_pos sq)" True] pos(1) by (simp add: order_le_less_trans)
  obtain i p1 where g: "generate_symbol_id name (sq_parser sq) = (i, p1)"
    by fastforce
  have p1: "grows (sq_parser sq) p1" "i \<in> ids p1"
    using generate_symbol_id_ok [OF _ name g] sq by (simp_all add: seq_ok_def)
  have nest: "ok_result (parses p1 ?pos) (alternates ?pos name i True p1)"
    using nested_ok [of ?pos p1 name i True] len pos name grows_ok [OF p1(1)] by simp
  have fin: "item_step sq (Some \<lparr>sq_pos = parse_space (drop 1 pos1) nl, sq_rule = sq_rule sq @ [elt GRE_RULE_REF i], sq_last = length (sq_rule sq),
      sq_n_prev = max 1 (x mod 2 ^ 32), sq_parser = p2\<rparr>)" if "parses p1 ?pos (pos1, p2)" for pos1 p2 x
  proof -
    have gr: "grows p1 p2" "length pos1 \<le> length ?pos"
      using that by (simp_all add: parses_def)
    have grow: "grows (sq_parser sq) p2"
      by (rule grows_trans [OF p1(1) gr(1)])
    have "length (parse_space (drop 1 pos1) nl) < length (sq_pos sq)"
      using parse_space_length [of "drop 1 pos1" nl] gr(2) len by simp
    moreover have "i \<in> ids p2"
      using p1(2) grows_ids [OF gr(1)] by blast
    moreover have "refs_in (ids p2) (sq_rule sq)"
      using sq refs_in_mono [OF _ grows_ids [OF grow]] by (simp add: seq_ok_def)
    moreover have "x mod 2 ^ 32 < 2 ^ 32"
      by simp
    ultimately show ?thesis
      using grow grows_ok [OF grow] seq_ok_rule [OF sq] symbol_seg_single [of "elt GRE_RULE_REF i"]
      unfolding item_step_def by (auto simp: seq_ok_def)
  qed
  show ?thesis
    unfolding parse_group_def Let_def g prod.case
    by (rule ok_ebind [OF nest]) (use fin in \<open>auto intro!: ok_check\<close>)
qed

lemma max_ok: "ok_result (\<lambda>(k, pos'). 0 \<le> k \<and> length pos' \<le> length pos) (parse_max nl pos)"
proof -
  have sp: "length (parse_space x nl) \<le> length y" if "length x < length y" for x y :: string
    using parse_space_length [of x nl] that by simp
  show ?thesis
    unfolding parse_max_def using sp
    by (auto intro!: ok_ebind [OF parse_int_ok] ok_ebind [OF stoull_ok] simp: UINT64_MAX_def)
qed

lemma bounds_ok: "ok_result (\<lambda>(m, k, pos'). 0 \<le> m \<and> 0 \<le> k \<and> length pos' < length pos) (parse_bounds nl pos)"
proof -
  define post where "post = (\<lambda>(m :: int, k :: int, pos' :: string). 0 \<le> m \<and> 0 \<le> k \<and> length pos' < length pos)"
  have post: "0 \<le> m \<Longrightarrow> 0 \<le> k \<Longrightarrow> length pos' < length pos \<Longrightarrow> post (m, k, pos')" for m k pos'
    by (simp add: post_def)
  have sp: "length (parse_space (drop 1 x) nl) \<le> length x" for x
    using parse_space_length [of "drop 1 x" nl] by simp
  have tail: "ok_result post (ebind (parse_max nl pos2) (\<lambda>(max_times, pos3).
      ebind (check (char_at pos3 0 = CHR ''}'') Expecting_Rbrace) (\<lambda>_. Inr (m, max_times, parse_space (drop 1 pos3) nl))))"
    if "length pos2 < length pos" "0 \<le> m" for m pos2
  proof (rule ok_ebind [OF max_ok], clarify, rule ok_check)
    fix k :: int and pos3 :: string assume "0 \<le> k" "length pos3 \<le> length pos2"
    then show "ok_result post (Inr (m, k, parse_space (drop 1 pos3) nl))"
      using that sp [of pos3] by (simp add: post)
  qed simp
  have rest: "length (parse_space (drop 1 (parse_space rest nl)) nl) < length pos" if "length rest < length pos" for rest
    using that sp [of "parse_space rest nl"] parse_space_length [of rest nl] by linarith
  have "ok_result post (parse_bounds nl pos)"
    unfolding parse_bounds_def Let_def using tail rest
    by (intro ok_check ok_ebind [OF parse_int_ok]) (auto simp del: One_nat_def intro!: ok_ebind [OF stoull_ok] post)
  then show ?thesis
    by (simp add: post_def)
qed

lemma item_ok:
  assumes sq: "seq_ok sq" and name: "is_name name" and depth: "length (sq_pos sq) \<le> depth"
  shows "ok_result (item_step sq) (parse_item vocab alternates name nl sq)"
proof (cases "char_at (sq_pos sq) 0 = NUL")
  case True
  then show ?thesis
    by (simp add: parse_item_def Let_def item_step_def)
next
  case False
  let ?pos = "sq_pos sq" and ?c = "char_at (sq_pos sq) 0"
  have pos: "0 < length ?pos"
    using char_at_nonempty [OF False] by simp
  have d: "length (drop 1 ?pos) < length ?pos" "length (drop 2 ?pos) < length ?pos"
    using pos by simp_all
  have sp: "length (parse_space (drop 1 ?pos) nl) < length ?pos"
    using parse_space_length [of "drop 1 ?pos" nl] d(1) by simp
  note sym = item_step_symbol [OF sq]
  have lit: "ok_result (item_step sq) (ebind (literal_loop (drop 1 ?pos) (sq_rule sq)) (\<lambda>(pos1, rule1). Inr (Some (sq_symbol (parse_space pos1 nl) rule1 sq))))"
    using d(1) by (intro ok_ebind [OF literal_loop_ok [where ids = "ids (sq_parser sq)"]]) (auto intro!: sym)
  have rng: "ok_result (item_step sq) (ebind (range_loop t (length (sq_rule sq)) x (sq_rule sq)) (\<lambda>(pos1, rule1). Inr (Some (sq_symbol (parse_space pos1 nl) rule1 sq))))"
    if "t = GRE_CHAR \<or> t = GRE_CHAR_NOT" "length x < length ?pos" for t x
  proof -
    have "open_class []"
      by (simp add: open_class_def)
    then have "ok_result (\<lambda>(pos', rule'). length pos' < length x \<and> (\<exists>seg'. rule' = sq_rule sq @ seg' \<and> open_class seg'))
        (range_loop t (length (sq_rule sq)) x (sq_rule sq))"
      using range_loop_ok [of "[]" t x "sq_rule sq"] that(1) by simp
    then show ?thesis
    proof (rule ok_ebind, clarify)
      fix pos' :: string and seg' assume "length pos' < length x" "open_class seg'"
      then show "ok_result (item_step sq) (Inr (Some (sq_symbol (parse_space pos' nl) (sq_rule sq @ seg') sq)))"
        using that(2) open_class_closed [of seg' "ids (sq_parser sq)"] by (simp add: sym)
    qed
  qed
  have tok: "ok_result (item_step sq) (ebind (parse_token vocab x) (\<lambda>(v, pos1). Inr (Some (sq_symbol (parse_space pos1 nl) (sq_rule sq @ [elt t v]) sq))))"
    if "t = GRE_TOKEN \<or> t = GRE_TOKEN_NOT" "length x \<le> length ?pos" for t x
    using that by (intro ok_ebind [OF parse_token_ok]) (auto intro!: sym symbol_seg_single)
  have ref: "ok_result (item_step sq) (ebind (parse_name ?pos) (\<lambda>(n, pos1). let (i, p1) = get_symbol_id n (sq_parser sq)
      in Inr (Some ((sq_symbol (parse_space pos1 nl) (sq_rule sq @ [elt GRE_RULE_REF i]) sq)\<lparr>sq_parser := p1\<rparr>))))"
  proof (rule ok_ebind [OF parse_name_ok], clarify)
    fix n pos1 :: string assume n: "length pos1 < length ?pos" "is_name n"
    obtain i p1 where g: "get_symbol_id n (sq_parser sq) = (i, p1)"
      by fastforce
    have p1: "grows (sq_parser sq) p1" "i \<in> ids p1"
      using get_symbol_id_ok [OF _ n(2) g] sq by (simp_all add: seq_ok_def)
    have "refs_in (ids p1) (sq_rule sq)"
      using sq refs_in_mono [OF _ grows_ids [OF p1(1)]] by (simp add: seq_ok_def)
    then show "ok_result (item_step sq) (let (i, p1) = get_symbol_id n (sq_parser sq)
      in Inr (Some ((sq_symbol (parse_space pos1 nl) (sq_rule sq @ [elt GRE_RULE_REF i]) sq)\<lparr>sq_parser := p1\<rparr>)))"
      using g p1 n(1) parse_space_length [of pos1 nl] grows_ok [OF p1(1)] seq_ok_rule [OF sq] symbol_seg_single [of "elt GRE_RULE_REF i"]
      by (auto simp: item_step_def sq_symbol_def seq_ok_def)
  qed
  have grp: "ok_result (item_step sq) (ebind (parse_group alternates name nl sq) (\<lambda>sq1. Inr (Some sq1)))"
    by (rule ok_ebind [OF group_ok [OF sq name pos depth]]) simp
  have any: "item_step sq (Some (sq_symbol (parse_space (drop 1 ?pos) nl) (sq_rule sq @ [elt GRE_CHAR_ANY 0]) sq))"
    using d(1) by (intro sym) (auto intro!: symbol_seg_single)
  have rep: "ok_result (item_step sq) (ebind (handle_repetitions name m k (sq\<lparr>sq_pos := x\<rparr>)) (\<lambda>sq1. Inr (Some sq1)))"
    if "rep_bounds m k" "length x < length ?pos" for m k x
    using item_step_repeat [OF sq name that] .
  have brace: "ok_result (item_step sq) (ebind (parse_bounds nl (parse_space (drop 1 ?pos) nl)) (\<lambda>(min_times, max_times, pos1).
        ebind (check (\<not> (min_times > MAX_REPETITION_THRESHOLD \<or> (max_times \<noteq> UINT64_MAX \<and> max_times > MAX_REPETITION_THRESHOLD)))
                 Too_Many_Repetitions) (\<lambda>_.
        ebind (handle_repetitions name min_times max_times (sq\<lparr>sq_pos := pos1\<rparr>)) (\<lambda>sq1. Inr (Some sq1)))))"
    using sp by (intro ok_ebind [OF bounds_ok]) (auto intro!: ok_check rep simp: rep_bounds_def)
  have b: "rep_bounds 0 UINT64_MAX" "rep_bounds 1 UINT64_MAX" "rep_bounds 0 1"
    by (simp_all add: rep_bounds_def MAX_REPETITION_THRESHOLD_def)
  show ?thesis
    using False lit rng tok ref grp any rep [OF b(1) sp] rep [OF b(2) sp] rep [OF b(3) sp] brace d
    by (simp add: parse_item_def Let_def item_step_def [of sq None] del: One_nat_def)
qed

lemma seq_loop_ok:
  assumes "seq_ok sq" "is_name name" "length (sq_pos sq) \<le> depth" "length (sq_pos sq) < n"
  shows "ok_result (\<lambda>sq'. seq_ok sq' \<and> length (sq_pos sq') \<le> length (sq_pos sq) \<and> grows (sq_parser sq) (sq_parser sq'))
    (seq_loop n vocab alternates name nl sq)"
  using assms(1,3,4)
proof (induction n arbitrary: sq)
  case (Suc n)
  show ?case
    unfolding seq_loop.simps
  proof (rule ok_ebind [OF item_ok [OF Suc.prems(1) assms(2) Suc.prems(2)]])
    fix r assume r: "item_step sq r"
    show "ok_result (\<lambda>sq'. seq_ok sq' \<and> length (sq_pos sq') \<le> length (sq_pos sq) \<and> grows (sq_parser sq) (sq_parser sq'))
      (case r of None \<Rightarrow> Inr sq | Some sq1 \<Rightarrow> seq_loop n vocab alternates name nl sq1)"
    proof (cases r)
      case None
      then show ?thesis
        using Suc.prems(1) by (simp add: grows_refl seq_ok_def)
    next
      case (Some sq1)
      then have s: "seq_ok sq1" "length (sq_pos sq1) < length (sq_pos sq)" "grows (sq_parser sq) (sq_parser sq1)"
        using r by (simp_all add: item_step_def)
      have "ok_result (\<lambda>sq'. seq_ok sq' \<and> length (sq_pos sq') \<le> length (sq_pos sq1) \<and> grows (sq_parser sq1) (sq_parser sq'))
          (seq_loop n vocab alternates name nl sq1)"
        using Suc.IH [OF s(1)] s(2) Suc.prems by simp
      then show ?thesis
        unfolding Some option.case by (rule ok_mono) (use s grows_trans in auto)
    qed
  qed
qed simp

lemma sequence_ok:
  assumes "parser_ok p" "is_name name" "length src \<le> depth" "closed_seg rule" "refs_in (ids p) rule"
  shows "ok_result (\<lambda>(src', rule', p'). length src' \<le> length src \<and> closed_seg rule' \<and> refs_in (ids p') rule' \<and> grows p p')
    (parse_sequence vocab alternates name nl src rule p)"
proof -
  have "seq_ok \<lparr>sq_pos = src, sq_rule = rule, sq_last = length rule, sq_n_prev = 1, sq_parser = p\<rparr>"
    using assms by (simp add: seq_ok_def)
  then show ?thesis
    unfolding parse_sequence_def using assms(2,3) seq_ok_rule
    by (intro ok_ebind [OF seq_loop_ok]) (auto simp: seq_ok_def)
qed

lemma alternates_loop_ok:
  assumes "is_name name"
  shows "parser_ok p \<Longrightarrow> length pos \<le> depth \<Longrightarrow> closed_seg rule \<Longrightarrow> refs_in (ids p) rule \<Longrightarrow> length pos < n \<Longrightarrow>
    ok_result (\<lambda>(pos', rule', p'). length pos' \<le> length pos \<and> closed_seg rule' \<and> refs_in (ids p') rule' \<and> grows p p')
      (alternates_loop n vocab alternates name nl pos rule p)"
proof (induction n arbitrary: pos rule p)
  case (Suc n)
  show ?case
  proof (cases "char_at pos 0 = CHR ''|''")
    case True
    then have "0 < length pos"
      using char_at_nonempty [of pos 0] by simp
    then have len: "length (parse_space (drop 1 pos) True) < length pos"
      using parse_space_length [of "drop 1 pos" True] by (simp add: order_le_less_trans)
    have seg: "closed_seg (rule @ [elt GRE_ALT 0])"
      using Suc.prems(3) closed_seg_single [of "elt GRE_ALT 0"] by (intro closed_seg_append) auto
    have sq: "ok_result (\<lambda>(src', rule', p'). length src' \<le> length (parse_space (drop 1 pos) True) \<and> closed_seg rule' \<and> refs_in (ids p') rule' \<and> grows p p')
        (parse_sequence vocab alternates name nl (parse_space (drop 1 pos) True) (rule @ [elt GRE_ALT 0]) p)"
      using Suc.prems seg assms len by (intro sequence_ok) auto
    have "ok_result (\<lambda>(pos', rule', p'). length pos' \<le> length pos \<and> closed_seg rule' \<and> refs_in (ids p') rule' \<and> grows p p')
      (ebind (parse_sequence vocab alternates name nl (parse_space (drop 1 pos) True) (rule @ [elt GRE_ALT 0]) p)
        (\<lambda>(pos1, rule1, p1). alternates_loop n vocab alternates name nl pos1 rule1 p1))"
    proof (rule ok_ebind [OF sq], clarify)
      fix pos1 :: string and rule1 p1
      assume s: "length pos1 \<le> length (parse_space (drop 1 pos) True)" "closed_seg rule1" "refs_in (ids p1) rule1" "grows p p1"
      have "ok_result (\<lambda>(pos', rule', p'). length pos' \<le> length pos1 \<and> closed_seg rule' \<and> refs_in (ids p') rule' \<and> grows p1 p')
          (alternates_loop n vocab alternates name nl pos1 rule1 p1)"
        using Suc.IH [OF grows_ok [OF s(4)] _ s(2,3)] s(1) len Suc.prems by simp
      then show "ok_result (\<lambda>(pos', rule', p'). length pos' \<le> length pos \<and> closed_seg rule' \<and> refs_in (ids p') rule' \<and> grows p p')
          (alternates_loop n vocab alternates name nl pos1 rule1 p1)"
        by (rule ok_mono) (use s len grows_trans in auto)
    qed
    then show ?thesis
      using True by simp
  next
    case False
    then show ?thesis
      using Suc.prems by (simp add: grows_refl)
  qed
qed simp

lemma nested_level:
  assumes "parser_ok p" "is_name name" "length src \<le> depth"
  shows "ok_result (parses p src)
    (ebind (parse_sequence vocab alternates name nl src [] p) (\<lambda>(pos1, rule1, p1).
     ebind (alternates_loop (Suc (length pos1)) vocab alternates name nl pos1 rule1 p1) (\<lambda>(pos2, rule2, p2).
       Inr (pos2, add_rule rule_id (rule2 @ [elt GRE_END 0]) p2))))"
proof (rule ok_ebind [OF sequence_ok [OF assms closed_seg_Nil refs_in_simps(1)]], clarify)
  fix pos1 :: string and rule1 p1
  assume s: "length pos1 \<le> length src" "closed_seg rule1" "refs_in (ids p1) rule1" "grows p p1"
  have loop: "ok_result (\<lambda>(pos', rule', p'). length pos' \<le> length pos1 \<and> closed_seg rule' \<and> refs_in (ids p') rule' \<and> grows p1 p')
      (alternates_loop (Suc (length pos1)) vocab alternates name nl pos1 rule1 p1)"
    using s assms(3) by (intro alternates_loop_ok [OF assms(2) grows_ok [OF s(4)]]) auto
  show "ok_result (parses p src)
      (ebind (alternates_loop (Suc (length pos1)) vocab alternates name nl pos1 rule1 p1) (\<lambda>(pos2, rule2, p2).
        Inr (pos2, add_rule rule_id (rule2 @ [elt GRE_END 0]) p2)))"
  proof (rule ok_ebind [OF loop], clarify)
    fix pos2 :: string and rule2 p2
    assume t: "length pos2 \<le> length pos1" "closed_seg rule2" "refs_in (ids p2) rule2" "grows p1 p2"
    have "grows p2 (add_rule rule_id (rule2 @ [elt GRE_END 0]) p2)"
      using t(2,3) closed_seg_end grows_ok [OF t(4)] by (intro add_rule_ok) auto
    then show "ok_result (parses p src) (Inr (pos2, add_rule rule_id (rule2 @ [elt GRE_END 0]) p2))"
      using s(1) t(1) grows_trans [OF grows_trans [OF s(4) t(4)]] by (simp add: parses_def)
  qed
qed

end

lemma nested_alternates_parse: "nested_alternates (parse_alternates n vocab) n"
proof (induction n)
  case 0
  then show ?case
    by unfold_locales simp
next
  case (Suc n)
  then show ?case
    unfolding nested_alternates_def parse_alternates.simps
    using nested_alternates.nested_level [OF Suc.IH] by auto
qed

interpretation pa: nested_alternates "parse_alternates n vocab" n for n vocab
  by (rule nested_alternates_parse)

section \<open>Rules and texts\<close>

lemma parse_rule_ok:
  assumes "parser_ok p" "src \<noteq> []"
  shows "ok_result (\<lambda>(src', p'). length src' < length src \<and> grows p p') (parse_rule vocab src p)"
  unfolding parse_rule_def
proof (rule ok_ebind [OF parse_name_ok], clarify)
  fix name name_end :: string assume n: "length name_end < length src" "is_name name"
  obtain i p1 where g: "get_symbol_id name p = (i, p1)"
    by fastforce
  have p1: "grows p p1"
    using get_symbol_id_ok [OF assms(1) n(2) g] by simp
  let ?pos = "parse_space name_end False"
  have l1: "length (parse_space (drop 3 ?pos) True) < length src"
    using n(1) parse_space_length [of name_end False] parse_space_length [of "drop 3 ?pos" True] by simp
  have alt: "ok_result (parses p1 (parse_space (drop 3 ?pos) True))
      (parse_alternates (Suc (length src)) vocab (parse_space (drop 3 ?pos) True) name i False p1)"
    using l1 n(2) grows_ok [OF p1] by (intro pa.nested_ok) auto
  have sp: "length (parse_space (drop k x) True) \<le> length x" for k x
    using parse_space_length [of "drop k x" True] by simp
  have sp0: "length (parse_space x True) \<le> length x" for x
    by (rule parse_space_length)
  have fin: "ok_result (\<lambda>(src', p'). length src' < length src \<and> grows p p')
      (ebind (if byte (char_at pos1 0) = 13 then Inr (drop (if byte (char_at pos1 1) = 10 then 2 else 1) pos1)
              else if byte (char_at pos1 0) = 10 then Inr (drop 1 pos1)
              else if char_at pos1 0 \<noteq> NUL then Inl Expecting_Newline
              else Inr pos1) (\<lambda>pos2. Inr (parse_space pos2 True, p2)))"
    if "parses p1 (parse_space (drop 3 ?pos) True) (pos1, p2)" for pos1 p2
  proof -
    have "length pos1 < length src" "grows p p2"
      using that l1 grows_trans [OF p1] by (auto simp: parses_def)
    then show ?thesis
      using sp [of _ pos1] sp0 [of pos1] by (auto intro: order_le_less_trans simp del: length_drop)
  qed
  show "ok_result (\<lambda>(src', p'). length src' < length src \<and> grows p p')
     (let pos = ?pos; (rule_id, p1) = get_symbol_id name p in
       ebind (check (char_at pos 0 = CHR '':'' \<and> char_at pos 1 = CHR '':'' \<and> char_at pos 2 = CHR ''='') Expecting_Def) (\<lambda>_.
       ebind (parse_alternates (Suc (length src)) vocab (parse_space (drop 3 pos) True) name rule_id False p1) (\<lambda>(pos1, p2).
       ebind (if byte (char_at pos1 0) = 13 then Inr (drop (if byte (char_at pos1 1) = 10 then 2 else 1) pos1)
              else if byte (char_at pos1 0) = 10 then Inr (drop 1 pos1)
              else if char_at pos1 0 \<noteq> NUL then Inl Expecting_Newline
              else Inr pos1) (\<lambda>pos2.
         Inr (parse_space pos2 True, p2)))))"
    unfolding Let_def g prod.case by (rule ok_check) (simp, rule ok_ebind [OF alt], use fin in auto)
qed

lemma rules_loop_ok: "parser_ok p \<Longrightarrow> length pos < n \<Longrightarrow> ok_result (grows p) (rules_loop n vocab pos p)"
proof (induction n arbitrary: pos p)
  case (Suc n)
  show ?case
  proof (cases "char_at pos 0 = NUL")
    case True
    then show ?thesis
      using Suc.prems by (simp add: grows_refl)
  next
    case False
    then have "pos \<noteq> []"
      by (auto simp: char_at_def)
    note rule = parse_rule_ok [OF Suc.prems(1) this, of vocab]
    have "ok_result (grows p) (ebind (parse_rule vocab pos p) (\<lambda>(pos1, p1). rules_loop n vocab pos1 p1))"
    proof (rule ok_ebind [OF rule], clarify)
      fix pos1 :: string and p1 assume s: "length pos1 < length pos" "grows p p1"
      show "ok_result (grows p) (rules_loop n vocab pos1 p1)"
        using Suc.IH [OF grows_ok [OF s(2)], of pos1] s Suc.prems(2) by (auto elim!: ok_mono intro: grows_trans)
    qed
    then show ?thesis
      using False by simp
  qed
qed simp

lemma check_elems_ok: "ok_result (\<lambda>_. \<forall>e \<in> set es. check_elem p e = Inr ()) (check_elems p es)"
proof (induction es)
  case (Cons e es)
  have "ok_result (\<lambda>_. check_elem p e = Inr ()) (check_elem p e)"
    by (auto simp: check_elem_def split: option.splits)
  then show ?case
    unfolding check_elems.simps by (rule ok_ebind) (rule ok_mono [OF Cons.IH], auto)
qed simp

lemma check_rules_ok: "ok_result (\<lambda>_. \<forall>r \<in> set rs. r \<noteq> [] \<and> (\<forall>e \<in> set r. check_elem p e = Inr ())) (check_rules p rs)"
proof (induction rs)
  case (Cons r rs)
  then show ?case
    by (auto intro!: ok_check ok_ebind [OF check_elems_ok] elim!: ok_mono)
qed simp

lemma check_elem_ref:
  assumes "check_elem p e = Inr ()" "ge_type e = GRE_RULE_REF" "ge_value e \<in> ids p" "parser_ok p"
  shows "0 \<le> ge_value e \<and> nat (ge_value e) < length (parser_rules p)"
proof -
  have "0 \<le> ge_value e"
    using assms(3,4) by (auto simp: parser_ok_def symbols_ok_def)
  moreover have "find (\<lambda>kv. snd kv = ge_value e) (symbol_ids p) \<noteq> None"
    using assms(3) by (auto simp: find_None_iff)
  ultimately show ?thesis
    using assms(1,2) by (force simp: check_elem_def split: if_splits option.splits)
qed

lemma parse_ok:
  "ok_result (\<lambda>p. parser_ok p \<and> wf_rules (parser_rules p)) (parse vocab src)"
proof -
  let ?pos = "parse_space src True"
  have new: "parser_ok parser_new"
    by (simp add: parser_ok_def symbols_ok_def parser_new_def)
  have val: "wf_rules (parser_rules p)" if ok: "parser_ok p" and chk: "\<forall>r \<in> set (parser_rules p). r \<noteq> [] \<and> (\<forall>e \<in> set r. check_elem p e = Inr ())" for p
    unfolding wf_rules_def refs_ok_def
  proof (intro ballI conjI impI)
    fix r assume r: "r \<in> set (parser_rules p)"
    then have wf: "wf_elems 0 r" "refs_in (ids p) r"
      using ok chk by (auto simp: parser_ok_def)
    show "wf_elems 0 r"
      by (rule wf(1))
    fix e assume e: "e \<in> set r" "ge_type e = GRE_RULE_REF"
    then have "0 \<le> ge_value e \<and> nat (ge_value e) < length (parser_rules p)"
      using wf(2) r chk ok by (intro check_elem_ref) (auto simp: refs_in_def)
    then show "0 \<le> ge_value e" "nat (ge_value e) < length (parser_rules p)"
      by simp_all
  qed
  have loop: "ok_result (grows parser_new) (rules_loop (Suc (length ?pos)) vocab ?pos parser_new)"
    by (rule rules_loop_ok [OF new]) simp
  show ?thesis
    unfolding parse_def Let_def
    by (rule ok_ebind [OF loop], rule ok_ebind [OF check_rules_ok]) (use val grows_ok in auto)
qed

section \<open>Properties\<close>

definition demo_text :: string where
  "demo_text = ''root ::= | '' @ [CHR 0x22] @ ''a'' @ [CHR 0x22] @ '' root ([x-z] | num)*'' @ [CHR 0x0A] @ ''num ::= [0-9]{1,2}''"


text \<open>C19. What the parser accepts is well formed: every rule ends with its only \<open>END\<close>, the parts of character classes
  are where they belong, and every reference is the index of a defined rule. Different symbols have different names,
  and as long as 32 bits suffice the ids number the symbols.\<close>

theorem parse_wf:
  assumes "parse vocab src = Inr p"
  shows "wf_rules (parser_rules p) \<and> distinct (map fst (symbol_ids p)) \<and>
    (length (symbol_ids p) \<le> 2 ^ 32 \<longrightarrow> map snd (symbol_ids p) = map int [0..<length (symbol_ids p)])"
  using parse_ok [of vocab src] assms by (simp add: parser_ok_def symbols_ok_def)

theorem parse_wf_witness:
  "\<exists>p. parse None demo_text = Inr p \<and> length (parser_rules p) = 5 \<and> wf_rules (parser_rules p)"
proof -
  have "case parse None demo_text of Inr p \<Rightarrow> length (parser_rules p) = 5 | Inl _ \<Rightarrow> False"
    by code_simp
  then obtain p where "parse None demo_text = Inr p" "length (parser_rules p) = 5"
    by (auto split: sum.splits)
  with parse_wf [OF this(1)] show ?thesis
    by blast
qed

end
