(* ===== verification/Grammar_Repeat.thy ===== *)
theory Grammar_Repeat
  imports Grammar_Text Grammar_Init
begin

text \<open>
  What repetitions mean. The parser rewrites \<open>S{m,n}\<close> into copies of \<open>S\<close> and synthesised rules; the language of the
  result consists of the concatenations of between \<open>m\<close> and \<open>n\<close> words of \<open>S\<close>. Two texts for which the code goes
  wrong: a repetition with reversed bounds, and a start symbol that is only mentioned in a rule that is defined again.
\<close>

section \<open>Words of elements\<close>

definition accepts_elems :: "llama_grammar_element list \<Rightarrow> int \<Rightarrow> bool" where
  "accepts_elems es c \<longleftrightarrow> ge_type (hd es) = GRE_CHAR_ANY \<or> (in_ranges c (class_ranges es) \<longleftrightarrow> ge_type (hd es) = GRE_CHAR)"

definition class_size :: "llama_grammar_element list \<Rightarrow> nat" where
  "class_size es = (if ge_type (hd es) = GRE_CHAR_ANY then 1 else class_len es)"

inductive derives_elems :: "llama_grammar_rules \<Rightarrow> llama_grammar_element list \<Rightarrow> int list \<Rightarrow> bool" for rules where
  finish: "end_type (ge_type e) \<Longrightarrow> derives_elems rules (e # es) []"
| chr: "char_type (ge_type e) \<Longrightarrow> accepts_elems (e # es) c \<Longrightarrow> derives_elems rules (drop (class_size (e # es)) (e # es)) w \<Longrightarrow>
     derives_elems rules (e # es) (c # w)"
| ref: "ge_type e = GRE_RULE_REF \<Longrightarrow> u \<in> rule_lang rules (nat (ge_value e)) \<Longrightarrow> derives_elems rules es v \<Longrightarrow>
     derives_elems rules (e # es) (u @ v)"

inductive_simps derives_elems_Nil [simp]: "derives_elems rules [] w"
inductive_simps derives_elems_Cons: "derives_elems rules (e # es) w"

abbreviation end_elem :: llama_grammar_element where
  "end_elem \<equiv> elt GRE_END 0"

definition seg_word :: "llama_grammar_rules \<Rightarrow> llama_grammar_rule \<Rightarrow> int list \<Rightarrow> bool" where
  "seg_word rules seg w \<longleftrightarrow> derives_elems rules (seg @ [end_elem]) w"

lemma elems_end: "end_type (ge_type e) \<Longrightarrow> derives_elems rules (e # es) w \<longleftrightarrow> w = []"
  by (auto simp: derives_elems_Cons end_type_def char_type_def)

lemma elems_char:
  "char_type (ge_type e) \<Longrightarrow> derives_elems rules (e # es) w \<longleftrightarrow>
     (\<exists>c v. w = c # v \<and> accepts_elems (e # es) c \<and> derives_elems rules (drop (class_size (e # es)) (e # es)) v)"
  by (auto simp: derives_elems_Cons end_type_def char_type_def)

lemma elems_ref:
  "ge_type e = GRE_RULE_REF \<Longrightarrow> derives_elems rules (e # es) w \<longleftrightarrow>
     (\<exists>u v. w = u @ v \<and> u \<in> rule_lang rules (nat (ge_value e)) \<and> derives_elems rules es v)"
  by (auto simp: derives_elems_Cons end_type_def char_type_def)

lemma elems_token: "token_type (ge_type e) \<Longrightarrow> \<not> derives_elems rules (e # es) w"
  by (auto simp: derives_elems_Cons end_type_def char_type_def token_type_def)

lemma seg_word_Nil [simp]: "seg_word rules [] w \<longleftrightarrow> w = []"
  by (simp add: seg_word_def elems_end end_type_def)

text \<open>Words from a position are words of the elements from there on.\<close>

lemma item_elems:
  assumes "item_pos rules p"
  shows "elems_from rules p = elem rules p # elems_from rules (next_pos p)"
  using item_pos_elem(2) [OF assms] by (simp add: next_pos_def split: prod.splits)

lemma class_elems:
  assumes "item_pos rules p"
  shows "class_accepts rules p c = accepts_elems (elems_from rules p) c"
    "elems_from rules (after_class rules p) = drop (class_size (elems_from rules p)) (elems_from rules p)"
proof -
  have "hd (elems_from rules p) = elem rules p"
    using item_elems [OF assms] by simp
  then show "class_accepts rules p c = accepts_elems (elems_from rules p) c"
    "elems_from rules (after_class rules p) = drop (class_size (elems_from rules p)) (elems_from rules p)"
    by (simp_all add: class_accepts_def accepts_elems_def after_class_def class_size_def add.commute)
qed

lemma derives_imp_elems:
  assumes "wf_rules rules" "derives rules p w" "item_pos rules p"
  shows "derives_elems rules (elems_from rules p) w"
  using assms(2,3)
proof (induction rule: derives.induct)
  case (end_of_alternate p)
  then show ?case
    using item_elems by (simp add: finish)
next
  case (char_class p c w)
  have "item_pos rules (after_class rules p)"
    using match_char_item [OF char_class.prems char_class.hyps(1)] by blast
  then show ?case
    using char_class item_elems [OF char_class.prems] class_elems [OF char_class.prems] chr by metis
next
  case (rule_ref p q u v)
  have "item_pos rules (next_pos p)"
    using item_pos_next [OF rule_ref.prems] rule_ref.hyps(1) by simp
  then show ?case
    using rule_ref item_elems [OF rule_ref.prems] ref [of "elem rules p" u rules] by (force simp: rule_lang_def)
qed

lemma elems_imp_derives:
  assumes "derives_elems rules es w" "wf_rules rules" "item_pos rules p" "es = elems_from rules p"
  shows "derives rules p w"
  using assms(1,3,4)
proof (induction arbitrary: p rule: derives_elems.induct)
  case (finish e es)
  then show ?case
    using item_elems [OF finish.prems(1)] by (auto intro: derives.end_of_alternate)
next
  case (chr e es c w)
  have e: "e = elem rules p"
    using item_elems [OF chr.prems(1)] chr.prems(2) by simp
  have "derives rules (after_class rules p) w"
    using match_char_item(2) [OF chr.prems(1)] chr e class_elems(2) [OF chr.prems(1)] by simp
  then show ?case
    using chr e class_elems(1) [OF chr.prems(1)] by (intro derives.char_class) auto
next
  case (ref e u es v)
  have e: "e = elem rules p" "es = elems_from rules (next_pos p)"
    using item_elems [OF ref.prems(1)] ref.prems(2) by simp_all
  have "item_pos rules (next_pos p)"
    using item_pos_next [OF ref.prems(1)] ref.hyps(1) e by simp
  then have "derives rules (next_pos p) v"
    using ref.IH e by simp
  then show ?case
    using ref.hyps(1,2) e by (auto simp: rule_lang_def intro: derives.rule_ref)
qed

lemma derives_elems_iff:
  "wf_rules rules \<Longrightarrow> item_pos rules p \<Longrightarrow> derives rules p w \<longleftrightarrow> derives_elems rules (elems_from rules p) w"
  using derives_imp_elems elems_imp_derives by blast

section \<open>Concatenation of segments\<close>

definition class_stop :: "llama_grammar_element list \<Rightarrow> bool" where
  "class_stop rest \<longleftrightarrow> rest \<noteq> [] \<and> ge_type (hd rest) \<noteq> GRE_CHAR_ALT \<and> ge_type (hd rest) \<noteq> GRE_CHAR_RNG_UPPER"

lemma class_stop_wf: "wf_elems 0 rest \<Longrightarrow> class_stop rest"
  by (cases rest) (auto simp: class_stop_def split: llama_gretype.splits)

lemma class_of_prefix:
  assumes "class_stop rest" "class_stop rest'" "a \<noteq> []"
  shows "class_ranges (a @ rest) = class_ranges (a @ rest') \<and> class_len (a @ rest) = class_len (a @ rest') \<and> class_len (a @ rest) \<le> length a"
  using assms(3)
proof (induction "length a" arbitrary: a rule: less_induct)
  case less
  have rest: "rest = hd rest # tl rest" "rest' = hd rest' # tl rest'"
    using assms by (simp_all add: class_stop_def)
  consider e where "a = [e]" | e e1 where "a = [e, e1]" | e e1 e2 a' where "a = e # e1 # e2 # a'"
    using less.prems by (metis list.exhaust)
  then show ?case
  proof cases
    case 1
    then show ?thesis
      using rest assms(1,2) class_ranges.simps(1) [of e "hd rest" "tl rest"] class_len.simps(1) [of e "hd rest" "tl rest"]
        class_ranges.simps(1) [of e "hd rest'" "tl rest'"] class_len.simps(1) [of e "hd rest'" "tl rest'"]
      by (simp add: class_stop_def)
  next
    case 2
    then show ?thesis
      using less.hyps [of "[e1]"] assms(1,2) by (simp add: class_stop_def)
  next
    case 3
    then show ?thesis
      using less.hyps [of "e1 # e2 # a'"] less.hyps [of "e2 # a'"] by simp
  qed
qed

lemma symbol_seg_tail:
  assumes "symbol_seg (e # s)" "ge_type e \<in> {GRE_CHAR_ANY, GRE_RULE_REF}"
  shows "symbol_seg s"
  using assms by (auto simp: symbol_seg_def closed_seg_def)

lemma symbol_seg_class:
  assumes "symbol_seg (e # s)" "ge_type e = GRE_CHAR \<or> ge_type e = GRE_CHAR_NOT" "class_stop rest"
  defines "k \<equiv> class_len (e # s @ rest)"
  shows "symbol_seg (drop k (e # s))"
proof -
  have "wf_elems 0 (drop k (e # s) @ tail)" if t: "wf_elems 0 tail" for tail
  proof -
    have c: "class_len (e # s @ rest) = class_len (e # s @ tail)" "class_len (e # s @ tail) \<le> length (e # s)"
      using class_of_prefix [OF assms(3) class_stop_wf [OF t], of "e # s"] by auto
    have "wf_elems 0 (e # s @ tail)"
      using assms(1) t by (auto simp: symbol_seg_def closed_seg_def)
    then have "wf_elems 1 (s @ tail)"
      using assms(2) by auto
    then have "wf_elems 0 (drop (class_len (e # s @ tail)) (e # s @ tail))"
      using match_char_loop_eq [of "s @ tail" e 0 False 0] assms(2) by auto
    then show ?thesis
      using c drop_append [of k "e # s" tail] by (simp add: k_def)
  qed
  then show ?thesis
    using assms(1) set_drop_subset [of k "e # s"] by (fastforce simp: symbol_seg_def closed_seg_def)
qed

lemma symbol_seg_head:
  assumes "symbol_seg (e # s)"
  obtains "ge_type e = GRE_CHAR \<or> ge_type e = GRE_CHAR_NOT" | "ge_type e = GRE_CHAR_ANY" | "ge_type e = GRE_RULE_REF" | "token_type (ge_type e)"
proof -
  have "wf_elems 0 (e # s @ [end_elem])"
    using assms closed_seg_end [of "e # s"] by (simp add: symbol_seg_def)
  then show ?thesis
    using assms that by (cases "ge_type e") (auto simp: symbol_seg_def end_type_def token_type_def)
qed

lemma derives_elems_append:
  assumes "symbol_seg s" "wf_elems 0 rest"
  shows "derives_elems rules (s @ rest) w \<longleftrightarrow> (\<exists>u v. w = u @ v \<and> seg_word rules s u \<and> derives_elems rules rest v)"
  using assms(1)
proof (induction "length s" arbitrary: s w rule: less_induct)
  case less
  show ?case
  proof (cases s)
    case (Cons e s')
    from less.prems Cons have seg: "symbol_seg (e # s')"
      by simp
    have stop: "class_stop rest" "class_stop [end_elem]"
      using class_stop_wf [OF assms(2)] by (simp_all add: class_stop_def)
    from seg show ?thesis
    proof (cases rule: symbol_seg_head)
      case 1
      let ?k = "class_len (e # s' @ rest)"
      have k: "class_len (e # s' @ [end_elem]) = ?k" "class_ranges (e # s' @ [end_elem]) = class_ranges (e # s' @ rest)" "?k \<le> length (e # s')"
        using class_of_prefix [OF stop, of "e # s'"] by auto
      have "?k > 0"
        using wf_elems_not_Nil [OF assms(2)] by (cases "s' @ rest") auto
      then have short: "length (drop ?k (e # s')) < length s"
        using Cons by simp
      have sz: "class_size (e # s' @ rest) = ?k" "class_size (e # s' @ [end_elem]) = ?k"
        using 1 k(1) by (auto simp: class_size_def)
      have acc: "accepts_elems (e # s' @ [end_elem]) c = accepts_elems (e # s' @ rest) c" for c
        using k(2) by (simp add: accepts_elems_def)
      have d: "drop ?k (e # s' @ x) = drop ?k (e # s') @ x" for x
        using k(3) drop_append [of ?k "e # s'" x] by simp
      have ch: "char_type (ge_type e)"
        using 1 by (auto simp: char_type_def)
      have tail: "symbol_seg (drop ?k (e # s'))"
        by (rule symbol_seg_class [OF seg 1 stop(1)])
      have IH: "derives_elems rules (drop ?k (e # s') @ rest) v \<longleftrightarrow>
          (\<exists>u v'. v = u @ v' \<and> derives_elems rules (drop ?k (e # s') @ [end_elem]) u \<and> derives_elems rules rest v')" for v
        using less.hyps [OF short tail] by (simp add: seg_word_def)
      show ?thesis
        unfolding Cons append_Cons seg_word_def elems_char [OF ch] sz acc d IH by (metis append_Cons)
    next
      case 2
      have IH: "derives_elems rules (s' @ rest) v \<longleftrightarrow> (\<exists>u v'. v = u @ v' \<and> derives_elems rules (s' @ [end_elem]) u \<and> derives_elems rules rest v')" for v
        using less.hyps [of s'] symbol_seg_tail [OF seg] 2 Cons by (simp add: seg_word_def)
      have sz: "class_size (e # x) = Suc 0" and acc: "accepts_elems (e # x) c = True" for x c
        using 2 by (simp_all add: class_size_def accepts_elems_def)
      have ch: "char_type (ge_type e)"
        using 2 by (simp add: char_type_def)
      show ?thesis
        unfolding Cons append_Cons seg_word_def elems_char [OF ch] sz drop_Suc_Cons drop_0 acc IH by (metis append_Cons)
    next
      case 3
      have IH: "derives_elems rules (s' @ rest) v \<longleftrightarrow> (\<exists>u v'. v = u @ v' \<and> derives_elems rules (s' @ [end_elem]) u \<and> derives_elems rules rest v')" for v
        using less.hyps [of s'] symbol_seg_tail [OF seg] 3 Cons by (simp add: seg_word_def)
      show ?thesis
        unfolding Cons append_Cons seg_word_def elems_ref [OF 3] IH by (metis append_assoc)
    next
      case 4
      then show ?thesis
        unfolding Cons append_Cons seg_word_def using elems_token by blast
    qed
  qed simp
qed

section \<open>Powers of a language\<close>

primrec lang_pow :: "'a list set \<Rightarrow> nat \<Rightarrow> 'a list set" where
  "lang_pow A 0 = {[]}"
| "lang_pow A (Suc n) = {u @ v | u v. u \<in> A \<and> v \<in> lang_pow A n}"

lemma lang_pow_add: "lang_pow A (m + n) = {u @ v | u v. u \<in> lang_pow A m \<and> v \<in> lang_pow A n}"
proof (induction m)
  case (Suc m)
  show ?case
    unfolding add_Suc lang_pow.simps Suc.IH by (auto, metis append_assoc, metis append_assoc)
qed simp

definition words :: "llama_grammar_rules \<Rightarrow> llama_grammar_rule \<Rightarrow> int list set" where
  "words rules seg = {w. seg_word rules seg w}"

lemma words_Nil [simp]: "words rules [] = {[]}"
  by (simp add: words_def)

lemma words_append: "symbol_seg a \<Longrightarrow> symbol_seg b \<Longrightarrow> words rules (a @ b) = {u @ v | u v. u \<in> words rules a \<and> v \<in> words rules b}"
  using derives_elems_append [of a "b @ [end_elem]"] closed_seg_end [of b] by (auto simp: words_def seg_word_def symbol_seg_def)

lemma words_ref:
  assumes "symbol_seg s"
  shows "words rules (s @ [elt GRE_RULE_REF (int r)]) = {u @ v | u v. u \<in> words rules s \<and> v \<in> rule_lang rules r}"
proof -
  have "words rules [elt GRE_RULE_REF (int r)] = rule_lang rules r"
    by (auto simp: words_def seg_word_def elems_ref elems_end end_type_def)
  then show ?thesis
    using words_append [OF assms symbol_seg_single [of "elt GRE_RULE_REF (int r)"]] by simp
qed

lemma words_replicate: "symbol_seg s \<Longrightarrow> words rules (concat (replicate n s)) = lang_pow (words rules s) n"
  by (induction n) (simp_all add: words_append symbol_seg_concat)

section \<open>Synthesised rules\<close>

abbreviation opt_rule :: "llama_grammar_rule \<Rightarrow> llama_grammar_rule" where
  "opt_rule a \<equiv> a @ [elt GRE_ALT 0, end_elem]"

lemma alt_starts_opt: "\<forall>e \<in> set a. \<not> end_type (ge_type e) \<Longrightarrow> alt_starts (opt_rule a) i = Some [Suc (i + length a)]"
  by (induction a arbitrary: i) (auto simp: end_type_def)

lemma opt_alternates:
  assumes "symbol_seg a" "r < length rules" "rules ! r = opt_rule a"
  shows "alternates rules r = {(r, 0), (r, Suc (length a))}"
  using assms alt_starts_opt [of a 0] by (simp add: alternates_def rule_starts_def symbol_seg_def)

lemma opt_rule_lang:
  assumes "wf_rules rules" "symbol_seg a" "r < length rules" "rules ! r = opt_rule a"
  shows "rule_lang rules r = insert [] (words rules a)"
proof -
  note alt = opt_alternates [OF assms(2-4)]
  have "wf_elems 0 [elt GRE_ALT 0, end_elem]"
    by simp
  note app = derives_elems_append [OF assms(2) this, of rules]
  have item: "item_pos rules (r, 0)"
    using alternates_ok(2) [OF assms(1,3)] alt by auto
  have "derives rules (r, Suc (length a)) w \<longleftrightarrow> w = []" for w
    using assms(4) by (intro derives_end) (simp add: nth_append end_type_def)
  moreover have "derives rules (r, 0) w \<longleftrightarrow> w \<in> words rules a" for w
    using derives_elems_iff [OF assms(1) item] assms(4) app elems_end [of "elt GRE_ALT 0"] by (simp add: end_type_def words_def)
  ultimately show ?thesis
    unfolding rule_lang_def alt by auto
qed

lemma opt_chain_lang:
  assumes "wf_rules rules" "symbol_seg s"
    and "\<forall>i \<le> n. b + i < length rules \<and> rules ! (b + i) = opt_rule (s @ (if i = 0 then [] else [elt GRE_RULE_REF (int (b + i - 1))]))"
  shows "rule_lang rules (b + n) = (\<Union>j \<le> Suc n. lang_pow (words rules s) j)"
  using assms(3)
proof (induction n)
  case 0
  then show ?case
    using opt_rule_lang [OF assms(1,2), of b] by (auto simp: atMost_Suc)
next
  case (Suc n)
  have seg: "symbol_seg (s @ [elt GRE_RULE_REF (int (b + n))])"
    using assms(2) symbol_seg_single by (intro symbol_seg_append) auto
  have "rule_lang rules (b + Suc n) = insert [] (words rules (s @ [elt GRE_RULE_REF (int (b + n))]))"
    using Suc.prems [rule_format, of "Suc n"] opt_rule_lang [OF assms(1) seg, of "b + Suc n"] by simp
  also have "words rules (s @ [elt GRE_RULE_REF (int (b + n))]) = {u @ v | u v. u \<in> words rules s \<and> v \<in> rule_lang rules (b + n)}"
    by (rule words_ref [OF assms(2)])
  also have "rule_lang rules (b + n) = (\<Union>j \<le> Suc n. lang_pow (words rules s) j)"
    using Suc by simp
  also have "insert [] {u @ v | u v. u \<in> words rules s \<and> v \<in> (\<Union>j \<le> Suc n. lang_pow (words rules s) j)} = (\<Union>j \<le> Suc (Suc n). lang_pow (words rules s) j)"
    (is "?l = ?r")
  proof
    show "?l \<subseteq> ?r"
    proof
      fix w assume "w \<in> ?l"
      then consider "w = []" | j u v where "j \<le> Suc n" "w = u @ v" "u \<in> words rules s" "v \<in> lang_pow (words rules s) j"
        by auto
      then show "w \<in> ?r"
      proof cases
        case 1
        then show ?thesis
          by (intro UN_I [of 0]) simp_all
      next
        case (2 j)
        then show ?thesis
          by (intro UN_I [of "Suc j"]) auto
      qed
    qed
    show "?r \<subseteq> ?l"
    proof
      fix w assume "w \<in> ?r"
      then obtain j where j: "j \<le> Suc (Suc n)" "w \<in> lang_pow (words rules s) j"
        by auto
      then show "w \<in> ?l"
        by (cases j) auto
    qed
  qed
  finally show ?case .
qed

text \<open>A rule that refers to itself is the star of its segment.\<close>

lemma star_rule_lang:
  assumes "wf_rules rules" "symbol_seg s" "r < length rules" "rules ! r = opt_rule (s @ [elt GRE_RULE_REF (int r)])"
  shows "rule_lang rules r = (\<Union>j. lang_pow (words rules s) j)"
proof
  have seg: "symbol_seg (s @ [elt GRE_RULE_REF (int r)])"
    using assms(2) symbol_seg_single by (intro symbol_seg_append) auto
  have eq: "rule_lang rules r = insert [] {u @ v | u v. u \<in> words rules s \<and> v \<in> rule_lang rules r}"
    by (rule trans [OF opt_rule_lang [OF assms(1) seg assms(3,4)]]) (simp only: words_ref [OF assms(2)])
  have "lang_pow (words rules s) j \<subseteq> rule_lang rules r" for j
    by (induction j) (use eq in auto)
  then show "(\<Union>j. lang_pow (words rules s) j) \<subseteq> rule_lang rules r"
    by blast
  let ?star = "\<Union>j. lang_pow (words rules s) j"
  have starI: "u @ v \<in> ?star" if u: "u \<in> words rules s" and v: "v \<in> ?star" for u v
  proof -
    obtain j where "v \<in> lang_pow (words rules s) j"
      using v by auto
    then show ?thesis
      using u by (intro UN_I [of "Suc j"]) auto
  qed
  let ?after = "[elt GRE_RULE_REF (int r), elt GRE_ALT 0, end_elem]"
  have stop: "class_stop ?after" "class_stop [end_elem]"
    by (simp_all add: class_stop_def)
  have els: "elems_from rules (r, i) = drop i s @ ?after" if "i \<le> length s" for i
    using assms(4) that by simp
  have at: "elem rules (r, i) = (if i < length s then s ! i else elt GRE_RULE_REF (int r))" if "i \<le> length s" for i
    using assms(4) that by (simp add: nth_append)
  have hd: "drop i s @ x = s ! i # drop (Suc i) s @ x" if "i < length s" for i x
    using that by (simp add: Cons_nth_drop_Suc)
  have step: "\<exists>u v. w = u @ v \<and> seg_word rules (drop i s) u \<and> v \<in> ?star" if "derives rules p w" "p = (r, i)" "i \<le> length s" for p w i
    using that
  proof (induction arbitrary: i rule: derives.induct)
    case (end_of_alternate p)
    then show ?case
      using at [of i] assms(2) by (auto simp: end_type_def symbol_seg_def split: if_splits)
  next
    case (char_class p c w)
    have i: "i < length s" "char_type (ge_type (s ! i))"
      using char_class at [of i] by (auto simp: char_type_def split: if_splits)
    let ?k = "class_size (drop i s @ ?after)"
    have k: "?k = class_size (drop i s @ [end_elem])" "?k \<le> length s - i" "accepts_elems (drop i s @ [end_elem]) c = accepts_elems (drop i s @ ?after) c"
      using class_of_prefix [OF stop, of "drop i s"] i(1) hd [OF i(1)] by (auto simp: class_size_def accepts_elems_def)
    have e: "hd (drop i s @ ?after) = elem rules p"
      using char_class.prems at [of i] i(1) hd [of i ?after] by simp
    have ac: "after_class rules p = (r, i + ?k)" "accepts_elems (drop i s @ ?after) c"
      using char_class.prems char_class.hyps(2) els [of i] e unfolding class_size_def accepts_elems_def
      by (auto simp: after_class_def class_accepts_def)
    have "i + ?k \<le> length s"
      using k(2) i(1) by linarith
    then obtain u v where uv: "w = u @ v" "seg_word rules (drop (i + ?k) s) u" "v \<in> ?star"
      using char_class.IH [OF ac(1)] by blast
    have "drop ?k (drop i s @ [end_elem]) = drop (i + ?k) s @ [end_elem]"
      using k(2) by (simp add: add.commute)
    then have "seg_word rules (drop i s) (c # u)"
      using uv(2) k ac(2) hd [OF i(1), of "[end_elem]"] elems_char [OF i(2), of rules "drop (Suc i) s @ [end_elem]" "c # u"]
      unfolding seg_word_def by auto
    then show ?case
      using uv by (intro exI [of _ "c # u"] exI [of _ v]) simp
  next
    case (rule_ref p q u v)
    show ?case
    proof (cases "i < length s")
      case True
      then have ref: "ge_type (s ! i) = GRE_RULE_REF" "target rules p = nat (ge_value (s ! i))"
        using rule_ref at [of i] by auto
      obtain u' v' where uv: "v = u' @ v'" "seg_word rules (drop (Suc i) s) u'" "v' \<in> ?star"
        using rule_ref.IH(2) [of "Suc i"] rule_ref.prems(1) True by (auto simp: next_pos_def)
      have "u \<in> rule_lang rules (nat (ge_value (s ! i)))"
        using rule_ref.hyps(2,3) ref(2) by (auto simp: rule_lang_def)
      then have "seg_word rules (drop i s) (u @ u')"
        using uv(2) hd [OF True, of "[end_elem]"] elems_ref [OF ref(1), of rules "drop (Suc i) s @ [end_elem]" "u @ u'"]
        unfolding seg_word_def by auto
      then show ?thesis
        using uv by (intro exI [of _ "u @ u'"] exI [of _ v']) simp
    next
      case False
      then have i: "i = length s" "target rules p = r"
        using rule_ref.prems at [of i] by auto
      have "end_type (etype rules (next_pos p))"
        using rule_ref.prems(1) i(1) assms(4) by (simp add: next_pos_def nth_append end_type_def)
      then have v: "v = []"
        using rule_ref.hyps(4) derives_end by blast
      consider "q = (r, 0)" | "q = (r, Suc (Suc (length s)))"
        using opt_alternates [OF seg assms(3,4)] rule_ref.hyps(2) i(2) by auto
      then have "u \<in> ?star"
      proof cases
        case 1
        then show ?thesis
          using rule_ref.IH(1) [of 0] starI by (auto simp: words_def)
      next
        case 2
        then have "end_type (etype rules q)"
          using assms(4) by (simp add: nth_append end_type_def)
        then have "u = []"
          using rule_ref.hyps(3) derives_end by blast
        then show ?thesis
          by (intro UN_I [of 0]) simp_all
      qed
      then show ?thesis
        using v i by (intro exI [of _ "[]"] exI [of _ u]) simp
    qed
  qed
  have "w \<in> ?star" if w: "w \<in> rule_lang rules r" for w
  proof (cases "w = []")
    case True
    then show ?thesis
      by (intro UN_I [of 0]) simp_all
  next
    case False
    obtain q where q: "q \<in> alternates rules r" "derives rules q w"
      using w by (auto simp: rule_lang_def)
    have "q \<noteq> (r, Suc (Suc (length s)))"
    proof
      assume "q = (r, Suc (Suc (length s)))"
      then have "end_type (etype rules q)"
        using assms(4) by (simp add: nth_append end_type_def)
      then show False
        using q(2) False derives_end by blast
    qed
    then have "q = (r, 0)"
      using q(1) opt_alternates [OF seg assms(3,4)] by auto
    then obtain x y where "w = x @ y" "seg_word rules s x" "y \<in> ?star"
      using step [OF q(2), of 0] by auto
    then show ?thesis
      using starI [of x y] by (simp add: words_def)
  qed
  then show "rule_lang rules r \<subseteq> ?star"
    by blast
qed

section \<open>The rules a repetition adds\<close>

abbreviation n_syms :: "llama_grammar_parser \<Rightarrow> nat" where
  "n_syms p \<equiv> length (symbol_ids p)"

lemma add_rule_nth:
  "length (parser_rules (add_rule (int i) r p)) = max (length (parser_rules p)) (Suc i)"
  "parser_rules (add_rule (int i) r p) ! i = r"
  "j \<noteq> i \<Longrightarrow> j < length (parser_rules p) \<Longrightarrow> parser_rules (add_rule (int i) r p) ! j = parser_rules p ! j"
  by (auto simp: add_rule_def Let_def nth_append)

lemma generate_fresh:
  assumes "parser_ok p" "is_name name" "n_syms p < 2 ^ 32" "generate_symbol_id name p = (i, p')"
  shows "i = int (n_syms p) \<and> n_syms p' = Suc (n_syms p) \<and> parser_rules p' = parser_rules p"
proof -
  note g = generate_symbols [OF assms(1,2,4)]
  have i: "i = int (n_syms p)"
    using g(1) assms(3) by simp
  have "ids p = set (map int [0..<n_syms p])"
    using assms(1,3) by (simp add: parser_ok_def symbols_ok_def flip: set_map)
  then have "i \<notin> ids p"
    using i by auto
  then have "base \<notin> fst ` set (symbol_ids p)" if "base = name @ ''_'' @ to_string (nat i)" for base
    using g(2,4) that by (force split: if_splits)
  then show ?thesis
    using g(2,3) i by simp
qed

abbreviation rep_refs :: "bool \<Rightarrow> bool \<Rightarrow> int \<Rightarrow> nat \<Rightarrow> nat \<Rightarrow> llama_grammar_rule" where
  "rep_refs no_max is_first l b i \<equiv> (if no_max then [elt GRE_RULE_REF (int (b + i))]
     else if i = 0 then (if is_first then [] else [elt GRE_RULE_REF l]) else [elt GRE_RULE_REF (int (b + i - 1))])"

lemma rep_step_fresh:
  assumes "parser_ok p" "is_name name" "n_syms p < 2 ^ 32" "rep_step name prev no_max is_first (l, p) = (l', p')"
  shows "l' = int (n_syms p) \<and> n_syms p' = Suc (n_syms p) \<and> n_syms p < length (parser_rules p') \<and>
    parser_rules p' ! n_syms p = opt_rule (prev @ rep_refs no_max is_first l (n_syms p) 0) \<and>
    length (parser_rules p) \<le> length (parser_rules p')"
proof -
  obtain p1 where g: "generate_symbol_id name p = (l', p1)"
    using assms(4) by (auto simp: rep_step_def Let_def split: prod.splits)
  note f = generate_fresh [OF assms(1-3) g]
  have "p' = add_rule l' (opt_rule (prev @ rep_refs no_max is_first l (n_syms p) 0)) p1"
    using assms(4) g f by (auto simp: rep_step_def Let_def)
  then show ?thesis
    using f add_rule_nth(1,2) [of "n_syms p" _ p1] by auto
qed

lemma rep_step_keeps:
  assumes "parser_ok p" "is_name name" "n_syms p < 2 ^ 32" "rep_step name prev no_max is_first (l, p) = (l', p')"
    and "j < n_syms p" "j < length (parser_rules p)"
  shows "parser_rules p' ! j = parser_rules p ! j"
proof -
  obtain p1 where g: "generate_symbol_id name p = (l', p1)"
    using assms(4) by (auto simp: rep_step_def Let_def split: prod.splits)
  note f = generate_fresh [OF assms(1-3) g]
  then show ?thesis
    using assms(4-6) g add_rule_nth(3) [of j "n_syms p" p1] by (auto simp: rep_step_def Let_def)
qed

lemma rep_loop_fresh:
  assumes "parser_ok p" "is_name name" "symbol_seg prev" "refs_in (ids p) prev" "is_first \<or> l \<in> ids p" "n_syms p + n \<le> 2 ^ 32"
    and "rep_loop n name prev no_max is_first (l, p) = (l', p')"
  shows "n_syms p' = n_syms p + n \<and> (n > 0 \<longrightarrow> l' = int (n_syms p + n - 1)) \<and> length (parser_rules p) \<le> length (parser_rules p') \<and>
    (\<forall>i < n. n_syms p + i < length (parser_rules p') \<and> parser_rules p' ! (n_syms p + i) = opt_rule (prev @ rep_refs no_max is_first l (n_syms p) i)) \<and>
    (\<forall>j < n_syms p. j < length (parser_rules p) \<longrightarrow> parser_rules p' ! j = parser_rules p ! j)"
  using assms(1,4-7)
proof (induction n arbitrary: p l is_first)
  case (Suc n)
  let ?b = "n_syms p"
  obtain l1 p1 where st: "rep_step name prev no_max is_first (l, p) = (l1, p1)"
    by fastforce
  note ok = rep_step_ok [OF Suc.prems(1) assms(2,3) Suc.prems(2,3) st]
  have b: "?b < 2 ^ 32"
    using Suc.prems(4) by simp
  note f = rep_step_fresh [OF Suc.prems(1) assms(2) b st]
  note keep = rep_step_keeps [OF Suc.prems(1) assms(2) b st]
  have "refs_in (ids p1) prev"
    by (rule refs_in_mono [OF Suc.prems(2) grows_ids]) (use ok in blast)
  then have IH: "n_syms p' = n_syms p1 + n" "n > 0 \<longrightarrow> l' = int (n_syms p1 + n - 1)" "length (parser_rules p1) \<le> length (parser_rules p')"
    "\<forall>i < n. n_syms p1 + i < length (parser_rules p') \<and> parser_rules p' ! (n_syms p1 + i) = opt_rule (prev @ rep_refs no_max False l1 (n_syms p1) i)"
    "\<forall>j < n_syms p1. j < length (parser_rules p1) \<longrightarrow> parser_rules p' ! j = parser_rules p1 ! j"
    using Suc.IH [of p1 False l1] ok grows_ok [of p p1] f Suc.prems(4,5) st by auto
  have rule: "?b + i < length (parser_rules p') \<and> parser_rules p' ! (?b + i) = opt_rule (prev @ rep_refs no_max is_first l ?b i)" if "i < Suc n" for i
  proof (cases i)
    case 0
    then show ?thesis
      using IH(3,5) f by auto
  next
    case (Suc i')
    then show ?thesis
      using IH(4) [rule_format, of i'] f that by auto
  qed
  have "l' = int (?b + Suc n - 1)"
    using IH(2) f st Suc.prems(5) by (cases n) auto
  moreover have "\<forall>j < ?b. j < length (parser_rules p) \<longrightarrow> parser_rules p' ! j = parser_rules p ! j"
    using IH(5) keep f by auto
  ultimately show ?case
    using IH(1,3) f rule by auto
qed simp

lemma handle_repetitions_result:
  assumes "handle_repetitions name m k sq = Inr sq'" "sq_last sq \<le> length (sq_rule sq)" "0 \<le> m"
  defines "prev \<equiv> drop (sq_last sq) (sq_rule sq)"
  shows "\<exists>l. rep_loop (nat (n_opt m k)) name prev (k = UINT64_MAX) True (0, sq_parser sq) = (l, sq_parser sq') \<and>
    sq_rule sq' = take (sq_last sq) (sq_rule sq) @ concat (replicate (nat m) prev) @ (if n_opt m k > 0 then [elt GRE_RULE_REF l] else []) \<and>
    sq_last sq' = sq_last sq"
proof -
  obtain l p1 where rl: "rep_loop (nat (n_opt m k)) name prev (k = UINT64_MAX) True (0, sq_parser sq) = (l, p1)"
    by fastforce
  have rule: "sq_rule sq = take (sq_last sq) (sq_rule sq) @ prev"
    by (simp add: prev_def)
  have rep: "prev @ concat (replicate (nat (m - 1)) prev) = concat (replicate (nat m) prev)" if "m \<noteq> 0"
  proof -
    have "nat m = Suc (nat (m - 1))"
      using that assms(3) by simp
    then show ?thesis
      by simp
  qed
  have sq': "sq_parser sq' = p1" "sq_last sq' = sq_last sq"
    "sq_rule sq' = (if n_opt m k > 0 then (if m = 0 then take (sq_last sq) (sq_rule sq) else sq_rule sq @ concat (replicate (nat (m - 1)) prev)) @ [elt GRE_RULE_REF l]
       else if m = 0 then take (sq_last sq) (sq_rule sq) else sq_rule sq @ concat (replicate (nat (m - 1)) prev))"
    using assms(1) rl unfolding prev_def by (auto simp: handle_repetitions_def Let_def ebind_eq_Inr split: prod.splits)
  have "sq_rule sq @ concat (replicate (nat (m - 1)) prev) = take (sq_last sq) (sq_rule sq) @ concat (replicate (nat m) prev)" if "m \<noteq> 0"
    using rep [OF that] rule by (metis append_assoc)
  then show ?thesis
    using rl sq' by (auto intro!: exI [of _ l])
qed

section \<open>The language of a repetition\<close>

definition rep_count :: "int \<Rightarrow> int \<Rightarrow> nat \<Rightarrow> bool" where
  "rep_count m k j \<longleftrightarrow> m \<le> int j \<and> (k = UINT64_MAX \<or> int j \<le> k)"

lemma repeated_words:
  assumes "symbol_seg s" "lang = (\<Union>j \<in> J. lang_pow (words rules s) j)"
  shows "{u @ v | u v. u \<in> words rules (concat (replicate m s)) \<and> v \<in> lang} = (\<Union>j \<in> J. lang_pow (words rules s) (m + j))"
  unfolding words_replicate [OF assms(1)] lang_pow_add assms(2) by blast

lemma repetition_words:
  assumes R: "wf_rules R" and s: "symbol_seg s" and b: "0 \<le> m" "m \<le> k"
    and rules: "\<forall>i < nat (n_opt m k). n + i < length R \<and> R ! (n + i) = opt_rule (s @ rep_refs (k = UINT64_MAX) True 0 n i)"
    and opt: "k < 2 ^ 64" "opt = (if n_opt m k > 0 then [elt GRE_RULE_REF (int (n + nat (n_opt m k) - 1))] else [])"
  shows "words R (concat (replicate (nat m) s) @ opt) = (\<Union>j \<in> {j. rep_count m k j}. lang_pow (words R s) j)"
proof -
  have rep: "symbol_seg (concat (replicate (nat m) s))"
    by (rule symbol_seg_concat [OF s])
  have union: "(\<Union>j \<in> J. lang_pow (words R s) (nat m + j)) = (\<Union>j \<in> {j. rep_count m k j}. lang_pow (words R s) j)"
    if J: "\<And>j. j \<in> J \<longleftrightarrow> rep_count m k (nat m + j)" for J
  proof -
    have "{j. rep_count m k j} = (\<lambda>j. nat m + j) ` J"
    proof (intro equalityI subsetI)
      fix j assume "j \<in> {j. rep_count m k j}"
      then have "rep_count m k (nat m + (j - nat m))" "j = nat m + (j - nat m)"
        using b(1) by (auto simp: rep_count_def)
      then show "j \<in> (\<lambda>j. nat m + j) ` J"
        using J by blast
    qed (use J in auto)
    then show ?thesis
      by auto
  qed
  show ?thesis
  proof (cases "k = UINT64_MAX")
    case True
    then have n: "n_opt m k = 1"
      by (simp add: n_opt_def)
    then have "rule_lang R n = (\<Union>j. lang_pow (words R s) j)"
      using star_rule_lang [OF R s, of n] rules True by simp
    then have "words R (concat (replicate (nat m) s) @ opt) = (\<Union>j. lang_pow (words R s) (nat m + j))"
      using words_ref [OF rep, of R n] repeated_words [OF s, where lang = "rule_lang R n" and J = UNIV and rules = R and m = "nat m"] n opt(2) by simp
    also have "\<dots> = (\<Union>j \<in> {j. rep_count m k j}. lang_pow (words R s) j)"
      using True b(1) by (intro union) (auto simp: rep_count_def)
    finally show ?thesis .
  next
    case False
    then have n: "n_opt m k = k - m"
      using b opt(1) by (simp add: n_opt_def)
    show ?thesis
    proof (cases "k = m")
      case True
      then show ?thesis
        using n opt(2) union [of "{0}"] False b words_replicate [OF s, of R "nat m"] by (auto simp: rep_count_def)
    next
      case neq: False
      define x where "x = nat (k - m) - 1"
      have x: "nat (k - m) = Suc x" "int (n + nat (n_opt m k) - 1) = int (n + x)" "n_opt m k > 0"
        using neq b n by (simp_all add: x_def)
      have o: "opt = [elt GRE_RULE_REF (int (n + x))]"
        using opt(2) x(2,3) by (simp only: if_True)
      have "rule_lang R (n + x) = (\<Union>j \<in> {..Suc x}. lang_pow (words R s) j)"
        using rules n x(1) False by (intro opt_chain_lang [OF R s]) auto
      then have "words R (concat (replicate (nat m) s) @ opt) = (\<Union>j \<in> {..Suc x}. lang_pow (words R s) (nat m + j))"
        unfolding o words_ref [OF rep] by (rule repeated_words [OF s])
      also have "\<dots> = (\<Union>j \<in> {j. rep_count m k j}. lang_pow (words R s) j)"
        using False b x(1) by (intro union) (auto simp: rep_count_def)
      finally show ?thesis .
    qed
  qed
qed

lemma repetition_ok:
  assumes h: "handle_repetitions name m k sq = Inr sq'" "seq_ok sq" "is_name name" and b: "0 \<le> m" "m \<le> k" "k < 2 ^ 64"
    and size: "n_syms (sq_parser sq) + nat (n_opt m k) \<le> 2 ^ 32"
    and R: "wf_rules R" "\<forall>i. n_syms (sq_parser sq) \<le> i \<and> i < n_syms (sq_parser sq') \<longrightarrow> i < length R \<and> R ! i = parser_rules (sq_parser sq') ! i"
  shows "take (sq_last sq) (sq_rule sq') = take (sq_last sq) (sq_rule sq) \<and>
    words R (drop (sq_last sq) (sq_rule sq')) = (\<Union>j \<in> {j. rep_count m k j}. lang_pow (words R (drop (sq_last sq) (sq_rule sq))) j)"
proof -
  let ?s = "drop (sq_last sq) (sq_rule sq)" and ?n = "n_syms (sq_parser sq)"
  have sq: "sq_last sq \<le> length (sq_rule sq)" "symbol_seg ?s" "refs_in (ids (sq_parser sq)) ?s" "parser_ok (sq_parser sq)"
    using h(2) refs_in_sub [OF _ set_drop_subset] by (auto simp: seq_ok_def)
  obtain l where l: "rep_loop (nat (n_opt m k)) name ?s (k = UINT64_MAX) True (0, sq_parser sq) = (l, sq_parser sq')"
    "sq_rule sq' = take (sq_last sq) (sq_rule sq) @ concat (replicate (nat m) ?s) @ (if n_opt m k > 0 then [elt GRE_RULE_REF l] else [])"
    using handle_repetitions_result [OF h(1) sq(1) b(1)] by blast
  note f = rep_loop_fresh [OF sq(4) h(3) sq(2,3) disjI1 size l(1), OF TrueI]
  have "\<forall>i < nat (n_opt m k). ?n + i < length R \<and> R ! (?n + i) = opt_rule (?s @ rep_refs (k = UINT64_MAX) True 0 ?n i)"
    using f R(2) by auto
  moreover have "(if n_opt m k > 0 then [elt GRE_RULE_REF l] else []) = (if n_opt m k > 0 then [elt GRE_RULE_REF (int (?n + nat (n_opt m k) - 1))] else [])"
    using f by auto
  ultimately have "words R (concat (replicate (nat m) ?s) @ (if n_opt m k > 0 then [elt GRE_RULE_REF l] else [])) =
      (\<Union>j \<in> {j. rep_count m k j}. lang_pow (words R ?s) j)"
    using repetition_words [OF R(1) sq(2) b(1,2) _ b(3)] by blast
  then show ?thesis
    using l(2) sq(1) by simp
qed

definition rep_before :: seq_state where
  "rep_before = \<lparr>sq_pos = [], sq_rule = [elt GRE_CHAR 97], sq_last = 0, sq_n_prev = 1,
     sq_parser = \<lparr>symbol_ids = [(''root'', 0)], parser_rules = []\<rparr>\<rparr>"

definition rep_after :: seq_state where
  "rep_after = \<lparr>sq_pos = [], sq_rule = [elt GRE_CHAR 97, elt GRE_CHAR 97, elt GRE_RULE_REF 1], sq_last = 0, sq_n_prev = 3,
     sq_parser = \<lparr>symbol_ids = [(''root'', 0), (''root_1'', 1)], parser_rules = [[], [elt GRE_CHAR 97, elt GRE_ALT 0, elt GRE_END 0]]\<rparr>\<rparr>"

definition rep_grammar :: llama_grammar_rules where
  "rep_grammar = [[elt GRE_CHAR 97, elt GRE_CHAR 97, elt GRE_RULE_REF 1, elt GRE_END 0], [elt GRE_CHAR 97, elt GRE_ALT 0, elt GRE_END 0]]"

lemma rep_before_ok: "seq_ok rep_before" "is_name ''root''"
  using symbol_seg_single [of "elt GRE_CHAR 97"]
  by (simp_all add: seq_ok_def rep_before_def parser_ok_def symbols_ok_def is_word_char_def)

text \<open>C16. The rewriting of repetitions is correct: after \<open>S{m,n}\<close>, \<open>S*\<close>, \<open>S+\<close> or \<open>S?\<close>, the elements that replace the
  last symbol \<open>S\<close> of the rule generate, in every well-formed grammar that contains the synthesised rules, exactly the
  concatenations of \<open>j\<close> words of \<open>S\<close> with \<open>m \<le> j\<close> and, if there is an upper bound, \<open>j \<le> n\<close>; the elements before stay.\<close>

theorem repetition_language:
  assumes "handle_repetitions name m k sq = Inr sq'" "seq_ok sq" "\<forall>c \<in> set name. is_word_char c" "0 \<le> m" "m \<le> k" "k < 2 ^ 64"
    and "length (symbol_ids (sq_parser sq)) + nat (n_opt m k) \<le> 2 ^ 32"
    and "wf_rules R" "\<forall>i. length (symbol_ids (sq_parser sq)) \<le> i \<and> i < length (symbol_ids (sq_parser sq')) \<longrightarrow>
           i < length R \<and> R ! i = parser_rules (sq_parser sq') ! i"
  shows "take (sq_last sq) (sq_rule sq') = take (sq_last sq) (sq_rule sq) \<and>
    (\<forall>w. seg_word R (drop (sq_last sq) (sq_rule sq')) w \<longleftrightarrow>
      (\<exists>j. m \<le> int j \<and> (k = UINT64_MAX \<or> int j \<le> k) \<and> w \<in> lang_pow {u. seg_word R (drop (sq_last sq) (sq_rule sq)) u} j))"
proof -
  note ok = repetition_ok [OF assms]
  have "seg_word R (drop (sq_last sq) (sq_rule sq')) w \<longleftrightarrow>
      (\<exists>j. rep_count m k j \<and> w \<in> lang_pow (words R (drop (sq_last sq) (sq_rule sq))) j)" for w
    using ok unfolding words_def by blast
  then show ?thesis
    using ok by (simp add: rep_count_def words_def)
qed

theorem repetition_language_witness:
  "handle_repetitions ''root'' 2 3 rep_before = Inr rep_after \<and>
    (\<forall>w. seg_word rep_grammar (drop 0 (sq_rule rep_after)) w \<longleftrightarrow>
      (\<exists>j. 2 \<le> int j \<and> (3 = UINT64_MAX \<or> int j \<le> 3) \<and> w \<in> lang_pow {u. seg_word rep_grammar (drop 0 (sq_rule rep_before)) u} j))"
proof -
  have 1: "handle_repetitions ''root'' 2 3 rep_before = Inr rep_after"
    by code_simp
  have 2: "length (symbol_ids (sq_parser rep_before)) + nat (n_opt 2 3) \<le> 2 ^ 32"
    by (simp add: rep_before_def n_opt_def UINT64_MAX_def)
  have 3: "wf_rules rep_grammar"
    by (simp add: wf_rules_def rep_grammar_def refs_ok_def)
  have 4: "\<forall>i. length (symbol_ids (sq_parser rep_before)) \<le> i \<and> i < length (symbol_ids (sq_parser rep_after)) \<longrightarrow>
      i < length rep_grammar \<and> rep_grammar ! i = parser_rules (sq_parser rep_after) ! i"
    by (auto simp: rep_before_def rep_after_def rep_grammar_def less_Suc_eq)
  show ?thesis
    using repetition_language [OF 1 rep_before_ok _ _ _ 2 3 4] 1 by (simp add: rep_before_def)
qed

lemma rep_loop_add:
  "rep_loop (Suc n + r) name prev no_max is_first x = rep_loop r name prev no_max False (rep_loop (Suc n) name prev no_max is_first x)"
proof (induction n arbitrary: is_first x)
  case (Suc n)
  show ?case
    using Suc.IH [of False] by simp
qed simp

lemma rep_step_length: "length (parser_rules (snd x)) \<le> length (parser_rules (snd (rep_step name prev no_max is_first x)))"
  by (cases x) (auto simp: rep_step_def generate_symbol_id_def add_rule_def Let_def)

lemma rep_loop_length: "length (parser_rules (snd x)) \<le> length (parser_rules (snd (rep_loop n name prev no_max is_first x)))"
proof (induction n arbitrary: x is_first)
  case (Suc n)
  show ?case
    unfolding rep_loop.simps by (rule order_trans [OF rep_step_length Suc.IH])
qed simp



definition redefined_text :: string where
  "redefined_text = ''a ::= root'' @ [CHR 0x0A] @ ''a ::= .''"

text \<open>A start symbol that only occurs in a rule that is defined again later passes all checks, although it has no
  rule: its id is out of range, and the initialisation reads behind the vector of rules.\<close>

theorem start_symbol_without_rule:
  "\<exists>p. parse None redefined_text = Inr p \<and> map_of (symbol_ids p) ''root'' = Some 1 \<and> length (parser_rules p) = 1 \<and>
    llama_grammar_init_str None redefined_text ''root'' False [] [] = None"
proof -
  have 1: "case parse None redefined_text of Inr p \<Rightarrow> map_of (symbol_ids p) ''root'' = Some 1 \<and> length (parser_rules p) = 1 | Inl _ \<Rightarrow> False"
    by code_simp
  have 2: "case llama_grammar_init_str None redefined_text ''root'' False [] [] of None \<Rightarrow> True | Some _ \<Rightarrow> False"
    by code_simp
  show ?thesis
    using 1 2 by (auto split: sum.splits option.splits)
qed

end
