(* ===== verification/State_IO.thy ===== *)
theory State_IO
  imports Prelude
begin

text \<open>
  Reading and writing of session state (\<open>src/src/llama-io.h\<close>, \<open>llama-io.cpp\<close> and the buffer classes of
  \<open>llama-context.cpp\<close>). A stream is a list of bytes. Objects are written as the bytes of their memory
  representation on a little-endian host. Reading beyond the end throws, which is \<open>None\<close>.

  The locale \<open>codec\<close> is the contract between a writer and the reader of the same object; the state of the cache
  is written and read through its instances.
\<close>

type_synonym bytes = "nat list"

section \<open>The contract\<close>

locale codec =
  fixes enc :: "'a \<Rightarrow> bytes"
    and dec :: "bytes \<Rightarrow> ('a \<times> bytes) option"
    and valid :: "'a \<Rightarrow> bool"
  assumes dec_enc: "valid x \<Longrightarrow> dec (enc x @ rest) = Some (x, rest)"
begin

lemma enc_inj: "valid x \<Longrightarrow> valid y \<Longrightarrow> enc x = enc y \<Longrightarrow> x = y"
  using dec_enc [of x "[]"] dec_enc [of y "[]"] by simp

text \<open>A loop that reads as many objects as were written gets them back.\<close>

lemma dec_all:
  assumes "\<And>x. x \<in> set xs \<Longrightarrow> valid x"
  shows "mfold (\<lambda>_ (ys, bs). do { (y, bs') \<leftarrow> dec bs; Some (ys @ [y], bs') }) [0..<length xs] (acc, concat (map enc xs) @ rest) =
    Some (acc @ xs, rest)"
proof -
  have "mfold (\<lambda>_ (ys, bs). do { (y, bs') \<leftarrow> dec bs; Some (ys @ [y], bs') }) is (acc, concat (map enc xs) @ rest) =
      Some (acc @ xs, rest)" if "length is = length xs" for "is" :: "nat list"
    using that assms
  proof (induction "is" xs arbitrary: acc rule: list_induct2)
    case (Cons i "is" x xs)
    then show ?case
      using dec_enc [of x] by simp
  qed simp
  then show ?thesis by simp
qed

end

section \<open>Integers\<close>

fun le_bytes :: "nat \<Rightarrow> nat \<Rightarrow> bytes" where
  "le_bytes 0 x = []"
| "le_bytes (Suc k) x = x mod 256 # le_bytes k (x div 256)"

fun le_val :: "bytes \<Rightarrow> nat" where
  "le_val [] = 0"
| "le_val (b # bs) = b + 256 * le_val bs"

definition io_read :: "nat \<Rightarrow> bytes \<Rightarrow> (bytes \<times> bytes) option" where
  "io_read n bs = do { require (n \<le> length bs); Some (take n bs, drop n bs) }"

definition enc_uint :: "nat \<Rightarrow> nat \<Rightarrow> bytes" where
  "enc_uint k x = le_bytes k x"

definition dec_uint :: "nat \<Rightarrow> bytes \<Rightarrow> (nat \<times> bytes) option" where
  "dec_uint k bs = do { (b, r) \<leftarrow> io_read k bs; Some (le_val b, r) }"

definition enc_i32 :: "int \<Rightarrow> bytes" where
  "enc_i32 x = le_bytes 4 (nat (x mod 2 ^ 32))"

definition dec_i32 :: "bytes \<Rightarrow> (int \<times> bytes) option" where
  "dec_i32 bs = do {
     (v, r) \<leftarrow> dec_uint 4 bs;
     Some (if int v < 2 ^ 31 then int v else int v - 2 ^ 32, r) }"

lemma length_le_bytes [simp]: "length (le_bytes k x) = k"
  by (induction k arbitrary: x) auto

lemma le_val_bytes: "x < 256 ^ k \<Longrightarrow> le_val (le_bytes k x) = x"
proof (induction k arbitrary: x)
  case (Suc k)
  have "x div 256 < 256 ^ k"
    using Suc.prems by (simp add: less_mult_imp_div_less mult.commute)
  then show ?case
    using Suc.IH by simp
qed simp

lemma io_read_append: "length bs = n \<Longrightarrow> io_read n (bs @ rest) = Some (bs, rest)"
  by (simp add: io_read_def)

interpretation uint: codec "enc_uint k" "dec_uint k" "\<lambda>x. x < 256 ^ k" for k
  by unfold_locales (simp add: enc_uint_def dec_uint_def io_read_append le_val_bytes)

interpretation int32: codec enc_i32 dec_i32 in_i32
proof
  fix x rest assume x: "in_i32 x"
  have v: "le_val (le_bytes 4 (nat (x mod 2 ^ 32))) = nat (x mod 2 ^ 32)"
    by (rule le_val_bytes) (simp add: nat_less_iff)
  have m: "x mod 2 ^ 32 = (if 0 \<le> x then x else x + 2 ^ 32)"
  proof (cases "0 \<le> x")
    case True
    then show ?thesis
      using x by (simp add: in_i32_def INT32_MAX_def)
  next
    case False
    have "(x + 2 ^ 32) mod 2 ^ 32 = x + 2 ^ 32"
      using x False by (intro mod_pos_pos_trivial) (simp_all add: in_i32_def INT32_MIN_def)
    then show ?thesis
      using False by simp
  qed
  show "dec_i32 (enc_i32 x @ rest) = Some (x, rest)"
    using x v unfolding enc_i32_def dec_i32_def dec_uint_def m
    by (auto simp: io_read_append in_i32_def INT32_MIN_def INT32_MAX_def nat_less_iff)
qed

section \<open>Strings\<close>

definition write_string :: "bytes \<Rightarrow> bytes" where
  "write_string s = (let n = length s mod 2 ^ 32 in enc_uint 4 n @ take n s)"

definition read_string :: "bytes \<Rightarrow> (bytes \<times> bytes) option" where
  "read_string bs = do {
     (n, bs1) \<leftarrow> dec_uint 4 bs;
     io_read n bs1 }"

interpretation strings: codec write_string read_string "\<lambda>s. length s < 256 ^ 4"
  by unfold_locales (simp add: write_string_def read_string_def uint.dec_enc io_read_append Let_def)

text \<open>A string written to the state is read back unchanged, whatever follows it, for every string whose
  length fits the 32-bit length field.\<close>

theorem string_roundtrip:
  assumes "length s < 256 ^ 4"
  shows "read_string (write_string s @ rest) = Some (s, rest)"
  using strings.dec_enc [OF assms] .

theorem string_roundtrip_witness: "read_string (write_string [104, 105] @ [7]) = Some ([104, 105], [7])"
  by (rule string_roundtrip) simp

end
