(* ===== verification/KV_State.thy ===== *)
theory KV_State
  imports KV_Apply State_IO
begin

text \<open>
  Saving and restoring the cache (\<open>state_write\<close>, \<open>state_read\<close> and their parts in \<open>src/src/llama-kv-cache.cpp\<close>).
  Tensors are byte lists with the type, row size and element size that \<open>ggml\<close> reports for them; a layer has a K
  tensor and possibly a V tensor per stream. \<open>state_read\<close> gives \<open>False\<close> where the source throws because the state
  does not fit the cache, after its clean-up; reading past the end of the stream is \<open>None\<close>.
\<close>

section \<open>Tensors\<close>

record tensor =
  tn_type :: int
  tn_row :: nat
  tn_el :: nat
  tn_data :: bytes

record kv_layer =
  ly_n_embd_v :: nat
  ly_k :: "tensor list"
  ly_v :: "tensor option list"

definition tensor_get :: "tensor \<Rightarrow> nat \<Rightarrow> nat \<Rightarrow> bytes option" where
  "tensor_get t off n = do { require (off + n \<le> length (tn_data t)); Some (take n (drop off (tn_data t))) }"

definition tensor_set :: "nat \<Rightarrow> bytes \<Rightarrow> tensor \<Rightarrow> tensor option" where
  "tensor_set off bs t = do {
     require (off + length bs \<le> length (tn_data t));
     Some (t\<lparr>tn_data := take off (tn_data t) @ bs @ drop (off + length bs) (tn_data t)\<rparr>) }"

section \<open>Writing\<close>

text \<open>The ranges of selected cells. The state of the loop is the cell count, the begin of the open range (the
  number of cells if there is none) and the closed ranges.\<close>

definition range_step :: "nat \<Rightarrow> bool \<Rightarrow> nat \<Rightarrow> nat \<times> nat \<times> (nat \<times> nat) list \<Rightarrow> nat \<times> nat \<times> (nat \<times> nat) list" where
  "range_step n sel i = (\<lambda>(cell_count, begin', ranges).
     if sel then (cell_count + 1, if begin' = n then i else begin', ranges)
     else (cell_count, n, if begin' \<noteq> n then ranges @ [(begin', i)] else ranges))"

definition cell_selected :: "llama_kv_cells \<Rightarrow> int \<Rightarrow> nat \<Rightarrow> bool option" where
  "cell_selected c seq i = do {
     e \<leftarrow> cells_is_empty i c;
     if e then Some False
     else if seq = - 1 then Some True
     else do { require (seq \<ge> 0); cells_seq_has i (nat seq) c } }"

definition cell_ranges :: "llama_kv_cells \<Rightarrow> int \<Rightarrow> (nat \<times> (nat \<times> nat) list) option" where
  "cell_ranges c seq = do {
     let n = cells_size c;
     (cell_count, begin', ranges) \<leftarrow> mfold (\<lambda>i st. do { sel \<leftarrow> cell_selected c seq i; Some (range_step n sel i st) }) [0..<n] (0, n, []);
     let ranges' = (if begin' \<noteq> n then ranges @ [(begin', n)] else ranges);
     require (cell_count = sum_list (map (\<lambda>(a, b). b - a) ranges'));
     Some (cell_count, ranges') }"

definition cell_seq_ids :: "kv_cache \<Rightarrow> llama_kv_cells \<Rightarrow> int \<Rightarrow> nat \<Rightarrow> nat list option" where
  "cell_seq_ids kv c seq i = mfold (\<lambda>cur ids.
     if int cur = seq \<or> seq = - 1 then do { h \<leftarrow> cells_seq_has i cur c; Some (if h then ids @ [cur] else ids) }
     else Some ids) [0..<kv_n_seq_max kv] []"

definition write_cell :: "kv_cache \<Rightarrow> llama_kv_cells \<Rightarrow> int \<Rightarrow> nat \<Rightarrow> bytes option" where
  "write_cell kv c seq i = do {
     ids \<leftarrow> cell_seq_ids kv c seq i;
     pos \<leftarrow> cells_pos_get i c;
     ext \<leftarrow> (if kv_n_pos_per_embd kv > 1 then do { e \<leftarrow> cells_ext_get i c; Some (enc_i32 (ext_x e) @ enc_i32 (ext_y e)) } else Some []);
     Some (enc_i32 pos @ enc_uint 4 (length ids) @ ext @ concat (map (\<lambda>q. enc_i32 (int q)) ids)) }"

definition range_cells :: "(nat \<times> nat) list \<Rightarrow> nat list" where
  "range_cells ranges = concat (map (\<lambda>(a, b). [a..<b]) ranges)"

definition write_all :: "('a \<Rightarrow> bytes option) \<Rightarrow> 'a list \<Rightarrow> bytes option" where
  "write_all f xs = mfold (\<lambda>x out. do { b \<leftarrow> f x; Some (out @ b) }) xs []"

definition state_write_meta :: "kv_cache \<Rightarrow> nat \<Rightarrow> (nat \<times> nat) list \<Rightarrow> int \<Rightarrow> bytes option" where
  "state_write_meta kv strm ranges seq = do {
     require (strm < length (kv_cells kv));
     write_all (write_cell kv (kv_cells kv ! strm) seq) (range_cells ranges) }"

definition write_rows :: "nat \<Rightarrow> (nat \<times> nat) list \<Rightarrow> nat \<Rightarrow> tensor \<Rightarrow> bytes option" where
  "write_rows off ranges n t = write_all (\<lambda>(a, b). tensor_get t ((a + off) * n) ((b - a) * n)) ranges"

definition write_k :: "nat \<Rightarrow> (nat \<times> nat) list \<Rightarrow> kv_layer \<Rightarrow> bytes option" where
  "write_k strm ranges ly = do {
     require (strm < length (ly_k ly));
     let k = ly_k ly ! strm;
     rows \<leftarrow> write_rows 0 ranges (tn_row k) k;
     Some (enc_i32 (tn_type k) @ enc_uint 8 (tn_row k) @ rows) }"

definition write_v :: "bool \<Rightarrow> nat \<Rightarrow> nat \<Rightarrow> (nat \<times> nat) list \<Rightarrow> kv_layer \<Rightarrow> bytes option" where
  "write_v v_trans kv_size strm ranges ly = do {
     require (strm < length (ly_v ly));
     case ly_v ly ! strm of
       None \<Rightarrow> Some []
     | Some v \<Rightarrow>
         if \<not> v_trans then do {
           rows \<leftarrow> write_rows 0 ranges (tn_row v) v;
           Some (enc_i32 (tn_type v) @ enc_uint 8 (tn_row v) @ rows) }
         else do {
           rows \<leftarrow> write_all (\<lambda>j. write_rows (j * kv_size) ranges (tn_el v) v) [0..<ly_n_embd_v ly];
           Some (enc_i32 (tn_type v) @ enc_uint 4 (tn_el v) @ enc_uint 4 (ly_n_embd_v ly) @ rows) } }"

definition state_write_data :: "kv_cache \<Rightarrow> kv_layer list \<Rightarrow> nat \<Rightarrow> (nat \<times> nat) list \<Rightarrow> bytes option" where
  "state_write_data kv lys strm ranges = do {
     if pg_enabled (kv_pool kv) then Some []
     else do {
       require (strm < length (kv_cells kv));
       ks \<leftarrow> write_all (write_k strm ranges) lys;
       vs \<leftarrow> write_all (write_v (kv_v_trans kv) (cells_size (kv_cells kv ! strm)) strm ranges) lys;
       Some (enc_uint 4 (if kv_v_trans kv then 1 else 0) @ enc_uint 4 (length lys) @ ks @ vs) } }"

definition write_stream :: "kv_cache \<Rightarrow> kv_layer list \<Rightarrow> int \<Rightarrow> nat \<Rightarrow> bytes option" where
  "write_stream kv lys seq s = do {
     require (s < length (kv_cells kv));
     (cell_count, ranges) \<leftarrow> cell_ranges (kv_cells kv ! s) seq;
     if cell_count = 0 then Some (enc_uint 4 cell_count)
     else do {
       meta \<leftarrow> state_write_meta kv s ranges seq;
       dat \<leftarrow> state_write_data kv lys s ranges;
       Some (enc_uint 4 cell_count @ meta @ dat) } }"

definition state_write :: "kv_cache \<Rightarrow> kv_layer list \<Rightarrow> int \<Rightarrow> bytes option" where
  "state_write kv lys seq = do {
     if pg_enabled (kv_pool kv) then Some []
     else do {
       body \<leftarrow> write_all (write_stream kv lys seq) [0..<kv_n_stream kv];
       Some (enc_uint 4 (kv_n_stream kv) @ body) } }"

section \<open>Reading the cells\<close>

text \<open>A single sequence is read into a ubatch, which is then placed like any other. \<open>False\<close> is the early
  return.\<close>

fun read_tokens ::
  "nat \<Rightarrow> int \<Rightarrow> nat list \<Rightarrow> unit llama_ubatch \<Rightarrow> bytes \<Rightarrow> (bool \<times> unit llama_ubatch \<times> bytes) option" where
  "read_tokens n_pos dest [] ub bs = Some (True, ub, bs)"
| "read_tokens n_pos dest (i # is) ub bs = do {
     (pos, bs1) \<leftarrow> dec_i32 bs;
     (n, bs2) \<leftarrow> dec_uint 4 bs1;
     if n \<noteq> 1 then Some (False, ub, bs2)
     else do {
       (ub1, bs3) \<leftarrow> (if n_pos > 1 then do {
            (x, r1) \<leftarrow> dec_i32 bs2;
            (y, r2) \<leftarrow> dec_i32 r1;
            require (i + ub_n_tokens ub * 2 < length (ub_pos ub));
            Some (ub\<lparr>ub_pos := (ub_pos ub)[i + ub_n_tokens ub := y, i + ub_n_tokens ub * 2 := x]\<rparr>, r2) }
          else Some (ub, bs2));
       (_, bs4) \<leftarrow> dec_i32 bs3;
       require (i < length (ub_pos ub1) \<and> i < length (ub_n_seq_id ub1) \<and> i < length (ub_seq_id ub1));
       read_tokens n_pos dest is (ub1\<lparr>ub_pos := (ub_pos ub1)[i := pos], ub_n_seq_id := (ub_n_seq_id ub1)[i := n],
         ub_seq_id := (ub_seq_id ub1)[i := [dest]]\<rparr>) bs4 } }"

definition check_placed :: "kv_cache \<Rightarrow> nat \<Rightarrow> int \<Rightarrow> unit llama_ubatch \<Rightarrow> slot_info \<Rightarrow> nat \<Rightarrow> unit option" where
  "check_placed kv strm dest ub si cell_count = do {
     require (si_n_stream si = 1 \<and> si_idxs si \<noteq> [] \<and> length (si_idxs si ! 0) = cell_count);
     mfold (\<lambda>i _. do {
       p \<leftarrow> cells_pos_get (si_idxs si ! 0 ! i) (kv_cells kv ! strm);
       h \<leftarrow> cells_seq_has (si_idxs si ! 0 ! i) (nat dest) (kv_cells kv ! strm);
       require (p = ub_pos ub ! i \<and> h) }) [0..<cell_count] () }"

definition read_meta_seq :: "nat \<Rightarrow> nat \<Rightarrow> int \<Rightarrow> kv_cache \<Rightarrow> bytes \<Rightarrow> (slot_info option \<times> kv_cache \<times> bytes) option" where
  "read_meta_seq strm cell_count dest kv bs = do {
     (_, kv1) \<leftarrow> kv_seq_rm dest (- 1) (- 1) kv;
     (ub0, _) \<leftarrow> ubatch_reserve cell_count 1 (allocr_new (kv_n_pos_per_embd kv));
     (ok, ub, bs') \<leftarrow> read_tokens (kv_n_pos_per_embd kv) dest [0..<cell_count] (ub0\<lparr>ub_seq_id_unq := [nat dest]\<rparr>) bs;
     if \<not> ok then Some (None, kv1, bs')
     else do {
       si \<leftarrow> find_slot kv1 ub False;
       if si_empty si then Some (None, kv1, bs')
       else do {
         kv2 \<leftarrow> apply_ubatch si ub kv1;
         check_placed kv2 strm dest ub si cell_count;
         Some (Some si, kv2, bs') } } }"

text \<open>The whole cache: the cells are filled from the start. The two loops below return early with \<open>False\<close> on a
  sequence id out of range.\<close>

fun read_seq_ids :: "nat \<Rightarrow> nat \<Rightarrow> nat \<Rightarrow> llama_kv_cells \<Rightarrow> bytes \<Rightarrow> (bool \<times> llama_kv_cells \<times> bytes) option" where
  "read_seq_ids n_seq_max i 0 c bs = Some (True, c, bs)"
| "read_seq_ids n_seq_max i (Suc n) c bs = do {
     (q, bs1) \<leftarrow> dec_i32 bs;
     if q < 0 \<or> q \<ge> int n_seq_max then Some (False, c, bs1)
     else do {
       c1 \<leftarrow> cells_seq_add i (nat q) c;
       read_seq_ids n_seq_max i n c1 bs1 } }"

fun read_cells :: "nat \<Rightarrow> nat \<Rightarrow> nat list \<Rightarrow> llama_kv_cells \<Rightarrow> bytes \<Rightarrow> (bool \<times> llama_kv_cells \<times> bytes) option" where
  "read_cells n_pos n_seq_max [] c bs = Some (True, c, bs)"
| "read_cells n_pos n_seq_max (i # is) c bs = do {
     (pos, bs1) \<leftarrow> dec_i32 bs;
     (n, bs2) \<leftarrow> dec_uint 4 bs1;
     c1 \<leftarrow> cells_pos_set i pos c;
     (c2, bs3) \<leftarrow> (if n_pos > 1 then do {
          (x, r1) \<leftarrow> dec_i32 bs2;
          (y, r2) \<leftarrow> dec_i32 r1;
          e \<leftarrow> cells_ext_set i \<lparr>ext_x = x, ext_y = y\<rparr> c1;
          Some (e, r2) }
        else Some (c1, bs2));
     (ok, c3, bs4) \<leftarrow> read_seq_ids n_seq_max i n c2 bs3;
     if \<not> ok then Some (False, c3, bs4) else read_cells n_pos n_seq_max is c3 bs4 }"

text \<open>\<open>clear(true)\<close> also clears the buffers.\<close>

definition zero_tensor :: "tensor \<Rightarrow> tensor" where
  "zero_tensor t = t\<lparr>tn_data := map (\<lambda>_. 0) (tn_data t)\<rparr>"

definition clear_layer :: "kv_layer \<Rightarrow> kv_layer" where
  "clear_layer ly = ly\<lparr>ly_k := map zero_tensor (ly_k ly), ly_v := map (map_option zero_tensor) (ly_v ly)\<rparr>"

definition clear_all :: "kv_cache \<times> kv_layer list \<Rightarrow> kv_cache \<times> kv_layer list" where
  "clear_all = (\<lambda>(kv, lys). (kv_clear True kv, map clear_layer lys))"

definition read_meta_all ::
  "nat \<Rightarrow> nat \<Rightarrow> kv_cache \<times> kv_layer list \<Rightarrow> bytes \<Rightarrow> (slot_info option \<times> (kv_cache \<times> kv_layer list) \<times> bytes) option" where
  "read_meta_all strm cell_count st bs = do {
     require (strm < length (kv_cells (fst st)) \<and> strm < length (kv_heads (fst st)));
     if cell_count > cells_size (kv_cells (fst st) ! strm) then Some (None, st, bs)
     else do {
       let (kv1, lys1) = clear_all st;
       (ok, c, bs') \<leftarrow> read_cells (kv_n_pos_per_embd kv1) (kv_n_seq_max kv1) [0..<cell_count] (kv_cells kv1 ! strm) bs;
       let kv2 = kv1\<lparr>kv_cells := (kv_cells kv1)[strm := c]\<rparr>;
       if \<not> ok then Some (None, (kv2, lys1), bs')
       else Some (Some \<lparr>si_s0 = strm, si_s1 = strm, si_strm = [strm], si_idxs = [[0..<cell_count]]\<rparr>,
                  (kv2\<lparr>kv_heads := (kv_heads kv2)[strm := 0]\<rparr>, lys1), bs') } }"

definition state_read_meta ::
  "nat \<Rightarrow> nat \<Rightarrow> int \<Rightarrow> kv_cache \<times> kv_layer list \<Rightarrow> bytes \<Rightarrow> (slot_info option \<times> (kv_cache \<times> kv_layer list) \<times> bytes) option" where
  "state_read_meta strm cell_count dest st bs =
     (if dest \<noteq> - 1 then do {
        (si, kv', bs') \<leftarrow> read_meta_seq strm cell_count dest (fst st) bs;
        Some (si, (kv', snd st), bs') }
      else read_meta_all strm cell_count st bs)"

section \<open>Reading the data\<close>

text \<open>\<open>n\<close> bytes per cell, for the cells of the slot: at once if they are contiguous, else one by one. \<open>off\<close> is the
  number of cells to skip in the tensor.\<close>

definition scatter :: "slot_info \<Rightarrow> nat \<Rightarrow> nat \<Rightarrow> nat \<Rightarrow> tensor \<Rightarrow> bytes \<Rightarrow> (tensor \<times> bytes) option" where
  "scatter si cell_count off n t bs = do {
     if cell_count = 0 then Some (t, bs)
     else do {
       (src, bs') \<leftarrow> io_read (cell_count * n) bs;
       if si_is_contiguous si then do {
         h \<leftarrow> si_head si;
         t' \<leftarrow> tensor_set ((h + off) * n) src t;
         Some (t', bs') }
       else do {
         require (si_idxs si \<noteq> [] \<and> cell_count \<le> length (si_idxs si ! 0));
         t' \<leftarrow> mfold (\<lambda>i. tensor_set ((si_idxs si ! 0 ! i + off) * n) (take n (drop (i * n) src))) [0..<cell_count] t;
         Some (t', bs') } } }"

definition read_k :: "nat \<Rightarrow> nat \<Rightarrow> slot_info \<Rightarrow> kv_layer \<Rightarrow> bytes \<Rightarrow> (bool \<times> kv_layer \<times> bytes) option" where
  "read_k strm cell_count si ly bs = do {
     require (strm < length (ly_k ly));
     let k = ly_k ly ! strm;
     (ty, bs1) \<leftarrow> dec_i32 bs;
     if tn_type k \<noteq> ty then Some (False, ly, bs1)
     else do {
       (row, bs2) \<leftarrow> dec_uint 8 bs1;
       if tn_row k \<noteq> row then Some (False, ly, bs2)
       else do {
         (k', bs3) \<leftarrow> scatter si cell_count 0 (tn_row k) k bs2;
         Some (True, ly\<lparr>ly_k := (ly_k ly)[strm := k']\<rparr>, bs3) } } }"

definition read_v :: "bool \<Rightarrow> nat \<Rightarrow> nat \<Rightarrow> nat \<Rightarrow> slot_info \<Rightarrow> kv_layer \<Rightarrow> bytes \<Rightarrow> (bool \<times> kv_layer \<times> bytes) option" where
  "read_v v_trans kv_size strm cell_count si ly bs = do {
     require (strm < length (ly_v ly));
     case ly_v ly ! strm of
       None \<Rightarrow> Some (True, ly, bs)
     | Some v \<Rightarrow> do {
         (ty, bs1) \<leftarrow> dec_i32 bs;
         if tn_type v \<noteq> ty then Some (False, ly, bs1)
         else if \<not> v_trans then do {
           (row, bs2) \<leftarrow> dec_uint 8 bs1;
           if tn_row v \<noteq> row then Some (False, ly, bs2)
           else do {
             (v', bs3) \<leftarrow> scatter si cell_count 0 (tn_row v) v bs2;
             Some (True, ly\<lparr>ly_v := (ly_v ly)[strm := Some v']\<rparr>, bs3) } }
         else do {
           (el, bs2) \<leftarrow> dec_uint 4 bs1;
           if tn_el v \<noteq> el then Some (False, ly, bs2)
           else do {
             (ne, bs3) \<leftarrow> dec_uint 4 bs2;
             if ly_n_embd_v ly \<noteq> ne then Some (False, ly, bs3)
             else do {
               (v', bs4) \<leftarrow> mfold (\<lambda>j (t, b). scatter si cell_count (j * kv_size) (tn_el v) t b) [0..<ly_n_embd_v ly] (v, bs3);
               Some (True, ly\<lparr>ly_v := (ly_v ly)[strm := Some v']\<rparr>, bs4) } } } } }"

fun read_layers :: "('l \<Rightarrow> bytes \<Rightarrow> (bool \<times> 'l \<times> bytes) option) \<Rightarrow> 'l list \<Rightarrow> bytes \<Rightarrow>
    (bool \<times> 'l list \<times> bytes) option" where
  "read_layers f [] bs = Some (True, [], bs)"
| "read_layers f (ly # lys) bs = do {
     (ok, ly', bs1) \<leftarrow> f ly bs;
     if \<not> ok then Some (False, ly' # lys, bs1)
     else do {
       (ok', lys', bs2) \<leftarrow> read_layers f lys bs1;
       Some (ok', ly' # lys', bs2) } }"

definition state_read_data ::
  "nat \<Rightarrow> nat \<Rightarrow> slot_info \<Rightarrow> kv_cache \<times> kv_layer list \<Rightarrow> bytes \<Rightarrow> (bool \<times> (kv_cache \<times> kv_layer list) \<times> bytes) option" where
  "state_read_data strm cell_count si = (\<lambda>(kv, lys) bs. do {
     if pg_enabled (kv_pool kv) then Some (False, (kv, lys), bs)
     else do {
       require (strm < length (kv_cells kv));
       (tr, bs1) \<leftarrow> dec_uint 4 bs;
       (nl, bs2) \<leftarrow> dec_uint 4 bs1;
       if nl \<noteq> length lys \<or> cell_count > cells_size (kv_cells kv ! strm) \<or> kv_v_trans kv \<noteq> (tr \<noteq> 0) then Some (False, (kv, lys), bs2)
       else do {
         (ok, lys1, bs3) \<leftarrow> read_layers (read_k strm cell_count si) lys bs2;
         if \<not> ok then Some (False, (kv, lys1), bs3)
         else do {
           (ok', lys2, bs4) \<leftarrow> read_layers (read_v (kv_v_trans kv) (cells_size (kv_cells kv ! strm)) strm cell_count si) lys1 bs3;
           Some (ok', (kv, lys2), bs4) } } } })"

section \<open>Reading\<close>

text \<open>Clean-up after a state that does not fit.\<close>

definition read_failed :: "int \<Rightarrow> kv_cache \<times> kv_layer list \<Rightarrow> (kv_cache \<times> kv_layer list) option" where
  "read_failed dest st = (if dest = - 1 then Some (clear_all st)
     else do { (_, kv') \<leftarrow> kv_seq_rm dest (- 1) (- 1) (fst st); Some (kv', snd st) })"

fun read_streams ::
  "int \<Rightarrow> nat list \<Rightarrow> kv_cache \<times> kv_layer list \<Rightarrow> bytes \<Rightarrow> (bool \<times> (kv_cache \<times> kv_layer list) \<times> bytes) option" where
  "read_streams dest [] st bs = Some (True, st, bs)"
| "read_streams dest (s # ss) st bs = do {
     (cell_count, bs1) \<leftarrow> dec_uint 4 bs;
     if cell_count = 0 then read_streams dest ss st bs1
     else do {
       let strm = (if dest = - 1 then s else kv_seq_to_stream (fst st) ! nat dest);
       (si, st1, bs2) \<leftarrow> state_read_meta strm cell_count dest st bs1;
       case si of
         None \<Rightarrow> do { st' \<leftarrow> read_failed dest st1; Some (False, st', bs2) }
       | Some si \<Rightarrow> do {
           (ok, st2, bs3) \<leftarrow> state_read_data strm cell_count si st1 bs2;
           if \<not> ok then do { st' \<leftarrow> read_failed dest st2; Some (False, st', bs3) }
           else read_streams dest ss st2 bs3 } } }"

definition state_read ::
  "int \<Rightarrow> kv_cache \<times> kv_layer list \<Rightarrow> bytes \<Rightarrow> (bool \<times> (kv_cache \<times> kv_layer list) \<times> bytes) option" where
  "state_read dest st bs = (if pg_enabled (kv_pool (fst st)) then Some (True, st, bs)
     else do {
       require (dest = - 1 \<or> (0 \<le> dest \<and> nat dest < length (kv_seq_to_stream (fst st))));
       (n, bs1) \<leftarrow> dec_uint 4 bs;
       if n \<noteq> kv_n_stream (fst st) then Some (False, st, bs1)
       else read_streams dest [0..<kv_n_stream (fst st)] st bs1 })"

section \<open>Ranges\<close>

lemma write_all_eq:
  assumes "\<And>x. x \<in> set xs \<Longrightarrow> f x = Some (g x)"
  shows "write_all f xs = Some (concat (map g xs))"
proof -
  have "mfold (\<lambda>x out. do { b \<leftarrow> f x; Some (out @ b) }) xs out = Some (out @ concat (map g xs))" for out
    using assms by (induction xs arbitrary: out) auto
  then show ?thesis
    by (simp add: write_all_def)
qed

lemma range_cells_append [simp]: "range_cells (rs @ [(a, b)]) = range_cells rs @ [a..<b]"
  by (simp add: range_cells_def)

lemma length_range_cells: "length (range_cells rs) = sum_list (map (\<lambda>(a, b). b - a) rs)"
  by (induction rs) (auto simp: range_cells_def)

text \<open>The ranges enumerate the selected cells in order.\<close>

lemma sel_ranges_ok:
  assumes sel: "\<And>i. i < n \<Longrightarrow> f i = Some (sel i)"
  obtains b rs where "mfold (\<lambda>i st. do { s \<leftarrow> f i; Some (range_step n s i st) }) [0..<n] (0, n, []) = Some (length (filter sel [0..<n]), b, rs)"
    "range_cells (if b \<noteq> n then rs @ [(b, n)] else rs) = filter sel [0..<n]"
    "\<And>a e. (a, e) \<in> set (if b \<noteq> n then rs @ [(b, n)] else rs) \<Longrightarrow> a \<le> e \<and> e \<le> n"
    "length (filter sel [0..<n]) = sum_list (map (\<lambda>(a, b). b - a) (if b \<noteq> n then rs @ [(b, n)] else rs))"
proof -
  let ?step = "\<lambda>i st. do { s \<leftarrow> f i; Some (range_step n s i st) }"
  let ?I = "\<lambda>done (k, b, rs). k = length (filter sel done) \<and> (\<forall>(a, e) \<in> set rs. a \<le> e \<and> e \<le> n) \<and>
    (if b = n then range_cells rs = filter sel done else b \<le> length done \<and> range_cells rs @ [b..<length done] = filter sel done)"
  have "\<exists>st. mfold ?step [0..<n] (0, n, []) = Some st \<and> ?I [0..<n] st"
  proof (rule mfold_invariant)
    show "?I [] (0, n, [])"
      by (simp add: range_cells_def)
    fix "done" i rest and st :: "nat \<times> nat \<times> (nat \<times> nat) list"
    assume split: "[0..<n] = done @ i # rest" and I: "?I done st"
    note i = upt_splitD [OF split]
    obtain k b rs where st: "st = (k, b, rs)"
      by (cases st)
    have "?I (done @ [i]) (range_step n (sel i) i (k, b, rs))"
      using I i unfolding st by (auto simp: range_step_def)
    then show "\<exists>st'. ?step i st = Some st' \<and> ?I (done @ [i]) st'"
      using sel [OF i(2)] st by simp
  qed
  then obtain st where st: "mfold ?step [0..<n] (0, n, []) = Some st" "?I [0..<n] st"
    by (elim exE conjE)
  obtain k b rs where "st = (k, b, rs)"
    by (cases st)
  note r = st [unfolded this]
  let ?rs = "if b \<noteq> n then rs @ [(b, n)] else rs"
  have cells: "range_cells ?rs = filter sel [0..<n]"
    using r(2) by auto
  show thesis
  proof (rule that [of b rs])
    show "a \<le> e \<and> e \<le> n" if "(a, e) \<in> set ?rs" for a e
      using r(2) that by (auto split: if_splits)
    show "length (filter sel [0..<n]) = sum_list (map (\<lambda>(a, b). b - a) ?rs)"
      using length_range_cells [of ?rs] unfolding cells .
  qed (use r cells in auto)
qed

lemma cell_ranges_ok:
  assumes sel: "\<And>i. i < cells_size c \<Longrightarrow> cell_selected c seq i = Some (sel i)"
  obtains ranges where "cell_ranges c seq = Some (length (filter sel [0..<cells_size c]), ranges)"
    "range_cells ranges = filter sel [0..<cells_size c]" "\<And>a b. (a, b) \<in> set ranges \<Longrightarrow> a \<le> b \<and> b \<le> cells_size c"
proof -
  let ?n = "cells_size c"
  obtain b rs where r: "mfold (\<lambda>i st. do { s \<leftarrow> cell_selected c seq i; Some (range_step ?n s i st) }) [0..<?n] (0, ?n, []) =
      Some (length (filter sel [0..<?n]), b, rs)" "range_cells (if b \<noteq> ?n then rs @ [(b, ?n)] else rs) = filter sel [0..<?n]"
    "\<And>a e. (a, e) \<in> set (if b \<noteq> ?n then rs @ [(b, ?n)] else rs) \<Longrightarrow> a \<le> e \<and> e \<le> ?n"
    "length (filter sel [0..<?n]) = sum_list (map (\<lambda>(a, b). b - a) (if b \<noteq> ?n then rs @ [(b, ?n)] else rs))"
    using sel_ranges_ok [of ?n "cell_selected c seq" sel] sel by blast
  show thesis
    using r by (intro that [of "if b \<noteq> ?n then rs @ [(b, ?n)] else rs"]) (simp_all add: cell_ranges_def Let_def)
qed

section \<open>The cells survive\<close>

text \<open>The bytes of one cell in a state of the whole cache.\<close>

definition cell_bytes :: "nat \<Rightarrow> nat \<Rightarrow> llama_kv_cells \<Rightarrow> nat \<Rightarrow> bytes" where
  "cell_bytes n_pos n_seq_max c i = (let ids = filter (\<lambda>q. q \<in> kc_seq c ! i) [0..<n_seq_max] in
     enc_i32 (kc_pos c ! i) @ enc_uint 4 (length ids) @
     (if n_pos > 1 then enc_i32 (ext_x (kc_ext c ! i)) @ enc_i32 (ext_y (kc_ext c ! i)) else []) @
     concat (map (\<lambda>q. enc_i32 (int q)) ids))"

lemma cell_seq_ids_eq:
  assumes "i < cells_size c" "kv_n_seq_max kv \<le> LLAMA_MAX_SEQ"
  shows "cell_seq_ids kv c (- 1) i = Some (filter (\<lambda>q. q \<in> kc_seq c ! i) [0..<kv_n_seq_max kv])"
proof -
  have "mfold (\<lambda>cur ids. if int cur = - 1 \<or> - 1 = (- 1::int)
       then do { h \<leftarrow> cells_seq_has i cur c; Some (if h then ids @ [cur] else ids) } else Some ids) qs ids =
      Some (ids @ filter (\<lambda>q. q \<in> kc_seq c ! i) qs)" if "\<forall>q \<in> set qs. q < LLAMA_MAX_SEQ" for qs ids
    using that assms(1) by (induction qs arbitrary: ids) (auto simp: cells_seq_has_def)
  then show ?thesis
    using assms(2) by (simp add: cell_seq_ids_def)
qed

lemma write_cell_eq:
  assumes "i < cells_size c" "kc_pos c ! i \<noteq> - 1" "kv_n_seq_max kv \<le> LLAMA_MAX_SEQ"
  shows "write_cell kv c (- 1) i = Some (cell_bytes (kv_n_pos_per_embd kv) (kv_n_seq_max kv) c i)"
  using assms cell_seq_ids_eq [OF assms(1,3)]
  by (simp add: write_cell_def cells_pos_get_def cells_ext_get_def cell_bytes_def Let_def)

lemma read_seq_ids_ok:
  assumes "kv_cells_inv c" "i < cells_size c" "cell_view c i = Some (Cell p S h)"
    and "distinct ids" "\<forall>q \<in> set ids. q < n_seq_max \<and> q \<notin> S" "n_seq_max \<le> LLAMA_MAX_SEQ"
  shows "\<exists>c'. (\<forall>rest. read_seq_ids n_seq_max i (length ids) c (concat (map (\<lambda>q. enc_i32 (int q)) ids) @ rest) = Some (True, c', rest)) \<and>
    kv_cells_inv c' \<and> cells_view c' = (cells_view c)[i := Some (Cell p (S \<union> set ids) h)] \<and> kc_ext c' = kc_ext c"
  using assms
proof (induction ids arbitrary: c S)
  case Nil
  then show ?case by simp
next
  case (Cons q ids)
  have q: "q < LLAMA_MAX_SEQ" "in_i32 (int q)"
    using Cons.prems(5,6) by (auto simp: in_i32_def INT32_MIN_def INT32_MAX_def LLAMA_MAX_SEQ_def)
  obtain c1 where c1: "cells_seq_add i q c = Some c1" "kv_cells_inv c1"
    "cells_view c1 = (cells_view c)[i := Some (Cell p (insert q S) h)]" "kc_ext c1 = kc_ext c"
    by (rule cells_seq_add_spec [OF Cons.prems(1,2) q(1) Cons.prems(3)]) (use Cons.prems in auto)
  note u = view_updated [OF c1(3) Cons.prems(2)]
  have "\<exists>c'. (\<forall>rest. read_seq_ids n_seq_max i (length ids) c1 (concat (map (\<lambda>q. enc_i32 (int q)) ids) @ rest) = Some (True, c', rest)) \<and>
    kv_cells_inv c' \<and> cells_view c' = (cells_view c1)[i := Some (Cell p (insert q S \<union> set ids) h)] \<and> kc_ext c' = kc_ext c1"
    by (rule Cons.IH) (use Cons.prems c1(2) u in auto)
  then show ?case
    using c1 Cons.prems(5) int32.dec_enc [OF q(2)] by auto
qed

text \<open>What the bytes of a cell can carry.\<close>

definition cell_savable :: "nat \<Rightarrow> nat \<Rightarrow> llama_kv_cells \<Rightarrow> nat \<Rightarrow> bool" where
  "cell_savable n_pos n_seq_max c i \<longleftrightarrow> i < cells_size c \<and> kc_pos c ! i \<noteq> - 1 \<and> kc_seq c ! i \<subseteq> {..<n_seq_max} \<and>
     (n_pos > 1 \<longrightarrow> in_i32 (ext_x (kc_ext c ! i)) \<and> in_i32 (ext_y (kc_ext c ! i)))"

definition saved_cell :: "llama_kv_cells \<Rightarrow> nat \<Rightarrow> kv_cell option" where
  "saved_cell c i = Some (Cell (kc_pos c ! i) (kc_seq c ! i) 0)"

lemma read_cell_ok:
  assumes inv0: "kv_cells_inv c0" and sav: "cell_savable n_pos n_seq_max c0 i" and max: "n_seq_max \<le> LLAMA_MAX_SEQ"
    and inv: "kv_cells_inv c" and j: "j < cells_size c" "cell_view c j = None"
  obtains c' where "\<And>js rest. read_cells n_pos n_seq_max (j # js) c (cell_bytes n_pos n_seq_max c0 i @ rest) = read_cells n_pos n_seq_max js c' rest"
    "kv_cells_inv c'" "cells_view c' = (cells_view c)[j := saved_cell c0 i]"
proof -
  let ?p = "kc_pos c0 ! i" and ?ids = "filter (\<lambda>q. q \<in> kc_seq c0 ! i) [0..<n_seq_max]"
  have i: "i < cells_size c0" "?p \<noteq> - 1" "kc_seq c0 ! i \<subseteq> {..<n_seq_max}"
    using sav by (simp_all add: cell_savable_def)
  have p: "0 \<le> ?p" "?p \<le> INT32_MAX" "in_i32 ?p"
    using cells_wf_cell [OF cells_inv_wf [OF inv0] i(1)] i(2) by (auto simp: in_i32_def INT32_MIN_def)
  have ids: "distinct ?ids" "\<forall>q \<in> set ?ids. q < n_seq_max" "set ?ids = kc_seq c0 ! i" "length ?ids < 256 ^ 4"
  proof -
    have "length ?ids \<le> n_seq_max"
      using length_filter_le [of "\<lambda>q. q \<in> kc_seq c0 ! i" "[0..<n_seq_max]"] by simp
    then show "length ?ids < 256 ^ 4"
      using max by (simp add: LLAMA_MAX_SEQ_def)
  qed (use i(3) in auto)
  obtain c1 where c1: "cells_pos_set j ?p c = Some c1" "kv_cells_inv c1" "cells_view c1 = (cells_view c)[j := Some (Cell ?p {} 0)]"
    by (rule cells_pos_set_spec [OF inv j p(1,2)])
  note u1 = view_updated [OF c1(3) j(1)]
  let ?e = "kc_ext c0 ! i"
  obtain c2 where c2: "n_pos > 1 \<Longrightarrow> cells_ext_set j \<lparr>ext_x = ext_x ?e, ext_y = ext_y ?e\<rparr> c1 = Some c2" "n_pos \<le> 1 \<Longrightarrow> c2 = c1"
    "kv_cells_inv c2" "cells_view c2 = cells_view c1"
  proof (cases "n_pos > 1")
    case True
    obtain c2 where "cells_ext_set j \<lparr>ext_x = ext_x ?e, ext_y = ext_y ?e\<rparr> c1 = Some c2" "kv_cells_inv c2" "cells_view c2 = cells_view c1"
      by (rule cells_ext_set_spec [OF c1(2)]) (use u1 j in auto)
    then show ?thesis
      using that [of c2] True by simp
  next
    case False
    then show ?thesis
      using that [of c1] c1(2) by simp
  qed
  have u2: "cells_size c2 = cells_size c" "cell_view c2 j = Some (Cell ?p {} 0)"
    using c2(4) u1 j(1) by (metis length_cells_view nth_cells_view)+
  have "\<exists>c3. (\<forall>rest. read_seq_ids n_seq_max j (length ?ids) c2 (concat (map (\<lambda>q. enc_i32 (int q)) ?ids) @ rest) = Some (True, c3, rest)) \<and>
      kv_cells_inv c3 \<and> cells_view c3 = (cells_view c2)[j := Some (Cell ?p ({} \<union> set ?ids) 0)] \<and> kc_ext c3 = kc_ext c2"
    by (rule read_seq_ids_ok [OF c2(3) _ u2(2) ids(1) _ max]) (use u2(1) j(1) in auto)
  then obtain c3 where c3: "\<And>rest. read_seq_ids n_seq_max j (length ?ids) c2 (concat (map (\<lambda>q. enc_i32 (int q)) ?ids) @ rest) = Some (True, c3, rest)"
    "kv_cells_inv c3" "cells_view c3 = (cells_view c)[j := saved_cell c0 i]"
    unfolding ids(3) saved_cell_def using c2(4) c1(3) by auto
  show thesis
  proof (rule that [OF _ c3(2,3)])
    fix js rest
    show "read_cells n_pos n_seq_max (j # js) c (cell_bytes n_pos n_seq_max c0 i @ rest) = read_cells n_pos n_seq_max js c3 rest"
      using c1(1) c2(1,2) c3(1) sav int32.dec_enc [OF p(3)] uint.dec_enc [OF ids(4)]
      by (cases "n_pos > 1") (simp_all add: cell_bytes_def Let_def int32.dec_enc cell_savable_def)
  qed
qed

lemma read_cells_ok:
  assumes inv0: "kv_cells_inv c0" and max: "n_seq_max \<le> LLAMA_MAX_SEQ"
    and len: "length js = length is" and sav: "\<forall>i \<in> set is. cell_savable n_pos n_seq_max c0 i"
    and c: "kv_cells_inv c" "distinct js" "\<forall>j \<in> set js. j < cells_size c \<and> cell_view c j = None"
  shows "\<exists>c'. read_cells n_pos n_seq_max js c (concat (map (cell_bytes n_pos n_seq_max c0) is) @ rest) = Some (True, c', rest) \<and>
    kv_cells_inv c' \<and> cells_view c' = fold (\<lambda>(j, i) vs. vs[j := saved_cell c0 i]) (zip js is) (cells_view c)"
  using len sav c
proof (induction js "is" arbitrary: c rule: list_induct2)
  case (Cons j js i "is")
  obtain c1 where c1: "\<And>js rest. read_cells n_pos n_seq_max (j # js) c (cell_bytes n_pos n_seq_max c0 i @ rest) = read_cells n_pos n_seq_max js c1 rest"
    "kv_cells_inv c1" "cells_view c1 = (cells_view c)[j := saved_cell c0 i]"
    by (rule read_cell_ok [OF inv0 _ max Cons.prems(2), of n_pos i j]) (use Cons.prems in auto)
  have size: "cells_size c1 = cells_size c"
    using arg_cong [OF c1(3), of length] by simp
  have "cell_view c1 j' = None" if "j' \<in> set js" for j'
  proof -
    have "j' < cells_size c" "j' \<noteq> j" "cell_view c j' = None"
      using that Cons.prems(3,4) by auto
    then show ?thesis
      using arg_cong [OF c1(3), of "\<lambda>vs. vs ! j'"] size by simp
  qed
  then have "\<exists>c'. read_cells n_pos n_seq_max js c1 (concat (map (cell_bytes n_pos n_seq_max c0) is) @ rest) = Some (True, c', rest) \<and>
    kv_cells_inv c' \<and> cells_view c' = fold (\<lambda>(j, i) vs. vs[j := saved_cell c0 i]) (zip js is) (cells_view c1)"
    using Cons.prems c1(2) size by (intro Cons.IH) auto
  then show ?case
    unfolding c1(3) using c1(1) by (simp del: read_cells.simps)
qed simp

lemma fold_fill:
  assumes "length is \<le> length vs"
  shows "fold (\<lambda>(j, i) vs. vs[j := f i]) (zip [0..<length is] is) vs = map f is @ drop (length is) vs"
  using assms
proof (induction "is" rule: rev_induct)
  case (snoc i "is")
  have "drop (length is) vs = vs ! length is # drop (Suc (length is)) vs"
    using snoc.prems by (simp add: Cons_nth_drop_Suc)
  then show ?case
    using snoc by (simp add: list_update_append)
qed simp

section \<open>The data survives\<close>

text \<open>The \<open>k\<close>-th piece of \<open>n\<close> bytes: a row of K or V, or an element of a transposed V.\<close>

definition chunk :: "nat \<Rightarrow> 'a list \<Rightarrow> nat \<Rightarrow> 'a list" where
  "chunk n xs k = take n (drop (k * n) xs)"

lemma length_chunk: "Suc k * n \<le> length xs \<Longrightarrow> length (chunk n xs k) = n"
  by (simp add: chunk_def)

lemma take_chunks:
  assumes "a \<le> b" "b * n \<le> length xs"
  shows "take ((b - a) * n) (drop (a * n) xs) = concat (map (chunk n xs) [a..<b])"
  using assms
proof (induction b)
  case (Suc b)
  show ?case
  proof (cases "a \<le> b")
    case True
    have "(Suc b - a) * n = (b - a) * n + n"
      using True by (simp add: Suc_diff_le)
    moreover have "(b - a) * n + a * n = b * n"
      using True by (metis add_mult_distrib le_add_diff_inverse2)
    ultimately have "take ((Suc b - a) * n) (drop (a * n) xs) = take ((b - a) * n) (drop (a * n) xs) @ chunk n xs b"
      by (simp add: take_add chunk_def)
    then show ?thesis
      using Suc True by simp
  next
    case False
    then show ?thesis
      using Suc.prems by simp
  qed
qed simp

lemma chunk_concat:
  assumes "\<forall>xs \<in> set xss. length xs = n" "k < length xss"
  shows "chunk n (concat xss) k = xss ! k"
  using assms
proof (induction xss arbitrary: k)
  case (Cons xs xss)
  then show ?case
    by (cases k) (auto simp: chunk_def)
qed simp

lemma length_concat_chunks: "\<forall>xs \<in> set xss. length xs = n \<Longrightarrow> length (concat xss) = length xss * n"
  by (induction xss) auto

lemma write_rows_eq:
  assumes "\<And>a b. (a, b) \<in> set ranges \<Longrightarrow> a \<le> b \<and> (b + off) * n \<le> length (tn_data t)"
  shows "write_rows off ranges n t = Some (concat (map (\<lambda>i. chunk n (tn_data t) (i + off)) (range_cells ranges)))"
proof -
  have "tensor_get t ((a + off) * n) ((b - a) * n) = Some (concat (map (\<lambda>i. chunk n (tn_data t) (i + off)) [a..<b]))"
    if "(a, b) \<in> set ranges" for a b
  proof -
    have ab: "a \<le> b" "(b + off) * n \<le> length (tn_data t)"
      using assms [OF that] by auto
    have "(a + off) * n + (b - a) * n = ((a + off) + (b - a)) * n"
      by (simp add: add_mult_distrib)
    also have "(a + off) + (b - a) = b + off"
      using ab(1) by simp
    finally have "(a + off) * n + (b - a) * n = (b + off) * n" .
    moreover have "map (chunk n (tn_data t)) [a + off..<b + off] = map (\<lambda>i. chunk n (tn_data t) (i + off)) [a..<b]"
      by (intro nth_equalityI) (auto simp: ac_simps)
    ultimately show ?thesis
      using take_chunks [of "a + off" "b + off" n "tn_data t"] ab by (simp add: tensor_get_def)
  qed
  then have "write_rows off ranges n t =
      Some (concat (map (\<lambda>(a, b). concat (map (\<lambda>i. chunk n (tn_data t) (i + off)) [a..<b])) ranges))"
    unfolding write_rows_def by (intro write_all_eq) auto
  moreover have "concat (map (\<lambda>(a, b). concat (map f [a..<b])) rs) = concat (map f (range_cells rs))"
    for f :: "nat \<Rightarrow> nat list" and rs
    by (induction rs) (auto simp: range_cells_def)
  ultimately show ?thesis
    by simp
qed

lemma chunk_set:
  assumes "length bs = cnt * n" "(h + cnt) * n \<le> length xs" "Suc k * n \<le> length xs"
  shows "chunk n (take (h * n) xs @ bs @ drop (h * n + cnt * n) xs) k =
    (if h \<le> k \<and> k < h + cnt then chunk n bs (k - h) else chunk n xs k)"
proof -
  have len: "length (take (h * n) xs) = h * n"
    using assms(2) by (simp add: add_mult_distrib)
  consider "k < h" | "h \<le> k" "k < h + cnt" | "h + cnt \<le> k"
    by linarith
  then show ?thesis
  proof cases
    case 1
    then have "Suc k * n \<le> h * n"
      by (intro mult_le_mono1) simp
    then have le: "n \<le> h * n - k * n" "k * n \<le> h * n"
      using 1 by simp_all
    have "chunk n (take (h * n) xs @ B) k = take n (drop (k * n) (take (h * n) xs))" for B
      unfolding chunk_def drop_append take_append length_drop len using le by simp
    also have "\<dots> = chunk n xs k"
      using le by (simp add: chunk_def drop_take min_absorb1)
    finally show ?thesis
      using 1 by simp
  next
    case 2
    have kh: "k * n - h * n = (k - h) * n"
      by (simp add: diff_mult_distrib)
    have "length (take (h * n) xs) \<le> k * n"
      unfolding len using 2 by (intro mult_le_mono1)
    then have nil: "drop (k * n) (take (h * n) xs) = []"
      by (rule drop_all)
    moreover have "Suc (k - h) * n \<le> cnt * n"
      using 2 by (intro mult_le_mono1) simp
    then have "n \<le> length bs - (k - h) * n"
      using assms(1) by simp
    ultimately show ?thesis
      using 2 unfolding chunk_def drop_append take_append length_drop len kh nil by simp
  next
    case 3
    have "(h + cnt) * n \<le> k * n"
      using 3 by (intro mult_le_mono1)
    then show ?thesis
      using 3 len assms(1) by (simp add: chunk_def add_mult_distrib)
  qed
qed

definition slot_from_start :: "nat \<Rightarrow> nat \<Rightarrow> slot_info" where
  "slot_from_start strm n = \<lparr>si_s0 = strm, si_s1 = strm, si_strm = [strm], si_idxs = [[0..<n]]\<rparr>"

lemma slot_from_start_contiguous: "0 < n \<Longrightarrow> si_is_contiguous (slot_from_start strm n) \<and> si_head (slot_from_start strm n) = Some 0"
  by (auto simp: si_is_contiguous_def si_head_def slot_from_start_def list_all_iff)

lemma scatter_ok:
  assumes "0 < cnt" "length css = cnt" "\<forall>xs \<in> set css. length xs = n" "(off + cnt) * n \<le> length (tn_data t)"
  shows "\<exists>t'. (\<forall>rest. scatter (slot_from_start strm cnt) cnt off n t (concat css @ rest) = Some (t', rest)) \<and>
    t' = t\<lparr>tn_data := tn_data t'\<rparr> \<and> length (tn_data t') = length (tn_data t) \<and>
    (\<forall>k. Suc k * n \<le> length (tn_data t) \<longrightarrow>
      chunk n (tn_data t') k = (if off \<le> k \<and> k < off + cnt then css ! (k - off) else chunk n (tn_data t) k))"
proof -
  let ?d = "take (off * n) (tn_data t) @ concat css @ drop (off * n + cnt * n) (tn_data t)"
  have len: "length (concat css) = cnt * n"
    using length_concat_chunks [OF assms(3)] assms(2) by simp
  have "scatter (slot_from_start strm cnt) cnt off n t (concat css @ rest) = Some (t\<lparr>tn_data := ?d\<rparr>, rest)" for rest
    using assms(1,4) len slot_from_start_contiguous [OF assms(1)]
    by (simp add: scatter_def io_read_def tensor_set_def add_mult_distrib)
  moreover have "chunk n ?d k = (if off \<le> k \<and> k < off + cnt then css ! (k - off) else chunk n (tn_data t) k)"
    if k: "Suc k * n \<le> length (tn_data t)" for k
    using chunk_set [OF len assms(4) k] chunk_concat [OF assms(3), of "k - off"] assms(2) by auto
  moreover have "length ?d = length (tn_data t)"
    using assms(4) len by (simp add: add_mult_distrib)
  ultimately show ?thesis
    by (intro exI [of _ "t\<lparr>tn_data := ?d\<rparr>"]) simp
qed

text \<open>A tensor of \<open>cells\<close> pieces of \<open>n\<close> bytes, and a second tensor of the same type that holds the selected pieces
  of the first from its start on, \<open>off\<close> and \<open>off'\<close> being where the two start to count.\<close>

definition same_shape :: "tensor \<Rightarrow> tensor \<Rightarrow> bool" where
  "same_shape t t' \<longleftrightarrow> tn_type t' = tn_type t \<and> tn_row t' = tn_row t \<and> tn_el t' = tn_el t"

definition holds_pieces :: "nat \<Rightarrow> nat list \<Rightarrow> nat \<Rightarrow> tensor \<Rightarrow> nat \<Rightarrow> tensor \<Rightarrow> bool" where
  "holds_pieces n occ off t off' t' \<longleftrightarrow>
     (\<forall>i < length occ. chunk n (tn_data t') (i + off') = chunk n (tn_data t) (occ ! i + off))"

lemma scatter_pieces:
  assumes occ: "occ \<noteq> []" "\<And>i. i \<in> set occ \<Longrightarrow> i < m" and t: "(m + off) * n \<le> length (tn_data t)"
    and t2: "(length occ + off') * n \<le> length (tn_data t2)"
  shows "\<exists>t'. (\<forall>rest. scatter (slot_from_start strm (length occ)) (length occ) off' n t2
      (concat (map (\<lambda>i. chunk n (tn_data t) (i + off)) occ) @ rest) = Some (t', rest)) \<and>
    same_shape t2 t' \<and> length (tn_data t') = length (tn_data t2) \<and> holds_pieces n occ off t off' t' \<and>
    (\<forall>k. Suc k * n \<le> length (tn_data t2) \<longrightarrow> k < off' \<or> off' + length occ \<le> k \<longrightarrow> chunk n (tn_data t') k = chunk n (tn_data t2) k)"
proof -
  let ?css = "map (\<lambda>i. chunk n (tn_data t) (i + off)) occ"
  have "length (chunk n (tn_data t) (i + off)) = n" if "i \<in> set occ" for i
  proof (rule length_chunk)
    have "Suc (i + off) * n \<le> (m + off) * n"
      using occ(2) [OF that] by (intro mult_le_mono1) simp
    then show "Suc (i + off) * n \<le> length (tn_data t)"
      using t by simp
  qed
  then have css: "\<forall>xs \<in> set ?css. length xs = n" "0 < length occ" "length ?css = length occ" "(off' + length occ) * n \<le> length (tn_data t2)"
    using occ(1) t2 by (auto simp: add.commute)
  obtain t' where t': "\<And>rest. scatter (slot_from_start strm (length occ)) (length occ) off' n t2 (concat ?css @ rest) = Some (t', rest)"
    "t' = t2\<lparr>tn_data := tn_data t'\<rparr>" "length (tn_data t') = length (tn_data t2)"
    "\<And>k. Suc k * n \<le> length (tn_data t2) \<Longrightarrow>
      chunk n (tn_data t') k = (if off' \<le> k \<and> k < off' + length occ then ?css ! (k - off') else chunk n (tn_data t2) k)"
    using scatter_ok [OF css(2,3,1,4), of strm] by blast
  have "same_shape t2 t'"
    by (subst t'(2)) (simp add: same_shape_def)
  moreover have "chunk n (tn_data t') (i + off') = chunk n (tn_data t) (occ ! i + off)" if "i < length occ" for i
  proof -
    have "Suc (i + off') * n \<le> (length occ + off') * n"
      using that by (intro mult_le_mono1) simp
    then have "Suc (i + off') * n \<le> length (tn_data t2)"
      using t2 by (rule order.trans)
    from t'(4) [OF this] show ?thesis
      using that by simp
  qed
  then have "holds_pieces n occ off t off' t'"
    by (simp add: holds_pieces_def)
  ultimately show ?thesis
    using t'(1,3,4) by (intro exI [of _ t']) auto
qed

text \<open>A transposed V tensor: one piece per embedding element and cell.\<close>

lemma scatter_elements:
  assumes occ: "occ \<noteq> []" "\<And>i. i \<in> set occ \<Longrightarrow> i < m" "length occ \<le> m2"
    and t: "m * E * n \<le> length (tn_data t)" and t2: "m2 * E * n \<le> length (tn_data t2)"
  shows "\<exists>t'. mfold (\<lambda>j (t, b). scatter (slot_from_start strm (length occ)) (length occ) (j * m2) n t b) [0..<E]
      (t2, concat (map (\<lambda>j. concat (map (\<lambda>i. chunk n (tn_data t) (i + j * m)) occ)) [0..<E]) @ rest) = Some (t', rest) \<and>
    same_shape t2 t' \<and> (\<forall>j < E. holds_pieces n occ (j * m) t (j * m2) t')"
proof -
  let ?b = "\<lambda>j. concat (map (\<lambda>i. chunk n (tn_data t) (i + j * m)) occ)"
  let ?step = "\<lambda>j (t, b). scatter (slot_from_start strm (length occ)) (length occ) (j * m2) n t b"
  let ?I = "\<lambda>done (t', b). b = concat (map ?b [length done..<E]) @ rest \<and> same_shape t2 t' \<and> length (tn_data t') = length (tn_data t2) \<and>
    (\<forall>j < length done. holds_pieces n occ (j * m) t (j * m2) t')"
  have "\<exists>st. mfold ?step [0..<E] (t2, concat (map ?b [0..<E]) @ rest) = Some st \<and> ?I [0..<E] st"
  proof (rule mfold_invariant)
    show "?I [] (t2, concat (map ?b [0..<E]) @ rest)"
      by (simp add: same_shape_def)
    fix "done" k more and st :: "tensor \<times> bytes"
    assume split: "[0..<E] = done @ k # more" and I: "?I done st"
    note k = upt_splitD [OF split]
    obtain t1 b where st: "st = (t1, b)"
      by (cases st)
    have up: "[k..<E] = k # [Suc k..<E]"
      using k(2) by (simp add: upt_conv_Cons)
    have b1: "(x + k * x) * n \<le> len" if "x * E * n \<le> len" for x len
    proof -
      have "x + k * x \<le> x * E"
        using mult_le_mono2 [of "Suc k" E x] k(2) by (simp add: mult.commute)
      then have "(x + k * x) * n \<le> x * E * n"
        by (rule mult_le_mono1)
      then show ?thesis
        using that by (rule order.trans)
    qed
    have "(length occ + k * m2) * n \<le> (m2 + k * m2) * n"
      using occ(3) by (intro mult_le_mono1) simp
    also have "\<dots> \<le> length (tn_data t2)"
      by (rule b1 [OF t2])
    also have "\<dots> = length (tn_data t1)"
      using I st by simp
    finally have room: "(length occ + k * m2) * n \<le> length (tn_data t1)" .
    obtain t' where t': "\<And>rest. scatter (slot_from_start strm (length occ)) (length occ) (k * m2) n t1 (?b k @ rest) = Some (t', rest)"
      "same_shape t1 t'" "length (tn_data t') = length (tn_data t1)" "holds_pieces n occ (k * m) t (k * m2) t'"
      "\<And>i. Suc i * n \<le> length (tn_data t1) \<Longrightarrow> i < k * m2 \<or> k * m2 + length occ \<le> i \<Longrightarrow> chunk n (tn_data t') i = chunk n (tn_data t1) i"
      using scatter_pieces [OF occ(1,2) b1 [OF t] room, of strm] by blast
    have old: "holds_pieces n occ (j * m) t (j * m2) t'" if "j < k" for j
    proof -
      have "chunk n (tn_data t') (i + j * m2) = chunk n (tn_data t1) (i + j * m2)" if i: "i < length occ" for i
      proof (rule t'(5))
        have "Suc j * m2 \<le> k * m2"
          using \<open>j < k\<close> by (intro mult_le_mono1) simp
        then have lt: "i + j * m2 < k * m2"
          using i occ(3) by simp
        then show "i + j * m2 < k * m2 \<or> k * m2 + length occ \<le> i + j * m2"
          by simp
        have "Suc (i + j * m2) * n \<le> (length occ + k * m2) * n"
          using lt by (intro mult_le_mono1) simp
        then show "Suc (i + j * m2) * n \<le> length (tn_data t1)"
          using room by (rule order.trans)
      qed
      moreover have "holds_pieces n occ (j * m) t (j * m2) t1"
        using I st k that by simp
      ultimately show ?thesis
        by (simp add: holds_pieces_def)
    qed
    show "\<exists>st'. ?step k st = Some st' \<and> ?I (done @ [k]) st'"
      using I t' old k unfolding st by (auto simp: up same_shape_def less_Suc_eq)
  qed
  then show ?thesis
    by auto
qed

text \<open>What a saved tensor needs of the tensor it is restored to: both have \<open>m\<close> and \<open>m2\<close> cells of \<open>pieces\<close>
  pieces of \<open>n\<close> bytes.\<close>

definition tensor_fits :: "nat \<Rightarrow> nat \<Rightarrow> nat \<Rightarrow> nat \<Rightarrow> tensor \<Rightarrow> tensor \<Rightarrow> bool" where
  "tensor_fits m m2 pieces n t t2 \<longleftrightarrow> same_shape t t2 \<and> in_i32 (tn_type t) \<and>
     m * pieces * n \<le> length (tn_data t) \<and> m2 * pieces * n \<le> length (tn_data t2)"

definition k_fits :: "nat \<Rightarrow> nat \<Rightarrow> nat \<Rightarrow> kv_layer \<Rightarrow> kv_layer \<Rightarrow> bool" where
  "k_fits m m2 strm ly ly2 \<longleftrightarrow> strm < length (ly_k ly) \<and> strm < length (ly_k ly2) \<and>
     tn_row (ly_k ly ! strm) < 256 ^ 8 \<and> tensor_fits m m2 1 (tn_row (ly_k ly ! strm)) (ly_k ly ! strm) (ly_k ly2 ! strm)"

fun v_fits_tensor :: "nat \<Rightarrow> nat \<Rightarrow> bool \<Rightarrow> nat \<Rightarrow> nat \<Rightarrow> tensor option \<Rightarrow> tensor option \<Rightarrow> bool" where
  "v_fits_tensor m m2 v_trans E E2 (Some v) (Some v2) \<longleftrightarrow>
     (if v_trans then tn_el v < 256 ^ 4 \<and> E < 256 ^ 4 \<and> E2 = E \<and> tensor_fits m m2 E (tn_el v) v v2
      else tn_row v < 256 ^ 8 \<and> tensor_fits m m2 1 (tn_row v) v v2)"
| "v_fits_tensor m m2 v_trans E E2 v v2 \<longleftrightarrow> v = None \<and> v2 = None"

definition v_fits :: "nat \<Rightarrow> nat \<Rightarrow> bool \<Rightarrow> nat \<Rightarrow> kv_layer \<Rightarrow> kv_layer \<Rightarrow> bool" where
  "v_fits m m2 v_trans strm ly ly2 \<longleftrightarrow> strm < length (ly_v ly) \<and> strm < length (ly_v ly2) \<and>
     v_fits_tensor m m2 v_trans (ly_n_embd_v ly) (ly_n_embd_v ly2) (ly_v ly ! strm) (ly_v ly2 ! strm)"

text \<open>What the restored layer holds of the saved one.\<close>

definition k_kept :: "nat list \<Rightarrow> nat \<Rightarrow> kv_layer \<Rightarrow> kv_layer \<Rightarrow> bool" where
  "k_kept occ strm ly ly' \<longleftrightarrow> holds_pieces (tn_row (ly_k ly ! strm)) occ 0 (ly_k ly ! strm) 0 (ly_k ly' ! strm)"

fun v_kept_tensor :: "nat list \<Rightarrow> nat \<Rightarrow> nat \<Rightarrow> bool \<Rightarrow> nat \<Rightarrow> tensor option \<Rightarrow> tensor option \<Rightarrow> bool" where
  "v_kept_tensor occ m m2 v_trans E (Some v) (Some v') \<longleftrightarrow>
     (if v_trans then \<forall>j < E. holds_pieces (tn_el v) occ (j * m) v (j * m2) v' else holds_pieces (tn_row v) occ 0 v 0 v')"
| "v_kept_tensor occ m m2 v_trans E v v' \<longleftrightarrow> v = None \<and> v' = None"

definition v_kept :: "nat list \<Rightarrow> nat \<Rightarrow> nat \<Rightarrow> bool \<Rightarrow> nat \<Rightarrow> kv_layer \<Rightarrow> kv_layer \<Rightarrow> bool" where
  "v_kept occ m m2 v_trans strm ly ly' \<longleftrightarrow> v_kept_tensor occ m m2 v_trans (ly_n_embd_v ly) (ly_v ly ! strm) (ly_v ly' ! strm)"

text \<open>The ranges of \<open>m\<close> cells that enumerate \<open>occ\<close>.\<close>

definition ranges_of :: "nat \<Rightarrow> nat list \<Rightarrow> (nat \<times> nat) list \<Rightarrow> bool" where
  "ranges_of m occ ranges \<longleftrightarrow> range_cells ranges = occ \<and> (\<forall>(a, b) \<in> set ranges. a \<le> b \<and> b \<le> m)"

lemma write_rows_occ:
  assumes "ranges_of m occ ranges" "(m + off) * n \<le> length (tn_data t)"
  shows "write_rows off ranges n t = Some (concat (map (\<lambda>i. chunk n (tn_data t) (i + off)) occ))"
proof -
  have "a \<le> b \<and> (b + off) * n \<le> length (tn_data t)" if "(a, b) \<in> set ranges" for a b
  proof -
    have ab: "a \<le> b" "b \<le> m"
      using assms(1) that by (auto simp: ranges_of_def)
    have "(b + off) * n \<le> (m + off) * n"
      using ab(2) by (intro mult_le_mono1) simp
    from order.trans [OF this assms(2)] show ?thesis
      using ab(1) by simp
  qed
  from write_rows_eq [OF this] show ?thesis
    using assms(1) by (simp add: ranges_of_def)
qed

lemma k_roundtrip:
  assumes fits: "k_fits m m2 strm ly ly2" and r: "ranges_of m occ ranges"
    and occ: "occ \<noteq> []" "\<And>i. i \<in> set occ \<Longrightarrow> i < m" "length occ \<le> m2"
  shows "\<exists>b. write_k strm ranges ly = Some b \<and> (\<forall>rest. \<exists>ly'.
    read_k strm (length occ) (slot_from_start strm (length occ)) ly2 (b @ rest) = Some (True, ly', rest) \<and>
    k_kept occ strm ly ly' \<and> ly_v ly' = ly_v ly2 \<and> ly_n_embd_v ly' = ly_n_embd_v ly2)"
proof -
  let ?k = "ly_k ly ! strm" and ?k2 = "ly_k ly2 ! strm" and ?n = "tn_row (ly_k ly ! strm)"
  have f: "strm < length (ly_k ly)" "strm < length (ly_k ly2)" "?n < 256 ^ 8" "same_shape ?k ?k2" "in_i32 (tn_type ?k)"
    "(m + 0) * ?n \<le> length (tn_data ?k)" "m2 * ?n \<le> length (tn_data ?k2)"
    using fits by (auto simp: k_fits_def tensor_fits_def)
  have room: "(length occ + 0) * ?n \<le> length (tn_data ?k2)"
    using order.trans [OF mult_le_mono1 [OF occ(3)] f(7)] by simp
  let ?rows = "concat (map (\<lambda>i. chunk ?n (tn_data ?k) (i + 0)) occ)"
  have w: "write_rows 0 ranges ?n ?k = Some ?rows"
    by (rule write_rows_occ [OF r f(6)])
  obtain k' where k': "\<And>rest. scatter (slot_from_start strm (length occ)) (length occ) 0 ?n ?k2 (?rows @ rest) = Some (k', rest)"
    "holds_pieces ?n occ 0 ?k 0 k'"
    using scatter_pieces [OF occ(1,2) f(6) room, of strm] by blast
  have "write_k strm ranges ly = Some (enc_i32 (tn_type ?k) @ enc_uint 8 ?n @ ?rows)"
    unfolding write_k_def Let_def w using f(1) by simp
  moreover have "read_k strm (length occ) (slot_from_start strm (length occ)) ly2 ((enc_i32 (tn_type ?k) @ enc_uint 8 ?n @ ?rows) @ rest) =
      Some (True, ly2\<lparr>ly_k := (ly_k ly2)[strm := k']\<rparr>, rest)" for rest
    using f(2-5) k'(1) int32.dec_enc [OF f(5)] uint.dec_enc [OF f(3)] by (simp add: read_k_def same_shape_def Let_def)
  ultimately show ?thesis
    using k'(2) f(2) by (intro exI [of _ "enc_i32 (tn_type ?k) @ enc_uint 8 ?n @ ?rows"]) (simp add: k_kept_def)
qed

lemma v_roundtrip:
  assumes fits: "v_fits m m2 v_trans strm ly ly2" and r: "ranges_of m occ ranges"
    and occ: "occ \<noteq> []" "\<And>i. i \<in> set occ \<Longrightarrow> i < m" "length occ \<le> m2"
  shows "\<exists>b. write_v v_trans m strm ranges ly = Some b \<and> (\<forall>rest. \<exists>ly'.
    read_v v_trans m2 strm (length occ) (slot_from_start strm (length occ)) ly2 (b @ rest) = Some (True, ly', rest) \<and>
    v_kept occ m m2 v_trans strm ly ly' \<and> ly_k ly' = ly_k ly2)"
proof (cases "ly_v ly ! strm")
  case None
  then have "ly_v ly2 ! strm = None" "strm < length (ly_v ly)" "strm < length (ly_v ly2)"
    using fits by (auto simp: v_fits_def)
  then show ?thesis
    using None by (auto simp: write_v_def read_v_def v_kept_def)
next
  case (Some v)
  then obtain v2 where v2: "ly_v ly2 ! strm = Some v2"
    using fits by (cases "ly_v ly2 ! strm") (auto simp: v_fits_def)
  have st: "strm < length (ly_v ly)" "strm < length (ly_v ly2)"
    using fits by (auto simp: v_fits_def)
  show ?thesis
  proof (cases v_trans)
    case False
    let ?n = "tn_row v"
    have f: "?n < 256 ^ 8" "same_shape v v2" "in_i32 (tn_type v)" "(m + 0) * ?n \<le> length (tn_data v)" "m2 * ?n \<le> length (tn_data v2)"
      using fits Some v2 False by (auto simp: v_fits_def tensor_fits_def)
    have room: "(length occ + 0) * ?n \<le> length (tn_data v2)"
      using order.trans [OF mult_le_mono1 [OF occ(3)] f(5)] by simp
    let ?rows = "concat (map (\<lambda>i. chunk ?n (tn_data v) (i + 0)) occ)"
    obtain v' where v': "\<And>rest. scatter (slot_from_start strm (length occ)) (length occ) 0 ?n v2 (?rows @ rest) = Some (v', rest)"
      "holds_pieces ?n occ 0 v 0 v'"
      using scatter_pieces [OF occ(1,2) f(4) room, of strm] by blast
    let ?b = "enc_i32 (tn_type v) @ enc_uint 8 ?n @ ?rows" and ?ly = "ly2\<lparr>ly_v := (ly_v ly2)[strm := Some v']\<rparr>"
    have "write_v v_trans m strm ranges ly = Some ?b"
      unfolding write_v_def using Some st False write_rows_occ [OF r f(4)] by simp
    moreover have "read_v v_trans m2 strm (length occ) (slot_from_start strm (length occ)) ly2 (?b @ rest) = Some (True, ?ly, rest)" for rest
      using st v2 f(2) False v'(1) int32.dec_enc [OF f(3)] uint.dec_enc [OF f(1)] by (simp add: read_v_def same_shape_def)
    ultimately show ?thesis
      using v'(2) st False Some by (intro exI [of _ ?b]) (simp add: v_kept_def)
  next
    case True
    let ?n = "tn_el v" and ?E = "ly_n_embd_v ly"
    have f: "?n < 256 ^ 4" "?E < 256 ^ 4" "same_shape v v2" "in_i32 (tn_type v)" "ly_n_embd_v ly2 = ?E"
      "m * ?E * ?n \<le> length (tn_data v)" "m2 * ?E * ?n \<le> length (tn_data v2)"
      using fits Some v2 True by (auto simp: v_fits_def tensor_fits_def)
    let ?rows = "concat (map (\<lambda>j. concat (map (\<lambda>i. chunk ?n (tn_data v) (i + j * m)) occ)) [0..<?E])"
    let ?b = "enc_i32 (tn_type v) @ enc_uint 4 ?n @ enc_uint 4 ?E @ ?rows"
    have "write_rows (j * m) ranges ?n v = Some (concat (map (\<lambda>i. chunk ?n (tn_data v) (i + j * m)) occ))" if "j < ?E" for j
    proof (rule write_rows_occ [OF r])
      have "m + j * m \<le> m * ?E"
        using mult_le_mono2 [of "Suc j" ?E m] that by (simp add: mult.commute)
      from order.trans [OF mult_le_mono1 [OF this] f(6)] show "(m + j * m) * ?n \<le> length (tn_data v)" .
    qed
    then have "write_all (\<lambda>j. write_rows (j * m) ranges ?n v) [0..<?E] = Some ?rows"
      by (intro write_all_eq) auto
    then have w: "write_v v_trans m strm ranges ly = Some ?b"
      unfolding write_v_def using Some st True by simp
    let ?scat = "\<lambda>rest. mfold (\<lambda>j (t, b). scatter (slot_from_start strm (length occ)) (length occ) (j * m2) ?n t b) [0..<?E] (v2, ?rows @ rest)"
    let ?read = "\<lambda>rest. read_v v_trans m2 strm (length occ) (slot_from_start strm (length occ)) ly2 (?b @ rest)"
    have "\<exists>ly'. ?read rest = Some (True, ly', rest) \<and> v_kept occ m m2 v_trans strm ly ly' \<and> ly_k ly' = ly_k ly2" for rest
    proof -
      obtain v' where v': "?scat rest = Some (v', rest)" "\<forall>j < ?E. holds_pieces ?n occ (j * m) v (j * m2) v'"
        using scatter_elements [OF occ f(6,7), of strm] by blast
      have "?read rest = Some (True, ly2\<lparr>ly_v := (ly_v ly2)[strm := Some v']\<rparr>, rest)"
        using st v2 f(3,5) True v'(1) int32.dec_enc [OF f(4)] uint.dec_enc [OF f(1)] uint.dec_enc [OF f(2)]
        by (simp add: read_v_def same_shape_def)
      then show ?thesis
        using v'(2) st True Some by (simp add: v_kept_def)
    qed
    then show ?thesis
      using w by blast
  qed
qed

text \<open>The loop over the layers.\<close>

lemma layers_roundtrip:
  assumes "length lys2 = length lys"
    and "\<And>i. i < length lys \<Longrightarrow> \<exists>b. f (lys ! i) = Some b \<and>
      (\<forall>rest. \<exists>ly'. g (lys2 ! i) (b @ rest) = Some (True, ly', rest) \<and> R (lys ! i) (lys2 ! i) ly')"
  shows "\<exists>b. write_all f lys = Some b \<and> (\<forall>rest. \<exists>lys'. read_layers g lys2 (b @ rest) = Some (True, lys', rest) \<and>
    length lys' = length lys \<and> (\<forall>i < length lys. R (lys ! i) (lys2 ! i) (lys' ! i)))"
proof -
  have "\<exists>h. \<forall>ly \<in> set lys. f ly = Some (h ly)"
    using assms(2) by (intro bchoice ballI) (metis in_set_conv_nth)
  then obtain h where h: "\<And>ly. ly \<in> set lys \<Longrightarrow> f ly = Some (h ly)"
    by blast
  have "\<exists>lys'. read_layers g lys2 (concat (map h lys) @ rest) = Some (True, lys', rest) \<and>
    length lys' = length lys \<and> (\<forall>i < length lys. R (lys ! i) (lys2 ! i) (lys' ! i))" for rest
    using assms h
  proof (induction lys2 lys rule: list_induct2)
    case (Cons ly2 lys2 ly lys)
    have "\<exists>lys'. read_layers g lys2 (concat (map h lys) @ rest) = Some (True, lys', rest) \<and>
        length lys' = length lys \<and> (\<forall>i < length lys. R (lys ! i) (lys2 ! i) (lys' ! i))"
      using Cons.prems(1) [of "Suc _"] Cons.prems(2) by (intro Cons.IH) auto
    then obtain lys' where "read_layers g lys2 (concat (map h lys) @ rest) = Some (True, lys', rest)"
      "length lys' = length lys" "\<forall>i < length lys. R (lys ! i) (lys2 ! i) (lys' ! i)"
      by blast
    moreover obtain ly' where "g ly2 (h ly @ concat (map h lys) @ rest) = Some (True, ly', concat (map h lys) @ rest)" "R ly ly2 ly'"
      using Cons.prems(1) [of 0] Cons.prems(2) [of ly] by fastforce
    ultimately show ?case
      by (intro exI [of _ "ly' # lys'"]) (auto simp: less_Suc_eq_0_disj)
  qed simp
  then show ?thesis
    using write_all_eq [of lys f h] h by blast
qed

definition layers_fit :: "nat \<Rightarrow> nat \<Rightarrow> bool \<Rightarrow> nat \<Rightarrow> kv_layer list \<Rightarrow> kv_layer list \<Rightarrow> bool" where
  "layers_fit m m2 v_trans strm lys lys2 \<longleftrightarrow> length lys2 = length lys \<and> length lys < 256 ^ 4 \<and>
     (\<forall>i < length lys. k_fits m m2 strm (lys ! i) (lys2 ! i) \<and> v_fits m m2 v_trans strm (lys ! i) (lys2 ! i))"

definition layers_kept :: "nat list \<Rightarrow> nat \<Rightarrow> nat \<Rightarrow> bool \<Rightarrow> nat \<Rightarrow> kv_layer list \<Rightarrow> kv_layer list \<Rightarrow> bool" where
  "layers_kept occ m m2 v_trans strm lys lys' \<longleftrightarrow> length lys' = length lys \<and>
     (\<forall>i < length lys. k_kept occ strm (lys ! i) (lys' ! i) \<and> v_kept occ m m2 v_trans strm (lys ! i) (lys' ! i))"

lemma data_roundtrip:
  assumes fit: "layers_fit m m2 (kv_v_trans kv) strm lys lys2" and r: "ranges_of m occ ranges"
    and occ: "occ \<noteq> []" "\<And>i. i \<in> set occ \<Longrightarrow> i < m" "length occ \<le> m2"
    and kv: "strm < length (kv_cells kv)" "cells_size (kv_cells kv ! strm) = m" "\<not> pg_enabled (kv_pool kv)"
    and kv2: "strm < length (kv_cells kv2)" "cells_size (kv_cells kv2 ! strm) = m2" "\<not> pg_enabled (kv_pool kv2)"
      "kv_v_trans kv2 = kv_v_trans kv"
  shows "\<exists>b. state_write_data kv lys strm ranges = Some b \<and> (\<forall>rest. \<exists>lys'.
    state_read_data strm (length occ) (slot_from_start strm (length occ)) (kv2, lys2) (b @ rest) = Some (True, (kv2, lys'), rest) \<and>
    layers_kept occ m m2 (kv_v_trans kv) strm lys lys')"
proof -
  let ?tr = "kv_v_trans kv" and ?rk = "read_k strm (length occ) (slot_from_start strm (length occ))"
  let ?rv = "read_v ?tr m2 strm (length occ) (slot_from_start strm (length occ))"
  have len: "length lys2 = length lys" "length lys < 256 ^ 4"
    using fit by (simp_all add: layers_fit_def)
  have "\<exists>b. write_all (write_k strm ranges) lys = Some b \<and> (\<forall>rest. \<exists>lys'. read_layers ?rk lys2 (b @ rest) = Some (True, lys', rest) \<and>
    length lys' = length lys \<and> (\<forall>i < length lys. k_kept occ strm (lys ! i) (lys' ! i) \<and> ly_v (lys' ! i) = ly_v (lys2 ! i) \<and>
      ly_n_embd_v (lys' ! i) = ly_n_embd_v (lys2 ! i)))"
    using fit k_roundtrip [OF _ r occ] by (intro layers_roundtrip [OF len(1)]) (auto simp: layers_fit_def)
  then obtain bk where bk: "write_all (write_k strm ranges) lys = Some bk"
    "\<And>rest. \<exists>lys'. read_layers ?rk lys2 (bk @ rest) = Some (True, lys', rest) \<and> length lys' = length lys \<and>
      (\<forall>i < length lys. k_kept occ strm (lys ! i) (lys' ! i) \<and> ly_v (lys' ! i) = ly_v (lys2 ! i) \<and>
        ly_n_embd_v (lys' ! i) = ly_n_embd_v (lys2 ! i))"
    by blast
  have V: "\<exists>b. write_all (write_v ?tr m strm ranges) lys = Some b \<and> (\<forall>rest. \<exists>lys'. read_layers ?rv lys1 (b @ rest) = Some (True, lys', rest) \<and>
    length lys' = length lys \<and> (\<forall>i < length lys. v_kept occ m m2 ?tr strm (lys ! i) (lys' ! i) \<and> ly_k (lys' ! i) = ly_k (lys1 ! i)))"
    if "length lys1 = length lys" "\<forall>i < length lys. ly_v (lys1 ! i) = ly_v (lys2 ! i) \<and> ly_n_embd_v (lys1 ! i) = ly_n_embd_v (lys2 ! i)" for lys1
    using fit that v_roundtrip [OF _ r occ] by (intro layers_roundtrip [OF that(1)]) (auto simp: layers_fit_def v_fits_def)
  from V [OF len(1)] obtain bv where bv: "write_all (write_v ?tr m strm ranges) lys = Some bv"
    by auto
  let ?b = "enc_uint 4 (if ?tr then 1 else 0) @ enc_uint 4 (length lys) @ bk @ bv"
  have "state_write_data kv lys strm ranges = Some ?b"
    unfolding state_write_data_def using kv bk(1) bv by simp
  moreover have "\<exists>lys'. state_read_data strm (length occ) (slot_from_start strm (length occ)) (kv2, lys2) (?b @ rest) = Some (True, (kv2, lys'), rest) \<and>
      layers_kept occ m m2 ?tr strm lys lys'" for rest
  proof -
    obtain lys1 where l1: "read_layers ?rk lys2 (bk @ bv @ rest) = Some (True, lys1, bv @ rest)" "length lys1 = length lys"
      "\<forall>i < length lys. k_kept occ strm (lys ! i) (lys1 ! i)"
      "\<forall>i < length lys. ly_v (lys1 ! i) = ly_v (lys2 ! i) \<and> ly_n_embd_v (lys1 ! i) = ly_n_embd_v (lys2 ! i)"
      using bk(2) [of "bv @ rest"] by auto
    obtain lys' where l2: "read_layers ?rv lys1 (bv @ rest) = Some (True, lys', rest)" "length lys' = length lys"
      "\<forall>i < length lys. v_kept occ m m2 ?tr strm (lys ! i) (lys' ! i) \<and> ly_k (lys' ! i) = ly_k (lys1 ! i)"
      using V [OF l1(2,4)] bv by auto
    have tr: "dec_uint 4 (enc_uint 4 (if ?tr then 1 else 0) @ r) = Some (if ?tr then 1 else 0, r)" for r
      by (rule uint.dec_enc) simp
    have "state_read_data strm (length occ) (slot_from_start strm (length occ)) (kv2, lys2) (?b @ rest) = Some (True, (kv2, lys'), rest)"
      using kv2 len(1) occ(3) l1(1) l2(1) tr uint.dec_enc [OF len(2)] by (simp add: state_read_data_def)
    moreover have "layers_kept occ m m2 ?tr strm lys lys'"
      using l1(3) l2(2,3) by (simp add: layers_kept_def k_kept_def)
    ultimately show ?thesis
      by blast
  qed
  ultimately show ?thesis
    by blast
qed

section \<open>The whole cache survives\<close>

definition occupied :: "llama_kv_cells \<Rightarrow> nat list" where
  "occupied c = filter (\<lambda>i. kc_pos c ! i \<noteq> - 1) [0..<cells_size c]"

lemma occupied_less: "i \<in> set (occupied c) \<Longrightarrow> i < cells_size c \<and> kc_pos c ! i \<noteq> - 1"
  by (simp add: occupied_def)

lemma cell_ranges_occupied:
  assumes "kv_cells_inv c"
  obtains ranges where "cell_ranges c (- 1) = Some (length (occupied c), ranges)" "ranges_of (cells_size c) (occupied c) ranges"
proof -
  have sel: "cell_selected c (- 1) i = Some (kc_pos c ! i \<noteq> - 1)" if "i < cells_size c" for i
    using that cells_wf_cell [OF cells_inv_wf [OF assms] that] by (auto simp: cell_selected_def cells_is_empty_def)
  show thesis
    by (rule cell_ranges_ok [of c "- 1" "\<lambda>i. kc_pos c ! i \<noteq> - 1"]) (use sel that in \<open>auto simp: occupied_def ranges_of_def\<close>)
qed

lemma layers_fit_clear:
  assumes "layers_fit m m2 v_trans strm lys lys2"
  shows "layers_fit m m2 v_trans strm lys (map clear_layer lys2)"
proof -
  have shape: "tensor_fits m m2 p n t (zero_tensor t2) = tensor_fits m m2 p n t t2" for p n t t2
    by (simp add: tensor_fits_def same_shape_def zero_tensor_def)
  have v: "v_fits_tensor m m2 v_trans E E2 v (map_option zero_tensor v2) = v_fits_tensor m m2 v_trans E E2 v v2" for E E2 v v2
    by (cases v; cases v2) (simp_all add: shape)
  show ?thesis
    using assms by (simp add: layers_fit_def k_fits_def v_fits_def clear_layer_def shape v)
qed

lemma meta_all_roundtrip:
  assumes inv: "kv_cache_inv m kv" "strm < kv_n_stream kv" and inv2: "kv_cache_inv m2 kv2" "strm < kv_n_stream kv2"
    and cfg: "kv_n_pos_per_embd kv2 = kv_n_pos_per_embd kv" "kv_n_seq_max kv2 = kv_n_seq_max kv" "kv_n_seq_max kv \<le> LLAMA_MAX_SEQ"
    and r: "ranges_of m (occupied (kv_cells kv ! strm)) ranges" and room: "length (occupied (kv_cells kv ! strm)) \<le> m2"
    and sav: "\<forall>i \<in> set (occupied (kv_cells kv ! strm)). cell_savable (kv_n_pos_per_embd kv) (kv_n_seq_max kv) (kv_cells kv ! strm) i"
  shows "\<exists>b. state_write_meta kv strm ranges (- 1) = Some b \<and> (\<forall>rest. \<exists>c. let kv' = (kv_clear True kv2)\<lparr>kv_cells := (map cells_reset (kv_cells kv2))[strm := c]\<rparr> in
    state_read_meta strm (length (occupied (kv_cells kv ! strm))) (- 1) (kv2, lys2) (b @ rest) =
      Some (Some (slot_from_start strm (length (occupied (kv_cells kv ! strm)))), (kv', map clear_layer lys2), rest) \<and>
    kv_cache_inv m2 kv' \<and> cells_size c = m2 \<and>
    cells_view c = map (saved_cell (kv_cells kv ! strm)) (occupied (kv_cells kv ! strm)) @ replicate (m2 - length (occupied (kv_cells kv ! strm))) None)"
proof -
  let ?c = "kv_cells kv ! strm" and ?np = "kv_n_pos_per_embd kv" and ?ns = "kv_n_seq_max kv"
  let ?occ = "occupied ?c" and ?c2 = "cells_reset (kv_cells kv2 ! strm)"
  note c = kv_inv_cells [OF inv] and c2 = kv_inv_cells [OF inv2]
  have "write_cell kv ?c (- 1) i = Some (cell_bytes ?np ?ns ?c i)" if "i \<in> set ?occ" for i
    using occupied_less [OF that] cfg(3) by (intro write_cell_eq) auto
  then have w: "state_write_meta kv strm ranges (- 1) = Some (concat (map (cell_bytes ?np ?ns ?c) ?occ))"
    unfolding state_write_meta_def using c(4) r write_all_eq [of ?occ "write_cell kv ?c (- 1)"] by (simp add: ranges_of_def)
  have size2: "cells_size ?c2 = m2"
    using c2(3) length_cells_view [of ?c2] by (simp add: cells_view_reset)
  have empty: "cell_view ?c2 j = None" if "j < m2" for j
  proof -
    have "cells_view ?c2 ! j = None"
      using that c2(3) by (simp add: cells_view_reset)
    then show ?thesis
      using that size2 by simp
  qed
  have "\<exists>c. state_read_meta strm (length ?occ) (- 1) (kv2, lys2) (concat (map (cell_bytes ?np ?ns ?c) ?occ) @ rest) =
      Some (Some (slot_from_start strm (length ?occ)), ((kv_clear True kv2)\<lparr>kv_cells := (map cells_reset (kv_cells kv2))[strm := c]\<rparr>, map clear_layer lys2), rest) \<and>
      kv_cache_inv m2 ((kv_clear True kv2)\<lparr>kv_cells := (map cells_reset (kv_cells kv2))[strm := c]\<rparr>) \<and> cells_size c = m2 \<and>
      cells_view c = map (saved_cell ?c) ?occ @ replicate (m2 - length ?occ) None" for rest
  proof -
    have "\<exists>c'. read_cells ?np ?ns [0..<length ?occ] ?c2 (concat (map (cell_bytes ?np ?ns ?c) ?occ) @ rest) = Some (True, c', rest) \<and>
      kv_cells_inv c' \<and> cells_view c' = fold (\<lambda>(j, i) vs. vs[j := saved_cell ?c i]) (zip [0..<length ?occ] ?occ) (cells_view ?c2)"
      using room size2 empty sav by (intro read_cells_ok [OF c(1) cfg(3)]) (auto simp: cells_reset_inv)
    then obtain c' where c': "read_cells ?np ?ns [0..<length ?occ] ?c2 (concat (map (cell_bytes ?np ?ns ?c) ?occ) @ rest) = Some (True, c', rest)"
      "kv_cells_inv c'" "cells_view c' = map (saved_cell ?c) ?occ @ replicate (m2 - length ?occ) None"
      using fold_fill [of ?occ "cells_view ?c2" "saved_cell ?c"] room size2 c2(3) by (auto simp: cells_view_reset)
    have size: "cells_size c' = m2"
      using arg_cong [OF c'(3), of length] room by simp
    have "cell_seqs x \<noteq> {}" if "Some x \<in> set (cells_view c')" for x
    proof -
      have "Some x \<in> saved_cell ?c ` set ?occ"
        using that unfolding c'(3) by auto
      then obtain i where i: "i \<in> set ?occ" "Some x = saved_cell ?c i"
        by blast
      have "Some (Cell (kc_pos ?c ! i) (kc_seq ?c ! i) (kc_shift ?c ! i)) \<in> set (cells_view ?c)"
        using occupied_less [OF i(1)] by (auto simp: cells_view_def cell_view_def intro!: image_eqI [of _ _ i])
      then show ?thesis
        using c(2) i(2) by (auto simp: cells_live_def saved_cell_def)
    qed
    then have "kv_cache_inv m2 ((kv_clear True kv2)\<lparr>kv_cells := (kv_cells (kv_clear True kv2))[strm := c'], kv_heads := (kv_heads (kv_clear True kv2))[strm := 0]\<rparr>)"
      using size c'(2) by (intro kv_inv_store kv_clear_inv [OF inv2(1)]) (auto simp: cells_live_def)
    moreover have heads: "(map (\<lambda>_. 0) (kv_heads kv2))[strm := 0] = map (\<lambda>_. 0 :: nat) (kv_heads kv2)"
      using c2(5) by (simp add: list_update_same_conv)
    ultimately have inv': "kv_cache_inv m2 ((kv_clear True kv2)\<lparr>kv_cells := (map cells_reset (kv_cells kv2))[strm := c']\<rparr>)"
      by (simp add: kv_clear_def kv_cache_inv_def)
    show ?thesis
      using c'(1,3) size room c2 inv' cfg heads
      by (intro exI [of _ c']) (simp add: state_read_meta_def read_meta_all_def clear_all_def kv_clear_def slot_from_start_def)
  qed
  then show ?thesis
    unfolding Let_def using w by blast
qed

text \<open>What a saved cache needs of the cache it is restored to.\<close>

definition cache_fits :: "nat \<Rightarrow> nat \<Rightarrow> kv_cache \<Rightarrow> kv_layer list \<Rightarrow> kv_cache \<Rightarrow> kv_layer list \<Rightarrow> bool" where
  "cache_fits m m2 kv lys kv2 lys2 \<longleftrightarrow>
     kv_n_stream kv = 1 \<and> kv_n_stream kv2 = 1 \<and> \<not> pg_enabled (kv_pool kv) \<and> \<not> pg_enabled (kv_pool kv2) \<and>
     kv_v_trans kv2 = kv_v_trans kv \<and> kv_n_pos_per_embd kv2 = kv_n_pos_per_embd kv \<and>
     kv_n_seq_max kv2 = kv_n_seq_max kv \<and> kv_n_seq_max kv \<le> LLAMA_MAX_SEQ \<and>
     length (occupied (kv_cells kv ! 0)) \<le> m2 \<and> m2 < 256 ^ 4 \<and>
     (\<forall>i \<in> set (occupied (kv_cells kv ! 0)). cell_savable (kv_n_pos_per_embd kv) (kv_n_seq_max kv) (kv_cells kv ! 0) i) \<and>
     layers_fit m m2 (kv_v_trans kv) 0 lys lys2"

lemma cache_roundtrip:
  assumes "kv_cache_inv m kv" "kv_cache_inv m2 kv2" "cache_fits m m2 kv lys kv2 lys2"
  shows "\<exists>bs kv' lys'. state_write kv lys (- 1) = Some bs \<and> state_read (- 1) (kv2, lys2) (bs @ rest) = Some (True, (kv', lys'), rest) \<and>
    kv_cache_inv m2 kv' \<and> kv_n_stream kv' = 1 \<and>
    (let occ = occupied (kv_cells kv ! 0) in
     if occ = [] then kv' = kv2 \<and> lys' = lys2
     else cells_view (kv_cells kv' ! 0) = map (saved_cell (kv_cells kv ! 0)) occ @ replicate (m2 - length occ) None \<and>
       layers_kept occ m m2 (kv_v_trans kv) 0 lys lys')"
proof -
  let ?c = "kv_cells kv ! 0"
  let ?occ = "occupied ?c"
  note f = assms(3) [unfolded cache_fits_def]
  have s0: "0 < kv_n_stream kv" "0 < kv_n_stream kv2"
    using f by simp_all
  note c = kv_inv_cells [OF assms(1) s0(1)] and c2 = kv_inv_cells [OF assms(2) s0(2)]
  obtain ranges where r: "cell_ranges ?c (- 1) = Some (length ?occ, ranges)" "ranges_of m ?occ ranges"
    using cell_ranges_occupied [OF c(1)] c(3) by auto
  have cnt: "dec_uint 4 (enc_uint 4 (length ?occ) @ more) = Some (length ?occ, more)" for more
    using f by (intro uint.dec_enc) simp
  have one: "dec_uint 4 (enc_uint 4 1 @ more) = Some (1, more)" for more
    by (intro uint.dec_enc) simp
  show ?thesis
  proof (cases "?occ = []")
    case True
    have "state_write kv lys (- 1) = Some (enc_uint 4 1 @ enc_uint 4 0)"
      using f True r(1) c(4) by (simp add: state_write_def write_all_def write_stream_def)
    moreover have "state_read (- 1) (kv2, lys2) ((enc_uint 4 1 @ enc_uint 4 0) @ rest) = Some (True, (kv2, lys2), rest)"
      using f True one cnt by (simp add: state_read_def)
    ultimately show ?thesis
      using True assms(2) f by simp
  next
    case False
    obtain bm where bm: "state_write_meta kv 0 ranges (- 1) = Some bm"
      "\<And>rest. \<exists>c. let kv' = (kv_clear True kv2)\<lparr>kv_cells := (map cells_reset (kv_cells kv2))[0 := c]\<rparr> in
        state_read_meta 0 (length ?occ) (- 1) (kv2, lys2) (bm @ rest) = Some (Some (slot_from_start 0 (length ?occ)), (kv', map clear_layer lys2), rest) \<and>
        kv_cache_inv m2 kv' \<and> cells_size c = m2 \<and> cells_view c = map (saved_cell ?c) ?occ @ replicate (m2 - length ?occ) None"
      using meta_all_roundtrip [OF assms(1) s0(1) assms(2) s0(2) _ _ _ r(2), of lys2] f by auto
    have D: "\<exists>b. state_write_data kv lys 0 ranges = Some b \<and> (\<forall>rest. \<exists>lys'.
      state_read_data 0 (length ?occ) (slot_from_start 0 (length ?occ)) (kv', map clear_layer lys2) (b @ rest) = Some (True, (kv', lys'), rest) \<and>
      layers_kept ?occ m m2 (kv_v_trans kv) 0 lys lys')"
      if "kv' = (kv_clear True kv2)\<lparr>kv_cells := (map cells_reset (kv_cells kv2))[0 := c]\<rparr>" "cells_size c = m2" for kv' c
      using that f c c2 False occupied_less [of _ ?c]
      by (intro data_roundtrip [OF layers_fit_clear r(2)]) (auto simp: kv_clear_def pg_clear_def)
    obtain bd where bd: "state_write_data kv lys 0 ranges = Some bd"
      using D [OF refl c2(3)] by blast
    let ?bs = "enc_uint 4 1 @ enc_uint 4 (length ?occ) @ bm @ bd"
    have w: "state_write kv lys (- 1) = Some ?bs"
      using f False r(1) c(4) bm(1) bd by (simp add: state_write_def write_all_def write_stream_def)
    obtain c' kv' where kv': "kv' = (kv_clear True kv2)\<lparr>kv_cells := (map cells_reset (kv_cells kv2))[0 := c']\<rparr>"
      "state_read_meta 0 (length ?occ) (- 1) (kv2, lys2) (bm @ bd @ rest) = Some (Some (slot_from_start 0 (length ?occ)), (kv', map clear_layer lys2), bd @ rest)"
      "kv_cache_inv m2 kv'" "cells_size c' = m2" "cells_view c' = map (saved_cell ?c) ?occ @ replicate (m2 - length ?occ) None"
      using bm(2) [of "bd @ rest"] unfolding Let_def by blast
    obtain lys' where l: "state_read_data 0 (length ?occ) (slot_from_start 0 (length ?occ)) (kv', map clear_layer lys2) (bd @ rest) = Some (True, (kv', lys'), rest)"
      "layers_kept ?occ m m2 (kv_v_trans kv) 0 lys lys'"
      using D [OF kv'(1,4)] bd by auto
    have "state_read (- 1) (kv2, lys2) (?bs @ rest) = Some (True, (kv', lys'), rest)"
      using f False one cnt kv'(2) l(1) by (simp add: state_read_def)
    moreover have "kv_cells kv' ! 0 = c'" "kv_n_stream kv' = 1"
      using kv'(1) c2(4) f by (simp_all add: kv_clear_def)
    ultimately show ?thesis
      using w kv'(3,5) l(2) False by (intro exI [of _ ?bs] exI [of _ kv'] exI [of _ lys']) simp
  qed
qed

text \<open>C4. The state of a whole cache with one stream, written by \<open>state_write\<close>, is accepted by \<open>state_read\<close> of any
  cache with the same configuration and enough cells, whatever that cache held before and whatever follows in the
  stream. The cells in use arrive in their order from cell 0 on with position and sequences and no pending shift, all
  other cells are empty, every layer holds the K rows and the V rows (or, transposed, V elements) of these cells, and
  the cache satisfies its invariant. A state with no cells in use leaves the target as it was.\<close>

theorem state_roundtrip:
  assumes "kv_cache_inv m kv" "kv_cache_inv m2 kv2" "cache_fits m m2 kv lys kv2 lys2"
  shows "\<exists>bs kv' lys'. state_write kv lys (- 1) = Some bs \<and> state_read (- 1) (kv2, lys2) (bs @ rest) = Some (True, (kv', lys'), rest) \<and>
    kv_cache_inv m2 kv' \<and>
    (let occ = occupied (kv_cells kv ! 0) in
     if occ = [] then kv' = kv2 \<and> lys' = lys2
     else cells_view (kv_cells kv' ! 0) = map (saved_cell (kv_cells kv ! 0)) occ @ replicate (m2 - length occ) None \<and>
       layers_kept occ m m2 (kv_v_trans kv) 0 lys lys')"
  using cache_roundtrip [OF assms, of rest] by blast

text \<open>A cache with position 5 of sequence 0 in cell 1, and one layer with one-byte K rows and a transposed V tensor
  of two elements.\<close>

definition demo_saved_cells :: llama_kv_cells where
  "demo_saved_cells = the (do { c \<leftarrow> cells_pos_set 1 5 (cells_resize 4 cells_new); cells_seq_add 1 0 c })"

definition demo_unified :: "kv_cache" where
  "demo_unified = the (kv_new True 4 1 1 0 SWA_NONE True 1 False False False False)"

definition demo_layer :: "nat \<Rightarrow> kv_layer" where
  "demo_layer b = \<lparr>ly_n_embd_v = 2, ly_k = [\<lparr>tn_type = 1, tn_row = 1, tn_el = 1, tn_data = [b, b + 1, b + 2, b + 3]\<rparr>],
     ly_v = [Some \<lparr>tn_type = 1, tn_row = 2, tn_el = 1, tn_data = [b, b, b, b, b + 1, b + 2, b + 3, b + 4]\<rparr>]\<rparr>"

abbreviation demo_saved :: kv_cache where
  "demo_saved \<equiv> demo_unified\<lparr>kv_cells := (kv_cells demo_unified)[0 := demo_saved_cells], kv_heads := (kv_heads demo_unified)[0 := 0]\<rparr>"

lemma demo_unified_ok: "kv_cache_inv 4 demo_unified"
proof -
  have "kv_new True 4 1 1 0 SWA_NONE True 1 False False False False = Some demo_unified"
    by (simp add: demo_unified_def kv_new_def Let_def LLAMA_MAX_SEQ_def)
  from kv_new_inv [OF this] show ?thesis
    by simp
qed

lemma demo_saved_ok: "kv_cache_inv 4 demo_saved"
proof -
  let ?c = "cells_resize 4 cells_new"
  have v: "cells_view ?c = replicate 4 None"
    by (simp add: cells_view_resize)
  have n: "cells_size ?c = 4"
    using arg_cong [OF v, of length] by simp
  have e: "cell_view ?c 1 = None"
    using arg_cong [OF v, of "\<lambda>vs. vs ! 1"] n by simp
  obtain c1 where c1: "cells_pos_set 1 5 ?c = Some c1" "kv_cells_inv c1" "cells_view c1 = (cells_view ?c)[1 := Some (Cell 5 {} 0)]"
    by (rule cells_pos_set_spec [OF cells_resize_inv [of 4 cells_new] _ e, of 5]) (use n in \<open>auto simp: INT32_MAX_def\<close>)
  note u = view_updated [OF c1(3)]
  obtain c2 where c2: "cells_seq_add 1 0 c1 = Some c2" "kv_cells_inv c2" "cells_view c2 = (cells_view c1)[1 := Some (Cell 5 {0} 0)]"
    by (rule cells_seq_add_spec [OF c1(2), of 1 0]) (use n u in \<open>auto simp: LLAMA_MAX_SEQ_def\<close>)
  have "demo_saved_cells = c2"
    using c1(1) c2(1) by (simp add: demo_saved_cells_def)
  moreover have "cells_live c2"
    using c2(3) c1(3) v by (auto simp: cells_live_def numeral_eq_Suc)
  moreover have "cells_size c2 = 4"
    using arg_cong [OF c2(3), of length] arg_cong [OF c1(3), of length] n by simp
  ultimately show ?thesis
    using c2(2) by (intro kv_inv_store [OF demo_unified_ok]) auto
qed

lemma demo_saved_fits: "cache_fits 4 4 demo_saved [demo_layer 10] demo_unified [demo_layer 0]"
proof -
  have occ: "occupied (kv_cells demo_saved ! 0) = [1]"
    by code_simp
  have sav: "cell_savable 1 1 (kv_cells demo_saved ! 0) 1"
    by code_simp
  have lys: "layers_fit 4 4 True 0 [demo_layer 10] [demo_layer 0]"
    by (simp add: layers_fit_def k_fits_def v_fits_def tensor_fits_def same_shape_def demo_layer_def in_i32_def INT32_MIN_def INT32_MAX_def)
  have cfg: "kv_v_trans demo_unified" "kv_n_pos_per_embd demo_unified = 1" "kv_n_seq_max demo_unified = 1" "kv_n_stream demo_unified = 1"
    "\<not> pg_enabled (kv_pool demo_unified)"
    by (simp_all add: demo_unified_def kv_new_def Let_def LLAMA_MAX_SEQ_def pg_init_def)
  show ?thesis
    unfolding cache_fits_def occ using sav lys cfg by (simp add: LLAMA_MAX_SEQ_def)
qed

theorem state_roundtrip_witness:
  "\<exists>bs kv' lys'. state_write demo_saved [demo_layer 10] (- 1) = Some bs \<and>
     state_read (- 1) (demo_unified, [demo_layer 0]) (bs @ [9]) = Some (True, (kv', lys'), [9]) \<and>
     kv_cache_inv 4 kv' \<and> cells_view (kv_cells kv' ! 0) = [Some (Cell 5 {0} 0), None, None, None] \<and>
     layers_kept [1] 4 4 True 0 [demo_layer 10] lys'"
proof -
  have occ: "occupied (kv_cells demo_saved ! 0) = [1]"
    by code_simp
  have view: "map (saved_cell (kv_cells demo_saved ! 0)) [1] @ replicate (4 - length [1]) None = [Some (Cell 5 {0} 0), None, None, None]"
    by code_simp
  have tr: "kv_v_trans demo_saved"
    by code_simp
  show ?thesis
    using state_roundtrip [OF demo_saved_ok demo_unified_ok demo_saved_fits, of "[9]"] unfolding occ Let_def view using tr by simp
qed

section \<open>Several streams\<close>


end
