(* ===== verification/Recurrent.thy ===== *)
theory Recurrent
  imports KV_Slots State_IO
begin

text \<open>
  The memory of recurrent models (\<open>src/src/llama-memory-recurrent.cpp\<close>, \<open>llama-memory-recurrent.h\<close>): a cell holds the
  state of whole sequences, and the entry with the number of a sequence also holds the index of its cell, its tail. The
  sequence operations, the search for a slot that gathers the cells of a ubatch, the preparation of a batch, and the
  use of the states by the graph (\<open>build_rs\<close> in \<open>llama-graph.cpp\<close>).
\<close>

section \<open>Cells\<close>

record mem_cell =
  mc_pos :: int
  mc_src :: int
  mc_src0 :: int
  mc_tail :: int
  mc_seq :: "nat set"

definition mc_new :: mem_cell where
  "mc_new = \<lparr>mc_pos = - 1, mc_src = - 1, mc_src0 = - 1, mc_tail = - 1, mc_seq = {}\<rparr>"

definition has_seq_id :: "int \<Rightarrow> mem_cell \<Rightarrow> bool" where
  "has_seq_id q c \<longleftrightarrow> 0 \<le> q \<and> nat q \<in> mc_seq c"

definition mc_is_empty :: "mem_cell \<Rightarrow> bool" where
  "mc_is_empty c \<longleftrightarrow> mc_seq c = {}"

record memory_recurrent =
  rs_head :: nat
  rs_size :: nat
  rs_used :: nat
  rs_n :: nat
  rs_z :: int
  rs_cells :: "mem_cell list"

definition rs_new :: "nat \<Rightarrow> memory_recurrent" where
  "rs_new mem_size = \<lparr>rs_head = 0, rs_size = mem_size, rs_used = 0, rs_n = 0, rs_z = - 1, rs_cells = replicate mem_size mc_new\<rparr>"

text \<open>Access to a cell by a signed index, and its change.\<close>

definition rs_get :: "int \<Rightarrow> memory_recurrent \<Rightarrow> mem_cell option" where
  "rs_get i m = do { require (0 \<le> i \<and> nat i < length (rs_cells m)); Some (rs_cells m ! nat i) }"

definition rs_upd :: "nat \<Rightarrow> (mem_cell \<Rightarrow> mem_cell) \<Rightarrow> memory_recurrent \<Rightarrow> memory_recurrent" where
  "rs_upd i f m = m\<lparr>rs_cells := (rs_cells m)[i := f (rs_cells m ! i)]\<rparr>"

text \<open>The count of used cells is unsigned.\<close>

definition dec_used :: "memory_recurrent \<Rightarrow> memory_recurrent" where
  "dec_used m = m\<lparr>rs_used := (if rs_used m = 0 then 2 ^ 32 - 1 else rs_used m - 1)\<rparr>"

section \<open>Sequence operations\<close>

definition rs_clear :: "memory_recurrent \<Rightarrow> memory_recurrent" where
  "rs_clear m = m\<lparr>rs_cells := map (\<lambda>c. c\<lparr>mc_pos := - 1, mc_seq := {}, mc_src := - 1, mc_tail := - 1\<rparr>) (rs_cells m),
     rs_head := 0, rs_used := 0\<rparr>"

text \<open>A cell that lost its last sequence is freed; the first freed cell is remembered.\<close>

definition free_cell :: "nat \<Rightarrow> memory_recurrent \<times> nat \<Rightarrow> memory_recurrent \<times> nat" where
  "free_cell i = (\<lambda>(m, new_head).
     (rs_upd i (\<lambda>c. c\<lparr>mc_pos := - 1, mc_src := - 1\<rparr>) (if mc_pos (rs_cells m ! i) \<ge> 0 then dec_used m else m),
      if new_head = rs_size m then i else new_head))"

definition rm_cell :: "int \<Rightarrow> int \<Rightarrow> int \<Rightarrow> nat \<Rightarrow> memory_recurrent \<times> nat \<Rightarrow> memory_recurrent \<times> nat" where
  "rm_cell seq_id p0 p1 i = (\<lambda>(m, new_head).
     let c = rs_cells m ! i in
     if mc_pos c \<ge> p0 \<and> mc_pos c < p1 \<and> (seq_id < 0 \<or> has_seq_id seq_id c) then
       (let c' = (if seq_id < 0 then c\<lparr>mc_seq := {}\<rparr> else c\<lparr>mc_seq := mc_seq c - {nat seq_id}\<rparr>);
            m' = rs_upd i (\<lambda>_. c') m
        in if mc_is_empty c' then free_cell i (m', new_head) else (m', new_head))
     else (m, new_head))"

definition lower_rs_head :: "memory_recurrent \<times> nat \<Rightarrow> memory_recurrent" where
  "lower_rs_head = (\<lambda>(m, new_head). if new_head \<noteq> rs_size m \<and> new_head < rs_head m then m\<lparr>rs_head := new_head\<rparr> else m)"

definition rs_seq_rm :: "int \<Rightarrow> int \<Rightarrow> int \<Rightarrow> memory_recurrent \<Rightarrow> (bool \<times> memory_recurrent) option" where
  "rs_seq_rm seq_id p0' p1' m =
     (let p0 = pos_lo p0'; p1 = pos_hi p1';
          sweep = (\<lambda>m. Some (True, lower_rs_head (fold (rm_cell seq_id p0 p1) [0..<rs_size m] (m, rs_size m)))) in
      if seq_id \<ge> int (rs_size m) then Some (False, m)
      else if 0 \<le> seq_id then do {
        c \<leftarrow> rs_get seq_id m;
        if mc_tail c \<ge> 0 then do {
          cell \<leftarrow> rs_get (mc_tail c) m;
          if 0 < p0 \<and> p0 \<le> mc_pos cell \<and> p1 > mc_pos cell then Some (False, m)
          else sweep (if p0 \<le> mc_pos cell \<and> mc_pos cell < p1 then rs_upd (nat seq_id) (\<lambda>c. c\<lparr>mc_tail := - 1\<rparr>) m else m) }
        else sweep m }
      else if p0 \<noteq> p1 \<and> (p0 \<noteq> 0 \<or> p1 \<noteq> INT32_MAX) then Some (False, m)
      else sweep m)"

text \<open>Take a sequence out of its cell (in \<open>seq_cp\<close> and \<open>find_slot\<close>).\<close>

definition detach :: "nat \<Rightarrow> memory_recurrent \<Rightarrow> memory_recurrent option" where
  "detach q m = do {
     c \<leftarrow> rs_get (int q) m;
     if mc_tail c \<ge> 0 then do {
       _ \<leftarrow> rs_get (mc_tail c) m;
       let t = nat (mc_tail c);
       let m1 = rs_upd q (\<lambda>c. c\<lparr>mc_tail := - 1\<rparr>) (rs_upd t (\<lambda>c. c\<lparr>mc_seq := mc_seq c - {q}\<rparr>) m);
       Some (if mc_is_empty (rs_cells m1 ! t) then dec_used (rs_upd t (\<lambda>c. c\<lparr>mc_pos := - 1, mc_src := - 1\<rparr>) m1) else m1) }
     else Some m }"

definition rs_seq_cp :: "int \<Rightarrow> int \<Rightarrow> int \<Rightarrow> int \<Rightarrow> memory_recurrent \<Rightarrow> memory_recurrent option" where
  "rs_seq_cp seq_id_src seq_id_dst p0 p1 m =
     (if seq_id_src = seq_id_dst then Some m
      else if seq_id_dst mod 2 ^ 32 < int (rs_size m) \<and> seq_id_src mod 2 ^ 32 < int (rs_size m) then do {
        _ \<leftarrow> rs_get seq_id_src m;
        _ \<leftarrow> rs_get seq_id_dst m;
        m1 \<leftarrow> detach (nat seq_id_dst) m;
        s \<leftarrow> rs_get seq_id_src m1;
        if mc_tail s \<ge> 0 then do {
          _ \<leftarrow> rs_get (mc_tail s) m1;
          Some (rs_upd (nat seq_id_dst) (\<lambda>c. c\<lparr>mc_tail := mc_tail s\<rparr>)
                 (rs_upd (nat (mc_tail s)) (\<lambda>c. c\<lparr>mc_seq := insert (nat seq_id_dst) (mc_seq c)\<rparr>) m1)) }
        else Some m1 }
      else Some m)"

definition keep_cell :: "int \<Rightarrow> nat \<Rightarrow> memory_recurrent \<times> nat \<Rightarrow> memory_recurrent \<times> nat" where
  "keep_cell seq_id i = (\<lambda>(m, new_head).
     let m1 = (if int i \<noteq> seq_id then rs_upd i (\<lambda>c. c\<lparr>mc_tail := - 1\<rparr>) m else m) in
     if \<not> has_seq_id seq_id (rs_cells m1 ! i) then free_cell i (rs_upd i (\<lambda>c. c\<lparr>mc_seq := {}\<rparr>) m1, new_head)
     else (rs_upd i (\<lambda>c. c\<lparr>mc_seq := {nat seq_id}\<rparr>) m1, new_head))"

definition rs_seq_keep :: "int \<Rightarrow> memory_recurrent \<Rightarrow> memory_recurrent" where
  "rs_seq_keep seq_id m = lower_rs_head (fold (keep_cell seq_id) [0..<rs_size m] (m, rs_size m))"

text \<open>\<open>seq_add\<close> and \<open>seq_div\<close> change the position of the cell of the sequence.\<close>

definition map_pos :: "int \<Rightarrow> int \<Rightarrow> int \<Rightarrow> (int \<Rightarrow> int option) \<Rightarrow> memory_recurrent \<Rightarrow> memory_recurrent option" where
  "map_pos seq_id p0' p1' f m =
     (let p0 = pos_lo p0'; p1 = pos_hi p1' in
      if p0 = p1 then Some m
      else if 0 \<le> seq_id \<and> seq_id < int (rs_size m) then do {
        c \<leftarrow> rs_get seq_id m;
        if mc_tail c \<ge> 0 then do {
          cell \<leftarrow> rs_get (mc_tail c) m;
          if has_seq_id seq_id cell \<and> p0 \<le> mc_pos cell \<and> mc_pos cell < p1 then do {
            x \<leftarrow> f (mc_pos cell);
            Some (rs_upd (nat (mc_tail c)) (\<lambda>c. c\<lparr>mc_pos := x\<rparr>) m) }
          else Some m }
        else Some m }
      else Some m)"

definition rs_seq_add :: "int \<Rightarrow> int \<Rightarrow> int \<Rightarrow> int \<Rightarrow> memory_recurrent \<Rightarrow> memory_recurrent option" where
  "rs_seq_add seq_id p0 p1 shift m = (if shift = 0 then Some m else map_pos seq_id p0 p1 (\<lambda>x. i32 (x + shift)) m)"

definition rs_seq_div :: "int \<Rightarrow> int \<Rightarrow> int \<Rightarrow> int \<Rightarrow> memory_recurrent \<Rightarrow> memory_recurrent option" where
  "rs_seq_div seq_id p0 p1 d m = (if d = 1 then Some m else map_pos seq_id p0 p1 (\<lambda>x. cdiv x d) m)"

definition rs_seq_pos_min :: "int \<Rightarrow> memory_recurrent \<Rightarrow> int" where
  "rs_seq_pos_min seq_id m =
     (let result = fold (\<lambda>c r. if has_seq_id seq_id c then min r (mc_pos c) else r) (rs_cells m) INT32_MAX
      in if result = INT32_MAX then - 1 else result)"

definition rs_seq_pos_max :: "int \<Rightarrow> memory_recurrent \<Rightarrow> int" where
  "rs_seq_pos_max seq_id m = fold (\<lambda>c r. if has_seq_id seq_id c then max r (mc_pos c) else r) (rs_cells m) (- 1)"

section \<open>Finding a slot\<close>

text \<open>Every sequence must have an entry; sequences that become shared lose their old cells. The result \<open>False\<close> is the
  early return for a sequence number that is too big.\<close>

fun share_seqs :: "int list \<Rightarrow> bool \<Rightarrow> memory_recurrent \<Rightarrow> (bool \<times> memory_recurrent) option" where
  "share_seqs [] is_first m = Some (True, m)"
| "share_seqs (q # qs) is_first m =
     (if q < 0 \<or> q \<ge> int (rs_size m) then Some (False, m)
      else if is_first then share_seqs qs False m
      else do { m' \<leftarrow> detach (nat q) m; share_seqs qs False m' })"

definition seq_ids_of :: "'e llama_ubatch \<Rightarrow> nat \<Rightarrow> int list option" where
  "seq_ids_of ub s = do {
     let i = s * ub_n_seq_tokens ub;
     require (i < length (ub_n_seq_id ub) \<and> i < length (ub_seq_id ub) \<and> ub_n_seq_id ub ! i \<le> length (ub_seq_id ub ! i));
     Some (take (ub_n_seq_id ub ! i) (ub_seq_id ub ! i)) }"

fun share_all :: "'e llama_ubatch \<Rightarrow> nat list \<Rightarrow> memory_recurrent \<Rightarrow> (bool \<times> memory_recurrent) option" where
  "share_all ub [] m = Some (True, m)"
| "share_all ub (s # ss) m = do {
     qs \<leftarrow> seq_ids_of ub s;
     (ok, m') \<leftarrow> share_seqs qs True m;
     if ok then share_all ub ss m' else Some (False, m') }"

definition wrap :: "nat \<Rightarrow> memory_recurrent \<Rightarrow> nat" where
  "wrap i m = (if i \<ge> rs_size m then i - rs_size m else i)"

text \<open>The two searches for an empty cell, at most \<open>k\<close> steps: the first tests the cell it starts from.\<close>

fun first_empty :: "nat \<Rightarrow> nat \<Rightarrow> memory_recurrent \<Rightarrow> nat option" where
  "first_empty 0 i m = Some i"
| "first_empty (Suc k) i m = do {
     let i' = wrap i m;
     c \<leftarrow> rs_get (int i') m;
     if mc_is_empty c then Some i' else first_empty k (i' + 1) m }"

fun next_empty :: "nat \<Rightarrow> nat \<Rightarrow> memory_recurrent \<Rightarrow> nat option" where
  "next_empty 0 i m = Some i"
| "next_empty (Suc k) i m = do {
     let i' = wrap (i + 1) m;
     c \<leftarrow> rs_get (int i') m;
     if mc_is_empty c then Some i' else next_empty k i' m }"

definition head_seq :: "'e llama_ubatch \<Rightarrow> nat \<Rightarrow> int option" where
  "head_seq ub s = do {
     let i = s * ub_n_seq_tokens ub;
     require (i < length (ub_seq_id ub) \<and> ub_seq_id ub ! i \<noteq> []);
     Some (ub_seq_id ub ! i ! 0) }"

text \<open>The sequence \<open>q\<close> gets the empty cell \<open>e\<close>; a cell it shared is left to the others.\<close>

definition take_cell :: "nat \<Rightarrow> nat \<Rightarrow> memory_recurrent \<Rightarrow> memory_recurrent option" where
  "take_cell q e m = do {
     c \<leftarrow> rs_get (int q) m;
     empty_cell \<leftarrow> rs_get (int e) m;
     require (mc_is_empty empty_cell);
     m1 \<leftarrow> (if mc_tail c \<ge> 0 then do {
              orig_cell \<leftarrow> rs_get (mc_tail c) m;
              let t = nat (mc_tail c);
              let m' = rs_upd e (\<lambda>c. c\<lparr>mc_pos := mc_pos orig_cell, mc_src := mc_src orig_cell\<rparr>) m;
              let m'' = rs_upd t (\<lambda>c. c\<lparr>mc_seq := mc_seq c - {q}\<rparr>) m';
              let m3 = rs_upd e (\<lambda>c. c\<lparr>mc_seq := insert q (mc_seq c)\<rparr>) m'';
              require (\<not> mc_is_empty (rs_cells m3 ! t));
              Some m3 }
            else Some m);
     Some (rs_upd q (\<lambda>c. c\<lparr>mc_tail := int e\<rparr>) m1) }"

record range_state =
  rg_mem :: memory_recurrent
  rg_next :: nat
  rg_min :: int
  rg_max :: int

definition range_seq :: "'e llama_ubatch \<Rightarrow> nat \<Rightarrow> range_state \<Rightarrow> range_state option" where
  "range_seq ub s st = do {
     q \<leftarrow> head_seq ub s;
     let m = rg_mem st;
     c \<leftarrow> rs_get q m;
     has_cell \<leftarrow> (if mc_tail c \<ge> 0 then do {
                    cell \<leftarrow> rs_get (mc_tail c) m;
                    require (has_seq_id q cell);
                    Some (card (mc_seq cell) = 1) }
                  else Some False);
     (m1, next1) \<leftarrow> (if has_cell then Some (m, rg_next st)
       else do {
         m1 \<leftarrow> take_cell (nat q) (rg_next st) m;
         next1 \<leftarrow> (if s + 1 < ub_n_seqs ub then next_empty (rs_size m1) (rg_next st) m1 else Some (rg_next st));
         Some (m1, next1) });
     c1 \<leftarrow> rs_get q m1;
     Some \<lparr>rg_mem = m1, rg_next = next1, rg_min = min (rg_min st) (mc_tail c1), rg_max = max (rg_max st) (mc_tail c1)\<rparr> }"

definition swap_tail :: "int \<Rightarrow> int \<Rightarrow> int \<Rightarrow> int" where
  "swap_tail src dst t = (if t = src then dst else if t = dst then src else t)"

definition swap_cells :: "int \<Rightarrow> int \<Rightarrow> memory_recurrent \<Rightarrow> memory_recurrent option" where
  "swap_cells dst src m = do {
     d \<leftarrow> rs_get dst m;
     c \<leftarrow> rs_get src m;
     let m1 = rs_upd (nat dst) (\<lambda>x. x\<lparr>mc_pos := mc_pos c, mc_src := mc_src c, mc_seq := mc_seq c\<rparr>)
                (rs_upd (nat src) (\<lambda>x. x\<lparr>mc_pos := mc_pos d, mc_src := mc_src d, mc_seq := mc_seq d\<rparr>) m);
     Some (m1\<lparr>rs_cells := map (\<lambda>x. x\<lparr>mc_tail := swap_tail src dst (mc_tail x)\<rparr>) (rs_cells m1)\<rparr>) }"

definition gather_seq :: "'e llama_ubatch \<Rightarrow> int \<Rightarrow> nat \<Rightarrow> memory_recurrent \<Rightarrow> memory_recurrent option" where
  "gather_seq ub mn s m = do {
     q \<leftarrow> head_seq ub s;
     c \<leftarrow> rs_get q m;
     let dst_id = int s + mn;
     if dst_id \<noteq> mc_tail c then swap_cells dst_id (mc_tail c) m else Some m }"

definition place_id :: "int \<Rightarrow> int \<Rightarrow> memory_recurrent \<Rightarrow> memory_recurrent option" where
  "place_id cell_id q m = do {
     _ \<leftarrow> rs_get q m;
     Some (rs_upd (nat q) (\<lambda>c. c\<lparr>mc_tail := cell_id\<rparr>) (rs_upd (nat cell_id) (\<lambda>c. c\<lparr>mc_seq := insert (nat q) (mc_seq c)\<rparr>) m)) }"

text \<open>The warning about non-consecutive positions has no effect.\<close>

definition place_seq :: "'e llama_ubatch \<Rightarrow> int \<Rightarrow> nat \<Rightarrow> memory_recurrent \<Rightarrow> memory_recurrent option" where
  "place_seq ub mn s m = do {
     let i = s * ub_n_seq_tokens ub;
     require (ub_n_seq_tokens ub > 0 \<and> i + ub_n_seq_tokens ub - 1 < length (ub_pos ub));
     let last_pos = ub_pos ub ! (i + ub_n_seq_tokens ub - 1);
     let cell_id = int s + mn;
     _ \<leftarrow> rs_get cell_id m;
     qs \<leftarrow> seq_ids_of ub s;
     let m1 = rs_upd (nat cell_id) (\<lambda>c. c\<lparr>mc_pos := last_pos, mc_seq := {}\<rparr>) m;
     mfold (place_id cell_id) qs m1 }"

text \<open>The first cell of the slot whose state is not the source of any cell becomes the zeroed state.\<close>

definition refcount :: "memory_recurrent \<Rightarrow> int \<Rightarrow> nat" where
  "refcount m i = length (filter (\<lambda>c. mc_src c \<ge> 0 \<and> mc_src c = i) (rs_cells m))"

definition find_rs_z :: "int \<Rightarrow> int \<Rightarrow> memory_recurrent \<Rightarrow> int" where
  "find_rs_z mn mx m = (case find (\<lambda>i. refcount m i = 0) [mn..mx] of None \<Rightarrow> - 1 | Some i \<Rightarrow> i)"

definition stage_src :: "int \<Rightarrow> memory_recurrent \<Rightarrow> memory_recurrent option" where
  "stage_src i m = do {
     c \<leftarrow> rs_get i m;
     require (mc_src c < 0 \<longrightarrow> rs_z m \<ge> 0);
     Some (rs_upd (nat i) (\<lambda>c. c\<lparr>mc_src0 := (if mc_src c < 0 then rs_z m else mc_src c), mc_src := i\<rparr>) m) }"

definition rs_find_slot :: "'e llama_ubatch \<Rightarrow> memory_recurrent \<Rightarrow> (bool \<times> memory_recurrent) option" where
  "rs_find_slot ub m0 = do {
     let n_seqs = ub_n_seqs ub;
     let m = (if rs_head m0 > rs_used m0 + 2 * n_seqs then m0\<lparr>rs_head := 0\<rparr> else m0);
     require (ub_equal_seqs ub);
     (ok, m1) \<leftarrow> share_all ub [0..<n_seqs] m;
     if \<not> ok then Some (False, m1)
     else do {
       next0 \<leftarrow> first_empty (rs_size m1) (rs_head m1) m1;
       st \<leftarrow> mfold (range_seq ub) [0..<n_seqs] \<lparr>rg_mem = m1, rg_next = next0, rg_min = int (rs_size m1) - 1, rg_max = 0\<rparr>;
       let mn = rg_min st;
       let mx = rg_max st;
       m2 \<leftarrow> mfold (gather_seq ub mn) [0..<n_seqs] (rg_mem st);
       m3 \<leftarrow> mfold (place_seq ub mn) [0..<n_seqs] m2;
       require (list_all (\<lambda>c. mc_src c < int (rs_size m3)) (rs_cells m3));
       let m4 = m3\<lparr>rs_z := find_rs_z mn mx m3\<rparr>;
       m5 \<leftarrow> mfold stage_src [mn..mx] m4;
       let m6 = m5\<lparr>rs_head := nat mn, rs_n := nat ((mx - mn + 1) mod 2 ^ 32), rs_used := length (filter (\<lambda>c. \<not> mc_is_empty c) (rs_cells m5))\<rparr>;
       Some (rs_n m6 \<ge> n_seqs, m6) } }"

section \<open>Batches\<close>

fun find_slots :: "'e llama_ubatch list \<Rightarrow> memory_recurrent \<Rightarrow> (bool \<times> memory_recurrent) option" where
  "find_slots [] m = Some (True, m)"
| "find_slots (ub # ubs) m = do {
     (ok, m') \<leftarrow> rs_find_slot ub m;
     if ok then find_slots ubs m' else Some (False, m') }"

definition rs_prepare :: "'e llama_ubatch list \<Rightarrow> memory_recurrent \<Rightarrow> (bool \<times> memory_recurrent) option" where
  "rs_prepare ubatches m = do {
     (success, m') \<leftarrow> find_slots ubatches m;
     Some (success, m'\<lparr>rs_cells := rs_cells m, rs_used := rs_used m, rs_head := rs_head m\<rparr>) }"

record 'e rs_context =
  rc_status :: llama_memory_status
  rc_i_next :: nat
  rc_ubatches :: "'e llama_ubatch list"
  rc_is_full :: bool

definition rs_ctx_status :: "llama_memory_status \<Rightarrow> 'e rs_context" where
  "rs_ctx_status s = \<lparr>rc_status = s, rc_i_next = 0, rc_ubatches = [], rc_is_full = False\<rparr>"

definition rs_init_full :: "'e rs_context" where
  "rs_init_full = \<lparr>rc_status = STATUS_SUCCESS, rc_i_next = 0, rc_ubatches = [], rc_is_full = True\<rparr>"

definition rs_ctx_batch :: "'e llama_ubatch list \<Rightarrow> 'e rs_context" where
  "rs_ctx_batch ubs = \<lparr>rc_status = STATUS_SUCCESS, rc_i_next = 0, rc_ubatches = ubs, rc_is_full = False\<rparr>"

definition rs_init_batch ::
  "nat \<Rightarrow> bool \<Rightarrow> 'e batch_allocr \<Rightarrow> memory_recurrent \<Rightarrow> ('e rs_context \<times> 'e batch_allocr \<times> memory_recurrent) option" where
  "rs_init_batch n_ubatch embd_all a m = do {
     (ubs, a') \<leftarrow> split_loop (if embd_all then split_seq n_ubatch else split_equal n_ubatch True) (split_reset a);
     if ba_n_used a' < get_n_tokens a' then Some (rs_ctx_status STATUS_FAILED_PREPARE, a', m)
     else do {
       (success, m') \<leftarrow> rs_prepare ubs m;
       Some (if success then rs_ctx_batch ubs else rs_ctx_status STATUS_FAILED_PREPARE, a', m') } }"

definition rs_ctx_next :: "'e rs_context \<Rightarrow> (bool \<times> 'e rs_context) option" where
  "rs_ctx_next ctx = do {
     require (rc_status ctx = STATUS_SUCCESS);
     let ctx' = ctx\<lparr>rc_i_next := rc_i_next ctx + 1\<rparr>;
     Some (\<not> rc_i_next ctx' \<ge> length (rc_ubatches ctx'), ctx') }"

definition rs_ctx_apply :: "'e rs_context \<Rightarrow> memory_recurrent \<Rightarrow> memory_recurrent option" where
  "rs_ctx_apply ctx m = do {
     require (\<not> llama_memory_status_is_fail (rc_status ctx));
     if rc_ubatches ctx = [] then do { require (rc_status ctx = STATUS_NO_UPDATE); Some m }
     else do {
       require (rc_i_next ctx < length (rc_ubatches ctx));
       (_, m') \<leftarrow> rs_find_slot (rc_ubatches ctx ! rc_i_next ctx) m;
       Some m' } }"

definition get_n_rs :: "'e rs_context \<Rightarrow> memory_recurrent \<Rightarrow> nat" where
  "get_n_rs ctx m = (if rc_is_full ctx then rs_size m else rs_n m)"

definition get_rs_head :: "'e rs_context \<Rightarrow> memory_recurrent \<Rightarrow> nat" where
  "get_rs_head ctx m = (if rc_is_full ctx then 0 else rs_head m)"

definition get_rs_z :: "'e rs_context \<Rightarrow> memory_recurrent \<Rightarrow> int" where
  "get_rs_z ctx m = (if rc_is_full ctx then 0 else rs_z m)"

definition s_copy :: "memory_recurrent \<Rightarrow> nat \<Rightarrow> int option" where
  "s_copy m i = map_option mc_src0 (rs_get (int (i + rs_head m)) m)"

section \<open>The states in the graph\<close>

text \<open>\<open>build_rs\<close> on the states \<open>ss\<close>, one per cell: it clears the zeroed state, gathers the input states of the \<open>n_seqs\<close>
  sequences, and moves the other states of the slot. The second part of the result are the states after the copy.\<close>

definition get_rows :: "'s list \<Rightarrow> int list \<Rightarrow> 's list option" where
  "get_rows ss rows = mfold (\<lambda>i out. do { require (0 \<le> i \<and> nat i < length ss); Some (out @ [ss ! nat i]) }) rows []"

definition write_rows_at :: "'s list \<Rightarrow> nat \<Rightarrow> 's list \<Rightarrow> 's list option" where
  "write_rows_at ss k xs = do {
     require (k + length xs \<le> length ss);
     Some (take k ss @ xs @ drop (k + length xs) ss) }"

definition build_rs :: "'s \<Rightarrow> nat \<Rightarrow> 'e rs_context \<Rightarrow> memory_recurrent \<Rightarrow> 's list \<Rightarrow> ('s list \<times> 's list) option" where
  "build_rs zero n_seqs ctx m ss = do {
     let z = get_rs_z ctx m;
     require (z < int (length ss));
     let states = (if z \<ge> 0 then ss[nat z := zero] else ss);
     rows \<leftarrow> mfold (\<lambda>i out. do { r \<leftarrow> s_copy m i; Some (out @ [r]) }) [0..<get_n_rs ctx m] [];
     require (n_seqs \<le> get_n_rs ctx m);
     output_states \<leftarrow> get_rows states (take n_seqs rows);
     states_extra \<leftarrow> get_rows states (drop n_seqs rows);
     ss' \<leftarrow> write_rows_at states (get_rs_head ctx m + n_seqs) states_extra;
     Some (output_states, ss') }"

end
