(* ===== verification/Recurrent_Inv.thy ===== *)
theory Recurrent_Inv
  imports Recurrent
begin

text \<open>
  The invariant of the recurrent memory, kept by the sequence operations: the tail of a sequence is exactly the cell
  that holds it, the count of used cells is right, and the state of an occupied cell is stored at the cell itself. The
  memory satisfies the contract \<open>llama_memory\<close> of all memories. Removing all sequences at once, which the interface
  offers, is the exception: it leaves the tails behind.
\<close>

section \<open>Views\<close>

abbreviation sq :: "memory_recurrent \<Rightarrow> nat \<Rightarrow> nat set" where "sq m j \<equiv> mc_seq (rs_cells m ! j)"
abbreviation tl_of :: "memory_recurrent \<Rightarrow> nat \<Rightarrow> int" where "tl_of m q \<equiv> mc_tail (rs_cells m ! q)"
abbreviation ps :: "memory_recurrent \<Rightarrow> nat \<Rightarrow> int" where "ps m j \<equiv> mc_pos (rs_cells m ! j)"
abbreviation sr :: "memory_recurrent \<Rightarrow> nat \<Rightarrow> int" where "sr m j \<equiv> mc_src (rs_cells m ! j)"

lemma rs_upd_simps [simp]:
  "length (rs_cells (rs_upd i f m)) = length (rs_cells m)" "rs_size (rs_upd i f m) = rs_size m" "rs_used (rs_upd i f m) = rs_used m"
  "rs_head (rs_upd i f m) = rs_head m" "rs_z (rs_upd i f m) = rs_z m" "rs_n (rs_upd i f m) = rs_n m"
  by (simp_all add: rs_upd_def)

lemma rs_upd_nth: "j < length (rs_cells m) \<Longrightarrow> rs_cells (rs_upd i f m) ! j = (if i = j then f (rs_cells m ! j) else rs_cells m ! j)"
  by (simp add: rs_upd_def nth_list_update)

lemma dec_used_simps [simp]:
  "rs_cells (dec_used m) = rs_cells m" "rs_size (dec_used m) = rs_size m" "rs_head (dec_used m) = rs_head m"
  "0 < rs_used m \<Longrightarrow> rs_used (dec_used m) = rs_used m - 1" "rs_z (dec_used m) = rs_z m" "rs_n (dec_used m) = rs_n m"
  by (simp_all add: dec_used_def)

lemma rs_get_nat: "i < length (rs_cells m) \<Longrightarrow> rs_get (int i) m = Some (rs_cells m ! i)"
  by (simp add: rs_get_def)

section \<open>The invariant\<close>

definition tails_ok :: "memory_recurrent \<Rightarrow> bool" where
  "tails_ok m \<longleftrightarrow> (\<forall>q < rs_size m. tl_of m q = - 1 \<or> 0 \<le> tl_of m q \<and> tl_of m q < int (rs_size m)) \<and>
     (\<forall>q < rs_size m. \<forall>j < rs_size m. tl_of m q = int j \<longleftrightarrow> q \<in> sq m j) \<and> (\<forall>j < rs_size m. sq m j \<subseteq> {..<rs_size m})"

definition cell_ok :: "nat \<Rightarrow> mem_cell \<Rightarrow> bool" where
  "cell_ok j c \<longleftrightarrow> (if mc_seq c = {} then mc_pos c = - 1 \<and> (mc_src c = - 1 \<or> mc_src c = int j) else 0 \<le> mc_pos c \<and> mc_src c = int j)"

definition occupied :: "memory_recurrent \<Rightarrow> nat set" where
  "occupied m = {j. j < rs_size m \<and> sq m j \<noteq> {}}"

definition rs_inv :: "memory_recurrent \<Rightarrow> bool" where
  "rs_inv m \<longleftrightarrow> length (rs_cells m) = rs_size m \<and> 0 < rs_size m \<and> rs_size m < 2 ^ 31 \<and> rs_head m < rs_size m \<and> tails_ok m \<and>
     (\<forall>j < rs_size m. cell_ok j (rs_cells m ! j)) \<and> rs_used m = card (occupied m)"

lemma finite_occupied [simp]: "finite (occupied m)"
  by (simp add: occupied_def)

lemma rs_invD:
  assumes "rs_inv m"
  shows "length (rs_cells m) = rs_size m" "0 < rs_size m" "tails_ok m" "rs_head m < rs_size m"
    "\<And>j. j < rs_size m \<Longrightarrow> cell_ok j (rs_cells m ! j)" "rs_used m = card (occupied m)" "rs_size m < 2 ^ 31"
  using assms by (simp_all add: rs_inv_def)

lemma tailsD:
  assumes "tails_ok m" "q < rs_size m"
  shows "tl_of m q = - 1 \<or> (\<exists>t < rs_size m. tl_of m q = int t \<and> q \<in> sq m t)"
proof -
  consider "tl_of m q = - 1" | "0 \<le> tl_of m q" "tl_of m q < int (rs_size m)"
    using assms by (auto simp: tails_ok_def)
  then show ?thesis
  proof cases
    case 2
    then have "nat (tl_of m q) < rs_size m" "tl_of m q = int (nat (tl_of m q))"
      by simp_all
    then show ?thesis
      using assms unfolding tails_ok_def by metis
  qed simp
qed

lemma tails_mem: "tails_ok m \<Longrightarrow> j < rs_size m \<Longrightarrow> q \<in> sq m j \<Longrightarrow> q < rs_size m \<and> tl_of m q = int j"
  by (auto simp: tails_ok_def)

lemma tails_unique: "tails_ok m \<Longrightarrow> j < rs_size m \<Longrightarrow> k < rs_size m \<Longrightarrow> q \<in> sq m j \<Longrightarrow> q \<in> sq m k \<Longrightarrow> j = k"
  using tails_mem [of m j q] tails_mem [of m k q] by simp

lemma rs_new_inv: "0 < n \<Longrightarrow> n < 2 ^ 31 \<Longrightarrow> rs_inv (rs_new n)"
  by (auto simp: rs_inv_def rs_new_def tails_ok_def mc_new_def cell_ok_def occupied_def)

lemma rs_inv_cong:
  assumes "rs_inv m" "rs_cells m' = rs_cells m" "rs_size m' = rs_size m" "rs_used m' = rs_used m" "rs_head m' < rs_size m"
  shows "rs_inv m'"
  using assms by (simp add: rs_inv_def tails_ok_def occupied_def)

section \<open>Detaching a sequence\<close>

definition detached :: "nat set \<Rightarrow> memory_recurrent \<Rightarrow> memory_recurrent \<Rightarrow> bool" where
  "detached D m m' \<longleftrightarrow> rs_inv m' \<and> rs_size m' = rs_size m \<and> rs_head m' = rs_head m \<and>
     (\<forall>r < rs_size m. tl_of m' r = (if r \<in> D then - 1 else tl_of m r)) \<and>
     (\<forall>j < rs_size m. sq m' j = sq m j - D \<and> (sq m' j \<noteq> {} \<longrightarrow> ps m' j = ps m j) \<and>
        sr m' j = (if sq m j \<noteq> {} \<and> sq m' j = {} then - 1 else sr m j))"

lemma detached_refl: "rs_inv m \<Longrightarrow> detached {} m m"
  by (simp add: detached_def)

lemma detached_trans: "detached A m m' \<Longrightarrow> detached B m' m'' \<Longrightarrow> detached (A \<union> B) m m''"
  by (auto simp: detached_def)

lemma detach_ok:
  assumes inv: "rs_inv m" and q: "q < rs_size m"
  shows "\<exists>m'. detach q m = Some m' \<and> detached {q} m m'"
proof -
  note I = rs_invD [OF inv]
  have get: "rs_get (int q) m = Some (rs_cells m ! q)"
    using q I(1) by (simp add: rs_get_nat)
  show ?thesis
  proof (cases "tl_of m q = - 1")
    case True
    have "sq m j - {q} = sq m j" if "j < rs_size m" for j
      using True tails_mem [OF I(3) that, of q] by auto
    then have "detached {q} m m"
      using True inv by (simp add: detached_def)
    then show ?thesis
      using True get by (simp add: detach_def)
  next
    case False
    then obtain t where t: "t < rs_size m" "tl_of m q = int t" "q \<in> sq m t"
      using tailsD [OF I(3) q] by auto
    define m1 where "m1 = rs_upd q (\<lambda>c. c\<lparr>mc_tail := - 1\<rparr>) (rs_upd t (\<lambda>c. c\<lparr>mc_seq := mc_seq c - {q}\<rparr>) m)"
    define m' where "m' = (if mc_is_empty (rs_cells m1 ! t) then dec_used (rs_upd t (\<lambda>c. c\<lparr>mc_pos := - 1, mc_src := - 1\<rparr>) m1) else m1)"
    have res: "detach q m = Some m'"
      using t get I(1) by (simp add: detach_def rs_get_nat Let_def m'_def m1_def)
    have sz: "rs_size m' = rs_size m" "length (rs_cells m') = rs_size m" "rs_head m' = rs_head m" "rs_z m' = rs_z m" "rs_n m' = rs_n m"
      using I(1) by (simp_all add: m'_def m1_def)
    have seq: "sq m' j = (if j = t then sq m t - {q} else sq m j)" if "j < rs_size m" for j
      using that I(1) by (auto simp: m'_def m1_def rs_upd_nth)
    have seq': "sq m' j = sq m j - {q}" if "j < rs_size m" for j
      using seq [OF that] tails_unique [OF I(3) that t(1) _ t(3)] by auto
    have tl: "tl_of m' r = (if r = q then - 1 else tl_of m r)" if "r < rs_size m" for r
      using that I(1) by (auto simp: m'_def m1_def rs_upd_nth)
    have pos: "ps m' j = (if j = t \<and> sq m' t = {} then - 1 else ps m j)" "sr m' j = (if j = t \<and> sq m' t = {} then - 1 else sr m j)" if "j < rs_size m" for j
      using that t(1) I(1) by (auto simp: m'_def m1_def rs_upd_nth mc_is_empty_def)
    have tails: "tails_ok m'"
      using I(3) tl seq' by (auto simp: tails_ok_def sz)
    have cells: "cell_ok j (rs_cells m' ! j)" if "j < rs_size m" for j
      using I(5) [OF that] seq [OF that] pos [OF that] seq [OF t(1)] by (auto simp: cell_ok_def split: if_splits)
    have occ: "occupied m' = (if sq m' t = {} then occupied m - {t} else occupied m)"
      using seq t by (auto simp: occupied_def sz split: if_splits)
    have tin: "t \<in> occupied m"
      using t by (auto simp: occupied_def)
    then have "0 < card (occupied m)"
      by (auto simp: card_gt_0_iff)
    moreover have "rs_used m' = (if sq m' t = {} then rs_used m - 1 else rs_used m)" if "0 < rs_used m"
      using that t(1) I(1) by (simp add: m'_def m1_def rs_upd_nth mc_is_empty_def)
    ultimately have "rs_used m' = card (occupied m')"
      using I(6) occ tin by simp
    then have "rs_inv m'"
      using I sz tails cells by (simp add: rs_inv_def)
    moreover have "sr m' j = (if sq m j \<noteq> {} \<and> sq m' j = {} then - 1 else sr m j)" if "j < rs_size m" for j
      using pos(2) [OF that] seq [OF that] t(3) by (cases "j = t") auto
    ultimately have "detached {q} m m'"
      using sz tl seq' pos(1) by (auto simp: detached_def)
    then show ?thesis
      using res by blast
  qed
qed

text \<open>The effect of an operation on the tails; empty cells with a state were empty with that state before.\<close>

definition moved :: "(nat \<Rightarrow> int) \<Rightarrow> memory_recurrent \<Rightarrow> memory_recurrent \<Rightarrow> bool" where
  "moved T m m' \<longleftrightarrow> rs_inv m' \<and> rs_size m' = rs_size m \<and> (\<forall>q < rs_size m. tl_of m' q = T q) \<and>
     (\<forall>j < rs_size m. sq m' j = {} \<and> sr m' j = int j \<longrightarrow> sq m j = {} \<and> sr m j = int j)"

lemma moved_refl: "rs_inv m \<Longrightarrow> (\<And>q. q < rs_size m \<Longrightarrow> T q = tl_of m q) \<Longrightarrow> moved T m m"
  by (simp add: moved_def)

lemma moved_cong: "moved T m m' \<Longrightarrow> (\<And>q. q < rs_size m \<Longrightarrow> T' q = T q) \<Longrightarrow> moved T' m m'"
  by (simp add: moved_def)

lemma detached_moved: "detached D m m' \<Longrightarrow> moved (\<lambda>q. if q \<in> D then - 1 else tl_of m q) m m'"
  by (auto simp: detached_def moved_def split: if_splits)

lemma moved_same_cells:
  assumes "moved T m m1" "rs_cells m' = rs_cells m1" "rs_size m' = rs_size m1" "rs_used m' = rs_used m1" "rs_head m' < rs_size m1"
  shows "moved T m m'"
  using assms rs_inv_cong [of m1 m'] by (simp add: moved_def)

text \<open>A sequence without a cell joins an occupied cell.\<close>

lemma attach_ok:
  assumes inv: "rs_inv m" and q: "q < rs_size m" "tl_of m q = - 1" and t: "t < rs_size m" "sq m t \<noteq> {}"
  shows "moved (\<lambda>r. if r = q then int t else tl_of m r) m (rs_upd q (\<lambda>c. c\<lparr>mc_tail := int t\<rparr>) (rs_upd t (\<lambda>c. c\<lparr>mc_seq := insert q (mc_seq c)\<rparr>) m))" (is "moved _ m ?m")
proof -
  note I = rs_invD [OF inv]
  have seq: "sq ?m j = (if j = t then insert q (sq m t) else sq m j)" if "j < rs_size m" for j
    using that I(1) by (auto simp: rs_upd_nth)
  have tl: "tl_of ?m r = (if r = q then int t else tl_of m r)" if "r < rs_size m" for r
    using that I(1) by (auto simp: rs_upd_nth)
  have no: "q \<notin> sq m j" if "j < rs_size m" for j
    using tails_mem [OF I(3) that, of q] q(2) by auto
  have tails: "tails_ok ?m"
    unfolding tails_ok_def
  proof (intro conjI allI impI)
    fix r j assume b: "r < rs_size ?m" "j < rs_size ?m"
    then show "tl_of ?m r = int j \<longleftrightarrow> r \<in> sq ?m j"
      using I(3) seq [of j] tl [of r] no [of j] by (auto simp: tails_ok_def)
  next
    fix r assume "r < rs_size ?m"
    then show "tl_of ?m r = - 1 \<or> 0 \<le> tl_of ?m r \<and> tl_of ?m r < int (rs_size ?m)"
      using I(3) tl [of r] t(1) by (auto simp: tails_ok_def)
  next
    fix j assume "j < rs_size ?m"
    then show "sq ?m j \<subseteq> {..<rs_size ?m}"
      using I(3) seq [of j] q(1) t(1) by (auto simp: tails_ok_def)
  qed
  have cells: "cell_ok j (rs_cells ?m ! j)" if "j < rs_size m" for j
    using I(5) [OF that] that t(2) I(1) by (auto simp: cell_ok_def rs_upd_nth split: if_splits)
  have "occupied ?m = occupied m"
    using seq t by (auto simp: occupied_def split: if_splits)
  then have "rs_inv ?m"
    using I tails cells by (simp add: rs_inv_def)
  moreover have "sr ?m j = sr m j" if "j < rs_size m" for j
    using that I(1) by (simp add: rs_upd_nth)
  ultimately show ?thesis
    using tl seq by (simp add: moved_def split: if_splits)
qed

lemma rs_seq_cp_ok:
  assumes inv: "rs_inv m" and src: "- (2 ^ 31) \<le> a" "a < 2 ^ 31" and dst: "- (2 ^ 31) \<le> b" "b < 2 ^ 31"
  shows "\<exists>m'. rs_seq_cp a b p0 p1 m = Some m' \<and> moved (\<lambda>q. if int q = b \<and> 0 \<le> a \<and> a < int (rs_size m) then tl_of m (nat a) else tl_of m q) m m'"
proof (cases "a = b \<or> \<not> (b mod 2 ^ 32 < int (rs_size m) \<and> a mod 2 ^ 32 < int (rs_size m))")
  case True
  have md: "x mod 2 ^ 32 = x" if "0 \<le> x" "x < int (rs_size m)" for x
    using that rs_invD(7) [OF inv] by (intro mod_pos_pos_trivial) simp_all
  have "moved (\<lambda>q. if int q = b \<and> 0 \<le> a \<and> a < int (rs_size m) then tl_of m (nat a) else tl_of m q) m m"
  proof (rule moved_refl [OF inv])
    fix q assume q: "q < rs_size m"
    show "(if int q = b \<and> 0 \<le> a \<and> a < int (rs_size m) then tl_of m (nat a) else tl_of m q) = tl_of m q"
    proof (cases "int q = b \<and> 0 \<le> a \<and> a < int (rs_size m)")
      case c: True
      then have "b mod 2 ^ 32 < int (rs_size m)" "a mod 2 ^ 32 < int (rs_size m)"
        using md [of a] md [of b] q by auto
      then have "a = b"
        using True by blast
      then show ?thesis
        using c by auto
    qed auto
  qed
  then show ?thesis
    using True by (auto simp: rs_seq_cp_def)
next
  case False
  note I = rs_invD [OF inv]
  have neg: "x mod 2 ^ 32 = x + 2 ^ 32" if "- (2 ^ 31) \<le> x" "x < 0" for x :: int
  proof -
    have "x mod 2 ^ 32 = (x + 2 ^ 32) mod 2 ^ 32"
      by simp
    also have "\<dots> = x + 2 ^ 32"
      using that by (subst mod_pos_pos_trivial) auto
    finally show ?thesis .
  qed
  have pos: "0 \<le> x \<and> x < int (rs_size m)" if "x mod 2 ^ 32 < int (rs_size m)" "- (2 ^ 31) \<le> x" "x < 2 ^ 31" for x
    using that neg [of x] I(7) by (cases "x < 0") auto
  define src dst where "src = nat a" and "dst = nat b"
  have ab: "a = int src" "b = int dst" "src < rs_size m" "dst < rs_size m" "src \<noteq> dst"
    using pos [of a] pos [of b] False assms(2-5) by (auto simp: src_def dst_def)
  obtain m1 where m1: "detach dst m = Some m1" "detached {dst} m m1"
    using detach_ok [OF inv ab(4)] by blast
  note J = rs_invD [of m1]
  have inv1: "rs_inv m1" "rs_size m1 = rs_size m" "tl_of m1 dst = - 1"
    using m1(2) ab(4) by (simp_all add: detached_def)
  have mv: "moved (\<lambda>q. if q = dst then - 1 else tl_of m q) m m1"
    using moved_cong [OF detached_moved [OF m1(2)]] by simp
  have tsrc: "tl_of m1 src = tl_of m src"
    using m1(2) ab by (simp add: detached_def)
  show ?thesis
  proof (cases "tl_of m1 src = - 1")
    case True
    have "moved (\<lambda>q. if int q = b \<and> 0 \<le> a \<and> a < int (rs_size m) then tl_of m (nat a) else tl_of m q) m m1"
      using True tsrc ab by (intro moved_cong [OF mv]) auto
    then show ?thesis
      using True False ab m1(1) inv1 I(1) J(1) by (auto simp: rs_seq_cp_def rs_get_nat)
  next
    case tail: False
    then obtain t where t: "t < rs_size m1" "tl_of m1 src = int t" "src \<in> sq m1 t"
      using tailsD [OF J(3) [OF inv1(1)], of src] ab inv1 by auto
    let ?m = "rs_upd dst (\<lambda>c. c\<lparr>mc_tail := int t\<rparr>) (rs_upd t (\<lambda>c. c\<lparr>mc_seq := insert dst (mc_seq c)\<rparr>) m1)"
    have "moved (\<lambda>r. if r = dst then int t else tl_of m1 r) m1 ?m"
      using t inv1 ab by (intro attach_ok) auto
    then have "moved (\<lambda>q. if int q = b \<and> 0 \<le> a \<and> a < int (rs_size m) then tl_of m (nat a) else tl_of m q) m ?m"
      using mv t(2) tsrc ab inv1(2) by (auto simp: moved_def)
    then show ?thesis
      using False ab m1(1) inv1 I(1) J(1) t by (auto simp: rs_seq_cp_def rs_get_nat)
  qed
qed

section \<open>Sweeps over all cells\<close>

lemma sweep_cells:
  assumes step: "\<And>i m nh. i < n \<Longrightarrow> length (rs_cells m) = n \<Longrightarrow> rs_size m = n \<Longrightarrow> fst (h i (m, nh)) = (if fr i (rs_cells m ! i) then dec_used (rs_upd i (g i) m) else rs_upd i (g i) m) \<and>
      (nh \<le> n \<longrightarrow> snd (h i (m, nh)) \<le> n)"
    and len: "length (rs_cells m) = n \<and> rs_size m = n" "card {j. j < k \<and> fr j (rs_cells m ! j)} \<le> rs_used m" "nh \<le> n" "k \<le> n"
  shows "\<exists>m' nh'. fold h [0..<k] (m, nh) = (m', nh') \<and> nh' \<le> n \<and> length (rs_cells m') = n \<and> rs_size m' = rs_size m \<and> rs_head m' = rs_head m \<and>
    (\<forall>j < n. rs_cells m' ! j = (if j < k then g j (rs_cells m ! j) else rs_cells m ! j)) \<and>
    rs_used m' = rs_used m - card {j. j < k \<and> fr j (rs_cells m ! j)}"
  using len(2,4)
proof (induction k)
  case 0
  then show ?case
    using len by simp
next
  case (Suc k)
  have ins: "{j. j < Suc k \<and> fr j (rs_cells m ! j)} = (if fr k (rs_cells m ! k) then insert k {j. j < k \<and> fr j (rs_cells m ! j)} else {j. j < k \<and> fr j (rs_cells m ! j)})"
    by (auto simp: less_Suc_eq)
  then have c: "card {j. j < Suc k \<and> fr j (rs_cells m ! j)} = card {j. j < k \<and> fr j (rs_cells m ! j)} + (if fr k (rs_cells m ! k) then 1 else 0)"
    by simp
  obtain m' nh' where IH: "fold h [0..<k] (m, nh) = (m', nh')" "nh' \<le> n" "length (rs_cells m') = n" "rs_size m' = rs_size m" "rs_head m' = rs_head m"
    "\<forall>j < n. rs_cells m' ! j = (if j < k then g j (rs_cells m ! j) else rs_cells m ! j)"
    "rs_used m' = rs_used m - card {j. j < k \<and> fr j (rs_cells m ! j)}"
    using Suc.IH Suc.prems c by auto
  have k: "rs_cells m' ! k = rs_cells m ! k"
    using IH(6) Suc.prems(2) by simp
  obtain m2 nh2 where h: "h k (m', nh') = (m2, nh2)"
    by fastforce
  have m2: "m2 = (if fr k (rs_cells m ! k) then dec_used (rs_upd k (g k) m') else rs_upd k (g k) m')" "nh2 \<le> n"
    using step [of k m' nh'] Suc.prems(2) IH(2,3,4) len(1) k h by auto
  have "rs_used m2 = rs_used m - card {j. j < Suc k \<and> fr j (rs_cells m ! j)}"
    using m2(1) IH(7) c Suc.prems(1) by (cases "fr k (rs_cells m ! k)") auto
  moreover have "\<forall>j < n. rs_cells m2 ! j = (if j < Suc k then g j (rs_cells m ! j) else rs_cells m ! j)"
    using m2(1) IH(3,6) by (auto simp: rs_upd_nth less_Suc_eq)
  ultimately show ?case
    using IH m2 h by simp
qed

definition rm_fun :: "int \<Rightarrow> int \<Rightarrow> int \<Rightarrow> mem_cell \<Rightarrow> mem_cell" where
  "rm_fun q p0 p1 c =
     (if mc_pos c \<ge> p0 \<and> mc_pos c < p1 \<and> (q < 0 \<or> has_seq_id q c) then
        (let c' = (if q < 0 then c\<lparr>mc_seq := {}\<rparr> else c\<lparr>mc_seq := mc_seq c - {nat q}\<rparr>)
         in if mc_seq c' = {} then c'\<lparr>mc_pos := - 1, mc_src := - 1\<rparr> else c')
      else c)"

lemma rm_cell_step:
  assumes "i < n" "length (rs_cells m) = n" "rs_size m = n"
  shows "fst (rm_cell q p0 p1 i (m, nh)) =
     (if mc_pos (rs_cells m ! i) \<ge> p0 \<and> mc_pos (rs_cells m ! i) < p1 \<and> (q < 0 \<or> has_seq_id q (rs_cells m ! i)) \<and>
         mc_seq (rm_fun q p0 p1 (rs_cells m ! i)) = {} \<and> mc_pos (rs_cells m ! i) \<ge> 0
      then dec_used (rs_upd i (rm_fun q p0 p1) m) else rs_upd i (rm_fun q p0 p1) m)"
    "nh \<le> n \<Longrightarrow> snd (rm_cell q p0 p1 i (m, nh)) \<le> n"
proof -
  have same: "m = rs_upd i (\<lambda>c. c) m"
    using assms by (cases m) (simp add: rs_upd_def)
  show "fst (rm_cell q p0 p1 i (m, nh)) =
     (if mc_pos (rs_cells m ! i) \<ge> p0 \<and> mc_pos (rs_cells m ! i) < p1 \<and> (q < 0 \<or> has_seq_id q (rs_cells m ! i)) \<and>
         mc_seq (rm_fun q p0 p1 (rs_cells m ! i)) = {} \<and> mc_pos (rs_cells m ! i) \<ge> 0
      then dec_used (rs_upd i (rm_fun q p0 p1) m) else rs_upd i (rm_fun q p0 p1) m)"
    using assms same
    by (auto simp: rm_cell_def Let_def rm_fun_def mc_is_empty_def free_cell_def rs_upd_def dec_used_def)
  show "nh \<le> n \<Longrightarrow> snd (rm_cell q p0 p1 i (m, nh)) \<le> n"
    using assms by (auto simp: rm_cell_def Let_def free_cell_def)
qed

lemma lower_rs_head_simps [simp]:
  "rs_cells (lower_rs_head (m, nh)) = rs_cells m" "rs_size (lower_rs_head (m, nh)) = rs_size m" "rs_used (lower_rs_head (m, nh)) = rs_used m"
  "nh \<le> rs_size m \<Longrightarrow> rs_head m < rs_size m \<Longrightarrow> rs_head (lower_rs_head (m, nh)) < rs_size m"
  by (auto simp: lower_rs_head_def)

lemma has_seq_nat [simp]: "has_seq_id (int q) c \<longleftrightarrow> q \<in> mc_seq c" "\<not> has_seq_id (- 1) c"
  by (simp_all add: has_seq_id_def)

text \<open>The sweep of \<open>seq_rm\<close> for one sequence touches only its tail.\<close>

definition rm_frees :: "int \<Rightarrow> int \<Rightarrow> int \<Rightarrow> mem_cell \<Rightarrow> bool" where
  "rm_frees q p0 p1 c \<longleftrightarrow> mc_pos c \<ge> p0 \<and> mc_pos c < p1 \<and> (q < 0 \<or> has_seq_id q c) \<and> mc_seq (rm_fun q p0 p1 c) = {} \<and> mc_pos c \<ge> 0"

lemma rm_sweep:
  assumes "length (rs_cells m) = rs_size m" "card {j. j < rs_size m \<and> rm_frees q p0 p1 (rs_cells m ! j)} \<le> rs_used m"
  shows "\<exists>m' nh'. fold (rm_cell q p0 p1) [0..<rs_size m] (m, rs_size m) = (m', nh') \<and> nh' \<le> rs_size m \<and> length (rs_cells m') = rs_size m \<and>
    rs_size m' = rs_size m \<and> rs_head m' = rs_head m \<and> (\<forall>j < rs_size m. rs_cells m' ! j = rm_fun q p0 p1 (rs_cells m ! j)) \<and>
    rs_used m' = rs_used m - card {j. j < rs_size m \<and> rm_frees q p0 p1 (rs_cells m ! j)}"
  using sweep_cells [where h = "rm_cell q p0 p1" and n = "rs_size m" and fr = "\<lambda>i. rm_frees q p0 p1" and g = "\<lambda>i. rm_fun q p0 p1" and m = m
      and k = "rs_size m" and nh = "rs_size m"] rm_cell_step [where n = "rs_size m" and q = q and ?p0.0 = p0 and ?p1.0 = p1] assms
  unfolding rm_frees_def by simp

lemma rm_sweep_none:
  assumes "rs_inv m" "\<And>j. j < rs_size m \<Longrightarrow> rm_fun q p0 p1 (rs_cells m ! j) = rs_cells m ! j"
    "\<And>j. j < rs_size m \<Longrightarrow> \<not> rm_frees q p0 p1 (rs_cells m ! j)"
  shows "moved (tl_of m) m (lower_rs_head (fold (rm_cell q p0 p1) [0..<rs_size m] (m, rs_size m)))"
proof -
  note I = rs_invD [OF assms(1)]
  have none: "{j. j < rs_size m \<and> rm_frees q p0 p1 (rs_cells m ! j)} = {}"
    using assms(3) by blast
  obtain m' nh' where s: "fold (rm_cell q p0 p1) [0..<rs_size m] (m, rs_size m) = (m', nh')" "nh' \<le> rs_size m" "length (rs_cells m') = rs_size m"
    "rs_size m' = rs_size m" "rs_head m' = rs_head m" "\<forall>j < rs_size m. rs_cells m' ! j = rm_fun q p0 p1 (rs_cells m ! j)" "rs_used m' = rs_used m"
    using rm_sweep [of m q p0 p1] none I(1) by auto
  have "rs_cells m' = rs_cells m"
    using s(3,6) I(1) assms(2) by (intro nth_equalityI) auto
  then show ?thesis
    unfolding s(1) using s I lower_rs_head_simps(4) [of nh' m'] by (intro moved_same_cells [OF moved_refl [OF assms(1) refl]]) auto
qed

lemma rm_sweep_tail:
  assumes inv: "rs_inv m" and q: "q < rs_size m" and t: "t < rs_size m" "tl_of m q = int t" and p: "0 \<le> p0" "p0 \<le> ps m t" "ps m t < p1"
  defines "m1 \<equiv> rs_upd q (\<lambda>c. c\<lparr>mc_tail := - 1\<rparr>) m"
  shows "moved (\<lambda>r. if r = q then - 1 else tl_of m r) m (lower_rs_head (fold (rm_cell (int q) p0 p1) [0..<rs_size m] (m1, rs_size m)))"
proof -
  note I = rs_invD [OF inv]
  have qt: "q \<in> sq m t"
    using I(3) q t by (auto simp: tails_ok_def)
  have only: "q \<in> sq m j \<longleftrightarrow> j = t" if "j < rs_size m" for j
    using tails_unique [OF I(3) that t(1) _ qt] qt by auto
  have m1: "length (rs_cells m1) = rs_size m1" "rs_size m1 = rs_size m" "rs_used m1 = rs_used m" "rs_head m1 = rs_head m"
    using I(1) by (simp_all add: m1_def)
  have cell: "mc_seq (rs_cells m1 ! j) = sq m j" "mc_pos (rs_cells m1 ! j) = ps m j" if "j < rs_size m" for j
    using that I(1) by (simp_all add: m1_def rs_upd_nth)
  let ?emptied = "sq m t = {q}"
  have frees: "{j. j < rs_size m1 \<and> rm_frees (int q) p0 p1 (rs_cells m1 ! j)} = (if ?emptied then {t} else {})"
  proof -
    have "rm_frees (int q) p0 p1 (rs_cells m1 ! j) \<longleftrightarrow> j = t \<and> ?emptied" if "j < rs_size m" for j
      using cell [OF that] only [OF that] p qt by (cases "j = t") (auto simp: rm_frees_def rm_fun_def Let_def)
    then show ?thesis
      using t(1) m1(2) by auto
  qed
  have freed: "card {j. j < rs_size m1 \<and> rm_frees (int q) p0 p1 (rs_cells m1 ! j)} = (if ?emptied then 1 else 0)"
    unfolding frees by simp
  have pos: "0 < rs_used m"
    using I(6) t(1) qt card_gt_0_iff [of "occupied m"] by (auto simp: occupied_def)
  obtain m' nh' where s: "fold (rm_cell (int q) p0 p1) [0..<rs_size m1] (m1, rs_size m1) = (m', nh')" "nh' \<le> rs_size m1" "length (rs_cells m') = rs_size m1"
    "rs_size m' = rs_size m1" "rs_head m' = rs_head m1" "\<forall>j < rs_size m1. rs_cells m' ! j = rm_fun (int q) p0 p1 (rs_cells m1 ! j)"
    "rs_used m' = rs_used m1 - (if ?emptied then 1 else 0)"
    using rm_sweep [of m1 "int q" p0 p1] m1 pos unfolding freed by (cases ?emptied) auto
  define m2 where "m2 = rs_upd q (\<lambda>c. c\<lparr>mc_tail := - 1\<rparr>) (rs_upd t (\<lambda>c. c\<lparr>mc_seq := mc_seq c - {q}\<rparr>) m)"
  define m3 where "m3 = (if mc_is_empty (rs_cells m2 ! t) then dec_used (rs_upd t (\<lambda>c. c\<lparr>mc_pos := - 1, mc_src := - 1\<rparr>) m2) else m2)"
  have d: "detach q m = Some m3"
    using q t I(1) by (simp add: detach_def rs_get_nat Let_def m2_def m3_def)
  then have "detached {q} m m3"
    using detach_ok [OF inv q] by auto
  then have mv: "moved (\<lambda>r. if r = q then - 1 else tl_of m r) m m3"
    using moved_cong [OF detached_moved] by simp
  have e: "mc_is_empty (rs_cells m2 ! t) \<longleftrightarrow> ?emptied"
    using qt t(1) I(1) by (auto simp: m2_def rs_upd_nth mc_is_empty_def)
  have "rs_cells m' = rs_cells m3"
  proof (rule nth_equalityI)
    show "length (rs_cells m') = length (rs_cells m3)"
      using s(3) m1 I(1) by (simp add: m3_def m2_def)
    fix j assume "j < length (rs_cells m')"
    then have j: "j < rs_size m"
      using s(3) m1 by simp
    then have "rs_cells m' ! j = rm_fun (int q) p0 p1 (rs_cells m1 ! j)"
      using s(6) m1 by simp
    also have "\<dots> = rs_cells m3 ! j"
    proof (cases "j = t")
      case True
      then show ?thesis
        using e j I(1) p qt unfolding m3_def m2_def m1_def by (auto simp: rm_fun_def Let_def rs_upd_nth)
    next
      case False
      then show ?thesis
        using only [OF j] j I(1) e unfolding m3_def m2_def m1_def by (auto simp: rm_fun_def rs_upd_nth)
    qed
    finally show "rs_cells m' ! j = rs_cells m3 ! j" .
  qed
  moreover have "rs_used m' = rs_used m3"
    using s(7) m1 e pos by (simp add: m3_def) (simp add: m2_def)
  ultimately have "moved (\<lambda>r. if r = q then - 1 else tl_of m r) m (lower_rs_head (m', nh'))"
    using s m1 I lower_rs_head_simps(4) [of nh' m'] by (intro moved_same_cells [OF mv]) (auto simp: m3_def m2_def)
  then show ?thesis
    using s(1) m1 by simp
qed

text \<open>A sequence is removed as a whole, when the range holds its last position; a range that starts later is refused.\<close>

definition rm_tail :: "int \<Rightarrow> int \<Rightarrow> int \<Rightarrow> memory_recurrent \<Rightarrow> nat \<Rightarrow> int" where
  "rm_tail r p0 p1 m q = (if int q = r \<and> tl_of m q \<noteq> - 1 \<and> pos_lo p0 = 0 \<and> ps m (nat (tl_of m q)) < pos_hi p1 then - 1 else tl_of m q)"

lemma rs_seq_rm_ok:
  assumes inv: "rs_inv m" and all: "\<not> (seq_id < 0 \<and> pos_lo p0 = 0 \<and> pos_hi p1 = INT32_MAX)"
  shows "\<exists>b m'. rs_seq_rm seq_id p0 p1 m = Some (b, m') \<and> moved (rm_tail seq_id p0 p1 m) m m'"
proof -
  note I = rs_invD [OF inv]
  have p: "0 \<le> pos_lo p0"
    by (simp add: pos_lo_def)
  let ?sweep = "\<lambda>m. lower_rs_head (fold (rm_cell seq_id (pos_lo p0) (pos_hi p1)) [0..<rs_size m] (m, rs_size m))"
  have none: "moved T m (?sweep m)" if "\<And>j. j < rs_size m \<Longrightarrow> rm_fun seq_id (pos_lo p0) (pos_hi p1) (rs_cells m ! j) = rs_cells m ! j"
    "\<And>j. j < rs_size m \<Longrightarrow> \<not> rm_frees seq_id (pos_lo p0) (pos_hi p1) (rs_cells m ! j)" "\<And>q. q < rs_size m \<Longrightarrow> T q = tl_of m q" for T
    using moved_cong [OF rm_sweep_none [OF inv that(1,2)] that(3)] .
  consider "seq_id \<ge> int (rs_size m)" | "seq_id < 0" | q where "seq_id = int q" "q < rs_size m"
    by (metis int_nat_eq linorder_not_le nat_int_comparison(2) of_nat_0_le_iff nat_0_le zless_nat_eq_int_zless)
  then show ?thesis
  proof cases
    case 1
    then have "moved (rm_tail seq_id p0 p1 m) m m"
      using inv by (intro moved_refl) (auto simp: rm_tail_def)
    then show ?thesis
      using 1 by (auto simp: rs_seq_rm_def Let_def)
  next
    case 2
    have same: "rm_tail seq_id p0 p1 m r = tl_of m r" for r
      using 2 by (simp add: rm_tail_def)
    show ?thesis
    proof (cases "pos_lo p0 = pos_hi p1")
      case True
      have "moved (rm_tail seq_id p0 p1 m) m (?sweep m)"
        using True same by (intro none) (auto simp: rm_fun_def rm_frees_def)
      then show ?thesis
        using 2 True by (auto simp: rs_seq_rm_def Let_def)
    next
      case False
      have "moved (rm_tail seq_id p0 p1 m) m m"
        using inv same by (intro moved_refl) simp_all
      then show ?thesis
        using 2 False all by (auto simp: rs_seq_rm_def Let_def)
    qed
  next
    case (3 q)
    have get: "rs_get (int q) m = Some (rs_cells m ! q)"
      using 3 I(1) by (simp add: rs_get_nat)
    show ?thesis
    proof (cases "tl_of m q = - 1")
      case True
      have no: "q \<notin> sq m j" if "j < rs_size m" for j
        using tails_mem [OF I(3) that, of q] True by auto
      have "moved (rm_tail seq_id p0 p1 m) m (?sweep m)"
        using no 3(1) True by (intro none) (auto simp: rm_fun_def rm_frees_def rm_tail_def)
      then show ?thesis
        using 3 True get by (auto simp: rs_seq_rm_def Let_def)
    next
      case False
      then obtain t where t: "t < rs_size m" "tl_of m q = int t" "q \<in> sq m t"
        using tailsD [OF I(3) 3(2)] by auto
      have gt: "rs_get (int t) m = Some (rs_cells m ! t)"
        using t I(1) by (simp add: rs_get_nat)
      have tp: "0 \<le> ps m t"
        using I(5) [OF t(1)] t(3) by (auto simp: cell_ok_def split: if_splits)
      show ?thesis
      proof (cases "pos_lo p0 \<le> ps m t \<and> ps m t < pos_hi p1")
        case True
        have "moved (rm_tail seq_id p0 p1 m) m (lower_rs_head (fold (rm_cell (int q) (pos_lo p0) (pos_hi p1)) [0..<rs_size m] (rs_upd q (\<lambda>c. c\<lparr>mc_tail := - 1\<rparr>) m, rs_size m)))"
          if "pos_lo p0 = 0"
          using moved_cong [OF rm_sweep_tail [OF inv 3(2) t(1,2) p], of "pos_hi p1" "rm_tail seq_id p0 p1 m"] True t 3(1) that by (simp add: rm_tail_def)
        moreover have "moved (rm_tail seq_id p0 p1 m) m m" if "pos_lo p0 \<noteq> 0"
          using inv that by (intro moved_refl) (simp_all add: rm_tail_def)
        ultimately show ?thesis
          using 3 t get gt True p by (cases "0 < pos_lo p0") (auto simp: rs_seq_rm_def Let_def)
      next
        case out: False
        have skip: "\<not> (pos_lo p0 \<le> ps m j \<and> ps m j < pos_hi p1 \<and> has_seq_id seq_id (rs_cells m ! j))" if "j < rs_size m" for j
          using out 3(1) tails_unique [OF I(3) that t(1) _ t(3)] by auto
        have "moved (rm_tail seq_id p0 p1 m) m (?sweep m)"
        proof (rule none)
          fix j assume "j < rs_size m"
          then show "rm_fun seq_id (pos_lo p0) (pos_hi p1) (rs_cells m ! j) = rs_cells m ! j" "\<not> rm_frees seq_id (pos_lo p0) (pos_hi p1) (rs_cells m ! j)"
            using skip 3(1) by (auto simp: rm_fun_def rm_frees_def)
        next
          fix r
          show "rm_tail seq_id p0 p1 m r = tl_of m r"
            using out 3(1) t(2) tp by (auto simp: rm_tail_def)
        qed
        then show ?thesis
          using 3 t get gt out by (auto simp: rs_seq_rm_def Let_def)
      qed
    qed
  qed
qed

text \<open>\<open>seq_keep\<close> leaves the kept sequence alone in its cell.\<close>

definition keep_fun :: "int \<Rightarrow> nat \<Rightarrow> mem_cell \<Rightarrow> mem_cell" where
  "keep_fun q i c =
     (let c1 = (if int i \<noteq> q then c\<lparr>mc_tail := - 1\<rparr> else c) in
      if has_seq_id q c then c1\<lparr>mc_seq := {nat q}\<rparr> else c1\<lparr>mc_seq := {}, mc_pos := - 1, mc_src := - 1\<rparr>)"

definition keep_frees :: "int \<Rightarrow> mem_cell \<Rightarrow> bool" where
  "keep_frees q c \<longleftrightarrow> \<not> has_seq_id q c \<and> mc_pos c \<ge> 0"

lemma keep_cell_step:
  assumes "i < n" "length (rs_cells m) = n" "rs_size m = n"
  shows "fst (keep_cell q i (m, nh)) = (if keep_frees q (rs_cells m ! i) then dec_used (rs_upd i (keep_fun q i) m) else rs_upd i (keep_fun q i) m)"
    "nh \<le> n \<Longrightarrow> snd (keep_cell q i (m, nh)) \<le> n"
proof -
  show "fst (keep_cell q i (m, nh)) = (if keep_frees q (rs_cells m ! i) then dec_used (rs_upd i (keep_fun q i) m) else rs_upd i (keep_fun q i) m)"
    using assms by (auto simp: keep_cell_def Let_def keep_fun_def keep_frees_def free_cell_def rs_upd_def dec_used_def has_seq_id_def)
  show "nh \<le> n \<Longrightarrow> snd (keep_cell q i (m, nh)) \<le> n"
    using assms by (auto simp: keep_cell_def Let_def free_cell_def)
qed

lemma occupied_pos: "rs_inv m \<Longrightarrow> j < rs_size m \<Longrightarrow> j \<in> occupied m \<longleftrightarrow> 0 \<le> ps m j"
  using rs_invD(5) [of m j] by (auto simp: occupied_def cell_ok_def split: if_splits)

lemma rs_seq_keep_ok:
  assumes inv: "rs_inv m"
  shows "moved (\<lambda>r. if int r = q then tl_of m r else - 1) m (rs_seq_keep q m)"
proof -
  note I = rs_invD [OF inv]
  define F where "F = {j. j < rs_size m \<and> keep_frees q (rs_cells m ! j)}"
  have F: "F \<subseteq> occupied m" "occupied m - F = {j. j < rs_size m \<and> has_seq_id q (rs_cells m ! j)}"
    using occupied_pos [OF inv] by (auto simp: F_def keep_frees_def occupied_def has_seq_id_def)
  have le: "card F \<le> rs_used m" "rs_used m - card F = card (occupied m - F)"
    unfolding I(6) using card_mono [OF _ F(1)] card_Diff_subset [OF _ F(1)] finite_subset [OF F(1)] by simp_all
  obtain m' nh' where s: "fold (keep_cell q) [0..<rs_size m] (m, rs_size m) = (m', nh')" "nh' \<le> rs_size m" "length (rs_cells m') = rs_size m"
    "rs_size m' = rs_size m" "rs_head m' = rs_head m" "\<forall>j < rs_size m. rs_cells m' ! j = keep_fun q j (rs_cells m ! j)"
    "rs_used m' = rs_used m - card F"
    using sweep_cells [where h = "keep_cell q" and n = "rs_size m" and fr = "\<lambda>i. keep_frees q" and g = "keep_fun q" and m = m
      and k = "rs_size m" and nh = "rs_size m"] keep_cell_step [where n = "rs_size m" and q = q] le(1) I(1) by (auto simp: F_def)
  have seq: "sq m' j = (if has_seq_id q (rs_cells m ! j) then {nat q} else {})" if "j < rs_size m" for j
    using s(6) that by (simp add: keep_fun_def Let_def)
  have tl: "tl_of m' r = (if int r = q then tl_of m r else - 1)" if "r < rs_size m" for r
    using s(6) that by (simp add: keep_fun_def Let_def)
  have cells: "cell_ok j (rs_cells m' ! j)" if "j < rs_size m" for j
    using I(5) [OF that] s(6) that by (auto simp: cell_ok_def keep_fun_def Let_def has_seq_id_def split: if_splits)
  have "tails_ok m'"
    unfolding tails_ok_def s(4)
  proof (intro conjI allI impI)
    fix r assume r: "r < rs_size m"
    then show "tl_of m' r = - 1 \<or> 0 \<le> tl_of m' r \<and> tl_of m' r < int (rs_size m)"
      using I(3) tl by (auto simp: tails_ok_def)
    fix j assume j: "j < rs_size m"
    have "tl_of m r = int j \<longleftrightarrow> r \<in> sq m j"
      using I(3) r j by (auto simp: tails_ok_def)
    then show "tl_of m' r = int j \<longleftrightarrow> r \<in> sq m' j"
      using tl [OF r] seq [OF j] by (auto simp: has_seq_id_def)
  next
    fix j assume j: "j < rs_size m"
    then show "sq m' j \<subseteq> {..<rs_size m}"
      using seq [OF j] tails_mem [OF I(3) j] by (auto simp: has_seq_id_def)
  qed
  then have tails: "tails_ok (lower_rs_head (m', nh'))"
    by (simp add: tails_ok_def)
  have "sq m' j \<noteq> {} \<longleftrightarrow> has_seq_id q (rs_cells m ! j)" if "j < rs_size m" for j
    unfolding seq [OF that] by simp
  then have "occupied (lower_rs_head (m', nh')) = occupied m - F"
    unfolding F(2) by (simp add: occupied_def s(4) cong: conj_cong)
  then have "rs_inv (lower_rs_head (m', nh'))"
    unfolding rs_inv_def using tails cells s(2,3,4,5,7) le(2) I(2,4,7) lower_rs_head_simps(4) [of nh' m'] by simp
  moreover have "sr m' j = int j \<longrightarrow> sq m' j \<noteq> {}" if "j < rs_size m" for j
    using s(6) that by (auto simp: keep_fun_def Let_def)
  ultimately show ?thesis
    unfolding rs_seq_keep_def s(1) moved_def using tl s(4) by simp blast
qed

section \<open>The contract of memories\<close>

lemma map_pos_ok:
  assumes inv: "rs_inv m"
    and f: "\<And>t. t < rs_size m \<Longrightarrow> pos_lo p0 \<le> ps m t \<Longrightarrow> ps m t < pos_hi p1 \<Longrightarrow> has_seq_id q (rs_cells m ! t) \<Longrightarrow> \<exists>x. f (ps m t) = Some x \<and> 0 \<le> x"
  shows "\<exists>m'. map_pos q p0 p1 f m = Some m' \<and> moved (tl_of m) m m'"
proof (cases "pos_lo p0 \<noteq> pos_hi p1 \<and> 0 \<le> q \<and> q < int (rs_size m) \<and> tl_of m (nat q) \<noteq> - 1")
  case True
  note I = rs_invD [OF inv]
  obtain t where t: "t < rs_size m" "tl_of m (nat q) = int t" "nat q \<in> sq m t"
    using tailsD [OF I(3), of "nat q"] True by (auto simp: nat_less_iff)
  have get: "rs_get q m = Some (rs_cells m ! nat q)" "rs_get (int t) m = Some (rs_cells m ! t)" "has_seq_id q (rs_cells m ! t)"
    using True t I(1) by (auto simp: rs_get_def has_seq_id_def)
  show ?thesis
  proof (cases "pos_lo p0 \<le> ps m t \<and> ps m t < pos_hi p1")
    case in_range: True
    then obtain x where x: "f (ps m t) = Some x" "0 \<le> x"
      using f [OF t(1)] get(3) by blast
    define m' where "m' = rs_upd t (\<lambda>c. c\<lparr>mc_pos := x\<rparr>) m"
    have view: "tl_of m' j = tl_of m j" "sq m' j = sq m j" "cell_ok j (rs_cells m' ! j)" if "j < rs_size m" for j
      using that I(1) I(5) [OF that] t x by (auto simp: m'_def rs_upd_nth cell_ok_def split: if_splits)
    then have "tails_ok m'" "occupied m' = occupied m"
      using I(3) by (auto simp: tails_ok_def occupied_def m'_def)
    then have "rs_inv m'"
      using I view by (simp add: rs_inv_def m'_def)
    moreover have "sr m' j = sr m j" if "j < rs_size m" for j
      using that I(1) by (simp add: m'_def rs_upd_nth)
    ultimately have "moved (tl_of m) m m'"
      using view by (simp add: moved_def) (simp add: m'_def)
    then show ?thesis
      using True get t in_range x by (auto simp: map_pos_def Let_def m'_def)
  next
    case False
    then show ?thesis
      using True get t moved_refl [OF inv refl] by (auto simp: map_pos_def Let_def)
  qed
next
  case False
  then show ?thesis
    using moved_refl [OF inv refl] rs_invD(1) [OF inv] by (auto simp: map_pos_def Let_def rs_get_def)
qed

definition rs_exec :: "mem_op \<Rightarrow> memory_recurrent \<Rightarrow> memory_recurrent option" where
  "rs_exec op m = (case op of
       Op_Clear data \<Rightarrow> Some (rs_clear m)
     | Op_Seq_Rm q p0 p1 \<Rightarrow> map_option snd (rs_seq_rm q p0 p1 m)
     | Op_Seq_Cp a b p0 p1 \<Rightarrow> rs_seq_cp a b p0 p1 m
     | Op_Seq_Keep q \<Rightarrow> Some (rs_seq_keep q m)
     | Op_Seq_Add q p0 p1 shift \<Rightarrow> rs_seq_add q p0 p1 shift m
     | Op_Seq_Div q p0 p1 d \<Rightarrow> rs_seq_div q p0 p1 d m)"

text \<open>A client may not remove all sequences at once by \<open>seq_rm\<close>, nor move a position below zero or out of the range of \<open>llama_pos\<close>,
  and divides by positive numbers.\<close>

definition rs_allowed :: "mem_op \<Rightarrow> memory_recurrent \<Rightarrow> bool" where
  "rs_allowed op m = (case op of
       Op_Clear data \<Rightarrow> True
     | Op_Seq_Rm q p0 p1 \<Rightarrow> \<not> (q < 0 \<and> pos_lo p0 = 0 \<and> pos_hi p1 = INT32_MAX)
     | Op_Seq_Cp a b p0 p1 \<Rightarrow> in_i32 a \<and> in_i32 b
     | Op_Seq_Keep q \<Rightarrow> True
     | Op_Seq_Add q p0 p1 shift \<Rightarrow>
         list_all (\<lambda>c. pos_lo p0 \<le> mc_pos c \<and> mc_pos c < pos_hi p1 \<and> has_seq_id q c \<longrightarrow> 0 \<le> mc_pos c + shift \<and> mc_pos c + shift \<le> INT32_MAX) (rs_cells m)
     | Op_Seq_Div q p0 p1 d \<Rightarrow> 0 < d \<and> pos_hi p1 \<le> INT32_MAX)"

text \<open>The tails after an operation: this is all that an operation does to the states of the sequences.\<close>

definition op_tail :: "mem_op \<Rightarrow> memory_recurrent \<Rightarrow> nat \<Rightarrow> int" where
  "op_tail op m = (case op of
       Op_Clear data \<Rightarrow> (\<lambda>q. - 1)
     | Op_Seq_Rm r p0 p1 \<Rightarrow> rm_tail r p0 p1 m
     | Op_Seq_Cp a b p0 p1 \<Rightarrow> (\<lambda>q. if int q = b \<and> 0 \<le> a \<and> a < int (rs_size m) then tl_of m (nat a) else tl_of m q)
     | Op_Seq_Keep r \<Rightarrow> (\<lambda>q. if int q = r then tl_of m q else - 1)
     | Op_Seq_Add r p0 p1 shift \<Rightarrow> tl_of m
     | Op_Seq_Div r p0 p1 d \<Rightarrow> tl_of m)"

lemma rs_exec_moved:
  assumes "rs_inv m" "rs_allowed op m"
  shows "\<exists>m'. rs_exec op m = Some m' \<and> moved (op_tail op m) m m'"
proof (cases op)
  case (Op_Clear data)
  have "rs_inv (rs_clear m)"
    using rs_invD [OF assms(1)] by (auto simp: rs_inv_def rs_clear_def tails_ok_def cell_ok_def occupied_def)
  then have "moved (\<lambda>q. - 1) m (rs_clear m)"
    using rs_invD(1) [OF assms(1)] by (simp add: moved_def rs_clear_def)
  then show ?thesis
    using Op_Clear by (simp add: rs_exec_def op_tail_def)
next
  case (Op_Seq_Rm q p0 p1)
  then show ?thesis
    using rs_seq_rm_ok [OF assms(1), of q p0 p1] assms(2) by (auto simp: rs_exec_def rs_allowed_def op_tail_def)
next
  case (Op_Seq_Cp a b p0 p1)
  then show ?thesis
    using rs_seq_cp_ok [OF assms(1), of a b] assms(2) by (auto simp: rs_exec_def rs_allowed_def in_i32_def INT32_MIN_def INT32_MAX_def op_tail_def)
next
  case (Op_Seq_Keep q)
  then show ?thesis
    using rs_seq_keep_ok [OF assms(1)] by (simp add: rs_exec_def op_tail_def)
next
  case (Op_Seq_Add q p0 p1 shift)
  have "\<exists>m'. map_pos q p0 p1 (\<lambda>x. i32 (x + shift)) m = Some m' \<and> moved (tl_of m) m m'"
    using assms(2) rs_invD(1) [OF assms(1)] Op_Seq_Add
    by (intro map_pos_ok [OF assms(1)]) (auto simp: rs_allowed_def list_all_length i32_def in_i32_def INT32_MIN_def)
  then show ?thesis
    using Op_Seq_Add moved_refl [OF assms(1) refl] by (simp add: rs_exec_def rs_seq_add_def op_tail_def)
next
  case (Op_Seq_Div q p0 p1 d)
  have "\<exists>m'. map_pos q p0 p1 (\<lambda>x. cdiv x d) m = Some m' \<and> moved (tl_of m) m m'"
    using assms(2) Op_Seq_Div sdiv_nonneg_bounds(1)
    by (intro map_pos_ok [OF assms(1)]) (auto simp: rs_allowed_def cdiv_nonneg pos_lo_def split: if_splits)
  then show ?thesis
    using Op_Seq_Div moved_refl [OF assms(1) refl] by (simp add: rs_exec_def rs_seq_div_def op_tail_def)
qed

lemma rs_exec_ok:
  assumes "rs_inv m" "rs_allowed op m"
  shows "\<exists>m'. rs_exec op m = Some m' \<and> rs_inv m'"
  using rs_exec_moved [OF assms] by (auto simp: moved_def)

interpretation rs: llama_memory rs_inv rs_allowed rs_exec
  by unfold_locales (rule rs_exec_ok)

end
