(* ===== verification/Recurrent_Slot.thy ===== *)
theory Recurrent_Slot
  imports Recurrent_Inv
begin

text \<open>
  The search for a slot of the recurrent memory: for a ubatch of distinct sequences it always succeeds, gathers one
  cell per set of sequences at the head of the slot, keeps the invariant and the position of every other sequence,
  and plans the copies of the states so that every sequence of the ubatch is given the state it had, or the zeroed
  state when it had none, and every other sequence keeps its state.
\<close>

section \<open>Ubatches for the recurrent memory\<close>

text \<open>The sets of sequences of a ubatch, the first sequence of a set (which stands for it) and the last position.\<close>

definition seqs_of :: "'e llama_ubatch \<Rightarrow> nat \<Rightarrow> nat list" where
  "seqs_of ub s = map nat (ub_seq_id ub ! (s * ub_n_seq_tokens ub))"

definition lead :: "'e llama_ubatch \<Rightarrow> nat \<Rightarrow> nat" where
  "lead ub s = hd (seqs_of ub s)"

definition last_pos_of :: "'e llama_ubatch \<Rightarrow> nat \<Rightarrow> int" where
  "last_pos_of ub s = ub_pos ub ! (s * ub_n_seq_tokens ub + ub_n_seq_tokens ub - 1)"

definition rs_ubatch :: "nat \<Rightarrow> 'e llama_ubatch \<Rightarrow> bool" where
  "rs_ubatch n ub \<longleftrightarrow> ub_equal_seqs ub \<and> 0 < ub_n_seqs ub \<and> 0 < ub_n_seq_tokens ub \<and>
     length (ub_pos ub) \<ge> ub_n_seqs ub * ub_n_seq_tokens ub \<and> length (ub_seq_id ub) = ub_n_seqs ub * ub_n_seq_tokens ub \<and>
     ub_n_seq_id ub = map length (ub_seq_id ub) \<and> list_all (\<lambda>p. 0 \<le> p) (ub_pos ub) \<and>
     list_all (\<lambda>qs. qs \<noteq> [] \<and> list_all (\<lambda>q. 0 \<le> q \<and> q < int n) qs) (ub_seq_id ub) \<and>
     distinct (concat (map (seqs_of ub) [0..<ub_n_seqs ub]))"

lemma seq_index:
  assumes "s < ub_n_seqs ub" "0 < ub_n_seq_tokens ub"
  shows "s * ub_n_seq_tokens ub < ub_n_seqs ub * ub_n_seq_tokens ub"
    "s * ub_n_seq_tokens ub + ub_n_seq_tokens ub - 1 < ub_n_seqs ub * ub_n_seq_tokens ub"
proof -
  have "(s + 1) * ub_n_seq_tokens ub \<le> ub_n_seqs ub * ub_n_seq_tokens ub"
    using assms(1) by (intro mult_le_mono1) simp
  then have "s * ub_n_seq_tokens ub + ub_n_seq_tokens ub \<le> ub_n_seqs ub * ub_n_seq_tokens ub"
    by (simp add: algebra_simps)
  then show "s * ub_n_seq_tokens ub < ub_n_seqs ub * ub_n_seq_tokens ub"
    "s * ub_n_seq_tokens ub + ub_n_seq_tokens ub - 1 < ub_n_seqs ub * ub_n_seq_tokens ub"
    using assms(2) by linarith+
qed

lemma rs_ubatchD:
  assumes u: "rs_ubatch n ub" and s: "s < ub_n_seqs ub"
  shows "seq_ids_of ub s = Some (map int (seqs_of ub s))" "head_seq ub s = Some (int (lead ub s))" "seqs_of ub s \<noteq> []"
    "set (seqs_of ub s) \<subseteq> {..<n}" "distinct (seqs_of ub s)" "0 \<le> last_pos_of ub s"
    "s * ub_n_seq_tokens ub + ub_n_seq_tokens ub - 1 < length (ub_pos ub)" "lead ub s \<in> set (seqs_of ub s)" "lead ub s < n"
proof -
  let ?i = "s * ub_n_seq_tokens ub"
  have i: "?i < length (ub_seq_id ub)" "?i + ub_n_seq_tokens ub - 1 < length (ub_pos ub)"
    using u s seq_index [OF s] by (auto simp: rs_ubatch_def)
  have len: "ub_n_seq_id ub = map length (ub_seq_id ub)" "list_all (\<lambda>qs. qs \<noteq> [] \<and> list_all (\<lambda>q. 0 \<le> q \<and> q < int n) qs) (ub_seq_id ub)"
    "list_all (\<lambda>p. 0 \<le> p) (ub_pos ub)"
    using u by (simp_all add: rs_ubatch_def)
  have row: "ub_seq_id ub ! ?i \<noteq> []" "\<forall>q \<in> set (ub_seq_id ub ! ?i). 0 \<le> q \<and> q < int n"
    using len(2) nth_mem [OF i(1)] by (auto simp: list_all_iff)
  have row_int: "map int (seqs_of ub s) = ub_seq_id ub ! ?i"
    using row(2) by (simp add: seqs_of_def comp_def map_idI)
  show "seqs_of ub s \<noteq> []" "set (seqs_of ub s) \<subseteq> {..<n}"
    using row by (auto simp: seqs_of_def)
  then show "lead ub s \<in> set (seqs_of ub s)" "lead ub s < n"
    unfolding lead_def by (simp, meson hd_in_set lessThan_iff subsetD)
  show "seq_ids_of ub s = Some (map int (seqs_of ub s))"
    using i(1) len(1) row_int by (simp add: seq_ids_of_def Let_def)
  have "lead ub s = nat (ub_seq_id ub ! ?i ! 0)" "0 \<le> ub_seq_id ub ! ?i ! 0"
    using row by (simp_all add: lead_def seqs_of_def hd_map hd_conv_nth)
  then show "head_seq ub s = Some (int (lead ub s))"
    using i(1) row(1) by (simp add: head_seq_def Let_def)
  show "distinct (seqs_of ub s)"
    using u s by (auto simp: rs_ubatch_def distinct_concat_iff)
  show "0 \<le> last_pos_of ub s" "?i + ub_n_seq_tokens ub - 1 < length (ub_pos ub)"
    using len(3) i(2) by (simp_all add: last_pos_of_def list_all_length)
qed

lemma distinct_concat_upt:
  assumes "distinct (concat (map f [0..<n]))" "s < n" "s' < n" "q \<in> set (f s)" "q \<in> set (f s')"
  shows "s = s'"
  using assms
proof (induction n)
  case (Suc n)
  have "q \<notin> set (f n)" if "t < n" "q \<in> set (f t)" for t
  proof -
    have "q \<in> (\<Union>a\<in>{0..<n}. set (f a))"
      using that by auto
    then show ?thesis
      using Suc.prems(1) by (auto simp: disjoint_iff)
  qed
  then show ?case
    using Suc by (cases "s = n"; cases "s' = n") (auto simp: less_Suc_eq)
qed simp

lemma seqs_disjoint:
  assumes "rs_ubatch n ub" "s < ub_n_seqs ub" "s' < ub_n_seqs ub" "q \<in> set (seqs_of ub s)" "q \<in> set (seqs_of ub s')"
  shows "s = s'"
  using assms distinct_concat_upt [of "seqs_of ub" "ub_n_seqs ub"] by (simp add: rs_ubatch_def)

lemma lead_inj: "rs_ubatch n ub \<Longrightarrow> s < ub_n_seqs ub \<Longrightarrow> s' < ub_n_seqs ub \<Longrightarrow> lead ub s = lead ub s' \<Longrightarrow> s = s'"
  using seqs_disjoint [of n ub s s' "lead ub s"] rs_ubatchD(8) [of n ub s] rs_ubatchD(8) [of n ub s'] by simp

section \<open>Sequences that become shared\<close>

lemma share_seqs_ok:
  assumes "rs_inv m" "set qs \<subseteq> {..<rs_size m}"
  shows "\<exists>m'. share_seqs (map int qs) False m = Some (True, m') \<and> detached (set qs) m m'"
  using assms
proof (induction qs arbitrary: m)
  case Nil
  then show ?case
    by (simp add: detached_refl)
next
  case (Cons q qs)
  obtain m1 where m1: "detach q m = Some m1" "detached {q} m m1"
    using detach_ok [OF Cons.prems(1), of q] Cons.prems(2) by auto
  then obtain m' where "share_seqs (map int qs) False m1 = Some (True, m')" "detached (set qs) m1 m'"
    using Cons.IH [of m1] Cons.prems(2) by (auto simp: detached_def)
  then show ?case
    using m1 detached_trans [OF m1(2), of "set qs" m'] Cons.prems(2) by simp
qed

definition followers :: "'e llama_ubatch \<Rightarrow> nat list \<Rightarrow> nat set" where
  "followers ub ss = (\<Union>s \<in> set ss. set (tl (seqs_of ub s)))"

lemma share_all_ok:
  assumes "rs_inv m" "rs_ubatch (rs_size m) ub" "set ss \<subseteq> {..<ub_n_seqs ub}"
  shows "\<exists>m'. share_all ub ss m = Some (True, m') \<and> detached (followers ub ss) m m'"
  using assms
proof (induction ss arbitrary: m)
  case Nil
  then show ?case
    by (simp add: detached_refl followers_def)
next
  case (Cons s ss)
  have s: "s < ub_n_seqs ub"
    using Cons.prems(3) by simp
  note D = rs_ubatchD [OF Cons.prems(2) s]
  obtain q qs where q: "seqs_of ub s = q # qs"
    using D(3) by (cases "seqs_of ub s") auto
  have b: "q < rs_size m" "set qs \<subseteq> {..<rs_size m}"
    using D(4) q by auto
  obtain m1 where m1: "share_seqs (map int qs) False m = Some (True, m1)" "detached (set qs) m m1"
    using share_seqs_ok [OF Cons.prems(1) b(2)] by blast
  then obtain m' where m': "share_all ub ss m1 = Some (True, m')" "detached (followers ub ss) m1 m'"
    using Cons.IH [of m1] Cons.prems by (auto simp: detached_def)
  have "followers ub (s # ss) = set qs \<union> followers ub ss"
    by (simp add: followers_def q)
  then show ?case
    using D(1) q b(1) m1 m' detached_trans [OF m1(2) m'(2)] by simp
qed

section \<open>Searching for an empty cell\<close>

lemma wrap_mod: "0 < rs_size m \<Longrightarrow> i \<le> rs_size m \<Longrightarrow> wrap i m = i mod rs_size m"
  by (auto simp: wrap_def)

lemma cyclic_shift: "(i mod n + 1 + x) mod n = (i + Suc x) mod (n :: nat)"
  by (metis add.assoc add.commute mod_add_left_eq plus_1_eq_Suc)

lemma first_empty_first:
  assumes "0 < rs_size m" "length (rs_cells m) = rs_size m" "i \<le> rs_size m" "d < f" "sq m ((i + d) mod rs_size m) = {}"
    "\<And>d'. d' < d \<Longrightarrow> sq m ((i + d') mod rs_size m) \<noteq> {}"
  shows "first_empty f i m = Some ((i + d) mod rs_size m)"
  using assms
proof (induction f arbitrary: i d)
  case (Suc f)
  let ?i = "i mod rs_size m"
  have i: "wrap i m = ?i" "?i < rs_size m"
    using Suc.prems(1,3) wrap_mod by simp_all
  show ?case
  proof (cases d)
    case 0
    then show ?thesis
      using Suc.prems(2,5) i by (simp add: rs_get_nat Let_def mc_is_empty_def)
  next
    case d: (Suc e)
    have "sq m ?i \<noteq> {}"
      using Suc.prems(6) [of 0] d by simp
    moreover have "first_empty f (?i + 1) m = Some ((?i + 1 + e) mod rs_size m)"
    proof (rule Suc.IH [OF Suc.prems(1,2)])
      show "?i + 1 \<le> rs_size m" "e < f"
        using i(2) Suc.prems(4) d by simp_all
      show "sq m ((?i + 1 + e) mod rs_size m) = {}"
        using Suc.prems(5) unfolding cyclic_shift d .
      fix d' assume "d' < e"
      then show "sq m ((?i + 1 + d') mod rs_size m) \<noteq> {}"
        using Suc.prems(6) [of "Suc d'"] unfolding cyclic_shift d by simp
    qed
    ultimately show ?thesis
      using d Suc.prems(2) i by (simp add: rs_get_nat Let_def mc_is_empty_def cyclic_shift [simplified])
  qed
qed simp

lemma first_empty_total:
  assumes "0 < rs_size m" "length (rs_cells m) = rs_size m" "i \<le> rs_size m"
  shows "\<exists>e. first_empty f i m = Some e"
  using assms by (induction f arbitrary: i) (simp_all add: wrap_mod Let_def rs_get_nat Suc_le_eq)

lemma next_empty_first:
  assumes "0 < rs_size m" "length (rs_cells m) = rs_size m" "i < rs_size m" "d < f" "sq m ((i + 1 + d) mod rs_size m) = {}"
    "\<And>d'. d' < d \<Longrightarrow> sq m ((i + 1 + d') mod rs_size m) \<noteq> {}"
  shows "next_empty f i m = Some ((i + 1 + d) mod rs_size m)"
  using assms
proof (induction f arbitrary: i d)
  case (Suc f)
  let ?i = "(i + 1) mod rs_size m"
  have i: "wrap (i + 1) m = ?i" "?i < rs_size m"
    using Suc.prems(1,3) wrap_mod [of m "i + 1"] by simp_all
  show ?case
  proof (cases d)
    case 0
    then show ?thesis
      using Suc.prems(2,5) i by (simp add: rs_get_nat Let_def mc_is_empty_def)
  next
    case d: (Suc e)
    have "sq m ?i \<noteq> {}"
      using Suc.prems(6) [of 0] d by simp
    moreover have "next_empty f ?i m = Some ((?i + 1 + e) mod rs_size m)"
    proof (rule Suc.IH [OF Suc.prems(1,2) i(2)])
      show "e < f"
        using Suc.prems(4) d by simp
      show "sq m ((?i + 1 + e) mod rs_size m) = {}"
        using Suc.prems(5) cyclic_shift [of "i + 1" "rs_size m" e] by (simp add: d)
      fix d' assume "d' < e"
      then show "sq m ((?i + 1 + d') mod rs_size m) \<noteq> {}"
        using Suc.prems(6) [of "Suc d'"] cyclic_shift [of "i + 1" "rs_size m" d'] by (simp add: d)
    qed
    ultimately show ?thesis
      using d Suc.prems(2) i cyclic_shift [of "i + 1" "rs_size m" e] by (simp add: rs_get_nat Let_def mc_is_empty_def)
  qed
qed simp

lemma next_empty_total:
  assumes "0 < rs_size m" "length (rs_cells m) = rs_size m" "i < rs_size m"
  shows "\<exists>e. next_empty f i m = Some e"
  using assms by (induction f arbitrary: i) (simp_all add: wrap_mod Let_def rs_get_nat Suc_le_eq)

section \<open>The range of cells\<close>

text \<open>While the range is searched, a sequence without a state points to its new cell before it is put into it: it is pending.\<close>

definition pend_inv :: "nat set \<Rightarrow> memory_recurrent \<Rightarrow> bool" where
  "pend_inv P m \<longleftrightarrow> 0 < rs_size m \<and> length (rs_cells m) = rs_size m \<and>
     (\<forall>q < rs_size m. q \<notin> P \<longrightarrow> tl_of m q = - 1 \<or> (\<exists>t < rs_size m. tl_of m q = int t \<and> q \<in> sq m t)) \<and>
     (\<forall>q \<in> P. q < rs_size m \<and> (\<exists>t < rs_size m. tl_of m q = int t \<and> sq m t = {})) \<and> inj_on (tl_of m) P \<and>
     (\<forall>j < rs_size m. \<forall>q \<in> sq m j. q < rs_size m \<and> tl_of m q = int j) \<and>
     (\<forall>j < rs_size m. (if sq m j = {} then ps m j = - 1 else 0 \<le> ps m j) \<and> - 1 \<le> sr m j \<and> sr m j < int (rs_size m))"

lemma pend_invD:
  assumes "pend_inv P m"
  shows "0 < rs_size m" "length (rs_cells m) = rs_size m"
    "\<And>q. q < rs_size m \<Longrightarrow> q \<notin> P \<Longrightarrow> tl_of m q = - 1 \<or> (\<exists>t < rs_size m. tl_of m q = int t \<and> q \<in> sq m t)"
    "\<And>q. q \<in> P \<Longrightarrow> q < rs_size m \<and> (\<exists>t < rs_size m. tl_of m q = int t \<and> sq m t = {})" "inj_on (tl_of m) P"
    "\<And>j q. j < rs_size m \<Longrightarrow> q \<in> sq m j \<Longrightarrow> q < rs_size m \<and> tl_of m q = int j"
    "\<And>j. j < rs_size m \<Longrightarrow> (if sq m j = {} then ps m j = - 1 else 0 \<le> ps m j) \<and> - 1 \<le> sr m j \<and> sr m j < int (rs_size m)"
  using assms by (simp_all add: pend_inv_def)

lemma rs_inv_pend:
  assumes "rs_inv m"
  shows "pend_inv {} m"
proof -
  note I = rs_invD [OF assms]
  show ?thesis
    unfolding pend_inv_def
  proof (intro conjI allI impI ballI; (elim emptyE)?)
    fix q assume "q < rs_size m"
    then show "tl_of m q = - 1 \<or> (\<exists>t < rs_size m. tl_of m q = int t \<and> q \<in> sq m t)"
      by (rule tailsD [OF I(3)])
  next
    fix j q assume "j < rs_size m" "q \<in> sq m j"
    then show "q < rs_size m" "tl_of m q = int j"
      using tails_mem [OF I(3)] by auto
  next
    fix j assume j: "j < rs_size m"
    then show "if sq m j = {} then ps m j = - 1 else 0 \<le> ps m j" "- 1 \<le> sr m j" "sr m j < int (rs_size m)"
      using I(5) [OF j] by (auto simp: cell_ok_def split: if_splits)
  qed (use I in simp_all)
qed

text \<open>What a sequence sees of its cell: the position and the source of its state.\<close>

definition view :: "memory_recurrent \<Rightarrow> nat \<Rightarrow> (int \<times> int) option" where
  "view m q = (if tl_of m q = - 1 then None else Some (ps m (nat (tl_of m q)), sr m (nat (tl_of m q))))"

definition free :: "memory_recurrent \<Rightarrow> nat \<Rightarrow> bool" where
  "free m j \<longleftrightarrow> j < rs_size m \<and> sq m j = {} \<and> (\<forall>r < rs_size m. tl_of m r \<noteq> int j)"

text \<open>A sequence that has no cell of its own leaves a free cell.\<close>

lemma free_exists:
  assumes inv: "pend_inv P m" and q: "q < rs_size m" and other: "tl_of m q = - 1 \<or> (\<exists>r < rs_size m. r \<noteq> q \<and> tl_of m r = tl_of m q)"
  shows "\<exists>j. free m j"
proof (rule ccontr)
  assume none: "\<nexists>j. free m j"
  have "\<exists>r \<in> {..<rs_size m} - {q}. j = nat (tl_of m r)" if j: "j < rs_size m" for j
  proof -
    obtain r where r: "r < rs_size m" "tl_of m r = int j"
      using none j pend_invD(6) [OF inv j] unfolding free_def by (meson all_not_in_conv)
    then obtain r' where "r' < rs_size m" "r' \<noteq> q" "tl_of m r' = int j"
      using other by (cases "r = q") auto
    then show ?thesis
      by (intro bexI [of _ r']) simp_all
  qed
  then have "{..<rs_size m} \<subseteq> (\<lambda>r. nat (tl_of m r)) ` ({..<rs_size m} - {q})"
    by auto
  then have "card {..<rs_size m} \<le> card ({..<rs_size m} - {q})"
    by (intro surj_card_le) simp_all
  then show False
    using q by simp
qed

text \<open>The cell the search points to is the first free cell in cyclic order from \<open>h\<close>, unless there is no free cell; behind it, empty
  cells are free.\<close>

definition cursor :: "nat \<Rightarrow> nat \<Rightarrow> memory_recurrent \<Rightarrow> bool" where
  "cursor h e m \<longleftrightarrow> (\<exists>j. free m j) \<longrightarrow>
     (\<exists>k < rs_size m. e = (h + k) mod rs_size m \<and> free m e \<and> (\<forall>k' < k. \<not> free m ((h + k') mod rs_size m)) \<and>
        (\<forall>k' < rs_size m. k \<le> k' \<longrightarrow> sq m ((h + k') mod rs_size m) = {} \<longrightarrow> free m ((h + k') mod rs_size m)))"

lemma cyclic_offset:
  assumes "j < n" "h < (n :: nat)"
  shows "\<exists>k < n. j = (h + k) mod n"
proof (intro exI conjI)
  show "(j + n - h) mod n < n"
    using assms by simp
  show "j = (h + (j + n - h) mod n) mod n"
    using assms by (simp add: mod_simps)
qed

lemma cursor_first:
  assumes inv: "pend_inv {} m" and h: "h < rs_size m"
  shows "\<exists>e. first_empty (rs_size m) h m = Some e \<and> cursor h e m"
proof (cases "\<exists>j. free m j")
  case False
  then show ?thesis
    using first_empty_total [of m h] pend_invD(1,2) [OF inv] h by (auto simp: cursor_def)
next
  case True
  have fr: "free m j \<longleftrightarrow> sq m j = {}" if "j < rs_size m" for j
    using that pend_invD(3) [OF inv] by (fastforce simp: free_def)
  let ?P = "\<lambda>k. k < rs_size m \<and> sq m ((h + k) mod rs_size m) = {}"
  obtain k0 where "?P k0"
    using True cyclic_offset [OF _ h] by (metis free_def)
  define k where "k = (LEAST k. ?P k)"
  have k: "?P k" "\<And>k'. k' < k \<Longrightarrow> \<not> ?P k'"
    unfolding k_def by (rule LeastI [of ?P, OF \<open>?P k0\<close>], rule not_less_Least)
  then have "first_empty (rs_size m) h m = Some ((h + k) mod rs_size m)"
    using pend_invD(1,2) [OF inv] h by (intro first_empty_first) auto
  moreover have "cursor h ((h + k) mod rs_size m) m"
    using k fr pend_invD(1) [OF inv] unfolding cursor_def by (intro impI exI [of _ k]) simp
  ultimately show ?thesis
    by blast
qed

lemma cursor_next:
  assumes inv: "pend_inv P m" and h: "h < rs_size m" and k: "k < rs_size m" "e = (h + k) mod rs_size m"
    and nf: "\<And>k'. k' \<le> k \<Longrightarrow> \<not> free m ((h + k') mod rs_size m)"
    and fr: "\<And>k'. k < k' \<Longrightarrow> k' < rs_size m \<Longrightarrow> sq m ((h + k') mod rs_size m) = {} \<Longrightarrow> free m ((h + k') mod rs_size m)"
  shows "\<exists>e'. next_empty (rs_size m) e m = Some e' \<and> cursor h e' m"
proof (cases "\<exists>j. free m j")
  case False
  then show ?thesis
    using next_empty_total [of m e] pend_invD(1,2) [OF inv] k by (auto simp: cursor_def)
next
  case True
  let ?P = "\<lambda>d. k + 1 + d < rs_size m \<and> sq m ((h + (k + 1 + d)) mod rs_size m) = {}"
  obtain k0 where k0: "k0 < rs_size m" "free m ((h + k0) mod rs_size m)"
    using True cyclic_offset [OF _ h] by (metis free_def)
  then have "k < k0"
    using nf by (meson linorder_not_le)
  then obtain d0 where "k0 = k + 1 + d0"
    using less_iff_Suc_add by auto
  then have "?P d0"
    using k0 by (simp add: free_def)
  define d where "d = (LEAST d. ?P d)"
  have d: "?P d" "\<And>d'. d' < d \<Longrightarrow> \<not> ?P d'"
    unfolding d_def by (rule LeastI [of ?P, OF \<open>?P d0\<close>], rule not_less_Least)
  have shift: "(e + 1 + x) mod rs_size m = (h + (k + 1 + x)) mod rs_size m" for x
    unfolding k(2) using cyclic_shift [of "h + k" "rs_size m" x] by (simp add: add.assoc)
  have next_e: "next_empty (rs_size m) e m = Some ((e + 1 + d) mod rs_size m)"
  proof (rule next_empty_first [OF pend_invD(1,2) [OF inv]])
    show "e < rs_size m" "d < rs_size m"
      using pend_invD(1) [OF inv] k(2) d(1) by simp_all
    show "sq m ((e + 1 + d) mod rs_size m) = {}"
      using d(1) unfolding shift by simp
    show "sq m ((e + 1 + d') mod rs_size m) \<noteq> {}" if "d' < d" for d'
      using d(2) [OF that] d(1) that unfolding shift by simp
  qed
  have "\<not> free m ((h + k') mod rs_size m)" if "k' < k + 1 + d" for k'
  proof (cases "k' \<le> k")
    case False
    then obtain d' where "k' = k + 1 + d'"
      using less_iff_Suc_add [of k k'] by auto
    then show ?thesis
      using d that by (auto simp: free_def)
  qed (simp add: nf)
  then have "cursor h ((h + (k + 1 + d)) mod rs_size m) m"
    using d(1) fr fr [of "k + 1 + d"] unfolding cursor_def by (intro impI exI [of _ "k + 1 + d"]) simp
  then show ?thesis
    using next_e shift by metis
qed

lemma cyclic_inj:
  assumes "(h + k) mod n = (h + k') mod n" "k < n" "k' < (n :: nat)"
  shows "k = k'"
proof -
  have "a = b" if "a \<le> b" "(h + a) mod n = (h + b) mod n" "b < n" for a b
  proof -
    have "n dvd (h + b) - (h + a)"
      using that(1,2) by (metis add_le_cancel_left mod_eq_dvd_iff_nat)
    then show ?thesis
      using that dvd_imp_le [of n "b - a"] by (cases "a = b") auto
  qed
  then show ?thesis
    using assms by (metis nat_le_linear)
qed

text \<open>The effect of giving the free cell \<open>e\<close> to a sequence that does not own a cell.\<close>

definition took_cell :: "nat \<Rightarrow> nat \<Rightarrow> memory_recurrent \<Rightarrow> memory_recurrent \<Rightarrow> bool" where
  "took_cell q e m m1 \<longleftrightarrow> rs_size m1 = rs_size m \<and> rs_head m1 = rs_head m \<and>
     (\<forall>r < rs_size m. tl_of m1 r = (if r = q then int e else tl_of m r)) \<and> sq m1 e \<subseteq> {q} \<and>
     (\<forall>j < rs_size m. j \<noteq> e \<longrightarrow> sq m1 j \<subseteq> sq m j \<and> (sq m1 j = {} \<longrightarrow> sq m j = {}) \<and> ps m1 j = ps m j \<and> sr m1 j = sr m j) \<and>
     (sq m1 e = {} \<longrightarrow> sr m1 e = sr m e) \<and> (\<forall>r < rs_size m. r \<noteq> q \<or> tl_of m q \<noteq> - 1 \<longrightarrow> view m1 r = view m r)"

lemma take_cell_fresh:
  assumes inv: "pend_inv P m" and q: "q < rs_size m" "q \<notin> P" "tl_of m q = - 1" and e: "free m e"
  shows "\<exists>m1. take_cell q e m = Some m1 \<and> pend_inv (insert q P) m1 \<and> took_cell q e m m1"
proof -
  note I = pend_invD [OF inv]
  have e': "e < rs_size m" "sq m e = {}" "\<And>r. r < rs_size m \<Longrightarrow> tl_of m r \<noteq> int e"
    using e by (auto simp: free_def)
  define m1 where "m1 = rs_upd q (\<lambda>c. c\<lparr>mc_tail := int e\<rparr>) m"
  have res: "take_cell q e m = Some m1"
    using q e' I(2) by (simp add: take_cell_def rs_get_nat mc_is_empty_def m1_def)
  have cell: "sq m1 j = sq m j" "ps m1 j = ps m j" "sr m1 j = sr m j" "tl_of m1 j = (if j = q then int e else tl_of m j)" if "j < rs_size m" for j
    using that I(2) by (auto simp: m1_def rs_upd_nth)
  have sz: "rs_size m1 = rs_size m" "length (rs_cells m1) = rs_size m" "rs_head m1 = rs_head m"
    using I(2) by (simp_all add: m1_def)
  have no: "q \<notin> sq m j" if "j < rs_size m" for j
    using I(6) [OF that] q(3) by fastforce
  have "pend_inv (insert q P) m1"
    unfolding pend_inv_def sz
  proof (intro conjI allI impI ballI)
    show "inj_on (tl_of m1) (insert q P)"
    proof -
      have "tl_of m1 r = tl_of m r \<and> tl_of m r \<noteq> int e" if "r \<in> P" for r
        using I(4) [OF that] e'(3) [of r] q(2) cell(4) [of r] that by auto
      moreover have "tl_of m1 q = int e"
        using cell(4) [OF q(1)] by simp
      ultimately show ?thesis
        using I(5) unfolding inj_on_def by (metis insert_iff)
    qed
  next
    fix r assume "r \<in> insert q P"
    then show "r < rs_size m" "\<exists>t < rs_size m. tl_of m1 r = int t \<and> sq m1 t = {}"
      using I(4) [of r] q e' cell by (auto split: if_splits)
  next
    fix r assume "r < rs_size m" "r \<notin> insert q P"
    then show "tl_of m1 r = - 1 \<or> (\<exists>t < rs_size m. tl_of m1 r = int t \<and> r \<in> sq m1 t)"
      using I(3) [of r] cell by auto
  next
    fix j r assume "j < rs_size m" "r \<in> sq m1 j"
    then show "r < rs_size m" "tl_of m1 r = int j"
      using I(6) [of j r] cell no by auto
  next
    fix j assume j: "j < rs_size m"
    then show "if sq m1 j = {} then ps m1 j = - 1 else 0 \<le> ps m1 j" "- 1 \<le> sr m1 j" "sr m1 j < int (rs_size m)"
      using I(7) [OF j] cell [OF j] by simp_all
  qed (use I in simp_all)
  moreover have "view m1 r = view m r" if "r < rs_size m" "r \<noteq> q" for r
  proof -
    have "tl_of m r = - 1 \<or> nat (tl_of m r) < rs_size m"
      using I(3,4) [of r] that by fastforce
    then show ?thesis
      using that cell by (auto simp: view_def)
  qed
  then have "took_cell q e m m1"
    using sz cell e' q no by (auto simp: took_cell_def)
  ultimately show ?thesis
    using res by blast
qed

lemma take_cell_shared:
  assumes inv: "pend_inv P m" and q: "q < rs_size m" "q \<notin> P" and t: "t < rs_size m" "tl_of m q = int t" "q \<in> sq m t" "sq m t \<noteq> {q}"
    and e: "free m e"
  shows "\<exists>m1. take_cell q e m = Some m1 \<and> pend_inv P m1 \<and> took_cell q e m m1"
proof -
  note I = pend_invD [OF inv]
  have e': "e < rs_size m" "sq m e = {}" "\<And>r. r < rs_size m \<Longrightarrow> tl_of m r \<noteq> int e"
    using e by (auto simp: free_def)
  have ne: "e \<noteq> t"
    using e' t by auto
  define m1 where "m1 = rs_upd q (\<lambda>c. c\<lparr>mc_tail := int e\<rparr>) (rs_upd e (\<lambda>c. c\<lparr>mc_seq := insert q (mc_seq c)\<rparr>)
     (rs_upd t (\<lambda>c. c\<lparr>mc_seq := mc_seq c - {q}\<rparr>) (rs_upd e (\<lambda>c. c\<lparr>mc_pos := ps m t, mc_src := sr m t\<rparr>) m)))"
  have res: "take_cell q e m = Some m1"
  proof -
    have "\<not> sq m t \<subseteq> {q}"
      using t(3,4) by auto
    then show ?thesis
      using q e' t ne I(2) by (simp add: take_cell_def rs_get_nat mc_is_empty_def m1_def Let_def rs_upd_nth)
  qed
  have cell: "sq m1 j = (if j = e then {q} else if j = t then sq m t - {q} else sq m j)" "ps m1 j = (if j = e then ps m t else ps m j)"
    "sr m1 j = (if j = e then sr m t else sr m j)" "tl_of m1 j = (if j = q then int e else tl_of m j)" if "j < rs_size m" for j
    using that I(2) e'(2) ne by (auto simp: m1_def rs_upd_nth)
  have sz: "rs_size m1 = rs_size m" "length (rs_cells m1) = rs_size m" "rs_head m1 = rs_head m"
    using I(2) by (simp_all add: m1_def)
  have no: "q \<in> sq m j \<longleftrightarrow> j = t" if "j < rs_size m" for j
    using I(6) [OF that, of q] t by auto
  have "pend_inv P m1"
    unfolding pend_inv_def sz
  proof (intro conjI allI impI ballI)
    show "inj_on (tl_of m1) P"
      using I(4,5) q cell(4) by (auto simp: inj_on_def)
  next
    fix r assume r: "r \<in> P"
    then obtain u where u: "u < rs_size m" "tl_of m r = int u" "sq m u = {}" "r < rs_size m"
      using I(4) by blast
    then show "r < rs_size m" "\<exists>t < rs_size m. tl_of m1 r = int t \<and> sq m1 t = {}"
      using r q e'(3) [of r] t(3) cell by (auto intro!: exI [of _ u])
  next
    fix r assume r: "r < rs_size m" "r \<notin> P"
    show "tl_of m1 r = - 1 \<or> (\<exists>u < rs_size m. tl_of m1 r = int u \<and> r \<in> sq m1 u)"
      using I(3) [OF r] r cell e'(1,2) e'(3) [OF r(1)] by (cases "r = q") (auto split: if_splits)
  next
    fix j r assume "j < rs_size m" "r \<in> sq m1 j"
    then show "r < rs_size m" "tl_of m1 r = int j"
      using I(6) [of j r] cell no [of j] q by (auto split: if_splits)
  next
    fix j assume j: "j < rs_size m"
    then show "if sq m1 j = {} then ps m1 j = - 1 else 0 \<le> ps m1 j" "- 1 \<le> sr m1 j" "sr m1 j < int (rs_size m)"
      using I(7) [OF j] I(7) [OF t(1)] cell [OF j] t(3,4) by (auto split: if_splits)
  qed (use I in simp_all)
  moreover have "view m1 r = view m r" if "r < rs_size m" for r
  proof -
    have "tl_of m r = - 1 \<or> nat (tl_of m r) < rs_size m \<and> nat (tl_of m r) \<noteq> e"
      using I(3,4) [of r] that e'(3) [of r] by fastforce
    then show ?thesis
      using that cell t e'(1) by (auto simp: view_def)
  qed
  moreover have "sq m1 j \<subseteq> sq m j" "sq m1 j = {} \<longrightarrow> sq m j = {}" if "j < rs_size m" "j \<noteq> e" for j
    using that cell [OF that(1)] t(3,4) by auto
  moreover have "sq m1 e = {q}"
    using cell(1) [OF e'(1)] by simp
  ultimately have "took_cell q e m m1"
    unfolding took_cell_def using sz cell(2,3,4) by simp
  then show ?thesis
    using res \<open>pend_inv P m1\<close> by blast
qed

lemma took_free:
  assumes "pend_inv P m" "took_cell q e m m1" "free m e" "q < rs_size m"
    and other: "tl_of m q = - 1 \<or> (\<exists>r < rs_size m. r \<noteq> q \<and> tl_of m r = tl_of m q)"
  shows "free m1 j \<longleftrightarrow> free m j \<and> j \<noteq> e"
proof -
  have "(\<forall>r < rs_size m. tl_of m1 r \<noteq> int j) \<longleftrightarrow> (\<forall>r < rs_size m. tl_of m r \<noteq> int j) \<and> j \<noteq> e"
  proof -
    have T: "tl_of m1 r = (if r = q then int e else tl_of m r)" if "r < rs_size m" for r
      using assms(2) that by (simp add: took_cell_def)
    have "\<exists>r < rs_size m. tl_of m1 r = int j" if "r < rs_size m" "tl_of m r = int j" for r
      using that T other by (cases "r = q") (metis of_nat_0_le_iff neg_0_le_iff_le not_one_le_zero, metis)
    then show ?thesis
      using T assms(4) by (metis of_nat_eq_iff)
  qed
  then show ?thesis
    using assms(2) by (cases "j = e") (fastforce simp: free_def took_cell_def)+
qed

text \<open>The rows of empty cells that were zeroed, and the range outside of which states stay at home.\<close>

definition zero_src :: "nat set \<Rightarrow> memory_recurrent \<Rightarrow> bool" where
  "zero_src Z m \<longleftrightarrow> (\<forall>j < rs_size m. sq m j = {} \<longrightarrow> sr m j = - 1 \<or> nat (sr m j) \<in> Z)"

definition home :: "int \<Rightarrow> int \<Rightarrow> memory_recurrent \<Rightarrow> bool" where
  "home mn mx m \<longleftrightarrow> (\<forall>j < rs_size m. int j < mn \<or> mx < int j \<longrightarrow> sr m j = - 1 \<or> sr m j = int j)"

definition owns :: "memory_recurrent \<Rightarrow> nat \<Rightarrow> bool" where
  "owns m q \<longleftrightarrow> (\<exists>t < rs_size m. tl_of m q = int t \<and> sq m t \<subseteq> {q})"

text \<open>The memory after the first sequences \<open>L\<close> of the ubatch have their cells.\<close>

definition ranged :: "nat set \<Rightarrow> memory_recurrent \<Rightarrow> nat set \<Rightarrow> nat set \<Rightarrow> int \<Rightarrow> int \<Rightarrow> memory_recurrent \<Rightarrow> bool" where
  "ranged Z m0 L P mn mx m \<longleftrightarrow> pend_inv P m \<and> P \<subseteq> L \<and> L \<subseteq> {..<rs_size m} \<and> rs_size m = rs_size m0 \<and> rs_head m = rs_head m0 \<and> zero_src Z m \<and> home mn mx m \<and>
     0 \<le> mn \<and> mx < int (rs_size m) \<and> (\<forall>q \<in> L. owns m q \<and> mn \<le> tl_of m q \<and> tl_of m q \<le> mx) \<and>
     (\<forall>r < rs_size m. if r \<in> P then tl_of m0 r = - 1 else view m r = view m0 r)"

lemma ranged_own:
  assumes "ranged Z m0 L P mn mx m" "q < rs_size m" "owns m q" "q \<notin> P"
  shows "ranged Z m0 (insert q L) P (min mn (tl_of m q)) (max mx (tl_of m q)) m"
  using assms by (auto simp: ranged_def owns_def home_def)

lemma ranged_took:
  assumes r: "ranged Z m0 L P mn mx m" and q: "q < rs_size m" "q \<notin> P" "q \<notin> L" and e: "free m e"
    and took: "took_cell q e m m1" and P': "pend_inv P' m1" "P' = (if tl_of m q = - 1 then insert q P else P)"
  shows "ranged Z m0 (insert q L) P' (min mn (int e)) (max mx (int e)) m1"
proof -
  have e': "e < rs_size m" "sq m e = {}" "\<And>r. r < rs_size m \<Longrightarrow> tl_of m r \<noteq> int e"
    using e by (auto simp: free_def)
  note R = r [unfolded ranged_def]
  have T: "rs_size m1 = rs_size m" "rs_head m1 = rs_head m" "\<And>r. r < rs_size m \<Longrightarrow> tl_of m1 r = (if r = q then int e else tl_of m r)" "sq m1 e \<subseteq> {q}"
    "\<And>j. j < rs_size m \<Longrightarrow> j \<noteq> e \<Longrightarrow> sq m1 j \<subseteq> sq m j \<and> (sq m1 j = {} \<longrightarrow> sq m j = {}) \<and> sr m1 j = sr m j"
    "sq m1 e = {} \<Longrightarrow> sr m1 e = sr m e" "\<And>r. r < rs_size m \<Longrightarrow> r \<noteq> q \<or> tl_of m q \<noteq> - 1 \<Longrightarrow> view m1 r = view m r"
    using took unfolding took_cell_def by blast+
  have zero: "zero_src Z m1"
    unfolding zero_src_def T(1)
  proof (intro allI impI)
    fix j assume "j < rs_size m" "sq m1 j = {}"
    then show "sr m1 j = - 1 \<or> nat (sr m1 j) \<in> Z"
      using R T(5) [of j] T(6) e' by (cases "j = e") (auto simp: zero_src_def)
  qed
  have home: "home (min mn (int e)) (max mx (int e)) m1"
    using R T(5) by (fastforce simp: home_def T(1))
  have own_q: "owns m1 q"
    using T(3) [OF q(1)] T(1,4) e'(1) by (auto simp: owns_def)
  have own: "owns m1 p \<and> tl_of m1 p = tl_of m p" if pL: "p \<in> L" for p
  proof -
    obtain t where t: "t < rs_size m" "tl_of m p = int t" "sq m t \<subseteq> {p}" "p < rs_size m"
      using R pL unfolding owns_def by blast
    moreover from this have "t \<noteq> e" "p \<noteq> q"
      using e'(3) [of p] pL q(3) by auto
    ultimately show ?thesis
      using T(1) T(3) [of p] T(5) [of t] unfolding owns_def by (intro conjI exI [of _ t]) auto
  qed
  have view: "if p \<in> P' then tl_of m0 p = - 1 else view m1 p = view m0 p" if "p < rs_size m" for p
  proof -
    have old: "if p \<in> P then tl_of m0 p = - 1 else view m p = view m0 p"
      using R that by blast
    moreover have "tl_of m p = - 1 \<longrightarrow> view m p = None" "view m0 p = None \<longleftrightarrow> tl_of m0 p = - 1"
      by (simp_all add: view_def)
    ultimately show ?thesis
      using T(7) [OF that] P'(2) q(2) by (cases "p = q") (auto split: if_splits)
  qed
  have "\<forall>p \<in> insert q L. owns m1 p \<and> min mn (int e) \<le> tl_of m1 p \<and> tl_of m1 p \<le> max mx (int e)"
    using own own_q R T(3) [OF q(1)] by fastforce
  moreover have "P' \<subseteq> insert q L" "insert q L \<subseteq> {..<rs_size m}"
    using R P'(2) q by auto
  moreover have "rs_size m = rs_size m0" "rs_head m = rs_head m0" "0 \<le> mn" "mx < int (rs_size m)"
    using R by auto
  ultimately show ?thesis
    unfolding ranged_def T(1,2) using P'(1) zero home view e'(1) by auto
qed

text \<open>One step of the search for the range.\<close>

lemma range_seq_step:
  assumes r: "ranged Z m0 (lead ub ` {..<s}) P (rg_min st) (rg_max st) (rg_mem st)" and cur: "cursor (rs_head m0) (rg_next st) (rg_mem st)"
    and u: "rs_ubatch (rs_size m0) ub" and s: "s < ub_n_seqs ub" and h: "rs_head m0 < rs_size m0"
  shows "\<exists>st' P'. range_seq ub s st = Some st' \<and> ranged Z m0 (lead ub ` {..<Suc s}) P' (rg_min st') (rg_max st') (rg_mem st') \<and>
    (Suc s < ub_n_seqs ub \<longrightarrow> cursor (rs_head m0) (rg_next st') (rg_mem st'))"
proof -
  define m q where "m = rg_mem st" and "q = lead ub s"
  note R = r [unfolded ranged_def, folded m_def]
  have sz: "rs_size m = rs_size m0" and inv: "pend_inv P m"
    using R by auto
  note I = pend_invD [OF inv]
  have hq: "head_seq ub s = Some (int q)" "q < rs_size m"
    using rs_ubatchD(2,9) [OF u s] sz by (simp_all add: q_def)
  have qL: "q \<notin> lead ub ` {..<s}"
  proof
    assume "q \<in> lead ub ` {..<s}"
    then obtain s' where "s' < s" "lead ub s = lead ub s'"
      by (auto simp: q_def)
    then show False
      using lead_inj [OF u s, of s'] s by simp
  qed
  then have qP: "q \<notin> P"
    using R by auto
  have L: "lead ub ` {..<Suc s} = insert q (lead ub ` {..<s})"
    by (simp add: lessThan_Suc q_def)
  have get: "rs_get (int q) m = Some (rs_cells m ! q)"
    using hq I(2) by (simp add: rs_get_nat)
  show ?thesis
  proof (cases "tl_of m q \<noteq> - 1 \<and> sq m (nat (tl_of m q)) = {q}")
    case True
    then obtain t where t: "t < rs_size m" "tl_of m q = int t" "sq m t = {q}"
      using I(3) [OF hq(2) qP] by auto
    have "range_seq ub s st = Some (st\<lparr>rg_min := min (rg_min st) (int t), rg_max := max (rg_max st) (int t)\<rparr>)"
      using hq get t I(2) unfolding range_seq_def m_def [symmetric] by (simp add: rs_get_nat Let_def m_def)
    moreover have "owns m q"
      using t by (auto simp: owns_def)
    ultimately show ?thesis
      using ranged_own [OF r, of q] hq(2) qP cur t unfolding L by (auto simp: m_def intro!: exI [of _ P])
  next
    case False
    have other: "tl_of m q = - 1 \<or> (\<exists>r < rs_size m. r \<noteq> q \<and> tl_of m r = tl_of m q)"
    proof (cases "tl_of m q = - 1")
      case tail: False
      then obtain t where t: "t < rs_size m" "tl_of m q = int t" "q \<in> sq m t"
        using I(3) [OF hq(2) qP] by auto
      then obtain x where "x \<in> sq m t" "x \<noteq> q"
        using False tail by auto
      then show ?thesis
        using I(6) [OF t(1)] t(2) by metis
    qed simp
    let ?n = "rs_size m" and ?h = "rs_head m0" and ?e = "rg_next st"
    obtain k where k: "k < ?n" "?e = (?h + k) mod ?n" "free m ?e" "\<And>k'. k' < k \<Longrightarrow> \<not> free m ((?h + k') mod ?n)"
      "\<And>k'. k' < ?n \<Longrightarrow> k \<le> k' \<Longrightarrow> sq m ((?h + k') mod ?n) = {} \<Longrightarrow> free m ((?h + k') mod ?n)"
      using cur free_exists [OF inv hq(2) other] unfolding cursor_def m_def [symmetric] by blast
    let ?P = "if tl_of m q = - 1 then insert q P else P"
    obtain m1 where m1: "take_cell q ?e m = Some m1" "pend_inv ?P m1" "took_cell q ?e m m1"
    proof (cases "tl_of m q = - 1")
      case True
      then show ?thesis
        using take_cell_fresh [OF inv hq(2) qP True k(3)] that by auto
    next
      case tail: False
      then obtain t where t: "t < rs_size m" "tl_of m q = int t" "q \<in> sq m t"
        using I(3) [OF hq(2) qP] by auto
      then show ?thesis
        using take_cell_shared [OF inv hq(2) qP t _ k(3)] that tail False by auto
    qed
    have sz1: "rs_size m1 = ?n" and tq: "tl_of m1 q = int ?e"
      using m1(3) hq(2) by (auto simp: took_cell_def)
    note fr = took_free [OF inv m1(3) k(3) hq(2) other]
    have "\<exists>e'. next_empty (rs_size m1) ?e m1 = Some e' \<and> cursor ?h e' m1"
    proof (rule cursor_next [OF m1(2)])
      show "?h < rs_size m1" "k < rs_size m1" "?e = (?h + k) mod rs_size m1"
        using h k sz sz1 by simp_all
      show "\<not> free m1 ((?h + k') mod rs_size m1)" if "k' \<le> k" for k'
        using that k(2,4) fr sz1 by (cases "k' = k") auto
      show "free m1 ((?h + k') mod rs_size m1)" if "k < k'" "k' < rs_size m1" "sq m1 ((?h + k') mod rs_size m1) = {}" for k'
      proof -
        let ?j = "(?h + k') mod ?n"
        have ne: "?j \<noteq> ?e"
          using cyclic_inj [of ?h k' ?n k] that k(1,2) sz1 by auto
        moreover have "sq m ?j = {}"
          using that(3) m1(3) ne I(1) sz1 unfolding took_cell_def by (metis mod_less_divisor)
        ultimately show ?thesis
          using k(5) [of k'] that fr sz1 by simp
      qed
    qed
    then obtain e' where e': "next_empty (rs_size m1) ?e m1 = Some e'" "cursor ?h e' m1"
      by blast
    define st' where "st' = \<lparr>rg_mem = m1, rg_next = (if s + 1 < ub_n_seqs ub then e' else ?e), rg_min = min (rg_min st) (int ?e), rg_max = max (rg_max st) (int ?e)\<rparr>"
    have get1: "rs_get (int q) m1 = Some (rs_cells m1 ! q)"
      using hq(2) pend_invD(2) [OF m1(2)] sz1 by (simp add: rs_get_nat)
    have "range_seq ub s st = Some st'"
    proof (cases "tl_of m q = - 1")
      case True
      then show ?thesis
        using hq get m1(1) e'(1) get1 tq unfolding range_seq_def m_def [symmetric] by (simp add: Let_def st'_def)
    next
      case tail: False
      then obtain t where t: "t < rs_size m" "tl_of m q = int t" "q \<in> sq m t"
        using I(3) [OF hq(2) qP] by auto
      then have "card (sq m t) \<noteq> 1"
        using False tail by (auto simp: card_1_singleton_iff)
      then show ?thesis
        using hq get t m1(1) e'(1) get1 tq I(2) unfolding range_seq_def m_def [symmetric] by (simp add: Let_def st'_def rs_get_nat)
    qed
    moreover have "ranged Z m0 (lead ub ` {..<Suc s}) ?P (rg_min st') (rg_max st') (rg_mem st')"
      using ranged_took [OF r [folded m_def] hq(2) qP qL k(3) m1(3,2)] unfolding L st'_def by simp
    moreover have "Suc s < ub_n_seqs ub \<longrightarrow> cursor ?h (rg_next st') (rg_mem st')"
      using e'(2) by (simp add: st'_def)
    ultimately show ?thesis
      by blast
  qed
qed

lemma range_loop:
  assumes r: "ranged Z m0 {} {} (rg_min st) (rg_max st) (rg_mem st)" and cur: "cursor (rs_head m0) (rg_next st) (rg_mem st)"
    and u: "rs_ubatch (rs_size m0) ub" and h: "rs_head m0 < rs_size m0" and k: "k \<le> ub_n_seqs ub"
  shows "\<exists>st' P. mfold (range_seq ub) [0..<k] st = Some st' \<and> ranged Z m0 (lead ub ` {..<k}) P (rg_min st') (rg_max st') (rg_mem st') \<and>
    (k < ub_n_seqs ub \<longrightarrow> cursor (rs_head m0) (rg_next st') (rg_mem st'))"
  using k
proof (induction k)
  case 0
  then show ?case
    using r cur by auto
next
  case (Suc k)
  then obtain st' P where st': "mfold (range_seq ub) [0..<k] st = Some st'" "ranged Z m0 (lead ub ` {..<k}) P (rg_min st') (rg_max st') (rg_mem st')"
    "cursor (rs_head m0) (rg_next st') (rg_mem st')"
    by auto
  moreover have "mfold (range_seq ub) [0..<Suc k] st = range_seq ub k st'"
    using st'(1) by (cases "range_seq ub k st'") (simp_all add: mfold_append)
  ultimately show ?case
    using range_seq_step [OF st'(2,3) u _ h] Suc.prems by simp
qed

section \<open>Gathering the cells\<close>

definition swp :: "nat \<Rightarrow> nat \<Rightarrow> nat \<Rightarrow> nat" where
  "swp a b j = (if j = b then a else if j = a then b else j)"

lemma swp_simps [simp]: "swp a b (swp a b j) = j" "swp a b j = swp a b k \<longleftrightarrow> j = k"
  by (auto simp: swp_def)

lemma swp_less: "a < n \<Longrightarrow> b < n \<Longrightarrow> j < n \<Longrightarrow> swp a b j < n"
  by (auto simp: swp_def)

lemma swap_tail_nat [simp]: "swap_tail (int b) (int a) (int t) = int (swp a b t)" "swap_tail (int b) (int a) (- 1) = - 1"
  by (auto simp: swap_tail_def swp_def)

lemma swap_cells_view:
  assumes len: "length (rs_cells m) = rs_size m" and a: "a < rs_size m" and b: "b < rs_size m" and ne: "a \<noteq> b"
  shows "\<exists>m'. swap_cells (int a) (int b) m = Some m' \<and> rs_size m' = rs_size m \<and> length (rs_cells m') = rs_size m \<and> rs_head m' = rs_head m \<and>
    (\<forall>j < rs_size m. sq m' j = sq m (swp a b j) \<and> ps m' j = ps m (swp a b j) \<and> sr m' j = sr m (swp a b j) \<and> tl_of m' j = swap_tail (int b) (int a) (tl_of m j))"
  using assms by (auto simp: swap_cells_def rs_get_nat Let_def rs_upd_nth swp_def)

lemma swap_ranged:
  assumes r: "ranged Z m0 L P mn mx m" and a: "a < rs_size m" "mn \<le> int a" "int a \<le> mx" and b: "b < rs_size m" "mn \<le> int b" "int b \<le> mx"
    and ne: "a \<noteq> b"
  shows "\<exists>m'. swap_cells (int a) (int b) m = Some m' \<and> ranged Z m0 L P mn mx m' \<and> (\<forall>q < rs_size m. tl_of m' q = swap_tail (int b) (int a) (tl_of m q))"
proof -
  note R = r [unfolded ranged_def]
  have inv: "pend_inv P m"
    using R by blast
  note I = pend_invD [OF inv]
  obtain m' where m': "swap_cells (int a) (int b) m = Some m'" "rs_size m' = rs_size m" "length (rs_cells m') = rs_size m" "rs_head m' = rs_head m"
    and cell: "\<And>j. j < rs_size m \<Longrightarrow> sq m' j = sq m (swp a b j)" "\<And>j. j < rs_size m \<Longrightarrow> ps m' j = ps m (swp a b j)"
      "\<And>j. j < rs_size m \<Longrightarrow> sr m' j = sr m (swp a b j)" "\<And>j. j < rs_size m \<Longrightarrow> tl_of m' j = swap_tail (int b) (int a) (tl_of m j)"
    using swap_cells_view [OF I(2) a(1) b(1) ne] by blast
  note lt = swp_less [OF a(1) b(1)]
  have to: "tl_of m' q = int (swp a b t) \<and> sq m' (swp a b t) = sq m t \<and> swp a b t < rs_size m" if "q < rs_size m" "t < rs_size m" "tl_of m q = int t" for q t
    using that cell(1) [OF lt [OF that(2)]] cell(4) [OF that(1)] lt by simp
  have none: "tl_of m' q = - 1" if "q < rs_size m" "tl_of m q = - 1" for q
    using that cell(4) by simp
  have tail: "tl_of m q = - 1 \<or> (\<exists>t < rs_size m. tl_of m q = int t)" if "q < rs_size m" for q
    using I(3,4) [of q] that by blast
  have "pend_inv P m'"
    unfolding pend_inv_def m'(2,3)
  proof (intro conjI allI impI ballI)
    show "inj_on (tl_of m') P"
    proof (rule inj_onI)
      fix x y assume xy: "x \<in> P" "y \<in> P" "tl_of m' x = tl_of m' y"
      obtain t u where "t < rs_size m" "tl_of m x = int t" "u < rs_size m" "tl_of m y = int u" "x < rs_size m" "y < rs_size m"
        using I(4) [OF xy(1)] I(4) [OF xy(2)] by blast
      then show "x = y"
        using xy to [of x t] to [of y u] I(5) by (auto simp: inj_on_def)
    qed
  next
    fix r assume r: "r \<in> P"
    then obtain t where "r < rs_size m" "t < rs_size m" "tl_of m r = int t" "sq m t = {}"
      using I(4) by blast
    then show "r < rs_size m" "\<exists>t < rs_size m. tl_of m' r = int t \<and> sq m' t = {}"
      using to [of r t] by auto
  next
    fix r assume r: "r < rs_size m" "r \<notin> P"
    show "tl_of m' r = - 1 \<or> (\<exists>t < rs_size m. tl_of m' r = int t \<and> r \<in> sq m' t)"
      using I(3) [OF r] none [OF r(1)] to [OF r(1)] by fastforce
  next
    fix j r assume j: "j < rs_size m" "r \<in> sq m' j"
    then show "r < rs_size m" "tl_of m' r = int j"
      using I(6) [OF lt [OF j(1)], of r] cell(1) [OF j(1)] to [of r "swp a b j"] lt [OF j(1)] by auto
  next
    fix j assume j: "j < rs_size m"
    then show "if sq m' j = {} then ps m' j = - 1 else 0 \<le> ps m' j" "- 1 \<le> sr m' j" "sr m' j < int (rs_size m)"
      using I(7) [OF lt [OF j]] cell [OF j] by auto
  qed (use I in simp_all)
  moreover have view: "view m' q = view m q" if "q < rs_size m" for q
    using tail [OF that] none [OF that] to [OF that] cell lt by (auto simp: view_def)
  have "\<forall>r < rs_size m. if r \<in> P then tl_of m0 r = - 1 else view m' r = view m0 r"
    using R view by simp
  moreover have "zero_src Z m'"
    using R cell lt unfolding zero_src_def m'(2) by simp
  moreover have "home mn mx m'"
    using R cell a b unfolding home_def m'(2) by (auto simp: swp_def)
  moreover have "owns m' q \<and> mn \<le> tl_of m' q \<and> tl_of m' q \<le> mx" if q: "q \<in> L" for q
  proof -
    obtain t where t: "t < rs_size m" "tl_of m q = int t" "sq m t \<subseteq> {q}" "q < rs_size m" "mn \<le> int t" "int t \<le> mx"
      using R q unfolding owns_def by (metis lessThan_iff subsetD)
    then show ?thesis
      using to [of q t] a b m'(2) by (auto simp: owns_def swp_def split: if_splits)
  qed
  ultimately have "ranged Z m0 L P mn mx m'"
    using R m' unfolding ranged_def m'(2,4) by blast
  then show ?thesis
    using m' cell by auto
qed

text \<open>The cells of the first sequences are different, so the range has room for them.\<close>

lemma ranged_tail:
  assumes r: "ranged Z m0 L P mn mx m" and q: "q \<in> L"
  shows "\<exists>t < rs_size m. tl_of m q = int t \<and> mn \<le> int t \<and> int t \<le> mx \<and> q < rs_size m"
  using assms unfolding ranged_def owns_def by (metis lessThan_iff subsetD)

lemma ranged_inj:
  assumes r: "ranged Z m0 L P mn mx m"
  shows "inj_on (tl_of m) L"
proof (rule inj_onI)
  fix x y assume xy: "x \<in> L" "y \<in> L" "tl_of m x = tl_of m y"
  have inv: "pend_inv P m"
    using r by (simp add: ranged_def)
  obtain t where t: "t < rs_size m" "tl_of m x = int t" "x < rs_size m" "y < rs_size m"
    using ranged_tail [OF r xy(1)] ranged_tail [OF r xy(2)] by blast
  have "sq m t \<subseteq> {x}" "sq m t \<subseteq> {y}"
    using r xy t unfolding ranged_def owns_def by (metis of_nat_eq_iff)+
  then have "x = y \<or> sq m t = {}"
    by auto
  moreover have "x \<in> P" "y \<in> P" if "sq m t = {}"
    using that pend_invD(3) [OF inv t(3)] pend_invD(3) [OF inv t(4)] t xy(3) by auto
  ultimately show "x = y"
    using pend_invD(5) [OF inv] xy(3) by (auto simp: inj_on_def)
qed

lemma ranged_room:
  assumes r: "ranged Z m0 (lead ub ` {..<ub_n_seqs ub}) P mn mx m" and u: "rs_ubatch n ub"
  shows "int (ub_n_seqs ub) \<le> mx - mn + 1"
proof -
  have inj: "inj_on (lead ub) {..<ub_n_seqs ub}"
    using lead_inj [OF u] by (simp add: inj_on_def)
  have "card (tl_of m ` lead ub ` {..<ub_n_seqs ub}) = ub_n_seqs ub"
    using card_image [OF ranged_inj [OF r]] card_image [OF inj] by simp
  moreover have "tl_of m ` lead ub ` {..<ub_n_seqs ub} \<subseteq> {mn..mx}"
    using ranged_tail [OF r] by fastforce
  then have "card (tl_of m ` lead ub ` {..<ub_n_seqs ub}) \<le> card {mn..mx}"
    by (intro card_mono) simp_all
  ultimately have "ub_n_seqs ub \<le> nat (mx - mn + 1)"
    by simp
  moreover have "0 < ub_n_seqs ub"
    using u by (simp add: rs_ubatch_def)
  ultimately show ?thesis
    by linarith
qed

lemma gather_loop:
  assumes r: "ranged Z m0 (lead ub ` {..<ub_n_seqs ub}) P mn mx m" and u: "rs_ubatch (rs_size m0) ub" and k: "k \<le> ub_n_seqs ub"
  shows "\<exists>m'. mfold (gather_seq ub mn) [0..<k] m = Some m' \<and> ranged Z m0 (lead ub ` {..<ub_n_seqs ub}) P mn mx m' \<and>
    (\<forall>s < k. tl_of m' (lead ub s) = int s + mn)"
  using k
proof (induction k)
  case 0
  then show ?case
    using r by simp
next
  case (Suc k)
  then obtain m' where m': "mfold (gather_seq ub mn) [0..<k] m = Some m'" "ranged Z m0 (lead ub ` {..<ub_n_seqs ub}) P mn mx m'"
    "\<And>s. s < k \<Longrightarrow> tl_of m' (lead ub s) = int s + mn"
    by auto
  have k: "k < ub_n_seqs ub"
    using Suc.prems by simp
  have sz: "rs_size m' = rs_size m0" "length (rs_cells m') = rs_size m'" "0 \<le> mn" "mx < int (rs_size m')"
    using m'(2) pend_invD(2) by (auto simp: ranged_def)
  note D = rs_ubatchD [OF u k]
  obtain t where t: "t < rs_size m'" "tl_of m' (lead ub k) = int t" "mn \<le> int t" "int t \<le> mx" "lead ub k < rs_size m'"
    using ranged_tail [OF m'(2), of "lead ub k"] k by auto
  define a where "a = nat (int k + mn)"
  have a: "int k + mn = int a" "mn \<le> int a" "int a \<le> mx" "a < rs_size m'"
    using ranged_room [OF m'(2) u] k sz by (auto simp: a_def)
  have ne: "tl_of m' (lead ub s) \<noteq> int t" if "s < k" for s
    using ranged_inj [OF m'(2)] that k t(2) lead_inj [OF u, of s k] by (auto simp: inj_on_def)
  have get: "rs_get (int (lead ub k)) m' = Some (rs_cells m' ! lead ub k)"
    using t(5) sz by (simp add: rs_get_nat)
  show ?case
  proof (cases "a = t")
    case True
    then have "gather_seq ub mn k m' = Some m'"
      using D(2) get t a by (simp add: gather_seq_def Let_def)
    then show ?thesis
      using m' True t a by (auto simp: mfold_append less_Suc_eq)
  next
    case False
    obtain m2 where m2: "swap_cells (int a) (int t) m' = Some m2" "ranged Z m0 (lead ub ` {..<ub_n_seqs ub}) P mn mx m2"
      "\<And>q. q < rs_size m' \<Longrightarrow> tl_of m2 q = swap_tail (int t) (int a) (tl_of m' q)"
      using swap_ranged [OF m'(2) a(4,2,3) t(1,3,4) False] by blast
    have "gather_seq ub mn k m' = Some m2"
      using D(2) get t a False m2(1) by (simp add: gather_seq_def Let_def)
    moreover have "tl_of m2 (lead ub s) = int s + mn" if "s < Suc k" for s
    proof (cases "s = k")
      case True
      then show ?thesis
        using m2(3) [OF t(5)] t(2) a(1) by (simp add: swap_tail_def)
    next
      case False
      then have s: "s < k"
        using that by simp
      have "lead ub s < rs_size m'"
        using rs_ubatchD(9) [OF u, of s] s k sz by simp
      then show ?thesis
        using m2(3) [of "lead ub s"] m'(3) [OF s] ne [OF s] a(1) s by (simp add: swap_tail_def)
    qed
    ultimately show ?thesis
      using m'(1) m2(2) by (auto simp: mfold_append)
  qed
qed

end
