(* ===== verification/Recurrent_Find.thy ===== *)
theory Recurrent_Find
  imports Recurrent_Slot
begin

text \<open>
  The end of the search for a slot (the metadata of the gathered cells, the zeroed state, the staged sources), the
  theorems about the whole search, and what the graph reads and writes through the slot.
\<close>

section \<open>Placing the sequences\<close>

definition same_shape :: "memory_recurrent \<Rightarrow> memory_recurrent \<Rightarrow> bool" where
  "same_shape m m' \<longleftrightarrow> rs_size m' = rs_size m \<and> rs_head m' = rs_head m \<and> length (rs_cells m') = length (rs_cells m) \<and>
     (\<forall>j < length (rs_cells m). sr m' j = sr m j)"

lemma place_ids_ok:
  assumes "set qs \<subseteq> {..<length (rs_cells m)}" "c < length (rs_cells m)"
  shows "\<exists>m'. mfold (place_id (int c)) (map int qs) m = Some m' \<and> same_shape m m' \<and>
    (\<forall>j < length (rs_cells m). sq m' j = (if j = c then sq m j \<union> set qs else sq m j) \<and> ps m' j = ps m j \<and>
       tl_of m' j = (if j \<in> set qs then int c else tl_of m j))"
  using assms
proof (induction qs arbitrary: m)
  case Nil
  then show ?case
    by (simp add: same_shape_def)
next
  case (Cons q qs)
  define m1 where "m1 = rs_upd q (\<lambda>x. x\<lparr>mc_tail := int c\<rparr>) (rs_upd c (\<lambda>x. x\<lparr>mc_seq := insert q (mc_seq x)\<rparr>) m)"
  have len: "length (rs_cells m1) = length (rs_cells m)"
    by (simp add: m1_def)
  obtain m' where m': "mfold (place_id (int c)) (map int qs) m1 = Some m'" "same_shape m1 m'"
    "\<And>j. j < length (rs_cells m) \<Longrightarrow> sq m' j = (if j = c then sq m1 j \<union> set qs else sq m1 j) \<and> ps m' j = ps m1 j \<and>
       tl_of m' j = (if j \<in> set qs then int c else tl_of m1 j)"
    using Cons.IH [of m1] Cons.prems len by auto
  have cell: "sq m1 j = (if j = c then insert q (sq m j) else sq m j)" "ps m1 j = ps m j" "sr m1 j = sr m j" "tl_of m1 j = (if j = q then int c else tl_of m j)"
    if "j < length (rs_cells m)" for j
    using that by (auto simp: m1_def rs_upd_nth)
  have "mfold (place_id (int c)) (map int (q # qs)) m = Some m'"
    using m'(1) Cons.prems by (simp add: place_id_def rs_get_nat m1_def)
  moreover have "same_shape m m'"
    using m'(2) len cell(3) by (auto simp: same_shape_def m1_def)
  moreover have "sq m' j = (if j = c then sq m j \<union> set (q # qs) else sq m j) \<and> ps m' j = ps m j \<and> tl_of m' j = (if j \<in> set (q # qs) then int c else tl_of m j)"
    if "j < length (rs_cells m)" for j
    using m'(3) [OF that] cell [OF that] by auto
  ultimately show ?case
    by blast
qed

lemma place_seq_ok:
  assumes u: "rs_ubatch (rs_size m) ub" and s: "s < ub_n_seqs ub" and len: "length (rs_cells m) = rs_size m" and a: "a + s < rs_size m"
  shows "\<exists>m'. place_seq ub (int a) s m = Some m' \<and> same_shape m m' \<and>
    (\<forall>j < rs_size m. sq m' j = (if j = a + s then set (seqs_of ub s) else sq m j) \<and> ps m' j = (if j = a + s then last_pos_of ub s else ps m j) \<and>
       tl_of m' j = (if j \<in> set (seqs_of ub s) then int (a + s) else tl_of m j))"
proof -
  note D = rs_ubatchD [OF u s]
  define m1 where "m1 = rs_upd (a + s) (\<lambda>c. c\<lparr>mc_pos := last_pos_of ub s, mc_seq := {}\<rparr>) m"
  have len1: "length (rs_cells m1) = rs_size m"
    using len by (simp add: m1_def)
  have cell: "sq m1 j = (if j = a + s then {} else sq m j)" "ps m1 j = (if j = a + s then last_pos_of ub s else ps m j)" "sr m1 j = sr m j" "tl_of m1 j = tl_of m j"
    if "j < rs_size m" for j
    using that len by (auto simp: m1_def rs_upd_nth)
  obtain m' where m': "mfold (place_id (int (a + s))) (map int (seqs_of ub s)) m1 = Some m'" "same_shape m1 m'"
    "\<And>j. j < rs_size m \<Longrightarrow> sq m' j = (if j = a + s then sq m1 j \<union> set (seqs_of ub s) else sq m1 j) \<and> ps m' j = ps m1 j \<and>
       tl_of m' j = (if j \<in> set (seqs_of ub s) then int (a + s) else tl_of m1 j)"
    using place_ids_ok [of "seqs_of ub s" m1 "a + s"] D(4) a len1 by auto
  have id: "int s + int a = int (a + s)" "nat (int (a + s)) = a + s"
    by simp_all
  have pos: "0 < ub_n_seq_tokens ub"
    using u by (simp add: rs_ubatch_def)
  have "place_seq ub (int a) s m = Some m'"
    using D(1,7) pos a len m'(1) unfolding place_seq_def id by (simp add: rs_get_nat Let_def m1_def last_pos_of_def del: of_nat_add)
  moreover have "same_shape m m'"
    using m'(2) len len1 cell(3) by (auto simp: same_shape_def m1_def)
  ultimately show ?thesis
    using m'(3) cell by auto
qed

text \<open>All sets of the ubatch are placed from the cell \<open>a\<close> on.\<close>

definition placed :: "'e llama_ubatch \<Rightarrow> nat \<Rightarrow> nat \<Rightarrow> memory_recurrent \<Rightarrow> memory_recurrent \<Rightarrow> bool" where
  "placed ub a k m m' \<longleftrightarrow> same_shape m m' \<and>
     (\<forall>s < k. sq m' (a + s) = set (seqs_of ub s) \<and> ps m' (a + s) = last_pos_of ub s \<and> (\<forall>q \<in> set (seqs_of ub s). tl_of m' q = int (a + s))) \<and>
     (\<forall>j < rs_size m. j < a \<or> a + k \<le> j \<longrightarrow> sq m' j = sq m j \<and> ps m' j = ps m j) \<and>
     (\<forall>q < rs_size m. (\<forall>s < k. q \<notin> set (seqs_of ub s)) \<longrightarrow> tl_of m' q = tl_of m q)"

lemma place_loop:
  assumes u: "rs_ubatch (rs_size m) ub" and len: "length (rs_cells m) = rs_size m" and a: "a + ub_n_seqs ub \<le> rs_size m" and k: "k \<le> ub_n_seqs ub"
  shows "\<exists>m'. mfold (place_seq ub (int a)) [0..<k] m = Some m' \<and> placed ub a k m m'"
  using k
proof (induction k)
  case 0
  then show ?case
    by (simp add: placed_def same_shape_def)
next
  case (Suc k)
  then obtain m' where m': "mfold (place_seq ub (int a)) [0..<k] m = Some m'" "placed ub a k m m'"
    by auto
  have sz: "rs_size m' = rs_size m" "length (rs_cells m') = rs_size m'"
    using m'(2) len by (auto simp: placed_def same_shape_def)
  have k: "k < ub_n_seqs ub" "a + k < rs_size m'"
    using Suc.prems a sz by simp_all
  obtain m2 where m2: "place_seq ub (int a) k m' = Some m2" "same_shape m' m2"
    "\<And>j. j < rs_size m \<Longrightarrow> sq m2 j = (if j = a + k then set (seqs_of ub k) else sq m' j) \<and> ps m2 j = (if j = a + k then last_pos_of ub k else ps m' j) \<and>
       tl_of m2 j = (if j \<in> set (seqs_of ub k) then int (a + k) else tl_of m' j)"
    using place_seq_ok [OF _ k(1) sz(2) k(2)] u sz by auto
  have "same_shape m m2"
    using m'(2) m2(2) by (auto simp: placed_def same_shape_def)
  moreover have "sq m2 (a + s) = set (seqs_of ub s) \<and> ps m2 (a + s) = last_pos_of ub s \<and> (\<forall>q \<in> set (seqs_of ub s). tl_of m2 q = int (a + s))" if s: "s < Suc k" for s
  proof -
    have q: "q < rs_size m \<and> (s \<noteq> k \<longrightarrow> q \<notin> set (seqs_of ub k))" if "q \<in> set (seqs_of ub s)" for q
      using rs_ubatchD(4) [OF u, of s] seqs_disjoint [OF u _ k(1) that] s k(1) that by auto
    show ?thesis
      using m2(3) [of "a + s"] m2(3) q m'(2) s k(2) sz by (cases "s = k") (auto simp: placed_def)
  qed
  moreover have "\<forall>j < rs_size m. j < a \<or> a + Suc k \<le> j \<longrightarrow> sq m2 j = sq m j \<and> ps m2 j = ps m j"
    using m2(3) m'(2) by (auto simp: placed_def)
  moreover have "\<forall>q < rs_size m. (\<forall>s < Suc k. q \<notin> set (seqs_of ub s)) \<longrightarrow> tl_of m2 q = tl_of m q"
    using m2(3) m'(2) by (auto simp: placed_def less_Suc_eq)
  ultimately have "placed ub a (Suc k) m m2"
    by (simp add: placed_def)
  then show ?case
    using m'(1) m2(1) by (auto simp: mfold_append)
qed

section \<open>The zeroed state and the staged sources\<close>

lemma stage_loop:
  assumes "distinct is" "\<And>i. i \<in> set is \<Longrightarrow> 0 \<le> i \<and> nat i < length (rs_cells m)" "\<And>i. i \<in> set is \<Longrightarrow> sr m (nat i) < 0 \<Longrightarrow> 0 \<le> rs_z m"
  shows "\<exists>m'. mfold stage_src is m = Some m' \<and> rs_size m' = rs_size m \<and> rs_z m' = rs_z m \<and> length (rs_cells m') = length (rs_cells m) \<and>
    (\<forall>j < length (rs_cells m). rs_cells m' ! j =
       (if int j \<in> set is then (rs_cells m ! j)\<lparr>mc_src0 := (if sr m j < 0 then rs_z m else sr m j), mc_src := int j\<rparr> else rs_cells m ! j))"
  using assms
proof (induction "is" arbitrary: m)
  case (Cons i "is")
  obtain a where a: "i = int a" "a < length (rs_cells m)"
    using Cons.prems(2) [of i] by (auto intro: that [of "nat i"])
  define m1 where "m1 = rs_upd a (\<lambda>c. c\<lparr>mc_src0 := (if mc_src c < 0 then rs_z m else mc_src c), mc_src := int a\<rparr>) m"
  have step: "stage_src i m = Some m1"
    using a Cons.prems(3) [of i] by (simp add: stage_src_def rs_get_nat m1_def)
  have cell: "rs_cells m1 ! j = (if j = a then (rs_cells m ! j)\<lparr>mc_src0 := (if sr m j < 0 then rs_z m else sr m j), mc_src := int j\<rparr> else rs_cells m ! j)"
    if "j < length (rs_cells m)" for j
    using that by (auto simp: m1_def rs_upd_nth)
  have m1: "rs_size m1 = rs_size m" "rs_z m1 = rs_z m" "length (rs_cells m1) = length (rs_cells m)"
    by (simp_all add: m1_def)
  have "\<exists>m'. mfold stage_src is m1 = Some m' \<and> rs_size m' = rs_size m1 \<and> rs_z m' = rs_z m1 \<and> length (rs_cells m') = length (rs_cells m1) \<and>
    (\<forall>j < length (rs_cells m1). rs_cells m' ! j =
       (if int j \<in> set is then (rs_cells m1 ! j)\<lparr>mc_src0 := (if sr m1 j < 0 then rs_z m1 else sr m1 j), mc_src := int j\<rparr> else rs_cells m1 ! j))"
  proof (rule Cons.IH)
    fix x assume x: "x \<in> set is"
    then have "x \<noteq> i"
      using Cons.prems(1) by auto
    then show "0 \<le> rs_z m1" if "sr m1 (nat x) < 0"
      using that x cell [of "nat x"] Cons.prems(2) [of x] Cons.prems(3) [of x] a m1 by (auto split: if_splits)
    show "0 \<le> x \<and> nat x < length (rs_cells m1)"
      using Cons.prems(2) [of x] x m1 by simp
  qed (use Cons.prems(1) in simp)
  then obtain m' where m': "mfold stage_src is m1 = Some m'" "rs_size m' = rs_size m1" "rs_z m' = rs_z m1" "length (rs_cells m') = length (rs_cells m1)"
    "\<And>j. j < length (rs_cells m1) \<Longrightarrow> rs_cells m' ! j =
       (if int j \<in> set is then (rs_cells m1 ! j)\<lparr>mc_src0 := (if sr m1 j < 0 then rs_z m1 else sr m1 j), mc_src := int j\<rparr> else rs_cells m1 ! j)"
    by blast
  have "rs_cells m' ! j = (if int j \<in> set (i # is) then (rs_cells m ! j)\<lparr>mc_src0 := (if sr m j < 0 then rs_z m else sr m j), mc_src := int j\<rparr> else rs_cells m ! j)"
    if "j < length (rs_cells m)" for j
    using m'(5) [of j] cell [OF that] that m1 a(1) Cons.prems(1) by (cases "j = a") simp_all
  then show ?case
    using step m' m1 by simp
qed simp

lemma refcount_0: "0 \<le> i \<Longrightarrow> refcount m i = 0 \<longleftrightarrow> (\<forall>j < length (rs_cells m). sr m j \<noteq> i)"
  by (auto simp: refcount_def filter_empty_conv all_set_conv_all_nth)

lemma find_mem: "find Q xs = Some z \<Longrightarrow> z \<in> set xs \<and> Q z"
  by (auto simp: find_Some_iff)

text \<open>A cell of the slot without a source leaves a row of the slot that no cell refers to.\<close>

lemma find_rs_z_ok:
  assumes home: "home mn mx m" and len: "length (rs_cells m) = rs_size m" and b: "0 \<le> mn" "mx < int (rs_size m)"
    and i: "mn \<le> int i" "int i \<le> mx" "sr m i < 0"
  shows "mn \<le> find_rs_z mn mx m \<and> find_rs_z mn mx m \<le> mx \<and> (\<forall>j < rs_size m. sr m j \<noteq> find_rs_z mn mx m)"
proof -
  have "\<exists>x \<in> {mn..mx}. refcount m x = 0"
  proof (rule ccontr)
    assume "\<not> ?thesis"
    then have ref: "\<exists>j < rs_size m. sr m j = x" if "x \<in> {mn..mx}" for x
      using that b(1) refcount_0 [of x m] len by (metis atLeastAtMost_iff order_trans)
    have "{mn..mx} \<subseteq> (\<lambda>y. sr m (nat y)) ` ({mn..mx} - {int i})"
    proof
      fix x assume x: "x \<in> {mn..mx}"
      then obtain j where j: "j < rs_size m" "sr m j = x"
        using ref by blast
      then have "int j \<in> {mn..mx}"
        using home x b(1) by (force simp: home_def)
      moreover have "j \<noteq> i"
        using j(2) x b(1) i(3) by auto
      ultimately show "x \<in> (\<lambda>y. sr m (nat y)) ` ({mn..mx} - {int i})"
        using j(2) by (intro image_eqI [of _ _ "int j"]) auto
    qed
    then have "card {mn..mx} \<le> card ({mn..mx} - {int i})"
      by (intro surj_card_le) simp_all
    moreover have "card ({mn..mx} - {int i}) < card {mn..mx}"
      using i by (intro card_Diff1_less) simp_all
    ultimately show False
      by simp
  qed
  then obtain z where z: "find (\<lambda>x. refcount m x = 0) [mn..mx] = Some z"
    using find_None_iff [of "\<lambda>x. refcount m x = 0" "[mn..mx]"] by (cases "find (\<lambda>x. refcount m x = 0) [mn..mx]") auto
  then have "z \<in> {mn..mx}" "refcount m z = 0"
    by (auto dest: find_mem)
  then show ?thesis
    using z refcount_0 [of z m] b(1) len by (simp add: find_rs_z_def)
qed

section \<open>The whole search\<close>

text \<open>The memory \<open>m1\<close> without the followers, \<open>m2\<close> with the cells gathered from \<open>a\<close> on, \<open>m3\<close> with the sequences placed, and the result.\<close>

definition gathered :: "nat set \<Rightarrow> 'e llama_ubatch \<Rightarrow> nat \<Rightarrow> nat \<Rightarrow> nat set \<Rightarrow> memory_recurrent \<Rightarrow> memory_recurrent \<Rightarrow> bool" where
  "gathered Z ub a b P m1 m2 \<longleftrightarrow> ranged Z m1 (lead ub ` {..<ub_n_seqs ub}) P (int a) (int b) m2 \<and>
     (\<forall>s < ub_n_seqs ub. tl_of m2 (lead ub s) = int (a + s)) \<and> a + ub_n_seqs ub \<le> b + 1"

definition staged :: "nat \<Rightarrow> nat \<Rightarrow> memory_recurrent \<Rightarrow> memory_recurrent \<Rightarrow> bool" where
  "staged a b m3 m' \<longleftrightarrow> rs_size m' = rs_size m3 \<and> length (rs_cells m') = length (rs_cells m3) \<and> rs_head m' = a \<and> rs_n m' = b + 1 - a \<and>
     rs_used m' = length (filter (\<lambda>c. \<not> mc_is_empty c) (rs_cells m')) \<and>
     (\<forall>i. a \<le> i \<and> i \<le> b \<and> sr m3 i < 0 \<longrightarrow> int a \<le> rs_z m') \<and> rs_z m' \<le> int b \<and> (0 \<le> rs_z m' \<longrightarrow> int a \<le> rs_z m') \<and>
     (\<forall>j < length (rs_cells m3). 0 \<le> rs_z m' \<longrightarrow> sr m3 j \<noteq> rs_z m') \<and>
     (\<forall>j < length (rs_cells m3). rs_cells m' ! j =
       (if a \<le> j \<and> j \<le> b then (rs_cells m3 ! j)\<lparr>mc_src0 := (if sr m3 j < 0 then rs_z m' else sr m3 j), mc_src := int j\<rparr> else rs_cells m3 ! j))"

definition zero_rows :: "memory_recurrent \<Rightarrow> nat set" where
  "zero_rows m = {j. j < rs_size m \<and> sq m j = {} \<and> sr m j = int j}"

lemma find_slot_found:
  assumes inv: "rs_inv m" and u: "rs_ubatch (rs_size m) ub"
  shows "\<exists>h m1 a b P m2 m3 m'. rs_find_slot ub m = Some (True, m') \<and> detached (followers ub [0..<ub_n_seqs ub]) (m\<lparr>rs_head := h\<rparr>) m1 \<and>
    gathered (zero_rows m) ub a b P m1 m2 \<and> placed ub a (ub_n_seqs ub) m2 m3 \<and> staged a b m3 m'"
proof -
  let ?n = "ub_n_seqs ub"
  define h where "h = (if rs_head m > rs_used m + 2 * ?n then 0 else rs_head m)"
  have h: "h < rs_size m" "(if rs_head m > rs_used m + 2 * ?n then m\<lparr>rs_head := 0\<rparr> else m) = m\<lparr>rs_head := h\<rparr>"
    using rs_invD(2,4) [OF inv] by (simp_all add: h_def)
  have invh: "rs_inv (m\<lparr>rs_head := h\<rparr>)"
    using rs_inv_cong [OF inv, of "m\<lparr>rs_head := h\<rparr>"] h by simp
  obtain m1 where m1: "share_all ub [0..<?n] (m\<lparr>rs_head := h\<rparr>) = Some (True, m1)" "detached (followers ub [0..<?n]) (m\<lparr>rs_head := h\<rparr>) m1"
    using share_all_ok [OF invh, of ub "[0..<?n]"] u by (auto simp: atLeast0LessThan)
  have inv1: "rs_inv m1" "rs_size m1 = rs_size m" "rs_head m1 = h"
    using m1(2) by (simp_all add: detached_def)
  note I1 = rs_invD [OF inv1(1)]
  note u1 = u [folded inv1(2)]
  obtain e where e: "first_empty (rs_size m1) (rs_head m1) m1 = Some e" "cursor (rs_head m1) e m1"
    using cursor_first [OF rs_inv_pend [OF inv1(1)] I1(4)] by blast
  have zero: "zero_src (zero_rows m) m1"
    unfolding zero_src_def
  proof (intro allI impI)
    fix j assume j: "j < rs_size m1" "sq m1 j = {}"
    then have "sr m1 j = (if sq m j \<noteq> {} then - 1 else sr m j)"
      using m1(2) inv1(2) by (simp add: detached_def)
    then show "sr m1 j = - 1 \<or> nat (sr m1 j) \<in> zero_rows m"
      using rs_invD(5) [OF inv, of j] j inv1(2) by (auto simp: zero_rows_def cell_ok_def split: if_splits)
  qed
  have home: "home mn mx m1" for mn mx
    using I1(5) by (force simp: home_def cell_ok_def split: if_splits)
  let ?st = "\<lparr>rg_mem = m1, rg_next = e, rg_min = int (rs_size m1) - 1, rg_max = 0\<rparr>"
  have "ranged (zero_rows m) m1 {} {} (rg_min ?st) (rg_max ?st) (rg_mem ?st)"
    using rs_inv_pend [OF inv1(1)] zero home I1(2) by (simp add: ranged_def)
  then obtain st P where st: "mfold (range_seq ub) [0..<?n] ?st = Some st"
    "ranged (zero_rows m) m1 (lead ub ` {..<?n}) P (rg_min st) (rg_max st) (rg_mem st)"
    using range_loop [of "zero_rows m" m1 ?st ub ?n] e(2) u1 I1(4) by auto
  have n: "0 < ?n"
    using u by (simp add: rs_ubatch_def)
  obtain t where t: "rg_min st \<le> int t" "int t \<le> rg_max st"
    using ranged_tail [OF st(2), of "lead ub 0"] n by auto
  define a b where "a = nat (rg_min st)" and "b = nat (rg_max st)"
  have ab: "rg_min st = int a" "rg_max st = int b" "b < rs_size m1"
    using st(2) t by (auto simp: a_def b_def ranged_def)
  obtain m2 where m2: "mfold (gather_seq ub (int a)) [0..<?n] (rg_mem st) = Some m2" "ranged (zero_rows m) m1 (lead ub ` {..<?n}) P (int a) (int b) m2"
    "\<And>s. s < ?n \<Longrightarrow> tl_of m2 (lead ub s) = int s + int a"
    using gather_loop [OF st(2) u1 order_refl] ab by auto
  have room: "a + ?n \<le> b + 1"
    using ranged_room [OF m2(2) u1] by simp
  have sz2: "rs_size m2 = rs_size m" "length (rs_cells m2) = rs_size m2" "pend_inv P m2" "home (int a) (int b) m2"
    using m2(2) pend_invD(2) inv1(2) by (auto simp: ranged_def)
  obtain m3 where m3: "mfold (place_seq ub (int a)) [0..<?n] m2 = Some m3" "placed ub a ?n m2 m3"
    using place_loop [of m2 ub a ?n] u sz2 room ab(3) inv1(2) by auto
  have sz3: "rs_size m3 = rs_size m" "length (rs_cells m3) = rs_size m" "\<And>j. j < rs_size m \<Longrightarrow> sr m3 j = sr m2 j"
    using m3(2) sz2 by (auto simp: placed_def same_shape_def)
  have src: "list_all (\<lambda>c. mc_src c < int (rs_size m3)) (rs_cells m3)"
    using pend_invD(7) [OF sz2(3)] sz2 sz3 by (auto simp: list_all_length)
  have home3: "home (int a) (int b) m3"
    using sz2(1,4) sz3 by (simp add: home_def)
  define z where "z = find_rs_z (int a) (int b) m3"
  have z: "int a \<le> z \<and> z \<le> int b \<and> (\<forall>j < rs_size m. sr m3 j \<noteq> z)" if "a \<le> i" "i \<le> b" "sr m3 i < 0" for i
    using find_rs_z_ok [OF home3, of i] that sz3 ab(3) inv1(2) by (simp add: z_def)
  have z': "z = - 1 \<or> int a \<le> z \<and> z \<le> int b \<and> (\<forall>j < rs_size m. sr m3 j \<noteq> z)"
  proof (cases "find (\<lambda>i. refcount m3 i = 0) [int a..int b]")
    case (Some x)
    then have "x \<in> {int a..int b}" "refcount m3 x = 0"
      by (auto dest: find_mem)
    then show ?thesis
      using Some refcount_0 [of x m3] sz3 by (simp add: z_def find_rs_z_def)
  qed (simp add: z_def find_rs_z_def)
  have "\<exists>m5. mfold stage_src [int a..int b] (m3\<lparr>rs_z := z\<rparr>) = Some m5 \<and> rs_size m5 = rs_size m \<and> rs_z m5 = z \<and> length (rs_cells m5) = rs_size m \<and>
    (\<forall>j < rs_size m. rs_cells m5 ! j =
       (if int j \<in> set [int a..int b] then (rs_cells m3 ! j)\<lparr>mc_src0 := (if sr m3 j < 0 then z else sr m3 j), mc_src := int j\<rparr> else rs_cells m3 ! j))"
  proof -
    define m4 where "m4 = m3\<lparr>rs_z := z\<rparr>"
    have m4: "rs_cells m4 = rs_cells m3" "rs_z m4 = z" "rs_size m4 = rs_size m"
      using sz3(1) by (simp_all add: m4_def)
    have p1: "0 \<le> i \<and> nat i < length (rs_cells m4)" if "i \<in> set [int a..int b]" for i
      using that ab(3) inv1(2) sz3(2) m4(1) by auto
    have p2: "0 \<le> rs_z m4" if "i \<in> set [int a..int b]" "sr m4 (nat i) < 0" for i
      using that z [of "nat i"] m4 by (auto simp: nat_le_iff le_nat_iff)
    show ?thesis
      using stage_loop [of "[int a..int b]" m4, OF distinct_upto p1 p2] unfolding m4 sz3(2) m4_def [symmetric] .
  qed
  then obtain m5 where m5: "mfold stage_src [int a..int b] (m3\<lparr>rs_z := z\<rparr>) = Some m5" "rs_size m5 = rs_size m" "rs_z m5 = z" "length (rs_cells m5) = rs_size m"
    "\<And>j. j < rs_size m \<Longrightarrow> rs_cells m5 ! j =
       (if a \<le> j \<and> j \<le> b then (rs_cells m3 ! j)\<lparr>mc_src0 := (if sr m3 j < 0 then z else sr m3 j), mc_src := int j\<rparr> else rs_cells m3 ! j)"
    by auto
  define m' where "m' = m5\<lparr>rs_head := a, rs_n := b + 1 - a, rs_used := length (filter (\<lambda>c. \<not> mc_is_empty c) (rs_cells m5))\<rparr>"
  have nat_n: "nat ((int b - int a + 1) mod 2 ^ 32) = b + 1 - a"
  proof -
    have "(int b - int a + 1) mod 2 ^ 32 = int b - int a + 1"
      using room n ab(3) inv1(2) rs_invD(7) [OF inv] by (intro mod_pos_pos_trivial) simp_all
    then show ?thesis
      by simp
  qed
  have "rs_find_slot ub m = Some (True, m')"
    using u room h(2) m1(1) e(1) st(1) m2(1) m3(1) src m5(1)
    unfolding rs_find_slot_def Let_def by (simp add: rs_ubatch_def ab(1,2) z_def [symmetric] nat_n [simplified] m'_def)
  moreover have "staged a b m3 m'"
    using m5 sz3 z z' room by (auto simp: staged_def m'_def)
  moreover have "gathered (zero_rows m) ub a b P m1 m2"
    using m2(2,3) room by (simp add: gathered_def add.commute)
  ultimately show ?thesis
    using m1(2) m3(2) by blast
qed

definition slot_run ::
  "'e llama_ubatch \<Rightarrow> memory_recurrent \<Rightarrow> nat \<Rightarrow> memory_recurrent \<Rightarrow> nat \<Rightarrow> nat \<Rightarrow> nat set \<Rightarrow> memory_recurrent \<Rightarrow> memory_recurrent \<Rightarrow> memory_recurrent \<Rightarrow> bool" where
  "slot_run ub m h m1 a b P m2 m3 m' \<longleftrightarrow> rs_inv m \<and> rs_ubatch (rs_size m) ub \<and>
     detached (followers ub [0..<ub_n_seqs ub]) (m\<lparr>rs_head := h\<rparr>) m1 \<and> gathered (zero_rows m) ub a b P m1 m2 \<and>
     placed ub a (ub_n_seqs ub) m2 m3 \<and> staged a b m3 m'"

definition in_ubatch :: "'e llama_ubatch \<Rightarrow> nat \<Rightarrow> bool" where
  "in_ubatch ub q \<longleftrightarrow> (\<exists>s < ub_n_seqs ub. q \<in> set (seqs_of ub s))"

lemma slot_runD:
  assumes "slot_run ub m h m1 a b P m2 m3 m'"
  shows "rs_inv m" "rs_ubatch (rs_size m) ub" "rs_inv m1" "rs_size m1 = rs_size m" "rs_size m2 = rs_size m" "rs_size m3 = rs_size m" "rs_size m' = rs_size m"
    "pend_inv P m2" "length (rs_cells m3) = rs_size m" "length (rs_cells m') = rs_size m" "P \<subseteq> lead ub ` {..<ub_n_seqs ub}" "zero_src (zero_rows m) m2"
    "home (int a) (int b) m2" "\<And>j. j < rs_size m \<Longrightarrow> sr m3 j = sr m2 j" "a + ub_n_seqs ub \<le> b + 1" "b < rs_size m"
    "\<And>s. s < ub_n_seqs ub \<Longrightarrow> tl_of m2 (lead ub s) = int (a + s)" "\<And>r. r < rs_size m \<Longrightarrow> r \<notin> P \<Longrightarrow> view m2 r = view m1 r" "\<And>r. r \<in> P \<Longrightarrow> tl_of m1 r = - 1"
proof -
  have g: "gathered (zero_rows m) ub a b P m1 m2" and d: "detached (followers ub [0..<ub_n_seqs ub]) (m\<lparr>rs_head := h\<rparr>) m1"
    and p: "placed ub a (ub_n_seqs ub) m2 m3" and st: "staged a b m3 m'"
    and i: "rs_inv m" "rs_ubatch (rs_size m) ub"
    using assms by (simp_all add: slot_run_def)
  show "rs_inv m" "rs_ubatch (rs_size m) ub"
    by fact+
  show d1: "rs_inv m1" "rs_size m1 = rs_size m"
    using d by (simp_all add: detached_def)
  show m2: "pend_inv P m2" "rs_size m2 = rs_size m" "P \<subseteq> lead ub ` {..<ub_n_seqs ub}" "zero_src (zero_rows m) m2" "home (int a) (int b) m2"
      "a + ub_n_seqs ub \<le> b + 1" "b < rs_size m" "\<And>s. s < ub_n_seqs ub \<Longrightarrow> tl_of m2 (lead ub s) = int (a + s)"
    using g d1(2) by (simp_all add: gathered_def ranged_def)
  show m3: "rs_size m3 = rs_size m" "length (rs_cells m3) = rs_size m" "\<And>j. j < rs_size m \<Longrightarrow> sr m3 j = sr m2 j"
    using p m2(2) pend_invD(2) [OF m2(1)] by (simp_all add: placed_def same_shape_def)
  show "rs_size m' = rs_size m" "length (rs_cells m') = rs_size m"
    using st m3 by (simp_all add: staged_def)
  show "view m2 r = view m1 r" if "r < rs_size m" "r \<notin> P" for r
    using g that m2(2) by (simp add: gathered_def ranged_def)
  show "tl_of m1 r = - 1" if "r \<in> P" for r
    using g that pend_invD(4) [OF m2(1) that] by (simp add: gathered_def ranged_def)
qed

text \<open>Sequences that do not follow another one see the same cell contents until they are placed.\<close>

lemma follower_iff:
  assumes u: "rs_ubatch n ub" and s: "s < ub_n_seqs ub" and q: "q \<in> set (seqs_of ub s)"
  shows "q \<in> followers ub [0..<ub_n_seqs ub] \<longleftrightarrow> q \<noteq> lead ub s"
proof -
  have "q \<in> followers ub [0..<ub_n_seqs ub] \<longleftrightarrow> q \<in> set (tl (seqs_of ub s))"
    using seqs_disjoint [OF u _ s _ q] s by (auto simp: followers_def dest: list.set_sel(2) [OF _])
      (metis list.sel(2) list.set_sel(2))
  moreover have "q \<in> set (tl (seqs_of ub s)) \<longleftrightarrow> q \<noteq> lead ub s"
    using q rs_ubatchD(5) [OF u s] by (cases "seqs_of ub s") (auto simp: lead_def)
  ultimately show ?thesis
    by simp
qed

lemma slot_detached:
  assumes r: "slot_run ub m h m1 a b P m2 m3 m'" and q: "q < rs_size m"
  shows "q \<in> followers ub [0..<ub_n_seqs ub] \<Longrightarrow> tl_of m1 q = - 1" "q \<notin> followers ub [0..<ub_n_seqs ub] \<Longrightarrow> view m1 q = view m q"
proof -
  have d: "detached (followers ub [0..<ub_n_seqs ub]) (m\<lparr>rs_head := h\<rparr>) m1" and inv: "rs_inv m"
    using r by (simp_all add: slot_run_def)
  show "q \<in> followers ub [0..<ub_n_seqs ub] \<Longrightarrow> tl_of m1 q = - 1"
    using d q by (simp add: detached_def)
  assume nf: "q \<notin> followers ub [0..<ub_n_seqs ub]"
  then have tl: "tl_of m1 q = tl_of m q"
    using d q by (simp add: detached_def)
  show "view m1 q = view m q"
  proof (cases "tl_of m q = - 1")
    case False
    then obtain t where t: "t < rs_size m" "tl_of m q = int t" "q \<in> sq m t"
      using tailsD [OF rs_invD(3) [OF inv] q] by auto
    then have "q \<in> sq m1 t"
      using d nf by (simp add: detached_def)
    then have "ps m1 t = ps m t \<and> sr m1 t = sr m t"
      using d t(1) by (auto simp: detached_def)
    then show ?thesis
      using t tl by (simp add: view_def)
  qed (simp add: view_def tl)
qed

text \<open>The gathered cells hold nobody but their first sequences.\<close>

lemma slot_lead_cell:
  assumes r: "slot_run ub m h m1 a b P m2 m3 m'" and s: "s < ub_n_seqs ub"
  shows "sq m2 (a + s) \<subseteq> {lead ub s}"
proof -
  have "owns m2 (lead ub s)"
    using r s by (simp add: slot_run_def gathered_def ranged_def)
  then show ?thesis
    using slot_runD(17) [OF r s] unfolding owns_def by (metis of_nat_eq_iff)
qed

lemma slot_other:
  assumes r: "slot_run ub m h m1 a b P m2 m3 m'" and q: "q < rs_size m" "\<not> in_ubatch ub q"
  shows "q \<notin> P" "view m2 q = view m q" "tl_of m3 q = tl_of m2 q"
    "tl_of m2 q = - 1 \<or> (\<exists>t < rs_size m. tl_of m2 q = int t \<and> q \<in> sq m2 t \<and> (t < a \<or> a + ub_n_seqs ub \<le> t))"
proof -
  note D = slot_runD [OF r]
  have lead: "lead ub s \<in> set (seqs_of ub s)" if "s < ub_n_seqs ub" for s
    using rs_ubatchD(8) [OF D(2) that] .
  show P: "q \<notin> P"
    using D(11) q(2) lead by (auto simp: in_ubatch_def)
  have "q \<notin> followers ub [0..<ub_n_seqs ub]"
    using q(2) by (auto simp: in_ubatch_def followers_def dest: list.set_sel(2) [rotated]) (metis list.sel(2) list.set_sel(2))
  then show "view m2 q = view m q"
    using D(18) [OF q(1) P] slot_detached(2) [OF r q(1)] by simp
  show "tl_of m3 q = tl_of m2 q"
    using r q D(5) by (auto simp: slot_run_def placed_def in_ubatch_def)
  have "t < a \<or> a + ub_n_seqs ub \<le> t" if "q \<in> sq m2 t" for t
  proof (rule ccontr)
    assume "\<not> ?thesis"
    then have "a + (t - a) = t" "t - a < ub_n_seqs ub"
      by auto
    then show False
      using that slot_lead_cell [OF r, of "t - a"] lead [of "t - a"] q(2) by (auto simp: in_ubatch_def)
  qed
  then show "tl_of m2 q = - 1 \<or> (\<exists>t < rs_size m. tl_of m2 q = int t \<and> q \<in> sq m2 t \<and> (t < a \<or> a + ub_n_seqs ub \<le> t))"
    using pend_invD(3) [OF D(8), of q] P q(1) D(5) by auto
qed

text \<open>What the result holds: the sets of the ubatch at the head of the slot, everything else as it was gathered.\<close>

lemma slot_cells:
  assumes r: "slot_run ub m h m1 a b P m2 m3 m'"
  shows "s < ub_n_seqs ub \<Longrightarrow> sq m' (a + s) = set (seqs_of ub s) \<and> ps m' (a + s) = last_pos_of ub s \<and> (\<forall>q \<in> set (seqs_of ub s). tl_of m' q = int (a + s))"
    "j < rs_size m \<Longrightarrow> j < a \<or> a + ub_n_seqs ub \<le> j \<Longrightarrow> sq m' j = sq m2 j \<and> ps m' j = ps m2 j"
    "q < rs_size m \<Longrightarrow> \<not> in_ubatch ub q \<Longrightarrow> tl_of m' q = tl_of m2 q"
    "j < rs_size m \<Longrightarrow> sr m' j = (if a \<le> j \<and> j \<le> b then int j else sr m2 j)"
proof -
  note D = slot_runD [OF r]
  have p: "placed ub a (ub_n_seqs ub) m2 m3" and st: "staged a b m3 m'"
    using r by (simp_all add: slot_run_def)
  have cell: "sq m' j = sq m3 j" "ps m' j = ps m3 j" "tl_of m' j = tl_of m3 j" "sr m' j = (if a \<le> j \<and> j \<le> b then int j else sr m2 j)" if "j < rs_size m" for j
    using st that D(9,14) by (simp_all add: staged_def)
  show "sq m' (a + s) = set (seqs_of ub s) \<and> ps m' (a + s) = last_pos_of ub s \<and> (\<forall>q \<in> set (seqs_of ub s). tl_of m' q = int (a + s))" if s: "s < ub_n_seqs ub"
  proof -
    have "a + s < rs_size m"
      using s D(15,16) by simp
    moreover have "q < rs_size m" if "q \<in> set (seqs_of ub s)" for q
      using rs_ubatchD(4) [OF D(2) s] that by auto
    ultimately show ?thesis
      using cell p s by (simp add: placed_def)
  qed
  show "sq m' j = sq m2 j \<and> ps m' j = ps m2 j" if "j < rs_size m" "j < a \<or> a + ub_n_seqs ub \<le> j"
    using cell that p D(5) by (auto simp: placed_def)
  show "tl_of m' q = tl_of m2 q" if "q < rs_size m" "\<not> in_ubatch ub q"
    using cell that slot_other(3) [OF r that] by simp
  show "sr m' j = (if a \<le> j \<and> j \<le> b then int j else sr m2 j)" if "j < rs_size m"
    using cell [OF that] by simp
qed

text \<open>An occupied cell outside of the slot has its state at home.\<close>

lemma slot_home:
  assumes r: "slot_run ub m h m1 a b P m2 m3 m'" and j: "j < rs_size m" "j < a \<or> b < j" "sq m2 j \<noteq> {}"
  shows "sr m2 j = int j"
proof -
  note D = slot_runD [OF r]
  obtain q where q: "q \<in> sq m2 j"
    using j(3) by auto
  have tl: "q < rs_size m" "tl_of m2 q = int j"
    using pend_invD(6) [OF D(8), of j q] j(1) q D(5) by simp_all
  have "q \<notin> P"
    using pend_invD(4) [OF D(8), of q] tl(2) j(3) by auto
  then have "view m1 q = Some (ps m2 j, sr m2 j)"
    using D(18) [OF tl(1)] tl(2) by (simp add: view_def)
  then obtain t where t: "t < rs_size m" "tl_of m1 q = int t" "q \<in> sq m1 t" "sr m1 t = sr m2 j"
    using tailsD [OF rs_invD(3) [OF D(3)], of q] tl(1) D(4) by (auto simp: view_def split: if_splits)
  have "sr m1 t = int t"
    using rs_invD(5) [OF D(3), of t] t D(4) by (auto simp: cell_ok_def split: if_splits)
  then show ?thesis
    using D(13) j(1,2) t(4) D(5) by (auto simp: home_def)
qed

lemma slot_mem:
  assumes r: "slot_run ub m h m1 a b P m2 m3 m'" and j: "j < rs_size m" "j < a \<or> a + ub_n_seqs ub \<le> j" and q: "q \<in> sq m2 j"
  shows "q < rs_size m" "\<not> in_ubatch ub q" "tl_of m2 q = int j"
proof -
  note D = slot_runD [OF r]
  show tl: "q < rs_size m" "tl_of m2 q = int j"
    using pend_invD(6) [OF D(8), of j q] j(1) q D(5) by simp_all
  show "\<not> in_ubatch ub q"
  proof
    assume "in_ubatch ub q"
    then obtain s where s: "s < ub_n_seqs ub" "q \<in> set (seqs_of ub s)"
      by (auto simp: in_ubatch_def)
    show False
    proof (cases "q = lead ub s")
      case True
      then show False
        using D(17) [OF s(1)] tl(2) j(2) s(1) by auto
    next
      case False
      then have "tl_of m1 q = - 1"
        using slot_detached(1) [OF r tl(1)] follower_iff [OF D(2) s] by simp
      moreover have "q \<notin> P"
        using pend_invD(4) [OF D(8), of q] tl(2) q by auto
      ultimately show False
        using D(18) [OF tl(1)] tl(2) by (simp add: view_def)
    qed
  qed
qed

lemma slot_inv:
  assumes r: "slot_run ub m h m1 a b P m2 m3 m'"
  shows "rs_inv m'"
proof -
  note D = slot_runD [OF r] and C = slot_cells [OF r]
  note I = rs_invD [OF D(1)] and J = pend_invD [OF D(8), unfolded D(5)]
  let ?n = "ub_n_seqs ub"
  have slot: "\<exists>s < ?n. j = a + s" if "\<not> (j < a \<or> a + ?n \<le> j)" for j
    using that by (intro exI [of _ "j - a"]) auto
  have mem: "tl_of m' q = int j \<longleftrightarrow> q \<in> sq m' j" if b: "q < rs_size m" "j < rs_size m" for q j
  proof (cases "in_ubatch ub q")
    case True
    then obtain s where s: "s < ?n" "q \<in> set (seqs_of ub s)"
      by (auto simp: in_ubatch_def)
    then have tl: "tl_of m' q = int (a + s)"
      using C(1) by simp
    show ?thesis
    proof (cases "j < a \<or> a + ?n \<le> j")
      case out: True
      then have "q \<notin> sq m' j"
        using slot_mem(2) [OF r b(2) out] True C(2) [OF b(2) out] by auto
      then show ?thesis
        using tl out s(1) by auto
    next
      case False
      then obtain s' where s': "s' < ?n" "j = a + s'"
        using slot by blast
      then show ?thesis
        using C(1) [OF s'(1)] tl s seqs_disjoint [OF D(2) s(1) s'(1) s(2)] by auto
    qed
  next
    case False
    note O = slot_other(4) [OF r b(1) False]
    show ?thesis
    proof (cases "j < a \<or> a + ?n \<le> j")
      case out: True
      have "q \<in> sq m2 j \<longleftrightarrow> tl_of m2 q = int j"
        using O slot_mem(3) [OF r b(2) out, of q] by (metis of_nat_eq_iff negative_eq_positive of_nat_1 one_neq_zero)
      then show ?thesis
        using C(2) [OF b(2) out] C(3) [OF b(1) False] by simp
    next
      case inn: False
      then obtain s' where s': "s' < ?n" "j = a + s'"
        using slot by blast
      have "q \<notin> sq m' j"
        using C(1) [OF s'(1)] s' False by (auto simp: in_ubatch_def)
      then show ?thesis
        using O C(3) [OF b(1) False] inn by auto
    qed
  qed
  have sub: "sq m' j \<subseteq> {..<rs_size m}" if j: "j < rs_size m" for j
  proof (cases "j < a \<or> a + ?n \<le> j")
    case True
    then show ?thesis
      using C(2) [OF j True] slot_mem(1) [OF r j True] by auto
  next
    case False
    then obtain s where "s < ?n" "j = a + s"
      using slot by blast
    then show ?thesis
      using C(1) [of s] rs_ubatchD(4) [OF D(2), of s] by simp
  qed
  have tail: "tl_of m' q = - 1 \<or> 0 \<le> tl_of m' q \<and> tl_of m' q < int (rs_size m)" if "q < rs_size m" for q
  proof (cases "in_ubatch ub q")
    case True
    then obtain s where "s < ?n" "q \<in> set (seqs_of ub s)"
      by (auto simp: in_ubatch_def)
    then show ?thesis
      using C(1) [of s] D(15,16) by simp
  next
    case False
    then show ?thesis
      using slot_other(4) [OF r that False] C(3) [OF that False] by auto
  qed
  have cells: "cell_ok j (rs_cells m' ! j)" if j: "j < rs_size m" for j
  proof (cases "j < a \<or> a + ?n \<le> j")
    case True
    have "sr m2 j = - 1 \<or> sr m2 j = int j" if "j < a \<or> b < j"
      using D(13) that j D(5) by (auto simp: home_def)
    then show ?thesis
      using J(7) [OF j] C(2) [OF j True] C(4) [OF j] slot_home [OF r j] by (auto simp: cell_ok_def split: if_splits)
  next
    case False
    then obtain s where s: "s < ?n" "j = a + s"
      using slot by blast
    then show ?thesis
      using C(1) [OF s(1)] C(4) [OF j] rs_ubatchD(3,6) [OF D(2) s(1)] D(15) by (auto simp: cell_ok_def)
  qed
  have "rs_used m' = card (occupied m')"
    using r D(7,10) by (simp add: slot_run_def staged_def length_filter_conv_card occupied_def mc_is_empty_def)
  moreover have "rs_head m' < rs_size m"
    using r D(2,15,16) by (simp add: slot_run_def staged_def rs_ubatch_def)
  moreover have "tails_ok m'"
    using mem sub tail by (simp add: tails_ok_def D(7))
  ultimately show ?thesis
    using D(7,10) I(2,7) cells by (simp add: rs_inv_def)
qed

section \<open>States\<close>

text \<open>The state of a sequence is the row of its tail; a sequence without a cell has the zeroed state. The rows of empty cells that are their own
  source are zeroed.\<close>

definition state_of :: "'s \<Rightarrow> 's list \<Rightarrow> memory_recurrent \<Rightarrow> nat \<Rightarrow> 's" where
  "state_of zero ss m q = (if tl_of m q = - 1 then zero else ss ! nat (tl_of m q))"

definition coherent :: "'s \<Rightarrow> 's list \<Rightarrow> memory_recurrent \<Rightarrow> bool" where
  "coherent zero ss m \<longleftrightarrow> length ss = rs_size m \<and> (\<forall>j < rs_size m. sq m j = {} \<and> sr m j = int j \<longrightarrow> ss ! j = zero)"

definition row_val :: "'s \<Rightarrow> 's list \<Rightarrow> memory_recurrent \<Rightarrow> nat \<Rightarrow> 's" where
  "row_val zero ss m j = (if sr m j < 0 then zero else ss ! nat (sr m j))"

lemma slot_empty_val:
  assumes r: "slot_run ub m h m1 a b P m2 m3 m'" and c: "coherent zero ss m" and j: "j < rs_size m" "sq m2 j = {}"
  shows "row_val zero ss m2 j = zero"
  using slot_runD(12) [OF r] c j slot_runD(5) [OF r] by (auto simp: zero_src_def zero_rows_def coherent_def row_val_def)

lemma view_state:
  assumes inv: "rs_inv m" and q: "q < rs_size m" and v: "view m2 q = view m q" and t: "tl_of m2 q = int t"
  shows "row_val zero ss m2 t = state_of zero ss m q" "tl_of m q = sr m2 t"
proof -
  have "view m q = Some (ps m2 t, sr m2 t)"
    using v t by (simp add: view_def)
  then obtain u where u: "u < rs_size m" "tl_of m q = int u" "q \<in> sq m u" "sr m u = sr m2 t"
    using tailsD [OF rs_invD(3) [OF inv] q] by (auto simp: view_def split: if_splits)
  moreover have "sr m u = int u"
    using rs_invD(5) [OF inv u(1)] u(3) by (auto simp: cell_ok_def split: if_splits)
  ultimately show "row_val zero ss m2 t = state_of zero ss m q" "tl_of m q = sr m2 t"
    by (simp_all add: row_val_def state_of_def)
qed

lemma slot_lead_val:
  assumes r: "slot_run ub m h m1 a b P m2 m3 m'" and c: "coherent zero ss m" and s: "s < ub_n_seqs ub"
  shows "row_val zero ss m2 (a + s) = state_of zero ss m (lead ub s)"
proof -
  note D = slot_runD [OF r]
  let ?q = "lead ub s"
  have q: "?q < rs_size m" "?q \<in> set (seqs_of ub s)"
    using rs_ubatchD(8,9) [OF D(2) s] by simp_all
  have v: "view m1 ?q = view m ?q"
    using slot_detached(2) [OF r q(1)] follower_iff [OF D(2) s q(2)] by simp
  show ?thesis
  proof (cases "?q \<in> P")
    case True
    have "tl_of m ?q = - 1"
      using D(19) [OF True] v by (simp add: view_def split: if_splits)
    moreover have "sq m2 (a + s) = {}" "a + s < rs_size m"
      using pend_invD(4) [OF D(8) True] D(17) [OF s] D(15,16) s by (auto simp flip: of_nat_add)
    ultimately show ?thesis
      using slot_empty_val [OF r c, of "a + s"] by (simp add: state_of_def)
  next
    case False
    then show ?thesis
      using view_state(1) [OF D(1) q(1) _ D(17) [OF s]] D(18) [OF q(1) False] v by simp
  qed
qed

subsection \<open>The graph\<close>

lemma rows_loop:
  assumes "\<And>i. i \<in> set is \<Longrightarrow> g i = Some (f i)"
  shows "mfold (\<lambda>i out. do { r \<leftarrow> g i; Some (out @ [r]) }) is out = Some (out @ map f is)"
  using assms by (induction "is" arbitrary: out) simp_all

lemma get_rows_ok:
  assumes "\<And>i. i \<in> set rows \<Longrightarrow> 0 \<le> i \<and> nat i < length ss"
  shows "get_rows ss rows = Some (map (\<lambda>i. ss ! nat i) rows)"
proof -
  have "mfold (\<lambda>i out. do { require (0 \<le> i \<and> nat i < length ss); Some (out @ [ss ! nat i]) }) rows out = Some (out @ map (\<lambda>i. ss ! nat i) rows)" for out
    using assms by (induction rows arbitrary: out) simp_all
  then show ?thesis
    by (simp add: get_rows_def)
qed

lemma slot_build:
  assumes r: "slot_run ub m h m1 a b P m2 m3 m'" and len: "length ss = rs_size m" and ctx: "\<not> rc_is_full ctx"
  shows "\<exists>ss'. build_rs zero (ub_n_seqs ub) ctx m' ss = Some (map (\<lambda>s. row_val zero ss m2 (a + s)) [0..<ub_n_seqs ub], ss') \<and> length ss' = rs_size m \<and>
    (\<forall>j. a + ub_n_seqs ub \<le> j \<and> j \<le> b \<longrightarrow> ss' ! j = row_val zero ss m2 j) \<and> (\<forall>j < rs_size m. j < a \<or> b < j \<longrightarrow> ss' ! j = ss ! j)"
proof -
  note D = slot_runD [OF r]
  have st: "staged a b m3 m'"
    using r by (simp add: slot_run_def)
  let ?n = "ub_n_seqs ub"
  define k where "k = b + 1 - a"
  have z: "rs_z m' \<le> int b" "0 \<le> rs_z m' \<longrightarrow> int a \<le> rs_z m'" "\<And>j. j < rs_size m \<Longrightarrow> 0 \<le> rs_z m' \<Longrightarrow> sr m2 j \<noteq> rs_z m'"
    "\<And>j. a \<le> j \<Longrightarrow> j \<le> b \<Longrightarrow> sr m2 j < 0 \<Longrightarrow> int a \<le> rs_z m'" and head: "rs_head m' = a" "rs_n m' = k"
    using st D(9,14,16) unfolding staged_def k_def by (auto simp del: of_nat_le_iff)
  define states where "states = (if rs_z m' \<ge> 0 then ss[nat (rs_z m') := zero] else ss)"
  have lens: "length states = rs_size m"
    using len by (simp add: states_def)
  define src0 where "src0 j = (if sr m2 j < 0 then rs_z m' else sr m2 j)" for j
  have row: "0 \<le> src0 j \<and> nat (src0 j) < rs_size m \<and> states ! nat (src0 j) = row_val zero ss m2 j" if "a \<le> j" "j \<le> b" for j
  proof -
    have "sr m2 j < int (rs_size m)"
      using pend_invD(7) [OF D(8), of j] that D(5,16) by simp
    then show ?thesis
      using z(1) z(4) [OF that] z(3) [of j] that D(16) len by (auto simp: src0_def states_def row_val_def nth_list_update)
  qed
  have copy: "s_copy m' i = Some (src0 (a + i))" if "i < k" for i
  proof -
    have "a + i \<le> b"
      using that by (simp add: k_def)
    then show ?thesis
      using st D(9,10,14,16) head by (simp add: s_copy_def staged_def src0_def rs_get_nat add.commute flip: of_nat_add)
  qed
  have rows: "mfold (\<lambda>i out. do { r \<leftarrow> s_copy m' i; Some (out @ [r]) }) [0..<k] [] = Some (map (\<lambda>i. src0 (a + i)) [0..<k])"
    using rows_loop [of "[0..<k]" "s_copy m'" "\<lambda>i. src0 (a + i)" "[]"] copy by simp
  have nk: "?n \<le> k"
    using D(15) by (simp add: k_def)
  have ab: "a + i \<le> b" if "i < k" for i
    using that by (simp add: k_def)
  have parts: "take ?n (map (\<lambda>i. src0 (a + i)) [0..<k]) = map (\<lambda>i. src0 (a + i)) [0..<?n]"
    "drop ?n (map (\<lambda>i. src0 (a + i)) [0..<k]) = map (\<lambda>i. src0 (a + i)) [?n..<k]"
    using nk by (simp_all add: take_map drop_map)
  have out: "get_rows states (map (\<lambda>i. src0 (a + i)) [0..<?n]) = Some (map (\<lambda>s. row_val zero ss m2 (a + s)) [0..<?n])"
    using row nk ab lens by (subst get_rows_ok) auto
  have extra: "get_rows states (map (\<lambda>i. src0 (a + i)) [?n..<k]) = Some (map (\<lambda>s. row_val zero ss m2 (a + s)) [?n..<k])"
    using row nk ab lens by (subst get_rows_ok) auto
  define ss' where "ss' = take (a + ?n) states @ map (\<lambda>s. row_val zero ss m2 (a + s)) [?n..<k] @ drop (a + ?n + (k - ?n)) states"
  have fit: "a + ?n + (k - ?n) = b + 1" "b + 1 \<le> rs_size m"
    using D(15,16) by (simp_all add: k_def)
  have "build_rs zero ?n ctx m' ss = Some (map (\<lambda>s. row_val zero ss m2 (a + s)) [0..<?n], ss')"
    using z(1) D(16) len ctx head rows nk out extra fit lens
    by (simp add: build_rs_def Let_def get_rs_z_def get_n_rs_def get_rs_head_def states_def [symmetric] parts write_rows_at_def ss'_def)
  moreover have "length ss' = rs_size m"
    using fit lens nk by (simp add: ss'_def)
  moreover have "ss' ! j = row_val zero ss m2 j" if "a + ?n \<le> j" "j \<le> b" for j
  proof -
    have "j - (a + ?n) < k - ?n" "?n + (j - (a + ?n)) < k" "a + (?n + (j - (a + ?n))) = j"
      using that by (auto simp: k_def)
    then show ?thesis
      using that fit lens nk by (auto simp: ss'_def nth_append)
  qed
  moreover have "ss' ! j = ss ! j" if "j < rs_size m" "j < a \<or> b < j" for j
    using that fit lens nk z(1,2) len by (auto simp: ss'_def nth_append states_def nth_list_update)
  ultimately show ?thesis
    by blast
qed

section \<open>Properties\<close>

definition ubatch_set :: "'e llama_ubatch \<Rightarrow> nat \<Rightarrow> nat option" where
  "ubatch_set ub q = find (\<lambda>s. q \<in> set (seqs_of ub s)) [0..<ub_n_seqs ub]"

lemma ubatch_set_iff:
  assumes "rs_ubatch n ub"
  shows "ubatch_set ub q = None \<longleftrightarrow> \<not> in_ubatch ub q" "ubatch_set ub q = Some s \<longleftrightarrow> s < ub_n_seqs ub \<and> q \<in> set (seqs_of ub s)"
proof -
  show none: "ubatch_set ub q = None \<longleftrightarrow> \<not> in_ubatch ub q"
    by (auto simp: ubatch_set_def in_ubatch_def find_None_iff)
  show "ubatch_set ub q = Some s \<longleftrightarrow> s < ub_n_seqs ub \<and> q \<in> set (seqs_of ub s)"
  proof
    assume "ubatch_set ub q = Some s"
    then show "s < ub_n_seqs ub \<and> q \<in> set (seqs_of ub s)"
      by (auto simp: ubatch_set_def dest: find_mem)
  next
    assume s: "s < ub_n_seqs ub \<and> q \<in> set (seqs_of ub s)"
    then obtain s' where s': "ubatch_set ub q = Some s'"
      using none by (cases "ubatch_set ub q") (auto simp: in_ubatch_def)
    then show "ubatch_set ub q = Some s"
      using seqs_disjoint [OF assms, of s' s q] s by (auto simp: ubatch_set_def dest: find_mem)
  qed
qed

lemma write_rows_ok:
  assumes "k + length xs \<le> length ss"
  shows "\<exists>ss'. write_rows_at ss k xs = Some ss' \<and> length ss' = length ss \<and>
    (\<forall>j < length ss. ss' ! j = (if k \<le> j \<and> j < k + length xs then xs ! (j - k) else ss ! j))"
  using assms by (auto simp: write_rows_at_def nth_append)

lemma slot_states:
  assumes r: "slot_run ub m h m1 a b P m2 m3 m'" and c: "coherent zero ss m" and len: "length ss'' = rs_size m" "length xs = ub_n_seqs ub"
    and ext: "\<And>j. a + ub_n_seqs ub \<le> j \<Longrightarrow> j \<le> b \<Longrightarrow> ss'' ! j = row_val zero ss m2 j" and rest: "\<And>j. j < rs_size m \<Longrightarrow> j < a \<or> b < j \<Longrightarrow> ss'' ! j = ss ! j"
    and new: "\<And>s. s < ub_n_seqs ub \<Longrightarrow> ss'' ! (a + s) = xs ! s"
  shows "coherent zero ss'' m'" "q < rs_size m \<Longrightarrow> state_of zero ss'' m' q = (case ubatch_set ub q of None \<Rightarrow> state_of zero ss m q | Some s \<Rightarrow> xs ! s)"
proof -
  note D = slot_runD [OF r] and C = slot_cells [OF r]
  let ?n = "ub_n_seqs ub"
  show "coherent zero ss'' m'"
    unfolding coherent_def D(7)
  proof (intro conjI allI impI)
    fix j assume j: "j < rs_size m" "sq m' j = {} \<and> sr m' j = int j"
    have out: "j < a \<or> a + ?n \<le> j"
    proof (rule ccontr)
      assume "\<not> ?thesis"
      then have "j - a < ?n" "a + (j - a) = j"
        by auto
      then show False
        using C(1) [of "j - a"] rs_ubatchD(3) [OF D(2), of "j - a"] j(2) by simp
    qed
    then have e: "sq m2 j = {}"
      using C(2) [OF j(1) out] j(2) by simp
    show "ss'' ! j = zero"
    proof (cases "a \<le> j \<and> j \<le> b")
      case True
      then show ?thesis
        using ext [of j] out slot_empty_val [OF r c j(1) e] by simp
    next
      case False
      then have "sr m2 j = int j"
        using C(4) [OF j(1)] j(2) by auto
      then show ?thesis
        using slot_empty_val [OF r c j(1) e] rest [OF j(1)] False by (auto simp: row_val_def)
    qed
  qed (use len in simp)
  show "state_of zero ss'' m' q = (case ubatch_set ub q of None \<Rightarrow> state_of zero ss m q | Some s \<Rightarrow> xs ! s)" if q: "q < rs_size m"
  proof (cases "ubatch_set ub q")
    case (Some s)
    then have s: "s < ?n" "q \<in> set (seqs_of ub s)"
      using ubatch_set_iff [OF D(2)] by auto
    then have "tl_of m' q = int (a + s)"
      using C(1) by simp
    then show ?thesis
      using new [OF s(1)] Some by (simp add: state_of_def flip: of_nat_add)
  next
    case None
    then have nq: "\<not> in_ubatch ub q"
      using ubatch_set_iff [OF D(2)] by auto
    note O = slot_other [OF r q nq]
    show ?thesis
    proof (cases "tl_of m2 q = - 1")
      case True
      then have "tl_of m q = - 1"
        using O(2) by (simp add: view_def split: if_splits)
      then show ?thesis
        using None True C(3) [OF q nq] by (simp add: state_of_def)
    next
      case False
      then obtain t where t: "t < rs_size m" "tl_of m2 q = int t" "q \<in> sq m2 t" "t < a \<or> a + ?n \<le> t"
        using O(4) by auto
      note V = view_state [OF D(1) q O(2) t(2)]
      have "ss'' ! t = row_val zero ss m2 t"
      proof (cases "a \<le> t \<and> t \<le> b")
        case True
        then show ?thesis
          using ext [of t] t(4) by auto
      next
        case False
        then have "sr m2 t = int t"
          using slot_home [OF r t(1)] t(3) by (metis empty_iff linorder_not_le)
        then show ?thesis
          using rest [OF t(1)] False by (auto simp: row_val_def)
      qed
      then show ?thesis
        using None V(1) [of zero ss] C(3) [OF q nq] t(2) by (simp add: state_of_def)
    qed
  qed
qed

lemma rs_step_lemma:
  assumes inv: "rs_inv m" and c: "coherent zero ss m" and i: "i < length ubs" and u: "rs_ubatch (rs_size m) (ubs ! i)"
    and xs: "length xs = ub_n_seqs (ubs ! i)"
  shows "\<exists>m' ss' ss''. rs_ctx_apply ((rs_ctx_batch ubs)\<lparr>rc_i_next := i\<rparr>) m = Some m' \<and>
    build_rs zero (ub_n_seqs (ubs ! i)) ((rs_ctx_batch ubs)\<lparr>rc_i_next := i\<rparr>) m' ss =
      Some (map (\<lambda>s. state_of zero ss m (lead (ubs ! i) s)) [0..<ub_n_seqs (ubs ! i)], ss') \<and>
    write_rows_at ss' (rs_head m') xs = Some ss'' \<and> rs_inv m' \<and> coherent zero ss'' m' \<and> rs_size m' = rs_size m \<and>
    (\<forall>q < rs_size m. state_of zero ss'' m' q = (case ubatch_set (ubs ! i) q of None \<Rightarrow> state_of zero ss m q | Some s \<Rightarrow> xs ! s))"
proof -
  let ?ub = "ubs ! i" and ?ctx = "(rs_ctx_batch ubs)\<lparr>rc_i_next := i\<rparr>"
  obtain h m1 a b P m2 m3 m' where run: "rs_find_slot ?ub m = Some (True, m')" "slot_run ?ub m h m1 a b P m2 m3 m'"
    using find_slot_found [OF inv u] inv u by (auto simp: slot_run_def)
  note D = slot_runD [OF run(2)]
  have head: "rs_head m' = a"
    using run(2) by (simp add: slot_run_def staged_def)
  have len: "length ss = rs_size m"
    using c by (simp add: coherent_def)
  have "\<not> rc_is_full ?ctx"
    by (simp add: rs_ctx_batch_def)
  then obtain ss' where ss': "build_rs zero (ub_n_seqs ?ub) ?ctx m' ss = Some (map (\<lambda>s. row_val zero ss m2 (a + s)) [0..<ub_n_seqs ?ub], ss')"
    "length ss' = rs_size m" "\<And>j. a + ub_n_seqs ?ub \<le> j \<Longrightarrow> j \<le> b \<Longrightarrow> ss' ! j = row_val zero ss m2 j" "\<And>j. j < rs_size m \<Longrightarrow> j < a \<or> b < j \<Longrightarrow> ss' ! j = ss ! j"
    using slot_build [OF run(2) len, of ?ctx zero] by auto
  obtain ss'' where ss'': "write_rows_at ss' a xs = Some ss''" "length ss'' = rs_size m"
    "\<And>j. j < rs_size m \<Longrightarrow> ss'' ! j = (if a \<le> j \<and> j < a + length xs then xs ! (j - a) else ss' ! j)"
    using write_rows_ok [of a xs ss'] ss'(2) xs D(15,16) by auto
  have "map (\<lambda>s. row_val zero ss m2 (a + s)) [0..<ub_n_seqs ?ub] = map (\<lambda>s. state_of zero ss m (lead ?ub s)) [0..<ub_n_seqs ?ub]"
    using slot_lead_val [OF run(2) c] by simp
  moreover have "rs_ctx_apply ?ctx m = Some m'"
    using i run(1) by (auto simp: rs_ctx_apply_def rs_ctx_batch_def llama_memory_status_is_fail_def)
  moreover have "coherent zero ss'' m' \<and> (\<forall>q < rs_size m. state_of zero ss'' m' q = (case ubatch_set ?ub q of None \<Rightarrow> state_of zero ss m q | Some s \<Rightarrow> xs ! s))"
  proof -
    have "ss'' ! j = row_val zero ss m2 j" if "a + ub_n_seqs ?ub \<le> j" "j \<le> b" for j
      using that ss'(3) ss''(3) [of j] xs D(16) by simp
    moreover have "ss'' ! j = ss ! j" if "j < rs_size m" "j < a \<or> b < j" for j
      using that ss'(4) ss''(3) [of j] xs D(15) by auto
    moreover have "ss'' ! (a + s) = xs ! s" if "s < ub_n_seqs ?ub" for s
      using that ss''(3) [of "a + s"] xs D(15,16) by simp
    ultimately show ?thesis
      using slot_states [OF run(2) c ss''(2) xs] by blast
  qed
  ultimately show ?thesis
    using ss'(1) ss''(1) head slot_inv [OF run(2)] D(7) by auto
qed

lemma fold_max_none: "\<forall>c \<in> set cs. \<not> Q c \<Longrightarrow> fold (\<lambda>c r. if Q c then max r (f c) else r) cs r = r"
  by (induction cs arbitrary: r) simp_all

lemma rs_pos_max_view:
  assumes inv: "rs_inv m" and q: "q < rs_size m"
  shows "rs_seq_pos_max (int q) m = (case view m q of None \<Rightarrow> - 1 | Some (p, _) \<Rightarrow> p)"
proof (cases "tl_of m q = - 1")
  case True
  then have "\<forall>c \<in> set (rs_cells m). \<not> has_seq_id (int q) c"
    using tails_mem [OF rs_invD(3) [OF inv]] rs_invD(1) [OF inv] by (fastforce simp: in_set_conv_nth)
  then show ?thesis
    using True by (simp add: rs_seq_pos_max_def fold_max_none view_def)
next
  case False
  note I = rs_invD [OF inv]
  obtain t where t: "t < rs_size m" "tl_of m q = int t" "q \<in> sq m t"
    using tailsD [OF I(3) q] False by auto
  have other: "\<not> has_seq_id (int q) (rs_cells m ! j)" if "j < rs_size m" "j \<noteq> t" for j
    using tails_unique [OF I(3) that(1) t(1) _ t(3)] that(2) by auto
  have split: "rs_cells m = take t (rs_cells m) @ rs_cells m ! t # drop (Suc t) (rs_cells m)"
    using t(1) I(1) by (simp add: id_take_nth_drop)
  have "\<forall>c \<in> set (take t (rs_cells m)). \<not> has_seq_id (int q) c" "\<forall>c \<in> set (drop (Suc t) (rs_cells m)). \<not> has_seq_id (int q) c"
    using other t(1) I(1) by (auto simp: in_set_conv_nth)
  moreover have "0 \<le> ps m t"
    using I(5) [OF t(1)] t(3) by (auto simp: cell_ok_def split: if_splits)
  ultimately show ?thesis
    unfolding rs_seq_pos_max_def by (subst split) (simp add: fold_max_none t view_def)
qed

lemma slot_positions:
  assumes run: "slot_run ub m h m1 a b P m2 m3 m'" and q: "q < rs_size m"
  shows "rs_seq_pos_max (int q) m' = (case ubatch_set ub q of None \<Rightarrow> rs_seq_pos_max (int q) m | Some s \<Rightarrow> last_pos_of ub s)"
proof -
  note D = slot_runD [OF run] and C = slot_cells [OF run] and inv = slot_inv [OF run]
  show ?thesis
  proof (cases "ubatch_set ub q")
    case (Some s)
    then have "s < ub_n_seqs ub" "q \<in> set (seqs_of ub s)"
      using ubatch_set_iff [OF D(2)] by auto
    then have "view m' q = Some (last_pos_of ub s, sr m' (a + s))"
      using C(1) [of s] by (simp add: view_def flip: of_nat_add)
    then show ?thesis
      using Some rs_pos_max_view [OF inv, of q] q D(7) by simp
  next
    case None
    then have nq: "\<not> in_ubatch ub q"
      using ubatch_set_iff [OF D(2)] by auto
    note O = slot_other [OF run q nq]
    have "map_option fst (view m' q) = map_option fst (view m2 q)"
      using O(4) C(2) C(3) [OF q nq] by (auto simp: view_def)
    then have "(case view m' q of None \<Rightarrow> - 1 | Some (p, _) \<Rightarrow> p) = (case view m q of None \<Rightarrow> - 1 | Some (p, _) \<Rightarrow> p)"
      unfolding O(2) by (cases "view m' q"; cases "view m q") auto
    then show ?thesis
      using None rs_pos_max_view [OF inv, of q] rs_pos_max_view [OF D(1) q] q D(7) by simp
  qed
qed

text \<open>C17. Finding a slot of the recurrent memory: for a memory in a state allowed by its invariant and a ubatch with disjoint sets of sequences below the
  size of the memory there always is a slot; it is contiguous and inside the memory, its first cells hold exactly the sets of the ubatch in
  their order, every sequence of the ubatch ends at the last position of its tokens, every other sequence keeps its last position, and the
  invariant holds again (no assertion of the search fails on the way).\<close>

theorem recurrent_slot_found:
  assumes "rs_inv m" "rs_ubatch (rs_size m) ub"
  shows "\<exists>m'. rs_find_slot ub m = Some (True, m') \<and> rs_inv m' \<and> rs_size m' = rs_size m \<and> ub_n_seqs ub \<le> rs_n m' \<and> rs_head m' + rs_n m' \<le> rs_size m' \<and>
    (\<forall>s < ub_n_seqs ub. mc_seq (rs_cells m' ! (rs_head m' + s)) = set (seqs_of ub s)) \<and>
    (\<forall>q < rs_size m. rs_seq_pos_max (int q) m' = (case ubatch_set ub q of None \<Rightarrow> rs_seq_pos_max (int q) m | Some s \<Rightarrow> last_pos_of ub s))"
proof -
  obtain h m1 a b P m2 m3 m' where run: "rs_find_slot ub m = Some (True, m')" "slot_run ub m h m1 a b P m2 m3 m'"
    using find_slot_found [OF assms] assms by (auto simp: slot_run_def)
  note D = slot_runD [OF run(2)] and C = slot_cells [OF run(2)] and inv = slot_inv [OF run(2)]
  have "rs_head m' = a" "rs_n m' = b + 1 - a"
    using run(2) by (simp_all add: slot_run_def staged_def)
  then show ?thesis
    using run(1) inv C(1) D(7,15,16) slot_positions [OF run(2)] by auto
qed

definition rs_ub :: "int list list \<Rightarrow> int list \<Rightarrow> unit llama_ubatch" where
  "rs_ub qss xs = ubatch_none\<lparr>ub_equal_seqs := True, ub_n_tokens := length qss, ub_n_seq_tokens := 1, ub_n_seqs := length qss, ub_n_pos := 1,
     ub_pos := xs, ub_n_seq_id := map length qss, ub_seq_id := qss\<rparr>"

theorem recurrent_slot_found_witness:
  "\<exists>m'. rs_find_slot (rs_ub [[2], [0, 1]] [4, 7]) (rs_new 3) = Some (True, m') \<and> rs_seq_pos_max 1 m' = 7 \<and> rs_seq_pos_max 2 m' = 4"
proof -
  have "rs_inv (rs_new 3)"
    by (rule rs_new_inv) simp_all
  moreover have "rs_ubatch (rs_size (rs_new 3)) (rs_ub [[2], [0, 1]] [4, 7])"
    by code_simp
  ultimately obtain m' where m': "rs_find_slot (rs_ub [[2], [0, 1]] [4, 7]) (rs_new 3) = Some (True, m')"
    "\<And>q. q < 3 \<Longrightarrow> rs_seq_pos_max (int q) m' = (case ubatch_set (rs_ub [[2], [0, 1]] [4, 7]) q of None \<Rightarrow> rs_seq_pos_max (int q) (rs_new 3)
       | Some s \<Rightarrow> last_pos_of (rs_ub [[2], [0, 1]] [4, 7]) s)"
    using recurrent_slot_found [of "rs_new 3" "rs_ub [[2], [0, 1]] [4, 7]"] by (auto simp: rs_new_def)
  moreover have "ubatch_set (rs_ub [[2], [0, 1]] [4, 7]) 1 = Some 1" "ubatch_set (rs_ub [[2], [0, 1]] [4, 7]) 2 = Some 0"
    "last_pos_of (rs_ub [[2], [0, 1]] [4, 7]) 1 = 7" "last_pos_of (rs_ub [[2], [0, 1]] [4, 7]) 0 = 4"
    by code_simp+
  ultimately show ?thesis
    using m'(2) [of 1] m'(2) [of 2] by simp
qed

text \<open>A memory in which the sequences 0 and 1 share a cell.\<close>

definition rs_demo :: memory_recurrent where
  "rs_demo = \<lparr>rs_head = 0, rs_size = 2, rs_used = 1, rs_n = 1, rs_z = 0,
     rs_cells = [\<lparr>mc_pos = 0, mc_src = 0, mc_src0 = 0, mc_tail = 0, mc_seq = {0, 1}\<rparr>, \<lparr>mc_pos = - 1, mc_src = - 1, mc_src0 = - 1, mc_tail = 0, mc_seq = {}\<rparr>]\<rparr>"

lemma rs_demo_inv: "rs_inv rs_demo"
proof -
  have "occupied rs_demo = {0}"
    by (auto simp: occupied_def rs_demo_def less_2_cases_iff)
  then show ?thesis
    by (auto simp: rs_inv_def tails_ok_def cell_ok_def rs_demo_def less_2_cases_iff)
qed

text \<open>The specification of the sequence operations on the states: a sequence is removed as a whole or not at all.\<close>

definition spec_op :: "'s \<Rightarrow> mem_op \<Rightarrow> memory_recurrent \<Rightarrow> (nat \<Rightarrow> 's) \<Rightarrow> nat \<Rightarrow> 's" where
  "spec_op zero op m \<sigma> q = (case op of
       Op_Clear data \<Rightarrow> zero
     | Op_Seq_Rm r p0 p1 \<Rightarrow> if int q = r \<and> pos_lo p0 = 0 \<and> rs_seq_pos_max r m < pos_hi p1 then zero else \<sigma> q
     | Op_Seq_Cp a b p0 p1 \<Rightarrow> if int q = b \<and> 0 \<le> a \<and> a < int (rs_size m) then \<sigma> (nat a) else \<sigma> q
     | Op_Seq_Keep r \<Rightarrow> if int q = r then \<sigma> q else zero
     | Op_Seq_Add r p0 p1 shift \<Rightarrow> \<sigma> q
     | Op_Seq_Div r p0 p1 d \<Rightarrow> \<sigma> q)"

text \<open>C37. The sequence operations of the recurrent memory: each operation that keeps positions in their range (and divides by a positive number, and is not
  the removal of all sequences at once) returns, keeps the invariant and, on the states of the sequences, is the obvious operation: copying makes
  the target sequence have the state of the source, removing a range from the start that reaches the last position gives the sequence the zeroed
  state and any other range leaves the states alone, keeping a sequence zeroes all others, and shifting or dividing positions changes
  no state. No state row is touched for this.\<close>

theorem recurrent_ops_states:
  assumes "rs_inv m" "coherent zero ss m" "rs_allowed op m"
  shows "\<exists>m'. rs_exec op m = Some m' \<and> rs_inv m' \<and> coherent zero ss m' \<and> (\<forall>q < rs_size m. state_of zero ss m' q = spec_op zero op m (state_of zero ss m) q)"
proof -
  obtain m' where m': "rs_exec op m = Some m'" "moved (op_tail op m) m m'"
    using rs_exec_moved [OF assms(1,3)] by blast
  have "coherent zero ss m'"
    using m'(2) assms(2) by (auto simp: moved_def coherent_def)
  moreover have "state_of zero ss m' q = spec_op zero op m (state_of zero ss m) q" if q: "q < rs_size m" for q
  proof -
    have st: "state_of zero ss m' q = (if op_tail op m q = - 1 then zero else ss ! nat (op_tail op m q))"
      using m'(2) q by (simp add: moved_def state_of_def)
    show ?thesis
    proof (cases op)
      case (Op_Seq_Rm r p0 p1)
      have "rs_seq_pos_max (int q) m = (if tl_of m q = - 1 then - 1 else ps m (nat (tl_of m q)))"
        using rs_pos_max_view [OF assms(1) q] by (simp add: view_def)
      then show ?thesis
        unfolding st using Op_Seq_Rm by (auto simp: op_tail_def rm_tail_def spec_op_def state_of_def)
    qed (use st in \<open>simp_all add: op_tail_def spec_op_def state_of_def\<close>)
  qed
  ultimately show ?thesis
    using m' by (auto simp: moved_def)
qed

theorem recurrent_ops_states_witness:
  "\<exists>m'. rs_exec (Op_Seq_Rm 1 0 (- 1)) rs_demo = Some m' \<and> rs_inv m' \<and> state_of 0 [5, 7] m' 0 = (5 :: int) \<and> state_of 0 [5, 7] m' 1 = (0 :: int)"
proof -
  have "coherent (0 :: int) [5, 7] rs_demo" "rs_size rs_demo = 2"
    by (auto simp: coherent_def rs_demo_def less_2_cases_iff)
  moreover have "rs_allowed (Op_Seq_Rm 1 0 (- 1)) rs_demo"
    by code_simp
  moreover have "spec_op 0 (Op_Seq_Rm 1 0 (- 1)) rs_demo (state_of 0 [5, 7] rs_demo) 0 = (5 :: int)"
    "spec_op 0 (Op_Seq_Rm 1 0 (- 1)) rs_demo (state_of 0 [5, 7] rs_demo) 1 = (0 :: int)"
    by code_simp+
  moreover have "0 < (2 :: nat)" "1 < (2 :: nat)"
    by simp_all
  ultimately show ?thesis
    using recurrent_ops_states [OF rs_demo_inv, of 0 "[5, 7 :: int]" "Op_Seq_Rm 1 0 (- 1)"] by metis
qed


end
