(* ===== verification/Recurrent_Batch.thy ===== *)
theory Recurrent_Batch
  imports Recurrent_Find
begin

text \<open>
  Batches on the recurrent memory: the ubatches that the batch allocator cuts from a batch are ubatches the slot search
  accepts, so that \<open>init_batch\<close> succeeds and leaves the memory as it was; and processing the ubatches of the context one
  after the other refines a map from sequences to states.
\<close>

section \<open>Ubatches cut from a batch\<close>

definition rs_batch :: "nat \<Rightarrow> 'e llama_batch \<Rightarrow> bool" where
  "rs_batch n b \<longleftrightarrow> list_all (\<lambda>p. 0 \<le> p) (the (b_pos b)) \<and>
     list_all (\<lambda>i. let k = the (b_n_seq_id b) ! i; qs = the (b_seq_id b) ! i in
       0 < k \<and> k \<le> length qs \<and> distinct (take k qs) \<and> list_all (\<lambda>q. 0 \<le> q \<and> q < int n) (take k qs)) [0..<b_n_tokens b]"

lemma distinct_concat_uptI:
  assumes "\<And>s. s < n \<Longrightarrow> distinct (f s)" "\<And>s t. t < s \<Longrightarrow> s < n \<Longrightarrow> set (f t) \<inter> set (f s) = {}"
  shows "distinct (concat (map f [0..<n]))"
  using assms
proof (induction n)
  case (Suc n)
  have "set (f n) \<inter> (\<Union>s \<in> {0..<n}. set (f s)) = {}"
    using Suc.prems(2) [of _ n] by fastforce
  then show ?case
    using Suc by auto
qed simp

lemma concat_nth_uniform:
  assumes "\<forall>r \<in> set rows. length r = k" "s < length rows" "j < k"
  shows "concat rows ! (s * k + j) = rows ! s ! j"
  using assms
proof (induction rows arbitrary: s)
  case (Cons r rows)
  show ?case
  proof (cases s)
    case 0
    then show ?thesis
      using Cons.prems by (simp add: nth_append)
  next
    case (Suc s')
    then show ?thesis
      using Cons.IH [of s'] Cons.prems by (simp add: nth_append add.assoc)
  qed
qed simp

lemma token_ids: "k \<le> length qs \<Longrightarrow> map (\<lambda>s. nat (qs ! s)) [0..<k] = map nat (take k qs)"
  by (rule nth_equalityI) simp_all

lemma carries_rs_ubatch:
  assumes c: "ub_carries n_pos b idxs ub" and b: "rs_batch n b" and idx: "\<And>i. i \<in> set idxs \<Longrightarrow> i < b_n_tokens b" "idxs \<noteq> []"
    and pos: "\<And>i j. i < b_n_tokens b \<Longrightarrow> j < n_pos \<Longrightarrow> src_off b j + i < length (the (b_pos b))" "0 < n_pos" and eq: "ub_equal_seqs ub"
    and disj: "\<And>s t. t < s \<Longrightarrow> s < ub_n_seqs ub \<Longrightarrow> token_seq_set b (idxs ! (t * ub_n_seq_tokens ub)) \<inter> token_seq_set b (idxs ! (s * ub_n_seq_tokens ub)) = {}"
  shows "rs_ubatch n ub"
proof -
  have tok: "0 < ub_n_seq_tokens ub" "0 < ub_n_seqs ub" "length idxs = ub_n_seqs ub * ub_n_seq_tokens ub"
  proof -
    have len: "length idxs = ub_n_seqs ub * ub_n_seq_tokens ub"
      using c by (simp add: ub_carries_def mult.commute)
    then have "0 < ub_n_seqs ub * ub_n_seq_tokens ub"
      using idx(2) by (metis length_greater_0_conv)
    then show "0 < ub_n_seq_tokens ub" "0 < ub_n_seqs ub" "length idxs = ub_n_seqs ub * ub_n_seq_tokens ub"
      using len by simp_all
  qed
  have B: "0 < the (b_n_seq_id b) ! i" "the (b_n_seq_id b) ! i \<le> length (the (b_seq_id b) ! i)"
    "distinct (take (the (b_n_seq_id b) ! i) (the (b_seq_id b) ! i))"
    "list_all (\<lambda>q. 0 \<le> q \<and> q < int n) (take (the (b_n_seq_id b) ! i) (the (b_seq_id b) ! i))" if "i \<in> set idxs" for i
    using b idx(1) [OF that] by (auto simp: rs_batch_def list_all_iff Let_def)
  have seqs: "seqs_of ub s = map nat (take (the (b_n_seq_id b) ! (idxs ! (s * ub_n_seq_tokens ub))) (the (b_seq_id b) ! (idxs ! (s * ub_n_seq_tokens ub))))"
    "idxs ! (s * ub_n_seq_tokens ub) \<in> set idxs" if "s < ub_n_seqs ub" for s
    using c seq_index(1) [OF that tok(1)] tok(3) by (auto simp: seqs_of_def ub_carries_def)
  have "distinct (concat (map (seqs_of ub) [0..<ub_n_seqs ub]))"
  proof (rule distinct_concat_uptI)
    fix s assume s: "s < ub_n_seqs ub"
    show "distinct (seqs_of ub s)"
      using B(3,4) [OF seqs(2) [OF s]] unfolding seqs(1) [OF s] by (auto simp: distinct_map list_all_iff inj_on_def eq_nat_nat_iff)
  next
    fix s t assume st: "t < s" "s < ub_n_seqs ub"
    then have t: "t < ub_n_seqs ub"
      by simp
    show "set (seqs_of ub t) \<inter> set (seqs_of ub s) = {}"
      using disj [OF st]
      unfolding seqs(1) [OF st(2)] seqs(1) [OF t] token_seq_set_def token_ids [OF B(2) [OF seqs(2) [OF st(2)]]] token_ids [OF B(2) [OF seqs(2) [OF t]]] .
  qed
  moreover have "length (ub_pos ub) = n_pos * length idxs"
    using c by (simp add: ub_carries_def length_concat o_def sum_list_triv)
  moreover have "1 * length idxs \<le> n_pos * length idxs"
    using pos(2) by (intro mult_le_mono1) simp
  moreover have "list_all (\<lambda>p. 0 \<le> p) (ub_pos ub)"
    using c b pos(1) idx(1) by (auto simp: ub_carries_def list_all_iff rs_batch_def)
  moreover have "ub_n_seq_id ub = map length (ub_seq_id ub)" "length (ub_seq_id ub) = length idxs"
    using c B(2) by (simp_all add: ub_carries_def)
  moreover have "list_all (\<lambda>qs. qs \<noteq> [] \<and> list_all (\<lambda>q. 0 \<le> q \<and> q < int n) qs) (ub_seq_id ub)"
  proof -
    have "ub_seq_id ub = map (\<lambda>i. take (the (b_n_seq_id b) ! i) (the (b_seq_id b) ! i)) idxs"
      using c by (simp add: ub_carries_def)
    moreover have "take (the (b_n_seq_id b) ! i) (the (b_seq_id b) ! i) \<noteq> []" if "i \<in> set idxs" for i
      using B(1,2) [OF that] by auto
    ultimately show ?thesis
      using B(4) by (simp add: list_all_iff)
  qed
  ultimately show ?thesis
    using tok eq unfolding rs_ubatch_def by (simp add: list_all_iff)
qed

lemma equal_shape_rs_ubatch:
  assumes "equal_shape k a idxs ub" "ub_carries n_pos (ba_batch a) idxs ub" "rs_batch n (ba_batch a)" "idxs \<noteq> []" "0 < n_pos"
    "\<And>i. i \<in> set idxs \<Longrightarrow> i < b_n_tokens (ba_batch a)"
    "\<And>i j. i < b_n_tokens (ba_batch a) \<Longrightarrow> j < n_pos \<Longrightarrow> src_off (ba_batch a) j + i < length (the (b_pos (ba_batch a)))"
  shows "rs_ubatch n ub"
proof (rule carries_rs_ubatch [OF assms(2,3)])
  obtain rows sets where r: "idxs = concat rows" "length rows = ub_n_seqs ub" "ub_equal_seqs ub"
    "\<And>s. s < ub_n_seqs ub \<Longrightarrow> length (rows ! s) = ub_n_seq_tokens ub \<and> (\<forall>i \<in> set (rows ! s). token_seq_set (ba_batch a) i = sets ! s)"
    "\<And>s t. s < ub_n_seqs ub \<Longrightarrow> t < s \<Longrightarrow> sets ! t \<inter> sets ! s = {}"
    using assms(1) unfolding equal_shape_def by (elim conjE exE) (rule that, assumption+, blast, blast)
  have pos: "0 < ub_n_seq_tokens ub"
  proof (rule ccontr)
    assume "\<not> 0 < ub_n_seq_tokens ub"
    then show False
      using assms(2,4) by (auto simp: ub_carries_def)
  qed
  have uniform: "\<forall>r \<in> set rows. length r = ub_n_seq_tokens ub"
    using r(2,4) by (auto simp: in_set_conv_nth)
  have "token_seq_set (ba_batch a) (idxs ! (s * ub_n_seq_tokens ub)) = sets ! s" if "s < ub_n_seqs ub" for s
  proof -
    have "idxs ! (s * ub_n_seq_tokens ub) = rows ! s ! 0"
      using concat_nth_uniform [OF uniform, of s 0] that r(1,2) pos by simp
    then show ?thesis
      using r(4) [OF that] pos by (metis nth_mem)
  qed
  then show "token_seq_set (ba_batch a) (idxs ! (t * ub_n_seq_tokens ub)) \<inter> token_seq_set (ba_batch a) (idxs ! (s * ub_n_seq_tokens ub)) = {}"
    if "t < s" "s < ub_n_seqs ub" for s t
    using r(5) [OF that(2,1)] that by simp
  show "ub_equal_seqs ub"
    by fact
qed (use assms in auto)

lemma seq_shape_rs_ubatch:
  assumes "seq_shape k a idxs ub" "ub_carries n_pos (ba_batch a) idxs ub" "rs_batch n (ba_batch a)" "idxs \<noteq> []" "0 < n_pos"
    "\<And>i. i \<in> set idxs \<Longrightarrow> i < b_n_tokens (ba_batch a)"
    "\<And>i j. i < b_n_tokens (ba_batch a) \<Longrightarrow> j < n_pos \<Longrightarrow> src_off (ba_batch a) j + i < length (the (b_pos (ba_batch a)))"
  shows "rs_ubatch n ub"
  using assms by (intro carries_rs_ubatch [OF assms(2,3)]) (auto simp: seq_shape_def)

section \<open>Preparing a batch\<close>

lemma find_slots_ok:
  assumes "rs_inv m" "list_all (rs_ubatch (rs_size m)) ubs"
  shows "\<exists>m'. find_slots ubs m = Some (True, m') \<and> rs_inv m' \<and> rs_size m' = rs_size m"
  using assms
proof (induction ubs arbitrary: m)
  case (Cons ub ubs)
  obtain h m1 a b P m2 m3 m' where run: "rs_find_slot ub m = Some (True, m')" "slot_run ub m h m1 a b P m2 m3 m'"
    using find_slot_found [OF Cons.prems(1), of ub] Cons.prems by (auto simp: slot_run_def)
  then show ?case
    using Cons.IH [OF slot_inv [OF run(2)]] slot_runD(7) [OF run(2)] Cons.prems by auto
qed simp

lemma rs_prepare_ok:
  assumes "rs_inv m" "list_all (rs_ubatch (rs_size m)) ubs"
  shows "\<exists>m'. rs_prepare ubs m = Some (True, m') \<and> rs_cells m' = rs_cells m \<and> rs_used m' = rs_used m \<and> rs_head m' = rs_head m \<and> rs_size m' = rs_size m"
  using find_slots_ok [OF assms] by (auto simp: rs_prepare_def)

lemma chain_all:
  assumes "list_all2 S idxss ubs" "list_all2 C idxss ubs" "\<And>idxs ub. idxs \<in> set idxss \<Longrightarrow> S idxs ub \<Longrightarrow> C idxs ub \<Longrightarrow> Q ub"
  shows "list_all Q ubs"
  using assms by (induction idxss ubs rule: list_all2_induct) auto

text \<open>What the splits of \<open>init_batch\<close> give.\<close>

lemma rs_split_ok:
  assumes ok: "allocr_ok a" and ready: "embd_all \<or> seq_ready True a" and fresh: "ba_n_used a = 0" and b: "rs_batch n (ba_batch a)" and pos: "0 < ba_n_pos a"
  shows "\<exists>ubs a' idxss. split_loop (if embd_all then split_seq n_ubatch else split_equal n_ubatch True) a = Some (ubs, a') \<and> ba_n_used a' = get_n_tokens a' \<and>
    list_all (rs_ubatch n) ubs \<and> mset (concat idxss) = mset [0..<get_n_tokens a] \<and> list_all2 (ub_carries (ba_n_pos a) (ba_batch a)) idxss ubs"
proof -
  have inr: "i < b_n_tokens (ba_batch a)" if "mset (concat idxss) = mset [0..<get_n_tokens a]" "idxs \<in> set idxss" "i \<in> set idxs" for idxss idxs i
  proof -
    have "i \<in> set (concat idxss)"
      using that(2,3) by auto
    then have "i \<in> set [0..<get_n_tokens a]"
      using that(1) by (metis set_mset_mset)
    then show ?thesis
      by (simp add: get_n_tokens_def)
  qed
  have posr: "src_off (ba_batch a) j + i < length (the (b_pos (ba_batch a)))" if "i < b_n_tokens (ba_batch a)" "j < ba_n_pos a" for i j
    using ok that by (simp add: allocr_ok_def get_n_tokens_def)
  show ?thesis
  proof (cases embd_all)
    case True
    obtain ubs a' idxss where r: "split_loop (split_seq n_ubatch) a = Some (ubs, a')" "split_chain (seq_shape n_ubatch) a idxss ubs a'"
      "mset (concat idxss) = mset [0..<get_n_tokens a]" "[] \<notin> set idxss" "list_all2 (ub_carries (ba_n_pos a) (ba_batch a)) idxss ubs"
      using seq.split_loop_partitions [OF ok _ fresh, of n_ubatch] by blast
    have "list_all2 (seq_shape n_ubatch a) idxss ubs"
      using r(2) by (rule split_chain_shape) (rule seq_shape_took)
    then have "list_all (rs_ubatch n) ubs"
      using r(5) by (rule chain_all) (use seq_shape_rs_ubatch [OF _ _ b] r(3,4) pos inr posr in blast)
    moreover have "ba_n_used a' = get_n_tokens a'"
      using split_chain_n_used [OF r(2)] split_chain_took [OF r(2) ok] r(3) fresh took_ok(2) [OF ok]
      by (metis add_0 length_upt minus_nat.diff_0 size_mset)
    ultimately show ?thesis
      using True r by auto
  next
    case False
    obtain ubs a' idxss where r: "split_loop (split_equal n_ubatch True) a = Some (ubs, a')" "split_chain (equal_shape n_ubatch) a idxss ubs a'"
      "mset (concat idxss) = mset [0..<get_n_tokens a]" "[] \<notin> set idxss" "list_all2 (ub_carries (ba_n_pos a) (ba_batch a)) idxss ubs"
      using equal.split_loop_partitions [OF ok _ fresh, of True n_ubatch] ready False by blast
    have "list_all2 (equal_shape n_ubatch a) idxss ubs"
      using r(2) by (rule split_chain_shape) (rule equal_shape_took)
    then have "list_all (rs_ubatch n) ubs"
      using r(5) by (rule chain_all) (use equal_shape_rs_ubatch [OF _ _ b] r(3,4) pos inr posr in blast)
    moreover have "ba_n_used a' = get_n_tokens a'"
      using split_chain_n_used [OF r(2)] split_chain_took [OF r(2) ok] r(3) fresh took_ok(2) [OF ok]
      by (metis add_0 length_upt minus_nat.diff_0 size_mset)
    ultimately show ?thesis
      using False r by auto
  qed
qed

lemma split_reset_idem: "split_reset (split_reset a) = split_reset a"
  by (simp add: split_reset_def get_n_tokens_def)

lemma rs_init_batch_ok:
  assumes init: "allocr_init inp n_vocab mem n_seq_max output_all a0 = Some (True, a)" and pos: "b_pos inp \<noteq> None \<or> b_token inp \<noteq> None \<or> ba_n_pos a0 \<le> 1"
    and np: "0 < ba_n_pos a0" and b: "rs_batch (rs_size m) (init_batch_of mem output_all inp)"
    and one: "embd_all \<or> (\<forall>i < b_n_tokens inp. the (b_n_seq_id (init_batch_of mem output_all inp)) ! i \<le> 1)" and inv: "rs_inv m"
  shows "\<exists>ubs a' m' idxss. rs_init_batch n_ubatch embd_all a m = Some (rs_ctx_batch ubs, a', m') \<and> list_all (rs_ubatch (rs_size m)) ubs \<and> ubs \<noteq> [] \<and>
    rs_cells m' = rs_cells m \<and> rs_size m' = rs_size m \<and> rs_inv m' \<and> mset (concat idxss) = mset [0..<b_n_tokens inp] \<and>
    list_all2 (ub_carries (ba_n_pos a0) (init_batch_of mem output_all inp)) idxss ubs"
proof -
  note ok = allocr_init_ok [OF init pos]
  obtain a1 where a1: "a1 = init_stats n_seq_max ((allocr_clear a0)\<lparr>ba_batch := init_batch_of mem output_all inp\<rparr>)" "a = split_reset a1" "0 < b_n_tokens inp"
    using init by (rule allocr_init_accept)
  have reset: "split_reset a = a"
    using a1(2) split_reset_idem by simp
  have cpl: "ba_has_cpl a \<longleftrightarrow> (\<exists>i < b_n_tokens inp. 1 < the (b_n_seq_id (init_batch_of mem output_all inp)) ! i)"
    using a1(1,2) by (simp add: split_reset_sel init_stats_sel get_n_tokens_def init_batch_of_def gen_frame)
  have nt: "b_n_tokens (init_batch_of mem output_all inp) = b_n_tokens inp"
    by (simp add: init_batch_of_def gen_frame)
  have "token_seq_set (init_batch_of mem output_all inp) i \<noteq> {}" if "i < b_n_tokens inp" for i
    using b that nt by (auto simp: rs_batch_def token_seq_set_def list_all_iff Let_def)
  then have ready: "embd_all \<or> seq_ready True a"
    using ok one cpl by (auto simp: seq_ready_def)
  obtain ubs a' idxss where r: "split_loop (if embd_all then split_seq n_ubatch else split_equal n_ubatch True) a = Some (ubs, a')" "ba_n_used a' = get_n_tokens a'"
    "list_all (rs_ubatch (rs_size m)) ubs" "mset (concat idxss) = mset [0..<b_n_tokens inp]" "list_all2 (ub_carries (ba_n_pos a0) (init_batch_of mem output_all inp)) idxss ubs"
    using rs_split_ok [OF ok(1) ready ok(4), of "rs_size m" n_ubatch] b np unfolding ok(2,3,7) by blast
  obtain m' where m': "rs_prepare ubs m = Some (True, m')" "rs_cells m' = rs_cells m" "rs_used m' = rs_used m" "rs_head m' = rs_head m" "rs_size m' = rs_size m"
    using rs_prepare_ok [OF inv r(3)] by blast
  have "rs_inv m'"
    using rs_inv_cong [OF inv m'(2,5,3)] m'(4) rs_invD(4) [OF inv] by simp
  moreover have "rs_init_batch n_ubatch embd_all a m = Some (rs_ctx_batch ubs, a', m')"
    using r(1,2) m'(1) by (simp add: rs_init_batch_def reset)
  moreover have "ubs \<noteq> []"
    using r(4,5) a1(3) mset_eq_length [OF r(4)] by (cases idxss) auto
  ultimately show ?thesis
    using r m' by blast
qed

section \<open>Processing the ubatches\<close>

text \<open>The loop over the ubatches of a context: apply it, let the graph compute the new states from the states it is given, store them, and go on.
  The computation \<open>compute\<close> of the model is a parameter.\<close>

partial_function (option) rs_decode ::
  "'s \<Rightarrow> ('e llama_ubatch \<Rightarrow> 's list \<Rightarrow> 's list) \<Rightarrow> 'e rs_context \<Rightarrow> memory_recurrent \<Rightarrow> 's list \<Rightarrow> (memory_recurrent \<times> 's list) option" where
  "rs_decode zero compute ctx m ss = do {
     m' \<leftarrow> rs_ctx_apply ctx m;
     r \<leftarrow> build_rs zero (ub_n_seqs (rc_ubatches ctx ! rc_i_next ctx)) ctx m' ss;
     ss' \<leftarrow> write_rows_at (snd r) (get_rs_head ctx m') (compute (rc_ubatches ctx ! rc_i_next ctx) (fst r));
     c \<leftarrow> rs_ctx_next ctx;
     if fst c then rs_decode zero compute (snd c) m' ss' else Some (m', ss') }"

declare rs_decode.simps [code]

text \<open>The specification: a map from sequences to states. All sequences of a set get the state computed from the state of the first one.\<close>

definition spec_step :: "('e llama_ubatch \<Rightarrow> 's list \<Rightarrow> 's list) \<Rightarrow> 'e llama_ubatch \<Rightarrow> (nat \<Rightarrow> 's) \<Rightarrow> nat \<Rightarrow> 's" where
  "spec_step compute ub \<sigma> q = (case ubatch_set ub q of None \<Rightarrow> \<sigma> q | Some s \<Rightarrow> compute ub (map (\<lambda>s. \<sigma> (lead ub s)) [0..<ub_n_seqs ub]) ! s)"

lemma spec_step_cong:
  assumes "rs_ubatch n ub" "\<And>q. q < n \<Longrightarrow> \<sigma> q = \<tau> q" "q < n"
  shows "spec_step compute ub \<sigma> q = spec_step compute ub \<tau> q"
proof -
  have leads: "map (\<lambda>s. \<sigma> (lead ub s)) [0..<ub_n_seqs ub] = map (\<lambda>s. \<tau> (lead ub s)) [0..<ub_n_seqs ub]"
    using assms(2) rs_ubatchD(9) [OF assms(1)] by simp
  show ?thesis
    unfolding spec_step_def leads using assms(2) [OF assms(3)] by (cases "ubatch_set ub q") simp_all
qed

lemma spec_fold_cong:
  assumes "list_all (rs_ubatch n) ubs" "\<And>q. q < n \<Longrightarrow> \<sigma> q = \<tau> q" "q < n"
  shows "fold (spec_step compute) ubs \<sigma> q = fold (spec_step compute) ubs \<tau> q"
  using assms
proof (induction ubs arbitrary: \<sigma> \<tau>)
  case (Cons ub ubs)
  have "spec_step compute ub \<sigma> r = spec_step compute ub \<tau> r" if "r < n" for r
    using Cons.prems(1) by (intro spec_step_cong [of n]) (auto intro: Cons.prems(2) that)
  then show ?case
    using Cons.IH [of "spec_step compute ub \<sigma>" "spec_step compute ub \<tau>"] Cons.prems(1,3) by simp
qed simp

lemma rs_decode_refines:
  assumes "rs_inv m" "coherent zero ss m" "list_all (rs_ubatch (rs_size m)) ubs" "i < length ubs" "\<And>ub xs. length (compute ub xs) = length xs"
  shows "\<exists>m' ss'. rs_decode zero compute ((rs_ctx_batch ubs)\<lparr>rc_i_next := i\<rparr>) m ss = Some (m', ss') \<and> rs_inv m' \<and> coherent zero ss' m' \<and> rs_size m' = rs_size m \<and>
    (\<forall>q < rs_size m. state_of zero ss' m' q = fold (spec_step compute) (drop i ubs) (state_of zero ss m) q)"
  using assms
proof (induction "length ubs - i" arbitrary: i m ss)
  case (Suc k)
  let ?ctx = "(rs_ctx_batch ubs)\<lparr>rc_i_next := i\<rparr>" and ?ub = "ubs ! i"
  let ?xs = "compute ?ub (map (\<lambda>s. state_of zero ss m (lead ?ub s)) [0..<ub_n_seqs ?ub])"
  have u: "rs_ubatch (rs_size m) ?ub"
    using Suc.prems(3,4) by (simp add: list_all_length)
  obtain m' ss' ss'' where step: "rs_ctx_apply ?ctx m = Some m'"
    "build_rs zero (ub_n_seqs ?ub) ?ctx m' ss = Some (map (\<lambda>s. state_of zero ss m (lead ?ub s)) [0..<ub_n_seqs ?ub], ss')"
    "write_rows_at ss' (rs_head m') ?xs = Some ss''" "rs_inv m'" "coherent zero ss'' m'" "rs_size m' = rs_size m"
    "\<And>q. q < rs_size m \<Longrightarrow> state_of zero ss'' m' q = (case ubatch_set ?ub q of None \<Rightarrow> state_of zero ss m q | Some s \<Rightarrow> ?xs ! s)"
    using rs_step_lemma [OF Suc.prems(1,2,4) u, of ?xs] Suc.prems(5) by auto
  have abs: "state_of zero ss'' m' q = spec_step compute ?ub (state_of zero ss m) q" if "q < rs_size m" for q
    using step(7) [OF that] by (simp add: spec_step_def)
  have dec: "rs_decode zero compute ?ctx m ss =
      (if Suc i < length ubs then rs_decode zero compute ((rs_ctx_batch ubs)\<lparr>rc_i_next := Suc i\<rparr>) m' ss'' else Some (m', ss''))"
    using step(1-3) by (subst rs_decode.simps) (simp add: rs_ctx_next_def rs_ctx_batch_def get_rs_head_def)
  have drop: "drop i ubs = ?ub # drop (Suc i) ubs"
    using Suc.prems(4) by (simp add: Cons_nth_drop_Suc)
  show ?case
  proof (cases "Suc i < length ubs")
    case True
    have "k = length ubs - Suc i"
      using Suc.hyps(2) by simp
    then obtain m2 ss2 where r: "rs_decode zero compute ((rs_ctx_batch ubs)\<lparr>rc_i_next := Suc i\<rparr>) m' ss'' = Some (m2, ss2)" "rs_inv m2" "coherent zero ss2 m2" "rs_size m2 = rs_size m"
      "\<And>q. q < rs_size m \<Longrightarrow> state_of zero ss2 m2 q = fold (spec_step compute) (drop (Suc i) ubs) (state_of zero ss'' m') q"
      using Suc.hyps(1) [of "Suc i" m' ss''] step(4-6) Suc.prems(3,5) True by auto
    have "list_all (rs_ubatch (rs_size m)) (drop (Suc i) ubs)"
      using Suc.prems(3) by (auto simp: list_all_iff dest: in_set_dropD)
    then have "state_of zero ss2 m2 q = fold (spec_step compute) (drop i ubs) (state_of zero ss m) q" if "q < rs_size m" for q
      using spec_fold_cong [of "rs_size m" "drop (Suc i) ubs" "state_of zero ss'' m'" "spec_step compute ?ub (state_of zero ss m)" q compute] abs r(5) [OF that] that
      unfolding drop by simp
    then show ?thesis
      using dec True r(1-4) by auto
  next
    case False
    then show ?thesis
      using dec step(4-6) abs Suc.prems(4) unfolding drop by auto
  qed
qed simp

section \<open>Properties\<close>

text \<open>C5. A batch on a recurrent model, from the batch allocator to the states. For a memory in a state allowed by its invariant and an accepted batch
  whose sequence numbers are below the size of the memory (and, unless all tokens are outputs, one sequence per token): \<open>init_batch\<close> succeeds
  and changes no cell; the ubatches of its context together carry every token of the batch once; and processing them one after the
  other, each time finding a slot, copying states as planned and storing what the model computes, ends, and the state of every sequence is
  the one that the same computations give on a plain map from sequences to states. So the sharing, splitting, swapping and moving of
  cells never mixes up the states of sequences.\<close>

theorem recurrent_batch_refines:
  assumes "allocr_init inp n_vocab mem n_seq_max output_all a0 = Some (True, a)" "b_pos inp \<noteq> None \<or> b_token inp \<noteq> None \<or> ba_n_pos a0 \<le> 1" "0 < ba_n_pos a0"
    and "rs_batch (rs_size m) (init_batch_of mem output_all inp)"
    and "embd_all \<or> (\<forall>i < b_n_tokens inp. the (b_n_seq_id (init_batch_of mem output_all inp)) ! i \<le> 1)"
    and "rs_inv m" "coherent zero ss m" "\<And>ub xs. length (compute ub xs) = length xs"
  shows "\<exists>ubs a' m1 m2 ss2 idxss. rs_init_batch n_ubatch embd_all a m = Some (rs_ctx_batch ubs, a', m1) \<and> rs_cells m1 = rs_cells m \<and>
    mset (concat idxss) = mset [0..<b_n_tokens inp] \<and> list_all2 (ub_carries (ba_n_pos a0) (init_batch_of mem output_all inp)) idxss ubs \<and>
    rs_decode zero compute (rs_ctx_batch ubs) m1 ss = Some (m2, ss2) \<and> rs_inv m2 \<and> coherent zero ss2 m2 \<and>
    (\<forall>q < rs_size m. state_of zero ss2 m2 q = fold (spec_step compute) ubs (state_of zero ss m) q)"
proof -
  obtain ubs a' m1 idxss where b: "rs_init_batch n_ubatch embd_all a m = Some (rs_ctx_batch ubs, a', m1)" "list_all (rs_ubatch (rs_size m)) ubs" "ubs \<noteq> []"
    "rs_cells m1 = rs_cells m" "rs_size m1 = rs_size m" "rs_inv m1" "mset (concat idxss) = mset [0..<b_n_tokens inp]"
    "list_all2 (ub_carries (ba_n_pos a0) (init_batch_of mem output_all inp)) idxss ubs"
    using rs_init_batch_ok [OF assms(1-6), of n_ubatch] by blast
  have c: "coherent zero ss m1" "state_of zero ss m1 = state_of zero ss m"
    using assms(7) b(4,5) by (auto simp: coherent_def state_of_def)
  have "(rs_ctx_batch ubs)\<lparr>rc_i_next := 0\<rparr> = rs_ctx_batch ubs"
    by (simp add: rs_ctx_batch_def)
  then show ?thesis
    using rs_decode_refines [OF b(6) c(1), of ubs 0 compute] b c(2) assms(8) by auto
qed

theorem recurrent_batch_refines_witness:
  "\<exists>ubs a' m1 m2 ss2. rs_init_batch 2 False (demo_init (demo_batch2 [0, 0, 1])) rs_demo = Some (rs_ctx_batch ubs, a', m1) \<and> rs_cells m1 = rs_cells rs_demo \<and>
    rs_decode 0 (\<lambda>ub. map (\<lambda>x. 10 * x + 1)) (rs_ctx_batch ubs) m1 [5, 7 :: int] = Some (m2, ss2) \<and>
    (\<forall>q < 2. state_of 0 ss2 m2 q = fold (spec_step (\<lambda>ub. map (\<lambda>x. 10 * x + 1))) ubs (state_of 0 [5, 7] rs_demo) q)"
proof -
  have p: "b_pos (demo_batch2 [0, 0, 1]) \<noteq> None \<or> b_token (demo_batch2 [0, 0, 1]) \<noteq> None \<or> ba_n_pos (allocr_new 1 :: unit batch_allocr) \<le> 1"
    "0 < ba_n_pos (allocr_new 1 :: unit batch_allocr)" and sz: "rs_size rs_demo = 2"
    by (simp_all add: demo_batch2_def demo_sizes rs_demo_def)
  have b: "rs_batch (rs_size rs_demo) (init_batch_of None False (demo_batch2 [0, 0, 1]))"
    "False \<or> (\<forall>i < b_n_tokens (demo_batch2 [0, 0, 1]). the (b_n_seq_id (init_batch_of None False (demo_batch2 [0, 0, 1]))) ! i \<le> 1)"
    by code_simp+
  have c: "coherent (0 :: int) [5, 7] rs_demo"
    by (auto simp: coherent_def rs_demo_def less_2_cases_iff)
  have l: "length (map (\<lambda>x. 10 * x + 1) xs) = length xs" for xs :: "int list"
    by simp
  from recurrent_batch_refines [OF demo_init_accept(2) p b rs_demo_inv c l, of 2] show ?thesis
    unfolding sz by blast
qed

end
