(* ===== verification/Recurrent_State.thy ===== *)
theory Recurrent_State
  imports KV_State Recurrent_Batch
begin

text \<open>
  Saving and restoring the recurrent memory (\<open>state_write\<close>, \<open>state_read\<close> and their parts in
  \<open>src/src/llama-memory-recurrent.cpp\<close>). A layer has an R and an S tensor, or none if it is filtered out. The writer
  always writes \<open>s_trans = 0\<close> and the reader gives up on any other value, so that the branches for transposed states are
  never reached and have no counterpart here. Reading gives \<open>False\<close> where the source throws because the state does not
  fit, after its clean-up; reading past the end of the stream is \<open>None\<close>.
\<close>

section \<open>Writing\<close>

record rs_layer =
  rl_r :: "tensor option"
  rl_s :: "tensor option"

definition rs_selected :: "int \<Rightarrow> mem_cell \<Rightarrow> bool" where
  "rs_selected seq c \<longleftrightarrow> seq = - 1 \<and> \<not> mc_is_empty c \<or> has_seq_id seq c"

definition rs_cell_ranges :: "memory_recurrent \<Rightarrow> int \<Rightarrow> (nat \<times> (nat \<times> nat) list) option" where
  "rs_cell_ranges m seq = do {
     let n = rs_size m;
     (cell_count, begin', ranges) \<leftarrow>
       mfold (\<lambda>i st. do { sel \<leftarrow> map_option (rs_selected seq) (rs_get (int i) m); Some (range_step n sel i st) }) [0..<n] (0, n, []);
     let ranges' = (if begin' \<noteq> n then ranges @ [(begin', n)] else ranges);
     require (cell_count = sum_list (map (\<lambda>(a, b). b - a) ranges'));
     Some (cell_count, ranges') }"

text \<open>The sequences of a cell are written in the order of \<open>std::set\<close>, and only when the whole memory is saved.\<close>

definition rs_write_cell :: "int \<Rightarrow> mem_cell \<Rightarrow> bytes" where
  "rs_write_cell seq c = (let ids = (if seq = - 1 then sorted_list_of_set (mc_seq c) else []) in
     enc_i32 (mc_pos c) @ enc_uint 4 (length ids) @ concat (map (\<lambda>q. enc_i32 (int q)) ids))"

definition rs_state_write_meta :: "memory_recurrent \<Rightarrow> (nat \<times> nat) list \<Rightarrow> int \<Rightarrow> bytes option" where
  "rs_state_write_meta m ranges seq =
     write_all (\<lambda>i. map_option (rs_write_cell seq) (rs_get (int i) m)) (range_cells ranges)"

definition rs_write_tensor :: "(nat \<times> nat) list \<Rightarrow> tensor option \<Rightarrow> bytes option" where
  "rs_write_tensor ranges x = (case x of
       None \<Rightarrow> Some []
     | Some t \<Rightarrow> do {
         rows \<leftarrow> write_rows 0 ranges (tn_row t) t;
         Some (enc_i32 (tn_type t) @ enc_uint 8 (tn_row t) @ rows) })"

definition rs_state_write_data :: "rs_layer list \<Rightarrow> (nat \<times> nat) list \<Rightarrow> bytes option" where
  "rs_state_write_data lys ranges = do {
     r \<leftarrow> write_all (\<lambda>ly. rs_write_tensor ranges (rl_r ly)) lys;
     s \<leftarrow> write_all (\<lambda>ly. rs_write_tensor ranges (rl_s ly)) lys;
     Some (enc_uint 4 0 @ enc_uint 4 (length lys) @ r @ s) }"

definition rs_state_write :: "memory_recurrent \<Rightarrow> rs_layer list \<Rightarrow> int \<Rightarrow> bytes option" where
  "rs_state_write m lys seq = do {
     (cell_count, ranges) \<leftarrow> rs_cell_ranges m seq;
     meta \<leftarrow> rs_state_write_meta m ranges seq;
     dat \<leftarrow> rs_state_write_data lys ranges;
     Some (enc_uint 4 cell_count @ meta @ dat) }"

section \<open>Reading the cells\<close>

text \<open>A single sequence becomes a ubatch for which a slot is searched.\<close>

fun rs_read_tokens :: "nat list \<Rightarrow> unit llama_ubatch \<Rightarrow> bytes \<Rightarrow> (bool \<times> unit llama_ubatch \<times> bytes) option" where
  "rs_read_tokens [] ub bs = Some (True, ub, bs)"
| "rs_read_tokens (i # is) ub bs = do {
     (pos, bs1) \<leftarrow> dec_i32 bs;
     (n, bs2) \<leftarrow> dec_uint 4 bs1;
     if n \<noteq> 0 then Some (False, ub, bs2)
     else do {
       require (i < length (ub_pos ub));
       rs_read_tokens is (ub\<lparr>ub_pos := (ub_pos ub)[i := pos]\<rparr>) bs2 } }"

definition rs_check_placed :: "nat \<Rightarrow> int \<Rightarrow> unit llama_ubatch \<Rightarrow> memory_recurrent \<Rightarrow> unit option" where
  "rs_check_placed cell_count dest ub m = do {
     require (rs_head m + cell_count \<le> rs_size m);
     c0 \<leftarrow> rs_get (int (rs_head m)) m;
     c1 \<leftarrow> rs_get (int (rs_head m + cell_count - 1)) m;
     require (mc_pos c0 = ub_pos ub ! 0);
     require (mc_pos c1 = ub_pos ub ! (cell_count - 1));
     require (has_seq_id dest c0);
     require (has_seq_id dest c1) }"

definition rs_read_meta_seq :: "nat \<Rightarrow> nat \<Rightarrow> int \<Rightarrow> memory_recurrent \<Rightarrow> bytes \<Rightarrow> (bool \<times> memory_recurrent \<times> bytes) option" where
  "rs_read_meta_seq n_pos cell_count dest m bs = do {
     (_, m1) \<leftarrow> rs_seq_rm dest (- 1) (- 1) m;
     if cell_count = 0 then Some (True, m1, bs)
     else do {
       (ub0, _) \<leftarrow> ubatch_reserve cell_count 1 (allocr_new n_pos);
       (ok, ub1, bs1) \<leftarrow> rs_read_tokens [0..<cell_count] ub0 bs;
       if \<not> ok then Some (False, m1, bs1)
       else do {
         let ub = ub1\<lparr>ub_n_seq_id := (ub_n_seq_id ub1)[0 := 1], ub_seq_id := (ub_seq_id ub1)[0 := [dest]]\<rparr>;
         (found, m2) \<leftarrow> rs_find_slot ub m1;
         if \<not> found then Some (False, m2, bs1)
         else do {
           rs_check_placed cell_count dest ub m2;
           Some (True, m2, bs1) } } } }"

text \<open>The whole memory: the cells are filled from the start. Both loops return early with \<open>False\<close>, on a sequence that is
  out of range or has a cell already.\<close>

fun rs_read_ids :: "nat \<Rightarrow> nat \<Rightarrow> nat \<Rightarrow> memory_recurrent \<Rightarrow> bytes \<Rightarrow> (bool \<times> memory_recurrent \<times> bytes) option" where
  "rs_read_ids n_seq_max i 0 m bs = Some (True, m, bs)"
| "rs_read_ids n_seq_max i (Suc n) m bs = do {
     (q, bs1) \<leftarrow> dec_i32 bs;
     if q < 0 \<or> q \<ge> int n_seq_max then Some (False, m, bs1)
     else do {
       let m1 = rs_upd i (\<lambda>c. c\<lparr>mc_seq := insert (nat q) (mc_seq c)\<rparr>) m;
       c \<leftarrow> rs_get q m1;
       if mc_tail c \<noteq> - 1 then Some (False, m1, bs1)
       else rs_read_ids n_seq_max i n (rs_upd (nat q) (\<lambda>c. c\<lparr>mc_tail := int i\<rparr>) m1) bs1 } }"

fun rs_read_cells :: "nat \<Rightarrow> nat list \<Rightarrow> memory_recurrent \<Rightarrow> bytes \<Rightarrow> (bool \<times> memory_recurrent \<times> bytes) option" where
  "rs_read_cells n_seq_max [] m bs = Some (True, m, bs)"
| "rs_read_cells n_seq_max (i # is) m bs = do {
     _ \<leftarrow> rs_get (int i) m;
     (pos, bs1) \<leftarrow> dec_i32 bs;
     (n, bs2) \<leftarrow> dec_uint 4 bs1;
     (ok, m1, bs3) \<leftarrow> rs_read_ids n_seq_max i n (rs_upd i (\<lambda>c. c\<lparr>mc_pos := pos\<rparr>) m) bs2;
     if \<not> ok then Some (False, m1, bs3) else rs_read_cells n_seq_max is m1 bs3 }"

text \<open>\<open>clear(true)\<close> also clears the buffers.\<close>

definition rs_clear_layer :: "rs_layer \<Rightarrow> rs_layer" where
  "rs_clear_layer ly = ly\<lparr>rl_r := map_option zero_tensor (rl_r ly), rl_s := map_option zero_tensor (rl_s ly)\<rparr>"

definition rs_clear_all :: "memory_recurrent \<times> rs_layer list \<Rightarrow> memory_recurrent \<times> rs_layer list" where
  "rs_clear_all = (\<lambda>(m, lys). (rs_clear m, map rs_clear_layer lys))"

definition rs_read_meta_all ::
  "nat \<Rightarrow> nat \<Rightarrow> memory_recurrent \<times> rs_layer list \<Rightarrow> bytes \<Rightarrow> (bool \<times> (memory_recurrent \<times> rs_layer list) \<times> bytes) option" where
  "rs_read_meta_all n_seq_max cell_count st bs = do {
     if cell_count > rs_size (fst st) then Some (False, st, bs)
     else do {
       let (m0, lys) = rs_clear_all st;
       (ok, m1, bs1) \<leftarrow> rs_read_cells n_seq_max [0..<cell_count] m0 bs;
       if \<not> ok then Some (False, (m1, lys), bs1)
       else Some (True, (m1\<lparr>rs_head := 0, rs_used := cell_count\<rparr>, lys), bs1) } }"

text \<open>Finally the restored cells are made their own sources (not reached by the early return for an empty sequence, for
  which the loop would be empty).\<close>

definition rs_own_sources :: "nat \<Rightarrow> memory_recurrent \<Rightarrow> memory_recurrent option" where
  "rs_own_sources cell_count m = mfold (\<lambda>i m. do {
     let cell_id = rs_head m + i;
     _ \<leftarrow> rs_get (int cell_id) m;
     Some (rs_upd cell_id (\<lambda>c. c\<lparr>mc_src := int cell_id\<rparr>) m) }) [0..<cell_count] m"

definition rs_state_read_meta ::
  "nat \<Rightarrow> nat \<Rightarrow> nat \<Rightarrow> int \<Rightarrow> memory_recurrent \<times> rs_layer list \<Rightarrow> bytes \<Rightarrow> (bool \<times> (memory_recurrent \<times> rs_layer list) \<times> bytes) option" where
  "rs_state_read_meta n_seq_max n_pos cell_count dest st bs = do {
     (ok, st1, bs1) \<leftarrow> (if dest \<noteq> - 1 then do {
          (ok, m', bs') \<leftarrow> rs_read_meta_seq n_pos cell_count dest (fst st) bs;
          Some (ok, (m', snd st), bs') }
        else rs_read_meta_all n_seq_max cell_count st bs);
     if \<not> ok then Some (False, st1, bs1)
     else do {
       m' \<leftarrow> rs_own_sources cell_count (fst st1);
       Some (True, (m', snd st1), bs1) } }"

section \<open>Reading the data\<close>

definition rs_read_tensor :: "nat \<Rightarrow> nat \<Rightarrow> tensor option \<Rightarrow> bytes \<Rightarrow> (bool \<times> tensor option \<times> bytes) option" where
  "rs_read_tensor head cell_count x bs = (case x of
       None \<Rightarrow> Some (True, None, bs)
     | Some t \<Rightarrow> do {
         (ty, bs1) \<leftarrow> dec_i32 bs;
         if tn_type t \<noteq> ty then Some (False, x, bs1)
         else do {
           (row, bs2) \<leftarrow> dec_uint 8 bs1;
           if tn_row t \<noteq> row then Some (False, x, bs2)
           else if cell_count = 0 then Some (True, x, bs2)
           else do {
             (src, bs3) \<leftarrow> io_read (cell_count * tn_row t) bs2;
             t' \<leftarrow> tensor_set (head * tn_row t) src t;
             Some (True, Some t', bs3) } } })"

definition rs_read_r :: "nat \<Rightarrow> nat \<Rightarrow> rs_layer \<Rightarrow> bytes \<Rightarrow> (bool \<times> rs_layer \<times> bytes) option" where
  "rs_read_r head cell_count ly bs = do {
     (ok, t, bs') \<leftarrow> rs_read_tensor head cell_count (rl_r ly) bs;
     Some (ok, ly\<lparr>rl_r := t\<rparr>, bs') }"

definition rs_read_s :: "nat \<Rightarrow> nat \<Rightarrow> rs_layer \<Rightarrow> bytes \<Rightarrow> (bool \<times> rs_layer \<times> bytes) option" where
  "rs_read_s head cell_count ly bs = do {
     (ok, t, bs') \<leftarrow> rs_read_tensor head cell_count (rl_s ly) bs;
     Some (ok, ly\<lparr>rl_s := t\<rparr>, bs') }"

definition rs_state_read_data :: "nat \<Rightarrow> memory_recurrent \<Rightarrow> rs_layer list \<Rightarrow> bytes \<Rightarrow> (bool \<times> rs_layer list \<times> bytes) option" where
  "rs_state_read_data cell_count m lys bs = do {
     (s_trans, bs1) \<leftarrow> dec_uint 4 bs;
     (n_layer, bs2) \<leftarrow> dec_uint 4 bs1;
     if n_layer \<noteq> length lys \<or> cell_count > rs_size m \<or> s_trans \<noteq> 0 then Some (False, lys, bs2)
     else do {
       (ok, lys1, bs3) \<leftarrow> read_layers (rs_read_r (rs_head m) cell_count) lys bs2;
       if \<not> ok then Some (False, lys1, bs3)
       else read_layers (rs_read_s (rs_head m) cell_count) lys1 bs3 } }"

definition rs_read_failed :: "int \<Rightarrow> memory_recurrent \<times> rs_layer list \<Rightarrow> (memory_recurrent \<times> rs_layer list) option" where
  "rs_read_failed dest st = (if dest = - 1 then Some (rs_clear_all st)
     else do { (_, m') \<leftarrow> rs_seq_rm dest (- 1) (- 1) (fst st); Some (m', snd st) })"

definition rs_state_read ::
  "nat \<Rightarrow> nat \<Rightarrow> int \<Rightarrow> memory_recurrent \<times> rs_layer list \<Rightarrow> bytes \<Rightarrow> (bool \<times> (memory_recurrent \<times> rs_layer list) \<times> bytes) option" where
  "rs_state_read n_seq_max n_pos dest st bs = do {
     (cell_count, bs1) \<leftarrow> dec_uint 4 bs;
     (ok, st1, bs2) \<leftarrow> rs_state_read_meta n_seq_max n_pos cell_count dest st bs1;
     (ok', st2, bs3) \<leftarrow> (if ok then do {
          (ok', lys', bs') \<leftarrow> rs_state_read_data cell_count (fst st1) (snd st1) bs2;
          Some (ok', (fst st1, lys'), bs') }
        else Some (False, st1, bs2));
     if ok' then Some (True, st2, bs3)
     else do { st' \<leftarrow> rs_read_failed dest st2; Some (False, st', bs3) } }"

section \<open>The states of the cells\<close>

text \<open>The state of a cell is its row in the tensors of all layers.\<close>

definition state_row :: "tensor option \<Rightarrow> nat \<Rightarrow> bytes" where
  "state_row x i = (case x of None \<Rightarrow> [] | Some t \<Rightarrow> chunk (tn_row t) (tn_data t) i)"

definition cell_state :: "rs_layer list \<Rightarrow> nat \<Rightarrow> (bytes \<times> bytes) list" where
  "cell_state lys i = map (\<lambda>ly. (state_row (rl_r ly) i, state_row (rl_s ly) i)) lys"

definition mem_states :: "nat \<Rightarrow> rs_layer list \<Rightarrow> (bytes \<times> bytes) list list" where
  "mem_states n lys = map (cell_state lys) [0..<n]"

text \<open>Tensors of the same kind for memories of \<open>n\<close> and \<open>n2\<close> cells.\<close>

fun rs_tensor_fits :: "nat \<Rightarrow> nat \<Rightarrow> tensor option \<Rightarrow> tensor option \<Rightarrow> bool" where
  "rs_tensor_fits n n2 (Some t) (Some t2) \<longleftrightarrow> tn_type t2 = tn_type t \<and> tn_row t2 = tn_row t \<and> in_i32 (tn_type t) \<and> tn_row t < 256 ^ 8 \<and>
     length (tn_data t) = n * tn_row t \<and> length (tn_data t2) = n2 * tn_row t"
| "rs_tensor_fits n n2 x x2 \<longleftrightarrow> x = None \<and> x2 = None"

definition rs_layers_fit :: "nat \<Rightarrow> nat \<Rightarrow> rs_layer list \<Rightarrow> rs_layer list \<Rightarrow> bool" where
  "rs_layers_fit n n2 lys lys2 \<longleftrightarrow> length lys < 256 ^ 4 \<and>
     list_all2 (\<lambda>ly ly2. rs_tensor_fits n n2 (rl_r ly) (rl_r ly2) \<and> rs_tensor_fits n n2 (rl_s ly) (rl_s ly2)) lys lys2"

text \<open>The rows \<open>occ\<close> of a tensor arrive from row \<open>h\<close> on.\<close>

definition restored :: "nat \<Rightarrow> nat \<Rightarrow> nat list \<Rightarrow> tensor option \<Rightarrow> tensor option \<Rightarrow> tensor option \<Rightarrow> bool" where
  "restored h n2 occ x x2 x' \<longleftrightarrow>
     (\<forall>k < n2. state_row x' k = (if h \<le> k \<and> k < h + length occ then state_row x (occ ! (k - h)) else state_row x2 k))"

lemma ranges_of_less: "ranges_of n occ ranges \<Longrightarrow> i \<in> set occ \<Longrightarrow> i < n"
  by (fastforce simp: ranges_of_def range_cells_def)

lemma tensor_restored:
  assumes fit: "rs_tensor_fits n n2 x x2" and r: "ranges_of n occ ranges" and room: "h + length occ \<le> n2"
  shows "\<exists>b. rs_write_tensor ranges x = Some b \<and>
    (\<forall>rest. \<exists>x'. rs_read_tensor h (length occ) x2 (b @ rest) = Some (True, x', rest) \<and> restored h n2 occ x x2 x')"
proof (cases "x = None")
  case True
  then have "x2 = None"
    using fit by (cases x2) auto
  then show ?thesis
    using True by (simp add: rs_write_tensor_def rs_read_tensor_def restored_def state_row_def)
next
  case False
  then obtain t t2 where t: "x = Some t" "x2 = Some t2" "tn_type t2 = tn_type t" "tn_row t2 = tn_row t" "in_i32 (tn_type t)" "tn_row t < 256 ^ 8"
    "length (tn_data t) = n * tn_row t" "length (tn_data t2) = n2 * tn_row t"
    using fit by (cases x; cases x2) auto
  let ?n = "tn_row t" and ?rows = "map (chunk (tn_row t) (tn_data t)) occ"
  have w: "rs_write_tensor ranges x = Some (enc_i32 (tn_type t) @ enc_uint 8 ?n @ concat ?rows)"
    using write_rows_occ [OF r, of 0 ?n t] t by (simp add: rs_write_tensor_def)
  have "Suc i * ?n \<le> n * ?n" if "i \<in> set occ" for i
    using ranges_of_less [OF r that] by (intro mult_le_mono1) simp
  then have rows: "\<forall>xs \<in> set ?rows. length xs = ?n"
    using t(7) by (auto intro!: length_chunk)
  then have len: "length (concat ?rows) = length occ * ?n"
    using length_concat_chunks [of ?rows ?n] by simp
  have fits: "(h + length occ) * ?n \<le> length (tn_data t2)"
    unfolding t(8) using room by (rule mult_le_mono1)
  define t' where "t' = t2\<lparr>tn_data := take (h * ?n) (tn_data t2) @ concat ?rows @ drop (h * ?n + length occ * ?n) (tn_data t2)\<rparr>"
  have rd: "rs_read_tensor h (length occ) x2 (enc_i32 (tn_type t) @ enc_uint 8 ?n @ concat ?rows @ rest) =
      Some (True, if occ = [] then x2 else Some t', rest)" for rest
    using t len fits
    by (simp add: rs_read_tensor_def int32.dec_enc uint.dec_enc io_read_append tensor_set_def t'_def add_mult_distrib)
  have "restored h n2 occ x x2 (Some t')"
    unfolding restored_def
  proof (intro allI impI)
    fix k assume "k < n2"
    then have "Suc k * ?n \<le> n2 * ?n"
      by (intro mult_le_mono1) simp
    then have "chunk ?n (tn_data t') k = (if h \<le> k \<and> k < h + length occ then chunk ?n (concat ?rows) (k - h) else chunk ?n (tn_data t2) k)"
      using chunk_set [OF len fits, of k] t(8) by (simp add: t'_def)
    moreover have "chunk ?n (concat ?rows) (k - h) = ?rows ! (k - h)" if "h \<le> k \<and> k < h + length occ"
      using chunk_concat [OF rows, of "k - h"] that by auto
    ultimately show "state_row (Some t') k = (if h \<le> k \<and> k < h + length occ then state_row x (occ ! (k - h)) else state_row x2 k)"
      using t by (auto simp: state_row_def t'_def)
  qed
  moreover have "restored h n2 [] x x2 x2"
    by (auto simp: restored_def)
  ultimately show ?thesis
    using w rd by (intro exI [of _ "enc_i32 (tn_type t) @ enc_uint 8 ?n @ concat ?rows"]) auto
qed

lemma layer_restored:
  assumes "\<exists>b. w = Some b \<and> (\<forall>rest. \<exists>x'. rd (b @ rest) = Some (True, x', rest) \<and> Q x')"
    and "\<And>bs x' rest. rd bs = Some (True, x', rest) \<Longrightarrow> Q x' \<Longrightarrow> \<exists>ly'. f bs = Some (True, ly', rest) \<and> R ly'"
  shows "\<exists>b. w = Some b \<and> (\<forall>rest. \<exists>ly'. f (b @ rest) = Some (True, ly', rest) \<and> R ly')"
proof -
  obtain b where b: "w = Some b" "\<And>rest. \<exists>x'. rd (b @ rest) = Some (True, x', rest) \<and> Q x'"
    using assms(1) by blast
  have "\<exists>ly'. f (b @ rest) = Some (True, ly', rest) \<and> R ly'" for rest
    using b(2) [of rest] assms(2) by blast
  then show ?thesis
    using b(1) by blast
qed

lemma data_restored:
  assumes fit: "rs_layers_fit n (rs_size m2) lys lys2" and r: "ranges_of n occ ranges"
    and room: "rs_head m2 + length occ \<le> rs_size m2"
  shows "\<exists>b. rs_state_write_data lys ranges = Some b \<and> (\<forall>rest. \<exists>lys'. rs_state_read_data (length occ) m2 lys2 (b @ rest) = Some (True, lys', rest) \<and>
    (\<forall>k < rs_size m2. cell_state lys' k =
      (if rs_head m2 \<le> k \<and> k < rs_head m2 + length occ then cell_state lys (occ ! (k - rs_head m2)) else cell_state lys2 k)))"
proof -
  let ?h = "rs_head m2" and ?n2 = "rs_size m2"
  have len: "length lys2 = length lys" "length lys < 256 ^ 4"
    using fit by (auto simp: rs_layers_fit_def list_all2_lengthD)
  have fits: "rs_tensor_fits n ?n2 (rl_r (lys ! i)) (rl_r (lys2 ! i))" "rs_tensor_fits n ?n2 (rl_s (lys ! i)) (rl_s (lys2 ! i))" if "i < length lys" for i
    using fit that by (auto simp: rs_layers_fit_def dest: list_all2_nthD)
  let ?R = "\<lambda>ly ly2 ly'. restored ?h ?n2 occ (rl_r ly) (rl_r ly2) (rl_r ly') \<and> rl_s ly' = rl_s ly2"
  let ?S = "\<lambda>ly ly2 ly'. restored ?h ?n2 occ (rl_s ly) (rl_s ly2) (rl_s ly') \<and> rl_r ly' = rl_r ly2"
  have "\<exists>b. write_all (\<lambda>ly. rs_write_tensor ranges (rl_r ly)) lys = Some b \<and> (\<forall>rest. \<exists>lys'. read_layers (rs_read_r ?h (length occ)) lys2 (b @ rest) =
      Some (True, lys', rest) \<and> length lys' = length lys \<and> (\<forall>i < length lys. ?R (lys ! i) (lys2 ! i) (lys' ! i)))"
  proof (rule layers_roundtrip [OF len(1)])
    fix i assume "i < length lys"
    note t = tensor_restored [OF fits(1) [OF this] r room]
    show "\<exists>b. rs_write_tensor ranges (rl_r (lys ! i)) = Some b \<and>
        (\<forall>rest. \<exists>ly'. rs_read_r ?h (length occ) (lys2 ! i) (b @ rest) = Some (True, ly', rest) \<and> ?R (lys ! i) (lys2 ! i) ly')"
      by (rule layer_restored [OF t]) (auto simp: rs_read_r_def)
  qed
  then obtain b1 where b1: "write_all (\<lambda>ly. rs_write_tensor ranges (rl_r ly)) lys = Some b1"
    "\<And>rest. \<exists>lys'. read_layers (rs_read_r ?h (length occ)) lys2 (b1 @ rest) = Some (True, lys', rest) \<and> length lys' = length lys \<and>
      (\<forall>i < length lys. ?R (lys ! i) (lys2 ! i) (lys' ! i))"
    by blast
  have S: "\<exists>b. write_all (\<lambda>ly. rs_write_tensor ranges (rl_s ly)) lys = Some b \<and> (\<forall>rest. \<exists>lys'. read_layers (rs_read_s ?h (length occ)) lys1 (b @ rest) =
      Some (True, lys', rest) \<and> length lys' = length lys \<and> (\<forall>i < length lys. ?S (lys ! i) (lys1 ! i) (lys' ! i)))"
    if l1: "length lys1 = length lys" "\<And>i. i < length lys \<Longrightarrow> rl_s (lys1 ! i) = rl_s (lys2 ! i)" for lys1
  proof (rule layers_roundtrip [OF l1(1)])
    fix i assume i: "i < length lys"
    note t = tensor_restored [OF fits(2) [OF i, folded l1(2) [OF i]] r room]
    show "\<exists>b. rs_write_tensor ranges (rl_s (lys ! i)) = Some b \<and>
        (\<forall>rest. \<exists>ly'. rs_read_s ?h (length occ) (lys1 ! i) (b @ rest) = Some (True, ly', rest) \<and> ?S (lys ! i) (lys1 ! i) ly')"
      by (rule layer_restored [OF t]) (auto simp: rs_read_s_def)
  qed
  obtain b2 where b2: "write_all (\<lambda>ly. rs_write_tensor ranges (rl_s ly)) lys = Some b2"
    using S [OF len(1)] by blast
  have "\<exists>lys'. rs_state_read_data (length occ) m2 lys2 (enc_uint 4 0 @ enc_uint 4 (length lys) @ b1 @ b2 @ rest) = Some (True, lys', rest) \<and>
    (\<forall>k < ?n2. cell_state lys' k = (if ?h \<le> k \<and> k < ?h + length occ then cell_state lys (occ ! (k - ?h)) else cell_state lys2 k))" for rest
  proof -
    obtain lys1 where l1: "read_layers (rs_read_r ?h (length occ)) lys2 (b1 @ b2 @ rest) = Some (True, lys1, b2 @ rest)" "length lys1 = length lys"
      "\<And>i. i < length lys \<Longrightarrow> ?R (lys ! i) (lys2 ! i) (lys1 ! i)"
      using b1(2) by blast
    have "\<exists>lys'. read_layers (rs_read_s ?h (length occ)) lys1 (b2 @ rest) = Some (True, lys', rest) \<and> length lys' = length lys \<and>
        (\<forall>i < length lys. ?S (lys ! i) (lys1 ! i) (lys' ! i))"
      using S [OF l1(2)] l1(3) unfolding b2 by blast
    then obtain lys' where l2: "read_layers (rs_read_s ?h (length occ)) lys1 (b2 @ rest) = Some (True, lys', rest)" "length lys' = length lys"
      "\<And>i. i < length lys \<Longrightarrow> ?S (lys ! i) (lys1 ! i) (lys' ! i)"
      by blast
    have "cell_state lys' k = (if ?h \<le> k \<and> k < ?h + length occ then cell_state lys (occ ! (k - ?h)) else cell_state lys2 k)" if k: "k < ?n2" for k
      using l1(2,3) l2(2,3) len k by (auto simp: cell_state_def restored_def intro!: nth_equalityI)
    then show ?thesis
      using l1(1) l2(1) len room by (simp add: rs_state_read_data_def uint.dec_enc [where k = 4])
  qed
  then show ?thesis
    using b1(1) b2 by (intro exI [of _ "enc_uint 4 0 @ enc_uint 4 (length lys) @ b1 @ b2"]) (simp add: rs_state_write_data_def)
qed

section \<open>The whole memory\<close>

definition occ_cells :: "memory_recurrent \<Rightarrow> nat list" where
  "occ_cells m = filter (\<lambda>i. sq m i \<noteq> {}) [0..<rs_size m]"

lemma occ_cells_set: "set (occ_cells m) = Recurrent_Inv.occupied m"
  by (auto simp: occ_cells_def Recurrent_Inv.occupied_def)

lemma occ_cells_length: "length (occ_cells m) = card (Recurrent_Inv.occupied m)"
  using distinct_card [of "occ_cells m"] unfolding occ_cells_set by (simp add: occ_cells_def)

lemma rs_ranges_ok:
  assumes len: "length (rs_cells m) = rs_size m" and sel: "\<And>i. i < rs_size m \<Longrightarrow> rs_selected seq (rs_cells m ! i) = sel i"
  shows "\<exists>ranges. rs_cell_ranges m seq = Some (length (filter sel [0..<rs_size m]), ranges) \<and> ranges_of (rs_size m) (filter sel [0..<rs_size m]) ranges"
proof -
  let ?n = "rs_size m" and ?f = "\<lambda>i. map_option (rs_selected seq) (rs_get (int i) m)"
  have f: "?f i = Some (sel i)" if "i < ?n" for i
    using that len sel by (simp add: rs_get_nat)
  obtain b rs where r: "mfold (\<lambda>i st. do { s \<leftarrow> ?f i; Some (range_step ?n s i st) }) [0..<?n] (0, ?n, []) = Some (length (filter sel [0..<?n]), b, rs)"
    "range_cells (if b \<noteq> ?n then rs @ [(b, ?n)] else rs) = filter sel [0..<?n]"
    "\<And>a e. (a, e) \<in> set (if b \<noteq> ?n then rs @ [(b, ?n)] else rs) \<Longrightarrow> a \<le> e \<and> e \<le> ?n"
    "length (filter sel [0..<?n]) = sum_list (map (\<lambda>(a, b). b - a) (if b \<noteq> ?n then rs @ [(b, ?n)] else rs))"
    using sel_ranges_ok [of ?n ?f sel] f by blast
  have "ranges_of ?n (filter sel [0..<?n]) (if b \<noteq> ?n then rs @ [(b, ?n)] else rs)"
    using r(2,3) unfolding ranges_of_def by blast
  then show ?thesis
    using r(1,4) by (intro exI [of _ "if b \<noteq> ?n then rs @ [(b, ?n)] else rs"]) (simp add: rs_cell_ranges_def Let_def)
qed

lemma rs_write_meta_eq:
  assumes "length (rs_cells m) = rs_size m" "ranges_of (rs_size m) occ ranges"
  shows "rs_state_write_meta m ranges seq = Some (concat (map (\<lambda>i. rs_write_cell seq (rs_cells m ! i)) occ))"
proof -
  have "map_option (rs_write_cell seq) (rs_get (int i) m) = Some (rs_write_cell seq (rs_cells m ! i))" if "i \<in> set occ" for i
    using ranges_of_less [OF assms(2) that] assms(1) by (simp add: rs_get_nat)
  from write_all_eq [of occ, OF this] show ?thesis
    using assms(2) by (simp add: rs_state_write_meta_def ranges_of_def)
qed

text \<open>The ids of a cell are read back, and each of the sequences is given the cell as its tail.\<close>

lemma read_ids_ok:
  assumes "distinct ids" "i < length (rs_cells m)" "length (rs_cells m) < 2 ^ 31"
    and "\<And>q. q \<in> set ids \<Longrightarrow> q < n_seq_max \<and> q < length (rs_cells m) \<and> tl_of m q = - 1"
  shows "\<exists>m'. rs_read_ids n_seq_max i (length ids) m (concat (map (\<lambda>q. enc_i32 (int q)) ids) @ rest) = Some (True, m', rest) \<and> rs_size m' = rs_size m \<and>
    length (rs_cells m') = length (rs_cells m) \<and> (\<forall>j < length (rs_cells m). rs_cells m' ! j = (rs_cells m ! j)
      \<lparr>mc_seq := (if j = i then sq m j \<union> set ids else sq m j), mc_tail := (if j \<in> set ids then int i else tl_of m j)\<rparr>)"
  using assms
proof (induction ids arbitrary: m)
  case Nil
  then show ?case by simp
next
  case (Cons q ids)
  have q: "q < n_seq_max" "q < length (rs_cells m)" "tl_of m q = - 1" "in_i32 (int q)"
    using Cons.prems(3) Cons.prems(4) [of q] by (auto simp: in_i32_def INT32_MIN_def INT32_MAX_def)
  define m1 where "m1 = rs_upd i (\<lambda>c. c\<lparr>mc_seq := insert q (mc_seq c)\<rparr>) m"
  define m2 where "m2 = rs_upd q (\<lambda>c. c\<lparr>mc_tail := int i\<rparr>) m1"
  have get: "rs_get (int q) m1 = Some (rs_cells m1 ! q)" "tl_of m1 q = - 1"
    using q Cons.prems(2) by (simp_all add: m1_def rs_get_nat rs_upd_nth)
  have step: "rs_read_ids n_seq_max i (length (q # ids)) m (concat (map (\<lambda>q. enc_i32 (int q)) (q # ids)) @ rest) =
      rs_read_ids n_seq_max i (length ids) m2 (concat (map (\<lambda>q. enc_i32 (int q)) ids) @ rest)"
    using q get by (simp add: int32.dec_enc m2_def m1_def)
  have cells: "rs_cells m2 ! j = (rs_cells m ! j)\<lparr>mc_seq := (if j = i then insert q (sq m j) else sq m j), mc_tail := (if j = q then int i else tl_of m j)\<rparr>"
    "length (rs_cells m2) = length (rs_cells m)" "rs_size m2 = rs_size m" if "j < length (rs_cells m)" for j
    using that by (auto simp: m2_def m1_def rs_upd_nth)
  have len: "length (rs_cells m2) = length (rs_cells m)" "rs_size m2 = rs_size m"
    by (simp_all add: m2_def m1_def)
  have "\<exists>m'. rs_read_ids n_seq_max i (length ids) m2 (concat (map (\<lambda>q. enc_i32 (int q)) ids) @ rest) = Some (True, m', rest) \<and> rs_size m' = rs_size m2 \<and>
    length (rs_cells m') = length (rs_cells m2) \<and> (\<forall>j < length (rs_cells m2). rs_cells m' ! j = (rs_cells m2 ! j)
      \<lparr>mc_seq := (if j = i then sq m2 j \<union> set ids else sq m2 j), mc_tail := (if j \<in> set ids then int i else tl_of m2 j)\<rparr>)"
    using Cons.prems cells(1) by (intro Cons.IH) (auto simp: len)
  then obtain m' where m': "rs_read_ids n_seq_max i (length ids) m2 (concat (map (\<lambda>q. enc_i32 (int q)) ids) @ rest) = Some (True, m', rest)"
    "rs_size m' = rs_size m" "length (rs_cells m') = length (rs_cells m)" "\<And>j. j < length (rs_cells m) \<Longrightarrow> rs_cells m' ! j = (rs_cells m2 ! j)
      \<lparr>mc_seq := (if j = i then sq m2 j \<union> set ids else sq m2 j), mc_tail := (if j \<in> set ids then int i else tl_of m2 j)\<rparr>"
    unfolding len by blast
  then show ?case
    unfolding step using cells(1) by (intro exI [of _ m']) auto
qed

text \<open>The memory after the first \<open>k\<close> cells of \<open>m\<close> have been read.\<close>

definition filled :: "memory_recurrent \<Rightarrow> nat \<Rightarrow> memory_recurrent \<Rightarrow> bool" where
  "filled m k mm \<longleftrightarrow> length (rs_cells mm) = rs_size mm \<and>
     (\<forall>j < rs_size mm. sq mm j = (if j < k then sq m (occ_cells m ! j) else {}) \<and> ps mm j = (if j < k then ps m (occ_cells m ! j) else - 1) \<and> sr mm j = - 1) \<and>
     (\<forall>q < rs_size mm. tl_of mm q = - 1 \<or> (\<exists>j < k. tl_of mm q = int j)) \<and>
     (\<forall>q < rs_size mm. \<forall>j. tl_of mm q = int j \<longleftrightarrow> j < k \<and> q \<in> sq m (occ_cells m ! j))"

definition rs_savable :: "nat \<Rightarrow> memory_recurrent \<Rightarrow> bool" where
  "rs_savable n_seq_max m \<longleftrightarrow> list_all (\<lambda>c. mc_pos c \<le> INT32_MAX \<and> mc_seq c \<subseteq> {..<n_seq_max}) (rs_cells m)"

lemma rs_savableD: "rs_savable n m \<Longrightarrow> i < length (rs_cells m) \<Longrightarrow> ps m i \<le> INT32_MAX \<and> sq m i \<subseteq> {..<n}"
  by (simp add: rs_savable_def list_all_length)

lemma occ_cells_nth:
  assumes "rs_inv m" "k < length (occ_cells m)"
  shows "occ_cells m ! k < rs_size m" "sq m (occ_cells m ! k) \<noteq> {}" "0 \<le> ps m (occ_cells m ! k)"
    "j < length (occ_cells m) \<Longrightarrow> q \<in> sq m (occ_cells m ! j) \<Longrightarrow> q \<in> sq m (occ_cells m ! k) \<Longrightarrow> j = k"
proof -
  have mem: "occ_cells m ! i < rs_size m \<and> sq m (occ_cells m ! i) \<noteq> {}" if "i < length (occ_cells m)" for i
    using nth_mem [OF that] by (auto simp: occ_cells_def)
  show k: "occ_cells m ! k < rs_size m" "sq m (occ_cells m ! k) \<noteq> {}"
    using mem [OF assms(2)] by auto
  show "0 \<le> ps m (occ_cells m ! k)"
    using rs_invD(5) [OF assms(1) k(1)] k(2) by (simp add: cell_ok_def)
  show "j = k" if j: "j < length (occ_cells m)" "q \<in> sq m (occ_cells m ! j)" "q \<in> sq m (occ_cells m ! k)"
    using tails_unique [OF rs_invD(3) [OF assms(1)] _ k(1) j(2,3)] mem [OF j(1)] nth_eq_iff_index_eq [of "occ_cells m" j k] j(1) assms(2)
    by (simp add: occ_cells_def)
qed

lemma read_cell_step:
  assumes inv: "rs_inv m" and sav: "rs_savable n_seq_max m" "n_seq_max \<le> rs_size mm" "rs_size mm < 2 ^ 31"
    and fil: "filled m k mm" and k: "k < length (occ_cells m)" "k < rs_size mm"
  shows "\<exists>mm'. rs_read_cells n_seq_max (k # ks) mm (rs_write_cell (- 1) (rs_cells m ! (occ_cells m ! k)) @ rest) = rs_read_cells n_seq_max ks mm' rest \<and>
    rs_size mm' = rs_size mm \<and> filled m (Suc k) mm'"
proof -
  let ?c = "occ_cells m ! k"
  note K = occ_cells_nth [OF inv k(1)]
  have len: "length (rs_cells mm) = rs_size mm" "length (rs_cells m) = rs_size m"
    using fil rs_invD(1) [OF inv] by (simp_all add: filled_def)
  have S: "ps m ?c \<le> INT32_MAX" "sq m ?c \<subseteq> {..<n_seq_max}"
    using rs_savableD [OF sav(1)] K(1) len(2) by auto
  then have fin: "finite (sq m ?c)" "card (sq m ?c) \<le> n_seq_max"
    using card_mono [of "{..<n_seq_max}" "sq m ?c"] by (auto intro: finite_subset)
  define ids where "ids = sorted_list_of_set (sq m ?c)"
  have ids: "distinct ids" "set ids = sq m ?c" "length ids = card (sq m ?c)"
    using fin by (simp_all add: ids_def)
  define m1 where "m1 = rs_upd k (\<lambda>c. c\<lparr>mc_pos := ps m ?c\<rparr>) mm"
  have m1: "length (rs_cells m1) = rs_size mm" "rs_size m1 = rs_size mm" "rs_cells m1 ! j = (rs_cells mm ! j)\<lparr>mc_pos := (if j = k then ps m ?c else ps mm j)\<rparr>"
    if "j < rs_size mm" for j
    using that len by (auto simp: m1_def rs_upd_nth)
  have free: "tl_of mm q = - 1" "q < rs_size mm" if "q \<in> sq m ?c" for q
  proof -
    show q: "q < rs_size mm"
      using that S sav(2) by auto
    have "tl_of mm q \<noteq> int j" if "j < k" for j
      using that fil q K(4) [of j q] \<open>q \<in> sq m ?c\<close> k(1) by (auto simp: filled_def)
    then show "tl_of mm q = - 1"
      using fil q by (auto simp: filled_def)
  qed
  have "\<exists>m'. rs_read_ids n_seq_max k (length ids) m1 (concat (map (\<lambda>q. enc_i32 (int q)) ids) @ rest) = Some (True, m', rest) \<and> rs_size m' = rs_size m1 \<and>
    length (rs_cells m') = length (rs_cells m1) \<and> (\<forall>j < length (rs_cells m1). rs_cells m' ! j = (rs_cells m1 ! j)
      \<lparr>mc_seq := (if j = k then sq m1 j \<union> set ids else sq m1 j), mc_tail := (if j \<in> set ids then int k else tl_of m1 j)\<rparr>)"
    using ids free S k(2) sav(3) m1 by (intro read_ids_ok) auto
  then obtain m' where m': "rs_read_ids n_seq_max k (length ids) m1 (concat (map (\<lambda>q. enc_i32 (int q)) ids) @ rest) = Some (True, m', rest)"
    "rs_size m' = rs_size mm" "length (rs_cells m') = rs_size mm"
    "\<And>j. j < rs_size mm \<Longrightarrow> rs_cells m' ! j = (rs_cells mm ! j)\<lparr>mc_pos := (if j = k then ps m ?c else ps mm j),
       mc_seq := (if j = k then sq mm j \<union> sq m ?c else sq mm j), mc_tail := (if j \<in> sq m ?c then int k else tl_of mm j)\<rparr>"
    using m1 k(2) ids(2) by auto
  have "length ids < 256 ^ 4" "in_i32 (ps m ?c)"
    using fin(2) ids(3) sav K(3) S(1) by (auto simp: in_i32_def INT32_MIN_def)
  then have "rs_read_cells n_seq_max (k # ks) mm (rs_write_cell (- 1) (rs_cells m ! ?c) @ rest) = rs_read_cells n_seq_max ks m' rest"
    using m'(1) k(2) len by (simp add: rs_write_cell_def int32.dec_enc uint.dec_enc rs_get_nat m1_def ids_def Let_def)
  moreover have "q \<notin> sq m ?c" if "j < k" "q \<in> sq m (occ_cells m ! j)" for j q
    using K(4) [of j q] k(1) that by auto
  then have "filled m (Suc k) m'"
    using fil m'(2,3,4) free by (auto simp: filled_def less_Suc_eq)
  ultimately show ?thesis
    using m'(2) by blast
qed

lemma read_cells_filled:
  assumes inv: "rs_inv m" and sav: "rs_savable n_seq_max m" "n_seq_max \<le> rs_size mm" "rs_size mm < 2 ^ 31"
    and fil: "filled m k mm" and k: "k \<le> length (occ_cells m)" "length (occ_cells m) \<le> rs_size mm"
  shows "\<exists>mm'. rs_read_cells n_seq_max [k..<length (occ_cells m)] mm (concat (map (\<lambda>i. rs_write_cell (- 1) (rs_cells m ! i)) (drop k (occ_cells m))) @ rest) =
    Some (True, mm', rest) \<and> rs_size mm' = rs_size mm \<and> filled m (length (occ_cells m)) mm'"
  using k(1) sav(2,3) fil k(2)
proof (induction arbitrary: mm rule: inc_induct)
  case base
  then show ?case by simp
next
  case (step k)
  have up: "[k..<length (occ_cells m)] = k # [Suc k..<length (occ_cells m)]" "drop k (occ_cells m) = occ_cells m ! k # drop (Suc k) (occ_cells m)"
    using step.hyps(2) by (simp_all add: upt_conv_Cons Cons_nth_drop_Suc)
  let ?bs = "concat (map (\<lambda>i. rs_write_cell (- 1) (rs_cells m ! i)) (drop (Suc k) (occ_cells m))) @ rest"
  obtain mm' where mm': "rs_read_cells n_seq_max (k # [Suc k..<length (occ_cells m)]) mm (rs_write_cell (- 1) (rs_cells m ! (occ_cells m ! k)) @ ?bs) =
      rs_read_cells n_seq_max [Suc k..<length (occ_cells m)] mm' ?bs" "rs_size mm' = rs_size mm" "filled m (Suc k) mm'"
    using read_cell_step [OF inv sav(1) step.prems(1,2,3) step.hyps(2), of "[Suc k..<length (occ_cells m)]" ?bs] step.hyps(2) step.prems(4) by auto
  then show ?case
    using step.IH [of mm'] step.prems unfolding up by simp
qed

lemma own_sources_ok:
  assumes "rs_head m + n \<le> length (rs_cells m)"
  shows "\<exists>m'. rs_own_sources n m = Some m' \<and> m' = m\<lparr>rs_cells := rs_cells m'\<rparr> \<and> length (rs_cells m') = length (rs_cells m) \<and>
    (\<forall>j < length (rs_cells m). rs_cells m' ! j = (rs_cells m ! j)\<lparr>mc_src := (if rs_head m \<le> j \<and> j < rs_head m + n then int j else sr m j)\<rparr>)"
proof -
  let ?step = "\<lambda>i m. do { let cell_id = rs_head m + i; _ \<leftarrow> rs_get (int cell_id) m; Some (rs_upd cell_id (\<lambda>c. c\<lparr>mc_src := int cell_id\<rparr>) m) }"
  let ?I = "\<lambda>done m'. m' = m\<lparr>rs_cells := rs_cells m'\<rparr> \<and> length (rs_cells m') = length (rs_cells m) \<and>
    (\<forall>j < length (rs_cells m). rs_cells m' ! j = (rs_cells m ! j)\<lparr>mc_src := (if rs_head m \<le> j \<and> j < rs_head m + length done then int j else sr m j)\<rparr>)"
  have "\<exists>m'. mfold ?step [0..<n] m = Some m' \<and> ?I [0..<n] m'"
  proof (rule mfold_invariant)
    show "?I [] m"
      by auto
    fix "done" i rest m1
    assume split: "[0..<n] = done @ i # rest" and I: "?I done m1"
    note i = upt_splitD [OF split]
    obtain cs where m1: "m1 = m\<lparr>rs_cells := cs\<rparr>"
      using I by blast
    have h: "rs_head m1 = rs_head m" "length done = i" "rs_head m + i < length (rs_cells m1)"
      using I i assms by (simp_all add: m1)
    define m2 where "m2 = rs_upd (rs_head m + i) (\<lambda>c. c\<lparr>mc_src := int (rs_head m + i)\<rparr>) m1"
    have "?step i m1 = Some m2"
      using h by (simp add: m2_def rs_get_nat Let_def del: of_nat_add)
    moreover have "m2 = m\<lparr>rs_cells := rs_cells m2\<rparr>"
      by (simp add: m2_def m1 rs_upd_def)
    ultimately show "\<exists>s'. ?step i m1 = Some s' \<and> ?I (done @ [i]) s'"
      using I h by (intro exI [of _ m2]) (auto simp: m2_def rs_upd_nth)
  qed
  then show ?thesis
    by (simp add: rs_own_sources_def)
qed

lemma occ_cells_le:
  assumes inv: "rs_inv m" and sav: "rs_savable n m"
  shows "length (occ_cells m) \<le> n"
proof -
  note I = rs_invD [OF inv]
  have "Recurrent_Inv.occupied m \<subseteq> (\<lambda>q. nat (tl_of m q)) ` {..<n}"
  proof
    fix j assume "j \<in> Recurrent_Inv.occupied m"
    then obtain q where q: "j < rs_size m" "q \<in> sq m j"
      by (auto simp: Recurrent_Inv.occupied_def)
    then have "tl_of m q = int j" "q < n"
      using tails_mem [OF I(3) q] rs_savableD [OF sav, of j] I(1) by auto
    then show "j \<in> (\<lambda>q. nat (tl_of m q)) ` {..<n}"
      by (intro image_eqI [of _ _ q]) simp_all
  qed
  from card_mono [OF _ this] card_image_le [of "{..<n}" "\<lambda>q. nat (tl_of m q)"] show ?thesis
    by (simp add: occ_cells_length)
qed

text \<open>The metadata of the restored memory: invariant, and the sequences with their cells.\<close>

lemma filled_restored:
  assumes inv: "rs_inv m" and sav: "rs_savable n_seq_max m" "n_seq_max \<le> rs_size m'" and sz: "rs_size m' < 2 ^ 31" "0 < rs_size m'"
    and fil: "filled m (length (occ_cells m)) mm" and len: "rs_size mm = rs_size m'" "length (rs_cells m') = rs_size m'" "rs_head m' = 0" "rs_used m' = length (occ_cells m)"
    and cells: "\<And>j. j < rs_size m' \<Longrightarrow> rs_cells m' ! j = (rs_cells mm ! j)\<lparr>mc_src := (if j < length (occ_cells m) then int j else - 1)\<rparr>"
  shows "rs_inv m'" "\<And>j. j < rs_size m' \<Longrightarrow> sq m' j = {} \<Longrightarrow> sr m' j = - 1"
    "\<And>q. q < rs_size m' \<Longrightarrow> q < rs_size m \<Longrightarrow> tl_of m q = - 1 \<Longrightarrow> tl_of m' q = - 1"
    "\<And>q. q < rs_size m' \<Longrightarrow> q < rs_size m \<Longrightarrow> tl_of m q \<noteq> - 1 \<Longrightarrow>
       \<exists>j < length (occ_cells m). tl_of m' q = int j \<and> tl_of m q = int (occ_cells m ! j) \<and> ps m' j = ps m (occ_cells m ! j)"
proof -
  let ?n = "length (occ_cells m)"
  have n: "?n \<le> rs_size m'"
    using occ_cells_le [OF inv sav(1)] sav(2) by simp
  have C: "sq m' j = (if j < ?n then sq m (occ_cells m ! j) else {})" "ps m' j = (if j < ?n then ps m (occ_cells m ! j) else - 1)"
    "sr m' j = (if j < ?n then int j else - 1)" if "j < rs_size m'" for j
    using fil cells [OF that] that len(1) by (simp_all add: filled_def)
  have T: "tl_of m' q = - 1 \<or> (\<exists>j < ?n. tl_of m' q = int j)" "\<And>j. tl_of m' q = int j \<longleftrightarrow> j < ?n \<and> q \<in> sq m (occ_cells m ! j)" if "q < rs_size m'" for q
  proof -
    have "tl_of m' q = tl_of mm q"
      using cells [OF that] by simp
    moreover have "tl_of mm q = - 1 \<or> (\<exists>j < ?n. tl_of mm q = int j)" "\<And>j. tl_of mm q = int j \<longleftrightarrow> j < ?n \<and> q \<in> sq m (occ_cells m ! j)"
      using fil that unfolding filled_def len(1) by blast+
    ultimately show "tl_of m' q = - 1 \<or> (\<exists>j < ?n. tl_of m' q = int j)" "\<And>j. tl_of m' q = int j \<longleftrightarrow> j < ?n \<and> q \<in> sq m (occ_cells m ! j)"
      by simp_all
  qed
  note N = occ_cells_nth [OF inv]
  have sub: "sq m (occ_cells m ! j) \<subseteq> {..<rs_size m'}" if "j < ?n" for j
    using rs_savableD [OF sav(1), of "occ_cells m ! j"] N(1) [OF that] rs_invD(1) [OF inv] sav(2) by auto
  have "tails_ok m'"
    unfolding tails_ok_def
  proof (intro conjI allI impI)
    show "tl_of m' q = - 1 \<or> 0 \<le> tl_of m' q \<and> tl_of m' q < int (rs_size m')" if "q < rs_size m'" for q
      using T(1) [OF that] n by auto
    show "tl_of m' q = int j \<longleftrightarrow> q \<in> sq m' j" if "q < rs_size m'" "j < rs_size m'" for q j
      using T(2) [OF that(1)] C(1) [OF that(2)] by simp
    show "sq m' j \<subseteq> {..<rs_size m'}" if "j < rs_size m'" for j
      using C(1) [OF that] sub by simp
  qed
  moreover have "cell_ok j (rs_cells m' ! j)" if "j < rs_size m'" for j
    using C [OF that] N(2,3) by (auto simp: cell_ok_def)
  moreover have "Recurrent_Inv.occupied m' = {..<?n}"
    using C(1) N(2) n by (auto simp: Recurrent_Inv.occupied_def split: if_splits)
  ultimately show "rs_inv m'"
    using sz len by (simp add: rs_inv_def)
  show "sr m' j = - 1" if "j < rs_size m'" "sq m' j = {}" for j
    using C [OF that(1)] that(2) N(2) by (auto split: if_splits)
  fix q assume q: "q < rs_size m'" "q < rs_size m"
  show "tl_of m' q = - 1" if "tl_of m q = - 1"
  proof (rule ccontr)
    assume "tl_of m' q \<noteq> - 1"
    then obtain j where "j < ?n" "q \<in> sq m (occ_cells m ! j)"
      using T [OF q(1)] by auto
    then show False
      using tails_mem [OF rs_invD(3) [OF inv] N(1), of j q] that by simp
  qed
  assume "tl_of m q \<noteq> - 1"
  then obtain t where t: "t < rs_size m" "tl_of m q = int t" "q \<in> sq m t"
    using tailsD [OF rs_invD(3) [OF inv] q(2)] by auto
  then have "t \<in> set (occ_cells m)"
    by (auto simp: occ_cells_def)
  then obtain j where j: "j < ?n" "occ_cells m ! j = t"
    by (auto simp: in_set_conv_nth)
  then show "\<exists>j < ?n. tl_of m' q = int j \<and> tl_of m q = int (occ_cells m ! j) \<and> ps m' j = ps m (occ_cells m ! j)"
    using T(2) [OF q(1), of j] t C(2) [of j] n by (intro exI [of _ j]) simp
qed

lemma rs_layers_fit_clear:
  assumes "rs_layers_fit n n2 lys lys2"
  shows "rs_layers_fit n n2 lys (map rs_clear_layer lys2)"
proof -
  have "rs_tensor_fits n n2 x (map_option zero_tensor x2)" if "rs_tensor_fits n n2 x x2" for x x2
    using that by (cases x; cases x2) (auto simp: zero_tensor_def)
  then show ?thesis
    using assms by (auto simp: rs_layers_fit_def list_all2_map2 rs_clear_layer_def elim!: list_all2_mono)
qed

lemma meta_all_restored:
  assumes inv: "rs_inv m" "rs_inv m2" and sav: "rs_savable n_seq_max m" "n_seq_max \<le> rs_size m2"
  shows "\<exists>m'. rs_state_read_meta n_seq_max n_pos (length (occ_cells m)) (- 1) (m2, lys2)
      (concat (map (\<lambda>i. rs_write_cell (- 1) (rs_cells m ! i)) (occ_cells m)) @ rest) = Some (True, (m', map rs_clear_layer lys2), rest) \<and>
    rs_size m' = rs_size m2 \<and> rs_head m' = 0 \<and> rs_inv m' \<and> (\<forall>j < rs_size m'. sq m' j = {} \<longrightarrow> sr m' j = - 1) \<and>
    (\<forall>q < rs_size m'. q < rs_size m \<longrightarrow> (if tl_of m q = - 1 then tl_of m' q = - 1 else
       \<exists>j < length (occ_cells m). tl_of m' q = int j \<and> tl_of m q = int (occ_cells m ! j) \<and> ps m' j = ps m (occ_cells m ! j)))"
proof -
  let ?n = "length (occ_cells m)"
  note I2 = rs_invD [OF inv(2)]
  have n: "?n \<le> rs_size m2"
    using occ_cells_le [OF inv(1) sav(1)] sav(2) by simp
  have "filled m 0 (rs_clear m2)"
    using I2(1) by (simp add: filled_def rs_clear_def)
  then obtain mm where mm: "rs_read_cells n_seq_max [0..<?n] (rs_clear m2) (concat (map (\<lambda>i. rs_write_cell (- 1) (rs_cells m ! i)) (occ_cells m)) @ rest) = Some (True, mm, rest)"
    "rs_size mm = rs_size m2" "filled m ?n mm"
    using read_cells_filled [OF inv(1) sav(1), of "rs_clear m2" 0 rest] sav(2) n I2(7) by (auto simp: rs_clear_def)
  let ?m1 = "mm\<lparr>rs_head := 0, rs_used := ?n\<rparr>"
  have "rs_head ?m1 + ?n \<le> length (rs_cells ?m1)"
    using mm n by (simp add: filled_def)
  then obtain m' where m': "rs_own_sources ?n ?m1 = Some m'" "m' = ?m1\<lparr>rs_cells := rs_cells m'\<rparr>" "length (rs_cells m') = rs_size m2"
    "\<And>j. j < rs_size m2 \<Longrightarrow> rs_cells m' ! j = (rs_cells mm ! j)\<lparr>mc_src := (if j < ?n then int j else sr mm j)\<rparr>"
    using own_sources_ok [of ?m1 ?n] mm(2,3) by (auto simp: filled_def)
  have sz: "rs_size m' = rs_size m2" "rs_head m' = 0" "rs_used m' = ?n"
    using mm(2) by (subst m'(2), simp)+
  have src: "sr mm j = - 1" if "j < rs_size m2" for j
    using mm(2,3) that by (simp add: filled_def)
  have "rs_cells m' ! j = (rs_cells mm ! j)\<lparr>mc_src := (if j < ?n then int j else - 1)\<rparr>" if "j < rs_size m'" for j
    using m'(4) src that sz(1) by simp
  note R = filled_restored [OF inv(1) sav(1) _ _ _ mm(3) _ _ _ _ this, unfolded sz, OF sav(2) I2(7,2) mm(2) m'(3) refl refl, folded sz(1)]
  have "rs_state_read_meta n_seq_max n_pos ?n (- 1) (m2, lys2) (concat (map (\<lambda>i. rs_write_cell (- 1) (rs_cells m ! i)) (occ_cells m)) @ rest) =
      Some (True, (m', map rs_clear_layer lys2), rest)"
    using mm(1) m'(1) n by (simp add: rs_state_read_meta_def rs_read_meta_all_def rs_clear_all_def)
  then show ?thesis
    using R sz by (intro exI [of _ m']) simp
qed

lemma memory_roundtrip:
  assumes "rs_inv m" "rs_inv m2" "rs_savable n_seq_max m" "n_seq_max \<le> rs_size m2" "rs_layers_fit (rs_size m) (rs_size m2) lys lys2"
  shows "\<exists>bs m' lys'. rs_state_write m lys (- 1) = Some bs \<and> rs_state_read n_seq_max n_pos (- 1) (m2, lys2) (bs @ rest) = Some (True, (m', lys'), rest) \<and>
    rs_inv m' \<and> rs_size m' = rs_size m2 \<and> coherent zero (mem_states (rs_size m') lys') m' \<and>
    (\<forall>q < n_seq_max. q < rs_size m \<longrightarrow> rs_seq_pos_max (int q) m' = rs_seq_pos_max (int q) m \<and>
       state_of zero (mem_states (rs_size m') lys') m' q = state_of zero (mem_states (rs_size m) lys) m q)"
proof -
  note I = rs_invD [OF assms(1)]
  let ?n = "length (occ_cells m)" and ?meta = "concat (map (\<lambda>i. rs_write_cell (- 1) (rs_cells m ! i)) (occ_cells m))"
  have n: "?n \<le> rs_size m2" "?n < 256 ^ 4"
    using occ_cells_le [OF assms(1,3)] assms(4) rs_invD(7) [OF assms(2)] by auto
  obtain ranges where r: "rs_cell_ranges m (- 1) = Some (?n, ranges)" "ranges_of (rs_size m) (occ_cells m) ranges"
    using rs_ranges_ok [OF I(1), of "- 1" "\<lambda>i. sq m i \<noteq> {}"] by (auto simp: rs_selected_def mc_is_empty_def has_seq_id_def occ_cells_def)
  obtain b where b: "rs_state_write_data lys ranges = Some b"
    using data_restored [of "rs_size m" "m2\<lparr>rs_head := 0\<rparr>" lys lys2 "occ_cells m" ranges] assms(5) r(2) n(1) by auto
  obtain m' where m': "rs_state_read_meta n_seq_max n_pos ?n (- 1) (m2, lys2) (?meta @ b @ rest) = Some (True, (m', map rs_clear_layer lys2), b @ rest)"
    "rs_size m' = rs_size m2" "rs_head m' = 0" "rs_inv m'" "\<And>j. j < rs_size m' \<Longrightarrow> sq m' j = {} \<Longrightarrow> sr m' j = - 1"
    "\<And>q. q < rs_size m' \<Longrightarrow> q < rs_size m \<Longrightarrow> (if tl_of m q = - 1 then tl_of m' q = - 1 else
       \<exists>j < ?n. tl_of m' q = int j \<and> tl_of m q = int (occ_cells m ! j) \<and> ps m' j = ps m (occ_cells m ! j))"
    using meta_all_restored [OF assms(1-4), of n_pos lys2 "b @ rest"] by blast
  have fit: "rs_layers_fit (rs_size m) (rs_size m') lys (map rs_clear_layer lys2)"
    using rs_layers_fit_clear [OF assms(5)] m'(2) by simp
  obtain lys' where l: "rs_state_read_data ?n m' (map rs_clear_layer lys2) (b @ rest) = Some (True, lys', rest)"
    "\<And>k. k < rs_size m' \<Longrightarrow> cell_state lys' k = (if k < ?n then cell_state lys (occ_cells m ! k) else cell_state (map rs_clear_layer lys2) k)"
    using data_restored [OF fit r(2), unfolded m'(3) diff_zero] n(1) m'(2) b by auto
  have st: "rs_seq_pos_max (int q) m' = rs_seq_pos_max (int q) m \<and> state_of zero (mem_states (rs_size m') lys') m' q = state_of zero (mem_states (rs_size m) lys) m q"
    if q: "q < n_seq_max" "q < rs_size m" for q
  proof -
    have q': "q < rs_size m'"
      using q assms(4) m'(2) by simp
    show ?thesis
      using m'(6) [OF q' q(2)] rs_pos_max_view [OF m'(4) q'] rs_pos_max_view [OF assms(1) q(2)] n(1) l(2) m'(2) occ_cells_nth(1) [OF assms(1)]
      by (auto simp: view_def state_of_def mem_states_def split: if_splits)
  qed
  have "rs_state_read n_seq_max n_pos (- 1) (m2, lys2) (enc_uint 4 ?n @ ?meta @ b @ rest) = Some (True, (m', lys'), rest)"
    using m'(1) l(1) n(2) by (simp add: rs_state_read_def uint.dec_enc)
  moreover have "rs_state_write m lys (- 1) = Some (enc_uint 4 ?n @ ?meta @ b)"
    using r b rs_write_meta_eq [OF I(1) r(2), of "- 1"] by (simp add: rs_state_write_def)
  moreover have "coherent zero (mem_states (rs_size m') lys') m'"
    using m'(5) by (fastforce simp: coherent_def mem_states_def)
  ultimately show ?thesis
    using m'(2,4) st by (intro exI [of _ "enc_uint 4 ?n @ ?meta @ b"] exI [of _ m'] exI [of _ lys']) simp
qed

text \<open>C6. Saving and restoring the whole recurrent memory: the state written for a memory is read by any memory with layers of the same kind and
  room for the sequences, whatever it held before and whatever follows in the stream. The memory read into satisfies the invariant, every
  sequence has the last position and, in all layers, the state it had in the memory that was saved, and its cells are ready for the next batch:
  a cell that is empty is not the source of a state.\<close>

theorem recurrent_state_roundtrip:
  assumes "rs_inv m" "rs_inv m2" "rs_savable n_seq_max m" "n_seq_max \<le> rs_size m2" "rs_layers_fit (rs_size m) (rs_size m2) lys lys2"
  shows "\<exists>bs m' lys'. rs_state_write m lys (- 1) = Some bs \<and> rs_state_read n_seq_max n_pos (- 1) (m2, lys2) (bs @ rest) = Some (True, (m', lys'), rest) \<and>
    rs_inv m' \<and> rs_size m' = rs_size m2 \<and> coherent zero (mem_states (rs_size m') lys') m' \<and>
    (\<forall>q < n_seq_max. q < rs_size m \<longrightarrow> rs_seq_pos_max (int q) m' = rs_seq_pos_max (int q) m \<and>
       state_of zero (mem_states (rs_size m') lys') m' q = state_of zero (mem_states (rs_size m) lys) m q)"
  by (rule memory_roundtrip [OF assms])

section \<open>One sequence\<close>

text \<open>Removing a sequence frees its cell; the positions of the other cells stay.\<close>

definition pos_kept :: "memory_recurrent \<Rightarrow> memory_recurrent \<Rightarrow> bool" where
  "pos_kept m m' \<longleftrightarrow> length (rs_cells m') = length (rs_cells m) \<and> (\<forall>j < length (rs_cells m). ps m' j = ps m j \<or> sq m' j = {})"

lemma rm_cell_kept: "i < length (rs_cells m) \<Longrightarrow> pos_kept m (fst x) \<Longrightarrow> pos_kept m (fst (rm_cell s p0 p1 i x))"
  by (cases x) (auto simp: rm_cell_def free_cell_def pos_kept_def rs_upd_nth mc_is_empty_def Let_def)

lemma rm_fold_kept: "set is \<subseteq> {..<length (rs_cells m)} \<Longrightarrow> pos_kept m (fst x) \<Longrightarrow> pos_kept m (fst (fold (rm_cell s p0 p1) is x))"
  by (induction "is" arbitrary: x) (auto simp: rm_cell_kept)

lemma seq_rm_kept:
  assumes "length (rs_cells m) = rs_size m" "rs_seq_rm s p0 p1 m = Some (b, m')"
  shows "pos_kept m m'"
proof -
  have "pos_kept m (lower_rs_head (fold (rm_cell s p p') [0..<rs_size m] (m1, n)))" if "pos_kept m m1" for m1 n p p'
  proof -
    have "pos_kept m (fst (fold (rm_cell s p p') [0..<rs_size m] (m1, n)))"
      using assms(1) that by (intro rm_fold_kept) auto
    then show ?thesis
      by (auto simp: lower_rs_head_def pos_kept_def split: prod.splits)
  qed
  moreover have "pos_kept m m" "pos_kept m (rs_upd q (\<lambda>c. c\<lparr>mc_tail := - 1\<rparr>) m)" for q
    by (auto simp: pos_kept_def rs_upd_nth split: if_splits)
  ultimately show ?thesis
    using assms(2) unfolding rs_seq_rm_def Let_def by (auto simp: bind_Some_iff split: if_splits)
qed

lemma seq_removed:
  assumes inv: "rs_inv m" and q: "q < rs_size m" and pos: "rs_seq_pos_max (int q) m < INT32_MAX"
  shows "\<exists>b m1. rs_seq_rm (int q) (- 1) (- 1) m = Some (b, m1) \<and> moved (\<lambda>r. if r = q then - 1 else tl_of m r) m m1 \<and>
    (\<forall>r < rs_size m. rs_seq_pos_max (int r) m1 = (if r = q then - 1 else rs_seq_pos_max (int r) m))"
proof -
  note I = rs_invD [OF inv]
  obtain b m1 where m1: "rs_seq_rm (int q) (- 1) (- 1) m = Some (b, m1)" "moved (rm_tail (int q) (- 1) (- 1) m) m m1"
    using rs_seq_rm_ok [OF inv, of "int q" "- 1" "- 1"] by auto
  have "ps m (nat (tl_of m q)) < INT32_MAX" if "tl_of m q \<noteq> - 1"
    using pos rs_pos_max_view [OF inv q] that by (simp add: view_def)
  then have mv: "moved (\<lambda>r. if r = q then - 1 else tl_of m r) m m1"
    by (intro moved_cong [OF m1(2)]) (cases "tl_of m q = - 1", auto simp: rm_tail_def pos_lo_def pos_hi_def)
  note J = rs_invD [of m1]
  have inv1: "rs_inv m1" "rs_size m1 = rs_size m"
    using mv by (simp_all add: moved_def)
  have "rs_seq_pos_max (int r) m1 = (if r = q then - 1 else rs_seq_pos_max (int r) m)" if r: "r < rs_size m" for r
  proof (cases "tl_of m1 r = - 1")
    case True
    then show ?thesis
      using mv r rs_pos_max_view [OF inv1(1), of r] rs_pos_max_view [OF inv r] inv1(2) by (auto simp: view_def moved_def split: if_splits)
  next
    case False
    then obtain t where t: "t < rs_size m" "tl_of m1 r = int t" "r \<in> sq m1 t"
      using tailsD [OF rs_invD(3) [OF inv1(1)], of r] r inv1(2) by auto
    then have "ps m1 t = ps m t"
      using seq_rm_kept [OF I(1) m1(1)] I(1) by (auto simp: pos_kept_def)
    then show ?thesis
      using mv r t rs_pos_max_view [OF inv1(1), of r] rs_pos_max_view [OF inv r] inv1(2) by (auto simp: view_def moved_def split: if_splits)
  qed
  then show ?thesis
    using m1(1) mv by blast
qed

text \<open>A slot for one sequence is one cell.\<close>

lemma rs_getD: "rs_get i m = Some c \<Longrightarrow> 0 \<le> i \<and> i < int (length (rs_cells m)) \<and> c = rs_cells m ! nat i"
  by (auto simp: rs_get_def bind_Some_iff)

lemma take_cell_tail:
  assumes "take_cell q e m = Some m1"
  shows "length (rs_cells m1) = length (rs_cells m)" "e < length (rs_cells m)" "q < length (rs_cells m) \<Longrightarrow> tl_of m1 q = int e"
proof -
  obtain m' c where m': "m1 = rs_upd q (\<lambda>c. c\<lparr>mc_tail := int e\<rparr>) m'" "length (rs_cells m') = length (rs_cells m)" "rs_get (int e) m = Some c"
    using assms by (auto simp: take_cell_def bind_Some_iff Let_def split: if_splits)
  show "length (rs_cells m1) = length (rs_cells m)" "q < length (rs_cells m) \<Longrightarrow> tl_of m1 q = int e"
    using m'(2) by (simp_all add: m'(1) rs_upd_nth)
  show "e < length (rs_cells m)"
    using rs_getD [OF m'(3)] by simp
qed

lemma range_seq_tail:
  assumes "range_seq ub s st = Some st'"
  shows "\<exists>t. 0 \<le> t \<and> t < int (length (rs_cells (rg_mem st))) \<and> rg_min st' = min (rg_min st) t \<and> rg_max st' = max (rg_max st) t"
proof -
  obtain q where q: "head_seq ub s = Some q"
    using assms by (cases "head_seq ub s") (simp_all add: range_seq_def)
  obtain c where c: "rs_get q (rg_mem st) = Some c"
    using assms q by (cases "rs_get q (rg_mem st)") (simp_all add: range_seq_def)
  note D = rs_getD [OF c]
  consider cell where "mc_tail c \<ge> 0" "rs_get (mc_tail c) (rg_mem st) = Some cell" "st' = \<lparr>rg_mem = rg_mem st, rg_next = rg_next st, rg_min = min (rg_min st) (mc_tail c), rg_max = max (rg_max st) (mc_tail c)\<rparr>"
    | m1 nx c1 where "take_cell (nat q) (rg_next st) (rg_mem st) = Some m1" "rs_get q m1 = Some c1"
        "st' = \<lparr>rg_mem = m1, rg_next = nx, rg_min = min (rg_min st) (mc_tail c1), rg_max = max (rg_max st) (mc_tail c1)\<rparr>"
    using assms q c by (auto simp: range_seq_def bind_Some_iff Let_def split: if_splits)
  then show ?thesis
  proof cases
    case 1
    then show ?thesis
      using rs_getD [OF 1(2)] by (intro exI [of _ "mc_tail c"]) simp
  next
    case 2
    then show ?thesis
      using take_cell_tail [OF 2(1)] rs_getD [OF 2(2)] D by (intro exI [of _ "mc_tail c1"]) (simp add: nat_less_iff)
  qed
qed

lemma single_slot:
  assumes "rs_inv m" "rs_ubatch (rs_size m) ub" "ub_n_seqs ub = 1" "rs_find_slot ub m = Some (True, m')"
  shows "rs_n m' = 1"
proof -
  define mh where "mh = (if rs_head m > rs_used m + 2 then m\<lparr>rs_head := 0\<rparr> else m)"
  have "rs_inv mh" "rs_size mh = rs_size m"
    using rs_inv_cong [OF assms(1), of mh] rs_invD(2,4) [OF assms(1)] by (auto simp: mh_def)
  then obtain m1 where m1: "share_all ub [0] mh = Some (True, m1)" "rs_inv m1"
    using share_all_ok [of mh ub "[0]"] assms(2,3) by (auto simp: detached_def)
  have *: "nat ((t - t + 1) mod 2 ^ 32) = 1" for t :: int
    by simp
  show ?thesis
    using assms(3,4) rs_invD(1,2) [OF m1(2)] m1(1) unfolding rs_find_slot_def Let_def mh_def
    by (auto simp: bind_Some_iff * dest!: range_seq_tail)
qed

text \<open>The ubatch of one token that stands for the sequence, and what its placement does to the memory.\<close>

definition seq_ubatch :: "nat \<Rightarrow> int \<Rightarrow> int \<Rightarrow> unit llama_ubatch" where
  "seq_ubatch n_pos dest p = \<lparr>ub_equal_seqs = True, ub_n_tokens = 1, ub_n_seq_tokens = 1, ub_n_seqs = 1, ub_n_seqs_unq = 1, ub_n_pos = n_pos,
     ub_token = Some [0], ub_embd = None, ub_pos = (replicate n_pos 0)[0 := p], ub_n_seq_id = [1], ub_seq_id = [[dest]], ub_seq_id_unq = [0],
     ub_seq_idx = ubatch_seq_idx [0], ub_output = [0]\<rparr>"

lemma seq_ubatch_ok:
  assumes "d < n" "0 \<le> p" "0 < n_pos"
  shows "rs_ubatch n (seq_ubatch n_pos (int d) p)" "ub_n_seqs (seq_ubatch n_pos (int d) p) = 1" "seqs_of (seq_ubatch n_pos (int d) p) 0 = [d]"
    "last_pos_of (seq_ubatch n_pos (int d) p) 0 = p" "ubatch_set (seq_ubatch n_pos (int d) p) r = (if r = d then Some 0 else None)"
  using assms by (auto simp: rs_ubatch_def seq_ubatch_def seqs_of_def last_pos_of_def ubatch_set_def list_all_iff in_set_conv_nth nth_list_update nth_Cons')

lemma seq_placed:
  assumes inv: "rs_inv m" and d: "d < rs_size m" and p: "0 \<le> p" "0 < n_pos" and c: "coherent zero ss m"
  shows "\<exists>m' a. rs_find_slot (seq_ubatch n_pos (int d) p) m = Some (True, m') \<and> rs_inv m' \<and> rs_size m' = rs_size m \<and> rs_head m' = a \<and> a < rs_size m \<and>
    rs_check_placed 1 (int d) (seq_ubatch n_pos (int d) p) m' = Some () \<and> rs_own_sources 1 m' = Some m' \<and>
    (\<forall>r < rs_size m. rs_seq_pos_max (int r) m' = (if r = d then p else rs_seq_pos_max (int r) m)) \<and>
    (\<forall>x. coherent zero (ss[a := x]) m' \<and>
       (\<forall>r < rs_size m. state_of zero (ss[a := x]) m' r = (if r = d then x else state_of zero ss m r)))"
proof -
  let ?ub = "seq_ubatch n_pos (int d) p"
  note u = seq_ubatch_ok [OF d p]
  obtain h m1 a b P m2 m3 m' where run: "rs_find_slot ?ub m = Some (True, m')" "slot_run ?ub m h m1 a b P m2 m3 m'"
    using find_slot_found [OF inv u(1)] inv u(1) by (auto simp: slot_run_def)
  note D = slot_runD [OF run(2)] and C = slot_cells [OF run(2)] and inv' = slot_inv [OF run(2)]
  have "rs_n m' = 1"
    by (rule single_slot [OF inv u(1,2) run(1)])
  then have ab: "rs_head m' = a" "b = a" "a < rs_size m"
    using run(2) D(15,16) u(2) by (auto simp: slot_run_def staged_def)
  have cell: "sq m' a = {d}" "ps m' a = p"
    using C(1) [of 0] u by auto
  then have src: "sr m' a = int a"
    using rs_invD(5) [OF inv', of a] ab(3) D(7) by (simp add: cell_ok_def)
  have len: "length (rs_cells m') = rs_size m"
    by (rule D(10))
  have "rs_check_placed 1 (int d) ?ub m' = Some ()"
    using ab len cell D(7) p(2) by (simp add: rs_check_placed_def rs_get_nat has_seq_id_def seq_ubatch_def)
  moreover have "(rs_cells m' ! a)\<lparr>mc_src := int a\<rparr> = rs_cells m' ! a"
    using src by (cases "rs_cells m' ! a") simp
  then have "rs_own_sources 1 m' = Some m'"
    using ab len by (simp add: rs_own_sources_def rs_get_nat rs_upd_def Let_def)
  moreover have "coherent zero (ss[a := x]) m' \<and> (\<forall>r < rs_size m. state_of zero (ss[a := x]) m' r = (if r = d then x else state_of zero ss m r))"
    for x
  proof -
    have l: "length (ss[a := x]) = rs_size m" "length [x] = ub_n_seqs ?ub"
      using c u(2) by (simp_all add: coherent_def)
    have ext: "(ss[a := x]) ! j = row_val zero ss m2 j" if "a + ub_n_seqs ?ub \<le> j" "j \<le> b" for j
      using that u(2) ab(2) by simp
    have rest: "(ss[a := x]) ! j = ss ! j" if "j < rs_size m" "j < a \<or> b < j" for j
      using that ab(2) by auto
    have new: "(ss[a := x]) ! (a + s) = [x] ! s" if "s < ub_n_seqs ?ub" for s
      using that u(2) ab(3) l(1) by simp
    note S = slot_states [OF run(2) c l ext rest new]
    show ?thesis
      using S u(5) by simp
  qed
  moreover have "rs_seq_pos_max (int r) m' = (if r = d then p else rs_seq_pos_max (int r) m)" if "r < rs_size m" for r
    using slot_positions [OF run(2) that] u(4,5) by simp
  ultimately show ?thesis
    using run(1) inv' D(7) ab by blast
qed

lemma filter_one: "t < n \<Longrightarrow> (\<And>i. i < n \<Longrightarrow> Q i \<longleftrightarrow> i = t) \<Longrightarrow> filter Q [0..<n] = [t]"
proof -
  assume t: "t < n" "\<And>i. i < n \<Longrightarrow> Q i \<longleftrightarrow> i = t"
  have "filter (\<lambda>i. i = t) [0..<n] = [t]"
    using t(1) by (induction n) (auto simp: less_Suc_eq)
  moreover have "filter Q [0..<n] = filter (\<lambda>i. i = t) [0..<n]"
    using t(2) by (intro filter_cong) auto
  ultimately show ?thesis
    by simp
qed

lemma seq_cells:
  assumes inv: "rs_inv m" and q: "q < rs_size m"
  shows "filter (\<lambda>i. q \<in> sq m i) [0..<rs_size m] = (if tl_of m q = - 1 then [] else [nat (tl_of m q)])"
proof (cases "tl_of m q = - 1")
  case True
  then show ?thesis
    using tails_mem [OF rs_invD(3) [OF inv], of _ q] by (auto simp: filter_empty_conv)
next
  case False
  then obtain t where t: "t < rs_size m" "tl_of m q = int t" "q \<in> sq m t"
    using tailsD [OF rs_invD(3) [OF inv] q] by auto
  then show ?thesis
    using filter_one [OF t(1), of "\<lambda>i. q \<in> sq m i"] tails_unique [OF rs_invD(3) [OF inv] _ t(1) _ t(3)] False by (metis nat_int)
qed

lemma seq_restored:
  assumes inv: "rs_inv m" "rs_inv m2" and d: "d < rs_size m2" "rs_seq_pos_max (int d) m2 < INT32_MAX" and p: "0 \<le> p" "p \<le> INT32_MAX" "0 < n_pos"
    and c: "coherent zero ss m2"
  shows "\<exists>m' a. rs_state_read_meta n_seq_max n_pos 1 (int d) (m2, lys2) (enc_i32 p @ enc_uint 4 0 @ rest) = Some (True, (m', lys2), rest) \<and>
    rs_inv m' \<and> rs_size m' = rs_size m2 \<and> rs_head m' = a \<and> a < rs_size m2 \<and>
    (\<forall>r < rs_size m2. rs_seq_pos_max (int r) m' = (if r = d then p else rs_seq_pos_max (int r) m2)) \<and>
    (\<forall>x. coherent zero (ss[a := x]) m' \<and>
       (\<forall>r < rs_size m2. state_of zero (ss[a := x]) m' r = (if r = d then x else state_of zero ss m2 r)))"
proof -
  obtain b m1 where m1: "rs_seq_rm (int d) (- 1) (- 1) m2 = Some (b, m1)" "moved (\<lambda>r. if r = d then - 1 else tl_of m2 r) m2 m1"
    "\<And>r. r < rs_size m2 \<Longrightarrow> rs_seq_pos_max (int r) m1 = (if r = d then - 1 else rs_seq_pos_max (int r) m2)"
    using seq_removed [OF inv(2) d] by blast
  have s1: "rs_inv m1" "rs_size m1 = rs_size m2"
    using m1(2) by (simp_all add: moved_def)
  have c1: "coherent zero ss m1" "r < rs_size m2 \<Longrightarrow> r \<noteq> d \<Longrightarrow> state_of zero ss m1 r = state_of zero ss m2 r"
    for r
    using m1(2) c by (auto simp: moved_def coherent_def state_of_def)
  have d1: "d < rs_size m1"
    using d(1) s1(2) by simp
  obtain m' a where m': "rs_find_slot (seq_ubatch n_pos (int d) p) m1 = Some (True, m')" "rs_inv m'" "rs_size m' = rs_size m1" "rs_head m' = a" "a < rs_size m1"
    "rs_check_placed 1 (int d) (seq_ubatch n_pos (int d) p) m' = Some ()" "rs_own_sources 1 m' = Some m'"
    "\<And>r. r < rs_size m1 \<Longrightarrow> rs_seq_pos_max (int r) m' = (if r = d then p else rs_seq_pos_max (int r) m1)"
    "\<And>x. coherent zero (ss[a := x]) m' \<and>
       (\<forall>r < rs_size m1. state_of zero (ss[a := x]) m' r = (if r = d then x else state_of zero ss m1 r))"
    using seq_placed [OF s1(1) d1 p(1,3) c1(1)] by blast
  have "in_i32 p"
    using p by (simp add: in_i32_def INT32_MIN_def)
  moreover have "ub0\<lparr>ub_pos := (ub_pos ub0)[0 := p], ub_n_seq_id := (ub_n_seq_id ub0)[0 := 1], ub_seq_id := (ub_seq_id ub0)[0 := [int d]]\<rparr> = seq_ubatch n_pos (int d) p
      \<and> 0 < length (ub_pos ub0)"
    if "ubatch_reserve 1 1 (allocr_new n_pos) = Some (ub0, al)" for ub0 and al :: "unit batch_allocr"
    using that p(3) by (auto simp: ubatch_reserve_def seq_ubatch_def allocr_new_def allocr_clear_def split_reset_def Let_def bind_Some_iff)
  moreover have "\<exists>ub0 al. ubatch_reserve 1 1 (allocr_new n_pos :: unit batch_allocr) = Some (ub0, al)"
    by (simp add: ubatch_reserve_def LLAMA_MAX_SEQ_def Let_def)
  ultimately have "rs_read_meta_seq n_pos 1 (int d) m2 (enc_i32 p @ enc_uint 4 0 @ rest) = Some (True, m', rest)"
    using m1(1) m'(1,6) by (auto simp: rs_read_meta_seq_def int32.dec_enc uint.dec_enc)
  then have "rs_state_read_meta n_seq_max n_pos 1 (int d) (m2, lys2) (enc_i32 p @ enc_uint 4 0 @ rest) = Some (True, (m', lys2), rest)"
    using m'(7) by (simp add: rs_state_read_meta_def)
  then show ?thesis
    using m' m1(3) c1 s1 by (intro exI [of _ m'] exI [of _ a]) simp
qed

lemma seq_data_restored:
  assumes fit: "rs_layers_fit n (rs_size m') lys lys2" and r: "ranges_of n occ ranges" and occ: "occ = [] \<or> occ = [t]"
    and room: "rs_head m' < rs_size m'"
  shows "\<exists>b. rs_state_write_data lys ranges = Some b \<and> (\<forall>rest. \<exists>lys'. rs_state_read_data (length occ) m' lys2 (b @ rest) = Some (True, lys', rest) \<and>
    mem_states (rs_size m') lys' = (if occ = [] then mem_states (rs_size m') lys2 else (mem_states (rs_size m') lys2)[rs_head m' := cell_state lys t]))"
proof -
  have "rs_head m' + length occ \<le> rs_size m'"
    using occ room by auto
  then obtain b where b: "rs_state_write_data lys ranges = Some b"
    "\<And>rest. \<exists>lys'. rs_state_read_data (length occ) m' lys2 (b @ rest) = Some (True, lys', rest) \<and> (\<forall>k < rs_size m'. cell_state lys' k =
      (if rs_head m' \<le> k \<and> k < rs_head m' + length occ then cell_state lys (occ ! (k - rs_head m')) else cell_state lys2 k))"
    using data_restored [OF fit r] by blast
  have "\<exists>lys'. rs_state_read_data (length occ) m' lys2 (b @ rest) = Some (True, lys', rest) \<and>
    mem_states (rs_size m') lys' = (if occ = [] then mem_states (rs_size m') lys2 else (mem_states (rs_size m') lys2)[rs_head m' := cell_state lys t])" for rest
  proof -
    obtain lys' where l: "rs_state_read_data (length occ) m' lys2 (b @ rest) = Some (True, lys', rest)" "\<And>k. k < rs_size m' \<Longrightarrow> cell_state lys' k =
      (if rs_head m' \<le> k \<and> k < rs_head m' + length occ then cell_state lys (occ ! (k - rs_head m')) else cell_state lys2 k)"
      using b(2) by blast
    have "mem_states (rs_size m') lys' = (if occ = [] then mem_states (rs_size m') lys2 else (mem_states (rs_size m') lys2)[rs_head m' := cell_state lys t])"
      using l(2) occ by (intro nth_equalityI) (auto simp: mem_states_def nth_list_update)
    then show ?thesis
      using l(1) by blast
  qed
  then show ?thesis
    using b(1) by blast
qed

text \<open>C8. Saving one sequence of a recurrent memory and restoring it as a sequence of another memory (or the same): the
  target sequence gets the last position and, in all layers, the state of the saved sequence, or loses what it had if the saved sequence was
  empty; every other sequence of the target memory keeps its position and its state, and the invariant holds.\<close>

theorem recurrent_seq_roundtrip:
  assumes "rs_inv m" "rs_inv m2" "q < rs_size m" "d < rs_size m2" "rs_seq_pos_max (int q) m \<le> INT32_MAX" "rs_seq_pos_max (int d) m2 < INT32_MAX" "0 < n_pos"
    "rs_layers_fit (rs_size m) (rs_size m2) lys lys2" "coherent zero (mem_states (rs_size m2) lys2) m2"
  shows "\<exists>bs m' lys'. rs_state_write m lys (int q) = Some bs \<and> rs_state_read n_seq_max n_pos (int d) (m2, lys2) (bs @ rest) = Some (True, (m', lys'), rest) \<and>
    rs_inv m' \<and> rs_size m' = rs_size m2 \<and> coherent zero (mem_states (rs_size m') lys') m' \<and>
    (\<forall>r < rs_size m2. rs_seq_pos_max (int r) m' = (if r = d then rs_seq_pos_max (int q) m else rs_seq_pos_max (int r) m2) \<and>
       state_of zero (mem_states (rs_size m') lys') m' r =
         (if r = d then state_of zero (mem_states (rs_size m) lys) m q else state_of zero (mem_states (rs_size m2) lys2) m2 r))"
proof -
  note I = rs_invD [OF assms(1)]
  let ?occ = "filter (\<lambda>i. q \<in> sq m i) [0..<rs_size m]" and ?meta = "\<lambda>i. rs_write_cell (int q) (rs_cells m ! i)"
  note occ = seq_cells [OF assms(1,3)]
  obtain ranges where r: "rs_cell_ranges m (int q) = Some (length ?occ, ranges)" "ranges_of (rs_size m) ?occ ranges"
    using rs_ranges_ok [OF I(1), of "int q" "\<lambda>i. q \<in> sq m i"] by (auto simp: rs_selected_def has_seq_id_def)
  have w: "rs_state_write m lys (int q) = Some (enc_uint 4 (length ?occ) @ concat (map ?meta ?occ) @ b)" if "rs_state_write_data lys ranges = Some b" for b
    using r that rs_write_meta_eq [OF I(1) r(2), of "int q"] by (simp add: rs_state_write_def)
  have pos: "rs_seq_pos_max (int q) m = (if tl_of m q = - 1 then - 1 else ps m (nat (tl_of m q)))"
    using rs_pos_max_view [OF assms(1,3)] by (simp add: view_def)
  show ?thesis
  proof (cases "tl_of m q = - 1")
    case True
    obtain b m1 where m1: "rs_seq_rm (int d) (- 1) (- 1) m2 = Some (b, m1)" "moved (\<lambda>r. if r = d then - 1 else tl_of m2 r) m2 m1"
      "\<And>r. r < rs_size m2 \<Longrightarrow> rs_seq_pos_max (int r) m1 = (if r = d then - 1 else rs_seq_pos_max (int r) m2)"
      using seq_removed [OF assms(2,4,6)] by blast
    have s1: "rs_inv m1" "rs_size m1 = rs_size m2"
      using m1(2) by (simp_all add: moved_def)
    have st: "coherent zero (mem_states (rs_size m2) lys2) m1" "\<And>r. r < rs_size m2 \<Longrightarrow> state_of zero (mem_states (rs_size m2) lys2) m1 r =
        (if r = d then zero else state_of zero (mem_states (rs_size m2) lys2) m2 r)"
      using m1(2) assms(9) by (auto simp: moved_def coherent_def state_of_def)
    have D: "\<exists>b. rs_state_write_data lys ranges = Some b \<and> (\<forall>rest. \<exists>lys'. rs_state_read_data 0 m1 lys2 (b @ rest) = Some (True, lys', rest) \<and>
        mem_states (rs_size m1) lys' = mem_states (rs_size m1) lys2)"
      using seq_data_restored [of "rs_size m" m1 lys lys2 ?occ ranges 0] assms(8) r(2) s1 rs_invD(4) [OF s1(1)] True unfolding occ by simp
    obtain dat lys' where l: "rs_state_write_data lys ranges = Some dat" "rs_state_read_data 0 m1 lys2 (dat @ rest) = Some (True, lys', rest)"
      "mem_states (rs_size m1) lys' = mem_states (rs_size m1) lys2"
      using D by blast
    have "rs_state_read n_seq_max n_pos (int d) (m2, lys2) (enc_uint 4 0 @ dat @ rest) = Some (True, (m1, lys'), rest)"
      using m1(1) l(2) by (simp add: rs_state_read_def rs_state_read_meta_def rs_read_meta_seq_def rs_own_sources_def uint.dec_enc)
    then show ?thesis
      using w [OF l(1)] True occ pos st s1 m1(3) l(3) by (intro exI [of _ "enc_uint 4 0 @ dat"] exI [of _ m1] exI [of _ lys']) (simp add: state_of_def)
  next
    case False
    then obtain t where t: "t < rs_size m" "tl_of m q = int t" "q \<in> sq m t"
      using tailsD [OF I(3) assms(3)] by auto
    have p: "0 \<le> ps m t" "ps m t \<le> INT32_MAX"
      using I(5) [OF t(1)] t pos assms(5) by (auto simp: cell_ok_def split: if_splits)
    obtain dat where dat: "rs_state_write_data lys ranges = Some dat"
      using seq_data_restored [of "rs_size m" m2 lys lys2 ?occ ranges t] assms(8) r(2) rs_invD(4) [OF assms(2)] t(2) unfolding occ by auto
    obtain m' a where m': "rs_state_read_meta n_seq_max n_pos 1 (int d) (m2, lys2) (enc_i32 (ps m t) @ enc_uint 4 0 @ dat @ rest) = Some (True, (m', lys2), dat @ rest)"
      "rs_inv m'" "rs_size m' = rs_size m2" "rs_head m' = a" "a < rs_size m2"
      "\<And>r. r < rs_size m2 \<Longrightarrow> rs_seq_pos_max (int r) m' = (if r = d then ps m t else rs_seq_pos_max (int r) m2)"
      "\<And>x. coherent zero ((mem_states (rs_size m2) lys2)[a := x]) m' \<and> (\<forall>r < rs_size m2. state_of zero ((mem_states (rs_size m2) lys2)[a := x]) m' r =
         (if r = d then x else state_of zero (mem_states (rs_size m2) lys2) m2 r))"
      using seq_restored [OF assms(1,2,4,6) p assms(7,9), of n_seq_max lys2 "dat @ rest"] by blast
    obtain lys' where l: "rs_state_read_data 1 m' lys2 (dat @ rest) = Some (True, lys', rest)"
      "mem_states (rs_size m') lys' = (mem_states (rs_size m') lys2)[a := cell_state lys t]"
      using seq_data_restored [of "rs_size m" m' lys lys2 ?occ ranges t] assms(8) r(2) m'(3,4,5) t(2) dat unfolding occ by auto
    have "rs_state_read n_seq_max n_pos (int d) (m2, lys2) (enc_uint 4 1 @ ?meta t @ dat @ rest) = Some (True, (m', lys'), rest)"
      using m'(1) l(1) by (simp add: rs_state_read_def rs_write_cell_def uint.dec_enc)
    moreover have "rs_state_write m lys (int q) = Some (enc_uint 4 1 @ ?meta t @ dat)"
      using w [OF dat] occ t(2) by simp
    moreover have "state_of zero (mem_states (rs_size m) lys) m q = cell_state lys t"
      using t by (simp add: state_of_def mem_states_def)
    ultimately show ?thesis
      using m' l(2) pos t(2) by (intro exI [of _ "enc_uint 4 1 @ ?meta t @ dat"] exI [of _ m'] exI [of _ lys']) simp
  qed
qed

section \<open>A state that does not fit\<close>

definition same_size :: "memory_recurrent \<Rightarrow> memory_recurrent \<Rightarrow> bool" where
  "same_size m m' \<longleftrightarrow> rs_size m' = rs_size m \<and> length (rs_cells m') = length (rs_cells m)"

lemma read_ids_size: "rs_read_ids n_seq_max i k m bs = Some (ok, m', r) \<Longrightarrow> same_size m m'"
proof (induction k arbitrary: m bs)
  case (Suc k)
  from Suc.prems show ?case
    by (auto simp: bind_Some_iff Let_def same_size_def split: if_splits dest!: Suc.IH)
qed (simp add: same_size_def)

lemma read_cells_size: "rs_read_cells n_seq_max is m bs = Some (ok, m', r) \<Longrightarrow> same_size m m'"
proof (induction "is" arbitrary: m bs)
  case (Cons i "is")
  from Cons.prems show ?case
    by (auto simp: bind_Some_iff same_size_def split: if_splits dest!: read_ids_size Cons.IH)
qed (simp add: same_size_def)

lemma own_sources_size: "rs_own_sources n m = Some m' \<Longrightarrow> same_size m m'"
  unfolding rs_own_sources_def
  by (erule mfold_partial) (auto simp: same_size_def bind_Some_iff Let_def)

lemma meta_all_size:
  assumes "rs_state_read_meta n_seq_max n_pos cell_count (- 1) st bs = Some (ok, st', r)"
  shows "same_size (fst st) (fst st')"
  using assms
  by (auto simp: rs_state_read_meta_def rs_read_meta_all_def rs_clear_all_def rs_clear_def bind_Some_iff Let_def same_size_def
      split: if_splits prod.splits dest!: read_cells_size own_sources_size)

lemma clear_inv:
  assumes "length (rs_cells m) = rs_size m" "0 < rs_size m" "rs_size m < 2 ^ 31"
  shows "rs_inv (rs_clear m)" "rs_seq_pos_max q (rs_clear m) = - 1"
proof -
  have "Recurrent_Inv.occupied (rs_clear m) = {}"
    using assms(1) by (auto simp: Recurrent_Inv.occupied_def rs_clear_def)
  then show "rs_inv (rs_clear m)"
    using assms by (simp add: rs_inv_def tails_ok_def cell_ok_def rs_clear_def)
  show "rs_seq_pos_max q (rs_clear m) = - 1"
    unfolding rs_seq_pos_max_def by (rule fold_max_none) (simp add: rs_clear_def has_seq_id_def)
qed

text \<open>A state of the whole memory that does not fit (too many cells, a sequence out of range or with two cells, another number of layers, another
  type or row size): when reading reports the failure, whatever the stream held, the memory is empty, satisfies the invariant, and no
  sequence has a position or anything but the zeroed state; nothing of the half-read state remains.\<close>

theorem recurrent_read_failure_clears:
  assumes "rs_inv m" "rs_state_read n_seq_max n_pos (- 1) (m, lys) bs = Some (False, (m', lys'), rest)"
  shows "rs_inv m' \<and> rs_size m' = rs_size m \<and> (\<forall>q < rs_size m. rs_seq_pos_max (int q) m' = - 1 \<and> state_of zero ss m' q = zero) \<and>
    (\<exists>lys0. lys' = map rs_clear_layer lys0)"
proof -
  obtain m0 lys0 where m0: "same_size m m0" "m' = rs_clear m0" "lys' = map rs_clear_layer lys0"
    using assms(2) by (auto simp: rs_state_read_def rs_read_failed_def rs_clear_all_def bind_Some_iff split: if_splits dest!: meta_all_size)
  note I = rs_invD [OF assms(1)]
  have sz: "length (rs_cells m0) = rs_size m0" "rs_size m0 = rs_size m"
    using m0(1) I(1) by (simp_all add: same_size_def)
  have "state_of zero ss m' q = zero" if "q < rs_size m" for q
    using that sz unfolding m0(2) by (simp add: state_of_def rs_clear_def)
  then show ?thesis
    using clear_inv [of m0] sz I(2,7) m0(2,3) by (auto simp: rs_clear_def)
qed

section \<open>Examples\<close>

definition rs_demo_layer :: "nat \<Rightarrow> rs_layer" where
  "rs_demo_layer x = \<lparr>rl_r = Some \<lparr>tn_type = 0, tn_row = 2, tn_el = 1, tn_data = [x, x + 1, 0, 0]\<rparr>,
     rl_s = Some \<lparr>tn_type = 0, tn_row = 1, tn_el = 1, tn_data = [x + 7, 0]\<rparr>\<rparr>"

lemma rs_demo_layers_fit: "rs_layers_fit (rs_size rs_demo) (rs_size (rs_new 2)) [rs_demo_layer 1] [rs_demo_layer 50]"
  by (simp add: rs_layers_fit_def rs_demo_layer_def rs_demo_def rs_new_def in_i32_def INT32_MIN_def INT32_MAX_def)

theorem recurrent_state_roundtrip_witness:
  "\<exists>bs m' lys'. rs_state_write rs_demo [rs_demo_layer 1] (- 1) = Some bs \<and>
     rs_state_read 2 1 (- 1) (rs_new 2, [rs_demo_layer 50]) (bs @ []) = Some (True, (m', lys'), []) \<and> rs_seq_pos_max 1 m' = 0 \<and>
     state_of [] (mem_states (rs_size m') lys') m' 1 = [([1, 2], [8])]"
proof -
  have sav: "rs_savable 2 rs_demo"
    by (auto simp: rs_savable_def rs_demo_def INT32_MAX_def)
  have new: "rs_inv (rs_new 2)" "2 \<le> rs_size (rs_new 2)"
    by (rule rs_new_inv, simp_all add: rs_new_def)
  obtain bs m' lys' where r: "rs_state_write rs_demo [rs_demo_layer 1] (- 1) = Some bs"
    "rs_state_read 2 1 (- 1) (rs_new 2, [rs_demo_layer 50]) (bs @ []) = Some (True, (m', lys'), [])"
    "\<forall>q < 2. q < rs_size rs_demo \<longrightarrow> rs_seq_pos_max (int q) m' = rs_seq_pos_max (int q) rs_demo \<and>
       state_of [] (mem_states (rs_size m') lys') m' q = state_of [] (mem_states (rs_size rs_demo) [rs_demo_layer 1]) rs_demo q"
    using recurrent_state_roundtrip [OF rs_demo_inv new(1) sav new(2) rs_demo_layers_fit, of 1 "[]" "[]"] by (elim exE conjE)
  have "rs_seq_pos_max 1 rs_demo = 0" "state_of [] (mem_states (rs_size rs_demo) [rs_demo_layer 1]) rs_demo 1 = [([1, 2], [8])]" "1 < rs_size rs_demo"
    by code_simp+
  then show ?thesis
    using r(1,2) r(3) [rule_format, of 1] by auto
qed

theorem recurrent_seq_roundtrip_witness:
  "\<exists>bs m' lys'. rs_state_write rs_demo [rs_demo_layer 1] 1 = Some bs \<and>
     rs_state_read 2 1 0 (rs_new 2, [rs_demo_layer 50]) (bs @ []) = Some (True, (m', lys'), []) \<and> rs_seq_pos_max 0 m' = 0 \<and> rs_seq_pos_max 1 m' = - 1 \<and>
     state_of [] (mem_states (rs_size m') lys') m' 0 = [([1, 2], [8])] \<and> state_of [] (mem_states (rs_size m') lys') m' 1 = []"
proof -
  have c: "coherent [] (mem_states (rs_size (rs_new 2)) [rs_demo_layer 50]) (rs_new 2)"
    by (auto simp: coherent_def rs_new_def mem_states_def mc_new_def less_2_cases_iff)
  have new: "rs_inv (rs_new 2)"
    by (rule rs_new_inv) simp_all
  have H: "1 < rs_size rs_demo" "0 < rs_size (rs_new 2)" "rs_seq_pos_max (int 1) rs_demo \<le> INT32_MAX" "rs_seq_pos_max (int 0) (rs_new 2) < INT32_MAX"
    by code_simp+
  obtain bs m' lys' where r: "rs_state_write rs_demo [rs_demo_layer 1] (int 1) = Some bs"
    "rs_state_read 2 1 (int 0) (rs_new 2, [rs_demo_layer 50]) (bs @ []) = Some (True, (m', lys'), [])"
    "\<forall>r < rs_size (rs_new 2). rs_seq_pos_max (int r) m' = (if r = 0 then rs_seq_pos_max (int 1) rs_demo else rs_seq_pos_max (int r) (rs_new 2)) \<and>
       state_of [] (mem_states (rs_size m') lys') m' r = (if r = 0 then state_of [] (mem_states (rs_size rs_demo) [rs_demo_layer 1]) rs_demo 1
         else state_of [] (mem_states (rs_size (rs_new 2)) [rs_demo_layer 50]) (rs_new 2) r)"
    using recurrent_seq_roundtrip [OF rs_demo_inv new H zero_less_one rs_demo_layers_fit c, of 2 "[]"] by (elim exE conjE)
  have "rs_seq_pos_max 1 rs_demo = 0" "state_of [] (mem_states (rs_size rs_demo) [rs_demo_layer 1]) rs_demo 1 = [([1, 2], [8])]" "rs_size (rs_new 2) = 2"
    "rs_seq_pos_max 1 (rs_new 2) = - 1" "state_of [] (mem_states (rs_size (rs_new 2)) [rs_demo_layer 50]) (rs_new 2) 1 = []"
    by code_simp+
  then show ?thesis
    using r(1,2) r(3) [rule_format, of 0] r(3) [rule_format, of 1] by simp
qed

theorem recurrent_read_failure_clears_witness:
  "case rs_state_read 2 1 (- 1) (rs_demo, [rs_demo_layer 1]) (enc_uint 4 3) of None \<Rightarrow> False | Some (ok, (m', _), _) \<Rightarrow> \<not> ok \<and> rs_seq_pos_max 0 m' = - 1"
proof -
  have "case rs_state_read 2 1 (- 1) (rs_demo, [rs_demo_layer 1]) (enc_uint 4 3) of None \<Rightarrow> False | Some (ok, _, _) \<Rightarrow> \<not> ok"
    by code_simp
  then obtain m' lys' r where r: "rs_state_read 2 1 (- 1) (rs_demo, [rs_demo_layer 1]) (enc_uint 4 3) = Some (False, (m', lys'), r)"
    by (auto split: option.splits)
  have "0 < rs_size rs_demo"
    by code_simp
  then show ?thesis
    using r recurrent_read_failure_clears [OF rs_demo_inv r] by force
qed

end
