(* ===== verification/Combined.thy ===== *)
theory Combined
  imports Recurrent_State
begin

text \<open>
  The memories that combine others: \<open>llama_kv_cache_iswa\<close> (a cache for the layers with full attention and one for the
  layers with a sliding window), \<open>llama_memory_hybrid\<close> (a cache and a recurrent memory) and \<open>llama_memory_hybrid_iswa\<close>
  (\<open>src/src/llama-kv-cache-iswa.cpp\<close>, \<open>llama-memory-hybrid.cpp\<close>, \<open>llama-memory-hybrid-iswa.cpp\<close>). Every operation is
  forwarded to both parts. A pointer to a context of a part that is null after a failure is \<open>None\<close>. The locale
  \<open>memory_pair\<close> is the contract of a memory that forwards to two others; each of the three memories is an instance.
\<close>

section \<open>The cache with a sliding window\<close>

record kv_iswa =
  iw_base :: kv_cache
  iw_swa :: kv_cache
  iw_unified :: bool

text \<open>\<open>GGML_PAD\<close> to a multiple of 256 in unsigned arithmetic.\<close>

definition pad256 :: "nat \<Rightarrow> nat" where
  "pad256 x = (x + 255) mod 2 ^ 32 div 256 * 256"

definition iswa_size_swa :: "bool \<Rightarrow> bool \<Rightarrow> nat \<Rightarrow> nat \<Rightarrow> nat \<Rightarrow> nat \<Rightarrow> nat" where
  "iswa_size_swa swa_full unified size_base n_swa n_seq_max n_ubatch =
     (if swa_full then size_base
      else pad256 (min size_base ((n_swa * (if unified then n_seq_max else 1) + n_ubatch) mod 2 ^ 32)))"

text \<open>Whether the rotation of K and the paging of V are used is decided for each of the caches.\<close>

definition iswa_new ::
  "bool \<Rightarrow> bool \<Rightarrow> nat \<Rightarrow> nat \<Rightarrow> nat \<Rightarrow> nat \<Rightarrow> nat \<Rightarrow> swa_type \<Rightarrow> bool \<Rightarrow> nat \<Rightarrow> bool \<Rightarrow> bool \<Rightarrow> bool \<times> bool \<Rightarrow> bool \<times> bool \<Rightarrow> kv_iswa option" where
  "iswa_new swa_full unified kv_size n_seq_max n_ubatch n_pad n_swa swa v_trans n_pos step35 rope_none rp_base rp_swa = do {
     base \<leftarrow> kv_new unified kv_size n_seq_max n_pad 0 SWA_NONE v_trans n_pos step35 rope_none (fst rp_base) (snd rp_base);
     win \<leftarrow> kv_new unified (iswa_size_swa swa_full unified kv_size n_swa n_seq_max n_ubatch) n_seq_max n_pad n_swa swa
       v_trans n_pos step35 rope_none (fst rp_swa) (snd rp_swa);
     Some \<lparr>iw_base = base, iw_swa = win, iw_unified = unified\<rparr> }"

definition iswa_clear :: "bool \<Rightarrow> kv_iswa \<Rightarrow> kv_iswa" where
  "iswa_clear data m = m\<lparr>iw_base := kv_clear data (iw_base m), iw_swa := kv_clear data (iw_swa m)\<rparr>"

definition iswa_seq_rm :: "int \<Rightarrow> int \<Rightarrow> int \<Rightarrow> kv_iswa \<Rightarrow> (bool \<times> kv_iswa) option" where
  "iswa_seq_rm seq_id p0 p1 m = do {
     (r0, b) \<leftarrow> kv_seq_rm seq_id p0 p1 (iw_base m);
     (r1, s) \<leftarrow> kv_seq_rm seq_id p0 p1 (iw_swa m);
     Some (r0 \<and> r1, m\<lparr>iw_base := b, iw_swa := s\<rparr>) }"

text \<open>The other sequence operations run on the base cache first, then on the other one.\<close>

definition iswa_both :: "(kv_cache \<Rightarrow> kv_cache option) \<Rightarrow> kv_iswa \<Rightarrow> kv_iswa option" where
  "iswa_both f m = do { b \<leftarrow> f (iw_base m); s \<leftarrow> f (iw_swa m); Some (m\<lparr>iw_base := b, iw_swa := s\<rparr>) }"

definition iswa_seq_cp :: "int \<Rightarrow> int \<Rightarrow> int \<Rightarrow> int \<Rightarrow> kv_iswa \<Rightarrow> kv_iswa option" where
  "iswa_seq_cp src dst p0 p1 = iswa_both (kv_seq_cp src dst p0 p1)"

definition iswa_seq_keep :: "int \<Rightarrow> kv_iswa \<Rightarrow> kv_iswa option" where
  "iswa_seq_keep seq_id = iswa_both (kv_seq_keep seq_id)"

definition iswa_seq_add :: "int \<Rightarrow> int \<Rightarrow> int \<Rightarrow> int \<Rightarrow> kv_iswa \<Rightarrow> kv_iswa option" where
  "iswa_seq_add seq_id p0 p1 shift = iswa_both (kv_seq_add seq_id p0 p1 shift)"

definition iswa_seq_div :: "int \<Rightarrow> int \<Rightarrow> int \<Rightarrow> int \<Rightarrow> kv_iswa \<Rightarrow> kv_iswa option" where
  "iswa_seq_div seq_id p0 p1 d = iswa_both (kv_seq_div seq_id p0 p1 d)"

definition iswa_seq_pos_min :: "int \<Rightarrow> kv_iswa \<Rightarrow> int option" where
  "iswa_seq_pos_min seq_id m = kv_seq_pos_min seq_id (iw_swa m)"

definition iswa_seq_pos_max :: "int \<Rightarrow> kv_iswa \<Rightarrow> int option" where
  "iswa_seq_pos_max seq_id m = kv_seq_pos_max seq_id (iw_swa m)"

definition iswa_can_shift :: "kv_iswa \<Rightarrow> bool" where
  "iswa_can_shift m \<longleftrightarrow> get_can_shift (iw_base m) \<and> get_can_shift (iw_swa m) \<and> get_size (iw_base m) = get_size (iw_swa m)"

definition iswa_exec :: "mem_op \<Rightarrow> kv_iswa \<Rightarrow> kv_iswa option" where
  "iswa_exec op m = (case op of
       Op_Clear data \<Rightarrow> Some (iswa_clear data m)
     | Op_Seq_Rm q p0 p1 \<Rightarrow> map_option snd (iswa_seq_rm q p0 p1 m)
     | Op_Seq_Cp src dst p0 p1 \<Rightarrow> iswa_seq_cp src dst p0 p1 m
     | Op_Seq_Keep q \<Rightarrow> iswa_seq_keep q m
     | Op_Seq_Add q p0 p1 shift \<Rightarrow> iswa_seq_add q p0 p1 shift m
     | Op_Seq_Div q p0 p1 d \<Rightarrow> iswa_seq_div q p0 p1 d m)"

subsection \<open>Contexts\<close>

record 'e iswa_context =
  ic_i_next :: nat
  ic_ubatches :: "'e llama_ubatch list"
  ic_base :: "'e kv_context option"
  ic_swa :: "'e kv_context option"
  ic_status :: llama_memory_status

definition iswa_ctx_status :: "llama_memory_status \<Rightarrow> 'e iswa_context" where
  "iswa_ctx_status st = \<lparr>ic_i_next = 0, ic_ubatches = [], ic_base = None, ic_swa = None, ic_status = st\<rparr>"

definition iswa_ctx_of :: "'e llama_ubatch list \<Rightarrow> 'e kv_context \<Rightarrow> 'e kv_context \<Rightarrow> 'e iswa_context" where
  "iswa_ctx_of ubs cb cs = \<lparr>ic_i_next = 0, ic_ubatches = ubs, ic_base = Some cb, ic_swa = Some cs,
     ic_status = llama_memory_status_combine (cx_status cb) (cx_status cs)\<rparr>"

definition iswa_ctx_batch :: "slot_info list \<Rightarrow> slot_info list \<Rightarrow> 'e llama_ubatch list \<Rightarrow> 'e iswa_context" where
  "iswa_ctx_batch sinfos_base sinfos_swa ubs = iswa_ctx_of ubs (ctx_batch sinfos_base ubs) (ctx_batch sinfos_swa ubs)"

definition iswa_init_full :: "kv_iswa \<Rightarrow> 'e iswa_context" where
  "iswa_init_full m = iswa_ctx_of [] (init_full (iw_base m)) (init_full (iw_swa m))"

definition iswa_init_update :: "kv_iswa \<Rightarrow> ('e iswa_context \<times> kv_iswa) option" where
  "iswa_init_update m = do {
     (cb, b) \<leftarrow> init_update (iw_base m);
     (cs, s) \<leftarrow> init_update (iw_swa m);
     Some (iswa_ctx_of [] cb cs, m\<lparr>iw_base := b, iw_swa := s\<rparr>) }"

text \<open>One attempt to split the batch and to prepare both caches; \<open>None\<close> in the first component is the \<open>break\<close>.\<close>

definition iswa_prepare :: "'e llama_ubatch list \<Rightarrow> kv_iswa \<Rightarrow> ((slot_info list \<times> slot_info list) option \<times> kv_iswa) option" where
  "iswa_prepare ubs m = do {
     (sb, b) \<leftarrow> prepare ubs (iw_base m);
     let m1 = m\<lparr>iw_base := b\<rparr>;
     if sb = [] then Some (None, m1)
     else do {
       (ss, s) \<leftarrow> prepare ubs (iw_swa m1);
       let m2 = m1\<lparr>iw_swa := s\<rparr>;
       if ss = [] then Some (None, m2) else Some (Some (sb, ss), m2) } }"

definition iswa_attempt ::
  "('e batch_allocr \<Rightarrow> ('e llama_ubatch \<times> 'e batch_allocr) option) \<Rightarrow> 'e batch_allocr \<Rightarrow> kv_iswa \<Rightarrow>
   ('e iswa_context option \<times> 'e batch_allocr \<times> kv_iswa) option" where
  "iswa_attempt split a m = do {
     (ubs, a') \<leftarrow> split_loop split (split_reset a);
     if ba_n_used a' < get_n_tokens a' then Some (None, a', m)
     else do {
       (sis, m') \<leftarrow> iswa_prepare ubs m;
       require (case sis of None \<Rightarrow> True | Some (sb, ss) \<Rightarrow> length sb = length ss);
       Some (map_option (\<lambda>(sb, ss). iswa_ctx_batch sb ss ubs) sis, a', m') } }"

definition iswa_init_batch :: "nat \<Rightarrow> 'e batch_allocr \<Rightarrow> kv_iswa \<Rightarrow> ('e iswa_context \<times> 'e batch_allocr \<times> kv_iswa) option" where
  "iswa_init_batch n_ubatch a m = do {
     (c1, a1, m1) \<leftarrow> (if iw_unified m then iswa_attempt (split_simple n_ubatch) a m else Some (None, a, m));
     case c1 of
       Some ctx \<Rightarrow> Some (ctx, a1, m1)
     | None \<Rightarrow> do {
         (c2, a2, m2) \<leftarrow> iswa_attempt (split_equal n_ubatch (\<not> iw_unified m)) a1 m1;
         Some (case c2 of Some ctx \<Rightarrow> ctx | None \<Rightarrow> iswa_ctx_status STATUS_FAILED_PREPARE, a2, m2) } }"

definition iswa_ctx_next :: "'e iswa_context \<Rightarrow> (bool \<times> 'e iswa_context) option" where
  "iswa_ctx_next ctx = do {
     require (ic_status ctx = STATUS_SUCCESS);
     cb \<leftarrow> ic_base ctx;
     cs \<leftarrow> ic_swa ctx;
     (_, cb') \<leftarrow> ctx_next cb;
     (_, cs') \<leftarrow> ctx_next cs;
     let ctx' = ctx\<lparr>ic_base := Some cb', ic_swa := Some cs', ic_i_next := ic_i_next ctx + 1\<rparr>;
     Some (\<not> ic_i_next ctx' \<ge> length (ic_ubatches ctx'), ctx') }"

text \<open>The page scores and the outcome of the K-shift are those of the two caches.\<close>

definition iswa_ctx_apply ::
  "'f tri_attention \<Rightarrow> 'f tri_attention \<Rightarrow> bool \<Rightarrow> bool \<Rightarrow> 'e iswa_context \<Rightarrow> kv_iswa \<Rightarrow> ('e iswa_context \<times> kv_iswa) option" where
  "iswa_ctx_apply tri_b tri_s comp_b comp_s ctx m = do {
     require (\<not> llama_memory_status_is_fail (ic_status ctx));
     cb \<leftarrow> ic_base ctx;
     cs \<leftarrow> ic_swa ctx;
     (cb', b) \<leftarrow> ctx_apply tri_b comp_b cb (iw_base m);
     (cs', s) \<leftarrow> ctx_apply tri_s comp_s cs (iw_swa m);
     Some (ctx\<lparr>ic_base := Some cb', ic_swa := Some cs'\<rparr>, m\<lparr>iw_base := b, iw_swa := s\<rparr>) }"

subsection \<open>Saving and restoring\<close>

text \<open>With \<open>LLAMA_STATE_SEQ_FLAGS_PARTIAL_ONLY\<close> only the cache with the window is saved. An exception of the first part (\<open>False\<close>)
  keeps the second from being read.\<close>

definition iswa_state_write :: "bool \<Rightarrow> kv_iswa \<Rightarrow> kv_layer list \<Rightarrow> kv_layer list \<Rightarrow> int \<Rightarrow> bytes option" where
  "iswa_state_write partial m blys slys seq = do {
     b \<leftarrow> (if partial then Some [] else state_write (iw_base m) blys seq);
     s \<leftarrow> state_write (iw_swa m) slys seq;
     Some (b @ s) }"

definition iswa_state_read ::
  "bool \<Rightarrow> int \<Rightarrow> kv_iswa \<times> kv_layer list \<times> kv_layer list \<Rightarrow> bytes \<Rightarrow> (bool \<times> (kv_iswa \<times> kv_layer list \<times> kv_layer list) \<times> bytes) option" where
  "iswa_state_read partial seq = (\<lambda>(m, blys, slys) bs. do {
     (ok, (b, blys'), bs1) \<leftarrow> (if partial then Some (True, (iw_base m, blys), bs) else state_read seq (iw_base m, blys) bs);
     let m1 = m\<lparr>iw_base := b\<rparr>;
     if \<not> ok then Some (False, (m1, blys', slys), bs1)
     else do {
       (ok', (s, slys'), bs2) \<leftarrow> state_read seq (iw_swa m1, slys) bs1;
       Some (ok', (m1\<lparr>iw_swa := s\<rparr>, blys', slys'), bs2) } })"

section \<open>The hybrid memory\<close>

record hybrid =
  hy_attn :: kv_cache
  hy_recr :: memory_recurrent

definition hybrid_new ::
  "bool \<Rightarrow> nat \<Rightarrow> nat \<Rightarrow> nat \<Rightarrow> nat \<Rightarrow> nat \<Rightarrow> swa_type \<Rightarrow> bool \<Rightarrow> nat \<Rightarrow> bool \<Rightarrow> bool \<Rightarrow> bool \<Rightarrow> bool \<Rightarrow> hybrid option" where
  "hybrid_new unified kv_size r_size n_seq_max n_pad n_swa swa v_trans n_pos step35 rope_none rotation paging = do {
     a \<leftarrow> kv_new unified kv_size n_seq_max n_pad n_swa swa v_trans n_pos step35 rope_none rotation paging;
     Some \<lparr>hy_attn = a, hy_recr = rs_new r_size\<rparr> }"

definition hybrid_clear :: "bool \<Rightarrow> hybrid \<Rightarrow> hybrid" where
  "hybrid_clear data m = m\<lparr>hy_attn := kv_clear data (hy_attn m), hy_recr := rs_clear (hy_recr m)\<rparr>"

text \<open>The recurrent memory may refuse; it is asked first.\<close>

definition hybrid_seq_rm :: "int \<Rightarrow> int \<Rightarrow> int \<Rightarrow> hybrid \<Rightarrow> (bool \<times> hybrid) option" where
  "hybrid_seq_rm seq_id p0 p1 m = do {
     (ok, r) \<leftarrow> rs_seq_rm seq_id p0 p1 (hy_recr m);
     let m1 = m\<lparr>hy_recr := r\<rparr>;
     if \<not> ok then Some (False, m1)
     else do {
       (ok', a) \<leftarrow> kv_seq_rm seq_id p0 p1 (hy_attn m1);
       Some (ok', m1\<lparr>hy_attn := a\<rparr>) } }"

definition hybrid_both :: "(kv_cache \<Rightarrow> kv_cache option) \<Rightarrow> (memory_recurrent \<Rightarrow> memory_recurrent option) \<Rightarrow> hybrid \<Rightarrow> hybrid option" where
  "hybrid_both f g m = do { a \<leftarrow> f (hy_attn m); r \<leftarrow> g (hy_recr m); Some (m\<lparr>hy_attn := a, hy_recr := r\<rparr>) }"

definition hybrid_seq_cp :: "int \<Rightarrow> int \<Rightarrow> int \<Rightarrow> int \<Rightarrow> hybrid \<Rightarrow> hybrid option" where
  "hybrid_seq_cp src dst p0 p1 = hybrid_both (kv_seq_cp src dst p0 p1) (rs_seq_cp src dst p0 p1)"

definition hybrid_seq_keep :: "int \<Rightarrow> hybrid \<Rightarrow> hybrid option" where
  "hybrid_seq_keep seq_id = hybrid_both (kv_seq_keep seq_id) (\<lambda>r. Some (rs_seq_keep seq_id r))"

definition hybrid_seq_add :: "int \<Rightarrow> int \<Rightarrow> int \<Rightarrow> int \<Rightarrow> hybrid \<Rightarrow> hybrid option" where
  "hybrid_seq_add seq_id p0 p1 shift = hybrid_both (kv_seq_add seq_id p0 p1 shift) (rs_seq_add seq_id p0 p1 shift)"

definition hybrid_seq_div :: "int \<Rightarrow> int \<Rightarrow> int \<Rightarrow> int \<Rightarrow> hybrid \<Rightarrow> hybrid option" where
  "hybrid_seq_div seq_id p0 p1 d = hybrid_both (kv_seq_div seq_id p0 p1 d) (rs_seq_div seq_id p0 p1 d)"

definition hybrid_seq_pos_min :: "int \<Rightarrow> hybrid \<Rightarrow> int option" where
  "hybrid_seq_pos_min seq_id m = map_option (\<lambda>p. max p (rs_seq_pos_min seq_id (hy_recr m))) (kv_seq_pos_min seq_id (hy_attn m))"

definition hybrid_seq_pos_max :: "int \<Rightarrow> hybrid \<Rightarrow> int option" where
  "hybrid_seq_pos_max seq_id m = map_option (\<lambda>p. min p (rs_seq_pos_max seq_id (hy_recr m))) (kv_seq_pos_max seq_id (hy_attn m))"

definition hybrid_can_shift :: "hybrid \<Rightarrow> bool" where
  "hybrid_can_shift m = get_can_shift (hy_attn m)"

definition hybrid_exec :: "mem_op \<Rightarrow> hybrid \<Rightarrow> hybrid option" where
  "hybrid_exec op m = (case op of
       Op_Clear data \<Rightarrow> Some (hybrid_clear data m)
     | Op_Seq_Rm q p0 p1 \<Rightarrow> map_option snd (hybrid_seq_rm q p0 p1 m)
     | Op_Seq_Cp src dst p0 p1 \<Rightarrow> hybrid_seq_cp src dst p0 p1 m
     | Op_Seq_Keep q \<Rightarrow> hybrid_seq_keep q m
     | Op_Seq_Add q p0 p1 shift \<Rightarrow> hybrid_seq_add q p0 p1 shift m
     | Op_Seq_Div q p0 p1 d \<Rightarrow> hybrid_seq_div q p0 p1 d m)"

subsection \<open>Contexts\<close>

record 'e hybrid_context =
  hc_i_next :: nat
  hc_ubatches :: "'e llama_ubatch list"
  hc_attn :: "'e kv_context option"
  hc_recr :: "'e rs_context option"
  hc_status :: llama_memory_status

definition hybrid_ctx_status :: "llama_memory_status \<Rightarrow> 'e hybrid_context" where
  "hybrid_ctx_status st = \<lparr>hc_i_next = 0, hc_ubatches = [], hc_attn = None, hc_recr = None, hc_status = st\<rparr>"

definition hybrid_ctx_of :: "'e llama_ubatch list \<Rightarrow> 'e kv_context \<Rightarrow> 'e rs_context \<Rightarrow> 'e hybrid_context" where
  "hybrid_ctx_of ubs ca cr = \<lparr>hc_i_next = 0, hc_ubatches = ubs, hc_attn = Some ca, hc_recr = Some cr,
     hc_status = llama_memory_status_combine (cx_status ca) (rc_status cr)\<rparr>"

definition hybrid_ctx_batch :: "slot_info list \<Rightarrow> 'e llama_ubatch list \<Rightarrow> 'e hybrid_context" where
  "hybrid_ctx_batch sinfos ubs = hybrid_ctx_of ubs (ctx_batch sinfos ubs) (rs_ctx_batch ubs)"

definition hybrid_init_full :: "hybrid \<Rightarrow> 'e hybrid_context" where
  "hybrid_init_full m = hybrid_ctx_of [] (init_full (hy_attn m)) rs_init_full"

definition hybrid_init_update :: "hybrid \<Rightarrow> ('e hybrid_context \<times> hybrid) option" where
  "hybrid_init_update m = do {
     (ca, a) \<leftarrow> init_update (hy_attn m);
     Some (hybrid_ctx_of [] ca (rs_ctx_status STATUS_NO_UPDATE), m\<lparr>hy_attn := a\<rparr>) }"

definition hybrid_init_batch ::
  "nat \<Rightarrow> bool \<Rightarrow> 'e batch_allocr \<Rightarrow> hybrid \<Rightarrow> ('e hybrid_context \<times> 'e batch_allocr \<times> hybrid) option" where
  "hybrid_init_batch n_ubatch embd_all a m = do {
     (ubs, a') \<leftarrow> split_loop (if embd_all then split_seq n_ubatch else split_equal n_ubatch True) (split_reset a);
     if ba_n_used a' < get_n_tokens a' then Some (hybrid_ctx_status STATUS_FAILED_PREPARE, a', m)
     else do {
       (ok, r) \<leftarrow> rs_prepare ubs (hy_recr m);
       let m1 = m\<lparr>hy_recr := r\<rparr>;
       if \<not> ok then Some (hybrid_ctx_status STATUS_FAILED_PREPARE, a', m1)
       else do {
         (sis, kv) \<leftarrow> prepare ubs (hy_attn m1);
         let m2 = m1\<lparr>hy_attn := kv\<rparr>;
         Some (if sis = [] then hybrid_ctx_status STATUS_FAILED_PREPARE else hybrid_ctx_batch sis ubs, a', m2) } } }"

definition hybrid_ctx_next :: "'e hybrid_context \<Rightarrow> (bool \<times> 'e hybrid_context) option" where
  "hybrid_ctx_next ctx = do {
     require (hc_status ctx = STATUS_SUCCESS);
     ca \<leftarrow> hc_attn ctx;
     cr \<leftarrow> hc_recr ctx;
     (_, ca') \<leftarrow> ctx_next ca;
     (_, cr') \<leftarrow> rs_ctx_next cr;
     let ctx' = ctx\<lparr>hc_attn := Some ca', hc_recr := Some cr', hc_i_next := hc_i_next ctx + 1\<rparr>;
     Some (\<not> hc_i_next ctx' \<ge> length (hc_ubatches ctx'), ctx') }"

definition hybrid_ctx_apply :: "'f tri_attention \<Rightarrow> bool \<Rightarrow> 'e hybrid_context \<Rightarrow> hybrid \<Rightarrow> ('e hybrid_context \<times> hybrid) option" where
  "hybrid_ctx_apply tri computed ctx m = do {
     require (\<not> llama_memory_status_is_fail (hc_status ctx));
     ca \<leftarrow> hc_attn ctx;
     cr \<leftarrow> hc_recr ctx;
     (ca', a) \<leftarrow> ctx_apply tri computed ca (hy_attn m);
     r \<leftarrow> rs_ctx_apply cr (hy_recr m);
     Some (ctx\<lparr>hc_attn := Some ca'\<rparr>, m\<lparr>hy_attn := a, hy_recr := r\<rparr>) }"

subsection \<open>Saving and restoring\<close>

text \<open>With \<open>LLAMA_STATE_SEQ_FLAGS_PARTIAL_ONLY\<close> only the recurrent memory is saved. An exception of the first part (\<open>False\<close>)
  keeps the second from being read.\<close>

definition hybrid_state_write :: "bool \<Rightarrow> hybrid \<Rightarrow> kv_layer list \<Rightarrow> rs_layer list \<Rightarrow> int \<Rightarrow> bytes option" where
  "hybrid_state_write partial m klys rlys seq = do {
     a \<leftarrow> (if partial then Some [] else state_write (hy_attn m) klys seq);
     r \<leftarrow> rs_state_write (hy_recr m) rlys seq;
     Some (a @ r) }"

definition hybrid_state_read ::
  "bool \<Rightarrow> nat \<Rightarrow> nat \<Rightarrow> int \<Rightarrow> hybrid \<times> kv_layer list \<times> rs_layer list \<Rightarrow> bytes \<Rightarrow> (bool \<times> (hybrid \<times> kv_layer list \<times> rs_layer list) \<times> bytes) option" where
  "hybrid_state_read partial n_seq_max n_pos seq = (\<lambda>(m, klys, rlys) bs. do {
     (ok, (a, klys'), bs1) \<leftarrow> (if partial then Some (True, (hy_attn m, klys), bs) else state_read seq (hy_attn m, klys) bs);
     let m1 = m\<lparr>hy_attn := a\<rparr>;
     if \<not> ok then Some (False, (m1, klys', rlys), bs1)
     else do {
       (ok', (r, rlys'), bs2) \<leftarrow> rs_state_read n_seq_max n_pos seq (hy_recr m1, rlys) bs1;
       Some (ok', (m1\<lparr>hy_recr := r\<rparr>, klys', rlys'), bs2) } })"

section \<open>The hybrid memory with a sliding window\<close>

record hybrid_iswa =
  hi_attn :: kv_iswa
  hi_recr :: memory_recurrent

definition hiswa_new ::
  "bool \<Rightarrow> bool \<Rightarrow> nat \<Rightarrow> nat \<Rightarrow> nat \<Rightarrow> nat \<Rightarrow> nat \<Rightarrow> nat \<Rightarrow> swa_type \<Rightarrow> bool \<Rightarrow> nat \<Rightarrow> bool \<Rightarrow> bool \<Rightarrow> bool \<times> bool \<Rightarrow> bool \<times> bool \<Rightarrow> hybrid_iswa option" where
  "hiswa_new swa_full unified kv_size r_size n_seq_max n_ubatch n_pad n_swa swa v_trans n_pos step35 rope_none rp_base rp_swa = do {
     a \<leftarrow> iswa_new swa_full unified kv_size n_seq_max n_ubatch n_pad n_swa swa v_trans n_pos step35 rope_none rp_base rp_swa;
     Some \<lparr>hi_attn = a, hi_recr = rs_new r_size\<rparr> }"

definition hiswa_clear :: "bool \<Rightarrow> hybrid_iswa \<Rightarrow> hybrid_iswa" where
  "hiswa_clear data m = m\<lparr>hi_attn := iswa_clear data (hi_attn m), hi_recr := rs_clear (hi_recr m)\<rparr>"

definition hiswa_seq_rm :: "int \<Rightarrow> int \<Rightarrow> int \<Rightarrow> hybrid_iswa \<Rightarrow> (bool \<times> hybrid_iswa) option" where
  "hiswa_seq_rm seq_id p0 p1 m = do {
     (ok, r) \<leftarrow> rs_seq_rm seq_id p0 p1 (hi_recr m);
     let m1 = m\<lparr>hi_recr := r\<rparr>;
     if \<not> ok then Some (False, m1)
     else do {
       (ok', a) \<leftarrow> iswa_seq_rm seq_id p0 p1 (hi_attn m1);
       Some (ok', m1\<lparr>hi_attn := a\<rparr>) } }"

definition hiswa_both :: "(kv_iswa \<Rightarrow> kv_iswa option) \<Rightarrow> (memory_recurrent \<Rightarrow> memory_recurrent option) \<Rightarrow> hybrid_iswa \<Rightarrow> hybrid_iswa option" where
  "hiswa_both f g m = do { a \<leftarrow> f (hi_attn m); r \<leftarrow> g (hi_recr m); Some (m\<lparr>hi_attn := a, hi_recr := r\<rparr>) }"

definition hiswa_seq_cp :: "int \<Rightarrow> int \<Rightarrow> int \<Rightarrow> int \<Rightarrow> hybrid_iswa \<Rightarrow> hybrid_iswa option" where
  "hiswa_seq_cp src dst p0 p1 = hiswa_both (iswa_seq_cp src dst p0 p1) (rs_seq_cp src dst p0 p1)"

definition hiswa_seq_keep :: "int \<Rightarrow> hybrid_iswa \<Rightarrow> hybrid_iswa option" where
  "hiswa_seq_keep seq_id = hiswa_both (iswa_seq_keep seq_id) (\<lambda>r. Some (rs_seq_keep seq_id r))"

definition hiswa_seq_add :: "int \<Rightarrow> int \<Rightarrow> int \<Rightarrow> int \<Rightarrow> hybrid_iswa \<Rightarrow> hybrid_iswa option" where
  "hiswa_seq_add seq_id p0 p1 shift = hiswa_both (iswa_seq_add seq_id p0 p1 shift) (rs_seq_add seq_id p0 p1 shift)"

definition hiswa_seq_div :: "int \<Rightarrow> int \<Rightarrow> int \<Rightarrow> int \<Rightarrow> hybrid_iswa \<Rightarrow> hybrid_iswa option" where
  "hiswa_seq_div seq_id p0 p1 d = hiswa_both (iswa_seq_div seq_id p0 p1 d) (rs_seq_div seq_id p0 p1 d)"

definition hiswa_seq_pos_min :: "int \<Rightarrow> hybrid_iswa \<Rightarrow> int option" where
  "hiswa_seq_pos_min seq_id m = map_option (\<lambda>p. max p (rs_seq_pos_min seq_id (hi_recr m))) (iswa_seq_pos_min seq_id (hi_attn m))"

definition hiswa_seq_pos_max :: "int \<Rightarrow> hybrid_iswa \<Rightarrow> int option" where
  "hiswa_seq_pos_max seq_id m = map_option (\<lambda>p. min p (rs_seq_pos_max seq_id (hi_recr m))) (iswa_seq_pos_max seq_id (hi_attn m))"

definition hiswa_can_shift :: "hybrid_iswa \<Rightarrow> bool" where
  "hiswa_can_shift m = iswa_can_shift (hi_attn m)"

definition hiswa_exec :: "mem_op \<Rightarrow> hybrid_iswa \<Rightarrow> hybrid_iswa option" where
  "hiswa_exec op m = (case op of
       Op_Clear data \<Rightarrow> Some (hiswa_clear data m)
     | Op_Seq_Rm q p0 p1 \<Rightarrow> map_option snd (hiswa_seq_rm q p0 p1 m)
     | Op_Seq_Cp src dst p0 p1 \<Rightarrow> hiswa_seq_cp src dst p0 p1 m
     | Op_Seq_Keep q \<Rightarrow> hiswa_seq_keep q m
     | Op_Seq_Add q p0 p1 shift \<Rightarrow> hiswa_seq_add q p0 p1 shift m
     | Op_Seq_Div q p0 p1 d \<Rightarrow> hiswa_seq_div q p0 p1 d m)"

record 'e hiswa_context =
  hic_i_next :: nat
  hic_ubatches :: "'e llama_ubatch list"
  hic_attn :: "'e iswa_context option"
  hic_recr :: "'e rs_context option"
  hic_status :: llama_memory_status

definition hiswa_ctx_status :: "llama_memory_status \<Rightarrow> 'e hiswa_context" where
  "hiswa_ctx_status st = \<lparr>hic_i_next = 0, hic_ubatches = [], hic_attn = None, hic_recr = None, hic_status = st\<rparr>"

definition hiswa_ctx_of :: "'e llama_ubatch list \<Rightarrow> 'e iswa_context \<Rightarrow> 'e rs_context \<Rightarrow> 'e hiswa_context" where
  "hiswa_ctx_of ubs ca cr = \<lparr>hic_i_next = 0, hic_ubatches = ubs, hic_attn = Some ca, hic_recr = Some cr,
     hic_status = llama_memory_status_combine (ic_status ca) (rc_status cr)\<rparr>"

definition hiswa_ctx_batch :: "slot_info list \<Rightarrow> slot_info list \<Rightarrow> 'e llama_ubatch list \<Rightarrow> 'e hiswa_context" where
  "hiswa_ctx_batch sb ss ubs = hiswa_ctx_of ubs (iswa_ctx_batch sb ss ubs) (rs_ctx_batch ubs)"

definition hiswa_init_full :: "hybrid_iswa \<Rightarrow> 'e hiswa_context" where
  "hiswa_init_full m = hiswa_ctx_of [] (iswa_init_full (hi_attn m)) rs_init_full"

definition hiswa_init_update :: "hybrid_iswa \<Rightarrow> ('e hiswa_context \<times> hybrid_iswa) option" where
  "hiswa_init_update m = do {
     (ca, a) \<leftarrow> iswa_init_update (hi_attn m);
     Some (hiswa_ctx_of [] ca (rs_ctx_status STATUS_NO_UPDATE), m\<lparr>hi_attn := a\<rparr>) }"

definition hiswa_init_batch ::
  "nat \<Rightarrow> bool \<Rightarrow> 'e batch_allocr \<Rightarrow> hybrid_iswa \<Rightarrow> ('e hiswa_context \<times> 'e batch_allocr \<times> hybrid_iswa) option" where
  "hiswa_init_batch n_ubatch embd_all a m = do {
     (ubs, a') \<leftarrow> split_loop (if embd_all then split_seq n_ubatch else split_equal n_ubatch True) (split_reset a);
     if ba_n_used a' < get_n_tokens a' then Some (hiswa_ctx_status STATUS_FAILED_PREPARE, a', m)
     else do {
       (ok, r) \<leftarrow> rs_prepare ubs (hi_recr m);
       let m1 = m\<lparr>hi_recr := r\<rparr>;
       if \<not> ok then Some (hiswa_ctx_status STATUS_FAILED_PREPARE, a', m1)
       else do {
         (sis, kv) \<leftarrow> iswa_prepare ubs (hi_attn m1);
         let m2 = m1\<lparr>hi_attn := kv\<rparr>;
         Some (case sis of None \<Rightarrow> hiswa_ctx_status STATUS_FAILED_PREPARE | Some (sb, ss) \<Rightarrow> hiswa_ctx_batch sb ss ubs, a', m2) } } }"

definition hiswa_ctx_next :: "'e hiswa_context \<Rightarrow> (bool \<times> 'e hiswa_context) option" where
  "hiswa_ctx_next ctx = do {
     require (hic_status ctx = STATUS_SUCCESS);
     ca \<leftarrow> hic_attn ctx;
     cr \<leftarrow> hic_recr ctx;
     (_, ca') \<leftarrow> iswa_ctx_next ca;
     (_, cr') \<leftarrow> rs_ctx_next cr;
     let ctx' = ctx\<lparr>hic_attn := Some ca', hic_recr := Some cr', hic_i_next := hic_i_next ctx + 1\<rparr>;
     Some (\<not> hic_i_next ctx' \<ge> length (hic_ubatches ctx'), ctx') }"

definition hiswa_ctx_apply ::
  "'f tri_attention \<Rightarrow> 'f tri_attention \<Rightarrow> bool \<Rightarrow> bool \<Rightarrow> 'e hiswa_context \<Rightarrow> hybrid_iswa \<Rightarrow> ('e hiswa_context \<times> hybrid_iswa) option" where
  "hiswa_ctx_apply tri_b tri_s comp_b comp_s ctx m = do {
     require (\<not> llama_memory_status_is_fail (hic_status ctx));
     ca \<leftarrow> hic_attn ctx;
     cr \<leftarrow> hic_recr ctx;
     (ca', a) \<leftarrow> iswa_ctx_apply tri_b tri_s comp_b comp_s ca (hi_attn m);
     r \<leftarrow> rs_ctx_apply cr (hi_recr m);
     Some (ctx\<lparr>hic_attn := Some ca'\<rparr>, m\<lparr>hi_attn := a, hi_recr := r\<rparr>) }"

text \<open>Both parts are always asked; only the cache looks at the flag.\<close>

definition hiswa_state_write :: "bool \<Rightarrow> hybrid_iswa \<Rightarrow> kv_layer list \<Rightarrow> kv_layer list \<Rightarrow> rs_layer list \<Rightarrow> int \<Rightarrow> bytes option" where
  "hiswa_state_write partial m blys slys rlys seq = do {
     a \<leftarrow> iswa_state_write partial (hi_attn m) blys slys seq;
     r \<leftarrow> rs_state_write (hi_recr m) rlys seq;
     Some (a @ r) }"

definition hiswa_state_read ::
  "bool \<Rightarrow> nat \<Rightarrow> nat \<Rightarrow> int \<Rightarrow> hybrid_iswa \<times> kv_layer list \<times> kv_layer list \<times> rs_layer list \<Rightarrow> bytes \<Rightarrow>
   (bool \<times> (hybrid_iswa \<times> kv_layer list \<times> kv_layer list \<times> rs_layer list) \<times> bytes) option" where
  "hiswa_state_read partial n_seq_max n_pos seq = (\<lambda>(m, blys, slys, rlys) bs. do {
     (ok, (a, blys', slys'), bs1) \<leftarrow> iswa_state_read partial seq (hi_attn m, blys, slys) bs;
     let m1 = m\<lparr>hi_attn := a\<rparr>;
     if \<not> ok then Some (False, (m1, blys', slys', rlys), bs1)
     else do {
       (ok', (r, rlys'), bs2) \<leftarrow> rs_state_read n_seq_max n_pos seq (hi_recr m1, rlys) bs1;
       Some (ok', (m1\<lparr>hi_recr := r\<rparr>, blys', slys', rlys'), bs2) } })"

section \<open>The contract of a pair\<close>

text \<open>A memory made of two parts: an operation that both parts allow is carried out on both, or refused and on none.\<close>

definition pair_inv :: "('a \<Rightarrow> bool) \<Rightarrow> ('b \<Rightarrow> bool) \<Rightarrow> ('m \<Rightarrow> 'a) \<Rightarrow> ('m \<Rightarrow> 'b) \<Rightarrow> 'm \<Rightarrow> bool" where
  "pair_inv ia ib pa pb m \<longleftrightarrow> ia (pa m) \<and> ib (pb m)"

definition pair_allowed :: "(mem_op \<Rightarrow> 'a \<Rightarrow> bool) \<Rightarrow> (mem_op \<Rightarrow> 'b \<Rightarrow> bool) \<Rightarrow> ('m \<Rightarrow> 'a) \<Rightarrow> ('m \<Rightarrow> 'b) \<Rightarrow> mem_op \<Rightarrow> 'm \<Rightarrow> bool" where
  "pair_allowed la lb pa pb op m \<longleftrightarrow> la op (pa m) \<and> lb op (pb m)"

locale memory_pair = fst_mem: llama_memory inv_a allowed_a exec_a + snd_mem: llama_memory inv_b allowed_b exec_b
  for inv_a :: "'a \<Rightarrow> bool" and allowed_a and exec_a and inv_b :: "'b \<Rightarrow> bool" and allowed_b and exec_b +
  fixes part_a :: "'m \<Rightarrow> 'a" and part_b :: "'m \<Rightarrow> 'b" and exec :: "mem_op \<Rightarrow> 'm \<Rightarrow> 'm option"
  assumes forwards: "exec_a op (part_a m) = Some a \<Longrightarrow> exec_b op (part_b m) = Some b \<Longrightarrow>
    \<exists>m'. exec op m = Some m' \<and> (part_a m' = a \<and> part_b m' = b \<or> m' = m)"
begin

lemma pair_exec_ok:
  assumes "pair_inv inv_a inv_b part_a part_b m" "pair_allowed allowed_a allowed_b part_a part_b op m"
  shows "\<exists>m'. exec op m = Some m' \<and> pair_inv inv_a inv_b part_a part_b m'"
proof -
  obtain a where a: "exec_a op (part_a m) = Some a" "inv_a a"
    using fst_mem.exec_ok assms by (auto simp: pair_inv_def pair_allowed_def)
  obtain b where b: "exec_b op (part_b m) = Some b" "inv_b b"
    using snd_mem.exec_ok assms by (auto simp: pair_inv_def pair_allowed_def)
  show ?thesis
    using forwards [OF a(1) b(1)] a(2) b(2) assms(1) by (auto simp: pair_inv_def)
qed

end

sublocale memory_pair \<subseteq> both: llama_memory "pair_inv inv_a inv_b part_a part_b" "pair_allowed allowed_a allowed_b part_a part_b" exec
  by unfold_locales (rule pair_exec_ok)

abbreviation iswa_inv :: "nat \<Rightarrow> nat \<Rightarrow> kv_iswa \<Rightarrow> bool" where
  "iswa_inv n n' \<equiv> pair_inv (kv_cache_inv n) (kv_cache_inv n') iw_base iw_swa"

abbreviation iswa_allowed :: "mem_op \<Rightarrow> kv_iswa \<Rightarrow> bool" where
  "iswa_allowed \<equiv> pair_allowed kv_allowed kv_allowed iw_base iw_swa"

abbreviation hybrid_inv :: "nat \<Rightarrow> hybrid \<Rightarrow> bool" where
  "hybrid_inv n \<equiv> pair_inv (kv_cache_inv n) rs_inv hy_attn hy_recr"

abbreviation hybrid_allowed :: "mem_op \<Rightarrow> hybrid \<Rightarrow> bool" where
  "hybrid_allowed \<equiv> pair_allowed kv_allowed rs_allowed hy_attn hy_recr"

abbreviation hiswa_inv :: "nat \<Rightarrow> nat \<Rightarrow> hybrid_iswa \<Rightarrow> bool" where
  "hiswa_inv n n' \<equiv> pair_inv (iswa_inv n n') rs_inv hi_attn hi_recr"

abbreviation hiswa_allowed :: "mem_op \<Rightarrow> hybrid_iswa \<Rightarrow> bool" where
  "hiswa_allowed \<equiv> pair_allowed iswa_allowed rs_allowed hi_attn hi_recr"

interpretation iswa: memory_pair "kv_cache_inv n" kv_allowed kv_exec "kv_cache_inv n'" kv_allowed kv_exec iw_base iw_swa iswa_exec for n n'
proof unfold_locales
  fix op a b and m :: kv_iswa
  assume "kv_exec op (iw_base m) = Some a" "kv_exec op (iw_swa m) = Some b"
  then show "\<exists>m'. iswa_exec op m = Some m' \<and> (iw_base m' = a \<and> iw_swa m' = b \<or> m' = m)"
    by (cases op) (auto simp: iswa_exec_def kv_exec_def iswa_clear_def iswa_seq_rm_def iswa_both_def iswa_seq_cp_def iswa_seq_keep_def
        iswa_seq_add_def iswa_seq_div_def)
qed

lemma rs_refuses: "rs_seq_rm q p0 p1 m = Some (False, m') \<Longrightarrow> m' = m"
  by (auto simp: rs_seq_rm_def Let_def bind_Some_iff split: if_splits)

interpretation hyb: memory_pair "kv_cache_inv n" kv_allowed kv_exec rs_inv rs_allowed rs_exec hy_attn hy_recr hybrid_exec for n
proof unfold_locales
  fix op a b and m :: hybrid
  assume h: "kv_exec op (hy_attn m) = Some a" "rs_exec op (hy_recr m) = Some b"
  show "\<exists>m'. hybrid_exec op m = Some m' \<and> (hy_attn m' = a \<and> hy_recr m' = b \<or> m' = m)"
  proof (cases op)
    case (Op_Seq_Rm q p0 p1)
    then obtain ok where "rs_seq_rm q p0 p1 (hy_recr m) = Some (ok, b)"
      using h(2) by (auto simp: rs_exec_def)
    then show ?thesis
      using h(1) Op_Seq_Rm rs_refuses [of q p0 p1 "hy_recr m" b] by (cases ok) (auto simp: hybrid_exec_def kv_exec_def hybrid_seq_rm_def)
  qed (use h in \<open>auto simp: hybrid_exec_def kv_exec_def rs_exec_def hybrid_clear_def hybrid_both_def hybrid_seq_cp_def hybrid_seq_keep_def
        hybrid_seq_add_def hybrid_seq_div_def\<close>)
qed

interpretation hiswa: memory_pair "iswa_inv n n'" iswa_allowed iswa_exec rs_inv rs_allowed rs_exec hi_attn hi_recr hiswa_exec for n n'
proof unfold_locales
  fix op a b and m :: hybrid_iswa
  assume h: "iswa_exec op (hi_attn m) = Some a" "rs_exec op (hi_recr m) = Some b"
  show "\<exists>m'. hiswa_exec op m = Some m' \<and> (hi_attn m' = a \<and> hi_recr m' = b \<or> m' = m)"
  proof (cases op)
    case (Op_Seq_Rm q p0 p1)
    then obtain ok where "rs_seq_rm q p0 p1 (hi_recr m) = Some (ok, b)"
      using h(2) by (auto simp: rs_exec_def)
    then show ?thesis
      using h(1) Op_Seq_Rm rs_refuses [of q p0 p1 "hi_recr m" b] by (cases ok) (auto simp: hiswa_exec_def iswa_exec_def hiswa_seq_rm_def)
  qed (use h in \<open>auto simp: hiswa_exec_def iswa_exec_def rs_exec_def hiswa_clear_def hiswa_both_def hiswa_seq_cp_def hiswa_seq_keep_def
        hiswa_seq_add_def hiswa_seq_div_def\<close>)
qed

section \<open>Operations\<close>

lemma iswa_new_inv:
  assumes "iswa_new swa_full unified kv_size n_seq_max n_ubatch n_pad n_swa swa v_trans n_pos step35 rope_none rp_base rp_swa = Some a" "0 < n_seq_max"
  shows "iswa_inv kv_size (iswa_size_swa swa_full unified kv_size n_swa n_seq_max n_ubatch) a"
  using assms by (auto simp: iswa_new_def pair_inv_def bind_Some_iff intro: kv_new_inv)


definition demo_hiswa :: hybrid_iswa where
  "demo_hiswa = the (hiswa_new False False 256 2 2 8 1 4 SWA_STANDARD False 1 False False (False, False) (False, False))"



definition demo_hybrid :: hybrid where
  "demo_hybrid = \<lparr>hy_attn = demo_kv, hy_recr = rs_demo\<rparr>"


end
