(* ===== verification/Combined_Step.thy ===== *)
theory Combined_Step
  imports Combined
begin

text \<open>
  The two parts of a hybrid memory stay in step. The cache knows the positions of all tokens of a sequence, the recurrent
  memory only the last one; \<open>seq_pos_max\<close> of the hybrid memory is the smaller of the two. Placing a ubatch whose rows are in
  order keeps the two equal; a batch with decreasing positions, which the allocator accepts, drives them apart.
\<close>

section \<open>Positions in the cache\<close>

lemma place_row_nth:
  assumes "distinct idxs" "\<forall>i \<in> set idxs. i < length vs"
  shows "ii < length idxs \<Longrightarrow> place_row ub off idxs vs ! (idxs ! ii) = Some (token_cell ub (off + ii))"
    "i \<notin> set idxs \<Longrightarrow> place_row ub off idxs vs ! i = vs ! i" "length (place_row ub off idxs vs) = length vs"
proof -
  have inj: "inj_on ((!) idxs) {..<length idxs}"
    using assms(1) by (auto simp: inj_on_def nth_eq_iff_index_eq)
  show "place_row ub off idxs vs ! (idxs ! ii) = Some (token_cell ub (off + ii))" if "ii < length idxs"
    using write_at_nth [OF inj that, of vs] assms(2) nth_mem [OF that] by (simp add: place_row_def)
  show "place_row ub off idxs vs ! i = vs ! i" if "i \<notin> set idxs"
    using that by (auto simp: place_row_def intro!: write_at_other)
  show "length (place_row ub off idxs vs) = length vs"
    by (simp add: place_row_def)
qed

definition token_at :: "'e llama_ubatch \<Rightarrow> nat \<Rightarrow> nat \<Rightarrow> int \<Rightarrow> bool" where
  "token_at ub k q p \<longleftrightarrow> p = ub_pos ub ! k \<and> q \<in> nat ` set (token_seqs ub k)"

lemma place_row_positions:
  assumes "distinct idxs" "\<forall>i \<in> set idxs. i < length vs \<and> vs ! i = None"
  shows "p \<in># view_mset (place_row ub off idxs vs) q \<longleftrightarrow> p \<in># view_mset vs q \<or> (\<exists>ii < length idxs. token_at ub (off + ii) q p)"
proof -
  let ?w = "place_row ub off idxs vs"
  have less: "\<forall>i \<in> set idxs. i < length vs"
    using assms(2) by blast
  note N = place_row_nth [OF assms(1) less]
  have tok: "Some (token_cell ub k) = Some (Cell p S d) \<and> q \<in> S \<longleftrightarrow> S = nat ` set (token_seqs ub k) \<and> d = 0 \<and> token_at ub k q p" for k S d
    by (auto simp: token_cell_def token_at_def)
  show ?thesis
  proof
    assume "p \<in># view_mset ?w q"
    then obtain i S d where i: "i < length vs" "?w ! i = Some (Cell p S d)" "q \<in> S"
      by (auto simp: in_view_mset_iff N(3))
    show "p \<in># view_mset vs q \<or> (\<exists>ii < length idxs. token_at ub (off + ii) q p)"
    proof (cases "i \<in> set idxs")
      case True
      then obtain ii where "ii < length idxs" "idxs ! ii = i"
        by (auto simp: in_set_conv_nth)
      then show ?thesis
        using N(1) [of ii ub off] i tok [of "off + ii" S d] by auto
    next
      case False
      then have "vs ! i = Some (Cell p S d)"
        using N(2) [OF False, of ub off] i(2) by simp
      then show ?thesis
        using i(1,3) unfolding in_view_mset_iff by blast
    qed
  next
    assume "p \<in># view_mset vs q \<or> (\<exists>ii < length idxs. token_at ub (off + ii) q p)"
    then show "p \<in># view_mset ?w q"
    proof
      assume "p \<in># view_mset vs q"
      then obtain i S d where i: "i < length vs" "vs ! i = Some (Cell p S d)" "q \<in> S"
        by (auto simp: in_view_mset_iff)
      then have "i \<notin> set idxs"
        using assms(2) by auto
      then have "?w ! i = Some (Cell p S d)"
        using N(2) [of i ub off] i(2) by simp
      then show ?thesis
        using i(1,3) N(3) unfolding in_view_mset_iff by metis
    next
      assume "\<exists>ii < length idxs. token_at ub (off + ii) q p"
      then obtain ii where ii: "ii < length idxs" "token_at ub (off + ii) q p"
        by blast
      then have "?w ! (idxs ! ii) = Some (Cell p (nat ` set (token_seqs ub (off + ii))) 0)" "q \<in> nat ` set (token_seqs ub (off + ii))"
        using N(1) [OF ii(1), of ub off] by (simp_all add: token_cell_def token_at_def)
      moreover have "idxs ! ii < length vs"
        using ii(1) less by simp
      ultimately show ?thesis
        using N(3) unfolding in_view_mset_iff by metis
    qed
  qed
qed

lemma placed_positions:
  assumes inv: "kv_cache_inv n kv" and ub: "ub_ready kv ub" and fits: "slot_fits n kv ub si" and swa: "kv_swa_type kv = SWA_NONE" and t: "t < kv_n_stream kv"
  shows "p \<in># view_mset (place_rows ub si (n_rows kv ub) (kv_views kv) ! t) q \<longleftrightarrow> p \<in># view_mset (kv_views kv ! t) q \<or>
    (\<exists>s < n_rows kv ub. row_stream kv ub s = t \<and> (\<exists>ii < row_len kv ub. token_at ub (s * row_len kv ub + ii) q p))"
proof -
  note ok = slot_fits_ok [OF inv fits ub]
  let ?g = "(!) (si_strm si)" and ?k = "n_rows kv ub"
  have len: "length (si_idxs si ! s) = row_len kv ub" "distinct (si_idxs si ! s)" "\<And>i. i \<in> set (si_idxs si ! s) \<Longrightarrow> i < n" if "s < ?k" for s
    using fits that by (auto simp: slot_fits_def)
  have dis: "distinct (si_strm si)"
    using ok(1) by (auto simp: slot_ok_def Let_def)
  then have inj: "inj_on ?g {..<?k}"
    using ok(2) by (auto simp: inj_on_def nth_eq_iff_index_eq)
  have views: "length (kv_views kv) = kv_n_stream kv" "\<And>s. s < kv_n_stream kv \<Longrightarrow> length (kv_views kv ! s) = n"
    using kv_inv_cells [OF inv] inv by (auto simp: kv_cache_inv_def)
  show ?thesis
  proof (cases "\<exists>s < ?k. row_stream kv ub s = t")
    case True
    then obtain s where s: "s < ?k" "row_stream kv ub s = t"
      by blast
    have g: "?g s = t"
      using ok(4) [OF s(1)] s(2) by simp
    have uniq: "s' = s" if "s' < ?k" "row_stream kv ub s' = t" for s'
      using ok(4) [OF that(1)] that s(1) g inj by (auto simp: inj_on_def)
    have "place_rows ub si ?k (kv_views kv) ! t = place_row ub (s * row_len kv ub) (si_idxs si ! s) (kv_views kv ! t)"
      using write_at_nth [OF inj s(1), of "kv_views kv"] g t views(1) len(1) [OF s(1)] by (simp add: place_rows_def)
    moreover have "\<forall>i \<in> set (si_idxs si ! s). i < length (kv_views kv ! t) \<and> kv_views kv ! t ! i = None"
      using fits_empty [OF inv fits ub swa, of s] s(1) ok(2) g len(3) [OF s(1)] views(2) [OF t] by auto
    moreover have "(\<exists>s' < ?k. row_stream kv ub s' = t \<and> Q s') \<longleftrightarrow> Q s" for Q
      using s uniq by blast
    ultimately show ?thesis
      using place_row_positions [OF len(2) [OF s(1)], of "kv_views kv ! t" p ub "s * row_len kv ub" q] len(1) [OF s(1)] by simp
  next
    case False
    then have "t \<notin> ?g ` {..<?k}"
      using ok(4) by auto
    then have "place_rows ub si ?k (kv_views kv) ! t = kv_views kv ! t"
      by (simp add: place_rows_def write_at_other)
    then show ?thesis
      using False by auto
  qed
qed

section \<open>The prepared slots fit when they are used\<close>

text \<open>Slots for ubatches that are placed one after the other, each found in the cells that the previous ones left.\<close>

fun fits_chain :: "nat \<Rightarrow> kv_cache \<Rightarrow> slot_info list \<Rightarrow> 'e llama_ubatch list \<Rightarrow> bool" where
  "fits_chain n kv [] [] \<longleftrightarrow> True"
| "fits_chain n kv (si # sis) (ub # ubs) \<longleftrightarrow> slot_fits n kv ub si \<and>
     (\<forall>kv'. kv_cache_inv n kv' \<and> same_setup kv kv' \<and> kv_views kv' = place_rows ub si (n_rows kv ub) (kv_views kv) \<longrightarrow> fits_chain n kv' sis ubs)"
| "fits_chain n kv _ _ \<longleftrightarrow> False"

lemma fits_chain_cong:
  assumes "kv_cache_inv n kv" "kv_cache_inv n kvx" "same_setup kv kvx" "kv_views kvx = kv_views kv" "\<forall>ub \<in> set ubs. ub_ready kv ub" "fits_chain n kv sis ubs"
  shows "fits_chain n kvx sis ubs"
proof (cases sis)
  case Nil
  then show ?thesis
    using assms(6) by (cases ubs) simp_all
next
  case (Cons si sis')
  then obtain ub ubs' where ubs: "ubs = ub # ubs'"
    using assms(6) by (cases ubs) simp_all
  have "fits_chain n kv' sis' ubs'"
    if "kv_cache_inv n kv'" "same_setup kvx kv'" "kv_views kv' = place_rows ub si (n_rows kvx ub) (kv_views kvx)" for kv'
  proof -
    have "same_setup kv kv'" "kv_views kv' = place_rows ub si (n_rows kv ub) (kv_views kv)"
      using that(2,3) assms(3,4) by (simp_all add: setup_cong(2) [OF assms(3)]) (simp add: same_setup_def)
    then show ?thesis
      using assms(6) that(1) by (simp add: Cons ubs)
  qed
  moreover have "slot_fits n kvx ub si"
    using slot_fits_cong [OF assms(1,2,3,4), of ub si] assms(5,6) by (simp add: Cons ubs)
  ultimately show ?thesis
    by (simp add: Cons ubs)
qed

lemma prepare_loop_fits:
  assumes "kv_cache_inv n kv" "kv_bounded kv" "kv_swa_type kv = SWA_NONE" "\<forall>ub \<in> set ubs. ub_ready kv ub"
    and "prepare_loop ubs res states kv = Some (True, res', sts, kv1)"
  shows "\<exists>sis. res' = res @ sis \<and> fits_chain n kv sis ubs"
  using assms
proof (induction ubs arbitrary: kv res states)
  case (Cons ub ubs)
  have ub: "ub_ready kv ub" "ub_rows_ok kv ub"
    using Cons.prems(4) by (simp_all add: ub_ready_def)
  obtain si where si: "find_slot kv ub False = Some si" "\<not> si_empty si \<longrightarrow> slot_fits n kv ub si"
    using find_slot_fits [OF Cons.prems(1,2) ub(2)] by blast
  then have fits: "slot_fits n kv ub si" "\<not> si_empty si"
    using Cons.prems(5) by (auto split: if_splits)
  obtain kv' where kv': "apply_ubatch si ub kv = Some kv'" "kv_cache_inv n kv'" "same_setup kv kv'" "kv_bounded kv'"
    "kv_views kv' = place_rows ub si (n_rows kv ub) (kv_views kv)"
    using apply_slot_plain [OF Cons.prems(1,2) ub(1) fits(1) Cons.prems(3)] by blast
  have nx: "kv_swa_type kv' = SWA_NONE" "\<forall>ub \<in> set ubs. ub_ready kv' ub"
    using kv'(3) Cons.prems(3,4) by (simp_all add: setup_cong(1) [OF kv'(3)]) (simp add: same_setup_def)
  obtain states' where "prepare_loop ubs (res @ [si]) states' kv' = Some (True, res', sts, kv1)"
    using Cons.prems(5) si(1) fits(2) kv'(1) by (auto simp: bind_Some_iff)
  from Cons.IH [OF kv'(2,4) nx this] obtain sis where sis: "res' = res @ si # sis" "fits_chain n kv' sis ubs"
    by auto
  have "fits_chain n kv'' sis ubs"
    if "kv_cache_inv n kv''" "same_setup kv kv''" "kv_views kv'' = place_rows ub si (n_rows kv ub) (kv_views kv)" for kv''
    using fits_chain_cong [OF kv'(2) that(1) _ _ nx(2) sis(2)] that(2,3) kv'(3,5) by (simp add: same_setup_def)
  then show ?case
    using sis(1) fits(1) by (intro exI [of _ "si # sis"]) simp
qed simp

lemma prepare_fits:
  assumes "kv_cache_inv n kv" "kv_bounded kv" "kv_swa_type kv = SWA_NONE" "\<forall>ub \<in> set ubs. ub_ready kv ub" "ubs \<noteq> []"
    and "prepare ubs kv = Some (sis, kv')"
  shows "kv_cache_inv n kv'" "same_setup kv kv'" "kv_views kv' = kv_views kv" "sis \<noteq> [] \<Longrightarrow> fits_chain n kv' sis ubs"
proof -
  obtain b sis0 sts kv1 kv2 where r: "prepare_loop ubs [] [] kv = Some (b, [] @ sis0, sts @ [], kv1)" "ubs \<noteq> [] \<and> b \<longrightarrow> sts \<noteq> []"
    "mfold restore_state sts kv1 = Some kv2" "kv_cache_inv n kv2" "same_setup kv kv2" "kv_views kv2 = kv_views kv"
    using prepare_loop_ok [OF assms(1-4), of "[]" "[]"] by blast
  then have e: "sis = (if b then sis0 else [])" "kv' = kv2"
    using assms(5,6) by (auto simp: prepare_def bind_Some_iff)
  show p: "kv_cache_inv n kv'" "same_setup kv kv'" "kv_views kv' = kv_views kv"
    using r e(2) by simp_all
  show "fits_chain n kv' sis ubs" if "sis \<noteq> []"
  proof -
    have b: b "sis = sis0"
      using e(1) that by (auto split: if_splits)
    then have "fits_chain n kv sis ubs"
      using prepare_loop_fits [OF assms(1-4), of "[]" "[]" sis0 sts kv1] r(1) by simp
    then show ?thesis
      using fits_chain_cong [OF assms(1) p assms(4)] by simp
  qed
qed


section \<open>One ubatch\<close>

text \<open>All tokens of a row of a ubatch belong to the same sequences, and lie in the rows of the cache that belong to their sequences.\<close>

definition tokens_placed :: "kv_cache \<Rightarrow> 'e llama_ubatch \<Rightarrow> bool" where
  "tokens_placed kv ub \<longleftrightarrow> ub_n_tokens ub = ub_n_seqs ub * ub_n_seq_tokens ub \<and>
     list_all (\<lambda>k. nat ` set (token_seqs ub k) = set (seqs_of ub (k div ub_n_seq_tokens ub)) \<and>
       list_all (\<lambda>q. row_stream kv ub (k div row_len kv ub) = stream_of kv q) (token_seqs ub k)) [0..<ub_n_tokens ub]"

definition step_ready :: "kv_cache \<Rightarrow> nat \<Rightarrow> 'e llama_ubatch \<Rightarrow> bool" where
  "step_ready kv n ub \<longleftrightarrow> ub_ready kv ub \<and> rs_ubatch n ub \<and> tokens_placed kv ub"

text \<open>What a ubatch does to the last positions of the sequences: the recurrent memory keeps the position of the last token of the row, the cache
  knows the greatest one.\<close>

definition advance :: "'e llama_ubatch \<Rightarrow> (nat \<Rightarrow> int) \<Rightarrow> nat \<Rightarrow> int" where
  "advance ub f q = (case ubatch_set ub q of None \<Rightarrow> f q | Some s \<Rightarrow> last_pos_of ub s)"

definition climb :: "'e llama_ubatch \<Rightarrow> (nat \<Rightarrow> int) \<Rightarrow> nat \<Rightarrow> int" where
  "climb ub f q = fold (\<lambda>k p. if q \<in> nat ` set (token_seqs ub k) then max p (ub_pos ub ! k) else p) [0..<ub_n_tokens ub] (f q)"

lemma fold_max:
  fixes x :: int and P g
  defines "r ks \<equiv> fold (\<lambda>k p. if P k then max p (g k) else p) ks x"
  shows "x \<le> r ks" "k \<in> set ks \<Longrightarrow> P k \<Longrightarrow> g k \<le> r ks" "r ks = x \<or> (\<exists>k \<in> set ks. P k \<and> r ks = g k)"
  unfolding r_def by (induction ks rule: rev_induct) auto

lemmas climb_max = fold_max [where P = "\<lambda>k. q \<in> nat ` set (token_seqs ub k)" and g = "\<lambda>k. ub_pos ub ! k" and ks = "[0..<ub_n_tokens ub]" and x = "f q"
  for q ub f, folded climb_def]

lemma climb_ge: "f q \<le> climb ub f q" "k < ub_n_tokens ub \<Longrightarrow> token_at ub k q p \<Longrightarrow> p \<le> climb ub f q"
  using climb_max(1) climb_max(2) [of k ub q f] by (simp_all add: token_at_def)

lemma climb_cases: "climb ub f q = f q \<or> (\<exists>k < ub_n_tokens ub. token_at ub k q (climb ub f q))"
  using climb_max(3) [of ub f q] by (auto simp: token_at_def)

definition max_or :: "int multiset \<Rightarrow> int" where
  "max_or M = (if M = {#} then - 1 else Max_mset M)"

lemma kv_pos_max_or: "kv_cache_inv n kv \<Longrightarrow> seq_in_range q \<Longrightarrow> kv_seq_pos_max q kv = Some (max_or (view_mset (kv_views kv ! stream_of kv q) (nat q)))"
  using kv_seq_pos_views(2) by (simp add: max_or_def Let_def)

lemma max_or_extend:
  assumes "\<And>p. p \<in># M' \<longleftrightarrow> p \<in># M \<or> Q p" "max_or M \<le> x" "\<And>p. Q p \<Longrightarrow> - 1 < p \<and> p \<le> x" "x = max_or M \<or> Q x"
  shows "max_or M' = x"
proof (cases "x \<in># M'")
  case True
  have "p \<le> x" if "p \<in># M'" for p
    using that assms(1) [of p] assms(2) assms(3) [of p] Max_ge [of "set_mset M" p] by (auto simp: max_or_def split: if_splits)
  then have "Max_mset M' = x"
    using True by (auto intro!: Max_eqI)
  then show ?thesis
    using True by (auto simp: max_or_def)
next
  case False
  then have x: "x = max_or M" "M = {#}"
    using assms(1) [of x] assms(4) Max_in [of "set_mset M"] by (auto simp: max_or_def split: if_splits)
  then have "\<not> Q p" for p
    using assms(3) [of p] by (auto simp: max_or_def)
  then have "M' = {#}"
    using assms(1) x(2) by (auto simp: multiset_eq_iff not_in_iff)
  then show ?thesis
    using x by simp
qed

lemma tokens_placedD:
  assumes "tokens_placed kv ub" "k < ub_n_tokens ub"
  shows "nat ` set (token_seqs ub k) = set (seqs_of ub (k div ub_n_seq_tokens ub))"
    "\<And>q. q \<in> set (token_seqs ub k) \<Longrightarrow> row_stream kv ub (k div row_len kv ub) = stream_of kv q"
  using assms by (auto simp: tokens_placed_def list_all_iff)

text \<open>The tokens of a sequence in the rows of its stream are all its tokens.\<close>

lemma row_tokens:
  assumes "step_ready kv n ub"
  shows "(\<exists>s < n_rows kv ub. row_stream kv ub s = stream_of kv (int q) \<and> (\<exists>ii < row_len kv ub. token_at ub (s * row_len kv ub + ii) q p)) \<longleftrightarrow>
    (\<exists>k < ub_n_tokens ub. token_at ub k q p)" (is "?L \<longleftrightarrow> ?R")
proof -
  have r: "ub_rows_ok kv ub" "tokens_placed kv ub" and tok: "\<And>k. k < ub_n_tokens ub \<Longrightarrow> token_ok ub k"
    using assms by (auto simp: step_ready_def ub_ready_def)
  have T: "ub_n_tokens ub = n_rows kv ub * row_len kv ub" "0 < row_len kv ub"
    using r(1) row_len_pos [OF r(1)] by (auto simp: ub_rows_ok_def row_len_def)
  show ?thesis
  proof
    assume ?L
    then obtain s ii where s: "s < n_rows kv ub" "ii < row_len kv ub" "token_at ub (s * row_len kv ub + ii) q p"
      by blast
    have "s * row_len kv ub + ii < Suc s * row_len kv ub"
      using s(2) by simp
    also have "\<dots> \<le> n_rows kv ub * row_len kv ub"
      using s(1) by (intro mult_le_mono1) simp
    finally show ?R
      using s(3) T(1) by metis
  next
    assume ?R
    then obtain k where k: "k < ub_n_tokens ub" "token_at ub k q p"
      by blast
    then obtain q' where q': "q' \<in> set (token_seqs ub k)" "q = nat q'"
      by (auto simp: token_at_def)
    then have "int q = q'"
      using tok [OF k(1)] by (auto simp: token_ok_def)
    then have "row_stream kv ub (k div row_len kv ub) = stream_of kv (int q)"
      using tokens_placedD(2) [OF r(2) k(1) q'(1)] by simp
    moreover have "k div row_len kv ub < n_rows kv ub" "k mod row_len kv ub < row_len kv ub"
      using k(1) T by (simp_all add: less_mult_imp_div_less)
    ultimately show ?L
      using k(2) by (metis div_mult_mod_eq)
  qed
qed

lemma cache_step_positions:
  assumes inv: "kv_cache_inv n kv" "kv_cache_inv n kv'" and same: "same_setup kv kv'" and fits: "slot_fits n kv ub si"
    and views: "kv_views kv' = place_rows ub si (n_rows kv ub) (kv_views kv)" and swa: "kv_swa_type kv = SWA_NONE"
    and ub: "step_ready kv r ub" and q: "q < r" "r \<le> LLAMA_MAX_SEQ" and pos: "kv_seq_pos_max (int q) kv = Some (f q)"
  shows "kv_seq_pos_max (int q) kv' = Some (climb ub f q)"
proof -
  have u: "ub_ready kv ub" and tok: "\<And>k. k < ub_n_tokens ub \<Longrightarrow> token_ok ub k"
    using ub by (auto simp: step_ready_def ub_ready_def)
  let ?t = "stream_of kv (int q)"
  let ?M = "view_mset (kv_views kv ! ?t) q" and ?M' = "view_mset (kv_views kv' ! ?t) q" and ?Q = "\<lambda>p. \<exists>k < ub_n_tokens ub. token_at ub k q p"
  have range: "seq_in_range (int q)"
    using q by (simp add: seq_in_range_def)
  then have t: "?t < kv_n_stream kv"
    using inv(1) by (auto simp: kv_cache_inv_def stream_of_def seq_in_range_def)
  have old: "max_or ?M = f q" and new: "kv_seq_pos_max (int q) kv' = Some (max_or ?M')"
    using kv_pos_max_or [OF inv(1) range] kv_pos_max_or [OF inv(2) range] pos same by (simp_all add: same_setup_def stream_of_def)
  have "max_or ?M' = climb ub f q"
  proof (rule max_or_extend)
    show "p \<in># ?M' \<longleftrightarrow> p \<in># ?M \<or> ?Q p" for p
      unfolding views placed_positions [OF inv(1) u fits swa t] row_tokens [OF ub] ..
    show "max_or ?M \<le> climb ub f q"
      unfolding old by (rule climb_ge)
    show "- 1 < p \<and> p \<le> climb ub f q" if "?Q p" for p
      using that tok climb_ge(2) by (fastforce simp: token_ok_def token_at_def)
    show "climb ub f q = max_or ?M \<or> ?Q (climb ub f q)"
      unfolding old by (rule climb_cases)
  qed
  then show ?thesis
    using new by simp
qed

text \<open>With rows in order the two agree.\<close>

definition rows_ordered :: "'e llama_ubatch \<Rightarrow> bool" where
  "rows_ordered ub \<longleftrightarrow> list_all (\<lambda>k. ub_pos ub ! k \<le> last_pos_of ub (k div ub_n_seq_tokens ub)) [0..<ub_n_tokens ub]"

lemma ordered_climb:
  assumes ub: "step_ready kv n ub" and ord: "rows_ordered ub" and pos: "f q \<le> advance ub f q"
  shows "climb ub f q = advance ub f q"
proof -
  have u: "rs_ubatch n ub" "tokens_placed kv ub"
    using ub by (simp_all add: step_ready_def)
  have T: "ub_n_tokens ub = ub_n_seqs ub * ub_n_seq_tokens ub" "0 < ub_n_seq_tokens ub"
    using u by (auto simp: tokens_placed_def rs_ubatch_def)
  have in_set: "ubatch_set ub q = Some (k div ub_n_seq_tokens ub)" "p \<le> last_pos_of ub (k div ub_n_seq_tokens ub)"
    if "k < ub_n_tokens ub" "token_at ub k q p" for k p
  proof -
    have "k div ub_n_seq_tokens ub < ub_n_seqs ub"
      using that(1) T by (simp add: less_mult_imp_div_less)
    then show "ubatch_set ub q = Some (k div ub_n_seq_tokens ub)" "p \<le> last_pos_of ub (k div ub_n_seq_tokens ub)"
      using tokens_placedD(1) [OF u(2) that(1)] that ubatch_set_iff(2) [OF u(1)] ord by (simp_all add: token_at_def rows_ordered_def list_all_iff)
  qed
  have le: "climb ub f q \<le> advance ub f q"
    using climb_cases [of ub f q] pos in_set by (auto simp: advance_def)
  moreover have "advance ub f q \<le> climb ub f q"
  proof (cases "ubatch_set ub q")
    case None
    then show ?thesis
      using climb_ge(1) by (simp add: advance_def)
  next
    case (Some s)
    then have s: "s < ub_n_seqs ub" "q \<in> set (seqs_of ub s)"
      using ubatch_set_iff(2) [OF u(1)] by simp_all
    let ?k = "s * ub_n_seq_tokens ub + ub_n_seq_tokens ub - 1"
    have "?k div ub_n_seq_tokens ub = s"
      using T(2) by (intro div_nat_eqI) (simp_all add: add.commute mult.commute)
    then have k: "?k < ub_n_tokens ub" "?k div ub_n_seq_tokens ub = s"
      using seq_index(2) [OF s(1) T(2)] T(1) by simp_all
    then have "token_at ub ?k q (last_pos_of ub s)"
      using tokens_placedD(1) [OF u(2) k(1)] s(2) by (simp add: token_at_def last_pos_of_def)
    then show ?thesis
      using climb_ge(2) [OF k(1)] Some by (simp add: advance_def)
  qed
  ultimately show ?thesis
    by simp
qed

section \<open>A whole batch\<close>

text \<open>The loop of \<open>llama_context::decode\<close> over the ubatches of a context, as far as the memory is concerned. The attention
  scores that choose the pages to evict may differ from step to step.\<close>

partial_function (option) hybrid_run :: "(nat \<Rightarrow> 'f tri_attention) \<Rightarrow> 'e hybrid_context \<Rightarrow> hybrid \<Rightarrow> hybrid option" where
  "hybrid_run tri ctx m = do {
     (ctx1, m1) \<leftarrow> hybrid_ctx_apply (tri (hc_i_next ctx)) True ctx m;
     (more, ctx2) \<leftarrow> hybrid_ctx_next ctx1;
     if more then hybrid_run tri ctx2 m1 else Some m1 }"

declare hybrid_run.simps [code]

definition in_step :: "hybrid \<Rightarrow> bool" where
  "in_step m \<longleftrightarrow> list_all (\<lambda>q. kv_seq_pos_max (int q) (hy_attn m) = Some (rs_seq_pos_max (int q) (hy_recr m))) [0..<rs_size (hy_recr m)]"

text \<open>The rows are in order and no ubatch of a list goes back behind the last positions that the ones before it have left.\<close>

fun ordered_run :: "nat \<Rightarrow> (nat \<Rightarrow> int) \<Rightarrow> 'e llama_ubatch list \<Rightarrow> bool" where
  "ordered_run n f [] \<longleftrightarrow> True"
| "ordered_run n f (ub # ubs) \<longleftrightarrow> rows_ordered ub \<and> list_all (\<lambda>q. f q \<le> advance ub f q) [0..<n] \<and> ordered_run n (advance ub f) ubs"

lemma climb_cong: "f q = g q \<Longrightarrow> climb ub f q = climb ub g q"
  by (simp add: climb_def)

lemma ordered_run_climbs:
  assumes "list_all (step_ready kv n) ubs" "ordered_run n g ubs" "q < n" "f q = g q"
  shows "fold climb ubs f q = fold advance ubs g q"
  using assms
proof (induction ubs arbitrary: f g)
  case (Cons ub ubs)
  then have "climb ub g q = advance ub g q"
    by (intro ordered_climb [of kv n]) (simp_all add: list_all_iff)
  then have "climb ub f q = advance ub g q"
    using climb_cong Cons.prems(4) by metis
  then show ?case
    using Cons by simp
qed simp

lemma slot_pool_ok:
  assumes inv: "kv_cache_inv n kv" and fits: "slot_fits n kv ub si" and ub: "ub_ready kv ub" and inv1: "kv_cache_inv n kv1" and same: "same_setup kv kv1"
  shows "\<exists>pool. pg_alloc_for_sinfo tri (si_strm si) (si_idxs si) (kv_pool kv1) = Some pool \<and> kv_cache_inv n (kv1\<lparr>kv_pool := pool\<rparr>)"
proof (cases "pg_enabled (kv_pool kv1)")
  case True
  have pool: "pool_inv (kv_n_stream kv1) n (kv_pool kv1)"
    using inv1 by (simp add: kv_cache_inv_def)
  note ok = slot_fits_ok [OF inv fits ub]
  have d: "distinct (si_strm si)"
    using ok(1) by (auto simp: slot_ok_def Let_def)
  have l: "length (si_idxs si) = length (si_strm si)"
    using ok(2) fits by (simp add: slot_fits_def)
  have s: "s < kv_n_stream kv1" if "s \<in> set (si_strm si)" for s
    using that fits row_stream_less [OF inv, of ub] ub same by (auto simp: slot_fits_def ub_ready_def same_setup_def)
  have c: "c < n" if "xs \<in> set (si_idxs si)" "c \<in> set xs" for xs c
    using that fits by (auto simp: slot_fits_def in_set_conv_nth [of xs])
  obtain pool' where "pg_alloc_for_sinfo tri (si_strm si) (si_idxs si) (kv_pool kv1) = Some pool'" "pool_inv (kv_n_stream kv1) n pool'"
    by (rule pg_alloc_for_sinfo_spec [OF pool True d _ l]) (use s c in blast)+
  then show ?thesis
    using inv1 by (auto simp: kv_cache_inv_def)
qed (use inv1 in \<open>simp add: pg_alloc_for_sinfo_def\<close>)

lemma cache_step:
  assumes inv: "kv_cache_inv n kv" and bnd: "kv_bounded kv" and swa: "kv_swa_type kv = SWA_NONE" and fits: "fits_chain n kv (si # sis) (ub # ubs)"
    and ub: "step_ready kv r ub" and r: "r \<le> LLAMA_MAX_SEQ" and pos: "\<forall>q < r. kv_seq_pos_max (int q) kv = Some (f q)"
    and ctx: "cx_status c = STATUS_SUCCESS" "cx_ubatches c = us" "cx_sinfos c = ss" "cx_i_cur c < length us" "cx_i_cur c < length ss"
      "us ! cx_i_cur c = ub" "ss ! cx_i_cur c = si"
  shows "\<exists>x kv'. ctx_apply tri computed c kv = Some (c\<lparr>cx_n_kv := x\<rparr>, kv') \<and> kv_cache_inv n kv' \<and> kv_bounded kv' \<and> same_setup kv kv' \<and>
    fits_chain n kv' sis ubs \<and> (\<forall>q < r. kv_seq_pos_max (int q) kv' = Some (climb ub f q))"
proof -
  have u: "ub_ready kv ub" and f: "slot_fits n kv ub si"
    using ub fits by (simp_all add: step_ready_def)
  obtain kv1 where kv1: "apply_ubatch si ub kv = Some kv1" "kv_cache_inv n kv1" "same_setup kv kv1" "kv_bounded kv1"
    "kv_views kv1 = place_rows ub si (n_rows kv ub) (kv_views kv)"
    using apply_slot_plain [OF inv bnd u f swa] by blast
  obtain pool where pool: "pg_alloc_for_sinfo tri (si_strm si) (si_idxs si) (kv_pool kv1) = Some pool" "kv_cache_inv n (kv1\<lparr>kv_pool := pool\<rparr>)"
    using slot_pool_ok [OF inv f u kv1(2,3)] by blast
  let ?kv = "kv1\<lparr>kv_pool := pool\<rparr>"
  have e: "same_setup kv ?kv" "kv_views ?kv = place_rows ub si (n_rows kv ub) (kv_views kv)" "kv_bounded ?kv"
    using kv1(3-5) by (simp_all add: same_setup_def kv_bounded_views swa_ok_def)
  have "us \<noteq> []"
    using ctx(4) by auto
  then have "ctx_apply tri computed c kv = Some (c\<lparr>cx_n_kv := get_n_kv si kv1\<rparr>, ?kv)"
    using ctx kv1(1) pool(1) by (simp add: ctx_apply_def llama_memory_status_is_fail_def)
  moreover have "fits_chain n ?kv sis ubs"
    using fits pool(2) e(1,2) by simp
  moreover have "kv_seq_pos_max (int q) ?kv = Some (climb ub f q)" if "q < r" for q
    using cache_step_positions [OF inv pool(2) e(1) f e(2) swa ub that r] pos that by blast
  ultimately show ?thesis
    using pool(2) e by blast
qed

lemma recurrent_step:
  assumes inv: "rs_inv m" and ub: "rs_ubatch (rs_size m) ub" and pos: "\<forall>q < rs_size m. rs_seq_pos_max (int q) m = f q"
    and ctx: "rc_status c = STATUS_SUCCESS" "rc_ubatches c = us" "rc_i_next c < length us" "us ! rc_i_next c = ub"
  shows "\<exists>m'. rs_ctx_apply c m = Some m' \<and> rs_inv m' \<and> rs_size m' = rs_size m \<and> (\<forall>q < rs_size m. rs_seq_pos_max (int q) m' = advance ub f q)"
proof -
  obtain h m1 a b P m2 m3 m' where run: "rs_find_slot ub m = Some (True, m')" "slot_run ub m h m1 a b P m2 m3 m'"
    using find_slot_found [OF inv ub] inv ub by (auto simp: slot_run_def)
  have "us \<noteq> []"
    using ctx(3) by auto
  then have "rs_ctx_apply c m = Some m'"
    using ctx run(1) by (simp add: rs_ctx_apply_def llama_memory_status_is_fail_def)
  then show ?thesis
    using slot_inv [OF run(2)] slot_runD(7) [OF run(2)] slot_positions [OF run(2)] pos by (auto simp: advance_def split: option.splits)
qed

lemma step_ready_cong: "same_setup kv kv' \<Longrightarrow> step_ready kv' n ub = step_ready kv n ub"
  by (simp add: step_ready_def tokens_placed_def setup_cong stream_of_def) (simp add: same_setup_def)

lemma fits_chain_length:
  assumes "kv_cache_inv n kv" "kv_bounded kv" "kv_swa_type kv = SWA_NONE" "\<forall>ub \<in> set ubs. ub_ready kv ub" "fits_chain n kv sis ubs"
  shows "length sis = length ubs"
  using assms
proof (induction ubs arbitrary: kv sis)
  case Nil
  then show ?case
    by (cases sis) simp_all
next
  case (Cons ub ubs)
  then obtain si sis' where s: "sis = si # sis'"
    by (cases sis) simp_all
  have "ub_ready kv ub" "slot_fits n kv ub si"
    using Cons.prems(4,5) s by simp_all
  from apply_slot_plain [OF Cons.prems(1,2) this Cons.prems(3)]
  obtain kv' where kv': "kv_cache_inv n kv'" "same_setup kv kv'" "kv_bounded kv'" "kv_views kv' = place_rows ub si (n_rows kv ub) (kv_views kv)"
    by blast
  have "fits_chain n kv' sis' ubs"
    using Cons.prems(5) s kv' by simp
  moreover have "kv_swa_type kv' = SWA_NONE" "\<forall>ub \<in> set ubs. ub_ready kv' ub"
    using kv'(2) Cons.prems(3,4) by (simp_all add: setup_cong(1) [OF kv'(2)]) (simp add: same_setup_def)
  ultimately show ?case
    using Cons.IH [OF kv'(1,3)] s by simp
qed

text \<open>A context that has come to its \<open>i\<close>-th ubatch, and a memory whose parts have the last positions \<open>f\<close> and \<open>g\<close>.\<close>

definition hybrid_at :: "nat \<Rightarrow> slot_info list \<Rightarrow> 'e llama_ubatch list \<Rightarrow> 'e hybrid_context \<Rightarrow> bool" where
  "hybrid_at i ss us ctx \<longleftrightarrow> hc_status ctx = STATUS_SUCCESS \<and> hc_i_next ctx = i \<and> hc_ubatches ctx = us \<and>
     (\<exists>ca cr. hc_attn ctx = Some ca \<and> hc_recr ctx = Some cr \<and> cx_status ca = STATUS_SUCCESS \<and> cx_ubatches ca = us \<and> cx_sinfos ca = ss \<and> cx_i_cur ca = i \<and>
        rc_status cr = STATUS_SUCCESS \<and> rc_ubatches cr = us \<and> rc_i_next cr = i)"

definition positions :: "nat \<Rightarrow> nat \<Rightarrow> (nat \<Rightarrow> int) \<Rightarrow> (nat \<Rightarrow> int) \<Rightarrow> hybrid \<Rightarrow> bool" where
  "positions n r f g m \<longleftrightarrow> kv_cache_inv n (hy_attn m) \<and> kv_bounded (hy_attn m) \<and> kv_swa_type (hy_attn m) = SWA_NONE \<and> rs_inv (hy_recr m) \<and> rs_size (hy_recr m) = r \<and>
     (\<forall>q < r. kv_seq_pos_max (int q) (hy_attn m) = Some (f q) \<and> rs_seq_pos_max (int q) (hy_recr m) = g q)"

lemma positionsD: "positions n r f g m \<Longrightarrow> q < r \<Longrightarrow> kv_seq_pos_max (int q) (hy_attn m) = Some (f q) \<and> rs_seq_pos_max (int q) (hy_recr m) = g q"
  by (simp add: positions_def)

lemma hybrid_step:
  assumes m: "positions n r f g m" and r: "r \<le> LLAMA_MAX_SEQ" and at: "hybrid_at i ss us ctx" and i: "i < length us" "length ss = length us"
    and fits: "fits_chain n (hy_attn m) (drop i ss) (drop i us)" and ub: "step_ready (hy_attn m) r (us ! i)"
  shows "\<exists>ctx1 m1 ctx2. hybrid_ctx_apply tri True ctx m = Some (ctx1, m1) \<and> hybrid_ctx_next ctx1 = Some (Suc i < length us, ctx2) \<and>
    hybrid_at (Suc i) ss us ctx2 \<and> positions n r (climb (us ! i) f) (advance (us ! i) g) m1 \<and> same_setup (hy_attn m) (hy_attn m1) \<and>
    fits_chain n (hy_attn m1) (drop (Suc i) ss) (drop (Suc i) us)"
proof -
  have M: "kv_cache_inv n (hy_attn m)" "kv_bounded (hy_attn m)" "kv_swa_type (hy_attn m) = SWA_NONE" "rs_inv (hy_recr m)" "rs_size (hy_recr m) = r"
    "\<forall>q < r. kv_seq_pos_max (int q) (hy_attn m) = Some (f q)" "\<forall>q < r. rs_seq_pos_max (int q) (hy_recr m) = g q"
    using m by (simp_all add: positions_def)
  obtain ca cr where c: "hc_attn ctx = Some ca" "hc_recr ctx = Some cr" "cx_status ca = STATUS_SUCCESS" "cx_ubatches ca = us" "cx_sinfos ca = ss" "cx_i_cur ca = i"
    "rc_status cr = STATUS_SUCCESS" "rc_ubatches cr = us" "rc_i_next cr = i" "hc_status ctx = STATUS_SUCCESS" "hc_i_next ctx = i" "hc_ubatches ctx = us"
    using at by (auto simp: hybrid_at_def)
  have d: "drop i us = us ! i # drop (Suc i) us" "drop i ss = ss ! i # drop (Suc i) ss"
    using i by (simp_all add: Cons_nth_drop_Suc)
  obtain x kv' where kv': "ctx_apply tri True ca (hy_attn m) = Some (ca\<lparr>cx_n_kv := x\<rparr>, kv')" "kv_cache_inv n kv'" "kv_bounded kv'" "same_setup (hy_attn m) kv'"
    "fits_chain n kv' (drop (Suc i) ss) (drop (Suc i) us)" "\<forall>q < r. kv_seq_pos_max (int q) kv' = Some (climb (us ! i) f q)"
    using cache_step [OF M(1-3) fits [unfolded d] ub r, of f ca us ss tri True] M(6) c i by auto
  have "rs_ubatch (rs_size (hy_recr m)) (us ! i)"
    using ub M(5) by (simp add: step_ready_def)
  then obtain r' where r': "rs_ctx_apply cr (hy_recr m) = Some r'" "rs_inv r'" "rs_size r' = r" "\<forall>q < r. rs_seq_pos_max (int q) r' = advance (us ! i) g q"
    using recurrent_step [OF M(4), of "us ! i" g cr us] M(5,7) c i(1) by auto
  let ?ctx1 = "ctx\<lparr>hc_attn := Some (ca\<lparr>cx_n_kv := x\<rparr>)\<rparr>" and ?m1 = "m\<lparr>hy_attn := kv', hy_recr := r'\<rparr>"
  let ?ctx2 = "?ctx1\<lparr>hc_attn := Some (ca\<lparr>cx_n_kv := x, cx_i_cur := Suc i\<rparr>), hc_recr := Some (cr\<lparr>rc_i_next := Suc i\<rparr>), hc_i_next := Suc i\<rparr>"
  have "hybrid_ctx_apply tri True ctx m = Some (?ctx1, ?m1)"
    using c kv'(1) r'(1) by (simp add: hybrid_ctx_apply_def llama_memory_status_is_fail_def)
  moreover have "hybrid_ctx_next ?ctx1 = Some (Suc i < length us, ?ctx2)"
    using c by (simp add: hybrid_ctx_next_def ctx_next_def rs_ctx_next_def Let_def not_le)
  moreover have "hybrid_at (Suc i) ss us ?ctx2"
    using c by (simp add: hybrid_at_def)
  moreover have "positions n r (climb (us ! i) f) (advance (us ! i) g) ?m1"
    using kv' r' M(3) by (simp add: positions_def same_setup_def)
  ultimately show ?thesis
    using kv'(4,5) by (intro exI [of _ ?ctx1] exI [of _ ?m1] exI [of _ ?ctx2]) simp
qed

lemma hybrid_run_ok:
  assumes "positions n r f g m" "r \<le> LLAMA_MAX_SEQ" "hybrid_at i ss us ctx" "i < length us" "length ss = length us"
    "fits_chain n (hy_attn m) (drop i ss) (drop i us)" "\<forall>ub \<in> set us. step_ready (hy_attn m) r ub"
  shows "\<exists>m'. hybrid_run tri ctx m = Some m' \<and> positions n r (fold climb (drop i us) f) (fold advance (drop i us) g) m'"
  using assms
proof (induction "length us - i" arbitrary: i f g m ctx)
  case (Suc k)
  have d: "drop i us = us ! i # drop (Suc i) us"
    using Suc.prems(4) by (simp add: Cons_nth_drop_Suc)
  have ub: "step_ready (hy_attn m) r (us ! i)"
    using Suc.prems(4,7) by simp
  obtain ctx1 m1 ctx2 where s: "hybrid_ctx_apply (tri (hc_i_next ctx)) True ctx m = Some (ctx1, m1)" "hybrid_ctx_next ctx1 = Some (Suc i < length us, ctx2)"
    "hybrid_at (Suc i) ss us ctx2" "positions n r (climb (us ! i) f) (advance (us ! i) g) m1" "same_setup (hy_attn m) (hy_attn m1)"
    "fits_chain n (hy_attn m1) (drop (Suc i) ss) (drop (Suc i) us)"
    using hybrid_step [OF Suc.prems(1-6) ub] by blast
  have run: "hybrid_run tri ctx m = (if Suc i < length us then hybrid_run tri ctx2 m1 else Some m1)"
    by (subst hybrid_run.simps) (simp add: s(1,2))
  show ?case
  proof (cases "Suc i < length us")
    case True
    have "\<forall>ub \<in> set us. step_ready (hy_attn m1) r ub"
      using Suc.prems(7) step_ready_cong [OF s(5)] by blast
    from Suc.hyps(1) [OF _ s(4) Suc.prems(2) s(3) True Suc.prems(5) s(6) this] show ?thesis
      using run True d Suc.hyps(2) by simp
  next
    case False
    then show ?thesis
      using run s(4) d by simp
  qed
qed simp

section \<open>Properties\<close>

lemma hybrid_init_success:
  assumes "hybrid_init_batch n_ubatch embd_all a m = Some (ctx, a', m1)" "hc_status ctx = STATUS_SUCCESS"
  shows "\<exists>ubs sis r kv. ctx = hybrid_ctx_batch sis ubs \<and> rs_prepare ubs (hy_recr m) = Some (True, r) \<and> prepare ubs (hy_attn m) = Some (sis, kv) \<and>
    sis \<noteq> [] \<and> m1 = m\<lparr>hy_recr := r, hy_attn := kv\<rparr>"
proof -
  have fail: "hc_status (hybrid_ctx_status STATUS_FAILED_PREPARE) \<noteq> STATUS_SUCCESS"
    by (simp add: hybrid_ctx_status_def)
  obtain ubs b where s: "split_loop (if embd_all then split_seq n_ubatch else split_equal n_ubatch True) (split_reset a) = Some (ubs, b)"
    using assms(1) unfolding hybrid_init_batch_def bind_Some_iff by (metis surj_pair)
  then have "\<not> ba_n_used b < get_n_tokens b"
    using assms fail by (auto simp: hybrid_init_batch_def)
  with s have e: "hybrid_init_batch n_ubatch embd_all a m = do {
       (ok, r) \<leftarrow> rs_prepare ubs (hy_recr m);
       if \<not> ok then Some (hybrid_ctx_status STATUS_FAILED_PREPARE, b, m\<lparr>hy_recr := r\<rparr>)
       else do {
         (sis, kv) \<leftarrow> prepare ubs (hy_attn m);
         Some (if sis = [] then hybrid_ctx_status STATUS_FAILED_PREPARE else hybrid_ctx_batch sis ubs, b, m\<lparr>hy_recr := r, hy_attn := kv\<rparr>) } }"
    by (simp add: hybrid_init_batch_def Let_def cong: if_cong)
  obtain ok r where r: "rs_prepare ubs (hy_recr m) = Some (ok, r)"
    using assms(1) e by (cases "rs_prepare ubs (hy_recr m)") auto
  then have ok
    using assms e fail by (cases ok) auto
  moreover obtain sis kv where "prepare ubs (hy_attn m) = Some (sis, kv)"
    using assms(1) e r \<open>ok\<close> by (cases "prepare ubs (hy_attn m)") auto
  ultimately show ?thesis
    using assms e r fail by (intro exI [of _ ubs] exI [of _ sis] exI [of _ r] exI [of _ kv]) (auto split: if_splits)
qed

lemma prepare_nil: "prepare [] kv = Some (sis, kv') \<Longrightarrow> sis = []"
  by (auto simp: prepare_def bind_Some_iff)

lemma positions_kept:
  assumes "kv_cache_inv n (hy_attn m)" "kv_bounded (hy_attn m)" "kv_swa_type (hy_attn m) = SWA_NONE" "rs_size (hy_recr m) \<le> LLAMA_MAX_SEQ"
    "kv_cache_inv n (hy_attn m1)" "same_setup (hy_attn m) (hy_attn m1)" "kv_views (hy_attn m1) = kv_views (hy_attn m)"
    "rs_inv (hy_recr m1)" "rs_cells (hy_recr m1) = rs_cells (hy_recr m)" "rs_size (hy_recr m1) = rs_size (hy_recr m)"
  shows "positions n (rs_size (hy_recr m)) (\<lambda>q. the (kv_seq_pos_max (int q) (hy_attn m))) (\<lambda>q. rs_seq_pos_max (int q) (hy_recr m)) m1"
proof -
  have "kv_seq_pos_max (int q) (hy_attn m1) = Some (the (kv_seq_pos_max (int q) (hy_attn m)))" if "q < rs_size (hy_recr m)" for q
  proof -
    have q: "seq_in_range (int q)"
      using that assms(4) by (simp add: seq_in_range_def)
    have "stream_of (hy_attn m1) (int q) = stream_of (hy_attn m) (int q)"
      using assms(6) by (simp add: stream_of_def same_setup_def)
    then show ?thesis
      using kv_pos_max_or [OF assms(1) q] kv_pos_max_or [OF assms(5) q] assms(7) by simp
  qed
  moreover have "kv_bounded (hy_attn m1)" "kv_swa_type (hy_attn m1) = SWA_NONE"
    using assms(2,3,6,7) by (simp_all add: kv_bounded_views swa_ok_def same_setup_def)
  ultimately show ?thesis
    using assms(5,8-10) by (simp add: positions_def rs_seq_pos_max_def)
qed

lemma hybrid_batch_runs:
  assumes "kv_cache_inv n (hy_attn m)" "kv_bounded (hy_attn m)" "kv_swa_type (hy_attn m) = SWA_NONE" "rs_inv (hy_recr m)" "rs_size (hy_recr m) \<le> LLAMA_MAX_SEQ"
    "hybrid_init_batch n_ubatch embd_all a m = Some (ctx, a', m1)" "hc_status ctx = STATUS_SUCCESS"
    "list_all (step_ready (hy_attn m) (rs_size (hy_recr m))) (hc_ubatches ctx)"
  shows "kv_views (hy_attn m1) = kv_views (hy_attn m) \<and> rs_cells (hy_recr m1) = rs_cells (hy_recr m) \<and> (\<exists>m2. hybrid_run tri ctx m1 = Some m2 \<and>
      positions n (rs_size (hy_recr m)) (fold climb (hc_ubatches ctx) (\<lambda>q. the (kv_seq_pos_max (int q) (hy_attn m))))
        (fold advance (hc_ubatches ctx) (\<lambda>q. rs_seq_pos_max (int q) (hy_recr m))) m2)"
proof -
  let ?r = "rs_size (hy_recr m)" and ?f = "\<lambda>q. the (kv_seq_pos_max (int q) (hy_attn m))" and ?g = "\<lambda>q. rs_seq_pos_max (int q) (hy_recr m)"
  obtain ubs sis r kv where i: "ctx = hybrid_ctx_batch sis ubs" "rs_prepare ubs (hy_recr m) = Some (True, r)" "prepare ubs (hy_attn m) = Some (sis, kv)"
    "sis \<noteq> []" "m1 = m\<lparr>hy_recr := r, hy_attn := kv\<rparr>"
    using hybrid_init_success [OF assms(6,7)] by blast
  have us: "hc_ubatches ctx = ubs" "ubs \<noteq> []"
    using i(1,3,4) prepare_nil by (auto simp: hybrid_ctx_batch_def hybrid_ctx_of_def)
  have sr: "\<forall>ub \<in> set ubs. step_ready (hy_attn m) ?r ub" "\<forall>ub \<in> set ubs. ub_ready (hy_attn m) ub" "list_all (rs_ubatch ?r) ubs"
    using assms(8) us by (auto simp: list_all_iff step_ready_def)
  note p = prepare_fits [OF assms(1-3) sr(2) us(2) i(3)]
  have r: "rs_cells r = rs_cells (hy_recr m)" "rs_size r = ?r" "rs_inv r"
    using rs_prepare_ok [OF assms(4) sr(3)] i(2) rs_inv_cong [OF assms(4), of r] rs_invD(4) [OF assms(4)] by auto
  have ag: "positions n ?r ?f ?g m1"
    using positions_kept [OF assms(1-3,5), of m1] p(1-3) r i(5) by simp
  have ready: "\<forall>ub \<in> set ubs. step_ready (hy_attn m1) ?r ub" "\<forall>ub \<in> set ubs. ub_ready kv ub"
    using sr(1,2) i(5) by (simp_all add: step_ready_cong [OF p(2)] setup_cong(1) [OF p(2)])
  have fits: "fits_chain n kv sis ubs"
    using p(4) i(4) by blast
  have len: "length sis = length ubs"
    using fits_chain_length [OF p(1) _ _ ready(2) fits] ag i(5) by (simp add: positions_def)
  have "hybrid_at 0 sis ubs ctx"
    by (simp add: i(1) hybrid_at_def hybrid_ctx_batch_def hybrid_ctx_of_def ctx_batch_def ctx_status_def rs_ctx_batch_def llama_memory_status_combine_def status_has_update_def)
  from hybrid_run_ok [OF ag assms(5) this, of tri] show ?thesis
    using us len fits ready(1) i(5) p(3) r(1) by auto
qed

text \<open>C7. The two parts of a hybrid memory stay in step over a whole batch: they agree on the last position of every sequence before the batch,
  the batch is accepted by \<open>init_batch\<close>, the rows of its ubatches are in order and no ubatch goes back behind an earlier one. Then \<open>init_batch\<close>
  has left the cells of both parts as they were, and placing all ubatches, one after the other in the slots that were prepared for the cache and in slots that
  the recurrent memory searches again, returns (also with a paged V cache), keeps the invariants of both parts and leaves them in step: for every sequence both
  report the position of its last token, or the old one for a sequence that is not in the batch.\<close>

theorem hybrid_batch_in_step:
  assumes "kv_cache_inv n (hy_attn m)" "kv_bounded (hy_attn m)" "kv_swa_type (hy_attn m) = SWA_NONE" "rs_inv (hy_recr m)" "rs_size (hy_recr m) \<le> LLAMA_MAX_SEQ"
    "in_step m" "hybrid_init_batch n_ubatch embd_all a m = Some (ctx, a', m1)" "hc_status ctx = STATUS_SUCCESS"
    "list_all (step_ready (hy_attn m) (rs_size (hy_recr m))) (hc_ubatches ctx)"
    "ordered_run (rs_size (hy_recr m)) (\<lambda>q. rs_seq_pos_max (int q) (hy_recr m)) (hc_ubatches ctx)"
  shows "kv_views (hy_attn m1) = kv_views (hy_attn m) \<and> rs_cells (hy_recr m1) = rs_cells (hy_recr m) \<and>
    (\<exists>m2. hybrid_run tri ctx m1 = Some m2 \<and> kv_cache_inv n (hy_attn m2) \<and> rs_inv (hy_recr m2) \<and> in_step m2 \<and>
      (\<forall>q < rs_size (hy_recr m). hybrid_seq_pos_max (int q) m2 =
         Some (fold advance (hc_ubatches ctx) (\<lambda>q. rs_seq_pos_max (int q) (hy_recr m)) q)))"
proof -
  let ?r = "rs_size (hy_recr m)" and ?f = "\<lambda>q. the (kv_seq_pos_max (int q) (hy_attn m))" and ?g = "\<lambda>q. rs_seq_pos_max (int q) (hy_recr m)"
  have "fold climb (hc_ubatches ctx) ?f q = fold advance (hc_ubatches ctx) ?g q" if "q < ?r" for q
    using ordered_run_climbs [OF assms(9,10) that, of ?f] assms(6) that by (simp add: in_step_def list_all_iff)
  then have "in_step m2 \<and> kv_cache_inv n (hy_attn m2) \<and> rs_inv (hy_recr m2) \<and>
      (\<forall>q < ?r. hybrid_seq_pos_max (int q) m2 = Some (fold advance (hc_ubatches ctx) ?g q))"
    if "positions n ?r (fold climb (hc_ubatches ctx) ?f) (fold advance (hc_ubatches ctx) ?g) m2" for m2
    using that by (auto simp: positions_def in_step_def list_all_iff hybrid_seq_pos_max_def)
  then show ?thesis
    using hybrid_batch_runs [OF assms(1-5,7-9), of tri] by blast
qed

section \<open>Two tokens of one sequence\<close>

definition demo_pair :: hybrid where
  "demo_pair = \<lparr>hy_attn = demo_kv, hy_recr = rs_new 2\<rparr>"

definition demo_batch3 :: "int list \<Rightarrow> unit llama_batch" where
  "demo_batch3 poss = \<lparr>b_n_tokens = 2, b_token = Some [11, 12], b_embd = None, b_pos = Some poss,
     b_n_seq_id = Some [1, 1], b_seq_id = Some [[0], [0]], b_logits = None\<rparr>"

definition demo_one :: "int \<Rightarrow> int \<Rightarrow> unit llama_ubatch" where
  "demo_one p0 p1 =
     \<lparr>ub_equal_seqs = True, ub_n_tokens = 2, ub_n_seq_tokens = 2, ub_n_seqs = 1, ub_n_seqs_unq = 1, ub_n_pos = 1, ub_token = Some [11, 12], ub_embd = None,
      ub_pos = [p0, p1], ub_n_seq_id = [1, 1], ub_seq_id = [[0], [0]], ub_seq_id_unq = [0], ub_seq_idx = [0] @ replicate 255 (- 1), ub_output = [0, 1]\<rparr>"

lemma hybrid_init_single:
  assumes "kv_cache_inv n (hy_attn m)" "kv_bounded (hy_attn m)" "kv_swa_type (hy_attn m) = SWA_NONE" "rs_inv (hy_recr m)"
    "step_ready (hy_attn m) (rs_size (hy_recr m)) ub" "\<not> (case find_slot (hy_attn m) ub False of None \<Rightarrow> True | Some si \<Rightarrow> si_empty si)"
    "case split_loop (split_equal n_ubatch True) (split_reset a) of None \<Rightarrow> False | Some (ubs, a') \<Rightarrow> ubs = [ub] \<and> \<not> ba_n_used a' < get_n_tokens a'"
  shows "\<exists>ctx a' m1. hybrid_init_batch n_ubatch False a m = Some (ctx, a', m1) \<and> hc_status ctx = STATUS_SUCCESS \<and> hc_ubatches ctx = [ub]"
proof -
  obtain a' where a': "split_loop (split_equal n_ubatch True) (split_reset a) = Some ([ub], a')" "\<not> ba_n_used a' < get_n_tokens a'"
    using assms(7) by (auto split: option.splits)
  have u: "ub_ready (hy_attn m) ub" "list_all (rs_ubatch (rs_size (hy_recr m))) [ub]"
    using assms(5) by (simp_all add: step_ready_def)
  obtain sis kv2 where "prepare [ub] (hy_attn m) = Some (sis, kv2)" "sis \<noteq> []"
    using prepare_single [OF assms(1-3) u(1) assms(6)] by blast
  moreover obtain m' where "rs_prepare [ub] (hy_recr m) = Some (True, m')"
    using rs_prepare_ok [OF assms(4) u(2)] by blast
  ultimately have "hybrid_init_batch n_ubatch False a m = Some (hybrid_ctx_batch sis [ub], a', m\<lparr>hy_recr := m', hy_attn := kv2\<rparr>)"
    using a' by (simp add: hybrid_init_batch_def)
  then show ?thesis
    by (simp add: hybrid_ctx_batch_def hybrid_ctx_of_def ctx_batch_def ctx_status_def rs_ctx_batch_def llama_memory_status_combine_def status_has_update_def)
qed

lemma demo_pair_ok: "kv_cache_inv 4 (hy_attn demo_pair)" "kv_bounded (hy_attn demo_pair)" "kv_swa_type (hy_attn demo_pair) = SWA_NONE"
  "rs_inv (hy_recr demo_pair)" "rs_size (hy_recr demo_pair) = 2" "kv_seq_pos_max 0 (hy_attn demo_pair) = Some (- 1)" "kv_seq_pos_max 1 (hy_attn demo_pair) = Some (- 1)"
  "rs_seq_pos_max 0 (hy_recr demo_pair) = - 1" "rs_seq_pos_max 1 (hy_recr demo_pair) = - 1"
proof -
  show "kv_cache_inv 4 (hy_attn demo_pair)" "kv_bounded (hy_attn demo_pair)" "rs_inv (hy_recr demo_pair)"
    using demo_kv_ok(1,2) rs_new_inv [of 2] by (simp_all add: demo_pair_def)
qed (code_simp)+

lemma demo_one_ok: "step_ready demo_kv 2 (demo_one 0 1)" "step_ready demo_kv 2 (demo_one 1 0)"
  "\<not> (case find_slot demo_kv (demo_one 0 1) False of None \<Rightarrow> True | Some si \<Rightarrow> si_empty si)"
  "\<not> (case find_slot demo_kv (demo_one 1 0) False of None \<Rightarrow> True | Some si \<Rightarrow> si_empty si)"
  "case split_loop (split_equal 2 True) (split_reset (demo_init (demo_batch3 [0, 1]))) of None \<Rightarrow> False
   | Some (ubs, a') \<Rightarrow> ubs = [demo_one 0 1] \<and> \<not> ba_n_used a' < get_n_tokens a'"
  "case split_loop (split_equal 2 True) (split_reset (demo_init (demo_batch3 [1, 0]))) of None \<Rightarrow> False
   | Some (ubs, a') \<Rightarrow> ubs = [demo_one 1 0] \<and> \<not> ba_n_used a' < get_n_tokens a'"
  by code_simp+

lemma demo_inits:
  "\<exists>ctx a' m1. hybrid_init_batch 2 False (demo_init (demo_batch3 [0, 1])) demo_pair = Some (ctx, a', m1) \<and> hc_status ctx = STATUS_SUCCESS \<and> hc_ubatches ctx = [demo_one 0 1]"
  "\<exists>ctx a' m1. hybrid_init_batch 2 False (demo_init (demo_batch3 [1, 0])) demo_pair = Some (ctx, a', m1) \<and> hc_status ctx = STATUS_SUCCESS \<and> hc_ubatches ctx = [demo_one 1 0]"
proof -
  have e: "hy_attn demo_pair = demo_kv"
    by (simp add: demo_pair_def)
  note init = hybrid_init_single [OF demo_pair_ok(1-4), unfolded demo_pair_ok(5) e]
  show "\<exists>ctx a' m1. hybrid_init_batch 2 False (demo_init (demo_batch3 [0, 1])) demo_pair = Some (ctx, a', m1) \<and> hc_status ctx = STATUS_SUCCESS \<and> hc_ubatches ctx = [demo_one 0 1]"
    by (rule init [OF demo_one_ok(1,3,5)])
  show "\<exists>ctx a' m1. hybrid_init_batch 2 False (demo_init (demo_batch3 [1, 0])) demo_pair = Some (ctx, a', m1) \<and> hc_status ctx = STATUS_SUCCESS \<and> hc_ubatches ctx = [demo_one 1 0]"
    by (rule init [OF demo_one_ok(2,4,6)])
qed

lemma demo_advances:
  "ordered_run 2 (\<lambda>q. rs_seq_pos_max (int q) (hy_recr demo_pair)) [demo_one 0 1]"
  "advance (demo_one 0 1) f 0 = 1" "advance (demo_one 0 1) f 1 = f 1" "advance (demo_one 1 0) f 0 = 0" "climb (demo_one 1 0) f 0 = max (max (f 0) 1) 0"
  by code_simp+

theorem hybrid_batch_in_step_witness:
  "\<exists>ctx a' m1 m2. hybrid_init_batch 2 False (demo_init (demo_batch3 [0, 1])) demo_pair = Some (ctx, a', m1) \<and>
     hybrid_run (\<lambda>_. undefined :: int tri_attention) ctx m1 = Some m2 \<and> in_step m2 \<and> hybrid_seq_pos_max 0 m2 = Some 1 \<and> hybrid_seq_pos_max 1 m2 = Some (- 1)"
proof -
  obtain ctx a' m1 where i: "hybrid_init_batch 2 False (demo_init (demo_batch3 [0, 1])) demo_pair = Some (ctx, a', m1)" "hc_status ctx = STATUS_SUCCESS"
    "hc_ubatches ctx = [demo_one 0 1]"
    using demo_inits(1) by blast
  have s: "in_step demo_pair" "rs_size (hy_recr demo_pair) \<le> LLAMA_MAX_SEQ" "hy_attn demo_pair = demo_kv"
    using demo_pair_ok(5-9) by (simp_all add: in_step_def LLAMA_MAX_SEQ_def demo_pair_def upt_rec)
  obtain m2 where m2: "hybrid_run (\<lambda>_. undefined :: int tri_attention) ctx m1 = Some m2" "in_step m2"
    "\<forall>q < 2. hybrid_seq_pos_max (int q) m2 = Some (fold advance [demo_one 0 1] (\<lambda>q. rs_seq_pos_max (int q) (hy_recr demo_pair)) q)"
    using hybrid_batch_in_step [OF demo_pair_ok(1-4) s(2,1) i(1,2), of "\<lambda>_. undefined :: int tri_attention"] demo_one_ok(1) demo_advances(1)
    unfolding i(3) demo_pair_ok(5) s(3) by auto
  have "hybrid_seq_pos_max 0 m2 = Some 1" "hybrid_seq_pos_max 1 m2 = Some (- 1)"
    using m2(3) [rule_format, of 0] m2(3) [rule_format, of 1] demo_advances(2,3) demo_pair_ok(9) by simp_all
  then show ?thesis
    using i(1) m2(1,2) by blast
qed

text \<open>Without the order the parts fall out of step. A batch with the positions 1, 0 for one sequence, which the allocator accepts, is prepared and
  placed without an error. Afterwards the last position of the sequence is 1 in the cache and 0 in the recurrent memory; the hybrid memory reports the smaller
  one, so that the allocator asks for position 1 in the next batch, which the cache already holds.\<close>

theorem hybrid_out_of_step:
  "\<exists>ctx a' m1 m2. fst (the (allocr_init (demo_batch3 [1, 0]) 100 None 2 False (allocr_new 1))) \<and>
     hybrid_init_batch 2 False (demo_init (demo_batch3 [1, 0])) demo_pair = Some (ctx, a', m1) \<and> hc_status ctx = STATUS_SUCCESS \<and>
     hybrid_run tri ctx m1 = Some m2 \<and> kv_seq_pos_max 0 (hy_attn m2) = Some 1 \<and> rs_seq_pos_max 0 (hy_recr m2) = 0 \<and> hybrid_seq_pos_max 0 m2 = Some 0"
proof -
  obtain ctx a' m1 where i: "hybrid_init_batch 2 False (demo_init (demo_batch3 [1, 0])) demo_pair = Some (ctx, a', m1)" "hc_status ctx = STATUS_SUCCESS"
    "hc_ubatches ctx = [demo_one 1 0]"
    using demo_inits(2) by blast
  have s: "rs_size (hy_recr demo_pair) \<le> LLAMA_MAX_SEQ" "hy_attn demo_pair = demo_kv"
    using demo_pair_ok(5) by (simp_all add: LLAMA_MAX_SEQ_def demo_pair_def)
  let ?f = "\<lambda>q. the (kv_seq_pos_max (int q) demo_kv)" and ?g = "\<lambda>q. rs_seq_pos_max (int q) (hy_recr demo_pair)"
  obtain m2 where m2: "hybrid_run tri ctx m1 = Some m2" "positions 4 2 (fold climb [demo_one 1 0] ?f) (fold advance [demo_one 1 0] ?g) m2"
    using hybrid_batch_runs [OF demo_pair_ok(1-4) s(1) i(1,2), of tri] demo_one_ok(2) unfolding i(3) demo_pair_ok(5) s(2) by auto
  have "kv_seq_pos_max (int 0) (hy_attn m2) = Some (climb (demo_one 1 0) ?f 0)" "rs_seq_pos_max (int 0) (hy_recr m2) = advance (demo_one 1 0) ?g 0"
    using positionsD [OF m2(2), of 0] by simp_all
  moreover have "climb (demo_one 1 0) ?f 0 = 1"
    using demo_pair_ok(6) s(2) by (simp add: demo_advances(5))
  ultimately have "kv_seq_pos_max 0 (hy_attn m2) = Some 1" "rs_seq_pos_max 0 (hy_recr m2) = 0"
    by (simp_all add: demo_advances(4))
  moreover have "fst (the (allocr_init (demo_batch3 [1, 0]) 100 None 2 False (allocr_new 1)))"
    by code_simp
  ultimately show ?thesis
    using i(1,2) m2(1) by (auto simp: hybrid_seq_pos_max_def)
qed

end
