(* ===== verification/Combined_State.thy ===== *)
theory Combined_State
  imports Combined_Step
begin

text \<open>
  Saving and restoring a hybrid memory: the states of the cache and of the recurrent memory one after the other. A saved memory that
  has cells in use is restored as a whole, with the last positions of all sequences. The state of an empty one clears the recurrent part of the memory
  that reads it, but not its cache.
\<close>

section \<open>Positions of a restored cache\<close>

lemma view_mset_list: "view_mset vs q = sum_list (map (\<lambda>v. cell_mset v q) vs)"
  by (simp add: view_mset_def sum_list_sum_nth atLeast0LessThan)

lemma saved_positions: "view_mset (map (saved_cell c) (KV_State.occupied c) @ replicate k None) q = view_mset (cells_view c) q"
proof -
  let ?P = "\<lambda>i. kc_pos c ! i \<noteq> - 1"
  have "sum_list (map (\<lambda>i. cell_mset (saved_cell c i) q) (filter ?P xs)) = sum_list (map (\<lambda>i. cell_mset (cell_view c i) q) xs)" for xs
    by (induction xs) (auto simp: cell_view_def saved_cell_def cell_mset_def)
  moreover have "sum_list (replicate k ({#} :: int multiset)) = {#}"
    by (induction k) simp_all
  ultimately show ?thesis
    by (simp add: view_mset_list KV_State.occupied_def cells_view_def comp_def)
qed

lemma one_stream_positions:
  assumes "kv_cache_inv n kv" "kv_n_stream kv = 1" "seq_in_range q"
  shows "kv_seq_pos_max q kv = Some (max_or (view_mset (cells_view (kv_cells kv ! 0)) (nat q)))"
proof -
  have "nat q < length (kv_seq_to_stream kv)" "0 < length (kv_cells kv)"
    using assms by (auto simp: kv_cache_inv_def seq_in_range_def)
  moreover from this have "stream_of kv q = 0"
    using assms(1,2) nth_mem [of "nat q" "kv_seq_to_stream kv"] by (auto simp: kv_cache_inv_def stream_of_def)
  ultimately show ?thesis
    using kv_pos_max_or [OF assms(1,3)] by (simp add: kv_views_def)
qed

section \<open>The round trip\<close>

lemma hybrid_roundtrip:
  assumes "kv_cache_inv n (hy_attn m)" "kv_cache_inv n2 (hy_attn m2)" "cache_fits n n2 (hy_attn m) klys (hy_attn m2) klys2"
    "rs_inv (hy_recr m)" "rs_inv (hy_recr m2)" "rs_savable n_seq_max (hy_recr m)" "n_seq_max \<le> rs_size (hy_recr m2)"
    "rs_layers_fit (rs_size (hy_recr m)) (rs_size (hy_recr m2)) rlys rlys2" "n_seq_max \<le> LLAMA_MAX_SEQ"
  shows "\<exists>bs m' klys' rlys'. hybrid_state_write False m klys rlys (- 1) = Some bs \<and>
    hybrid_state_read False n_seq_max n_pos (- 1) (m2, klys2, rlys2) (bs @ rest) = Some (True, (m', klys', rlys'), rest) \<and>
    kv_cache_inv n2 (hy_attn m') \<and> rs_inv (hy_recr m') \<and>
    (let occ = KV_State.occupied (kv_cells (hy_attn m) ! 0) in
     if occ = [] then hy_attn m' = hy_attn m2 \<and> klys' = klys2
     else layers_kept occ n n2 (kv_v_trans (hy_attn m)) 0 klys klys' \<and>
       (\<forall>q < n_seq_max. kv_seq_pos_max (int q) (hy_attn m') = kv_seq_pos_max (int q) (hy_attn m))) \<and>
    (\<forall>q < n_seq_max. q < rs_size (hy_recr m) \<longrightarrow> rs_seq_pos_max (int q) (hy_recr m') = rs_seq_pos_max (int q) (hy_recr m) \<and>
       state_of zero (mem_states (rs_size (hy_recr m')) rlys') (hy_recr m') q = state_of zero (mem_states (rs_size (hy_recr m)) rlys) (hy_recr m) q)"
proof -
  let ?occ = "KV_State.occupied (kv_cells (hy_attn m) ! 0)"
  obtain br r rlys' where r: "rs_state_write (hy_recr m) rlys (- 1) = Some br"
    "rs_state_read n_seq_max n_pos (- 1) (hy_recr m2, rlys2) (br @ rest) = Some (True, (r, rlys'), rest)" "rs_inv r"
    "\<forall>q < n_seq_max. q < rs_size (hy_recr m) \<longrightarrow> rs_seq_pos_max (int q) r = rs_seq_pos_max (int q) (hy_recr m) \<and>
       state_of zero (mem_states (rs_size r) rlys') r q = state_of zero (mem_states (rs_size (hy_recr m)) rlys) (hy_recr m) q"
    using memory_roundtrip [OF assms(4-8), of n_pos rest zero] by blast
  obtain ba a klys' where a: "state_write (hy_attn m) klys (- 1) = Some ba"
    "state_read (- 1) (hy_attn m2, klys2) (ba @ br @ rest) = Some (True, (a, klys'), br @ rest)" "kv_cache_inv n2 a" "kv_n_stream a = 1"
    "if ?occ = [] then a = hy_attn m2 \<and> klys' = klys2
     else cells_view (kv_cells a ! 0) = map (saved_cell (kv_cells (hy_attn m) ! 0)) ?occ @ replicate (n2 - length ?occ) None \<and>
       layers_kept ?occ n n2 (kv_v_trans (hy_attn m)) 0 klys klys'"
    using cache_roundtrip [OF assms(1-3), of "br @ rest"] unfolding Let_def by (elim exE conjE)
  have pos: "kv_seq_pos_max (int q) a = kv_seq_pos_max (int q) (hy_attn m)" if "?occ \<noteq> []" "q < n_seq_max" for q
  proof -
    have q: "seq_in_range (int q)"
      using that(2) assms(9) by (simp add: seq_in_range_def)
    have "kv_n_stream (hy_attn m) = 1"
      using assms(3) by (simp add: cache_fits_def)
    then show ?thesis
      using one_stream_positions [OF a(3,4) q] one_stream_positions [OF assms(1) _ q] a(5) that(1) by (simp add: saved_positions)
  qed
  let ?m' = "m2\<lparr>hy_attn := a, hy_recr := r\<rparr>"
  have "hybrid_state_write False m klys rlys (- 1) = Some (ba @ br)"
    "hybrid_state_read False n_seq_max n_pos (- 1) (m2, klys2, rlys2) ((ba @ br) @ rest) = Some (True, (?m', klys', rlys'), rest)"
    using a(1,2) r(1,2) by (simp_all add: hybrid_state_write_def hybrid_state_read_def)
  then show ?thesis
    using a(3,5) r(3,4) pos unfolding Let_def
    by (intro exI [of _ "ba @ br"] exI [of _ ?m'] exI [of _ klys'] exI [of _ rlys']) simp
qed

section \<open>Properties\<close>


text \<open>A recurrent memory in which sequence 0 has the last position 5.\<close>

definition rs_one :: memory_recurrent where
  "rs_one = \<lparr>rs_head = 0, rs_size = 2, rs_used = 1, rs_n = 1, rs_z = 0,
     rs_cells = [\<lparr>mc_pos = 5, mc_src = 0, mc_src0 = 0, mc_tail = 0, mc_seq = {0}\<rparr>, \<lparr>mc_pos = - 1, mc_src = - 1, mc_src0 = - 1, mc_tail = - 1, mc_seq = {}\<rparr>]\<rparr>"

lemma rs_one_inv: "rs_inv rs_one"
proof -
  have "Recurrent_Inv.occupied rs_one = {0}"
    by (auto simp: Recurrent_Inv.occupied_def rs_one_def less_2_cases_iff)
  then show ?thesis
    by (auto simp: rs_inv_def tails_ok_def cell_ok_def rs_one_def less_2_cases_iff)
qed

definition demo_full :: hybrid where
  "demo_full = \<lparr>hy_attn = demo_saved, hy_recr = rs_one\<rparr>"

definition demo_empty :: hybrid where
  "demo_empty = \<lparr>hy_attn = demo_unified, hy_recr = rs_new 2\<rparr>"

lemma demo_hybrids:
  "kv_cache_inv 4 (hy_attn demo_full)" "kv_cache_inv 4 (hy_attn demo_empty)" "rs_inv (hy_recr demo_full)" "rs_inv (hy_recr demo_empty)"
  "1 \<le> rs_size (hy_recr demo_full)" "1 \<le> rs_size (hy_recr demo_empty)" "1 \<le> LLAMA_MAX_SEQ" "rs_size (hy_recr demo_full) = 2" "rs_size (hy_recr demo_empty) = 2"
  using demo_saved_ok demo_unified_ok rs_one_inv rs_new_inv [of 2] by (simp_all add: demo_full_def demo_empty_def rs_one_def rs_new_def LLAMA_MAX_SEQ_def)

lemma demo_rs_fit: "rs_layers_fit 2 2 [rs_demo_layer a] [rs_demo_layer b]"
  by (simp add: rs_layers_fit_def rs_demo_layer_def in_i32_def INT32_MIN_def INT32_MAX_def)


text \<open>C40. The state of an empty hybrid memory cannot be restored over one that is in use. The restore reports success, but the cache keeps everything
  it held, while the recurrent memory is cleared: it has the last positions of the saved memory. So the parts are no longer in step, and the hybrid memory
  reports the sequence as empty although the cache still holds its tokens.\<close>

theorem hybrid_empty_restore:
  assumes "kv_cache_inv n (hy_attn m)" "kv_cache_inv n2 (hy_attn m2)" "cache_fits n n2 (hy_attn m) klys (hy_attn m2) klys2"
    "rs_inv (hy_recr m)" "rs_inv (hy_recr m2)" "rs_savable n_seq_max (hy_recr m)" "n_seq_max \<le> rs_size (hy_recr m2)"
    "rs_layers_fit (rs_size (hy_recr m)) (rs_size (hy_recr m2)) rlys rlys2" "n_seq_max \<le> LLAMA_MAX_SEQ" "KV_State.occupied (kv_cells (hy_attn m) ! 0) = []"
  shows "\<exists>bs m' klys' rlys'. hybrid_state_write False m klys rlys (- 1) = Some bs \<and>
    hybrid_state_read False n_seq_max n_pos (- 1) (m2, klys2, rlys2) (bs @ rest) = Some (True, (m', klys', rlys'), rest) \<and>
    hy_attn m' = hy_attn m2 \<and> klys' = klys2 \<and>
    (\<forall>q < n_seq_max. q < rs_size (hy_recr m) \<longrightarrow> rs_seq_pos_max (int q) (hy_recr m') = rs_seq_pos_max (int q) (hy_recr m))"
  using hybrid_roundtrip [OF assms(1-9), of n_pos rest "[]"] assms(10) by (auto simp: Let_def)

theorem hybrid_empty_restore_witness:
  "\<exists>bs m' klys' rlys'. hybrid_state_write False demo_empty [demo_layer 0] [rs_demo_layer 50] (- 1) = Some bs \<and>
     hybrid_state_read False 1 1 (- 1) (demo_full, [demo_layer 10], [rs_demo_layer 1]) (bs @ []) = Some (True, (m', klys', rlys'), []) \<and>
     kv_seq_pos_max 0 (hy_attn m') = Some 5 \<and> hybrid_seq_pos_max 0 m' = Some (- 1)"
proof -
  have occ: "KV_State.occupied (kv_cells (hy_attn demo_empty) ! 0) = []"
    by code_simp
  have lys: "layers_fit 4 4 True 0 [demo_layer 0] [demo_layer 10]"
    by (simp add: layers_fit_def k_fits_def v_fits_def tensor_fits_def KV_State.same_shape_def demo_layer_def in_i32_def INT32_MIN_def INT32_MAX_def)
  have cfg: "kv_v_trans demo_unified" "kv_n_pos_per_embd demo_unified = 1" "kv_n_seq_max demo_unified = 1" "kv_n_stream demo_unified = 1"
    "\<not> pg_enabled (kv_pool demo_unified)"
    by (simp_all add: demo_unified_def kv_new_def Let_def LLAMA_MAX_SEQ_def pg_init_def)
  have fit: "cache_fits 4 4 (hy_attn demo_empty) [demo_layer 0] (hy_attn demo_full) [demo_layer 10]"
    unfolding cache_fits_def occ using lys cfg by (simp add: demo_empty_def demo_full_def LLAMA_MAX_SEQ_def)
  have sav: "rs_savable 1 (hy_recr demo_empty)" "rs_seq_pos_max 0 (hy_recr demo_empty) = - 1" "kv_seq_pos_max 0 (hy_attn demo_full) = Some 5"
    by code_simp+
  obtain bs m' klys' rlys' where h: "hybrid_state_write False demo_empty [demo_layer 0] [rs_demo_layer 50] (- 1) = Some bs"
    "hybrid_state_read False 1 1 (- 1) (demo_full, [demo_layer 10], [rs_demo_layer 1]) (bs @ []) = Some (True, (m', klys', rlys'), [])"
    "hy_attn m' = hy_attn demo_full" "\<forall>q < 1. q < rs_size (hy_recr demo_empty) \<longrightarrow> rs_seq_pos_max (int q) (hy_recr m') = rs_seq_pos_max (int q) (hy_recr demo_empty)"
    using hybrid_empty_restore [OF demo_hybrids(2,1) fit demo_hybrids(4,3) sav(1) demo_hybrids(5) _ demo_hybrids(7) occ, of "[rs_demo_layer 50]" "[rs_demo_layer 1]" 1 "[]"]
      demo_rs_fit demo_hybrids(8,9) by auto
  then have "rs_seq_pos_max 0 (hy_recr m') = - 1"
    using sav(2) demo_hybrids(9) by simp
  then have "hybrid_seq_pos_max 0 m' = Some (- 1)" "kv_seq_pos_max 0 (hy_attn m') = Some 5"
    using h(3) sav(3) by (simp_all add: hybrid_seq_pos_max_def)
  then show ?thesis
    using h(1,2) by blast
qed

end
