(* ===== verification/Spec2Isabelle.thy ===== *)
theory Spec2Isabelle
  imports KV_Inputs Grammar_Reject Grammar_Repeat Combined_State
begin

text \<open>
  Verification of the memory layer, the batch allocator and the grammar engine of the inference library under
  \<open>src/src\<close>.

  \<^bold>\<open>The program.\<close> A context receives batches of tokens. The batch allocator (\<open>llama_batch_allocr\<close>) checks and
  completes a batch and cuts it into ubatches. A memory (\<open>llama_memory_i\<close>) reserves cells for every ubatch in
  \<open>init_batch\<close>, hands out a memory context that walks through the ubatches (\<open>apply\<close>, \<open>next\<close>), and fills the inputs of
  the compute graph: where K and V are written, and which cells a token may attend to. Two memories exist: the KV
  cache (\<open>llama_kv_cache\<close>), whose metadata is an array of cells per stream (\<open>llama_kv_cells\<close>) and whose V rows may be
  paged, and the recurrent memory (\<open>llama_memory_recurrent\<close>), where a cell holds the whole state of a sequence. Three more
  combine them: a cache for the layers with full attention and one for the layers with a sliding window
  (\<open>llama_kv_cache_iswa\<close>), and a cache of either kind with a recurrent memory (\<open>llama_memory_hybrid\<close>,
  \<open>llama_memory_hybrid_iswa\<close>). Memories are saved to and restored from session files. Grammar-constrained sampling (\<open>llama_grammar\<close>) parses a grammar text
  and follows the generated text with pushdown stacks, masking the tokens that do not fit.

  \<^bold>\<open>The theories and the code.\<close>
  \<^item> \<open>Prelude\<close>: failing statements, checked 32-bit arithmetic, loops with early exit (\<open>mfold\<close>), lemmas on lists.
  \<^item> \<open>Ordered_Map\<close>, \<open>KV_Cells\<close>: \<open>llama-kv-cells.h\<close>, every member function of \<open>llama_kv_cells\<close>; the position counters
    of a sequence are a \<open>std::map\<close>, used through the locale of ordered maps.
  \<^item> \<open>Batch\<close>: \<open>llama-batch.cpp\<close>; \<open>init\<close> with all its checks, \<open>split_simple\<close>, \<open>split_equal\<close>, \<open>split_seq\<close>,
    \<open>ubatch_reserve\<close>.
  \<^item> \<open>Memory\<close>: \<open>llama-memory.h\<close> and \<open>llama-memory.cpp\<close>; statuses, the operations as a datatype, and the contract of
    every memory as the locale \<open>llama_memory\<close>, interpreted on the KV cache and on the recurrent memory, and for the
    combined memories through the locale \<open>memory_pair\<close>.
  \<^item> \<open>KV_Paging\<close>, \<open>KV_Cache\<close>, \<open>KV_Slots\<close>, \<open>KV_Apply\<close>, \<open>KV_Inputs\<close>, \<open>KV_State\<close>: \<open>llama-kv-cache.cpp\<close>; the page table
    of the V cache, the sequence operations and \<open>update\<close>, \<open>find_slot\<close>, \<open>apply_ubatch\<close> with \<open>prepare\<close> and the memory
    contexts, the graph inputs, and saving and restoring.
  \<^item> \<open>State_IO\<close>: \<open>llama-io.cpp\<close> and the stream classes of \<open>llama-context.cpp\<close>.
  \<^item> \<open>Recurrent\<close>, \<open>Recurrent_Inv\<close>, \<open>Recurrent_Slot\<close>, \<open>Recurrent_Find\<close>, \<open>Recurrent_Batch\<close>, \<open>Recurrent_State\<close>:
    \<open>llama-memory-recurrent.cpp\<close> and \<open>build_rs\<close> of \<open>llama-graph.cpp\<close>; the model, the invariant with the sequence
    operations, the phases of the search for a slot, the whole search with the use of the states by the graph,
    whole batches, and saving and restoring.
  \<^item> \<open>Combined\<close>, \<open>Combined_Step\<close>, \<open>Combined_State\<close>: \<open>llama-kv-cache-iswa.cpp\<close>, \<open>llama-memory-hybrid.cpp\<close> and
    \<open>llama-memory-hybrid-iswa.cpp\<close>; the operations of the three combined memories and the contract of a memory that
    forwards to two others, whole batches on a hybrid memory, and its saving and restoring.
  \<^item> \<open>Utf8\<close>, \<open>Grammar\<close>, \<open>Grammar_Lang\<close>, \<open>Grammar_Init\<close>, \<open>Grammar_Reject\<close>, \<open>Grammar_Parser\<close>, \<open>Grammar_Text\<close>,
    \<open>Grammar_Repeat\<close>: \<open>llama-grammar.cpp\<close>; the decoders, the engine, the language of its stacks, initialisation and
    the check for left recursion, rejection of candidates, the parser, what it guarantees, and repetitions.

  \<^bold>\<open>Conventions.\<close> Structures are records with the fields of the source, enumerations are datatypes, and the order of
  the statements is kept. A computation returns an option; \<open>None\<close> stands for a failed \<open>GGML_ASSERT\<close>, an access out of
  range, signed overflow, or a loop that does not end. Exceptions and reported errors are values of a sum type, and
  the Boolean or status a function returns is part of its result. Positions are signed 32-bit values as integers with
  the overflow checked; unsigned 32-bit arithmetic wraps by \<open>mod\<close>. Objects that share state are passed explicitly.
  Logging is left out, as are checks compiled only without \<open>NDEBUG\<close> that only log. Parameters stand for what is not
  modelled: the relevance score of a page, the vocabulary and tokenizer, the search with a regular expression, and the
  computation of the model on the state of a sequence. Tensors are lists of rows or bytes where the code moves them
  (states of the recurrent memory, session files) and a log of the calls where it only hands them on (K-shift, stream
  copies). Multiplying a state by zero is modelled as replacing it by the zero state.

  \<^bold>\<open>What is shown.\<close>
  \<^item> Invariants: the used set, the sequence sets and the position counters of the cells agree in every reachable state;
    every operation of a memory returns and keeps the invariant of the memory; the page table is injective; the two
    parts of a hybrid memory agree on the last position of every sequence over a batch whose rows are in order.
  \<^item> Functional behaviour: the splits partition an accepted batch; a slot is found exactly when the ubatch fits, for
    the recurrent memory always; a removal from a hybrid memory happens in both parts or in none;
    \<open>apply_ubatch\<close> and the sequence operations change exactly what they name; the mask equals its reference definition;
    the rows to be written are distinct and in range.
  \<^item> Refinement: processing a batch on the recurrent memory refines a map from sequences to states, however cells are
    moved, shared and staged; the stacks of a grammar denote the derivative of its language; a repetition generates
    between its bounds.
  \<^item> Round trips: cells through \<open>cp\<close> and \<open>set\<close>, a cache, a recurrent memory and a hybrid memory through a session
    file, code points through pieces of UTF-8.
  \<^item> Termination: loops that the source bounds are structural recursions. The search for a slot, the advance of a stack,
    the check for left recursion and the parser are \<open>partial_function (option)\<close> or recursions on the remaining input;
    that they return is a theorem for each of them, so that no statement depends on a bound chosen here.
  \<^item> Errors: \<open>hidden_left_recursion_diverges\<close>, \<open>reversed_bounds_explode\<close>, \<open>init_accepts_decreasing_positions\<close>,
    \<open>prepare_head_of_row\<close>, \<open>state_read_drops_streams\<close>, \<open>remove_all_leaves_tails\<close>, \<open>hybrid_out_of_step\<close> and
    \<open>hybrid_empty_restore\<close> show where the code does not do what it means to; further theorems describe error paths of \<open>split_equal\<close>, \<open>seq_div\<close> and the parser.

  \<^bold>\<open>Not modelled.\<close> The reports of memory sizes (\<open>memory_breakdown\<close>). The floating-point
  position buckets and the construction of graph tensors (calls of the tensor library); \<open>clone_impl\<close> of a grammar (relocation of pointers) and the printing of grammars; \<open>llama_context\<close> beyond its
  streams, models and their graphs beyond \<open>build_rs\<close>, model files, vocabularies, samplers, the tensor library and its
  back ends, and the programs under \<open>common\<close> and \<open>tools\<close>: numerical kernels, device and file I/O, and code around the
  library.
\<close>

section \<open>From grammar text to generated text\<close>

text \<open>Generated text arrives in pieces. \<open>feed\<close> accepts a piece; \<open>None\<close> if no stack is left.\<close>

definition feed :: "string \<Rightarrow> llama_grammar \<Rightarrow> llama_grammar option" where
  "feed piece g = do { (ok, g') \<leftarrow> llama_grammar_accept_str piece g; require ok; Some g' }"

lemma feed_ok:
  assumes "engine_ok (gr_rules g)" "good_stacks (gr_rules g) (gr_stacks g)" "decode_utf8 piece (gr_partial_utf8 g) = (xs @ [0], p)"
    and "xs @ w \<in> stacks_lang (gr_rules g) (set (gr_stacks g))"
  shows "\<exists>stacks. feed piece g = Some (g\<lparr>gr_stacks := stacks, gr_partial_utf8 := p\<rparr>) \<and> good_stacks (gr_rules g) stacks \<and>
    stacks_lang (gr_rules g) (set stacks) = {v. xs @ v \<in> stacks_lang (gr_rules g) (set (gr_stacks g))}"
proof -
  obtain stacks where s: "mfold llama_grammar_accept xs g = Some (g\<lparr>gr_stacks := stacks\<rparr>)" "good_stacks (gr_rules g) stacks"
    "stacks_lang (gr_rules g) (set stacks) = {v. xs @ v \<in> stacks_lang (gr_rules g) (set (gr_stacks g))}"
    using accept_all_ok [OF assms(1,2)] by blast
  have "stacks \<noteq> []"
    using s(3) assms(4) by (auto simp: stacks_lang_def)
  then show ?thesis
    using s assms(3) by (intro exI [of _ stacks]) (simp add: feed_def llama_grammar_accept_str_def)
qed

lemma feed_pieces_ok:
  assumes "engine_ok (gr_rules g)" "good_stacks (gr_rules g) (gr_stacks g)" "\<forall>cp \<in> set cps. code_point cp"
    and "utf8_rest (gr_partial_utf8 g) cps (concat pieces)" "cps @ w \<in> stacks_lang (gr_rules g) (set (gr_stacks g))"
  shows "\<exists>g'. mfold feed pieces g = Some g' \<and> gr_rules g' = gr_rules g \<and> good_stacks (gr_rules g) (gr_stacks g') \<and>
    stacks_lang (gr_rules g) (set (gr_stacks g')) = {v. cps @ v \<in> stacks_lang (gr_rules g) (set (gr_stacks g))}"
  using assms
proof (induction pieces arbitrary: g cps)
  case Nil
  have "utf8_encode cp \<noteq> []" for cp
    by (simp add: utf8_encode_def)
  then have "cps = []"
    using Nil.prems(4) by (cases cps) (auto simp: utf8_rest_def utf8_encode_all_def)
  then show ?case
    using Nil.prems by simp
next
  case (Cons s ss)
  obtain xs ys p where d: "decode_utf8 s (gr_partial_utf8 g) = (xs @ [0], p)" "cps = xs @ ys" "utf8_rest p ys (concat ss)"
    using decode_piece [OF Cons.prems(3), of "gr_partial_utf8 g" s "concat ss"] Cons.prems(4) by auto
  have "xs @ (ys @ w) \<in> stacks_lang (gr_rules g) (set (gr_stacks g))"
    using Cons.prems(5) d(2) by simp
  from feed_ok [OF Cons.prems(1,2) d(1) this] obtain stacks where
    f: "feed s g = Some (g\<lparr>gr_stacks := stacks, gr_partial_utf8 := p\<rparr>)" "good_stacks (gr_rules g) stacks"
    "stacks_lang (gr_rules g) (set stacks) = {v. xs @ v \<in> stacks_lang (gr_rules g) (set (gr_stacks g))}"
    by blast
  then show ?case
    using Cons.IH [of "g\<lparr>gr_stacks := stacks, gr_partial_utf8 := p\<rparr>" ys] Cons.prems d(2,3) by simp
qed

lemma init_str_ok:
  assumes "parse vocab src = Inr p" "map_of (symbol_ids p) root = Some start" "nat start < length (parser_rules p)"
    and "left_recursion_free (explicit_empty (parser_rules p)) (parser_rules p)" "nullable_explicit (parser_rules p)"
  shows "\<exists>g. llama_grammar_init_str vocab src root lazy patterns tokens = Some (Some g) \<and> gr_rules g = parser_rules p \<and>
    engine_ok (parser_rules p) \<and> good_stacks (parser_rules p) (gr_stacks g) \<and> gr_partial_utf8 g = no_partial \<and>
    stacks_lang (parser_rules p) (set (gr_stacks g)) = rule_lang (parser_rules p) (nat start)"
proof -
  let ?R = "parser_rules p"
  have wf: "wf_rules ?R"
    using parse_ok [of vocab src] assms(1) by simp
  note ok = explicit_engine_ok [OF wf assms(4,5)]
  obtain stacks where st: "init_stacks ?R (nat start) = Some stacks" "good_stacks ?R stacks" "stacks_lang ?R (set stacks) = rule_lang ?R (nat start)"
    using init_stacks_ok [OF ok assms(3)] by blast
  show ?thesis
    using check_exact [OF wf] copy_rules_id [OF wf] st ok assms
    by (auto simp: llama_grammar_init_str_def llama_grammar_init_impl_def)
qed

text \<open>C2. A grammar text steers generation as written. If the parser accepts the text, the start symbol has a rule, the
  grammar is not left recursive and its nullable rules have an empty alternate, then initialisation succeeds. For every text
  that can be continued to a sentence of the start rule, however its UTF-8 encoding is cut into pieces, all pieces are
  accepted one after the other, and afterwards the grammar allows the end of the generation if and only if the text is a
  sentence.\<close>

theorem grammar_text_steers:
  assumes "parse vocab src = Inr p" "map_of (symbol_ids p) root = Some start" "nat start < length (parser_rules p)"
    and "left_recursion_free (explicit_empty (parser_rules p)) (parser_rules p)" "nullable_explicit (parser_rules p)"
    and "\<forall>cp \<in> set cps. code_point cp" "concat pieces = utf8_encode_all cps" "cps @ w \<in> rule_lang (parser_rules p) (nat start)"
  shows "\<exists>g g'. llama_grammar_init_str vocab src root lazy patterns tokens = Some (Some g) \<and> mfold feed pieces g = Some g' \<and>
    ([] \<in> set (gr_stacks g') \<longleftrightarrow> cps \<in> rule_lang (parser_rules p) (nat start))"
proof -
  obtain g where g: "llama_grammar_init_str vocab src root lazy patterns tokens = Some (Some g)" "gr_rules g = parser_rules p"
    "engine_ok (parser_rules p)" "good_stacks (parser_rules p) (gr_stacks g)" "gr_partial_utf8 g = no_partial"
    "stacks_lang (parser_rules p) (set (gr_stacks g)) = rule_lang (parser_rules p) (nat start)"
    using init_str_ok [OF assms(1-5)] by blast
  have "utf8_rest (gr_partial_utf8 g) cps (concat pieces)"
    using g(5) assms(7) by (simp add: utf8_rest_def)
  then obtain g' where g': "mfold feed pieces g = Some g'" "good_stacks (parser_rules p) (gr_stacks g')"
    "stacks_lang (parser_rules p) (set (gr_stacks g')) = {v. cps @ v \<in> rule_lang (parser_rules p) (nat start)}"
    using feed_pieces_ok [of g cps pieces w] g assms(6,8) by auto
  then have "[] \<in> set (gr_stacks g') \<longleftrightarrow> cps \<in> rule_lang (parser_rules p) (nat start)"
    using Nil_in_good_stacks [OF g'(2)] by simp
  then show ?thesis
    using g(1) g'(1) by blast
qed

definition steer_text :: string where
  "steer_text = ''root ::= '' @ [CHR 0x22] @ ''a'' @ [CHR 0x22] @ '' root '' @ [CHR 0x22] @ ''b'' @ [CHR 0x22] @ '' |''"

lemma steer_word: "[97, 98] \<in> rule_lang demo_rules 0"
proof -
  have alt: "alternates demo_rules 0 = {(0, 0), (0, 4)}"
    by (simp add: alternates_def rule_starts_def demo_rules_def ge_def eval_nat_numeral)
  have 4: "derives demo_rules (0, 4) []" and 3: "derives demo_rules (0, 3) []"
    by (simp_all add: derives_end demo_rules_def ge_def end_type_def)
  have "derives demo_rules (0, 2) (98 # [])"
    using 3 by (intro derives.char_class) (simp_all add: demo_rules_def ge_def char_type_def class_accepts_def after_class_def)
  moreover have "etype demo_rules (0, 1) = GRE_RULE_REF" "target demo_rules (0, 1) = 0" "next_pos (0, 1) = (0, 2)"
    by (simp_all add: demo_rules_def ge_def next_pos_def)
  ultimately have 1: "derives demo_rules (0, 1) [98]"
    using derives.rule_ref [of demo_rules "(0, 1)" "(0, 4)" "[]" "[98]"] 4 alt by simp
  have "after_class demo_rules (0, 0) = (0, 1)" "class_accepts demo_rules (0, 0) 97" "char_type (etype demo_rules (0, 0))"
    by (simp_all add: demo_rules_def ge_def char_type_def class_accepts_def after_class_def)
  with 1 have "derives demo_rules (0, 0) [97, 98]"
    using derives.char_class [of demo_rules "(0, 0)" 97 "[98]"] by simp
  then show ?thesis
    using alt by (auto simp: rule_lang_def)
qed

theorem grammar_text_steers_witness:
  "\<exists>g g'. llama_grammar_init_str None steer_text ''root'' False [] [] = Some (Some g) \<and> mfold feed [''a'', ''b''] g = Some g' \<and>
    [] \<in> set (gr_stacks g')"
proof -
  have "parse None steer_text = Inr \<lparr>symbol_ids = [(''root'', 0)], parser_rules = demo_rules\<rparr>" (is "_ = Inr ?p")
    by code_simp
  then have "\<exists>g g'. llama_grammar_init_str None steer_text ''root'' False [] [] = Some (Some g) \<and> mfold feed [''a'', ''b''] g = Some g' \<and>
      ([] \<in> set (gr_stacks g') \<longleftrightarrow> [97, 98] \<in> rule_lang (parser_rules ?p) (nat 0))"
  proof (rule grammar_text_steers)
    show "nat 0 < length (parser_rules ?p)"
      by (simp add: demo_rules_def)
    show "concat [''a'', ''b''] = utf8_encode_all [97, 98]"
      by code_simp
    show "[97, 98] @ [] \<in> rule_lang (parser_rules ?p) (nat 0)"
      using steer_word by simp
  qed (use demo_rules_lr demo_rules_explicit in \<open>simp_all add: code_point_def\<close>)
  then show ?thesis
    using steer_word by simp
qed

end
